(* ===== verification/Prelude.thy ===== *)
theory Prelude
  imports Main "HOL-Library.Word" "HOL-Library.Monad_Syntax"
begin

text \<open>
  Shared vocabulary of the development: the machine types of the LP64 target the Makefiles
  build for, characters and NUL-terminated strings, what the C library routines used by the
  sources compute on them, and the generic lemmas the component theories share.

  Conventions used everywhere:
  \<^item> a pointer is an \<open>option\<close> of an address, \<open>None\<close> being \<open>NULL\<close>;
  \<^item> the result type \<open>'r option\<close> of an operation that dereferences pointers reads:
    \<open>None\<close> is undefined behaviour of the C program (a null or dangling dereference, an
    access out of bounds), \<open>Some r\<close> a regular return;
  \<^item> a C string is the list of its characters before the NUL; a character array is the
    list of all its cells, and \<open>cstr\<close> reads the string stored in it.
\<close>

unbundle bit_operations_syntax

section \<open>Types\<close>

type_synonym byte = "8 word"
type_synonym u16 = "16 word"
type_synonym u32 = "32 word"
type_synonym u64 = "64 word"
type_synonym addr = nat

abbreviation nul :: char where
  "nul \<equiv> CHR 0x00"

abbreviation slash :: char where
  "slash \<equiv> CHR ''/''"

section \<open>Strings in character arrays\<close>

text \<open>The string stored at the start of an array: everything before the first NUL.\<close>

definition cstr :: "char list \<Rightarrow> string" where
  "cstr buf = takeWhile (\<lambda>c. c \<noteq> nul) buf"

text \<open>A value that a C string can hold.\<close>

definition nul_free :: "string \<Rightarrow> bool" where
  "nul_free s \<longleftrightarrow> nul \<notin> set s"

text \<open>Overwriting the first cells of an array.\<close>

definition overwrite :: "'a list \<Rightarrow> 'a list \<Rightarrow> 'a list" where
  "overwrite buf xs = xs @ drop (length xs) buf"

lemma cstr_nul [simp]: "nul_free s \<Longrightarrow> cstr (s @ nul # rest) = s"
  by (induction s) (auto simp: cstr_def nul_free_def)

lemma cstr_id [simp]: "nul_free s \<Longrightarrow> cstr s = s"
  by (auto simp: cstr_def nul_free_def)

lemma cstr_pad [simp]: "nul_free s \<Longrightarrow> cstr (s @ replicate n nul) = s"
  by (cases n) simp_all

lemma nul_free_cstr [simp]: "nul_free (cstr buf)"
  by (auto simp: cstr_def nul_free_def dest: set_takeWhileD)

lemma length_cstr_le: "length (cstr buf) \<le> length buf"
  by (simp add: cstr_def length_takeWhile_le)

lemma nul_free_append [simp]: "nul_free (s @ t) \<longleftrightarrow> nul_free s \<and> nul_free t"
  by (auto simp: nul_free_def)

lemma nul_free_Nil [simp]: "nul_free []"
  by (simp add: nul_free_def)

lemma nul_free_Cons [simp]: "nul_free (c # s) \<longleftrightarrow> c \<noteq> nul \<and> nul_free s"
  by (auto simp: nul_free_def)

lemma nul_free_take [simp]: "nul_free s \<Longrightarrow> nul_free (take n s)"
  by (auto simp: nul_free_def dest: in_set_takeD)

lemma nul_free_drop [simp]: "nul_free s \<Longrightarrow> nul_free (drop n s)"
  by (auto simp: nul_free_def dest: in_set_dropD)

lemma length_overwrite [simp]:
  "length xs \<le> length buf \<Longrightarrow> length (overwrite buf xs) = length buf"
  by (simp add: overwrite_def)

lemma overwrite_all [simp]: "length xs = length buf \<Longrightarrow> overwrite buf xs = xs"
  by (simp add: overwrite_def)

section \<open>Array accesses\<close>

text \<open>Reading and writing one cell of an array; out of bounds is undefined behaviour.\<close>

definition peek :: "'a list \<Rightarrow> nat \<Rightarrow> 'a option" where
  "peek xs i = (if i < length xs then Some (xs ! i) else None)"

definition poke :: "'a list \<Rightarrow> nat \<Rightarrow> 'a \<Rightarrow> 'a list option" where
  "poke xs i v = (if i < length xs then Some (xs[i := v]) else None)"

lemma peek_append [simp]: "peek (xs @ ys) (length xs) = peek ys 0"
  by (simp add: peek_def nth_append)

lemma peek_Cons_0 [simp]: "peek (x # xs) 0 = Some x"
  by (simp add: peek_def)

lemma poke_append [simp]:
  "ys \<noteq> [] \<Longrightarrow> poke (xs @ ys) (length xs) v = Some (xs @ v # tl ys)"
  by (cases ys) (simp_all add: poke_def)

section \<open>Option results\<close>

lemma bind_SomeE:
  assumes "Option.bind m f = Some r"
  obtains x where "m = Some x" and "f x = Some r"
  using assms by (cases m) auto

lemma map_upd_None_empty: "dom h = {p} \<Longrightarrow> h(p := None) = Map.empty"
  by (auto simp: fun_eq_iff dom_def)

section \<open>Reading the ends of a list\<close>

definition hd_opt :: "'a list \<Rightarrow> 'a option \<Rightarrow> 'a option" where
  "hd_opt xs d = (case xs of [] \<Rightarrow> d | x # _ \<Rightarrow> Some x)"

definition last_opt :: "'a option \<Rightarrow> 'a list \<Rightarrow> 'a option" where
  "last_opt d xs = (if xs = [] then d else Some (last xs))"

lemma hd_opt_simps [simp]: "hd_opt [] d = d" "hd_opt (x # xs) d = Some x"
  by (simp_all add: hd_opt_def)

lemma last_opt_simps [simp]:
  "last_opt d [] = d" "last_opt d (xs @ [x]) = Some x" "last_opt d (x # xs) = last_opt (Some x) xs"
  by (simp_all add: last_opt_def)

lemma hd_opt_append [simp]: "hd_opt (xs @ ys) d = hd_opt xs (hd_opt ys d)"
  by (cases xs) simp_all

lemma last_opt_append [simp]: "last_opt d (xs @ ys) = last_opt (last_opt d xs) ys"
  by (simp add: last_opt_def)

lemma find_append:
  "find P (xs @ ys) = (case find P xs of Some x \<Rightarrow> Some x | None \<Rightarrow> find P ys)"
  by (induction xs) auto

section \<open>Machine integers\<close>

lemma sint_small: "unat (u::u32) < 2 ^ 31 \<Longrightarrow> sint u = int (unat u)"
proof -
  assume "unat u < 2 ^ 31"
  then have "uint u < 2 ^ 31" by (metis of_nat_less_iff of_nat_numeral of_nat_power uint_nat)
  moreover have "- (2 ^ 31) \<le> uint u" by (rule order_trans [OF _ uint_ge_0]) simp
  ultimately have "signed_take_bit 31 (uint u) = uint u"
    by (simp only: signed_take_bit_int_eq_self_iff)
  then show ?thesis by (simp add: sint_uint)
qed

lemma ucast_nat: "ucast w = of_nat (unat w)"
  by simp

section \<open>Characters\<close>

text \<open>The values of a \<open>char\<close>, unsigned and signed, and \<open>tolower\<close>, \<open>isspace\<close> and \<open>isdigit\<close> of the C
  locale.\<close>

abbreviation uchar :: "char \<Rightarrow> int" where
  "uchar c \<equiv> of_char c"

lemma uchar_bounds: "0 \<le> uchar c \<and> uchar c \<le> 255"
proof -
  have "uchar c = int (of_char c)" by (rule of_nat_of_char [symmetric])
  moreover have "(of_char c :: nat) < 256" by simp
  ultimately show ?thesis by linarith
qed

definition schar :: "char \<Rightarrow> int" where
  "schar c = (if uchar c < 128 then uchar c else uchar c - 256)"

definition tolower :: "char \<Rightarrow> char" where
  "tolower c = (let v = of_char c :: nat in if 65 \<le> v \<and> v \<le> 90 then char_of (v + 32) else c)"

definition isspace :: "char \<Rightarrow> bool" where
  "isspace c \<longleftrightarrow> c \<in> {CHR '' '', CHR 0x09, CHR 0x0A, CHR 0x0B, CHR 0x0C, CHR 0x0D}"

definition isdigit :: "char \<Rightarrow> bool" where
  "isdigit c \<longleftrightarrow> c \<in> set ''0123456789''"

section \<open>Reading lines\<close>

text \<open>\<open>fgets\<close>: up to \<open>num - 1\<close> characters, through the end of a line.\<close>

definition fgets :: "nat \<Rightarrow> string \<Rightarrow> string \<times> string" where
  "fgets num inp =
     (let l = takeWhile (\<lambda>c. c \<noteq> CHR 0x0A) inp; n = min (num - 1) (if length l < length inp then length l + 1 else length l) in
      (take n inp, drop n inp))"

lemma fgets_shorter: "(line, inp') = fgets num inp \<Longrightarrow> inp \<noteq> [] \<Longrightarrow> 1 < num \<Longrightarrow> length inp' < length inp"
  by (cases inp) (auto simp: fgets_def Let_def)

lemma fgets_line:
  assumes "CHR 0x0A \<notin> set l" "length l < num - 1"
  shows "fgets num (l @ CHR 0x0A # rest) = (l @ [CHR 0x0A], rest)"
proof -
  have "takeWhile (\<lambda>c. c \<noteq> CHR 0x0A) (l @ CHR 0x0A # rest) = l"
    using assms(1) by (subst takeWhile_append2) auto
  then show ?thesis using assms(2) by (simp add: fgets_def Let_def)
qed

section \<open>Searching\<close>

text \<open>The first occurrence of a string in another one.\<close>

fun find_sub :: "string \<Rightarrow> string \<Rightarrow> nat option" where
  "find_sub sep s =
     (if take (length sep) s = sep then Some 0
      else case s of [] \<Rightarrow> None | _ # t \<Rightarrow> map_option Suc (find_sub sep t))"

declare find_sub.simps [simp del]

lemma find_sub_SomeD: "find_sub sep s = Some k \<Longrightarrow> take (length sep) (drop k s) = sep \<and> k + length sep \<le> length s"
proof (induction s arbitrary: k)
  case Nil
  then show ?case by (subst (asm) find_sub.simps) (simp split: if_splits)
next
  case (Cons c s)
  show ?case
  proof (cases "take (length sep) (c # s) = sep")
    case True
    then have "k = 0" using Cons.prems by (subst (asm) find_sub.simps) simp
    moreover have "length sep \<le> length (c # s)" using True by (metis length_take min.cobounded1)
    ultimately show ?thesis using True by simp
  next
    case False
    then show ?thesis using Cons.prems Cons.IH by (subst (asm) find_sub.simps) auto
  qed
qed

section \<open>Decimal notation\<close>

text \<open>Most significant digit first, as \<open>%d\<close> prints it.\<close>

fun decimal :: "nat \<Rightarrow> string" where
  "decimal n = (if n < 10 then [] else decimal (n div 10)) @ [char_of (48 + n mod 10)]"

declare decimal.simps [simp del]

lemma decimal_length: "n < 10 ^ k \<Longrightarrow> 0 < k \<Longrightarrow> length (decimal n) \<le> k"
proof (induction k arbitrary: n)
  case (Suc k)
  then show ?case
    by (cases k) (auto simp: decimal.simps [of n] div_less_iff_less_mult)
qed simp

section \<open>Little-endian integers\<close>

fun le_chars :: "nat \<Rightarrow> nat \<Rightarrow> char list" where
  "le_chars 0 v = []"
| "le_chars (Suc n) v = char_of (v mod 256) # le_chars n (v div 256)"

fun le_val :: "char list \<Rightarrow> nat" where
  "le_val [] = 0"
| "le_val (c # cs) = of_char c + 256 * le_val cs"

lemma length_le_chars [simp]: "length (le_chars n v) = n"
  by (induction n arbitrary: v) simp_all

lemma le_val_chars: "le_val (le_chars n v) = v mod 256 ^ n"
proof (induction n arbitrary: v)
  case (Suc n)
  have "le_val (le_chars (Suc n) v) = v mod 256 + 256 * (v div 256 mod 256 ^ n)"
    by (simp add: Suc.IH of_char_of)
  then show ?case by (simp add: mod_mult2_eq ac_simps)
qed simp

lemma le_chars_val: "length cs = n \<Longrightarrow> le_chars n (le_val cs) = cs"
  by (induction cs arbitrary: n) auto

lemma le_val_less: "le_val cs < 256 ^ length cs"
proof (induction cs)
  case (Cons c cs)
  have "of_char c < (256::nat)" by simp
  then have "of_char c + 256 * le_val cs < 256 * (le_val cs + 1)" by simp
  also have "\<dots> \<le> 256 * 256 ^ length cs" using Cons by (intro mult_le_mono2) simp
  finally show ?case by simp
qed simp

section \<open>Reachable states\<close>

inductive reach :: "('s \<Rightarrow> bool) \<Rightarrow> ('s \<Rightarrow> 's \<Rightarrow> bool) \<Rightarrow> 's \<Rightarrow> bool" for init and step where
  reach_init: "init s \<Longrightarrow> reach init step s"
| reach_step: "reach init step s \<Longrightarrow> step s t \<Longrightarrow> reach init step t"

text \<open>An inductive invariant of a transition system holds in every reachable state.\<close>

locale inductive_invariant =
  fixes init :: "'s \<Rightarrow> bool" and step :: "'s \<Rightarrow> 's \<Rightarrow> bool" and inv :: "'s \<Rightarrow> bool"
  assumes init_inv: "init s \<Longrightarrow> inv s"
    and step_inv: "inv s \<Longrightarrow> step s t \<Longrightarrow> inv t"
begin

lemma reachable_inv: "reach init step s \<Longrightarrow> inv s"
  by (induction rule: reach.induct) (auto intro: init_inv step_inv)

lemma steps_inv:
  assumes "step\<^sup>*\<^sup>* s t" "inv s"
  shows "inv t"
  using assms by (induction rule: rtranclp_induct) (auto intro: step_inv)

end

section \<open>Sequences of operations\<close>

text \<open>Running operations that may fault; a guard names the operations that may be called in a state.\<close>

fun run_ops :: "('o \<Rightarrow> 's \<Rightarrow> ('r \<times> 's) option) \<Rightarrow> 'o list \<Rightarrow> 's \<Rightarrow> ('r list \<times> 's) option" where
  "run_ops step [] s = Some ([], s)"
| "run_ops step (x # xs) s =
     (case step x s of
        None \<Rightarrow> None
      | Some (r, s) \<Rightarrow> map_option (apfst ((#) r)) (run_ops step xs s))"

fun run_spec :: "('o \<Rightarrow> 'a \<Rightarrow> 'r \<times> 'a) \<Rightarrow> 'o list \<Rightarrow> 'a \<Rightarrow> 'r list \<times> 'a" where
  "run_spec spec [] a = ([], a)"
| "run_spec spec (x # xs) a = (case spec x a of (r, a) \<Rightarrow> apfst ((#) r) (run_spec spec xs a))"

fun run_guarded :: "('o \<Rightarrow> 's \<Rightarrow> bool) \<Rightarrow> ('o \<Rightarrow> 's \<Rightarrow> ('r \<times> 's) option) \<Rightarrow> 'o list \<Rightarrow> 's \<Rightarrow> bool" where
  "run_guarded guard step [] s \<longleftrightarrow> True"
| "run_guarded guard step (x # xs) s \<longleftrightarrow>
     guard x s \<and> (case step x s of None \<Rightarrow> True | Some (r, s) \<Rightarrow> run_guarded guard step xs s)"

text \<open>A specification that every guarded operation follows, with the same result, is followed by every
  guarded sequence of operations.\<close>

locale simulation =
  fixes guard :: "'o \<Rightarrow> 's \<Rightarrow> bool" and step :: "'o \<Rightarrow> 's \<Rightarrow> ('r \<times> 's) option"
    and spec :: "'o \<Rightarrow> 'a \<Rightarrow> 'r \<times> 'a" and rel :: "'s \<Rightarrow> 'a \<Rightarrow> bool"
  assumes step_sim: "rel s a \<Longrightarrow> guard x s \<Longrightarrow> \<exists>s'. step x s = Some (fst (spec x a), s') \<and> rel s' (snd (spec x a))"
begin

lemma run_sim:
  "rel s a \<Longrightarrow> run_guarded guard step xs s \<Longrightarrow>
    \<exists>s'. run_ops step xs s = Some (fst (run_spec spec xs a), s') \<and> rel s' (snd (run_spec spec xs a))"
proof (induction xs arbitrary: s a)
  case (Cons x xs)
  obtain s' where s': "step x s = Some (fst (spec x a), s')" "rel s' (snd (spec x a))"
    using step_sim [of s a x] Cons.prems by auto
  then obtain t where "run_ops step xs s' = Some (fst (run_spec spec xs (snd (spec x a))), t)"
      "rel t (snd (run_spec spec xs (snd (spec x a))))"
    using Cons.IH [OF s'(2)] Cons.prems(2) by auto
  then show ?case using s' by (auto split: prod.splits)
qed simp

end

end
