(* ===== verification/Compat_Strings.thy ===== *)
theory Compat_Strings
  imports Prelude
begin

text \<open>
  \<open>compat/\<close>: the string and path routines the archive library links against. Each routine
  is modelled on character arrays with bounds-checked accesses (\<open>peek\<close>, \<open>poke\<close>), so that a
  regular result is also a proof that it stays inside its buffers.
\<close>

section \<open>strlcpy and strlcat\<close>

text \<open>The copy loop of \<open>strlcpy\<close>: \<open>do { if ((*d++ = *s++) == 0) break; } while (--n != 0);\<close>
  entered with \<open>n > 0\<close>. Results: the destination, \<open>d\<close>, \<open>s\<close> and \<open>n\<close>.\<close>

fun strlcpy_copy :: "char list \<Rightarrow> nat \<Rightarrow> char list \<Rightarrow> nat \<Rightarrow> nat \<Rightarrow> (char list \<times> nat \<times> nat \<times> nat) option" where
  "strlcpy_copy dst d src s 0 = Some (dst, d, s, 0)"
| "strlcpy_copy dst d src s (Suc n) = do {
     c \<leftarrow> peek src s;
     dst \<leftarrow> poke dst d c;
     if c = nul then Some (dst, d + 1, s + 1, Suc n)
     else strlcpy_copy dst (d + 1) src (s + 1) n }"

text \<open>\<open>while (*s++) ;\<close>\<close>

function skip_to_nul :: "char list \<Rightarrow> nat \<Rightarrow> nat option" where
  "skip_to_nul src s =
     (case peek src s of None \<Rightarrow> None
      | Some c \<Rightarrow> if c \<noteq> nul then skip_to_nul src (s + 1) else Some (s + 1))"
  by pat_completeness auto
termination
  by (relation "measure (\<lambda>(src, s). length src - s)") (auto simp: peek_def split: if_splits)

declare skip_to_nul.simps [simp del]

definition strlcpy :: "char list \<Rightarrow> char list \<Rightarrow> nat \<Rightarrow> (nat \<times> char list) option" where
  "strlcpy dst src siz = do {
     (dst, d, s, n) \<leftarrow> (if siz \<noteq> 0 \<and> siz - 1 \<noteq> 0 then strlcpy_copy dst 0 src 0 (siz - 1)
                         else Some (dst, 0, 0, siz - 1));
     (dst, s) \<leftarrow> (if n = 0 then do {
          dst \<leftarrow> (if siz \<noteq> 0 then poke dst d nul else Some dst);
          s \<leftarrow> skip_to_nul src s;
          Some (dst, s) }
        else Some (dst, s));
     Some (s - 1, dst) }"

text \<open>\<open>strlcat\<close>: finding the end of \<open>dst\<close> within \<open>n\<close> cells, then appending.\<close>

fun strlcat_find :: "char list \<Rightarrow> nat \<Rightarrow> nat \<Rightarrow> nat option" where
  "strlcat_find dst d 0 = Some d"
| "strlcat_find dst d (Suc n) = do {
     c \<leftarrow> peek dst d;
     if c \<noteq> nul then strlcat_find dst (d + 1) n else Some d }"

function strlcat_copy :: "char list \<Rightarrow> nat \<Rightarrow> char list \<Rightarrow> nat \<Rightarrow> nat \<Rightarrow> (char list \<times> nat \<times> nat) option" where
  "strlcat_copy dst d src s n =
     (case peek src s of None \<Rightarrow> None
      | Some c \<Rightarrow>
        if c = nul then Some (dst, d, s)
        else if n \<noteq> 1 then
          (case poke dst d c of None \<Rightarrow> None
           | Some dst' \<Rightarrow> strlcat_copy dst' (d + 1) src (s + 1) (n - 1))
        else strlcat_copy dst d src (s + 1) n)"
  by pat_completeness auto
termination
  by (relation "measure (\<lambda>(dst, d, src, s, n). length src - s)") (auto simp: peek_def split: if_splits)

declare strlcat_copy.simps [simp del]

definition strlcat :: "char list \<Rightarrow> char list \<Rightarrow> nat \<Rightarrow> (nat \<times> char list) option" where
  "strlcat dst src siz = do {
     dlen \<leftarrow> strlcat_find dst 0 siz;
     let n = siz - dlen;
     if n = 0 then do { e \<leftarrow> skip_to_nul src 0; Some (dlen + (e - 1), dst) }
     else do {
       (dst, d, s) \<leftarrow> strlcat_copy dst dlen src 0 n;
       dst \<leftarrow> poke dst d nul;
       Some (dlen + s, dst) } }"

lemma skip_to_nul_spec:
  assumes "nul_free t"
  shows "skip_to_nul (pre @ t @ nul # rest) (length pre) = Some (length pre + length t + 1)"
  using assms
proof (induction t arbitrary: pre)
  case Nil
  then show ?case by (subst skip_to_nul.simps) simp
next
  case (Cons c t)
  then have "skip_to_nul ((pre @ [c]) @ t @ nul # rest) (length (pre @ [c])) = Some (length (pre @ [c]) + length t + 1)"
    by (intro Cons.IH) simp
  then show ?case
    using Cons.prems by (subst skip_to_nul.simps) simp
qed

lemma strlcpy_copy_spec:
  assumes "nul_free t" "n \<le> length suf" "0 < n"
  shows "strlcpy_copy (pre @ suf) (length pre) (spre @ t @ nul # rest) (length spre) n =
    (if length t < n then Some (pre @ t @ nul # drop (length t + 1) suf, length pre + length t + 1,
                                length spre + length t + 1, n - length t)
     else Some (pre @ take n t @ drop n suf, length pre + n, length spre + n, 0))"
  using assms
proof (induction t arbitrary: n pre suf spre)
  case Nil
  then show ?case by (cases n; cases suf) simp_all
next
  case (Cons c t)
  obtain m where n: "n = Suc m" using Cons.prems(3) by (cases n) auto
  obtain x suf' where suf: "suf = x # suf'" using Cons.prems(2) n by (cases suf) auto
  show ?case
  proof (cases "m = 0")
    case True
    then show ?thesis using Cons.prems by (simp add: n suf)
  next
    case False
    then show ?thesis
      using Cons.prems Cons.IH [of m suf' "pre @ [c]" "spre @ [c]"] by (simp add: n suf)
  qed
qed

lemma strlcpy_eq:
  assumes "nul_free t" "siz \<le> length dst"
  shows "strlcpy dst (t @ nul # rest) siz =
    Some (length t, if siz = 0 then dst else overwrite dst (take (siz - 1) t @ [nul]))"
proof (cases "siz \<le> 1")
  case True
  then have "siz = 0 \<or> siz = 1" by auto
  then show ?thesis
    using assms skip_to_nul_spec [of t "[]" rest]
    by (cases dst) (auto simp: strlcpy_def overwrite_def poke_def)
next
  case False
  have copy: "strlcpy_copy dst 0 (t @ nul # rest) 0 (siz - 1) =
    (if length t < siz - 1 then Some (t @ nul # drop (length t + 1) dst, length t + 1, length t + 1, siz - 1 - length t)
     else Some (take (siz - 1) t @ drop (siz - 1) dst, siz - 1, siz - 1, 0))"
    using strlcpy_copy_spec [of t "siz - 1" dst "[]" "[]" rest] assms False by simp
  show ?thesis
  proof (cases "length t < siz - 1")
    case True
    then have "\<not> siz \<le> Suc (length t)" by simp
    then show ?thesis using copy False True by (simp add: strlcpy_def overwrite_def)
  next
    case long: False
    define m where "m = siz - 1"
    have ml: "m \<le> length t" "m < length dst" "siz = Suc m"
      using long False assms(2) by (auto simp: m_def)
    have skip: "skip_to_nul (t @ nul # rest) m = Some (length t + 1)"
      using skip_to_nul_spec [of "drop m t" "take m t" rest] assms(1) ml
      by (simp add: append_assoc [symmetric] del: append_assoc)
    obtain x where "drop m dst = x # drop (Suc m) dst"
      using ml(2) by (metis Cons_nth_drop_Suc)
    then have "poke (take m t @ drop m dst) m nul = Some (take m t @ nul # drop (Suc m) dst)"
      using poke_append [of "drop m dst" "take m t" nul] ml by simp
    then show ?thesis
      using copy long False skip ml by (simp add: strlcpy_def overwrite_def)
  qed
qed

lemma strlcat_find_spec:
  assumes "nul_free t"
  shows "length t < n \<Longrightarrow> strlcat_find (pre @ t @ nul # rest) (length pre) n = Some (length pre + length t)"
    and "n \<le> length t \<Longrightarrow> strlcat_find (pre @ t @ rest') (length pre) n = Some (length pre + n)"
  using assms
proof (induction t arbitrary: n pre)
  case Nil
  {
    case 1 then show ?case by (cases n) simp_all
  next
    case 2 then show ?case by simp
  }
next
  case (Cons c t)
  {
    case 1
    then obtain m where "n = Suc m" by (cases n) auto
    then show ?case using 1 Cons.IH(1) [of m "pre @ [c]"] by simp
  next
    case 2
    then show ?case
    proof (cases n)
      case (Suc m)
      then show ?thesis using 2 Cons.IH(2) [of m "pre @ [c]"] by simp
    qed simp
  }
qed

lemma strlcat_copy_spec:
  assumes "nul_free t" "n \<le> length suf" "0 < n"
  shows "strlcat_copy (pre @ suf) (length pre) (spre @ t @ nul # rest) (length spre) n =
    Some (pre @ take (n - 1) t @ drop (min (n - 1) (length t)) suf, length pre + min (n - 1) (length t),
          length spre + length t)"
  using assms
proof (induction t arbitrary: n pre suf spre)
  case Nil
  then show ?case by (subst strlcat_copy.simps) simp
next
  case (Cons c t)
  have peek: "peek (spre @ (c # t) @ nul # rest) (length spre) = Some c" by simp
  show ?case
  proof (cases "n = 1")
    case True
    have "strlcat_copy (pre @ suf) (length pre) ((spre @ [c]) @ t @ nul # rest) (length (spre @ [c])) n =
      Some (pre @ suf, length pre, length spre + length t + 1)"
      using Cons.prems True by (subst Cons.IH) simp_all
    then show ?thesis
      using Cons.prems True peek by (subst strlcat_copy.simps) simp
  next
    case False
    then obtain m where n: "n = Suc (Suc m)" using Cons.prems(3) by (metis One_nat_def Suc_pred not0_implies_Suc)
    obtain x suf' where suf: "suf = x # suf'" using Cons.prems(2) n by (cases suf) auto
    show ?thesis
      using Cons.prems Cons.IH [of "Suc m" suf' "pre @ [c]" "spre @ [c]"] peek
      by (subst strlcat_copy.simps) (simp add: n suf)
  qed
qed

lemma strlcat_eq:
  assumes "nul_free a" "nul_free t" "siz \<le> length (a @ nul # room)"
  shows "strlcat (a @ nul # room) (t @ nul # rest) siz =
    Some (min siz (length a) + length t,
      if siz \<le> length a then a @ nul # room
      else overwrite (a @ nul # room) (a @ take (siz - length a - 1) t @ [nul]))"
proof (cases "siz \<le> length a")
  case True
  have "strlcat_find (a @ nul # room) 0 siz = Some siz"
    using strlcat_find_spec(2) [of a siz "[]" "nul # room"] assms True by simp
  then show ?thesis
    using True skip_to_nul_spec [of t "[]" rest] assms by (simp add: strlcat_def Let_def min_def)
next
  case False
  define n where "n = siz - length a"
  have n: "0 < n" "n \<le> length (nul # room)"
    using False assms(3) by (auto simp: n_def)
  have find: "strlcat_find (a @ nul # room) 0 siz = Some (length a)"
    using strlcat_find_spec(1) [of a siz "[]" room] assms False by simp
  let ?k = "min (n - 1) (length t)"
  have copy: "strlcat_copy (a @ nul # room) (length a) (t @ nul # rest) 0 n =
      Some (a @ take (n - 1) t @ drop ?k (nul # room), length a + ?k, length t)"
    using strlcat_copy_spec [of t n "nul # room" a "[]" rest] assms n by simp
  have k: "?k < length (nul # room)" using n by simp
  then have "drop ?k (nul # room) \<noteq> []" by (auto simp: min_def split: if_splits)
  then have "poke ((a @ take (n - 1) t) @ drop ?k (nul # room)) (length (a @ take (n - 1) t)) nul =
      Some ((a @ take (n - 1) t) @ nul # tl (drop ?k (nul # room)))"
    by (rule poke_append)
  then have "poke (a @ take (n - 1) t @ drop ?k (nul # room)) (length a + ?k) nul =
      Some (a @ take (n - 1) t @ nul # drop ?k room)"
    by (simp add: min.commute drop_Suc [symmetric] tl_drop)
  then show ?thesis
    using find copy False by (simp add: strlcat_def Let_def n_def overwrite_def min.commute)
qed


section \<open>strsep\<close>

text \<open>The inner loop of \<open>compat_strsep\<close> over the delimiter string, NUL included:
  does \<open>c\<close> end the token?\<close>

fun strsep_span :: "char list \<Rightarrow> char \<Rightarrow> bool option" where
  "strsep_span [] c = None"
| "strsep_span (sc # delim) c =
     (if sc = c then Some True else if sc \<noteq> nul then strsep_span delim c else Some False)"

text \<open>The scan \<open>for (tok = s;;) { c = *s++; ... }\<close>. Result: memory and \<open>*stringp\<close>.\<close>

function strsep_scan :: "char list \<Rightarrow> char list \<Rightarrow> nat \<Rightarrow> (char list \<times> nat option) option" where
  "strsep_scan mem delim s =
     (case peek mem s of None \<Rightarrow> None
      | Some c \<Rightarrow>
        (case strsep_span delim c of None \<Rightarrow> None
         | Some True \<Rightarrow> if c = nul then Some (mem, None) else Some (mem[s := nul], Some (s + 1))
         | Some False \<Rightarrow> strsep_scan mem delim (s + 1)))"
  by pat_completeness auto
termination
  by (relation "measure (\<lambda>(mem, delim, s). length mem - s)") (auto simp: peek_def split: if_splits)

declare strsep_scan.simps [simp del]

definition compat_strsep ::
  "char list \<Rightarrow> nat option \<Rightarrow> char list \<Rightarrow> (nat option \<times> char list \<times> nat option) option" where
  "compat_strsep mem stringp delim =
     (case stringp of None \<Rightarrow> Some (None, mem, None)
      | Some s \<Rightarrow> map_option (\<lambda>(mem', sp). (Some s, mem', sp)) (strsep_scan mem delim s))"

text \<open>The callers' loop \<open>while ((tok = strsep(&sp, delim)) != NULL)\<close> (in \<open>mkdirhier\<close> and
  \<open>libtar_list_add_str\<close>) collects the tokens; this is what it must collect.\<close>

fun split_on :: "(char \<Rightarrow> bool) \<Rightarrow> string \<Rightarrow> string list" where
  "split_on P [] = [[]]"
| "split_on P (c # s) = (if P c then [] # split_on P s
     else (case split_on P s of [] \<Rightarrow> [[c]] | t # ts \<Rightarrow> (c # t) # ts))"

text \<open>\<open>sep_loop\<close> is that loop for a body \<open>f\<close> that consumes a token and may stop with a value.
  The fuel bounds the number of tokens; one more than the array's length is enough.\<close>

fun sep_loop :: "nat \<Rightarrow> char list \<Rightarrow> nat option \<Rightarrow> char list \<Rightarrow> (string \<Rightarrow> 's \<Rightarrow> 'r + 's) \<Rightarrow> 's \<Rightarrow> ('r + 's) option" where
  "sep_loop 0 mem sp delim f st = None"
| "sep_loop (Suc n) mem sp delim f st =
     (case compat_strsep mem sp delim of
        None \<Rightarrow> None
      | Some (None, _, _) \<Rightarrow> Some (Inr st)
      | Some (Some tok, mem', sp') \<Rightarrow>
          (case f (cstr (drop tok mem')) st of
             Inl r \<Rightarrow> Some (Inl r)
           | Inr st' \<Rightarrow> sep_loop n mem' sp' delim f st'))"

fun token_fold :: "(string \<Rightarrow> 's \<Rightarrow> 'r + 's) \<Rightarrow> string list \<Rightarrow> 's \<Rightarrow> 'r + 's" where
  "token_fold f [] s = Inr s"
| "token_fold f (t # ts) s = (case f t s of Inl r \<Rightarrow> Inl r | Inr s' \<Rightarrow> token_fold f ts s')"

lemma strsep_span_spec:
  "nul_free delim \<Longrightarrow> strsep_span (delim @ nul # rest) c = Some (c = nul \<or> c \<in> set delim)"
  by (induction delim) auto

lemma split_on_neq_Nil [simp]: "split_on P s \<noteq> []"
  by (induction s) (auto split: list.splits)

lemma split_on_span:
  "split_on P s = takeWhile (\<lambda>c. \<not> P c) s #
     (case dropWhile (\<lambda>c. \<not> P c) s of [] \<Rightarrow> [] | _ # s' \<Rightarrow> split_on P s')"
  by (induction s) (auto split: list.splits)

lemma strsep_scan_token:
  assumes "nul_free t" "nul_free delim" "set t \<inter> set delim = {}"
  shows "strsep_scan (pre @ t @ nul # rest) (delim @ [nul]) (length pre) = Some (pre @ t @ nul # rest, None)"
    and "d \<in> set delim \<Longrightarrow> strsep_scan (pre @ t @ d # rest) (delim @ [nul]) (length pre) =
      Some (pre @ t @ nul # rest, Some (length pre + length t + 1))"
  using assms
proof (induction t arbitrary: pre)
  case Nil
  {
    case 1
    then show ?case by (subst strsep_scan.simps) (simp add: strsep_span_spec)
  next
    case 2
    then have "d \<noteq> nul" by (auto simp: nul_free_def)
    with 2 show ?case by (subst strsep_scan.simps) (simp add: strsep_span_spec)
  }
next
  case (Cons c t)
  have c: "strsep_span (delim @ [nul]) c = Some False" if "nul_free (c # t)" "nul_free delim" "set (c # t) \<inter> set delim = {}"
    using that by (simp add: strsep_span_spec)
  {
    case 1
    then show ?case
      using Cons.IH(1) [of "pre @ [c]"] c by (subst strsep_scan.simps) simp
  next
    case 2
    then show ?case
      using Cons.IH(2) [of "pre @ [c]"] c by (subst strsep_scan.simps) simp
  }
qed

lemma sep_loop_tokens:
  assumes "nul_free s" "nul_free delim" "length s + 1 < n"
  shows "sep_loop n (pre @ s @ nul # rest) (Some (length pre)) (delim @ [nul]) f st =
     Some (token_fold f (split_on (\<lambda>c. c \<in> set delim) s) st)"
  using assms
proof (induction n arbitrary: s pre st)
  case 0
  then show ?case by simp
next
  case (Suc n)
  let ?P = "\<lambda>c. c \<notin> set delim"
  define t where "t = takeWhile ?P s"
  have t: "nul_free t" "set t \<inter> set delim = {}"
    using Suc.prems(1) by (auto simp: t_def nul_free_def dest: set_takeWhileD)
  obtain m where n: "n = Suc m" using Suc.prems(3) by (cases n) auto
  show ?case
  proof (cases "dropWhile ?P s")
    case Nil
    then have s: "s = t" by (metis append_Nil2 takeWhile_dropWhile_id t_def)
    have "split_on (\<lambda>c. c \<in> set delim) s = [t]"
      by (subst split_on_span) (simp only: Nil list.case t_def)
    then show ?thesis
      using strsep_scan_token(1) [OF t(1) Suc.prems(2) t(2), of pre rest] Suc.prems(3) t(1)
      by (simp add: compat_strsep_def s n split: sum.splits)
  next
    case (Cons d s')
    then have s: "s = t @ d # s'" and d: "d \<in> set delim"
      using takeWhile_dropWhile_id [of ?P s] hd_dropWhile [of ?P s] by (simp_all add: t_def)
    have split: "split_on (\<lambda>c. c \<in> set delim) (t @ d # s') = t # split_on (\<lambda>c. c \<in> set delim) s'"
      unfolding s [symmetric] using Cons by (subst split_on_span) (simp add: t_def)
    have IH: "sep_loop n ((pre @ t @ [nul]) @ s' @ nul # rest) (Some (length (pre @ t @ [nul]))) (delim @ [nul]) f st' =
        Some (token_fold f (split_on (\<lambda>c. c \<in> set delim) s') st')" for st'
      using Suc.prems by (intro Suc.IH) (simp_all add: s)
    show ?thesis
      using strsep_scan_token(2) [OF t(1) Suc.prems(2) t(2) d, of pre "s' @ nul # rest"] t(1) IH
      by (simp add: compat_strsep_def s split split: sum.splits)
  qed
qed

end
