(* ===== verification/Compat_Paths.thy ===== *)
theory Compat_Paths
  imports Compat_Strings
begin

text \<open>
  \<open>compat/basename.c\<close>, \<open>compat/cdirname.c\<close>, \<open>compat/mkdirhier.c\<close>, \<open>compat/strrstr.c\<close> and
  \<open>compat/strmode.c\<close>: path components, creation of directory chains, the last occurrence of
  a substring and the \<open>ls -l\<close> rendering of a file mode.
\<close>

section \<open>basename and dirname\<close>

definition MAXPATHLEN :: nat where
  "MAXPATHLEN = 4096"

text \<open>\<open>while (endp > path && P(*endp)) endp--;\<close>\<close>

fun back_while :: "(char \<Rightarrow> bool) \<Rightarrow> string \<Rightarrow> nat \<Rightarrow> nat" where
  "back_while P path 0 = 0"
| "back_while P path (Suc e) = (if P (path ! Suc e) then back_while P path e else Suc e)"

text \<open>\<open>while (startp > path && *(startp - 1) != '/') startp--;\<close>\<close>

fun base_start :: "string \<Rightarrow> nat \<Rightarrow> nat" where
  "base_start path 0 = 0"
| "base_start path (Suc s) = (if path ! s \<noteq> slash then base_start path s else Suc s)"

text \<open>The common end of both routines: refuse names longer than the static buffer, copy
  \<open>len\<close> characters and terminate them. The terminator of a name of exactly
  \<open>MAXPATHLEN\<close> characters lies outside the buffer.\<close>

definition path_result :: "string \<Rightarrow> nat \<Rightarrow> nat \<Rightarrow> string option option" where
  "path_result path start len =
     (if len > MAXPATHLEN then Some None
      else if len = MAXPATHLEN then None
      else Some (Some (take len (drop start path))))"

definition compat_basename :: "string option \<Rightarrow> string option option" where
  "compat_basename pathp =
     (case pathp of None \<Rightarrow> Some (Some ''.'')
      | Some path \<Rightarrow>
        if path = [] then Some (Some ''.'')
        else let endp = back_while (\<lambda>c. c = slash) path (length path - 1)
        in if endp = 0 \<and> path ! endp = slash then Some (Some ''/'')
        else let startp = base_start path endp
        in path_result path startp (endp - startp + 1))"

text \<open>\<open>do { endp--; } while (endp > path && *endp == '/');\<close>\<close>

definition compat_cdirname :: "string option \<Rightarrow> string option option" where
  "compat_cdirname pathp =
     (case pathp of None \<Rightarrow> Some (Some ''.'')
      | Some path \<Rightarrow>
        if path = [] then Some (Some ''.'')
        else let endp = back_while (\<lambda>c. c = slash) path (length path - 1);
                 endp = back_while (\<lambda>c. c \<noteq> slash) path endp
        in if endp = 0 then Some (Some (if path ! endp = slash then ''/'' else ''.''))
        else let endp = back_while (\<lambda>c. c = slash) path (endp - 1)
        in path_result path 0 (endp + 1))"

text \<open>What the two routines mean: drop trailing slashes, then split at the last slash.\<close>

definition rstrip_slashes :: "string \<Rightarrow> string" where
  "rstrip_slashes s = rev (dropWhile (\<lambda>c. c = slash) (rev s))"

definition last_component :: "string \<Rightarrow> string" where
  "last_component s = rev (takeWhile (\<lambda>c. c \<noteq> slash) (rev s))"

definition before_last_component :: "string \<Rightarrow> string" where
  "before_last_component s = rev (dropWhile (\<lambda>c. c \<noteq> slash) (rev s))"

definition base_spec :: "string \<Rightarrow> string" where
  "base_spec p = (if p = [] then ''.'' else if rstrip_slashes p = [] then ''/''
     else last_component (rstrip_slashes p))"

definition dir_spec :: "string \<Rightarrow> string" where
  "dir_spec p = (if p = [] then ''.''
     else if rstrip_slashes p \<noteq> [] \<and> before_last_component (rstrip_slashes p) = [] then ''.''
     else let d = rstrip_slashes (before_last_component (rstrip_slashes p))
       in if d = [] then ''/'' else d)"

lemma component_Nil [simp]: "rstrip_slashes [] = []" "before_last_component [] = []" "last_component [] = []"
  by (simp_all add: rstrip_slashes_def before_last_component_def last_component_def)

lemma rstrip_snoc [simp]: "rstrip_slashes (s @ [slash]) = rstrip_slashes s" "rstrip_slashes [slash] = []"
  by (simp_all add: rstrip_slashes_def)

text \<open>Both routines work on the decomposition of a path into its body and trailing slashes,
  and of the body into everything up to its last slash and the component after it.\<close>

lemma back_while_hit:
  assumes "\<not> P x" "\<forall>c\<in>set b. P c"
  shows "back_while P (a @ x # b @ r) (length a + length b) = length a"
  using assms(2)
proof (induction b arbitrary: r rule: rev_induct)
  case Nil
  show ?case
  proof (cases a rule: rev_cases)
    case (snoc a' y)
    then show ?thesis using assms(1) by (simp add: nth_append)
  qed simp
next
  case (snoc c b)
  then show ?case using snoc.IH [of "c # r"] by (simp add: nth_append)
qed

lemma back_while_all:
  assumes "\<forall>c\<in>set b. P c"
  shows "back_while P (x # b @ r) (length b) = 0"
  using assms
proof (induction b arbitrary: r rule: rev_induct)
  case (snoc c b)
  then show ?case using snoc.IH [of "c # r"] by (simp add: nth_append)
qed simp

lemma base_start_hit:
  assumes "\<forall>c\<in>set b. c \<noteq> slash" "a = [] \<or> last a = slash"
  shows "base_start (a @ b @ r) (length a + length b) = length a"
  using assms(1)
proof (induction b arbitrary: r rule: rev_induct)
  case Nil
  show ?case
  proof (cases a rule: rev_cases)
    case (snoc a' y)
    then show ?thesis using assms(2) by (simp add: nth_append)
  qed simp
next
  case (snoc c b)
  then show ?case using snoc.IH [of "c # r"] by (simp add: nth_append)
qed

lemma rstrip_split: "\<exists>n. p = rstrip_slashes p @ replicate n slash"
proof -
  have "\<forall>c\<in>set (takeWhile (\<lambda>c. c = slash) (rev p)). c = slash"
    by (auto dest: set_takeWhileD)
  then have "takeWhile (\<lambda>c. c = slash) (rev p) = replicate (length (takeWhile (\<lambda>c. c = slash) (rev p))) slash"
    by (metis replicate_length_same)
  then have "rev p = replicate (length (takeWhile (\<lambda>c. c = slash) (rev p))) slash @ dropWhile (\<lambda>c. c = slash) (rev p)"
    by (metis takeWhile_dropWhile_id)
  then show ?thesis
    unfolding rstrip_slashes_def by (metis rev_append rev_replicate rev_rev_ident)
qed

lemma rstrip_last: "rstrip_slashes p \<noteq> [] \<Longrightarrow> last (rstrip_slashes p) \<noteq> slash"
  using hd_dropWhile [of "\<lambda>c. c = slash" "rev p"] by (auto simp: rstrip_slashes_def last_rev)

lemma component_split: "s = before_last_component s @ last_component s"
  unfolding before_last_component_def last_component_def
  by (metis rev_append rev_rev_ident takeWhile_dropWhile_id)

lemma component_no_slash: "\<forall>c\<in>set (last_component s). c \<noteq> slash"
  by (auto simp: last_component_def dest: set_takeWhileD)

lemma before_component_slash:
  "before_last_component s = [] \<or> last (before_last_component s) = slash"
  using hd_dropWhile [of "\<lambda>c. c \<noteq> slash" "rev s"] by (auto simp: before_last_component_def last_rev)

lemma last_component_nonempty:
  assumes "s \<noteq> []" "last s \<noteq> slash"
  shows "last_component s \<noteq> []"
proof -
  obtain c r where "rev s = c # r" using assms(1) by (cases "rev s") auto
  moreover from this have "last s = c" by (metis hd_rev list.sel(1))
  ultimately show ?thesis using assms(2) by (simp add: last_component_def)
qed

text \<open>The index the first scan of both routines stops at.\<close>

lemma trailing_scan:
  assumes "p \<noteq> []"
  shows "back_while (\<lambda>c. c = slash) p (length p - 1) = length (rstrip_slashes p) - 1"
proof -
  obtain n where p: "p = rstrip_slashes p @ replicate n slash" using rstrip_split by blast
  show ?thesis
  proof (cases "rstrip_slashes p" rule: rev_cases)
    case Nil
    then have "p = slash # replicate (n - 1) slash" using p assms by (cases n) auto
    then show ?thesis
      using Nil back_while_all [of "replicate (n - 1) slash" "\<lambda>c. c = slash" slash "[]"] by simp
  next
    case (snoc b x)
    then have "x \<noteq> slash" using rstrip_last [of p] by simp
    then show ?thesis
      using back_while_hit [of "\<lambda>c. c = slash" x "replicate n slash" b "[]"] p snoc
      by (metis add_diff_cancel_right' append.assoc append_Cons append_Nil append_Nil2 diff_Suc_1'
          in_set_replicate length_append length_append_singleton length_replicate add_Suc_shift diff_Suc_Suc minus_nat.diff_0 One_nat_def)
  qed
qed


lemma path_decompose:
  "\<exists>n. p = before_last_component (rstrip_slashes p) @ last_component (rstrip_slashes p) @ replicate n slash"
proof -
  obtain n where "p = rstrip_slashes p @ replicate n slash" using rstrip_split by blast
  also have "\<dots> = (before_last_component (rstrip_slashes p) @ last_component (rstrip_slashes p)) @ replicate n slash"
    by (rule arg_cong [where f = "\<lambda>s. s @ replicate n slash", OF component_split])
  finally show ?thesis unfolding append_assoc by blast
qed

lemma rstrip_length: "length (rstrip_slashes p) \<le> length p"
  by (metis length_append rstrip_split le_add1)

lemma rstrip_prefix: "i < length (rstrip_slashes p) \<Longrightarrow> p ! i = rstrip_slashes p ! i"
  by (metis nth_append rstrip_split)

lemma rstrip_Nil_hd: "p \<noteq> [] \<Longrightarrow> rstrip_slashes p = [] \<Longrightarrow> p ! 0 = slash"
proof -
  assume "p \<noteq> []" "rstrip_slashes p = []"
  then obtain n where "p = replicate n slash" "n \<noteq> 0"
    by (metis append_Nil replicate_empty rstrip_split)
  then show ?thesis by simp
qed

lemma compat_basename_eq:
  assumes "length p < MAXPATHLEN"
  shows "compat_basename (Some p) = Some (Some (base_spec p))"
proof (cases "p = []")
  case True
  then show ?thesis by (simp add: compat_basename_def base_spec_def)
next
  case ne: False
  show ?thesis
  proof (cases "rstrip_slashes p = []")
    case True
    then show ?thesis
      using ne trailing_scan [OF ne] rstrip_Nil_hd [OF ne]
      by (simp add: compat_basename_def base_spec_def)
  next
    case False
    define a where "a = before_last_component (rstrip_slashes p)"
    define b where "b = last_component (rstrip_slashes p)"
    have ab: "rstrip_slashes p = a @ b" unfolding a_def b_def by (rule component_split)
    have b: "b \<noteq> []" "\<forall>c\<in>set b. c \<noteq> slash"
      using last_component_nonempty [OF False rstrip_last [OF False]] component_no_slash
      by (simp_all add: b_def)
    have a: "a = [] \<or> last a = slash" using before_component_slash [of "rstrip_slashes p"] by (simp add: a_def)
    obtain b' x where b': "b = b' @ [x]" using b(1) by (cases b rule: rev_cases) auto
    from path_decompose [of p, folded a_def b_def] obtain n where p: "p = a @ b @ replicate n slash" ..
    have "p ! (length a + length b - 1) \<noteq> slash"
      using b by (simp add: p b' nth_append)
    then have scan: "back_while (\<lambda>c. c = slash) p (length p - 1) = length a + length b'"
        "p ! (length a + length b') \<noteq> slash"
      using trailing_scan [OF ne] by (simp_all add: ab b')
    have start: "base_start p (length a + length b') = length a"
      using base_start_hit [of b' a "x # replicate n slash"] b a by (simp add: p b')
    have "length b < MAXPATHLEN" using assms by (simp add: p)
    then have "path_result p (length a) (length b) = Some (Some b)"
      by (simp add: path_result_def p)
    then show ?thesis
      using ne False scan start by (auto simp: compat_basename_def base_spec_def b_def [symmetric] b')
  qed
qed

lemma back_while_component:
  assumes "p = a @ b @ r" "\<forall>c\<in>set b. c \<noteq> slash" "b \<noteq> []" "a = [] \<or> last a = slash"
  shows "back_while (\<lambda>c. c \<noteq> slash) p (length a + length b - 1) = length a - 1"
proof (cases a rule: rev_cases)
  case Nil
  then obtain x b' where "b = x # b'" using assms(3) by (cases b) auto
  then show ?thesis
    using assms(1,2) Nil back_while_all [of b' "\<lambda>c. c \<noteq> slash" x r] by simp
next
  case (snoc a' y)
  then show ?thesis
    using assms back_while_hit [of "\<lambda>c. c \<noteq> slash" slash b a' r] by simp
qed

lemma compat_cdirname_eq:
  assumes "length p < MAXPATHLEN"
  shows "compat_cdirname (Some p) = Some (Some (dir_spec p))"
proof (cases "p = []")
  case True
  then show ?thesis by (simp add: compat_cdirname_def dir_spec_def)
next
  case ne: False
  show ?thesis
  proof (cases "rstrip_slashes p = []")
    case True
    then show ?thesis
      using ne trailing_scan [OF ne] rstrip_Nil_hd [OF ne]
      by (simp add: compat_cdirname_def dir_spec_def)
  next
    case False
    define a where "a = before_last_component (rstrip_slashes p)"
    define b where "b = last_component (rstrip_slashes p)"
    have ab: "rstrip_slashes p = a @ b" unfolding a_def b_def by (rule component_split)
    have b: "b \<noteq> []" "\<forall>c\<in>set b. c \<noteq> slash"
      using last_component_nonempty [OF False rstrip_last [OF False]] component_no_slash
      by (simp_all add: b_def)
    have a: "a = [] \<or> last a = slash" using before_component_slash [of "rstrip_slashes p"] by (simp add: a_def)
    from path_decompose [of p, folded a_def b_def] obtain n where p: "p = a @ b @ replicate n slash" ..
    have scan: "back_while (\<lambda>c. c \<noteq> slash) p (back_while (\<lambda>c. c = slash) p (length p - 1)) = length a - 1"
      using trailing_scan [OF ne] back_while_component [OF p b(2,1) a] by (simp add: ab)
    show ?thesis
    proof (cases "length a \<le> 1")
      case True
      then consider "a = []" | "a = [slash]" using a by (cases a) auto
      then show ?thesis
      proof cases
        case 1
        then have "p ! 0 \<noteq> slash" using b by (cases b) (auto simp: p)
        then show ?thesis
          using 1 ne False scan by (simp add: compat_cdirname_def dir_spec_def a_def [symmetric])
      next
        case 2
        then have "p ! 0 = slash" by (simp add: p)
        then show ?thesis
          using 2 ne False scan
          by (simp add: compat_cdirname_def dir_spec_def a_def [symmetric])
      qed
    next
      case long: False
      obtain a' where a': "a = a' @ [slash]" using a long by (cases a rule: rev_cases) auto
      have ne': "a' \<noteq> []" using long a' by auto
      have "back_while (\<lambda>c. c = slash) p (length a' - 1) = length (rstrip_slashes a') - 1"
      proof -
        have eq: "back_while P (xs @ ys) e = back_while P xs e" if "e < length xs" for P xs ys e
          using that by (induction e) (auto simp: nth_append)
        show ?thesis
          using trailing_scan [OF ne'] eq [of "length a' - 1" a'] ne' by (simp add: p a')
      qed
      moreover have "rstrip_slashes a = rstrip_slashes a'" by (simp add: a')
      moreover have "take (Suc (length (rstrip_slashes a') - 1)) p =
          (if rstrip_slashes a' = [] then ''/'' else rstrip_slashes a')"
      proof (cases "rstrip_slashes a' = []")
        case True
        then obtain k where "a' = replicate k slash" "k \<noteq> 0"
          using ne' by (metis append_Nil replicate_empty rstrip_split)
        then show ?thesis using True by (cases k) (simp_all add: p a')
      next
        case False
        obtain k where "a' = rstrip_slashes a' @ replicate k slash" using rstrip_split by blast
        then have "p = rstrip_slashes a' @ replicate k slash @ slash # b @ replicate n slash"
          by (metis a' append.assoc append_Cons append_Nil p)
        then have "take (length (rstrip_slashes a')) p = rstrip_slashes a'"
          by (metis append_eq_conv_conj)
        then show ?thesis using False by simp
      qed
      moreover have "length (rstrip_slashes a') - 1 + 1 < MAXPATHLEN"
        using assms rstrip_length [of a'] by (simp add: p a')
      ultimately show ?thesis
        using ne False scan long ne'
        by (simp add: compat_cdirname_def dir_spec_def a_def [symmetric] path_result_def Let_def a')
    qed
  qed
qed

section \<open>mkdirhier\<close>

text \<open>\<open>compat/mkdirhier.c\<close> does not include \<open>sys/param.h\<close>: its \<open>MAXPATHLEN\<close> is the fallback
  of \<open>compat.h\<close>.\<close>

definition COMPAT_MAXPATHLEN :: nat where
  "COMPAT_MAXPATHLEN = 255"

definition EEXIST :: int where
  "EEXIST = 17"

text \<open>The body of the loop. \<open>mkdir\<close> is the system call, acting on the file system \<open>'w\<close> and
  returning its result and \<open>errno\<close>; the state is the string in \<open>dst\<close>, \<open>retval\<close> and the file
  system. An \<open>strcat\<close> past the end of \<open>dst\<close> is the fault \<open>Inl None\<close>.\<close>

definition mkdirhier_body ::
  "(string \<Rightarrow> 'w \<Rightarrow> (int \<times> int) \<times> 'w) \<Rightarrow> string \<Rightarrow> string \<times> int \<times> 'w
   \<Rightarrow> (int \<times> 'w) option + string \<times> int \<times> 'w" where
  "mkdirhier_body mkdir dirp st =
     (case st of (dst, retval, w) \<Rightarrow>
        if dirp = [] then Inr (dst, retval, w)
        else let dst = (if dst \<noteq> [] then dst @ ''/'' else dst) @ dirp in
          if length dst \<ge> COMPAT_MAXPATHLEN then Inl None
          else (case mkdir dst w of ((r, errno), w') \<Rightarrow>
            if r = -1 then (if errno \<noteq> EEXIST then Inl (Some (-1, w')) else Inr (dst, retval, w'))
            else Inr (dst, 0, w')))"

definition mkdirhier ::
  "(string \<Rightarrow> 'w \<Rightarrow> (int \<times> int) \<times> 'w) \<Rightarrow> char list \<Rightarrow> string \<Rightarrow> 'w \<Rightarrow> (int \<times> 'w) option" where
  "mkdirhier mkdir src path w = do {
     (len, src) \<leftarrow> strlcpy src (path @ [nul]) COMPAT_MAXPATHLEN;
     if len > COMPAT_MAXPATHLEN then Some (-1, w)
     else do {
       let dst = (if path \<noteq> [] \<and> path ! 0 = slash then ''/'' else '''');
       r \<leftarrow> sep_loop (length src + 1) src (Some 0) (''/'' @ [nul]) (mkdirhier_body mkdir) (dst, 1, w);
       (case r of Inl res \<Rightarrow> res | Inr (_, retval, w') \<Rightarrow> Some (retval, w')) } }"

text \<open>What it does: try the given directories in order, stop at the first error other than
  \<open>EEXIST\<close>, and report 0 when at least one was created, 1 when all existed.\<close>

fun mkdir_chain :: "(string \<Rightarrow> 'w \<Rightarrow> (int \<times> int) \<times> 'w) \<Rightarrow> string list \<Rightarrow> int \<Rightarrow> 'w \<Rightarrow> int \<times> 'w" where
  "mkdir_chain mkdir [] retval w = (retval, w)"
| "mkdir_chain mkdir (d # ds) retval w =
     (case mkdir d w of ((r, errno), w') \<Rightarrow>
        if r = -1 then (if errno \<noteq> EEXIST then (-1, w') else mkdir_chain mkdir ds retval w')
        else mkdir_chain mkdir ds 0 w')"

text \<open>The directories: the components appended one after the other to a starting point.\<close>

fun prefixes_from :: "string \<Rightarrow> string list \<Rightarrow> string list" where
  "prefixes_from dst [] = []"
| "prefixes_from dst (t # ts) =
     (let dst' = (if dst \<noteq> [] then dst @ ''/'' else dst) @ t in dst' # prefixes_from dst' ts)"

abbreviation path_components :: "string \<Rightarrow> string list" where
  "path_components p \<equiv> filter (\<lambda>t. t \<noteq> []) (split_on (\<lambda>c. c = slash) p)"

lemma mkdirhier_tokens:
  assumes "length dst + sum_list (map (\<lambda>t. Suc (length t)) (filter (\<lambda>t. t \<noteq> []) ts)) < COMPAT_MAXPATHLEN + (if dst = [] then 1 else 0)"
  shows "(case token_fold (mkdirhier_body mkdir) ts (dst, rv, w) of Inl res \<Rightarrow> res | Inr (_, rv', w') \<Rightarrow> Some (rv', w')) =
    Some (mkdir_chain mkdir (prefixes_from dst (filter (\<lambda>t. t \<noteq> []) ts)) rv w)"
  using assms
proof (induction ts arbitrary: dst rv w)
  case Nil
  then show ?case by simp
next
  case (Cons t ts)
  show ?case
  proof (cases "t = []")
    case True
    then show ?thesis using Cons by (simp add: mkdirhier_body_def)
  next
    case False
    let ?d = "(if dst \<noteq> [] then dst @ ''/'' else dst) @ t"
    have len: "length ?d + sum_list (map (\<lambda>t. Suc (length t)) (filter (\<lambda>t. t \<noteq> []) ts)) < COMPAT_MAXPATHLEN"
      using Cons.prems False by (auto split: if_splits)
    then have fits: "length ?d < COMPAT_MAXPATHLEN" by linarith
    have "?d \<noteq> []" using False by simp
    then have IH: "(case token_fold (mkdirhier_body mkdir) ts (?d, rv', w') of Inl res \<Rightarrow> res
          | Inr (_, rv', w') \<Rightarrow> Some (rv', w')) =
        Some (mkdir_chain mkdir (prefixes_from ?d (filter (\<lambda>t. t \<noteq> []) ts)) rv' w')" for rv' w'
      using Cons.IH [of ?d rv' w'] len by simp
    obtain r e w1 where call: "mkdir ?d w = ((r, e), w1)" by (metis prod.collapse)
    then have "mkdirhier_body mkdir t (dst, rv, w) =
        (if r = -1 then (if e \<noteq> EEXIST then Inl (Some (-1, w1)) else Inr (?d, rv, w1)) else Inr (?d, 0, w1))"
      using False fits by (simp only: mkdirhier_body_def Let_def prod.case not_le [symmetric] if_False)
    then show ?thesis
      using False call IH by (simp add: Let_def del: append_assoc split del: if_split) (simp split: if_split)
  qed
qed

lemma split_on_length:
  "sum_list (map (\<lambda>t. Suc (length t)) (split_on P s)) = Suc (length s)"
  by (induction s) (auto split: list.splits)

lemma components_length:
  "sum_list (map (\<lambda>t. Suc (length t)) (filter (\<lambda>t. t \<noteq> []) (split_on P s))) \<le> Suc (length s)"
proof -
  have "sum_list (map (\<lambda>t. Suc (length t)) (filter Q ts)) \<le> sum_list (map (\<lambda>t. Suc (length t)) ts)" for Q ts
    by (induction ts) auto
  then show ?thesis by (metis split_on_length)
qed

lemma components_length_abs:
  assumes "s \<noteq> []" "P (s ! 0)"
  shows "sum_list (map (\<lambda>t. Suc (length t)) (filter (\<lambda>t. t \<noteq> []) (split_on P s))) \<le> length s"
  using assms components_length [of P "tl s"] by (cases s) auto

lemma mkdirhier_eq:
  assumes "nul_free path" "length src = COMPAT_MAXPATHLEN" "length path < COMPAT_MAXPATHLEN"
    and "path \<noteq> [] \<Longrightarrow> path ! 0 = slash \<Longrightarrow> length path < COMPAT_MAXPATHLEN - 1"
  shows "mkdirhier mkdir src path w =
    Some (mkdir_chain mkdir
      (prefixes_from (if path \<noteq> [] \<and> path ! 0 = slash then ''/'' else '''') (path_components path)) 1 w)"
proof -
  let ?src = "overwrite src (path @ [nul])"
  let ?dst = "if path \<noteq> [] \<and> path ! 0 = slash then ''/'' else ''''"
  have copy: "strlcpy src (path @ [nul]) COMPAT_MAXPATHLEN = Some (length path, ?src)"
    using strlcpy_eq [of path COMPAT_MAXPATHLEN src "[]"] assms by (simp add: COMPAT_MAXPATHLEN_def)
  have src: "?src = path @ nul # drop (length (path @ [nul])) src" "length path + 1 < length ?src + 1"
    using assms by (simp_all add: overwrite_def)
  then have loop: "sep_loop (length ?src + 1) ?src (Some 0) (''/'' @ [nul]) (mkdirhier_body mkdir) st =
      Some (token_fold (mkdirhier_body mkdir) (split_on (\<lambda>c. c = slash) path) st)" for st
    using sep_loop_tokens [of path "''/''" "length ?src + 1" "[]" "drop (length (path @ [nul])) src"
      "mkdirhier_body mkdir" st] assms(1)
    by (simp del: sep_loop.simps length_overwrite)
  have "length ?dst + sum_list (map (\<lambda>t. Suc (length t)) (path_components path))
      < COMPAT_MAXPATHLEN + (if ?dst = [] then 1 else 0)"
    using components_length [of "\<lambda>c. c = slash" path] components_length_abs [of path "\<lambda>c. c = slash"] assms(3,4)
    by (auto simp: COMPAT_MAXPATHLEN_def)
  note tokens = mkdirhier_tokens [OF this, of mkdir 1 w]
  have "\<not> COMPAT_MAXPATHLEN < length path" using assms(3) by simp
  then show ?thesis
    using copy loop tokens by (simp only: mkdirhier_def Let_def bind.bind_lunit prod.case if_False)
qed

section \<open>strrstr\<close>

text \<open>The search loop runs from the last possible start down to the first; \<open>strncmp\<close> over the
  \<open>findlen\<close> characters of the pattern, inside the string, compares the two substrings.\<close>

fun strrstr_loop :: "string \<Rightarrow> string \<Rightarrow> nat \<Rightarrow> nat option" where
  "strrstr_loop str pat cp =
     (if take (length pat) (drop cp str) = pat then Some cp
      else (case cp of 0 \<Rightarrow> None | Suc cp' \<Rightarrow> strrstr_loop str pat cp'))"

declare strrstr_loop.simps [simp del]

definition strrstr :: "string \<Rightarrow> string \<Rightarrow> nat option" where
  "strrstr str pat =
     (if length pat > length str then None
      else strrstr_loop str pat (length str - length pat))"

lemma strrstr_loop_spec:
  "case strrstr_loop str pat cp of
     None \<Rightarrow> \<forall>i\<le>cp. take (length pat) (drop i str) \<noteq> pat
   | Some i \<Rightarrow> i \<le> cp \<and> take (length pat) (drop i str) = pat \<and>
       (\<forall>j. i < j \<and> j \<le> cp \<longrightarrow> take (length pat) (drop j str) \<noteq> pat)"
proof (induction cp)
  case 0
  then show ?case by (subst strrstr_loop.simps) auto
next
  case (Suc cp)
  show ?case
  proof (cases "take (length pat) (drop (Suc cp) str) = pat")
    case True
    then show ?thesis by (subst strrstr_loop.simps) auto
  next
    case False
    then have "strrstr_loop str pat (Suc cp) = strrstr_loop str pat cp"
      by (subst strrstr_loop.simps) simp
    then show ?thesis
      using Suc False by (auto simp: le_Suc_eq split: option.splits)
  qed
qed

section \<open>strmode\<close>

text \<open>The mode bits of \<open>sys/stat.h\<close>.\<close>

definition S_IFMT :: u32 where "S_IFMT = 0xF000"
definition S_IFSOCK :: u32 where "S_IFSOCK = 0xC000"
definition S_IFLNK :: u32 where "S_IFLNK = 0xA000"
definition S_IFREG :: u32 where "S_IFREG = 0x8000"
definition S_IFBLK :: u32 where "S_IFBLK = 0x6000"
definition S_IFDIR :: u32 where "S_IFDIR = 0x4000"
definition S_IFCHR :: u32 where "S_IFCHR = 0x2000"
definition S_IFIFO :: u32 where "S_IFIFO = 0x1000"

lemmas file_type_defs =
  S_IFMT_def S_IFSOCK_def S_IFLNK_def S_IFREG_def S_IFBLK_def S_IFDIR_def S_IFCHR_def S_IFIFO_def

definition type_char :: "u32 \<Rightarrow> char" where
  "type_char mode =
     (let t = mode AND S_IFMT in
      if t = S_IFDIR then CHR ''d'' else if t = S_IFCHR then CHR ''c''
      else if t = S_IFBLK then CHR ''b'' else if t = S_IFREG then CHR ''-''
      else if t = S_IFLNK then CHR ''l'' else if t = S_IFSOCK then CHR ''s''
      else if t = S_IFIFO then CHR ''p'' else CHR ''?'')"

text \<open>One permission bit, and one execute bit combined with its special bit.\<close>

definition perm_char :: "u32 \<Rightarrow> u32 \<Rightarrow> char \<Rightarrow> char" where
  "perm_char mode b c = (if mode AND b \<noteq> 0 then c else CHR ''-'')"

definition exec_char :: "u32 \<Rightarrow> u32 \<Rightarrow> u32 \<Rightarrow> char \<Rightarrow> char \<Rightarrow> string" where
  "exec_char mode x sp upper lower =
     (let t = mode AND (x OR sp) in
      if t = 0 then ''-'' else if t = x then ''x'' else if t = sp then [upper]
      else if t = x OR sp then [lower] else [])"

text \<open>The eleven characters written before the terminator.\<close>

definition strmode :: "u32 \<Rightarrow> string" where
  "strmode mode =
     [type_char mode, perm_char mode 0x100 (CHR ''r''), perm_char mode 0x80 (CHR ''w'')] @
     exec_char mode 0x40 0x800 (CHR ''S'') (CHR ''s'') @
     [perm_char mode 0x20 (CHR ''r''), perm_char mode 0x10 (CHR ''w'')] @
     exec_char mode 0x8 0x400 (CHR ''S'') (CHR ''s'') @
     [perm_char mode 0x4 (CHR ''r''), perm_char mode 0x2 (CHR ''w'')] @
     exec_char mode 0x1 0x200 (CHR ''T'') (CHR ''t'') @ '' ''"

lemma and_bit_iff: "i < 32 \<Longrightarrow> (w::u32) AND push_bit i 1 \<noteq> 0 \<longleftrightarrow> bit w i"
  by (metis and_exp_eq_0_iff_not_bit push_bit_of_1)

lemma and_two_bits:
  "(w::u32) AND (push_bit i 1 OR push_bit j 1) =
     (if bit w i then push_bit i 1 else 0) OR (if bit w j then push_bit j 1 else 0)"
  by (rule bit_word_eqI) (auto simp: bit_simps)

lemma perm_char_bit: "i < 32 \<Longrightarrow> perm_char w (push_bit i 1) c = (if bit w i then c else CHR ''-'')"
  unfolding perm_char_def using and_bit_iff [of i w] by presburger

lemma exec_char_bit:
  assumes "i < 32" "j < 32" "i \<noteq> j"
  shows "exec_char w (push_bit i 1) (push_bit j 1) u l =
    (if bit w i then (if bit w j then [l] else ''x'') else (if bit w j then [u] else ''-''))"
proof -
  let ?x = "push_bit i 1 :: u32" and ?s = "push_bit j 1 :: u32"
  have bits: "bit ?x i" "\<not> bit ?x j" "bit ?s j" "\<not> bit ?s i" "\<not> bit (0::u32) i" "\<not> bit (0::u32) j"
      "bit (?x OR ?s) i" "bit (?x OR ?s) j"
    using assms by (auto simp: bit_simps)
  then have ne: "?x \<noteq> 0" "?s \<noteq> 0" "?x \<noteq> ?s" "?x OR ?s \<noteq> 0" "?x OR ?s \<noteq> ?x" "?x OR ?s \<noteq> ?s"
    by metis+
  show ?thesis
    unfolding exec_char_def and_two_bits Let_def using ne ne(3) [symmetric]
    by (cases "bit w i"; cases "bit w j") simp_all
qed

lemma perm_eq: "(if a then c else d) = (if b then c else d) \<Longrightarrow> c \<noteq> d \<Longrightarrow> a = b"
  by (simp split: if_splits)

lemma exec_eq:
  "(if a then (if s then l else x) else (if s then u else d)) = (if b then (if t then l else x) else (if t then u else d)) \<Longrightarrow>
     distinct [l, x, u, d] \<Longrightarrow> a = b \<and> s = t"
  by (auto split: if_splits)

lemma strmode_bits:
  "strmode m =
     [type_char m, if bit m 8 then CHR ''r'' else CHR ''-'', if bit m 7 then CHR ''w'' else CHR ''-'',
      if bit m 6 then (if bit m 11 then CHR ''s'' else CHR ''x'') else (if bit m 11 then CHR ''S'' else CHR ''-''),
      if bit m 5 then CHR ''r'' else CHR ''-'', if bit m 4 then CHR ''w'' else CHR ''-'',
      if bit m 3 then (if bit m 10 then CHR ''s'' else CHR ''x'') else (if bit m 10 then CHR ''S'' else CHR ''-''),
      if bit m 2 then CHR ''r'' else CHR ''-'', if bit m 1 then CHR ''w'' else CHR ''-'',
      if bit m 0 then (if bit m 9 then CHR ''t'' else CHR ''x'') else (if bit m 9 then CHR ''T'' else CHR ''-''),
      CHR '' '']"
proof -
  have masks: "(0x100::u32) = push_bit 8 1" "(0x80::u32) = push_bit 7 1" "(0x40::u32) = push_bit 6 1"
    "(0x20::u32) = push_bit 5 1" "(0x10::u32) = push_bit 4 1" "(0x8::u32) = push_bit 3 1"
    "(0x4::u32) = push_bit 2 1" "(0x2::u32) = push_bit 1 1" "(1::u32) = push_bit 0 1"
    "(0x800::u32) = push_bit 11 1" "(0x400::u32) = push_bit 10 1" "(0x200::u32) = push_bit 9 1"
    by simp_all
  have perms: "perm_char m 0x100 c = (if bit m 8 then c else CHR ''-'')"
    "perm_char m 0x80 c = (if bit m 7 then c else CHR ''-'')"
    "perm_char m 0x20 c = (if bit m 5 then c else CHR ''-'')"
    "perm_char m 0x10 c = (if bit m 4 then c else CHR ''-'')"
    "perm_char m 0x4 c = (if bit m 2 then c else CHR ''-'')"
    "perm_char m 0x2 c = (if bit m 1 then c else CHR ''-'')" for c
    unfolding masks(1-8) by (rule perm_char_bit, simp)+
  have execs: "exec_char m 0x40 0x800 u l =
      (if bit m 6 then (if bit m 11 then [l] else ''x'') else (if bit m 11 then [u] else ''-''))"
    "exec_char m 0x8 0x400 u l =
      (if bit m 3 then (if bit m 10 then [l] else ''x'') else (if bit m 10 then [u] else ''-''))"
    "exec_char m (push_bit 0 1) 0x200 u l =
      (if bit m 0 then (if bit m 9 then [l] else ''x'') else (if bit m 9 then [u] else ''-''))" for u l
    unfolding masks(3,6,10,11,12) by (rule exec_char_bit; simp)+
  have one: "exec_char m 0x1 = exec_char m (push_bit 0 1)" by simp
  show ?thesis
    unfolding strmode_def one perms execs by (auto split: if_splits)
qed

text \<open>The rendering of a mode has eleven characters and determines all twelve permission
  bits: two modes with the same rendering agree on them.\<close>

theorem strmode_faithful:
  "length (strmode m) = 11 \<and> (strmode m = strmode m' \<longrightarrow> m AND 0xFFF = m' AND 0xFFF)"
proof
  show "length (strmode m) = 11" by (simp add: strmode_bits)
  show "strmode m = strmode m' \<longrightarrow> m AND 0xFFF = m' AND 0xFFF"
  proof
    assume eq: "strmode m = strmode m'"
    note chars = eq [unfolded strmode_bits list.inject]
    have "bit m 0 = bit m' 0 \<and> bit m 9 = bit m' 9" using chars by (elim conjE) (erule exec_eq, simp)
    moreover have "bit m 3 = bit m' 3 \<and> bit m 10 = bit m' 10" using chars by (elim conjE) (erule exec_eq, simp)
    moreover have "bit m 6 = bit m' 6 \<and> bit m 11 = bit m' 11" using chars by (elim conjE) (erule exec_eq, simp)
    moreover have "bit m 1 = bit m' 1" using chars by (elim conjE) (erule perm_eq, simp)
    moreover have "bit m 2 = bit m' 2" using chars by (elim conjE) (erule perm_eq, simp)
    moreover have "bit m 4 = bit m' 4" using chars by (elim conjE) (erule perm_eq, simp)
    moreover have "bit m 5 = bit m' 5" using chars by (elim conjE) (erule perm_eq, simp)
    moreover have "bit m 7 = bit m' 7" using chars by (elim conjE) (erule perm_eq, simp)
    moreover have "bit m 8 = bit m' 8" using chars by (elim conjE) (erule perm_eq, simp)
    ultimately have all: "\<forall>i\<in>{0, 1, 2, 3, 4, 5, 6, 7, 8, 9, 10, 11}. bit m i = bit m' i"
      by simp
    have "i \<in> {0, 1, 2, 3, 4, 5, 6, 7, 8, 9, 10, 11}" if "i < 12" for i :: nat
      using that unfolding insert_iff empty_iff by presburger
    with all have "bit m i = bit m' i" if "i < 12" for i
      using that by blast
    then have "m AND mask 12 = m' AND mask 12"
      by (auto intro!: bit_word_eqI simp: bit_simps)
    then show "m AND 0xFFF = m' AND 0xFFF"
      by (simp add: mask_eq_exp_minus_1)
  qed
qed

theorem strmode_faithful_witness:
  "strmode 0x81ED = strmode 0x81ED \<and> strmode 0x81ED = ''-rwxr-xr-x '' \<and> (0x81ED::u32) AND 0xFFF = 0x1ED"
  using strmode_faithful [of "0x81ED" "0x81ED"] by (simp add: strmode_def type_char_def perm_char_def exec_char_def file_type_defs)

text \<open>\<open>strrstr\<close> finds the last occurrence of a pattern: a returned position holds the
  pattern and no later position does; \<open>NULL\<close> means that the pattern does not occur.\<close>

theorem strrstr_last:
  "case strrstr str pat of
     None \<Rightarrow> \<forall>i. take (length pat) (drop i str) \<noteq> pat \<or> length str < i + length pat
   | Some i \<Rightarrow> take (length pat) (drop i str) = pat \<and> i + length pat \<le> length str \<and>
       (\<forall>j>i. take (length pat) (drop j str) \<noteq> pat \<or> length str < j + length pat)"
proof (cases "length pat > length str")
  case True
  then show ?thesis by (simp add: strrstr_def)
next
  case False
  have le: "i \<le> length str - length pat \<longleftrightarrow> \<not> length str < i + length pat" for i
    using False by linarith
  show ?thesis
    using False strrstr_loop_spec [of "length str - length pat" pat str]
    by (auto simp: strrstr_def le split: option.splits)
qed

theorem strrstr_last_witness:
  "strrstr ''a/b/c'' ''/'' = Some 3 \<and> take 1 (drop 3 ''a/b/c'') = ''/'' \<and> (3::nat) + 1 \<le> 5"
  using strrstr_last [of "''a/b/c''" "''/''"] by (simp add: strrstr_def strrstr_loop.simps)

text \<open>\<open>compat_basename\<close> and \<open>compat_cdirname\<close> return, for every path that fits their
  buffer, the last component and the directory part: trailing slashes are ignored, and the
  empty path and the root are handled as POSIX asks.\<close>

theorem compat_dirname_basename:
  assumes "length p < MAXPATHLEN"
  shows "compat_basename (Some p) = Some (Some (base_spec p)) \<and>
     compat_cdirname (Some p) = Some (Some (dir_spec p))"
  using compat_basename_eq [OF assms] compat_cdirname_eq [OF assms] by simp

theorem compat_dirname_basename_witness:
  "compat_basename (Some ''/usr/lib//'') = Some (Some ''lib'') \<and>
   compat_cdirname (Some ''/usr/lib//'') = Some (Some ''/usr'')"
  using compat_dirname_basename [of "''/usr/lib//''"]
  by (simp add: MAXPATHLEN_def base_spec_def dir_spec_def rstrip_slashes_def last_component_def before_last_component_def)

text \<open>The guard of both routines is off by one: the terminator of a name of exactly
  \<open>MAXPATHLEN\<close> characters is written one cell past the static buffer.\<close>

theorem compat_basename_overflow:
  assumes "length p = MAXPATHLEN" "slash \<notin> set p"
  shows "compat_basename (Some p) = None"
proof -
  obtain b' y where py: "p = b' @ [y]" using assms(1) by (cases p rule: rev_cases) (auto simp: MAXPATHLEN_def)
  have ne: "p ! (length p - 1) \<noteq> slash" using assms(2) py by auto
  have scan: "back_while (\<lambda>c. c = slash) p (length p - 1) = length p - 1"
    using back_while_hit [of "\<lambda>c. c = slash" y "[]" b' "[]"] ne py by auto
  have "base_start p (length p - 1) = 0"
    using base_start_hit [of b' "[]" "[y]"] assms(2) py by auto
  then show ?thesis
    using scan ne assms(1) py by (auto simp: compat_basename_def path_result_def MAXPATHLEN_def Let_def)
qed

theorem compat_basename_overflow_witness:
  "compat_basename (Some (replicate MAXPATHLEN (CHR ''a''))) = None"
  using compat_basename_overflow [of "replicate MAXPATHLEN (CHR ''a'')"] by simp

text \<open>\<open>mkdirhier\<close> calls \<open>mkdir\<close> on the growing prefixes of the path, in order, and stops at
  the first error that is not \<open>EEXIST\<close>; it returns 0 if it created a directory, 1 if all
  existed, for every path that fits its buffers.\<close>

theorem mkdirhier_correct:
  assumes "nul_free path" "length src = COMPAT_MAXPATHLEN" "length path < COMPAT_MAXPATHLEN - 1"
  shows "mkdirhier mkdir src path w =
    Some (mkdir_chain mkdir
      (prefixes_from (if path \<noteq> [] \<and> path ! 0 = slash then ''/'' else '''') (path_components path)) 1 w)"
  using assms by (intro mkdirhier_eq) simp_all

theorem mkdirhier_correct_witness:
  "mkdirhier (\<lambda>d ds. if d \<in> set ds then ((-1, EEXIST), ds) else ((0, 0), ds @ [d]))
      (replicate COMPAT_MAXPATHLEN nul) ''a//b/c'' [''a''] = Some (0, [''a'', ''a/b'', ''a/b/c''])"
  using mkdirhier_correct [of "''a//b/c''" "replicate COMPAT_MAXPATHLEN nul"
      "\<lambda>d ds. if d \<in> set ds then ((-1, EEXIST), ds) else ((0, 0), ds @ [d])" "[''a'']"]
  by (simp add: COMPAT_MAXPATHLEN_def Let_def)

end
