(* ===== verification/Par_Header.thy ===== *)
theory Par_Header
  imports Compat_Paths
begin

text \<open>
  The file header of the archive format: \<open>struct par_file_header\<close> of \<open>par/libpar.h\<close> with its
  byte layout, the octal fields (\<open>par/util.c\<close>), the encoders (\<open>par/encode.c\<close>), the decoders
  (\<open>par/decode.c\<close>) and the checksums.

  On the LP64 target the fifteen character fields take 496 bytes and the two pointers
  \<open>gnu_longname\<close> and \<open>gnu_longlink\<close> the other 16: the structure is exactly one block of
  \<open>T_BLOCKSIZE\<close> bytes, and the pointers are written to and read from the archive with it.
\<close>

section \<open>Data\<close>

definition T_BLOCKSIZE :: nat where "T_BLOCKSIZE = 512"
definition T_NAMELEN :: nat where "T_NAMELEN = 100"
definition TMAGIC :: string where "TMAGIC = ''^*TAd&''"
definition TMAGLEN :: nat where "TMAGLEN = 6"
definition TVERSION :: string where "TVERSION = ''MY''"
definition TVERSLEN :: nat where "TVERSLEN = 2"
definition SYMTYPE :: char where "SYMTYPE = CHR 0x01"
definition REGTYPE :: char where "REGTYPE = CHR 0x02"
definition DIRTYPE :: char where "DIRTYPE = CHR 0x04"
definition LNKTYPE :: char where "LNKTYPE = CHR 0x08"
definition GNU_LONGNAME_TYPE :: char where "GNU_LONGNAME_TYPE = CHR ''L''"
definition GNU_LONGLINK_TYPE :: char where "GNU_LONGLINK_TYPE = CHR ''K''"
definition PAR_GNU :: int where "PAR_GNU = 1"
definition PAR_IGNORE_EOT :: int where "PAR_IGNORE_EOT = 8"

lemmas type_defs = SYMTYPE_def REGTYPE_def DIRTYPE_def LNKTYPE_def GNU_LONGNAME_TYPE_def GNU_LONGLINK_TYPE_def
lemmas magic_defs = TMAGIC_def TMAGLEN_def TVERSION_def TVERSLEN_def

record par_file_header =
  hdr_name :: "char list"
  hdr_mode :: "char list"
  hdr_uid :: "char list"
  hdr_gid :: "char list"
  hdr_size :: "char list"
  hdr_mtime :: "char list"
  hdr_chksum :: "char list"
  hdr_typeflag :: char
  hdr_linkname :: "char list"
  hdr_magic :: "char list"
  hdr_version :: "char list"
  hdr_uname :: "char list"
  hdr_gname :: "char list"
  hdr_prefix :: "char list"
  hdr_padding :: "char list"
  gnu_longname :: u64
  gnu_longlink :: u64

text \<open>The array lengths of the C declaration.\<close>

definition header_ok :: "par_file_header \<Rightarrow> bool" where
  "header_ok h \<longleftrightarrow> length (hdr_name h) = 100 \<and> length (hdr_mode h) = 8 \<and> length (hdr_uid h) = 8 \<and>
     length (hdr_gid h) = 8 \<and> length (hdr_size h) = 12 \<and> length (hdr_mtime h) = 12 \<and>
     length (hdr_chksum h) = 8 \<and> length (hdr_linkname h) = 100 \<and> length (hdr_magic h) = 6 \<and>
     length (hdr_version h) = 2 \<and> length (hdr_uname h) = 32 \<and> length (hdr_gname h) = 32 \<and>
     length (hdr_prefix h) = 155 \<and> length (hdr_padding h) = 12"

text \<open>The bytes of the structure, and the structure a block of bytes is.\<close>

definition block_of :: "par_file_header \<Rightarrow> char list" where
  "block_of h = hdr_name h @ hdr_mode h @ hdr_uid h @ hdr_gid h @ hdr_size h @ hdr_mtime h @
     hdr_chksum h @ [hdr_typeflag h] @ hdr_linkname h @ hdr_magic h @ hdr_version h @ hdr_uname h @
     hdr_gname h @ hdr_prefix h @ hdr_padding h @ le_chars 8 (unat (gnu_longname h)) @
     le_chars 8 (unat (gnu_longlink h))"

definition field_at :: "nat \<Rightarrow> nat \<Rightarrow> 'a list \<Rightarrow> 'a list" where
  "field_at off n b = take n (drop off b)"

definition header_of :: "char list \<Rightarrow> par_file_header" where
  "header_of b = \<lparr>hdr_name = field_at 0 100 b, hdr_mode = field_at 100 8 b, hdr_uid = field_at 108 8 b,
     hdr_gid = field_at 116 8 b, hdr_size = field_at 124 12 b, hdr_mtime = field_at 136 12 b,
     hdr_chksum = field_at 148 8 b, hdr_typeflag = b ! 156, hdr_linkname = field_at 157 100 b,
     hdr_magic = field_at 257 6 b, hdr_version = field_at 263 2 b, hdr_uname = field_at 265 32 b,
     hdr_gname = field_at 297 32 b, hdr_prefix = field_at 329 155 b, hdr_padding = field_at 484 12 b,
     gnu_longname = of_nat (le_val (field_at 496 8 b)), gnu_longlink = of_nat (le_val (field_at 504 8 b))\<rparr>"

definition zero_header :: par_file_header where
  "zero_header = header_of (replicate 512 nul)"

lemma slice_here: "length xs = n \<Longrightarrow> field_at 0 n (xs @ ys) = xs"
  by (simp add: field_at_def)

lemma slice_skip: "length xs \<le> off \<Longrightarrow> field_at off n (xs @ ys) = field_at (off - length xs) n ys"
  by (simp add: field_at_def)

lemma slice_Cons: "0 < off \<Longrightarrow> field_at off n (x # xs) = field_at (off - 1) n xs"
  by (simp add: field_at_def drop_Cons')

lemma slice_all: "length xs = n \<Longrightarrow> field_at 0 n xs = xs"
  by (simp add: field_at_def)

lemma length_slice: "off + n \<le> length b \<Longrightarrow> length (field_at off n b) = n"
  by (simp add: field_at_def)

lemma block_length: "header_ok h \<Longrightarrow> length (block_of h) = T_BLOCKSIZE"
  by (simp add: block_of_def header_ok_def T_BLOCKSIZE_def)

lemma header_of_ok: "length b = T_BLOCKSIZE \<Longrightarrow> header_ok (header_of b)"
  by (simp add: header_ok_def header_of_def length_slice T_BLOCKSIZE_def)

lemma u64_mod [simp]: "unat (w::u64) mod 18446744073709551616 = unat w"
  using unsigned_less [of w, where 'a = nat] by simp

lemma header_block: "header_ok h \<Longrightarrow> header_of (block_of h) = h"
  unfolding header_ok_def block_of_def header_of_def
  by (simp add: slice_here slice_skip slice_Cons slice_all le_val_chars nth_append unat_of_nat)

lemma slice_join: "field_at off n b @ field_at (off + n) m b = field_at off (n + m) b"
proof -
  have "drop (off + n) b = drop n (drop off b)" by (simp add: add.commute)
  then show ?thesis by (simp only: field_at_def take_add)
qed

lemma block_header:
  assumes "length b = T_BLOCKSIZE"
  shows "block_of (header_of b) = b"
proof -
  have ptr: "le_chars 8 (unat (of_nat (le_val (field_at off 8 b)) :: u64)) = field_at off 8 b" if "off + 8 \<le> length b" for off
  proof -
    have "le_val (field_at off 8 b) < 256 ^ 8" using le_val_less [of "field_at off 8 b"] that by (simp add: length_slice)
    then have "unat (of_nat (le_val (field_at off 8 b)) :: u64) = le_val (field_at off 8 b)" by (simp add: unat_of_nat)
    then show ?thesis using le_chars_val [of "field_at off 8 b" 8] that by (simp add: length_slice)
  qed
  have one: "[b ! 156] = field_at 156 1 b"
    using assms by (simp add: field_at_def T_BLOCKSIZE_def take_Suc Cons_nth_drop_Suc [symmetric])
  have "b = field_at 0 512 b" using assms by (simp add: field_at_def T_BLOCKSIZE_def)
  also have "\<dots> = field_at 0 100 b @ field_at 100 8 b @ field_at 108 8 b @ field_at 116 8 b @ field_at 124 12 b @ field_at 136 12 b @
      field_at 148 8 b @ field_at 156 1 b @ field_at 157 100 b @ field_at 257 6 b @ field_at 263 2 b @ field_at 265 32 b @
      field_at 297 32 b @ field_at 329 155 b @ field_at 484 12 b @ field_at 496 8 b @ field_at 504 8 b"
    using slice_join [of 0 100 b 412] slice_join [of 100 8 b 404] slice_join [of 108 8 b 396] slice_join [of 116 8 b 388]
      slice_join [of 124 12 b 376] slice_join [of 136 12 b 364] slice_join [of 148 8 b 356] slice_join [of 156 1 b 355]
      slice_join [of 157 100 b 255] slice_join [of 257 6 b 249] slice_join [of 263 2 b 247] slice_join [of 265 32 b 215]
      slice_join [of 297 32 b 183] slice_join [of 329 155 b 28] slice_join [of 484 12 b 16] slice_join [of 496 8 b 8]
    by simp
  finally show ?thesis
    using assms ptr [of 496] ptr [of 504] one
    by (simp add: block_of_def header_of_def T_BLOCKSIZE_def)
qed

section \<open>Octal fields\<close>

text \<open>What \<open>printf("%lo")\<close> prints, padded on the left to a width, and what \<open>snprintf\<close> leaves
  in a buffer of which it may use \<open>n\<close> cells.\<close>

fun oct_digits :: "nat \<Rightarrow> string" where
  "oct_digits n = (if n < 8 then [char_of (48 + n)] else oct_digits (n div 8) @ [char_of (48 + n mod 8)])"

declare oct_digits.simps [simp del]

definition pad_left :: "nat \<Rightarrow> string \<Rightarrow> string" where
  "pad_left w s = replicate (w - length s) CHR '' '' @ s"

definition snprintf_to :: "char list \<Rightarrow> nat \<Rightarrow> string \<Rightarrow> char list" where
  "snprintf_to buf n s = (if n = 0 then buf else overwrite buf (take (n - 1) s @ [nul]))"

text \<open>\<open>sscanf(s, "%o")\<close>: white space is skipped, a sign is accepted, and the digits are
  converted as \<open>strtoul\<close> does, saturating at \<open>ULONG_MAX\<close>. \<open>None\<close> is a matching failure.\<close>

definition is_space :: "char \<Rightarrow> bool" where
  "is_space c \<longleftrightarrow> c \<in> {CHR '' '', CHR 0x09, CHR 0x0A, CHR 0x0B, CHR 0x0C, CHR 0x0D}"

definition is_octal :: "char \<Rightarrow> bool" where
  "is_octal c \<longleftrightarrow> 48 \<le> (of_char c :: nat) \<and> (of_char c :: nat) < 56"

definition oct_value :: "string \<Rightarrow> nat" where
  "oct_value ds = foldl (\<lambda>v c. 8 * v + (of_char c - 48)) 0 ds"

definition scan_oct :: "char list \<Rightarrow> u64 option" where
  "scan_oct s =
     (let s = dropWhile is_space s;
          neg = (s \<noteq> [] \<and> hd s = CHR ''-'');
          s = (if s \<noteq> [] \<and> (hd s = CHR ''-'' \<or> hd s = CHR ''+'') then tl s else s);
          ds = takeWhile is_octal s
      in if ds = [] then None
         else Some (if oct_value ds \<ge> 2 ^ 64 then - 1
                    else if neg then - of_nat (oct_value ds) else of_nat (oct_value ds)))"

text \<open>The conversions read from the start of a field through the rest of the structure.\<close>

definition oct_to_int :: "char list \<Rightarrow> int" where
  "oct_to_int oct = (case scan_oct oct of Some v \<Rightarrow> sint (ucast v :: u32) | None \<Rightarrow> 0)"

definition oct_to_size :: "char list \<Rightarrow> u64" where
  "oct_to_size oct = (case scan_oct oct of Some v \<Rightarrow> v | None \<Rightarrow> 0)"

text \<open>The macro \<open>int_to_oct\<close>, for an argument already converted to \<open>unsigned long\<close>.\<close>

definition int_to_oct :: "u64 \<Rightarrow> char list \<Rightarrow> nat \<Rightarrow> char list" where
  "int_to_oct num oct octlen = snprintf_to oct octlen (pad_left (octlen - 2) (oct_digits (unat num)) @ '' '')"

text \<open>The function \<open>int_to_oct_nonull\<close>: its parameter is an \<open>int\<close>, so that the conversion to
  \<open>unsigned long\<close> extends the sign.\<close>

definition int_to_oct_nonull :: "int \<Rightarrow> char list \<Rightarrow> nat \<Rightarrow> char list" where
  "int_to_oct_nonull num oct octlen =
     (snprintf_to oct octlen (pad_left (octlen - 1) (oct_digits (unat (word_of_int num :: u64)))))
       [octlen - 1 := CHR '' '']"

lemma oct_value_snoc: "oct_value (ds @ [c]) = 8 * oct_value ds + (of_char c - 48)"
  by (simp add: oct_value_def)

lemma octal_char: "(n::nat) < 8 \<Longrightarrow> is_octal (char_of (48 + n)) \<and> of_char (char_of (48 + n) :: char) = 48 + n"
  by (simp add: is_octal_def)

lemma oct_digits_props:
  "oct_value (oct_digits n) = n \<and> (\<forall>c\<in>set (oct_digits n). is_octal c) \<and> oct_digits n \<noteq> []"
proof (induction n rule: oct_digits.induct)
  case (1 n)
  show ?case
  proof (cases "n < 8")
    case True
    then show ?thesis using octal_char [of n] by (subst (1 2 3) oct_digits.simps) (simp add: oct_value_def)
  next
    case False
    have "8 * (n div 8) + n mod 8 = n" by simp
    then show ?thesis
      using 1 [OF False] False octal_char [of "n mod 8"]
      by (subst (1 2 3) oct_digits.simps) (auto simp: oct_value_snoc)
  qed
qed

lemma oct_digits_length: "n < 8 ^ k \<Longrightarrow> 0 < k \<Longrightarrow> length (oct_digits n) \<le> k"
proof (induction k arbitrary: n)
  case (Suc k)
  show ?case
  proof (cases "n < 8")
    case True
    then show ?thesis by (subst oct_digits.simps) simp
  next
    case False
    then have "0 < k" using Suc.prems(1) by (cases k) auto
    moreover have "n div 8 < 8 ^ k" using Suc.prems(1) by (simp add: div_less_iff_less_mult ac_simps)
    ultimately show ?thesis using Suc.IH [of "n div 8"] False by (subst oct_digits.simps) simp
  qed
qed simp

lemma length_pad_left: "length s \<le> w \<Longrightarrow> length (pad_left w s) = w"
  by (simp add: pad_left_def)

text \<open>Scanning a padded number that is followed by something that is no octal digit.\<close>

lemma scan_oct_padded:
  assumes "n < 2 ^ 64" "rest = [] \<or> \<not> is_octal (hd rest)"
  shows "scan_oct (replicate k CHR '' '' @ oct_digits n @ rest) = Some (of_nat n)"
proof -
  have ds: "oct_value (oct_digits n) = n" "\<forall>c\<in>set (oct_digits n). is_octal c" "oct_digits n \<noteq> []"
    using oct_digits_props [of n] by auto
  then obtain c cs where c: "oct_digits n = c # cs" "is_octal c" by (cases "oct_digits n") auto
  have nospace: "\<not> is_space c" "c \<noteq> CHR ''-''" "c \<noteq> CHR ''+''"
    using c(2) by (auto simp: is_octal_def is_space_def)
  have "dropWhile is_space (replicate k CHR '' '' @ oct_digits n @ rest) = oct_digits n @ rest"
    using nospace(1) by (induction k) (simp_all add: c(1) is_space_def)
  moreover have "takeWhile is_octal (oct_digits n @ rest) = oct_digits n"
    using ds(2) assms(2) by (cases rest) (auto simp: takeWhile_append)
  ultimately show ?thesis
    using ds assms(1) nospace c(1) by (simp add: scan_oct_def Let_def)
qed

lemma int_to_oct_field:
  assumes "unat num < 8 ^ 6" "length oct = 8"
  shows "\<exists>k. int_to_oct num oct 8 = replicate k CHR '' '' @ oct_digits (unat num) @ [CHR '' '', nul] \<and>
     length (int_to_oct num oct 8) = 8"
proof -
  have "length (oct_digits (unat num)) \<le> 6" using oct_digits_length [of "unat num" 6] assms(1) by simp
  then have "length (pad_left 6 (oct_digits (unat num))) = 6" by (rule length_pad_left)
  then show ?thesis
    using assms(2) by (auto simp: int_to_oct_def snprintf_to_def overwrite_def pad_left_def)
qed

lemma int_to_oct_scan:
  assumes "unat num < 8 ^ 6" "length oct = 8"
  shows "scan_oct (int_to_oct num oct 8 @ rest) = Some num"
proof -
  obtain k where k: "int_to_oct num oct 8 = replicate k CHR '' '' @ oct_digits (unat num) @ [CHR '' '', nul]"
    using int_to_oct_field [OF assms] by auto
  have "unat num < 2 ^ 64" using unsigned_less [of num, where 'a = nat] by simp
  then have "scan_oct (replicate k CHR '' '' @ oct_digits (unat num) @ [CHR '' '', nul] @ rest) = Some (of_nat (unat num))"
    by (rule scan_oct_padded) (simp add: is_octal_def)
  then show ?thesis by (simp add: k)
qed

lemma int_to_oct_nonull_field:
  assumes "0 \<le> num" "num < 2 ^ 31" "length oct = 12"
  shows "\<exists>k. int_to_oct_nonull num oct 12 = replicate k CHR '' '' @ oct_digits (nat num) @ '' '' \<and>
     length (int_to_oct_nonull num oct 12) = 12"
proof -
  have u: "unat (word_of_int num :: u64) = nat num"
    using assms(1,2) by (simp add: unat_eq_nat_uint uint_word_of_int)
  have "nat num < 8 ^ 11" using assms(2) by (simp add: nat_less_iff)
  then have "length (oct_digits (nat num)) \<le> 11" using oct_digits_length [of "nat num" 11] by simp
  then have len: "length (pad_left 11 (oct_digits (nat num))) = 11" by (rule length_pad_left)
  then have "int_to_oct_nonull num oct 12 = pad_left 11 (oct_digits (nat num)) @ '' ''"
    using assms(3) by (simp add: int_to_oct_nonull_def snprintf_to_def overwrite_def u list_update_append)
  then show ?thesis using len by (auto simp: pad_left_def)
qed

lemma int_to_oct_nonull_scan:
  assumes "0 \<le> num" "num < 2 ^ 31" "length oct = 12"
  shows "scan_oct (int_to_oct_nonull num oct 12 @ rest) = Some (word_of_int num)"
proof -
  obtain k where k: "int_to_oct_nonull num oct 12 = replicate k CHR '' '' @ oct_digits (nat num) @ '' ''"
    using int_to_oct_nonull_field [OF assms] by auto
  have "nat num < 2 ^ 64" using assms(2) by (simp add: nat_less_iff)
  then have "scan_oct (replicate k CHR '' '' @ oct_digits (nat num) @ '' '' @ rest) = Some (of_nat (nat num))"
    by (rule scan_oct_padded) (simp add: is_octal_def)
  then show ?thesis using assms(1) by (simp add: k)
qed

section \<open>Checksums\<close>

text \<open>The sums stay far below \<open>INT_MAX\<close>, so that \<open>int\<close> arithmetic does not wrap.\<close>

definition th_crc_calc :: "par_file_header \<Rightarrow> int" where
  "th_crc_calc h = sum_list (map uchar (block_of h)) + sum_list (map (\<lambda>c. 32 - uchar c) (hdr_chksum h))"

definition th_signed_crc_calc :: "par_file_header \<Rightarrow> int" where
  "th_signed_crc_calc h = sum_list (map schar (block_of h)) + sum_list (map (\<lambda>c. 32 - schar c) (hdr_chksum h))"

definition th_get_crc :: "par_file_header \<Rightarrow> int" where
  "th_get_crc h = oct_to_int (drop 148 (block_of h))"

definition th_get_size :: "par_file_header \<Rightarrow> u64" where
  "th_get_size h = oct_to_size (drop 124 (block_of h))"

definition th_get_mtime :: "par_file_header \<Rightarrow> int" where
  "th_get_mtime h = oct_to_int (drop 136 (block_of h))"

definition th_crc_ok :: "par_file_header \<Rightarrow> bool" where
  "th_crc_ok h \<longleftrightarrow> th_get_crc h = th_crc_calc h \<or> th_get_crc h = th_signed_crc_calc h"

definition th_finish :: "par_file_header \<Rightarrow> par_file_header" where
  "th_finish h =
     (let h = h\<lparr>hdr_version := TVERSION\<rparr>;
          h = h\<lparr>hdr_magic := TMAGIC\<rparr>
      in h\<lparr>hdr_chksum := int_to_oct (word_of_int (th_crc_calc h)) (hdr_chksum h) 8\<rparr>)"

text \<open>The checksum does not depend on the checksum field, and it fits its six octal digits.\<close>

lemma sum_complement:
  fixes f :: "char \<Rightarrow> int"
  shows "sum_list (map (\<lambda>c. 32 - f c) cs) = 32 * int (length cs) - sum_list (map f cs)"
  by (induction cs) simp_all

lemma crc_field_irrelevant:
  assumes "length (hdr_chksum h) = 8" "length c = 8"
  shows "th_crc_calc (h\<lparr>hdr_chksum := c\<rparr>) = th_crc_calc h"
  using assms by (simp add: th_crc_calc_def block_of_def sum_complement)

lemma crc_bounds:
  assumes "header_ok h"
  shows "0 \<le> th_crc_calc h \<and> th_crc_calc h < 8 ^ 6"
proof -
  have pos: "0 \<le> sum_list (map uchar cs)" for cs :: string
    by (induction cs) (simp_all add: uchar_bounds add_nonneg_nonneg)
  have upper: "sum_list (map uchar cs) \<le> 255 * int (length cs)" for cs :: string
  proof (induction cs)
    case (Cons c cs)
    show ?case using Cons uchar_bounds [of c] by simp
  qed simp
  have len: "length (block_of h) = 512" "length (hdr_chksum h) = 8"
    using block_length [OF assms] assms by (simp_all add: T_BLOCKSIZE_def header_ok_def)
  have split: "sum_list (map uchar (block_of h)) = sum_list (map uchar (hdr_chksum h)) +
      sum_list (map uchar (block_of (h\<lparr>hdr_chksum := []\<rparr>)))"
    by (simp add: block_of_def)
  show ?thesis
    unfolding th_crc_calc_def sum_complement
    using upper [of "block_of h"] pos [of "block_of (h\<lparr>hdr_chksum := []\<rparr>)"] pos [of "hdr_chksum h"] len split
    by simp
qed

lemma drop_chksum:
  assumes "header_ok h"
  shows "drop 148 (block_of h) = hdr_chksum h @ drop 156 (block_of h)"
  using assms by (simp add: block_of_def header_ok_def)

lemma th_finish_ok: "header_ok h \<Longrightarrow> header_ok (th_finish h)"
  using crc_bounds [of "h\<lparr>hdr_version := TVERSION, hdr_magic := TMAGIC\<rparr>"]
    int_to_oct_field [of "word_of_int (th_crc_calc (h\<lparr>hdr_version := TVERSION, hdr_magic := TMAGIC\<rparr>))" "hdr_chksum h"]
  by (auto simp: header_ok_def th_finish_def Let_def magic_defs unat_eq_nat_uint uint_word_of_int)

section \<open>The archive handle\<close>

text \<open>The part of \<open>PAR\<close> the encoders and decoders use: the options, the header buffer, the
  buffer for path names and the strings that \<open>strdup\<close> and \<open>malloc\<close> returned, by address.\<close>

record par =
  par_options :: int
  th_buf :: par_file_header
  th_pathname :: "char list option"
  longs :: "u64 \<Rightarrow> char list option"

definition gnu :: "par \<Rightarrow> bool" where
  "gnu t \<longleftrightarrow> par_options t AND PAR_GNU \<noteq> 0"

text \<open>\<open>free\<close> and the string at an address: a pointer that no allocation returned faults.\<close>

definition free_str :: "u64 \<Rightarrow> par \<Rightarrow> par option" where
  "free_str p t = (if p = 0 then Some t else if longs t p = None then None else Some (t\<lparr>longs := (longs t)(p := None)\<rparr>))"

definition str_at :: "par \<Rightarrow> u64 \<Rightarrow> string option" where
  "str_at t p = Option.bind (longs t p) (\<lambda>b. if nul \<in> set b then Some (cstr b) else None)"

definition strncpy_to :: "char list \<Rightarrow> string \<Rightarrow> nat \<Rightarrow> char list" where
  "strncpy_to buf src n = overwrite buf (take n (src @ replicate n nul))"

definition S_IS :: "u32 \<Rightarrow> u32 \<Rightarrow> bool" where
  "S_IS ty mode \<longleftrightarrow> mode AND S_IFMT = ty"

definition hdr_mode_bits :: "par_file_header \<Rightarrow> u32" where
  "hdr_mode_bits h = word_of_int (oct_to_int (drop 100 (block_of h)))"

definition TH_ISREG :: "par_file_header \<Rightarrow> bool" where
  "TH_ISREG h \<longleftrightarrow> hdr_typeflag h = REGTYPE \<or> S_IS S_IFREG (hdr_mode_bits h) \<and> hdr_typeflag h \<noteq> LNKTYPE"

definition TH_ISLNK :: "par_file_header \<Rightarrow> bool" where
  "TH_ISLNK h \<longleftrightarrow> hdr_typeflag h = LNKTYPE"

definition TH_ISSYM :: "par_file_header \<Rightarrow> bool" where
  "TH_ISSYM h \<longleftrightarrow> hdr_typeflag h = SYMTYPE \<or> S_IS S_IFLNK (hdr_mode_bits h)"

definition TH_ISDIR :: "par_file_header \<Rightarrow> bool" where
  "TH_ISDIR h \<longleftrightarrow> hdr_typeflag h = DIRTYPE \<or> S_IS S_IFDIR (hdr_mode_bits h)"

definition TH_ISLONGNAME :: "par_file_header \<Rightarrow> bool" where
  "TH_ISLONGNAME h \<longleftrightarrow> hdr_typeflag h = GNU_LONGNAME_TYPE"

definition TH_ISLONGLINK :: "par_file_header \<Rightarrow> bool" where
  "TH_ISLONGLINK h \<longleftrightarrow> hdr_typeflag h = GNU_LONGLINK_TYPE"

section \<open>Encoding\<close>

definition th_set_type :: "u32 \<Rightarrow> par_file_header \<Rightarrow> par_file_header" where
  "th_set_type mode h =
     (let h = (if S_IS S_IFLNK mode then h\<lparr>hdr_typeflag := SYMTYPE\<rparr> else h);
          h = (if S_IS S_IFREG mode then h\<lparr>hdr_typeflag := REGTYPE\<rparr> else h)
      in (if S_IS S_IFDIR mode then h\<lparr>hdr_typeflag := DIRTYPE\<rparr> else h))"

text \<open>\<open>dup\<close> is the address \<open>strdup\<close> returns, 0 when it fails. An empty path makes the code read
  the character before the string.\<close>

definition th_set_path :: "u64 \<Rightarrow> par \<Rightarrow> string \<Rightarrow> par option" where
  "th_set_path dup t pathname = do {
     t \<leftarrow> free_str (gnu_longname (th_buf t)) t;
     let t = t\<lparr>th_buf := (th_buf t)\<lparr>gnu_longname := 0\<rparr>\<rparr>;
     let h = th_buf t;
     if pathname = [] then None
     else let suffix = (if last pathname \<noteq> slash \<and> TH_ISDIR h then ''/'' else '''') in
       if length pathname > T_NAMELEN - 1 \<and> gnu t then
         (if dup = 0 then None
          else Some (t\<lparr>longs := (longs t)(dup \<mapsto> pathname @ [nul]),
            th_buf := h\<lparr>gnu_longname := dup, hdr_name := strncpy_to (hdr_name h) pathname T_NAMELEN\<rparr>\<rparr>))
       else if length pathname > T_NAMELEN then
         (let from = length pathname - T_NAMELEN - 1;
              tmp = from + length (takeWhile (\<lambda>c. c \<noteq> slash) (drop from pathname))
          in if tmp = length pathname then Some t
             else Some (t\<lparr>th_buf := h\<lparr>
               hdr_name := snprintf_to (hdr_name h) 100 (drop (tmp + 1) pathname @ suffix),
               hdr_prefix := snprintf_to (hdr_prefix h) (if tmp + 1 < 155 then tmp + 1 else 155) pathname\<rparr>\<rparr>))
       else Some (t\<lparr>th_buf := h\<lparr>hdr_name := snprintf_to (hdr_name h) 100 (pathname @ suffix)\<rparr>\<rparr>) }"

definition th_set_link :: "u64 \<Rightarrow> par \<Rightarrow> string \<Rightarrow> par option" where
  "th_set_link dup t linkname =
     (if length linkname > T_NAMELEN - 1 \<and> gnu t then
        Some (t\<lparr>longs := (if dup = 0 then longs t else (longs t)(dup \<mapsto> linkname @ [nul])),
          th_buf := (th_buf t)\<lparr>gnu_longlink := dup,
            hdr_linkname := overwrite (hdr_linkname (th_buf t)) (''././@LongLink'' @ [nul])\<rparr>\<rparr>)
      else do {
        (_, f) \<leftarrow> strlcpy (hdr_linkname (th_buf t)) (linkname @ [nul]) 100;
        let t = t\<lparr>th_buf := (th_buf t)\<lparr>hdr_linkname := f\<rparr>\<rparr>;
        t \<leftarrow> free_str (gnu_longlink (th_buf t)) t;
        Some (t\<lparr>th_buf := (th_buf t)\<lparr>gnu_longlink := 0\<rparr>\<rparr>) })"

text \<open>The user and group data bases are parameters.\<close>

definition th_set_user :: "(u32 \<Rightarrow> string option) \<Rightarrow> u32 \<Rightarrow> par_file_header \<Rightarrow> par_file_header option" where
  "th_set_user getpwuid uid h = do {
     h \<leftarrow> (case getpwuid uid of None \<Rightarrow> Some h
           | Some pw_name \<Rightarrow> map_option (\<lambda>(_, f). h\<lparr>hdr_uname := f\<rparr>) (strlcpy (hdr_uname h) (pw_name @ [nul]) 32));
     Some (h\<lparr>hdr_uid := int_to_oct (ucast uid) (hdr_uid h) 8\<rparr>) }"

definition th_set_group :: "(u32 \<Rightarrow> string option) \<Rightarrow> u32 \<Rightarrow> par_file_header \<Rightarrow> par_file_header option" where
  "th_set_group getgrgid gid h = do {
     h \<leftarrow> (case getgrgid gid of None \<Rightarrow> Some h
           | Some gr_name \<Rightarrow> map_option (\<lambda>(_, f). h\<lparr>hdr_gname := f\<rparr>) (strlcpy (hdr_gname h) (gr_name @ [nul]) 32));
     Some (h\<lparr>hdr_gid := int_to_oct (ucast gid) (hdr_gid h) 8\<rparr>) }"

definition th_set_mode :: "u32 \<Rightarrow> par_file_header \<Rightarrow> par_file_header" where
  "th_set_mode fmode h = h\<lparr>hdr_mode := int_to_oct (ucast fmode) (hdr_mode h) 8\<rparr>"

text \<open>The macros convert their argument to the \<open>int\<close> parameter of \<open>int_to_oct_nonull\<close>.\<close>

definition to_int :: "int \<Rightarrow> int" where
  "to_int x = signed_take_bit 31 x"

definition th_set_mtime :: "int \<Rightarrow> par_file_header \<Rightarrow> par_file_header" where
  "th_set_mtime fmtime h = h\<lparr>hdr_mtime := int_to_oct_nonull (to_int fmtime) (hdr_mtime h) 12\<rparr>"

definition th_set_size :: "int \<Rightarrow> par_file_header \<Rightarrow> par_file_header" where
  "th_set_size fsize h = h\<lparr>hdr_size := int_to_oct_nonull (to_int fsize) (hdr_size h) 12\<rparr>"

record stat =
  st_mode :: u32
  st_uid :: u32
  st_gid :: u32
  st_mtime :: int
  st_size :: int

definition th_set_from_stat ::
  "(u32 \<Rightarrow> string option) \<Rightarrow> (u32 \<Rightarrow> string option) \<Rightarrow> stat \<Rightarrow> par_file_header \<Rightarrow> (int \<times> par_file_header) option" where
  "th_set_from_stat getpwuid getgrgid s h =
     (if S_IS S_IFCHR (st_mode s) \<or> S_IS S_IFBLK (st_mode s) \<or> S_IS S_IFIFO (st_mode s) \<or> S_IS S_IFSOCK (st_mode s)
      then Some (-1, h)
      else do {
        let h = th_set_type (st_mode s) h;
        h \<leftarrow> th_set_user getpwuid (st_uid s) h;
        h \<leftarrow> th_set_group getgrgid (st_gid s) h;
        let h = th_set_mode (st_mode s) h;
        let h = th_set_mtime (st_mtime s) h;
        Some (0, th_set_size (if S_IS S_IFREG (st_mode s) then st_size s else 0) h) })"

section \<open>Decoding\<close>

text \<open>\<open>safer_name_suffix\<close>: \<open>p\<close> and \<open>t\<close> are the rests of the name the two pointers point to.\<close>

function strip_dotdot :: "string \<Rightarrow> string \<Rightarrow> string \<times> string" where
  "strip_dotdot p t =
     (if take 3 p = ''../'' then strip_dotdot (drop 3 p) (drop 3 p) else (p, t))"
  by pat_completeness auto
termination
proof (relation "measure (\<lambda>(p, t). length p)")
  fix p t :: string
  assume "take 3 p = ''../''"
  then have "p \<noteq> []" by auto
  then show "((drop 3 p, drop 3 p), p, t) \<in> measure (\<lambda>(p, t). length p)" by simp
qed simp

declare strip_dotdot.simps [simp del]

fun past_slash :: "string \<Rightarrow> string" where
  "past_slash [] = []"
| "past_slash (c # p) = (if c \<noteq> slash then past_slash p else p)"

lemma strip_dotdot_length: "length (fst (strip_dotdot p t)) \<le> length p"
proof (induction p t rule: strip_dotdot.induct)
  case (1 p t)
  then show ?case by (subst strip_dotdot.simps) (auto intro: order_trans)
qed

lemma past_slash_length: "p \<noteq> [] \<Longrightarrow> length (past_slash p) < length p"
proof (induction p)
  case (Cons c p)
  then show ?case by (cases "p = []") auto
qed simp

function safer_loop :: "string \<Rightarrow> string \<Rightarrow> string" where
  "safer_loop p t =
     (if p = [] then t
      else (case strip_dotdot p t of (p', t') \<Rightarrow> safer_loop (past_slash p') t'))"
  by pat_completeness auto
termination
proof (relation "measure (\<lambda>(p, t). length p)")
  fix p t p' t' :: string
  assume p: "p \<noteq> []" and s: "(p', t') = strip_dotdot p t"
  have le: "length p' \<le> length p" using strip_dotdot_length [of p t] s by (metis fst_conv)
  show "((past_slash p', t'), p, t) \<in> measure (\<lambda>(p, t). length p)"
  proof (cases "p' = []")
    case True
    then show ?thesis using p by simp
  next
    case False
    then show ?thesis using past_slash_length [of p'] le by simp
  qed
qed simp

declare safer_loop.simps [simp del]

definition safer_name_suffix :: "string \<Rightarrow> string" where
  "safer_name_suffix file_name =
     (let p = dropWhile (\<lambda>c. c = slash) file_name;
          t = safer_loop p p
      in if t = [] then ''.'' else t)"

text \<open>\<open>strncmp(a, b, n) == 0\<close>\<close>

definition strncmp_eq :: "nat \<Rightarrow> char list \<Rightarrow> char list \<Rightarrow> bool" where
  "strncmp_eq n a b \<longleftrightarrow> cstr (take n a) = cstr (take n b)"

definition th_get_pathname :: "bool \<Rightarrow> par \<Rightarrow> (string option \<times> par) option" where
  "th_get_pathname malloc_ok t =
     (let h = th_buf t in
      if gnu_longname h \<noteq> 0 then map_option (\<lambda>s. (Some (safer_name_suffix s), t)) (str_at t (gnu_longname h))
      else
        (case (case th_pathname t of Some b \<Rightarrow> Some b | None \<Rightarrow> if malloc_ok then Some (replicate MAXPATHLEN nul) else None) of
           None \<Rightarrow> Some (None, t)
         | Some buf \<Rightarrow>
           (let s = (if \<not> strncmp_eq (TMAGLEN - 1) (hdr_magic h) TMAGIC \<or> hd (hdr_prefix h) = nul
                     then cstr (take 100 (hdr_name h))
                     else cstr (take 155 (hdr_prefix h)) @ ''/'' @ cstr (take 100 (hdr_name h)));
                buf = snprintf_to buf MAXPATHLEN s
            in Some (Some (safer_name_suffix (cstr buf)), t\<lparr>th_pathname := Some buf\<rparr>))))"

definition th_get_uid :: "(string \<Rightarrow> u32 option) \<Rightarrow> u32 \<Rightarrow> par_file_header \<Rightarrow> u32" where
  "th_get_uid getpwnam junk h =
     (case getpwnam (cstr (drop 265 (block_of h))) of Some u \<Rightarrow> u
      | None \<Rightarrow> (case scan_oct (drop 108 (block_of h)) of Some v \<Rightarrow> ucast v | None \<Rightarrow> junk))"

definition th_get_gid :: "(string \<Rightarrow> u32 option) \<Rightarrow> u32 \<Rightarrow> par_file_header \<Rightarrow> u32" where
  "th_get_gid getgrnam junk h =
     (case getgrnam (cstr (drop 297 (block_of h))) of Some g \<Rightarrow> g
      | None \<Rightarrow> (case scan_oct (drop 116 (block_of h)) of Some v \<Rightarrow> ucast v | None \<Rightarrow> junk))"

definition th_get_mode :: "par_file_header \<Rightarrow> u32" where
  "th_get_mode h =
     (let mode = hdr_mode_bits h in
      if mode AND S_IFMT = 0 then
        (if hdr_typeflag h = SYMTYPE then mode OR S_IFLNK
         else if hdr_typeflag h = DIRTYPE then mode OR S_IFDIR
         else mode OR S_IFREG)
      else mode)"

text \<open>\<open>par/util.c\<close>: the hash functions of the handle's table. \<open>basename\<close> is the library's.\<close>

definition path_hashfunc :: "string \<Rightarrow> int \<Rightarrow> int option" where
  "path_hashfunc key nb =
     (if length key \<ge> MAXPATHLEN \<or> nb = 0 then None
      else Some (sint ((word_of_int (schar (hd (base_spec key))) :: u32) mod word_of_int nb)))"

definition dev_match :: "u64 \<Rightarrow> u64 \<Rightarrow> int" where
  "dev_match dev1 dev2 = (if dev1 = dev2 then 1 else 0)"

definition ino_match :: "u64 \<Rightarrow> u64 \<Rightarrow> int" where
  "ino_match ino1 ino2 = (if ino1 = ino2 then 1 else 0)"

definition dev_hash :: "u64 \<Rightarrow> int" where
  "dev_hash dev = to_int (uint (dev mod 16))"

definition ino_hash :: "u64 \<Rightarrow> int" where
  "ino_hash inode = to_int (uint (inode mod 256))"

section \<open>Safe names\<close>

text \<open>The components of a name that are followed by a slash.\<close>

definition dir_components :: "string \<Rightarrow> string list" where
  "dir_components s = butlast (split_on (\<lambda>c. c = slash) s)"

lemma split_on_append_sep:
  "P d \<Longrightarrow> split_on P (a @ d # b) = split_on P a @ split_on P b"
  by (induction a) (auto split: list.splits)

lemma split_on_no_sep: "\<forall>c\<in>set s. \<not> P c \<Longrightarrow> split_on P s = [s]"
  by (induction s) auto

lemma dir_components_append:
  assumes "q = [] \<or> last q = slash"
  shows "dir_components (q @ r) = dir_components q @ dir_components r"
proof (cases q rule: rev_cases)
  case Nil
  then show ?thesis by (simp add: dir_components_def)
next
  case (snoc q' c)
  then have c: "c = slash" using assms by simp
  have "split_on (\<lambda>c. c = slash) (q @ r) = split_on (\<lambda>c. c = slash) q' @ split_on (\<lambda>c. c = slash) r"
    "split_on (\<lambda>c. c = slash) q = split_on (\<lambda>c. c = slash) q' @ [[]]"
    using split_on_append_sep [of "\<lambda>c. c = slash" slash q' r] split_on_append_sep [of "\<lambda>c. c = slash" slash q' "[]"]
    by (simp_all add: snoc c)
  then show ?thesis by (simp add: dir_components_def butlast_append)
qed

lemma dir_components_one: "slash \<notin> set c \<Longrightarrow> dir_components (c @ [slash]) = [c]"
  using split_on_append_sep [of "\<lambda>c. c = slash" slash c "[]"] split_on_no_sep [of c "\<lambda>c. c = slash"]
  by (auto simp: dir_components_def)

lemma dir_components_last: "slash \<notin> set c \<Longrightarrow> dir_components c = []"
proof -
  assume "slash \<notin> set c"
  then have "\<forall>x\<in>set c. x \<noteq> slash" by metis
  then have "split_on (\<lambda>c. c = slash) c = [c]" by (rule split_on_no_sep)
  then show ?thesis by (simp add: dir_components_def)
qed

lemma strip_dotdot_result:
  "take 3 (fst (strip_dotdot p t)) \<noteq> ''../'' \<and>
   (strip_dotdot p t = (p, t) \<or> fst (strip_dotdot p t) = snd (strip_dotdot p t))"
proof (induction p t rule: strip_dotdot.induct)
  case (1 p t)
  show ?case
  proof (cases "take 3 p = ''../''")
    case True
    then have eq: "strip_dotdot p t = strip_dotdot (drop 3 p) (drop 3 p)" by (subst strip_dotdot.simps) simp
    show ?thesis
      using 1 [OF True] unfolding eq by (metis fst_conv snd_conv)
  next
    case False
    then show ?thesis by (subst (1 2) strip_dotdot.simps) simp
  qed
qed

lemma past_slash_split:
  "(\<exists>c. slash \<notin> set c \<and> p = c @ slash # past_slash p) \<or> slash \<notin> set p \<and> past_slash p = []"
proof (induction p)
  case (Cons x p)
  show ?case
  proof (cases "x = slash")
    case True
    then show ?thesis by (intro disjI1 exI [of _ "[]"]) simp
  next
    case False
    from Cons show ?thesis
    proof
      assume "\<exists>c. slash \<notin> set c \<and> p = c @ slash # past_slash p"
      then obtain c where "slash \<notin> set c" "p = c @ slash # past_slash p" by blast
      then have "slash \<notin> set (x # c) \<and> x # p = (x # c) @ slash # past_slash (x # p)" using False by auto
      then show ?thesis by blast
    next
      assume "slash \<notin> set p \<and> past_slash p = []"
      then show ?thesis using False by auto
    qed
  qed
qed simp

lemma safer_loop_components:
  assumes "t = q @ p" "q = [] \<or> last q = slash" "''..'' \<notin> set (dir_components q)"
  shows "''..'' \<notin> set (dir_components (safer_loop p t))"
  using assms
proof (induction p t arbitrary: q rule: safer_loop.induct)
  case (1 p t)
  show ?case
  proof (cases "p = []")
    case True
    then show ?thesis using 1(2,4) by (subst safer_loop.simps) simp
  next
    case False
    obtain p' t' where s: "strip_dotdot p t = (p', t')" by force
    have loop: "safer_loop p t = safer_loop (past_slash p') t'"
      using False s by (subst safer_loop.simps) simp
    have no: "take 3 p' \<noteq> ''../''" using strip_dotdot_result [of p t] s by simp
    obtain q' where q': "t' = q' @ p'" "q' = [] \<or> last q' = slash" "''..'' \<notin> set (dir_components q')"
    proof (cases "(p', t') = (p, t)")
      case True
      then show thesis using that [of q] 1(2-4) by simp
    next
      case False
      then have "p' = t'" using strip_dotdot_result [of p t] s by auto
      then show thesis using that [of "[]"] by (simp add: dir_components_def)
    qed
    note IH = 1(1) [OF False s [symmetric]]
    from past_slash_split [of p'] show ?thesis
    proof (elim disjE exE conjE)
      fix c
      assume c: "slash \<notin> set c" "p' = c @ slash # past_slash p'"
      have "c \<noteq> ''..''" using no by (subst (asm) c(2)) auto
      then have "''..'' \<notin> set (dir_components (q' @ c @ [slash]))"
        using q'(2,3) c(1) by (simp add: dir_components_append dir_components_one)
      moreover have "t' = (q' @ c @ [slash]) @ past_slash p'"
        using q'(1) c(2) by (metis append.assoc append_Cons append_Nil)
      ultimately show ?thesis
        unfolding loop by (intro IH [of "q' @ c @ [slash]"]) simp_all
    next
      assume "slash \<notin> set p'" "past_slash p' = []"
      then have "safer_loop p t = t'" unfolding loop by (subst safer_loop.simps) simp
      then show ?thesis
        using q' dir_components_last [OF \<open>slash \<notin> set p'\<close>] by (simp add: dir_components_append)
    qed
  qed
qed

text \<open>C20. The name an archive member is extracted under never climbs: no component of it that
  is followed by a slash is \<open>..\<close>, and it is never empty.\<close>

theorem safer_name_suffix_no_dotdot:
  "''..'' \<notin> set (dir_components (safer_name_suffix s)) \<and> safer_name_suffix s \<noteq> []"
  using safer_loop_components [of _ "[]"]
  by (simp add: safer_name_suffix_def Let_def) (simp add: dir_components_def)

text \<open>What the function leaves in: a doubled slash after a leading \<open>..\<close> makes the result an
  absolute path, and a final \<open>..\<close> is kept.\<close>

theorem safer_name_suffix_gaps:
  "safer_name_suffix ''..//etc/passwd'' = ''/etc/passwd'' \<and> safer_name_suffix ''a/..'' = ''a/..''"
  by (simp add: safer_name_suffix_def safer_loop.simps strip_dotdot.simps)

section \<open>Properties of headers\<close>

text \<open>The structure and its 512 bytes determine each other: a header written as a block and
  read back is the same header, and every block is the image of the header it is read as.\<close>

theorem header_block_roundtrip:
  "(header_ok h \<longrightarrow> length (block_of h) = T_BLOCKSIZE \<and> header_of (block_of h) = h) \<and>
   (length b = T_BLOCKSIZE \<longrightarrow> header_ok (header_of b) \<and> block_of (header_of b) = b)"
  using block_length header_block header_of_ok block_header by blast

theorem header_block_roundtrip_witness:
  "header_ok (header_of (replicate T_BLOCKSIZE CHR ''x'')) \<and>
   block_of (header_of (replicate T_BLOCKSIZE CHR ''x'')) = replicate T_BLOCKSIZE CHR ''x''"
  using header_block_roundtrip [of "header_of (replicate T_BLOCKSIZE CHR ''x'')" "replicate T_BLOCKSIZE CHR ''x''"] by simp

lemma finished_chksum:
  assumes "header_ok h"
  shows "\<exists>num. hdr_chksum (th_finish h) = int_to_oct num (hdr_chksum h) 8 \<and> unat num < 8 ^ 6"
proof -
  let ?c = "th_crc_calc (h\<lparr>hdr_version := TVERSION, hdr_magic := TMAGIC\<rparr>)"
  have "0 \<le> ?c" "?c < 8 ^ 6"
    using crc_bounds [of "h\<lparr>hdr_version := TVERSION, hdr_magic := TMAGIC\<rparr>"] assms
    by (simp_all add: header_ok_def magic_defs)
  then have "unat (word_of_int ?c :: u64) < 8 ^ 6"
    by (simp add: unat_eq_nat_uint uint_word_of_int nat_less_iff)
  then show ?thesis by (intro exI [of _ "word_of_int ?c"]) (simp add: th_finish_def Let_def)
qed

lemma finished_crc:
  assumes "header_ok h"
  shows "header_ok (th_finish h) \<and> hdr_magic (th_finish h) = TMAGIC \<and> hdr_version (th_finish h) = TVERSION \<and>
     th_get_crc (th_finish h) = th_crc_calc (th_finish h) \<and> th_crc_ok (th_finish h)"
proof -
  let ?h = "h\<lparr>hdr_version := TVERSION, hdr_magic := TMAGIC\<rparr>"
  let ?c = "th_crc_calc ?h"
  have ok: "header_ok ?h" using assms by (simp add: header_ok_def magic_defs)
  have c: "0 \<le> ?c" "?c < 8 ^ 6" using crc_bounds [OF ok] by auto
  have len: "length (hdr_chksum h) = 8" using assms by (simp add: header_ok_def)
  have fin: "th_finish h = ?h\<lparr>hdr_chksum := int_to_oct (word_of_int ?c) (hdr_chksum h) 8\<rparr>"
    by (simp add: th_finish_def Let_def)
  have u: "uint (word_of_int ?c :: u64) = ?c" using c by (simp add: uint_word_of_int)
  then have small: "unat (word_of_int ?c :: u64) < 8 ^ 6" using c by (simp add: unat_eq_nat_uint nat_less_iff)
  have ok': "header_ok (th_finish h)" by (rule th_finish_ok [OF assms])
  have "drop 148 (block_of (th_finish h)) = int_to_oct (word_of_int ?c) (hdr_chksum h) 8 @ drop 156 (block_of (th_finish h))"
    using drop_chksum [OF ok'] by (simp add: fin)
  then have "th_get_crc (th_finish h) = sint (ucast (word_of_int ?c :: u64) :: u32)"
    using int_to_oct_scan [OF small len] by (simp add: th_get_crc_def oct_to_int_def)
  also have "(ucast (word_of_int ?c :: u64) :: u32) = word_of_int ?c"
    by (simp only: ucast_eq u)
  also have "sint (word_of_int ?c :: u32) = ?c"
    using c by (simp add: sint_uint uint_word_of_int signed_take_bit_int_eq_self_iff)
  also have "?c = th_crc_calc (th_finish h)"
    using crc_field_irrelevant [of ?h] int_to_oct_field [OF small len] len by (simp add: fin)
  finally have "th_get_crc (th_finish h) = th_crc_calc (th_finish h)" .
  then show ?thesis using ok' by (simp add: th_crc_ok_def) (simp add: fin)
qed

text \<open>After \<open>th_finish\<close> the header carries the magic and the version and its stored checksum
  is the one \<open>th_crc_calc\<close> computes, whatever the other fields hold.\<close>

theorem th_finish_valid:
  assumes "header_ok h"
  shows "header_ok (th_finish h) \<and> hdr_magic (th_finish h) = TMAGIC \<and> hdr_version (th_finish h) = TVERSION \<and>
     th_get_crc (th_finish h) = th_crc_calc (th_finish h) \<and> th_crc_ok (th_finish h)"
  by (rule finished_crc [OF assms])

theorem th_finish_valid_witness:
  "th_get_crc (th_finish zero_header) = th_crc_calc (th_finish zero_header) \<and> th_crc_ok (th_finish zero_header)"
  using th_finish_valid [of zero_header] header_of_ok [of "replicate T_BLOCKSIZE nul"]
  by (simp add: zero_header_def T_BLOCKSIZE_def)

text \<open>Sizes and times below \<open>2\<^sup>31\<close> survive the round trip through their octal fields, and so
  do the mode, user and group numbers below \<open>8\<^sup>6\<close>.\<close>

theorem octal_fields_roundtrip:
  assumes "header_ok h" "0 \<le> n" "n < 2 ^ 31" "unat m < 8 ^ 6"
  shows "th_get_size (th_set_size n h) = word_of_int n \<and> th_get_mtime (th_set_mtime n h) = n \<and>
     hdr_mode_bits (th_set_mode m h) = m \<and>
     header_ok (th_set_size n h) \<and> header_ok (th_set_mtime n h) \<and> header_ok (th_set_mode m h)"
proof -
  have i: "to_int n = n" using assms(2,3) by (simp add: to_int_def signed_take_bit_int_eq_self_iff)
  have len: "length (hdr_size h) = 12" "length (hdr_mtime h) = 12" "length (hdr_mode h) = 8"
    using assms(1) by (simp_all add: header_ok_def)
  have "unat m < 2 ^ 64" using unsigned_less [of m, where 'a = nat] by simp
  then have m: "unat (ucast m :: u64) = unat m" by (simp add: unsigned_ucast_eq take_bit_nat_eq_self)
  have ok: "header_ok (th_set_size n h)" "header_ok (th_set_mtime n h)" "header_ok (th_set_mode m h)"
    using assms(1) int_to_oct_nonull_field [OF assms(2,3) len(1)] int_to_oct_nonull_field [OF assms(2,3) len(2)]
      int_to_oct_field [of "ucast m" "hdr_mode h"] assms(4) len m
    by (auto simp: header_ok_def th_set_size_def th_set_mtime_def th_set_mode_def i)
  have mem: "drop 124 (block_of (th_set_size n h)) =
        int_to_oct_nonull n (hdr_size h) 12 @ drop 136 (block_of (th_set_size n h))"
      "drop 136 (block_of (th_set_mtime n h)) =
        int_to_oct_nonull n (hdr_mtime h) 12 @ drop 148 (block_of (th_set_mtime n h))"
      "drop 100 (block_of (th_set_mode m h)) =
        int_to_oct (ucast m) (hdr_mode h) 8 @ drop 108 (block_of (th_set_mode m h))"
    using ok by (simp_all add: header_ok_def block_of_def th_set_size_def th_set_mtime_def th_set_mode_def i)
  have n32: "(ucast (word_of_int n :: u64) :: u32) = word_of_int n" "sint (word_of_int n :: u32) = n"
    using assms(2,3) by (simp_all add: ucast_eq uint_word_of_int sint_uint signed_take_bit_int_eq_self_iff)
  have "ucast (ucast m :: u64) = m" by (rule bit_word_eqI) (simp add: bit_simps)
  then have m32: "word_of_int (sint (ucast (ucast m :: u64) :: u32)) = m" by simp
  show ?thesis
    using ok int_to_oct_nonull_scan [OF assms(2,3) len(1)] int_to_oct_nonull_scan [OF assms(2,3) len(2)]
      int_to_oct_scan [of "ucast m" "hdr_mode h"] assms(4) len m n32 m32
    by (simp add: th_get_size_def th_get_mtime_def hdr_mode_bits_def oct_to_int_def oct_to_size_def mem)
qed

theorem octal_fields_roundtrip_witness:
  "th_get_size (th_set_size 70000 zero_header) = 70000 \<and> hdr_mode_bits (th_set_mode 0x81A4 zero_header) = 0x81A4"
  using octal_fields_roundtrip [of zero_header 70000 "0x81A4"] header_of_ok [of "replicate T_BLOCKSIZE nul"]
  by (simp add: zero_header_def T_BLOCKSIZE_def)

lemma oct_digits_prefix:
  "8 ^ k \<le> n \<Longrightarrow> \<exists>low. length low = k \<and> oct_digits n = oct_digits (n div 8 ^ k) @ low"
proof (induction k arbitrary: n)
  case (Suc k)
  have "8 ^ k \<le> n div 8" using Suc.prems by (simp add: less_eq_div_iff_mult_less_eq ac_simps)
  then obtain low where "length low = k" "oct_digits (n div 8) = oct_digits (n div 8 div 8 ^ k) @ low"
    using Suc.IH by blast
  moreover have "\<not> n < 8" using Suc.prems by (metis One_nat_def le_trans linorder_not_less nat_mult_1_right
        one_le_numeral one_le_power mult_le_mono2 power_Suc)
  ultimately show ?case
    by (subst oct_digits.simps) (auto simp: div_mult2_eq)
qed simp

text \<open>A file of \<open>2\<^sup>31\<close> bytes or more, below \<open>2\<^sup>32\<close>, is always recorded as \<open>2\<^sup>31 - 1\<close> bytes:
  its size is converted to \<open>int\<close>, sign-extended and truncated to eleven octal digits.\<close>

theorem th_set_size_overflow:
  assumes "header_ok h" "2 ^ 31 \<le> n" "n < 2 ^ 32"
  shows "th_get_size (th_set_size n h) = 2 ^ 31 - 1"
proof -
  let ?w = "word_of_int (to_int n) :: u64"
  define N where "N = unat ?w"
  have "(n + 2 ^ 31) mod 2 ^ 32 = (n + 2 ^ 31 - 2 ^ 32) mod 2 ^ 32" by (simp only: minus_mod_self2)
  also have "\<dots> = n + 2 ^ 31 - 2 ^ 32" using assms(2,3) by (intro mod_pos_pos_trivial) simp_all
  finally have "take_bit 32 (n + 2 ^ 31) = n + 2 ^ 31 - 2 ^ 32" by (simp only: take_bit_eq_mod)
  then have i: "to_int n = n - 2 ^ 32"
    by (simp add: to_int_def signed_take_bit_eq_take_bit_shift)
  have "uint ?w = (n - 2 ^ 32 + 2 ^ 64) mod 2 ^ 64"
    by (simp only: i uint_word_of_int mod_add_self2) simp
  also have "\<dots> = n - 2 ^ 32 + 2 ^ 64" using assms(2,3) by (intro mod_pos_pos_trivial) simp_all
  finally have w: "uint ?w = n - 2 ^ 32 + 2 ^ 64" .
  then have "int N = n - 2 ^ 32 + 2 ^ 64" unfolding N_def uint_nat .
  then have N: "N div 8 ^ 11 = 2 ^ 31 - 1" "8 ^ 11 \<le> N" using assms(2,3) by simp_all
  then obtain low where low: "oct_digits N = oct_digits (2 ^ 31 - 1) @ low" "length low = 11"
    using oct_digits_prefix [of 11 N] by auto
  have d: "length (oct_digits (2 ^ 31 - 1)) = 11" by (simp add: oct_digits.simps)
  let ?ds = "oct_digits (2 ^ 31 - 1)"
  have len: "length (hdr_size h) = 12" using assms(1) by (simp add: header_ok_def)
  have "int_to_oct_nonull (to_int n) (hdr_size h) 12 = ?ds @ '' ''"
    using len low d unfolding int_to_oct_nonull_def N_def [symmetric]
    by (simp add: snprintf_to_def pad_left_def overwrite_def list_update_append)
  then have "drop 124 (block_of (th_set_size n h)) = replicate 0 CHR '' '' @ ?ds @ '' '' @ drop 136 (block_of h)"
    using assms(1) by (simp add: th_set_size_def block_of_def header_ok_def)
  moreover have "scan_oct (replicate 0 CHR '' '' @ ?ds @ '' '' @ drop 136 (block_of h)) = Some (of_nat (2 ^ 31 - 1))"
    by (rule scan_oct_padded) (simp_all add: is_octal_def)
  ultimately show ?thesis by (simp add: th_get_size_def oct_to_size_def)
qed

theorem th_set_size_overflow_witness:
  "th_get_size (th_set_size 3000000000 zero_header) = 2147483647"
  using th_set_size_overflow [of zero_header 3000000000] header_of_ok [of "replicate T_BLOCKSIZE nul"]
  by (simp add: zero_header_def T_BLOCKSIZE_def)

lemma field_at_replicate: "field_at off n (replicate m x) = replicate (min n (m - off)) x"
  by (simp add: field_at_def)

lemma le_val_nuls: "le_val (replicate k nul) = 0"
  by (induction k) simp_all

lemma scan_oct_nuls: "scan_oct (replicate k nul) = None"
  by (cases k) (simp_all add: scan_oct_def is_space_def is_octal_def)

lemma zero_header_facts:
  "header_ok zero_header" "block_of zero_header = replicate 512 nul" "gnu_longname zero_header = 0"
  "gnu_longlink zero_header = 0" "hd (hdr_prefix zero_header) = nul" "hdr_typeflag zero_header = nul"
  "\<not> TH_ISDIR zero_header"
proof -
  show block: "block_of zero_header = replicate 512 nul"
    using block_header [of "replicate 512 nul"] by (simp add: zero_header_def T_BLOCKSIZE_def)
  show ty: "hdr_typeflag zero_header = nul" by (simp add: zero_header_def header_of_def)
  show "\<not> TH_ISDIR zero_header"
    by (simp add: TH_ISDIR_def ty DIRTYPE_def hdr_mode_bits_def block oct_to_int_def scan_oct_nuls S_IS_def file_type_defs)
  show "header_ok zero_header" by (simp add: zero_header_def header_of_ok T_BLOCKSIZE_def)
qed (simp_all add: zero_header_def header_of_def field_at_replicate le_val_nuls)

lemma not_dir_nul:
  assumes "header_ok h" "hdr_typeflag h \<noteq> DIRTYPE" "hd (hdr_mode h) = nul"
  shows "\<not> TH_ISDIR h"
proof -
  have "drop 100 (block_of h) = hdr_mode h @ drop 108 (block_of h)"
    using assms(1) by (simp add: block_of_def header_ok_def)
  then have "hd (drop 100 (block_of h)) = nul" "drop 100 (block_of h) \<noteq> []"
    using assms by (auto simp: header_ok_def hd_append)
  then obtain r where "drop 100 (block_of h) = nul # r" by (cases "drop 100 (block_of h)") auto
  then show ?thesis
    using assms(2) by (simp add: TH_ISDIR_def hdr_mode_bits_def oct_to_int_def scan_oct_def
        is_space_def is_octal_def S_IS_def file_type_defs)
qed

lemma par_same: "t\<lparr>th_buf := th_buf t\<rparr> = t"
  by simp

definition par_ok :: "par \<Rightarrow> bool" where
  "par_ok t \<longleftrightarrow> header_ok (th_buf t) \<and> (\<forall>b. th_pathname t = Some b \<longrightarrow> length b = MAXPATHLEN)"

lemma snprintf_cstr:
  assumes "nul_free s" "length s < n" "n \<le> length buf"
  shows "cstr (snprintf_to buf n s) = s"
  using assms by (simp add: snprintf_to_def overwrite_def)

lemma length_snprintf: "n \<le> length buf \<Longrightarrow> length (snprintf_to buf n s) = length buf"
  by (cases buf) (auto simp: snprintf_to_def overwrite_def)

lemma free_str_0 [simp]: "free_str 0 t = Some t"
  by (simp add: free_str_def)

lemma free_str_keeps: "free_str p t = Some t' \<Longrightarrow> th_buf t' = th_buf t \<and> th_pathname t' = th_pathname t \<and> par_options t' = par_options t"
  by (auto simp: free_str_def split: if_splits)

text \<open>Reading the name back when the pointer field is null.\<close>

lemma th_get_pathname_fields:
  assumes "par_ok t" "gnu_longname (th_buf t) = 0"
    and "s = (if \<not> strncmp_eq (TMAGLEN - 1) (hdr_magic (th_buf t)) TMAGIC \<or> hd (hdr_prefix (th_buf t)) = nul
            then cstr (take 100 (hdr_name (th_buf t)))
            else cstr (take 155 (hdr_prefix (th_buf t))) @ ''/'' @ cstr (take 100 (hdr_name (th_buf t))))"
  shows "\<exists>t'. th_get_pathname True t = Some (Some (safer_name_suffix s), t')"
proof -
  obtain buf where buf: "(case th_pathname t of Some b \<Rightarrow> Some b | None \<Rightarrow> Some (replicate MAXPATHLEN nul)) = Some buf"
      "length buf = MAXPATHLEN"
    using assms(1) by (cases "th_pathname t") (auto simp: par_ok_def)
  have bound: "length (cstr (take n xs)) \<le> n" for n xs
    using length_cstr_le [of "take n xs"] by simp
  have "length s \<le> 256" using bound [of 100 "hdr_name (th_buf t)"] bound [of 155 "hdr_prefix (th_buf t)"]
    unfolding assms(3) by (simp split: if_split)
  moreover have "nul_free s" unfolding assms(3) by (simp split: if_split)
  ultimately have "cstr (snprintf_to buf MAXPATHLEN s) = s"
    using buf(2) by (intro snprintf_cstr) (simp_all add: MAXPATHLEN_def)
  then show ?thesis
    using buf(1) assms(2) unfolding th_get_pathname_def Let_def assms(3) [symmetric] by (simp split: option.splits)
qed

text \<open>Names that fit the name field: setting the path of a header with an empty prefix field
  and reading it back gives the name made safe, with a slash appended to directories.\<close>

theorem path_roundtrip_classic:
  assumes "par_ok t" "gnu_longname (th_buf t) = 0" "nul_free path" "path \<noteq> []"
    and "hd (hdr_prefix (th_buf t)) = nul"
    and "suffix = (if last path \<noteq> slash \<and> TH_ISDIR (th_buf t) then ''/'' else '''')"
    and "length path + length suffix < T_NAMELEN"
  shows "\<exists>t1 t2. th_set_path dup t path = Some t1 \<and>
     th_get_pathname True t1 = Some (Some (safer_name_suffix (path @ suffix)), t2)"
proof -
  let ?h = "th_buf t"
  let ?n = "snprintf_to (hdr_name ?h) 100 (path @ suffix)"
  let ?t1 = "t\<lparr>th_buf := ?h\<lparr>hdr_name := ?n\<rparr>\<rparr>"
  have len: "length (hdr_name ?h) = 100" using assms(1) by (simp add: par_ok_def header_ok_def)
  have same: "?h\<lparr>gnu_longname := 0\<rparr> = ?h" by (rule par_file_header.equality) (simp_all add: assms(2))
  have "nul_free suffix" using assms(6) by simp
  then have n: "cstr (take 100 ?n) = path @ suffix"
    using snprintf_cstr [of "path @ suffix" 100 "hdr_name ?h"] length_snprintf [of 100 "hdr_name ?h" "path @ suffix"]
      assms(3,7) len by (simp add: T_NAMELEN_def)
  have set: "th_set_path dup t path = Some ?t1"
    using assms(2,4,7) unfolding th_set_path_def
    by (simp add: T_NAMELEN_def assms(6) [symmetric] same Let_def)
  have "par_ok ?t1" using assms(1) len by (simp add: par_ok_def header_ok_def length_snprintf)
  then show ?thesis
    using th_get_pathname_fields [of ?t1, OF _ _ refl] assms(2,5) n set by simp
qed

theorem path_roundtrip_classic_witness:
  "\<exists>t1 t2. th_set_path 0 \<lparr>par_options = 0, th_buf = zero_header, th_pathname = None, longs = Map.empty\<rparr> ''a/b.txt'' = Some t1 \<and>
     th_get_pathname True t1 = Some (Some (safer_name_suffix ''a/b.txt''), t2)"
proof -
  show ?thesis
    using path_roundtrip_classic [of "\<lparr>par_options = 0, th_buf = zero_header, th_pathname = None, longs = Map.empty\<rparr>" "''a/b.txt''" "[]" 0] zero_header_facts
    by (simp add: par_ok_def T_NAMELEN_def)
qed

text \<open>Longer names are split between the prefix and the name field at a slash and joined again:
  the round trip gives the whole path when the part after the slash has at most 99 characters
  (with the directory slash) and the part before it between 1 and 154.\<close>

theorem path_roundtrip_prefix:
  assumes "par_ok t" "gnu_longname (th_buf t) = 0" "nul_free (pre @ slash # base)" "\<not> gnu t"
    and "hdr_magic (th_buf t) = TMAGIC"
    and "path = pre @ slash # base" "length path > T_NAMELEN" "slash \<notin> set (drop (length path - 101) pre)"
    and "suffix = (if last path \<noteq> slash \<and> TH_ISDIR (th_buf t) then ''/'' else '''')"
    and "0 < length pre" "length pre < 155" "length base + length suffix < 100"
  shows "\<exists>t1 t2. th_set_path dup t path = Some t1 \<and>
     th_get_pathname True t1 = Some (Some (safer_name_suffix (path @ suffix)), t2)"
proof -
  let ?h = "th_buf t"
  let ?n = "snprintf_to (hdr_name ?h) 100 (base @ suffix)"
  let ?p = "snprintf_to (hdr_prefix ?h) (length pre + 1) path"
  let ?t1 = "t\<lparr>th_buf := ?h\<lparr>hdr_name := ?n, hdr_prefix := ?p\<rparr>\<rparr>"
  have same: "?h\<lparr>gnu_longname := 0\<rparr> = ?h" by (rule par_file_header.equality) (simp_all add: assms(2))
  have len: "length (hdr_name ?h) = 100" "length (hdr_prefix ?h) = 155"
    using assms(1) by (simp_all add: par_ok_def header_ok_def)
  have n: "cstr (take 100 ?n) = base @ suffix"
    using snprintf_cstr [of "base @ suffix" 100 "hdr_name ?h"] length_snprintf [of 100 "hdr_name ?h" "base @ suffix"]
      assms(3,9,12) len(1) by simp
  have p: "?p = pre @ nul # drop (length pre + 1) (hdr_prefix ?h)"
    using assms(6) by (simp add: snprintf_to_def overwrite_def)
  have plen: "length ?p = 155" using assms(11) len(2) by (simp add: length_snprintf)
  have pre: "cstr (take 155 ?p) = pre" "hd ?p \<noteq> nul"
  proof -
    have "cstr ?p = pre" unfolding p using assms(3) by simp
    then show "cstr (take 155 ?p) = pre" using plen by simp
    show "hd ?p \<noteq> nul" unfolding p using assms(3,10) by (cases pre) simp_all
  qed
  define st where "st = length path - T_NAMELEN - 1"
  have st: "st = length path - 101" "st \<le> length pre"
    using assms(6,7,12) by (simp_all add: st_def T_NAMELEN_def)
  then have "takeWhile (\<lambda>c. c \<noteq> slash) (drop st path) = drop st pre"
    using assms(8) by (auto simp: assms(6) takeWhile_append)
  then have tmp: "st + length (takeWhile (\<lambda>c. c \<noteq> slash) (drop st path)) = length pre"
    using st(2) by simp
  have set: "th_set_path dup t path = Some ?t1"
  proof -
    have "path \<noteq> []" "length pre \<noteq> length path" "drop (length pre + 1) path = base"
      by (simp_all add: assms(6))
    moreover have "length pre < 154 \<or> length pre = 154" using assms(11) by auto
    ultimately show ?thesis
      using assms(2,4,7) tmp
      by (elim disjE) (simp_all add: th_set_path_def same par_same Let_def assms(9) [symmetric] st_def)
  qed
  have "par_ok ?t1" using assms(1) len plen by (simp add: par_ok_def header_ok_def length_snprintf)
  moreover have "strncmp_eq (TMAGLEN - 1) TMAGIC TMAGIC" by (simp add: strncmp_eq_def)
  ultimately show ?thesis
    using th_get_pathname_fields [of ?t1, OF _ _ refl] assms(2,5) n pre set by (simp add: assms(6))
qed

theorem path_roundtrip_prefix_witness:
  "\<exists>t1 t2. th_set_path 0 \<lparr>par_options = 0, th_buf = zero_header\<lparr>hdr_magic := TMAGIC\<rparr>, th_pathname = None, longs = Map.empty\<rparr>
        (replicate 60 CHR ''a'' @ slash # replicate 50 CHR ''b'') = Some t1 \<and>
     th_get_pathname True t1 = Some (Some (safer_name_suffix (replicate 60 CHR ''a'' @ slash # replicate 50 CHR ''b'')), t2)"
proof -
  have "last (replicate 60 CHR ''a'' @ slash # replicate 50 CHR ''b'') = CHR ''b''" by simp
  moreover have "header_ok (zero_header\<lparr>hdr_magic := TMAGIC\<rparr>)"
    using zero_header_facts(1) by (simp add: header_ok_def magic_defs)
  moreover from this have "\<not> TH_ISDIR (zero_header\<lparr>hdr_magic := TMAGIC\<rparr>)"
    by (rule not_dir_nul)
       (simp_all add: zero_header_facts DIRTYPE_def, simp add: zero_header_def header_of_def field_at_replicate)
  ultimately show ?thesis
    using path_roundtrip_prefix [of "\<lparr>par_options = 0, th_buf = zero_header\<lparr>hdr_magic := TMAGIC\<rparr>, th_pathname = None, longs = Map.empty\<rparr>"
        "replicate 60 CHR ''a''" "replicate 50 CHR ''b''" _ "[]" 0] zero_header_facts
    by (simp add: par_ok_def T_NAMELEN_def gnu_def nul_free_def)
qed

end
