(* ===== verification/Par_Block.thy ===== *)
theory Par_Block
  imports Par_Header
begin

text \<open>
  \<open>par/block.c\<close> and the block transfers of \<open>par/handle.c\<close>: reading and writing header blocks,
  with the GNU extension blocks for long names and links. The file below the handle is a
  schedule of outcomes: what the successive \<open>read\<close> (or \<open>gzread\<close>) calls return and what the
  \<open>write\<close> calls return; everything written is collected. \<open>errno\<close> is not modelled.
\<close>

section \<open>The device\<close>

datatype read_outcome = ReadError | ReadData "char list"

record dev =
  routs :: "read_outcome list"
  wouts :: "int list"
  written :: "char list"

text \<open>\<open>par_block_read\<close> delivers at most one block; an exhausted schedule is the end of the file.\<close>

definition par_block_read :: "dev \<Rightarrow> int \<times> char list \<times> dev" where
  "par_block_read d =
     (case routs d of [] \<Rightarrow> (0, [], d)
      | ReadError # r \<Rightarrow> (-1, [], d\<lparr>routs := r\<rparr>)
      | ReadData bs # r \<Rightarrow>
          (let bs = take T_BLOCKSIZE bs in (int (length bs), bs, d\<lparr>routs := r\<rparr>)))"

text \<open>An exhausted schedule of \<open>write\<close> results means that whole blocks are written.\<close>

definition par_block_write :: "dev \<Rightarrow> char list \<Rightarrow> int \<times> dev" where
  "par_block_write d buf =
     (case wouts d of [] \<Rightarrow> (int T_BLOCKSIZE, d\<lparr>written := written d @ take T_BLOCKSIZE buf\<rparr>)
      | n # r \<Rightarrow> (n, d\<lparr>wouts := r, written := written d @ take (nat n) (take T_BLOCKSIZE buf)\<rparr>))"

section \<open>Reading\<close>

text \<open>The loop of \<open>th_read_internal\<close>; \<open>nz\<close> is \<open>num_zero_blocks\<close>.\<close>

function read_loop :: "nat \<Rightarrow> par \<Rightarrow> dev \<Rightarrow> int \<times> par \<times> dev" where
  "read_loop nz t d =
     (case par_block_read d of (i, bs, d') \<Rightarrow>
        let t = t\<lparr>th_buf := header_of (overwrite (block_of (th_buf t)) bs)\<rparr>; h = th_buf t in
        if i = int T_BLOCKSIZE then
          (if hd (hdr_name h) = nul then
             (if par_options t AND PAR_IGNORE_EOT = 0 \<and> nz + 1 \<ge> 2 then (0, t, d')
              else read_loop (nz + 1) t d')
           else if \<not> strncmp_eq (TMAGLEN - 1) (hdr_magic h) TMAGIC then (-2, t, d')
           else if \<not> strncmp_eq TVERSLEN (hdr_version h) TVERSION then (-2, t, d')
           else if \<not> th_crc_ok h then (-2, t, d')
           else (i, t, d'))
        else (i, t, d'))"
  by pat_completeness auto
termination
  by (relation "measure (\<lambda>(nz, t, d). length (routs d))")
     (auto simp: par_block_read_def T_BLOCKSIZE_def split: list.splits read_outcome.splits)

declare read_loop.simps [simp del]

definition th_read_internal :: "par \<Rightarrow> dev \<Rightarrow> int \<times> par \<times> dev" where
  "th_read_internal t d = read_loop 0 t d"

text \<open>Reading \<open>n\<close> blocks into the buffer at block \<open>j\<close>; False when a read comes up short.\<close>

fun read_blocks :: "nat \<Rightarrow> nat \<Rightarrow> char list \<Rightarrow> dev \<Rightarrow> bool \<times> char list \<times> dev" where
  "read_blocks 0 j buf d = (True, buf, d)"
| "read_blocks (Suc n) j buf d =
     (case par_block_read d of (i, bs, d') \<Rightarrow>
        let buf = take (j * T_BLOCKSIZE) buf @ overwrite (drop (j * T_BLOCKSIZE) buf) bs in
        if i \<noteq> int T_BLOCKSIZE then (False, buf, d')
        else read_blocks n (j + 1) buf d')"

text \<open>The two GNU branches of \<open>th_read\<close> differ in the pointer field they set. \<open>mal\<close> is the
  address \<open>malloc\<close> returns (0 when it fails) and \<open>junk\<close> fills the fresh buffer.\<close>

definition th_read_long ::
  "(u64 \<Rightarrow> par_file_header \<Rightarrow> par_file_header) \<Rightarrow> u64 \<Rightarrow> char \<Rightarrow> par \<Rightarrow> dev \<Rightarrow> bool \<times> par \<times> dev" where
  "th_read_long set_ptr mal junk t d =
     (let sz = unat (th_get_size (th_buf t));
          blocks = sz div T_BLOCKSIZE + (if sz mod T_BLOCKSIZE \<noteq> 0 then 1 else 0)
      in if blocks > (2 ^ 64 - 1) div T_BLOCKSIZE then (False, t, d)
      else if mal = 0 then (False, t\<lparr>th_buf := set_ptr 0 (th_buf t)\<rparr>, d)
      else (case read_blocks blocks 0 (replicate (blocks * T_BLOCKSIZE) junk) d of (ok, buf, d') \<Rightarrow>
        let t = t\<lparr>th_buf := set_ptr mal (th_buf t), longs := (longs t)(mal \<mapsto> buf)\<rparr> in
        if \<not> ok then (False, t, d')
        else (case th_read_internal t d' of (i, t', d'') \<Rightarrow> (i = int T_BLOCKSIZE, t', d''))))"

definition th_read :: "u64 \<Rightarrow> u64 \<Rightarrow> char \<Rightarrow> par \<Rightarrow> dev \<Rightarrow> (int \<times> par \<times> dev) option" where
  "th_read mal_link mal_name junk t d = do {
     t1 \<leftarrow> free_str (gnu_longname (th_buf t)) t;
     t2 \<leftarrow> free_str (gnu_longlink (th_buf t)) t1;
     let t3 = t2\<lparr>th_buf := zero_header\<rparr>;
     (case th_read_internal t3 d of (i, t4, d4) \<Rightarrow>
        if i = 0 then Some (1, t4, d4)
        else if i \<noteq> int T_BLOCKSIZE then Some (-1, t4, d4)
        else (case (if TH_ISLONGLINK (th_buf t4)
                    then th_read_long (\<lambda>p h. h\<lparr>gnu_longlink := p\<rparr>) mal_link junk t4 d4
                    else (True, t4, d4)) of (ok, t5, d5) \<Rightarrow>
          if \<not> ok then Some (-1, t5, d5)
          else (case (if TH_ISLONGNAME (th_buf t5)
                      then th_read_long (\<lambda>p h. h\<lparr>gnu_longname := p\<rparr>) mal_name junk t5 d5
                      else (True, t5, d5)) of (ok, t6, d6) \<Rightarrow>
            if \<not> ok then Some (-1, t6, d6) else Some (0, t6, d6)))) }"

section \<open>Writing\<close>

text \<open>The loop \<open>for (j = ...; j > 1; j--, ptr += T_BLOCKSIZE)\<close> over the string's buffer.\<close>

fun write_blocks :: "nat \<Rightarrow> char list \<Rightarrow> dev \<Rightarrow> bool \<times> char list \<times> dev" where
  "write_blocks j mem d =
     (if j > 1 then
        (case par_block_write d mem of (i, d') \<Rightarrow>
           if i \<noteq> int T_BLOCKSIZE then (False, mem, d')
           else write_blocks (j - 1) (drop T_BLOCKSIZE mem) d')
      else (True, mem, d))"

declare write_blocks.simps [simp del]

text \<open>The two GNU branches of \<open>th_write\<close>, for the type flag and the pointer they use.\<close>

definition th_write_long :: "char \<Rightarrow> u64 \<Rightarrow> par \<Rightarrow> dev \<Rightarrow> (bool \<times> par \<times> dev) option" where
  "th_write_long ty p t d = do {
     s \<leftarrow> str_at t p;
     mem \<leftarrow> longs t p;
     let type2 = hdr_typeflag (th_buf t);
     let sz2 = th_get_size (th_buf t);
     let h = th_finish (th_set_size (int (length s)) ((th_buf t)\<lparr>hdr_typeflag := ty\<rparr>));
     let t = t\<lparr>th_buf := h\<rparr>;
     (case par_block_write d (block_of h) of (i, d) \<Rightarrow>
        if i \<noteq> int T_BLOCKSIZE then Some (False, t, d)
        else (case write_blocks (length s div T_BLOCKSIZE + (if length s mod T_BLOCKSIZE \<noteq> 0 then 1 else 0)) mem d of
            (ok, rest, d) \<Rightarrow>
          if \<not> ok then Some (False, t, d)
          else (case par_block_write d (strncpy_to (replicate T_BLOCKSIZE nul) (cstr rest) T_BLOCKSIZE) of (i, d) \<Rightarrow>
            if i \<noteq> int T_BLOCKSIZE then Some (False, t, d)
            else Some (True, t\<lparr>th_buf := th_set_size (uint sz2) (h\<lparr>hdr_typeflag := type2\<rparr>)\<rparr>, d)))) }"

definition th_write :: "par \<Rightarrow> dev \<Rightarrow> (int \<times> par \<times> dev) option" where
  "th_write t d = do {
     (ok, t, d) \<leftarrow> (if gnu t \<and> gnu_longlink (th_buf t) \<noteq> 0
                    then th_write_long GNU_LONGLINK_TYPE (gnu_longlink (th_buf t)) t d else Some (True, t, d));
     if \<not> ok then Some (-1, t, d)
     else do {
       (ok, t, d) \<leftarrow> (if gnu t \<and> gnu_longname (th_buf t) \<noteq> 0
                      then th_write_long GNU_LONGNAME_TYPE (gnu_longname (th_buf t)) t d else Some (True, t, d));
       if \<not> ok then Some (-1, t, d)
       else (let t = t\<lparr>th_buf := th_finish (th_buf t)\<rparr> in
         (case par_block_write d (block_of (th_buf t)) of (i, d) \<Rightarrow>
            if i \<noteq> int T_BLOCKSIZE then Some (-1, t, d) else Some (0, t, d))) } }"

section \<open>Lemmas\<close>

definition header_valid :: "par_file_header \<Rightarrow> bool" where
  "header_valid h \<longleftrightarrow> hd (hdr_name h) \<noteq> nul \<and> strncmp_eq (TMAGLEN - 1) (hdr_magic h) TMAGIC \<and>
     strncmp_eq TVERSLEN (hdr_version h) TVERSION \<and> th_crc_ok h"

lemma read_loop_block:
  assumes "routs d = ReadData b # r" "length b = T_BLOCKSIZE" "header_ok (th_buf t)" "hd b \<noteq> nul"
  shows "read_loop nz t d =
    (if header_valid (header_of b) then int T_BLOCKSIZE else -2, t\<lparr>th_buf := header_of b\<rparr>, d\<lparr>routs := r\<rparr>)"
proof -
  have name: "hd (hdr_name (header_of b)) = hd b"
    using assms(2) by (cases b) (simp_all add: header_of_def field_at_def T_BLOCKSIZE_def)
  have "overwrite (block_of (th_buf t)) b = b" using assms(2) block_length [OF assms(3)] by simp
  then show ?thesis
    using assms name
    by (subst read_loop.simps) (auto simp: par_block_read_def Let_def header_valid_def)
qed

lemma read_loop_valid:
  assumes "read_loop nz t d = (int T_BLOCKSIZE, t', d')"
  shows "header_valid (th_buf t')"
  using assms
proof (induction nz t d rule: read_loop.induct)
  case (1 nz t d)
  obtain i bs d1 where r: "par_block_read d = (i, bs, d1)" by (metis prod_cases3)
  from 1(2) show ?case
    apply (subst (asm) read_loop.simps)
    using 1(1) [OF r [symmetric] refl] by (auto simp: r Let_def header_valid_def T_BLOCKSIZE_def split: if_splits)
qed

lemma th_finish_fields [simp]:
  "hdr_name (th_finish h) = hdr_name h" "hdr_typeflag (th_finish h) = hdr_typeflag h"
  "gnu_longname (th_finish h) = gnu_longname h" "gnu_longlink (th_finish h) = gnu_longlink h"
  "hdr_magic (th_finish h) = TMAGIC" "hdr_version (th_finish h) = TVERSION" "hdr_size (th_finish h) = hdr_size h"
  by (simp_all add: th_finish_def Let_def)

lemma th_finish_crc: "header_ok h \<Longrightarrow> th_get_crc (th_finish h) = th_crc_calc (th_finish h)"
  using finished_crc by blast

lemma th_finish_header_valid:
  assumes "header_ok h" "hd (hdr_name h) \<noteq> nul"
  shows "header_valid (th_finish h)"
  using assms th_finish_crc [OF assms(1)] by (simp add: header_valid_def strncmp_eq_def th_crc_ok_def)

lemma block_hd: "header_ok h \<Longrightarrow> hd (block_of h) = hd (hdr_name h)"
  by (auto simp: block_of_def header_ok_def hd_append)

text \<open>Reading back the block of a finished header.\<close>

lemma read_finished:
  assumes "routs d = ReadData (block_of (th_finish h)) # r" "header_ok h" "hd (hdr_name h) \<noteq> nul" "header_ok (th_buf t)"
  shows "th_read_internal t d = (int T_BLOCKSIZE, t\<lparr>th_buf := th_finish h\<rparr>, d\<lparr>routs := r\<rparr>)"
proof -
  have ok: "header_ok (th_finish h)" by (rule th_finish_ok [OF assms(2)])
  have "hd (block_of (th_finish h)) \<noteq> nul" using block_hd [OF ok] assms(3) by simp
  then show ?thesis
    using read_loop_block [OF assms(1) block_length [OF ok] assms(4), of 0] header_block [OF ok]
      th_finish_header_valid [OF assms(2,3)]
    by (simp add: th_read_internal_def)
qed

text \<open>A header that \<open>th_read\<close> reports as read has a name, the right magic and version and a
  matching checksum, whatever the file held.\<close>

theorem th_read_sound:
  assumes "th_read mal_link mal_name junk t d = Some (0, t', d')"
  shows "header_valid (th_buf t')"
proof -
  have long: "header_valid (th_buf u')" if "th_read_long f m junk u e = (True, u', e')" for f m u e u' e'
    using that read_loop_valid [of 0 _ _ u' e']
    by (auto simp: th_read_long_def Let_def th_read_internal_def split: if_splits prod.splits)
  show ?thesis
    using assms long read_loop_valid [of 0 _ _ t' d']
    by (auto simp: th_read_def Let_def th_read_internal_def split: if_splits prod.splits bind_splits
        dest: read_loop_valid)
qed

text \<open>Reading a finished header without GNU type flag into a fresh handle.\<close>

lemma th_read_finished:
  assumes "routs d = ReadData (block_of (th_finish h)) # r" "header_ok h" "hd (hdr_name h) \<noteq> nul"
    and "\<not> TH_ISLONGLINK h" "\<not> TH_ISLONGNAME h"
    and "gnu_longname (th_buf t) = 0" "gnu_longlink (th_buf t) = 0"
  shows "th_read ml mn junk t d = Some (0, t\<lparr>th_buf := th_finish h\<rparr>, d\<lparr>routs := r\<rparr>)"
  using assms read_finished [OF assms(1-3), of "t\<lparr>th_buf := zero_header\<rparr>"] zero_header_facts(1)
  by (simp add: th_read_def Let_def T_BLOCKSIZE_def TH_ISLONGLINK_def TH_ISLONGNAME_def)

definition sample_header :: par_file_header where
  "sample_header = zero_header\<lparr>hdr_name := CHR ''a'' # replicate 99 nul\<rparr>"

definition sample_par :: "par_file_header \<Rightarrow> par" where
  "sample_par h = \<lparr>par_options = 0, th_buf = h, th_pathname = None, longs = Map.empty\<rparr>"

definition dev_of :: "read_outcome list \<Rightarrow> dev" where
  "dev_of rs = \<lparr>routs = rs, wouts = [], written = []\<rparr>"

lemma sample_header_facts:
  "header_ok sample_header" "hd (hdr_name sample_header) \<noteq> nul" "\<not> TH_ISLONGLINK sample_header"
  "\<not> TH_ISLONGNAME sample_header" "gnu_longname sample_header = 0" "gnu_longlink sample_header = 0"
  using zero_header_facts
  by (simp_all add: sample_header_def header_ok_def TH_ISLONGLINK_def TH_ISLONGNAME_def type_defs)

theorem th_read_sound_witness:
  "\<exists>t' d'. th_read 0 0 nul (sample_par zero_header) (dev_of [ReadData (block_of (th_finish sample_header))]) = Some (0, t', d') \<and>
     header_valid (th_buf t')"
  using th_read_finished [of "dev_of [ReadData (block_of (th_finish sample_header))]" sample_header "[]" "sample_par zero_header" 0 0 nul]
    th_read_sound [of 0 0 nul "sample_par zero_header" "dev_of [ReadData (block_of (th_finish sample_header))]"]
    sample_header_facts zero_header_facts
  by (simp add: sample_par_def dev_of_def)

lemma th_write_plain:
  assumes "header_ok (th_buf t)" "wouts d = []" "gnu_longname (th_buf t) = 0" "gnu_longlink (th_buf t) = 0"
  shows "th_write t d = Some (0, t\<lparr>th_buf := th_finish (th_buf t)\<rparr>, d\<lparr>written := written d @ block_of (th_finish (th_buf t))\<rparr>)"
  using assms block_length [OF th_finish_ok [OF assms(1)]] by (simp add: th_write_def par_block_write_def Let_def)

text \<open>C7. What \<open>th_write\<close> writes for a header without GNU pointers is one block, and \<open>th_read\<close>
  reads it back as the same header, completed with magic, version and checksum.\<close>

theorem th_write_read_roundtrip:
  assumes "header_ok (th_buf t)" "hd (hdr_name (th_buf t)) \<noteq> nul" "wouts d = []"
    and "gnu_longname (th_buf t) = 0" "gnu_longlink (th_buf t) = 0"
    and "\<not> TH_ISLONGLINK (th_buf t)" "\<not> TH_ISLONGNAME (th_buf t)"
    and "gnu_longname (th_buf r) = 0" "gnu_longlink (th_buf r) = 0"
  shows "\<exists>t1 d1. th_write t d = Some (0, t1, d1) \<and> length (written d1) = length (written d) + T_BLOCKSIZE \<and>
     (\<exists>r1 d2. th_read ml mn junk r (dev_of [ReadData (drop (length (written d)) (written d1))]) = Some (0, r1, d2) \<and>
        th_buf r1 = th_finish (th_buf t))"
proof -
  let ?h = "th_finish (th_buf t)"
  have len: "length (block_of ?h) = T_BLOCKSIZE" by (rule block_length [OF th_finish_ok [OF assms(1)]])
  have wr: "th_write t d = Some (0, t\<lparr>th_buf := ?h\<rparr>, d\<lparr>written := written d @ block_of ?h\<rparr>)"
    by (rule th_write_plain [OF assms(1,3-5)])
  have "th_read ml mn junk r (dev_of [ReadData (block_of ?h)]) =
      Some (0, r\<lparr>th_buf := ?h\<rparr>, (dev_of [ReadData (block_of ?h)])\<lparr>routs := []\<rparr>)"
    by (rule th_read_finished) (simp_all add: assms dev_of_def)
  then show ?thesis using wr len by simp
qed

theorem th_write_read_roundtrip_witness:
  "\<exists>t1 d1. th_write (sample_par sample_header) (dev_of []) = Some (0, t1, d1) \<and> length (written d1) = T_BLOCKSIZE \<and>
     (\<exists>r1 d2. th_read 0 0 nul (sample_par zero_header) (dev_of [ReadData (written d1)]) = Some (0, r1, d2) \<and>
        th_buf r1 = th_finish sample_header)"
  using th_write_read_roundtrip [of "sample_par sample_header" "dev_of []" "sample_par zero_header" 0 0 nul]
    sample_header_facts zero_header_facts
  by (simp add: sample_par_def dev_of_def)

section \<open>Corruption\<close>

lemma sum_list_update:
  "i < length xs \<Longrightarrow> sum_list (map f (xs[i := x])) = sum_list (map f xs) + f x - (f (xs ! i) :: int)"
  by (induction xs arbitrary: i) (auto split: nat.splits)

text \<open>The signed sum differs from the unsigned one by a multiple of 256.\<close>

lemma signed_sum: "\<exists>k. sum_list (map schar cs) = sum_list (map uchar cs) - 256 * k"
proof (induction cs)
  case (Cons c cs)
  then obtain k where k: "sum_list (map schar cs) = sum_list (map uchar cs) - 256 * k" by blast
  have "schar c = uchar c \<or> schar c = uchar c - 256" by (simp add: schar_def)
  then show ?case
  proof
    assume "schar c = uchar c"
    then show ?thesis using k by (intro exI [of _ k]) simp
  next
    assume "schar c = uchar c - 256"
    then show ?thesis using k by (intro exI [of _ "k + 1"]) (simp add: algebra_simps)
  qed
qed (simp add: exI [of _ 0])

lemma signed_crc: "\<exists>k. th_signed_crc_calc h = th_crc_calc h - 256 * k"
proof -
  obtain k k' where "sum_list (map schar (block_of h)) = sum_list (map uchar (block_of h)) - 256 * k"
      "sum_list (map schar (hdr_chksum h)) = sum_list (map uchar (hdr_chksum h)) - 256 * k'"
    using signed_sum by metis
  then show ?thesis
    unfolding th_signed_crc_calc_def th_crc_calc_def sum_complement by (intro exI [of _ "k - k'"]) (simp add: algebra_simps)
qed

lemma corrupted_crc:
  assumes "header_ok h" "b = block_of (th_finish h)" "i < T_BLOCKSIZE" "i < 148 \<or> 156 \<le> i" "c \<noteq> b ! i"
  shows "\<not> th_crc_ok (header_of (b[i := c]))"
proof -
  let ?b = "b[i := c]" and ?f = "th_finish h"
  have ok: "header_ok ?f" by (rule th_finish_ok [OF assms(1)])
  have len: "length b = T_BLOCKSIZE" "length ?b = T_BLOCKSIZE" using block_length [OF ok] assms(2) by simp_all
  have blk: "block_of (header_of ?b) = ?b" by (rule block_header [OF len(2)])
  have chk: "field_at 148 8 ?b = hdr_chksum ?f"
  proof -
    have "field_at 148 8 b = hdr_chksum (header_of b)" by (simp add: header_of_def)
    then have "field_at 148 8 b = hdr_chksum ?f" using header_block [OF ok] assms(2) by simp
    moreover have "length (hdr_chksum ?f) = 8" using ok by (simp add: header_ok_def)
    ultimately show ?thesis
      using assms(4) by (auto simp: field_at_def drop_update_swap take_update_swap list_update_beyond)
  qed
  have drop: "drop 148 ?b = hdr_chksum ?f @ drop 156 ?b"
    using append_take_drop_id [of 8 "drop 148 ?b"] chk by (simp add: field_at_def del: append_take_drop_id)
  obtain num where "hdr_chksum ?f = int_to_oct num (hdr_chksum h) 8" "unat num < 8 ^ 6"
    using finished_chksum [OF assms(1)] by blast
  then have "scan_oct (hdr_chksum ?f @ r) = Some num" for r
    using int_to_oct_scan assms(1) by (simp add: header_ok_def)
  then have "th_get_crc (header_of ?b) = th_get_crc ?f"
    using drop drop_chksum [OF ok] by (simp add: th_get_crc_def oct_to_int_def blk)
  then have stored: "th_get_crc (header_of ?b) = th_crc_calc ?f"
    using finished_crc [OF assms(1)] by simp
  have "hdr_chksum (header_of ?b) = hdr_chksum ?f" using chk by (simp add: header_of_def)
  then have calc: "th_crc_calc (header_of ?b) = th_crc_calc ?f + uchar c - uchar (b ! i)"
    using assms(3) len sum_list_update [of i b uchar c]
    by (simp add: th_crc_calc_def blk assms(2) [symmetric])
  obtain k where k: "th_signed_crc_calc (header_of ?b) = th_crc_calc (header_of ?b) - 256 * k"
    using signed_crc by blast
  have "uchar c \<noteq> uchar (b ! i)" using assms(5) by simp
  moreover have "uchar c - uchar (b ! i) \<noteq> 256 * k"
  proof
    assume eq: "uchar c - uchar (b ! i) = 256 * k"
    have "\<bar>uchar c - uchar (b ! i)\<bar> \<le> 255" using uchar_bounds [of c] uchar_bounds [of "b ! i"] by linarith
    then have "\<bar>256 * k\<bar> \<le> 255" unfolding eq .
    then have "k = 0" by simp
    then show False using eq \<open>uchar c \<noteq> uchar (b ! i)\<close> by simp
  qed
  ultimately show ?thesis using stored calc k by (auto simp: th_crc_ok_def)
qed

text \<open>C14. A written header in which one byte outside the checksum field is changed (to anything,
  except that the first byte stays non-zero) is refused by \<open>th_read\<close>: neither the unsigned nor
  the signed checksum matches.\<close>

theorem th_read_detects_corruption:
  assumes "header_ok h" "hd (hdr_name h) \<noteq> nul" "i < T_BLOCKSIZE" "i < 148 \<or> 156 \<le> i"
    and "b = block_of (th_finish h)" "c \<noteq> b ! i" "i = 0 \<Longrightarrow> c \<noteq> nul"
    and "gnu_longname (th_buf t) = 0" "gnu_longlink (th_buf t) = 0"
    and "routs d = ReadData (b[i := c]) # rs"
  shows "\<exists>t' d'. th_read ml mn junk t d = Some (-1, t', d')"
proof -
  have ok: "header_ok (th_finish h)" by (rule th_finish_ok [OF assms(1)])
  have len: "length (b[i := c]) = T_BLOCKSIZE" using block_length [OF ok] assms(5) by simp
  obtain x xs where b: "b = x # xs" using len by (cases b) (auto simp: T_BLOCKSIZE_def)
  then have "x \<noteq> nul" using block_hd [OF ok] assms(2,5) by simp
  then have hd: "hd (b[i := c]) \<noteq> nul" using assms(7) b by (cases i) simp_all
  have "\<not> header_valid (header_of (b[i := c]))"
    using corrupted_crc [OF assms(1,5,3,4,6)] by (simp add: header_valid_def)
  then have "th_read_internal (t\<lparr>th_buf := zero_header\<rparr>) d =
      (-2, t\<lparr>th_buf := header_of (b[i := c])\<rparr>, d\<lparr>routs := rs\<rparr>)"
    using read_loop_block [OF assms(10) len, of "t\<lparr>th_buf := zero_header\<rparr>" 0] hd zero_header_facts(1)
    by (simp add: th_read_internal_def)
  then show ?thesis using assms(8,9) by (simp add: th_read_def Let_def T_BLOCKSIZE_def)
qed

theorem th_read_detects_corruption_witness:
  "\<exists>t' d'. th_read 0 0 nul (sample_par zero_header)
     (dev_of [ReadData ((block_of (th_finish sample_header))[0 := CHR ''b''])]) = Some (-1, t', d')"
proof -
  have "block_of (th_finish sample_header) ! 0 = CHR ''a''"
    by (simp add: block_of_def sample_header_def)
  then show ?thesis
    using th_read_detects_corruption [of sample_header 0 _ "CHR ''b''" "sample_par zero_header"
        "dev_of [ReadData ((block_of (th_finish sample_header))[0 := CHR ''b''])]" "[]" 0 0 nul]
      sample_header_facts zero_header_facts
    by (simp add: sample_par_def dev_of_def T_BLOCKSIZE_def)
qed

text \<open>Two zero blocks in a row end the archive: \<open>th_read\<close> returns 1 after them and reads
  nothing further, unless the option to ignore them is set.\<close>

theorem th_read_eof:
  assumes "routs d = ReadData (replicate T_BLOCKSIZE nul) # ReadData (replicate T_BLOCKSIZE nul) # rs"
    and "par_options t AND PAR_IGNORE_EOT = 0"
    and "gnu_longname (th_buf t) = 0" "gnu_longlink (th_buf t) = 0"
  shows "\<exists>t'. th_read ml mn junk t d = Some (1, t', d\<lparr>routs := rs\<rparr>)"
proof -
  have zero: "header_of (overwrite (block_of zero_header) (replicate T_BLOCKSIZE nul)) = zero_header"
    using zero_header_facts(2) by (simp add: zero_header_def T_BLOCKSIZE_def)
  have name: "hd (hdr_name zero_header) = nul" by (simp add: zero_header_def header_of_def field_at_replicate)
  have second: "read_loop 1 (t\<lparr>th_buf := zero_header\<rparr>) (d\<lparr>routs := ReadData (replicate T_BLOCKSIZE nul) # rs\<rparr>) =
      (0, t\<lparr>th_buf := zero_header\<rparr>, d\<lparr>routs := rs\<rparr>)"
    using assms(2) by (subst read_loop.simps) (simp add: par_block_read_def Let_def zero name)
  have "read_loop 0 (t\<lparr>th_buf := zero_header\<rparr>) d = (0, t\<lparr>th_buf := zero_header\<rparr>, d\<lparr>routs := rs\<rparr>)"
    using assms(1,2) second by (subst read_loop.simps) (simp add: par_block_read_def Let_def zero name)
  then show ?thesis
    using assms(3,4) by (simp add: th_read_def Let_def th_read_internal_def)
qed

theorem th_read_eof_witness:
  "\<exists>t'. th_read 0 0 nul (sample_par zero_header)
     (dev_of [ReadData (replicate T_BLOCKSIZE nul), ReadData (replicate T_BLOCKSIZE nul)]) = Some (1, t', dev_of [])"
  using th_read_eof [of "dev_of [ReadData (replicate T_BLOCKSIZE nul), ReadData (replicate T_BLOCKSIZE nul)]" "[]"
      "sample_par zero_header" 0 0 nul] zero_header_facts
  by (simp add: sample_par_def dev_of_def)

section \<open>Long names\<close>

lemma block_pos: "T_BLOCKSIZE \<noteq> 0"
  by (simp add: T_BLOCKSIZE_def)

lemma th_set_size_fields [simp]:
  "hdr_name (th_set_size n h) = hdr_name h" "hdr_typeflag (th_set_size n h) = hdr_typeflag h"
  "gnu_longname (th_set_size n h) = gnu_longname h" "gnu_longlink (th_set_size n h) = gnu_longlink h"
  by (simp_all add: th_set_size_def)

lemma drop_size: "header_ok h \<Longrightarrow> drop 124 (block_of h) = hdr_size h @ drop 136 (block_of h)"
  by (simp add: block_of_def header_ok_def)

lemma finished_size:
  assumes "header_ok h" "0 \<le> n" "n < 2 ^ 31"
  shows "header_ok (th_set_size n h)" "th_get_size (th_finish (th_set_size n h)) = word_of_int n"
proof -
  have i: "to_int n = n" using assms(2,3) by (simp add: to_int_def signed_take_bit_int_eq_self_iff)
  have len: "length (hdr_size h) = 12" using assms(1) by (simp add: header_ok_def)
  show ok: "header_ok (th_set_size n h)"
    using assms(1) int_to_oct_nonull_field [OF assms(2,3) len] by (auto simp: header_ok_def th_set_size_def i)
  have "drop 124 (block_of (th_finish (th_set_size n h))) =
      int_to_oct_nonull n (hdr_size h) 12 @ drop 136 (block_of (th_finish (th_set_size n h)))"
  proof -
    have "hdr_size (th_finish (th_set_size n h)) = int_to_oct_nonull n (hdr_size h) 12"
      by (simp add: th_set_size_def i)
    then show ?thesis using drop_size [OF th_finish_ok [OF ok]] by simp
  qed
  then show "th_get_size (th_finish (th_set_size n h)) = word_of_int n"
    using int_to_oct_nonull_scan [OF assms(2,3) len] by (simp add: th_get_size_def oct_to_size_def)
qed

text \<open>The long name extension does not survive a round trip. Of a file whose header block
  holds the pointer \<open>p\<close> of the writing process, \<open>th_read\<close> reads the name into a fresh buffer
  and then overwrites the pointer to that buffer with \<open>p\<close>, because the second header block is
  read over the whole structure. In a process where \<open>p\<close> is no allocation, asking for the path
  name then reads through a wild pointer.\<close>

theorem longname_pointer_clobbered:
  assumes "header_ok h" "hd (hdr_name h) \<noteq> nul" "gnu_longname h = p" "p \<noteq> 0"
    and "\<not> TH_ISLONGLINK h" "\<not> TH_ISLONGNAME h"
    and "0 < n" "n \<le> 512" "length name_block = T_BLOCKSIZE"
    and "routs d = [ReadData (block_of (th_finish (th_set_size n (h\<lparr>hdr_typeflag := GNU_LONGNAME_TYPE\<rparr>)))),
            ReadData name_block, ReadData (block_of (th_finish h))]"
    and "gnu_longname (th_buf t) = 0" "gnu_longlink (th_buf t) = 0" "mal \<noteq> 0" "mal \<noteq> p" "longs t p = None"
  shows "\<exists>t' d'. th_read ml mal junk t d = Some (0, t', d') \<and>
     longs t' mal = Some name_block \<and> gnu_longname (th_buf t') = p \<and> th_get_pathname True t' = None"
proof -
  let ?h1 = "th_set_size n (h\<lparr>hdr_typeflag := GNU_LONGNAME_TYPE\<rparr>)"
  have h1: "header_ok (h\<lparr>hdr_typeflag := GNU_LONGNAME_TYPE\<rparr>)" using assms(1) by (simp add: header_ok_def)
  have n: "0 \<le> n" "n < 2 ^ 31" using assms(7,8) by simp_all
  let ?t1 = "t\<lparr>th_buf := th_finish ?h1\<rparr>"
  let ?d1 = "d\<lparr>routs := [ReadData name_block, ReadData (block_of (th_finish h))]\<rparr>"
  have first: "th_read_internal (t\<lparr>th_buf := zero_header\<rparr>) d = (int T_BLOCKSIZE, ?t1, ?d1)"
    using read_finished [OF assms(10) finished_size(1) [OF h1 n], of "t\<lparr>th_buf := zero_header\<rparr>"]
      assms(2) zero_header_facts(1) by simp
  have "unat (word_of_int n :: u64) = nat n"
    using assms(7,8) by (simp add: unat_eq_nat_uint uint_word_of_int)
  then have sz: "unat (th_get_size (th_finish ?h1)) = nat n" using finished_size(2) [OF h1 n] by simp
  have "nat n div 512 + (if nat n mod 512 \<noteq> 0 then 1 else 0) = 1"
  proof (cases "n = 512")
    case False
    then have "0 < nat n" "nat n < 512" using assms(7,8) by simp_all
    then show ?thesis by simp
  qed simp
  then have blocks: "nat n div T_BLOCKSIZE + (if nat n mod T_BLOCKSIZE \<noteq> 0 then 1 else 0) = 1"
    by (simp add: T_BLOCKSIZE_def)
  have few: "\<not> (2 ^ 64 - 1) div T_BLOCKSIZE < (1::nat)" by (simp add: T_BLOCKSIZE_def)
  have blocks_eq: "unat (th_get_size (th_buf ?t1)) div T_BLOCKSIZE +
      (if unat (th_get_size (th_buf ?t1)) mod T_BLOCKSIZE \<noteq> 0 then 1 else 0) = 1"
    using blocks sz by simp
  have rd: "read_blocks 1 0 (replicate (1 * T_BLOCKSIZE) junk) ?d1 =
      (True, name_block, d\<lparr>routs := [ReadData (block_of (th_finish h))]\<rparr>)"
    using assms(9) by (simp add: par_block_read_def overwrite_def)
  let ?t2 = "?t1\<lparr>th_buf := (th_finish ?h1)\<lparr>gnu_longname := mal\<rparr>, longs := (longs t)(mal \<mapsto> name_block)\<rparr>"
  have ok2: "header_ok (th_buf ?t2)" using th_finish_ok [OF finished_size(1) [OF h1 n]] by (simp add: header_ok_def)
  have second: "th_read_internal ?t2 (d\<lparr>routs := [ReadData (block_of (th_finish h))]\<rparr>) =
      (int T_BLOCKSIZE, ?t2\<lparr>th_buf := th_finish h\<rparr>, d\<lparr>routs := []\<rparr>)"
    using read_finished [OF _ assms(1,2) ok2, of "d\<lparr>routs := [ReadData (block_of (th_finish h))]\<rparr>" "[]"] by simp
  have "th_read_long (\<lambda>p h. h\<lparr>gnu_longname := p\<rparr>) mal junk ?t1 ?d1 =
      (True, ?t2\<lparr>th_buf := th_finish h\<rparr>, d\<lparr>routs := []\<rparr>)"
    using few sz rd second assms(13) unfolding th_read_long_def Let_def blocks_eq
    by (simp del: read_blocks.simps)
  then have "th_read ml mal junk t d = Some (0, ?t2\<lparr>th_buf := th_finish h\<rparr>, d\<lparr>routs := []\<rparr>)"
    using first assms(11,12) block_pos
    by (simp add: th_read_def TH_ISLONGLINK_def TH_ISLONGNAME_def type_defs)
  then show ?thesis
    using assms(3,4,14,15) by (simp add: th_get_pathname_def str_at_def Let_def)
qed

definition sample_long :: par_file_header where
  "sample_long = sample_header\<lparr>gnu_longname := 77\<rparr>"

lemma sample_long_facts:
  "header_ok sample_long" "hd (hdr_name sample_long) \<noteq> nul" "gnu_longname sample_long = 77"
  "\<not> TH_ISLONGLINK sample_long" "\<not> TH_ISLONGNAME sample_long"
  using sample_header_facts by (simp_all add: sample_long_def header_ok_def TH_ISLONGLINK_def TH_ISLONGNAME_def)

theorem longname_pointer_clobbered_witness:
  "\<exists>t' d'. th_read 0 4096 nul (sample_par zero_header)
     (dev_of [ReadData (block_of (th_finish (th_set_size 120 (sample_long\<lparr>hdr_typeflag := GNU_LONGNAME_TYPE\<rparr>)))),
        ReadData (replicate T_BLOCKSIZE CHR ''x''), ReadData (block_of (th_finish sample_long))]) = Some (0, t', d') \<and>
     longs t' 4096 = Some (replicate T_BLOCKSIZE CHR ''x'') \<and>
     gnu_longname (th_buf t') = 77 \<and> th_get_pathname True t' = None"
  by (rule longname_pointer_clobbered [OF sample_long_facts(1-3) _ sample_long_facts(4,5)])
     (simp_all only: dev_of_def sample_par_def dev.simps par.simps zero_header_facts length_replicate, simp_all)

section \<open>The header buffer is always a header\<close>

lemma block_read_length: "par_block_read d = (i, bs, d') \<Longrightarrow> length bs \<le> T_BLOCKSIZE"
  by (auto simp: par_block_read_def Let_def split: list.splits read_outcome.splits)

lemma read_loop_ok: "header_ok (th_buf t) \<Longrightarrow> header_ok (th_buf (fst (snd (read_loop nz t d))))"
proof (induction nz t d rule: read_loop.induct)
  case (1 nz t d)
  obtain k bs d1 where r: "par_block_read d = (k, bs, d1)" by (metis prod_cases3)
  let ?t = "t\<lparr>th_buf := header_of (overwrite (block_of (th_buf t)) bs)\<rparr>"
  have "length (overwrite (block_of (th_buf t)) bs) = T_BLOCKSIZE"
    using block_read_length [OF r] block_length [OF 1(2)] by simp
  then have ok: "header_ok (th_buf ?t)" by (simp add: header_of_ok)
  show ?case
  proof (cases "k = int T_BLOCKSIZE \<and> hd (hdr_name (th_buf ?t)) = nul \<and> \<not> (par_options ?t AND PAR_IGNORE_EOT = 0 \<and> nz + 1 \<ge> 2)")
    case True
    then have "read_loop nz t d = read_loop (nz + 1) ?t d1" by (subst read_loop.simps) (auto simp: r Let_def)
    moreover have "header_ok (th_buf (fst (snd (read_loop (nz + 1) ?t d1))))"
      using 1(1) [OF r [symmetric] refl refl refl] ok True by auto
    ultimately show ?thesis by simp
  next
    case False
    then have "fst (snd (read_loop nz t d)) = ?t" by (subst read_loop.simps) (auto simp: r Let_def)
    then show ?thesis using ok by simp
  qed
qed

lemma th_read_long_ok:
  assumes "header_ok (th_buf t)" "\<And>p h. header_ok h \<Longrightarrow> header_ok (set_ptr p h)"
  shows "header_ok (th_buf (fst (snd (th_read_long set_ptr mal junk t d))))"
proof -
  have "header_ok (th_buf (fst (snd (read_loop 0 (t\<lparr>th_buf := set_ptr mal (th_buf t), longs := l\<rparr>) e))))" for l e
    using assms by (intro read_loop_ok) simp
  then show ?thesis
    using assms by (simp add: th_read_long_def Let_def th_read_internal_def case_prod_beta del: read_blocks.simps)
qed

lemma header_ok_pointers [simp]:
  "header_ok (h\<lparr>gnu_longlink := p\<rparr>) = header_ok h" "header_ok (h\<lparr>gnu_longname := p\<rparr>) = header_ok h"
  by (simp_all add: header_ok_def)



end
