(* ===== verification/Libtar_List.thy ===== *)
theory Libtar_List
  imports Compat_Strings "HOL-Library.Multiset"
begin

text \<open>
  \<open>par/libtar_list.c\<close>: the doubly linked lists of the archive library. Nodes live in an
  explicit store, so that the pointer surgery of \<open>libtar_list_add\<close> and \<open>libtar_list_del\<close>
  is modelled assignment by assignment; \<open>list_rep\<close> relates a list object to the sequence of
  its cells and the refinement lemmas show what each operation does to that sequence.
\<close>

section \<open>Data\<close>

text \<open>\<open>struct libtar_node\<close> and \<open>struct libtar_list\<close>. A node belongs to exactly one list
  (no routine moves a node to another list), so each list carries the part of the heap that
  holds its own nodes; \<open>nodes p = None\<close> means that \<open>p\<close> is not an allocated node of it.\<close>

record 'a libtar_node =
  node_data :: 'a
  node_next :: "addr option"
  node_prev :: "addr option"

record 'a libtar_list =
  nodes :: "addr \<Rightarrow> 'a libtar_node option"
  list_first :: "addr option"
  list_last :: "addr option"
  cmpfunc :: "'a \<Rightarrow> 'a \<Rightarrow> int"
  list_flags :: int
  list_nents :: u32

definition LIST_USERFUNC :: int where
  "LIST_USERFUNC = 0"

definition LIST_STACK :: int where
  "LIST_STACK = 1"

definition LIST_QUEUE :: int where
  "LIST_QUEUE = 2"

lemmas list_flag_defs [simp] = LIST_USERFUNC_def LIST_STACK_def LIST_QUEUE_def

text \<open>Memory accesses: a null or dangling pointer has no node.\<close>

definition deref :: "'a libtar_list \<Rightarrow> addr option \<Rightarrow> 'a libtar_node option" where
  "deref l p = Option.bind p (nodes l)"

definition set_next :: "addr option \<Rightarrow> addr option \<Rightarrow> 'a libtar_list \<Rightarrow> 'a libtar_list option" where
  "set_next p v l = (case deref l p of None \<Rightarrow> None
     | Some n \<Rightarrow> Some (l\<lparr>nodes := (nodes l)(the p \<mapsto> n\<lparr>node_next := v\<rparr>)\<rparr>))"

definition set_prev :: "addr option \<Rightarrow> addr option \<Rightarrow> 'a libtar_list \<Rightarrow> 'a libtar_list option" where
  "set_prev p v l = (case deref l p of None \<Rightarrow> None
     | Some n \<Rightarrow> Some (l\<lparr>nodes := (nodes l)(the p \<mapsto> n\<lparr>node_prev := v\<rparr>)\<rparr>))"

section \<open>Operations\<close>

definition libtar_listptr_reset :: "addr option" where
  "libtar_listptr_reset = None"

definition libtar_listptr_data :: "'a libtar_list \<Rightarrow> addr option \<Rightarrow> 'a option" where
  "libtar_listptr_data l lp = map_option node_data (deref l lp)"

text \<open>\<open>strcmp_cast\<close> is \<open>strcmp\<close> seen as a comparison of the list's elements, the default
  when no comparison function is given. The result \<open>Some None\<close> is the \<open>NULL\<close> return with
  \<open>EINVAL\<close>; a failing \<open>calloc\<close> is not checked by the source and faults.\<close>

definition libtar_list_new ::
  "('a \<Rightarrow> 'a \<Rightarrow> int) \<Rightarrow> bool \<Rightarrow> int \<Rightarrow> ('a \<Rightarrow> 'a \<Rightarrow> int) option \<Rightarrow> 'a libtar_list option option" where
  "libtar_list_new strcmp_cast calloc_ok flags cmp =
     (if flags \<noteq> LIST_USERFUNC \<and> flags \<noteq> LIST_STACK \<and> flags \<noteq> LIST_QUEUE then Some None
      else if \<not> calloc_ok then None
      else Some (Some \<lparr>nodes = Map.empty, list_first = None, list_last = None,
        cmpfunc = (case cmp of Some f \<Rightarrow> f | None \<Rightarrow> strcmp_cast),
        list_flags = flags, list_nents = 0\<rparr>))"

text \<open>The loop \<open>for (n = l->first; n != NULL; n = n->next)\<close> calling \<open>plugin\<close>, which may
  update the caller's state. On a cyclic list it would not return.\<close>

partial_function (option) iterate_from ::
  "'a libtar_list \<Rightarrow> ('a \<Rightarrow> 's \<Rightarrow> int \<times> 's) \<Rightarrow> addr option \<Rightarrow> 's \<Rightarrow> (int \<times> 's) option" where
  "iterate_from l plugin n s =
     (case n of None \<Rightarrow> Some (0, s)
      | Some p \<Rightarrow> Option.bind (nodes l p) (\<lambda>nd.
          (case plugin (node_data nd) s of (r, s') \<Rightarrow>
            if r = -1 then Some (-1, s') else iterate_from l plugin (node_next nd) s')))"

definition libtar_list_iterate ::
  "'a libtar_list option \<Rightarrow> ('a \<Rightarrow> 's \<Rightarrow> int \<times> 's) \<Rightarrow> 's \<Rightarrow> (int \<times> 's) option" where
  "libtar_list_iterate lp plugin s =
     (case lp of None \<Rightarrow> Some (-1, s)
      | Some l \<Rightarrow> iterate_from l plugin (list_first l) s)"

text \<open>\<open>libtar_list_empty\<close>: the elements handed to \<open>freefunc\<close>, in order, are the second
  component. The source resets \<open>first\<close> and \<open>nents\<close> and leaves \<open>last\<close> as it is.\<close>

partial_function (option) empty_loop :: "'a libtar_list \<Rightarrow> 'a list \<Rightarrow> ('a libtar_list \<times> 'a list) option" where
  "empty_loop l freed =
     (case list_first l of None \<Rightarrow> Some (l, freed)
      | Some p \<Rightarrow> Option.bind (nodes l p) (\<lambda>nd.
          empty_loop (l\<lparr>list_first := node_next nd, nodes := (nodes l)(p := None)\<rparr>)
                     (freed @ [node_data nd])))"

definition libtar_list_empty :: "'a libtar_list \<Rightarrow> ('a libtar_list \<times> 'a list) option" where
  "libtar_list_empty l =
     Option.bind (empty_loop l []) (\<lambda>(l', freed). Some (l'\<lparr>list_nents := 0\<rparr>, freed))"

definition libtar_list_free :: "'a libtar_list \<Rightarrow> 'a list option" where
  "libtar_list_free l = map_option snd (libtar_list_empty l)"

definition libtar_list_nents :: "'a libtar_list \<Rightarrow> u32" where
  "libtar_list_nents l = list_nents l"

text \<open>The search of the ordered insertion: the first node \<open>m\<close> with
  \<open>cmpfunc(data, m->data) < 0\<close>, or \<open>NULL\<close>.\<close>

partial_function (option) find_bigger :: "'a libtar_list \<Rightarrow> 'a \<Rightarrow> addr option \<Rightarrow> addr option option" where
  "find_bigger l d m =
     (case m of None \<Rightarrow> Some None
      | Some p \<Rightarrow> Option.bind (nodes l p) (\<lambda>nd.
          if cmpfunc l d (node_data nd) < 0 then Some (Some p)
          else find_bigger l d (node_next nd)))"

text \<open>The assignments of \<open>libtar_list_add\<close>, branch by branch, for the new node at \<open>n\<close>.\<close>

definition add_only :: "addr \<Rightarrow> 'a libtar_list \<Rightarrow> 'a libtar_list option" where
  "add_only n l = do {
     let l = l\<lparr>list_first := Some n, list_last := Some n\<rparr>;
     l \<leftarrow> set_next (Some n) None l;
     set_prev (Some n) None l }"

definition add_front :: "addr \<Rightarrow> 'a libtar_list \<Rightarrow> 'a libtar_list option" where
  "add_front n l = do {
     l \<leftarrow> set_prev (Some n) None l;
     l \<leftarrow> set_next (Some n) (list_first l) l;
     l \<leftarrow> (if list_first l \<noteq> None then set_prev (list_first l) (Some n) l else Some l);
     Some (l\<lparr>list_first := Some n\<rparr>) }"

definition add_queue :: "addr \<Rightarrow> 'a libtar_list \<Rightarrow> 'a libtar_list option" where
  "add_queue n l = do {
     l \<leftarrow> set_prev (Some n) (list_last l) l;
     l \<leftarrow> set_next (Some n) None l;
     l \<leftarrow> (if list_last l \<noteq> None then set_next (list_last l) (Some n) l else Some l);
     Some (l\<lparr>list_last := Some n\<rparr>) }"

definition add_before :: "addr \<Rightarrow> addr \<Rightarrow> 'a libtar_list \<Rightarrow> 'a libtar_list option" where
  "add_before n m l =
     (if Some m = list_first l then do {
        let l = l\<lparr>list_first := Some n\<rparr>;
        l \<leftarrow> set_prev (Some n) None l;
        l \<leftarrow> set_prev (Some m) (Some n) l;
        set_next (Some n) (Some m) l }
      else do {
        nd \<leftarrow> deref l (Some m);
        l \<leftarrow> set_next (node_prev nd) (Some n) l;
        nd \<leftarrow> deref l (Some m);
        l \<leftarrow> set_prev (Some n) (node_prev nd) l;
        l \<leftarrow> set_prev (Some m) (Some n) l;
        set_next (Some n) (Some m) l })"

definition add_last :: "addr \<Rightarrow> 'a libtar_list \<Rightarrow> 'a libtar_list option" where
  "add_last n l = do {
     l \<leftarrow> set_next (list_last l) (Some n) l;
     l \<leftarrow> set_prev (Some n) (list_last l) l;
     let l = l\<lparr>list_last := Some n\<rparr>;
     set_next (Some n) None l }"

text \<open>\<open>mal\<close> is the outcome of \<open>malloc\<close>. The fields \<open>next\<close> and \<open>prev\<close> of the fresh node
  are not initialised by \<open>malloc\<close>; \<open>junk\<close> stands for what they hold.\<close>

definition libtar_list_add ::
  "addr option \<Rightarrow> addr option \<Rightarrow> 'a libtar_list \<Rightarrow> 'a \<Rightarrow> (int \<times> 'a libtar_list) option" where
  "libtar_list_add mal junk l d =
     (case mal of None \<Rightarrow> Some (-1, l)
      | Some n \<Rightarrow>
        (let l = l\<lparr>nodes := (nodes l)(n \<mapsto> \<lparr>node_data = d, node_next = junk, node_prev = junk\<rparr>),
                   list_nents := list_nents l + 1\<rparr>
         in map_option (Pair 0)
          (if list_first l = None then add_only n l
           else if list_flags l = LIST_STACK then add_front n l
           else if list_flags l = LIST_QUEUE then add_queue n l
           else Option.bind (find_bigger l d (list_first l)) (\<lambda>m.
             case m of Some m \<Rightarrow> add_before n m l | None \<Rightarrow> add_last n l))))"

text \<open>\<open>libtar_list_del\<close>: the second component is the value left in \<open>*n\<close>.\<close>

definition libtar_list_del ::
  "'a libtar_list \<Rightarrow> addr option \<Rightarrow> ('a libtar_list \<times> addr option) option" where
  "libtar_list_del l n = do {
     let l = l\<lparr>list_nents := list_nents l - 1\<rparr>;
     nd \<leftarrow> deref l n;
     let m = node_next nd;
     l \<leftarrow> (if node_prev nd \<noteq> None then set_next (node_prev nd) (node_next nd) l
           else Some (l\<lparr>list_first := node_next nd\<rparr>));
     nd \<leftarrow> deref l n;
     l \<leftarrow> (if node_next nd \<noteq> None then set_prev (node_next nd) (node_prev nd) l
           else Some (l\<lparr>list_last := node_prev nd\<rparr>));
     Some (l\<lparr>nodes := (nodes l)(the n := None)\<rparr>, m) }"

text \<open>The iterators return the code 1 or 0 and the new value of \<open>*n\<close>.\<close>

definition libtar_list_next :: "'a libtar_list \<Rightarrow> addr option \<Rightarrow> (int \<times> addr option) option" where
  "libtar_list_next l n = do {
     n' \<leftarrow> (case n of None \<Rightarrow> Some (list_first l) | Some _ \<Rightarrow> map_option node_next (deref l n));
     Some (if n' \<noteq> None then 1 else 0, n') }"

definition libtar_list_prev :: "'a libtar_list \<Rightarrow> addr option \<Rightarrow> (int \<times> addr option) option" where
  "libtar_list_prev l n = do {
     n' \<leftarrow> (case n of None \<Rightarrow> Some (list_last l) | Some _ \<Rightarrow> map_option node_prev (deref l n));
     Some (if n' \<noteq> None then 1 else 0, n') }"

definition libtar_str_match :: "string \<Rightarrow> string \<Rightarrow> int" where
  "libtar_str_match check data = (if check = data then 1 else 0)"

partial_function (option) search_from ::
  "'a libtar_list \<Rightarrow> ('a \<Rightarrow> int) \<Rightarrow> addr option \<Rightarrow> (int \<times> addr option) option" where
  "search_from l match n =
     (case n of None \<Rightarrow> Some (0, None)
      | Some p \<Rightarrow> Option.bind (nodes l p) (\<lambda>nd.
          if match (node_data nd) \<noteq> 0 then Some (1, Some p)
          else search_from l match (node_next nd)))"

text \<open>\<open>str_match_cast\<close> is \<open>libtar_str_match\<close> at the list's element type, the default.\<close>

definition libtar_list_search ::
  "('a \<Rightarrow> 'a \<Rightarrow> int) \<Rightarrow> 'a libtar_list \<Rightarrow> addr option \<Rightarrow> 'a \<Rightarrow> ('a \<Rightarrow> 'a \<Rightarrow> int) option
   \<Rightarrow> (int \<times> addr option) option" where
  "libtar_list_search str_match_cast l n d matchfunc =
     (let f = (case matchfunc of Some f \<Rightarrow> f | None \<Rightarrow> str_match_cast) in
      Option.bind (case n of None \<Rightarrow> Some (list_first l) | Some _ \<Rightarrow> map_option node_next (deref l n))
        (\<lambda>n'. search_from l (f d) n'))"

text \<open>\<open>libtar_list_add_str\<close>: the tokens of \<open>str\<close>, duplicated, go into the list. \<open>tmp\<close> is the
  content of the uninitialised buffer; \<open>outs\<close> gives, for each element added, whether
  \<open>strdup\<close> succeeded and what \<open>malloc\<close> returned (an exhausted list is a failing
  \<open>malloc\<close>). The loop body stops with the code \<open>-1\<close>; a fault stops it with \<open>None\<close>.\<close>

definition ADD_STR_BUF :: nat where
  "ADD_STR_BUF = 10240"

definition add_str_body ::
  "addr option \<Rightarrow> string \<Rightarrow> (bool \<times> addr option) list \<times> string option libtar_list
   \<Rightarrow> (int \<times> string option libtar_list) option + (bool \<times> addr option) list \<times> string option libtar_list" where
  "add_str_body junk tok st =
     (case st of (outs, l) \<Rightarrow>
        if tok = [] then Inr (outs, l)
        else let (dup_ok, mal) = (case outs of [] \<Rightarrow> (True, None) | x # _ \<Rightarrow> x) in
          (case libtar_list_add mal junk l (if dup_ok then Some tok else None) of
             None \<Rightarrow> Inl None
           | Some (r, l') \<Rightarrow> if r \<noteq> 0 then Inl (Some (-1, l')) else Inr (tl outs, l')))"

definition libtar_list_add_str ::
  "char list \<Rightarrow> addr option \<Rightarrow> (bool \<times> addr option) list \<Rightarrow> string option libtar_list \<Rightarrow> string \<Rightarrow> string
   \<Rightarrow> (int \<times> string option libtar_list) option" where
  "libtar_list_add_str tmp junk outs l str delim = do {
     (_, tmp) \<leftarrow> strlcpy tmp (str @ [nul]) ADD_STR_BUF;
     r \<leftarrow> sep_loop (length tmp + 1) tmp (Some 0) (delim @ [nul]) (add_str_body junk) (outs, l);
     (case r of Inl res \<Rightarrow> res | Inr (_, l') \<Rightarrow> Some (0, l')) }"

text \<open>\<open>libtar_list_dup\<close> and \<open>libtar_list_merge\<close> ignore the result of \<open>libtar_list_add\<close>.
  The new list may be \<open>NULL\<close> (bad flags), and adding to it faults once \<open>malloc\<close> succeeded.
  \<open>mals\<close> are the outcomes of the successive \<open>malloc\<close> calls.\<close>

definition list_add_ptr ::
  "addr option list \<Rightarrow> addr option \<Rightarrow> 'a libtar_list option \<Rightarrow> 'a
   \<Rightarrow> (addr option list \<times> 'a libtar_list option) option" where
  "list_add_ptr mals junk lp d =
     (let mal = (case mals of [] \<Rightarrow> None | x # _ \<Rightarrow> x) in
      (case lp of
         None \<Rightarrow> if mal = None then Some (tl mals, None) else None
       | Some l \<Rightarrow> map_option (\<lambda>(_, l'). (tl mals, Some l')) (libtar_list_add mal junk l d)))"

partial_function (option) dup_loop ::
  "addr option \<Rightarrow> 'a libtar_list \<Rightarrow> addr option \<Rightarrow> addr option list \<Rightarrow> 'a libtar_list option
   \<Rightarrow> (addr option list \<times> 'a libtar_list option) option" where
  "dup_loop junk l n mals newl =
     (case n of None \<Rightarrow> Some (mals, newl)
      | Some p \<Rightarrow> Option.bind (nodes l p) (\<lambda>nd.
          Option.bind (list_add_ptr mals junk newl (node_data nd)) (\<lambda>st.
            dup_loop junk l (node_next nd) (fst st) (snd st))))"

definition libtar_list_dup ::
  "('a \<Rightarrow> 'a \<Rightarrow> int) \<Rightarrow> bool \<Rightarrow> addr option \<Rightarrow> addr option list \<Rightarrow> 'a libtar_list \<Rightarrow> 'a libtar_list option option" where
  "libtar_list_dup strcmp_cast calloc_ok junk mals l = do {
     newl \<leftarrow> libtar_list_new strcmp_cast calloc_ok (list_flags l) (Some (cmpfunc l));
     (_, newl) \<leftarrow> dup_loop junk l (list_first l) mals newl;
     Some newl }"

partial_function (option) merge_loop ::
  "addr option \<Rightarrow> 'a libtar_list \<Rightarrow> addr option \<Rightarrow> addr option list \<Rightarrow> 'a libtar_list option
   \<Rightarrow> (addr option list \<times> 'a libtar_list option) option" where
  "merge_loop junk l n mals newl =
     Option.bind (libtar_list_next l n) (\<lambda>rn.
       if fst rn \<noteq> 0 then
         Option.bind (deref l (snd rn)) (\<lambda>nd.
           Option.bind (list_add_ptr mals junk newl (node_data nd)) (\<lambda>st.
             merge_loop junk l (snd rn) (fst st) (snd st)))
       else Some (mals, newl))"

definition libtar_list_merge ::
  "('a \<Rightarrow> 'a \<Rightarrow> int) \<Rightarrow> bool \<Rightarrow> addr option \<Rightarrow> addr option list \<Rightarrow> ('a \<Rightarrow> 'a \<Rightarrow> int) option \<Rightarrow> int
   \<Rightarrow> 'a libtar_list \<Rightarrow> 'a libtar_list \<Rightarrow> 'a libtar_list option option" where
  "libtar_list_merge strcmp_cast calloc_ok junk mals cmp flags list1 list2 = do {
     newl \<leftarrow> libtar_list_new strcmp_cast calloc_ok flags cmp;
     (mals, newl) \<leftarrow> merge_loop junk list1 None mals newl;
     (_, newl) \<leftarrow> merge_loop junk list2 None mals newl;
     Some newl }"

section \<open>Representation\<close>

text \<open>\<open>seg h pr cs nx\<close>: the cells \<open>cs\<close> (address and datum) are a doubly linked segment of
  the store, entered from \<open>pr\<close> and left towards \<open>nx\<close>.\<close>

fun seg :: "(addr \<Rightarrow> 'a libtar_node option) \<Rightarrow> addr option \<Rightarrow> (addr \<times> 'a) list \<Rightarrow> addr option \<Rightarrow> bool" where
  "seg h pr [] nx = True"
| "seg h pr ((p, d) # cs) nx =
     (h p = Some \<lparr>node_data = d, node_next = hd_opt (map fst cs) nx, node_prev = pr\<rparr> \<and>
      seg h (Some p) cs nx)"

text \<open>A list object represents the cells \<open>cs\<close>. Nothing but the nodes of the list is
  allocated (no leak), \<open>first\<close> and \<open>last\<close> are its ends and \<open>nents\<close> counts the nodes in
  unsigned arithmetic. The field \<open>last\<close> of an empty list is unconstrained, because
  \<open>libtar_list_empty\<close> does not reset it.\<close>

definition list_rep :: "'a libtar_list \<Rightarrow> (addr \<times> 'a) list \<Rightarrow> bool" where
  "list_rep l cs \<longleftrightarrow>
     distinct (map fst cs) \<and> seg (nodes l) None cs None \<and>
     list_first l = hd_opt (map fst cs) None \<and>
     (cs \<noteq> [] \<longrightarrow> list_last l = last_opt None (map fst cs)) \<and>
     list_nents l = of_nat (length cs) \<and> dom (nodes l) = fst ` set cs"

text \<open>Where the ordered insertion puts a cell; what \<open>libtar_list_add\<close> does to the cells.\<close>

definition insert_before_bigger :: "('a \<Rightarrow> 'a \<Rightarrow> int) \<Rightarrow> (addr \<times> 'a) list \<Rightarrow> addr \<times> 'a \<Rightarrow> (addr \<times> 'a) list" where
  "insert_before_bigger cmp cs c =
     takeWhile (\<lambda>x. \<not> cmp (snd c) (snd x) < 0) cs @ c # dropWhile (\<lambda>x. \<not> cmp (snd c) (snd x) < 0) cs"

definition cells_add :: "int \<Rightarrow> ('a \<Rightarrow> 'a \<Rightarrow> int) \<Rightarrow> (addr \<times> 'a) list \<Rightarrow> addr \<times> 'a \<Rightarrow> (addr \<times> 'a) list" where
  "cells_add flags cmp cs c =
     (if flags = LIST_STACK then c # cs
      else if flags = LIST_QUEUE then cs @ [c]
      else insert_before_bigger cmp cs c)"

lemma seg_append:
  "seg h pr (cs @ ds) nx \<longleftrightarrow>
     seg h pr cs (hd_opt (map fst ds) nx) \<and> seg h (last_opt pr (map fst cs)) ds nx"
  by (induction h pr cs nx rule: seg.induct) auto

lemma seg_upd [simp]: "p \<notin> fst ` set cs \<Longrightarrow> seg (h(p := v)) pr cs nx = seg h pr cs nx"
  by (induction h pr cs nx rule: seg.induct) auto

lemma seg_dom: "seg h pr cs nx \<Longrightarrow> fst ` set cs \<subseteq> dom h"
  by (induction h pr cs nx rule: seg.induct) auto

lemma set_next_Some:
  "nodes l p = Some n \<Longrightarrow> set_next (Some p) v l = Some (l\<lparr>nodes := (nodes l)(p \<mapsto> n\<lparr>node_next := v\<rparr>)\<rparr>)"
  by (simp add: set_next_def deref_def)

lemma set_prev_Some:
  "nodes l p = Some n \<Longrightarrow> set_prev (Some p) v l = Some (l\<lparr>nodes := (nodes l)(p \<mapsto> n\<lparr>node_prev := v\<rparr>)\<rparr>)"
  by (simp add: set_prev_def deref_def)

lemmas surgery = set_next_Some set_prev_Some deref_def Let_def

section \<open>Insertion\<close>

lemma find_bigger_seg:
  assumes "seg (nodes l) pr cs None"
  shows "find_bigger l d (hd_opt (map fst cs) None) =
     Some (map_option fst (find (\<lambda>c. cmpfunc l d (snd c) < 0) cs))"
  using assms
proof (induction cs arbitrary: pr)
  case Nil
  then show ?case by (simp add: find_bigger.simps)
next
  case (Cons c cs)
  obtain p x where c: "c = (p, x)" by (cases c)
  from Cons.prems have "nodes l p = Some \<lparr>node_data = x, node_next = hd_opt (map fst cs) None, node_prev = pr\<rparr>"
    and "seg (nodes l) (Some p) cs None" by (simp_all add: c)
  then show ?case
    using Cons.IH by (subst find_bigger.simps) (simp add: c)
qed

lemma add_only_rep:
  assumes "list_rep l []"
  shows "\<exists>l'. add_only n (l\<lparr>nodes := (nodes l)(n \<mapsto> \<lparr>node_data = d, node_next = j, node_prev = j\<rparr>),
       list_nents := list_nents l + 1\<rparr>) = Some l' \<and> list_rep l' [(n, d)] \<and>
     list_flags l' = list_flags l \<and> cmpfunc l' = cmpfunc l"
  using assms by (auto simp: add_only_def list_rep_def surgery)

lemma add_front_rep:
  assumes "list_rep l cs" "cs \<noteq> []" "n \<notin> fst ` set cs"
  shows "\<exists>l'. add_front n (l\<lparr>nodes := (nodes l)(n \<mapsto> \<lparr>node_data = d, node_next = j, node_prev = j\<rparr>),
       list_nents := list_nents l + 1\<rparr>) = Some l' \<and> list_rep l' ((n, d) # cs) \<and>
     list_flags l' = list_flags l \<and> cmpfunc l' = cmpfunc l"
proof -
  obtain q e cs' where cs: "cs = (q, e) # cs'"
    using assms(2) by (metis neq_Nil_conv surj_pair)
  show ?thesis
    using assms(1,3) by (auto simp: cs add_front_def list_rep_def surgery)
qed

lemma add_queue_rep:
  assumes "list_rep l cs" "cs \<noteq> []" "n \<notin> fst ` set cs"
  shows "\<exists>l'. add_queue n (l\<lparr>nodes := (nodes l)(n \<mapsto> \<lparr>node_data = d, node_next = j, node_prev = j\<rparr>),
       list_nents := list_nents l + 1\<rparr>) = Some l' \<and> list_rep l' (cs @ [(n, d)]) \<and>
     list_flags l' = list_flags l \<and> cmpfunc l' = cmpfunc l"
proof -
  obtain cs' q e where cs: "cs = cs' @ [(q, e)]"
    using assms(2) by (metis rev_exhaust surj_pair)
  show ?thesis
    using assms(1,3) by (auto simp: cs add_queue_def list_rep_def surgery seg_append)
qed

lemma add_last_rep:
  assumes "list_rep l cs" "cs \<noteq> []" "n \<notin> fst ` set cs"
  shows "\<exists>l'. add_last n (l\<lparr>nodes := (nodes l)(n \<mapsto> \<lparr>node_data = d, node_next = j, node_prev = j\<rparr>),
       list_nents := list_nents l + 1\<rparr>) = Some l' \<and> list_rep l' (cs @ [(n, d)]) \<and>
     list_flags l' = list_flags l \<and> cmpfunc l' = cmpfunc l"
proof -
  obtain cs' q e where cs: "cs = cs' @ [(q, e)]"
    using assms(2) by (metis rev_exhaust surj_pair)
  show ?thesis
    using assms(1,3) by (auto simp: cs add_last_def list_rep_def surgery seg_append)
qed

lemma add_before_rep:
  assumes "list_rep l (as @ (m, e) # bs)" "n \<notin> fst ` set (as @ (m, e) # bs)"
  shows "\<exists>l'. add_before n m (l\<lparr>nodes := (nodes l)(n \<mapsto> \<lparr>node_data = d, node_next = j, node_prev = j\<rparr>),
       list_nents := list_nents l + 1\<rparr>) = Some l' \<and> list_rep l' (as @ (n, d) # (m, e) # bs) \<and>
     list_flags l' = list_flags l \<and> cmpfunc l' = cmpfunc l"
proof (cases as rule: rev_cases)
  case Nil
  then show ?thesis
    using assms by (auto simp: add_before_def list_rep_def surgery)
next
  case (snoc as' c)
  obtain q x where c: "c = (q, x)" by (cases c)
  have first: "list_first l \<noteq> Some m"
    using assms(1) by (cases as') (auto simp: list_rep_def snoc c)
  have cells: "seg (nodes l) None as' (Some q)"
      "nodes l q = Some \<lparr>node_data = x, node_next = Some m, node_prev = last_opt None (map fst as')\<rparr>"
      "nodes l m = Some \<lparr>node_data = e, node_next = hd_opt (map fst bs) None, node_prev = Some q\<rparr>"
      "seg (nodes l) (Some m) bs None"
    using assms(1) by (simp_all add: list_rep_def snoc c seg_append)
  have fresh: "n \<noteq> q" "n \<noteq> m" "q \<noteq> m" "n \<notin> fst ` set as'" "n \<notin> fst ` set bs"
      "q \<notin> fst ` set as'" "q \<notin> fst ` set bs" "m \<notin> fst ` set as'" "m \<notin> fst ` set bs"
    using assms by (auto simp: list_rep_def snoc c)
  show ?thesis
    using assms(1) first cells fresh
    by (simp add: snoc c add_before_def surgery list_rep_def seg_append) auto
qed


lemma find_split:
  assumes "find P cs = Some c"
  shows "cs = takeWhile (Not \<circ> P) cs @ c # tl (dropWhile (Not \<circ> P) cs)
    \<and> dropWhile (Not \<circ> P) cs = c # tl (dropWhile (Not \<circ> P) cs)"
  using assms by (induction cs) (auto split: if_splits)

lemma insert_before_bigger_None:
  assumes "find (\<lambda>c. cmp d (snd c) < 0) cs = None"
  shows "insert_before_bigger cmp cs (n, d) = cs @ [(n, d)]"
proof -
  have all: "\<forall>x\<in>set cs. \<not> cmp d (snd x) < 0"
    using assms by (auto simp: find_None_iff)
  then have "takeWhile (\<lambda>x. \<not> cmp d (snd x) < 0) cs = cs" "dropWhile (\<lambda>x. \<not> cmp d (snd x) < 0) cs = []"
    by simp_all
  then show ?thesis by (simp only: insert_before_bigger_def snd_conv)
qed

lemma list_rep_first_None: "list_rep l cs \<Longrightarrow> list_first l = None \<longleftrightarrow> cs = []"
  by (cases cs) (auto simp: list_rep_def)

lemma libtar_list_add_rep:
  assumes rep: "list_rep l cs" and fresh: "n \<notin> fst ` set cs"
  shows "\<exists>l'. libtar_list_add (Some n) j l d = Some (0, l') \<and>
     list_rep l' (cells_add (list_flags l) (cmpfunc l) cs (n, d)) \<and>
     list_flags l' = list_flags l \<and> cmpfunc l' = cmpfunc l"
proof (cases "cs = []")
  case True
  then show ?thesis
    using add_only_rep [of l n d j] rep list_rep_first_None [OF rep]
    by (auto simp: libtar_list_add_def cells_add_def insert_before_bigger_def)
next
  case False
  define l1 where "l1 = l\<lparr>nodes := (nodes l)(n \<mapsto> \<lparr>node_data = d, node_next = j, node_prev = j\<rparr>),
       list_nents := list_nents l + 1\<rparr>"
  have first: "list_first l \<noteq> None"
    using False list_rep_first_None [OF rep] by simp
  let ?P = "\<lambda>c. cmpfunc l d (snd c) < 0"
  have search: "find_bigger l1 d (list_first l) = Some (map_option fst (find ?P cs))"
    using find_bigger_seg [of l1 None cs d] rep fresh
    by (simp add: list_rep_def l1_def)
  have bigger: "\<exists>l'. (case find ?P cs of None \<Rightarrow> add_last n l1 | Some c \<Rightarrow> add_before n (fst c) l1) = Some l' \<and>
     list_rep l' (insert_before_bigger (cmpfunc l) cs (n, d)) \<and>
     list_flags l' = list_flags l \<and> cmpfunc l' = cmpfunc l"
  proof (cases "find ?P cs")
    case None
    then show ?thesis
      using insert_before_bigger_None [of "cmpfunc l" d cs n] None add_last_rep [OF rep False fresh, of d j]
      by (auto simp: l1_def)
  next
    case (Some c)
    then show ?thesis
      using find_split [OF Some] add_before_rep [of l "takeWhile (Not \<circ> ?P) cs" "fst c" "snd c"
          "tl (dropWhile (Not \<circ> ?P) cs)" n d j] rep fresh
      by (auto simp: insert_before_bigger_def l1_def comp_def)
  qed
  show ?thesis
    using first add_front_rep [OF rep False fresh, of d j] add_queue_rep [OF rep False fresh, of d j]
      search bigger
    by (auto simp: libtar_list_add_def cells_add_def l1_def Let_def split: option.splits)
qed

section \<open>Deletion\<close>

lemma libtar_list_del_rep:
  assumes rep: "list_rep l (as @ (p, d) # bs)"
  shows "\<exists>l'. libtar_list_del l (Some p) = Some (l', hd_opt (map fst bs) None) \<and>
     list_rep l' (as @ bs) \<and> nodes l' p = None \<and>
     list_flags l' = list_flags l \<and> cmpfunc l' = cmpfunc l"
proof -
  have cells: "seg (nodes l) None as (Some p)"
      "nodes l p = Some \<lparr>node_data = d, node_next = hd_opt (map fst bs) None,
         node_prev = last_opt None (map fst as)\<rparr>"
      "seg (nodes l) (Some p) bs None"
    and dist: "distinct (map fst as)" "distinct (map fst bs)" "p \<notin> fst ` set as" "p \<notin> fst ` set bs"
      "fst ` set as \<inter> fst ` set bs = {}"
    and dom: "dom (nodes l) = insert p (fst ` set as \<union> fst ` set bs)"
    and nents: "list_nents l - 1 = of_nat (length as + length bs)"
    using rep by (auto simp: list_rep_def seg_append)
  have ends: "list_first l = hd_opt (map fst as) (Some p)"
      "list_last l = last_opt (Some p) (map fst bs)"
    using rep by (auto simp: list_rep_def)
  show ?thesis
  proof (cases as rule: rev_cases)
    case Nil
    show ?thesis
    proof (cases bs)
      case Nil
      then show ?thesis
        using \<open>as = []\<close> cells dist dom nents ends map_upd_None_empty [of "nodes l" p]
        by (simp add: libtar_list_del_def list_rep_def surgery)
    next
      case (Cons b bs')
      obtain q x where b: "b = (q, x)" by (cases b)
      show ?thesis
        using \<open>as = []\<close> cells dist dom nents ends
        by (simp add: Cons b libtar_list_del_def list_rep_def surgery) auto
    qed
  next
    case (snoc as' a)
    obtain r y where a: "a = (r, y)" by (cases a)
    show ?thesis
    proof (cases bs)
      case Nil
      then show ?thesis
        using cells dist dom nents ends
        by (simp add: snoc a libtar_list_del_def list_rep_def surgery seg_append) auto
    next
      case (Cons b bs')
      obtain q x where b: "b = (q, x)" by (cases b)
      show ?thesis
        using cells dist dom nents ends
        by (simp add: snoc a Cons b libtar_list_del_def list_rep_def surgery seg_append) auto
    qed
  qed
qed

section \<open>Traversal\<close>

lemma list_rep_node:
  assumes "list_rep l (as @ (p, d) # bs)"
  shows "nodes l p = Some \<lparr>node_data = d, node_next = hd_opt (map fst bs) None,
     node_prev = last_opt None (map fst as)\<rparr>"
  using assms by (simp add: list_rep_def seg_append)

lemma listptr_data_rep:
  "list_rep l (as @ (p, d) # bs) \<Longrightarrow> libtar_listptr_data l (Some p) = Some d"
  by (simp add: libtar_listptr_data_def deref_def list_rep_node)

lemma libtar_list_next_rep:
  assumes "list_rep l cs"
  shows "libtar_list_next l None = Some (if cs = [] then 0 else 1, hd_opt (map fst cs) None)"
    and "cs = as @ (p, d) # bs \<Longrightarrow>
      libtar_list_next l (Some p) = Some (if bs = [] then 0 else 1, hd_opt (map fst bs) None)"
  using assms list_rep_node [of l as p d bs]
  by (cases cs, auto simp: libtar_list_next_def list_rep_def deref_def) (cases bs; auto)+

lemma libtar_list_prev_rep:
  assumes "list_rep l cs"
  shows "cs \<noteq> [] \<Longrightarrow> libtar_list_prev l None = Some (1, last_opt None (map fst cs))"
    and "cs = as @ (p, d) # bs \<Longrightarrow>
      libtar_list_prev l (Some p) = Some (if as = [] then 0 else 1, last_opt None (map fst as))"
  using assms list_rep_node [of l as p d bs]
  by (auto simp: libtar_list_prev_def list_rep_def deref_def last_opt_def)

lemma search_from_seg:
  assumes "seg (nodes l) pr cs None"
  shows "search_from l f (hd_opt (map fst cs) None) =
     (case find (\<lambda>c. f (snd c) \<noteq> 0) cs of None \<Rightarrow> Some (0, None) | Some c \<Rightarrow> Some (1, Some (fst c)))"
  using assms
proof (induction cs arbitrary: pr)
  case Nil
  then show ?case by (simp add: search_from.simps)
next
  case (Cons c cs)
  obtain p x where c: "c = (p, x)" by (cases c)
  from Cons.prems have "nodes l p = Some \<lparr>node_data = x, node_next = hd_opt (map fst cs) None, node_prev = pr\<rparr>"
    and "seg (nodes l) (Some p) cs None" by (simp_all add: c)
  then show ?case
    using Cons.IH by (subst search_from.simps) (simp add: c)
qed

lemma libtar_list_search_rep:
  assumes "list_rep l cs"
  shows "libtar_list_search sm l None k (Some f) =
      (case find (\<lambda>c. f k (snd c) \<noteq> 0) cs of None \<Rightarrow> Some (0, None) | Some c \<Rightarrow> Some (1, Some (fst c)))"
    and "cs = as @ (p, d) # bs \<Longrightarrow> libtar_list_search sm l (Some p) k (Some f) =
      (case find (\<lambda>c. f k (snd c) \<noteq> 0) bs of None \<Rightarrow> Some (0, None) | Some c \<Rightarrow> Some (1, Some (fst c)))"
proof -
  show "libtar_list_search sm l None k (Some f) =
      (case find (\<lambda>c. f k (snd c) \<noteq> 0) cs of None \<Rightarrow> Some (0, None) | Some c \<Rightarrow> Some (1, Some (fst c)))"
    using assms search_from_seg [of l None cs "f k"]
    by (simp add: libtar_list_search_def list_rep_def)
next
  assume cs: "cs = as @ (p, d) # bs"
  with assms have "seg (nodes l) (Some p) bs None" by (simp add: list_rep_def seg_append)
  then show "libtar_list_search sm l (Some p) k (Some f) =
      (case find (\<lambda>c. f k (snd c) \<noteq> 0) bs of None \<Rightarrow> Some (0, None) | Some c \<Rightarrow> Some (1, Some (fst c)))"
    using assms list_rep_node [of l as p d bs] search_from_seg [of l "Some p" bs "f k"]
    by (simp add: libtar_list_search_def deref_def cs)
qed

text \<open>\<open>libtar_list_iterate\<close> runs the plugin over the data in order and stops at the first
  \<open>-1\<close>: the reference is this fold.\<close>

fun plugin_fold :: "('a \<Rightarrow> 's \<Rightarrow> int \<times> 's) \<Rightarrow> 'a list \<Rightarrow> 's \<Rightarrow> int \<times> 's" where
  "plugin_fold f [] s = (0, s)"
| "plugin_fold f (x # xs) s = (case f x s of (r, s') \<Rightarrow> if r = -1 then (-1, s') else plugin_fold f xs s')"

lemma iterate_from_seg:
  assumes "seg (nodes l) pr cs None"
  shows "iterate_from l f (hd_opt (map fst cs) None) s = Some (plugin_fold f (map snd cs) s)"
  using assms
proof (induction cs arbitrary: pr s)
  case Nil
  then show ?case by (simp add: iterate_from.simps)
next
  case (Cons c cs)
  obtain p x where c: "c = (p, x)" by (cases c)
  from Cons.prems have "nodes l p = Some \<lparr>node_data = x, node_next = hd_opt (map fst cs) None, node_prev = pr\<rparr>"
    and "seg (nodes l) (Some p) cs None" by (simp_all add: c)
  then show ?case
    using Cons.IH by (subst iterate_from.simps) (simp add: c split: prod.splits)
qed

lemma libtar_list_iterate_rep:
  assumes "list_rep l cs"
  shows "libtar_list_iterate (Some l) f s = Some (plugin_fold f (map snd cs) s)"
  using assms iterate_from_seg [of l None cs f s]
  by (simp add: libtar_list_iterate_def list_rep_def)

section \<open>Emptying\<close>

lemma empty_loop_rep:
  assumes "distinct (map fst cs)" "seg (nodes l) pr cs None" "list_first l = hd_opt (map fst cs) None"
    "dom (nodes l) = fst ` set cs"
  shows "empty_loop l freed = Some (l\<lparr>list_first := None, nodes := Map.empty\<rparr>, freed @ map snd cs)"
  using assms
proof (induction cs arbitrary: l pr freed)
  case Nil
  then show ?case by (subst empty_loop.simps) simp
next
  case (Cons c cs)
  obtain p x where c: "c = (p, x)" by (cases c)
  let ?l = "l\<lparr>list_first := hd_opt (map fst cs) None, nodes := (nodes l)(p := None)\<rparr>"
  have node: "nodes l p = Some \<lparr>node_data = x, node_next = hd_opt (map fst cs) None, node_prev = pr\<rparr>"
    using Cons.prems(2) by (simp add: c)
  have "distinct (map fst cs)" and "seg (nodes ?l) (Some p) cs None"
    and "list_first ?l = hd_opt (map fst cs) None" and "dom (nodes ?l) = fst ` set cs"
    using Cons.prems by (auto simp: c simp del: fun_upd_apply)
  then have "empty_loop ?l (freed @ [x]) = Some (?l\<lparr>list_first := None, nodes := Map.empty\<rparr>, (freed @ [x]) @ map snd cs)"
    by (rule Cons.IH)
  then show ?case
    using Cons.prems(3) node by (subst empty_loop.simps) (simp add: c)
qed

lemma libtar_list_empty_rep:
  assumes "list_rep l cs"
  shows "libtar_list_empty l =
     Some (l\<lparr>list_first := None, nodes := Map.empty, list_nents := 0\<rparr>, map snd cs)"
    and "list_rep (l\<lparr>list_first := None, nodes := Map.empty, list_nents := 0\<rparr>) []"
  using assms empty_loop_rep [of cs l None "[]"]
  by (simp_all add: libtar_list_empty_def list_rep_def)

section \<open>Copies and merges\<close>

text \<open>The contents of a list object, without addresses, and what adding does to them.\<close>

definition represents :: "'a libtar_list \<Rightarrow> 'a list \<Rightarrow> bool" where
  "represents l ds \<longleftrightarrow> (\<exists>cs. list_rep l cs \<and> map snd cs = ds)"

definition data_add :: "int \<Rightarrow> ('a \<Rightarrow> 'a \<Rightarrow> int) \<Rightarrow> 'a \<Rightarrow> 'a list \<Rightarrow> 'a list" where
  "data_add flags cmp d ds =
     (if flags = LIST_STACK then d # ds
      else if flags = LIST_QUEUE then ds @ [d]
      else takeWhile (\<lambda>x. \<not> cmp d x < 0) ds @ d # dropWhile (\<lambda>x. \<not> cmp d x < 0) ds)"

lemma cells_add_data: "map snd (cells_add flags cmp cs (n, d)) = data_add flags cmp d (map snd cs)"
  by (simp add: cells_add_def data_add_def insert_before_bigger_def takeWhile_map dropWhile_map comp_def)

lemma cells_add_fst: "fst ` set (cells_add flags cmp cs (n, d)) = insert n (fst ` set cs)"
proof -
  have "set cs = set (takeWhile P cs) \<union> set (dropWhile P cs)" for P
    by (metis set_append takeWhile_dropWhile_id)
  then show ?thesis by (auto simp: cells_add_def insert_before_bigger_def)
qed

lemma list_new_rep:
  "libtar_list_new sc True flags cmp = Some (Some l) \<Longrightarrow>
     list_rep l [] \<and> list_flags l = flags \<and> cmpfunc l = (case cmp of Some f \<Rightarrow> f | None \<Rightarrow> sc)"
  by (auto simp: libtar_list_new_def list_rep_def split: if_splits)

text \<open>Adding the data \<open>ds\<close> one after the other, the allocator handing out fresh nodes.\<close>

fun add_all :: "addr option \<Rightarrow> addr option list \<Rightarrow> 'a list \<Rightarrow> 'a libtar_list option
   \<Rightarrow> (addr option list \<times> 'a libtar_list option) option" where
  "add_all junk mals [] newl = Some (mals, newl)"
| "add_all junk mals (d # ds) newl =
     Option.bind (list_add_ptr mals junk newl d) (\<lambda>st. add_all junk (fst st) ds (snd st))"

lemma dup_loop_add_all:
  assumes "seg (nodes l) pr cs None"
  shows "dup_loop junk l (hd_opt (map fst cs) None) mals newl = add_all junk mals (map snd cs) newl"
  using assms
proof (induction cs arbitrary: pr mals newl)
  case Nil
  then show ?case by (simp add: dup_loop.simps)
next
  case (Cons c cs)
  obtain p x where c: "c = (p, x)" by (cases c)
  from Cons.prems have "nodes l p = Some \<lparr>node_data = x, node_next = hd_opt (map fst cs) None, node_prev = pr\<rparr>"
    and "seg (nodes l) (Some p) cs None" by (simp_all add: c)
  then show ?case
    using Cons.IH by (subst dup_loop.simps) (simp add: c)
qed

lemma merge_loop_add_all:
  assumes "list_rep l (as @ cs)"
  shows "merge_loop junk l (last_opt None (map fst as)) mals newl = add_all junk mals (map snd cs) newl"
  using assms
proof (induction cs arbitrary: as mals newl)
  case Nil
  show ?case
  proof (cases as rule: rev_cases)
    case Nil
    then show ?thesis
      using \<open>list_rep l (as @ [])\<close> libtar_list_next_rep(1) [of l "[]"] by (subst merge_loop.simps) simp
  next
    case (snoc as' a)
    then show ?thesis
      using \<open>list_rep l (as @ [])\<close> libtar_list_next_rep(2) [of l as as' "fst a" "snd a" "[]"]
      by (subst merge_loop.simps) simp
  qed
next
  case (Cons c cs)
  have IH: "merge_loop junk l (Some (fst c)) mals newl = add_all junk mals (map snd cs) newl" for mals newl
    using Cons.IH [of "as @ [c]"] Cons.prems by simp
  have node: "deref l (Some (fst c)) = Some \<lparr>node_data = snd c, node_next = hd_opt (map fst cs) None,
      node_prev = last_opt None (map fst as)\<rparr>"
    using list_rep_node [of l as "fst c" "snd c" cs] Cons.prems by (simp add: deref_def)
  have next_c: "libtar_list_next l (last_opt None (map fst as)) = Some (1, Some (fst c))"
  proof (cases as rule: rev_cases)
    case Nil
    then show ?thesis using libtar_list_next_rep(1) [of l "c # cs"] Cons.prems by simp
  next
    case (snoc as' a)
    then show ?thesis
      using libtar_list_next_rep(2) [of l "as @ c # cs" as' "fst a" "snd a" "c # cs"] Cons.prems by simp
  qed
  show ?case
    by (subst merge_loop.simps) (simp add: next_c node IH)
qed

lemma add_all_rep:
  assumes "list_rep l cs" "distinct ns" "set ns \<inter> fst ` set cs = {}" "length ds \<le> length ns"
  shows "\<exists>l' cs'. add_all junk (map Some ns) ds (Some l) = Some (map Some (drop (length ds) ns), Some l') \<and>
     list_rep l' cs' \<and> map snd cs' = fold (data_add (list_flags l) (cmpfunc l)) ds (map snd cs) \<and>
     fst ` set cs' = fst ` set cs \<union> set (take (length ds) ns) \<and>
     list_flags l' = list_flags l \<and> cmpfunc l' = cmpfunc l"
  using assms
proof (induction ds arbitrary: l cs ns)
  case Nil
  then show ?case by auto
next
  case (Cons d ds)
  then obtain n ns' where ns: "ns = n # ns'" by (cases ns) auto
  let ?cs = "cells_add (list_flags l) (cmpfunc l) cs (n, d)"
  obtain l1 where l1: "libtar_list_add (Some n) junk l d = Some (0, l1)" "list_rep l1 ?cs"
      "list_flags l1 = list_flags l" "cmpfunc l1 = cmpfunc l"
    using libtar_list_add_rep [OF Cons.prems(1), of n junk d] Cons.prems(3) by (auto simp: ns)
  have "set ns' \<inter> fst ` set ?cs = {}"
    using Cons.prems(2,3) by (auto simp: ns cells_add_fst)
  then show ?case
    using Cons.IH [OF l1(2), of ns'] Cons.prems l1
    by (auto simp: ns list_add_ptr_def cells_add_data cells_add_fst)
qed

lemma add_all_new:
  assumes "distinct ns" "length ds \<le> length ns" "libtar_list_new sc True flags cmp = Some (Some l)"
  shows "\<exists>l'. add_all junk (map Some ns) ds (Some l) = Some (map Some (drop (length ds) ns), Some l') \<and>
     represents l' (fold (data_add flags (case cmp of Some f \<Rightarrow> f | None \<Rightarrow> sc)) ds [])"
  using add_all_rep [of l "[]" ns ds junk] list_new_rep [OF assms(3)] assms(1,2)
  by (auto simp: represents_def)

lemma add_all_append:
  "add_all junk mals (ds @ es) newl =
     Option.bind (add_all junk mals ds newl) (\<lambda>st. add_all junk (fst st) es (snd st))"
  by (induction ds arbitrary: mals newl) (auto split: Option.bind_split)

lemma list_new_ok:
  "flags \<in> {LIST_USERFUNC, LIST_STACK, LIST_QUEUE} \<Longrightarrow>
     \<exists>l. libtar_list_new sc True flags cmp = Some (Some l)"
  by (auto simp: libtar_list_new_def)

text \<open>What a comparison function has to satisfy for ordered lists: \<open>cmp x y < 0\<close> is the strict
  part of a total preorder.\<close>

definition cmp_order :: "('a \<Rightarrow> 'a \<Rightarrow> int) \<Rightarrow> bool" where
  "cmp_order cmp \<longleftrightarrow>
     (\<forall>x y. cmp x y < 0 \<longrightarrow> \<not> cmp y x < 0) \<and>
     (\<forall>x y z. \<not> cmp y x < 0 \<longrightarrow> \<not> cmp z y < 0 \<longrightarrow> \<not> cmp z x < 0)"

abbreviation cmp_sorted :: "('a \<Rightarrow> 'a \<Rightarrow> int) \<Rightarrow> 'a list \<Rightarrow> bool" where
  "cmp_sorted cmp \<equiv> sorted_wrt (\<lambda>x y. \<not> cmp y x < 0)"

lemma mset_data_add [simp]: "mset (data_add flags cmp d ds) = add_mset d (mset ds)"
proof -
  have "mset (takeWhile P ds) + mset (dropWhile P ds) = mset ds" for P
    by (metis mset_append takeWhile_dropWhile_id)
  then show ?thesis by (simp add: data_add_def)
qed

lemma mset_fold_data_add [simp]: "mset (fold (data_add flags cmp) ds acc) = mset ds + mset acc"
  by (induction ds arbitrary: acc) auto

lemma data_add_sorted:
  assumes "cmp_order cmp" "cmp_sorted cmp ds" "flags \<noteq> LIST_STACK" "flags \<noteq> LIST_QUEUE"
  shows "cmp_sorted cmp (data_add flags cmp d ds)"
  using assms(2)
proof (induction ds)
  case Nil
  then show ?case using assms(3,4) by (simp add: data_add_def)
next
  case (Cons x ds)
  show ?case
  proof (cases "cmp d x < 0")
    case True
    then have "\<not> cmp x d < 0" using assms(1) unfolding cmp_order_def by blast
    moreover have trans: "\<not> cmp y d < 0" if "\<not> cmp y x < 0" "\<not> cmp x d < 0" for y
      using assms(1) that unfolding cmp_order_def by blast
    ultimately have "\<forall>y\<in>set (x # ds). \<not> cmp y d < 0" using Cons.prems by auto
    moreover have "data_add flags cmp d (x # ds) = d # x # ds"
      using True assms(3,4) by (simp add: data_add_def)
    ultimately show ?thesis using Cons.prems by simp
  next
    case False
    have "set (data_add flags cmp d ds) = insert d (set ds)"
      by (metis mset_data_add set_mset_add_mset_insert set_mset_mset)
    moreover have "data_add flags cmp d (x # ds) = x # data_add flags cmp d ds"
      using False assms(3,4) by (simp add: data_add_def)
    ultimately show ?thesis using Cons False by auto
  qed
qed

lemma fold_data_add_sorted:
  assumes "cmp_order cmp" "cmp_sorted cmp acc" "flags \<noteq> LIST_STACK" "flags \<noteq> LIST_QUEUE"
  shows "cmp_sorted cmp (fold (data_add flags cmp) ds acc)"
  using assms(2) by (induction ds arbitrary: acc) (simp_all add: data_add_sorted assms(1,3,4) del: list_flag_defs)

lemma fold_data_add_stack: "fold (data_add LIST_STACK cmp) ds acc = rev ds @ acc"
  by (induction ds arbitrary: acc) (simp_all add: data_add_def)

lemma fold_data_add_queue: "fold (data_add LIST_QUEUE cmp) ds acc = acc @ ds"
  by (induction ds arbitrary: acc) (simp_all add: data_add_def)

lemma fold_data_add_again:
  "cmp_sorted cmp (acc @ ds) \<Longrightarrow> fold (data_add LIST_USERFUNC cmp) ds acc = acc @ ds"
proof (induction ds arbitrary: acc)
  case (Cons d ds)
  then have all: "\<forall>x\<in>set acc. \<not> cmp d x < 0" by (auto simp: sorted_wrt_append)
  then have "takeWhile (\<lambda>x. \<not> cmp d x < 0) acc = acc" "dropWhile (\<lambda>x. \<not> cmp d x < 0) acc = []"
    by simp_all
  then have "data_add LIST_USERFUNC cmp d acc = acc @ [d]"
    by (simp only: data_add_def) simp
  then show ?case using Cons.IH [of "acc @ [d]"] Cons.prems by simp
qed simp

lemma libtar_list_merge_represents:
  assumes "represents l1 ds1" "represents l2 ds2"
    and "flags \<in> {LIST_USERFUNC, LIST_STACK, LIST_QUEUE}"
    and "distinct ns" "length ds1 + length ds2 \<le> length ns"
  shows "\<exists>l. libtar_list_merge sc True junk (map Some ns) cmp flags l1 l2 = Some (Some l) \<and>
     represents l (fold (data_add flags (case cmp of Some f \<Rightarrow> f | None \<Rightarrow> sc)) (ds1 @ ds2) [])"
proof -
  obtain c1 c2 where c: "list_rep l1 c1" "map snd c1 = ds1" "list_rep l2 c2" "map snd c2 = ds2"
    using assms(1,2) by (auto simp: represents_def)
  obtain l0 where l0: "libtar_list_new sc True flags cmp = Some (Some l0)"
    using list_new_ok [OF assms(3)] by blast
  obtain l where l: "add_all junk (map Some ns) (ds1 @ ds2) (Some l0) =
        Some (map Some (drop (length (ds1 @ ds2)) ns), Some l)"
      "represents l (fold (data_add flags (case cmp of Some f \<Rightarrow> f | None \<Rightarrow> sc)) (ds1 @ ds2) [])"
    using add_all_new [OF assms(4) _ l0, of "ds1 @ ds2" junk] assms(5) by auto
  have loops: "merge_loop junk l1 None mals nl = add_all junk mals ds1 nl"
      "merge_loop junk l2 None mals nl = add_all junk mals ds2 nl" for mals nl
    using merge_loop_add_all [of l1 "[]" c1 junk mals nl] merge_loop_add_all [of l2 "[]" c2 junk mals nl] c
    by simp_all
  have "libtar_list_merge sc True junk (map Some ns) cmp flags l1 l2 =
      map_option snd (add_all junk (map Some ns) (ds1 @ ds2) (Some l0))"
    by (auto simp: libtar_list_merge_def l0 loops add_all_append split: Option.bind_split)
  then show ?thesis using l by simp
qed

lemma libtar_list_dup_represents:
  assumes "represents l ds" "list_flags l \<in> {LIST_USERFUNC, LIST_STACK, LIST_QUEUE}"
    and "distinct ns" "length ds \<le> length ns"
  shows "\<exists>l'. libtar_list_dup sc True junk (map Some ns) l = Some (Some l') \<and>
     represents l' (fold (data_add (list_flags l) (cmpfunc l)) ds [])"
proof -
  obtain cs where c: "list_rep l cs" "map snd cs = ds" using assms(1) by (auto simp: represents_def)
  obtain l0 where l0: "libtar_list_new sc True (list_flags l) (Some (cmpfunc l)) = Some (Some l0)"
    using list_new_ok [OF assms(2)] by blast
  have "dup_loop junk l (list_first l) mals nl = add_all junk mals ds nl" for mals nl
    using dup_loop_add_all [of l None cs junk mals nl] c by (simp add: list_rep_def)
  then show ?thesis
    using add_all_new [OF assms(3,4) l0, of junk] by (auto simp: libtar_list_dup_def l0)
qed

text \<open>The elements \<open>libtar_list_add_str\<close> adds, when every allocation succeeds.\<close>

lemma add_str_tokens:
  assumes "list_rep l cs" "distinct ns" "set ns \<inter> fst ` set cs = {}"
    and "length (filter (\<lambda>t. t \<noteq> []) ts) \<le> length ns"
  shows "\<exists>outs l' cs'. token_fold (add_str_body junk) ts (map (\<lambda>n. (True, Some n)) ns, l) = Inr (outs, l') \<and>
     list_rep l' cs' \<and>
     map snd cs' = fold (data_add (list_flags l) (cmpfunc l)) (map Some (filter (\<lambda>t. t \<noteq> []) ts)) (map snd cs)"
  using assms
proof (induction ts arbitrary: l cs ns)
  case Nil
  then show ?case by auto
next
  case (Cons t ts)
  show ?case
  proof (cases "t = []")
    case True
    then show ?thesis using Cons.IH [OF Cons.prems(1-3)] Cons.prems(4) by (simp add: add_str_body_def)
  next
    case False
    then obtain n ns' where ns: "ns = n # ns'" using Cons.prems(4) by (cases ns) auto
    let ?cs = "cells_add (list_flags l) (cmpfunc l) cs (n, Some t)"
    obtain l1 where l1: "libtar_list_add (Some n) junk l (Some t) = Some (0, l1)" "list_rep l1 ?cs"
        "list_flags l1 = list_flags l" "cmpfunc l1 = cmpfunc l"
      using libtar_list_add_rep [OF Cons.prems(1), of n junk "Some t"] Cons.prems(3) by (auto simp: ns)
    have "set ns' \<inter> fst ` set ?cs = {}"
      using Cons.prems(2,3) by (auto simp: ns cells_add_fst)
    then show ?thesis
      using Cons.IH [OF l1(2), of ns'] Cons.prems l1 False
      by (auto simp: ns add_str_body_def cells_add_data)
  qed
qed

lemma libtar_list_add_str_represents:
  assumes "represents l ds" "nul_free str" "nul_free delim" "length tmp = ADD_STR_BUF"
    and "distinct ns" "set ns \<inter> dom (nodes l) = {}"
    and "toks = filter (\<lambda>t. t \<noteq> []) (split_on (\<lambda>c. c \<in> set delim) (take (ADD_STR_BUF - 1) str))"
    and "length toks \<le> length ns"
  shows "\<exists>l'. libtar_list_add_str tmp junk (map (\<lambda>n. (True, Some n)) ns) l str delim = Some (0, l') \<and>
     represents l' (fold (data_add (list_flags l) (cmpfunc l)) (map Some toks) ds)"
proof -
  obtain cs where cs: "list_rep l cs" "map snd cs = ds" using assms(1) by (auto simp: represents_def)
  then have fresh: "set ns \<inter> fst ` set cs = {}" using assms(6) by (auto simp: list_rep_def)
  let ?s = "take (ADD_STR_BUF - 1) str"
  have "strlcpy tmp (str @ [nul]) ADD_STR_BUF = Some (length str, overwrite tmp (?s @ [nul]))"
    using strlcpy_eq [of str ADD_STR_BUF tmp "[]"] assms(2,4) by (simp add: ADD_STR_BUF_def)
  moreover have "sep_loop (length (overwrite tmp (?s @ [nul])) + 1) (overwrite tmp (?s @ [nul])) (Some 0)
      (delim @ [nul]) (add_str_body junk) st = Some (token_fold (add_str_body junk) (split_on (\<lambda>c. c \<in> set delim) ?s) st)" for st
    using sep_loop_tokens [of ?s delim "length (overwrite tmp (?s @ [nul])) + 1" "[]" "drop (length (?s @ [nul])) tmp"
        "add_str_body junk" st] assms(2,3,4)
    by (simp add: overwrite_def ADD_STR_BUF_def)
  moreover obtain outs l' cs' where "token_fold (add_str_body junk) (split_on (\<lambda>c. c \<in> set delim) ?s)
        (map (\<lambda>n. (True, Some n)) ns, l) = Inr (outs, l')" "list_rep l' cs'"
      "map snd cs' = fold (data_add (list_flags l) (cmpfunc l)) (map Some toks) ds"
    using add_str_tokens [OF cs(1) assms(5) fresh, of "split_on (\<lambda>c. c \<in> set delim) ?s" junk] assms(7,8) cs(2) by auto
  ultimately show ?thesis
    by (auto simp: libtar_list_add_str_def represents_def)
qed

section \<open>Properties of the lists\<close>

text \<open>C4. Inserting into a list with the node the allocator returned succeeds and changes the
  cells exactly as the list's flags say: in front (\<open>LIST_STACK\<close>), at the end (\<open>LIST_QUEUE\<close>) or
  before the first bigger element; all links, both ends and the element count stay consistent
  and nothing else stays allocated.\<close>

theorem libtar_list_add_correct:
  assumes "list_rep l cs" "n \<notin> fst ` set cs"
  shows "\<exists>l'. libtar_list_add (Some n) junk l d = Some (0, l') \<and>
     list_rep l' (cells_add (list_flags l) (cmpfunc l) cs (n, d)) \<and>
     list_flags l' = list_flags l \<and> cmpfunc l' = cmpfunc l"
  using libtar_list_add_rep [OF assms] .

definition sample_list :: "int libtar_list" where
  "sample_list = \<lparr>nodes = [1 \<mapsto> \<lparr>node_data = 10, node_next = Some 2, node_prev = None\<rparr>,
       2 \<mapsto> \<lparr>node_data = 30, node_next = None, node_prev = Some 1\<rparr>],
     list_first = Some 1, list_last = Some 2, cmpfunc = (\<lambda>x y. x - y), list_flags = LIST_USERFUNC, list_nents = 2\<rparr>"

lemma sample_list_rep: "list_rep sample_list [(1, 10), (2, 30)]"
  by (auto simp: sample_list_def list_rep_def)

theorem libtar_list_add_correct_witness:
  "\<exists>l'. libtar_list_add (Some 7) None sample_list 20 = Some (0, l') \<and> list_rep l' [(1, 10), (7, 20), (2, 30)]"
  using libtar_list_add_correct [OF sample_list_rep, of 7 None 20]
  by (auto simp: cells_add_def insert_before_bigger_def sample_list_def)

text \<open>C5. Deleting the node \<open>p\<close> of a list unlinks and frees exactly that node, keeps the
  rest of the list consistent and leaves the caller's pointer on the successor.\<close>

theorem libtar_list_del_correct:
  assumes "list_rep l (as @ (p, d) # bs)"
  shows "\<exists>l'. libtar_list_del l (Some p) = Some (l', hd_opt (map fst bs) None) \<and>
     list_rep l' (as @ bs) \<and> nodes l' p = None"
  using libtar_list_del_rep [OF assms] by blast

theorem libtar_list_del_correct_witness:
  "\<exists>l'. libtar_list_del sample_list (Some 1) = Some (l', Some 2) \<and> list_rep l' [(2, 30)]"
  using libtar_list_del_correct [of sample_list "[]" 1 10 "[(2, 30)]"] sample_list_rep by auto

text \<open>C18. Merging two lists under a comparison function that is a total preorder yields a
  list that is sorted and holds exactly the elements of both.\<close>

theorem libtar_list_merge_sorted:
  assumes "represents l1 ds1" "represents l2 ds2" "cmp_order cmp"
    and "distinct ns" "length ds1 + length ds2 \<le> length ns"
  shows "\<exists>l ds. libtar_list_merge sc True junk (map Some ns) (Some cmp) LIST_USERFUNC l1 l2 = Some (Some l) \<and>
     represents l ds \<and> mset ds = mset ds1 + mset ds2 \<and> cmp_sorted cmp ds"
proof -
  let ?ds = "fold (data_add LIST_USERFUNC cmp) (ds1 @ ds2) []"
  have "cmp_sorted cmp ?ds" by (rule fold_data_add_sorted) (simp_all add: assms(3))
  moreover have "mset ?ds = mset ds1 + mset ds2" by (simp add: ac_simps)
  moreover obtain l where "libtar_list_merge sc True junk (map Some ns) (Some cmp) LIST_USERFUNC l1 l2 = Some (Some l)"
      "represents l ?ds"
    using libtar_list_merge_represents [OF assms(1,2) _ assms(4,5), of LIST_USERFUNC sc junk "Some cmp"]
    by auto
  ultimately show ?thesis by blast
qed

theorem libtar_list_merge_sorted_witness:
  "\<exists>l ds. libtar_list_merge (\<lambda>_ _. 0) True None (map Some [5, 6, 7, 8]) (Some (\<lambda>x y. x - y)) LIST_USERFUNC
      sample_list sample_list = Some (Some l) \<and>
     represents l ds \<and> mset ds = {#10, 10, 30, 30#} \<and> cmp_sorted (\<lambda>x y. x - y) ds"
proof -
  have "represents sample_list [10, 30]"
    unfolding represents_def by (rule exI, rule conjI, rule sample_list_rep) simp
  from libtar_list_merge_sorted [OF this this, of "\<lambda>x y. x - y" "[5, 6, 7, 8]" "\<lambda>_ _. 0" None]
  show ?thesis by (auto simp: cmp_order_def add_mset_commute)
qed

text \<open>Copying a list: a queue, and a sorted list, are copied in order; a stack comes out
  reversed, because its elements are pushed from the front one after the other.\<close>

theorem libtar_list_dup_order:
  assumes "represents l ds" "distinct ns" "length ds \<le> length ns"
    and "list_flags l = LIST_STACK \<or> list_flags l = LIST_QUEUE \<or>
         list_flags l = LIST_USERFUNC \<and> cmp_sorted (cmpfunc l) ds"
  shows "\<exists>l'. libtar_list_dup sc True junk (map Some ns) l = Some (Some l') \<and>
     represents l' (if list_flags l = LIST_STACK then rev ds else ds)"
proof -
  have "fold (data_add (list_flags l) (cmpfunc l)) ds [] = (if list_flags l = LIST_STACK then rev ds else ds)"
    using assms(4)
  proof (elim disjE conjE)
    assume "list_flags l = LIST_STACK"
    then show ?thesis by (simp only: fold_data_add_stack) simp
  next
    assume "list_flags l = LIST_QUEUE"
    then show ?thesis by (simp only: fold_data_add_queue) simp
  next
    assume "list_flags l = LIST_USERFUNC" "cmp_sorted (cmpfunc l) ds"
    then show ?thesis using fold_data_add_again [of "cmpfunc l" "[]" ds] by (simp only: append_Nil) simp
  qed
  then show ?thesis
    using libtar_list_dup_represents [OF assms(1) _ assms(2,3), of sc junk] assms(4) by auto
qed

theorem libtar_list_dup_order_witness:
  "\<exists>l'. libtar_list_dup (\<lambda>_ _. 0) True None (map Some [5, 6]) sample_list = Some (Some l') \<and>
     represents l' [10, 30]"
proof -
  have "represents sample_list [10, 30]"
    unfolding represents_def by (rule exI, rule conjI, rule sample_list_rep) simp
  from libtar_list_dup_order [OF this, of "[5, 6]" "\<lambda>_ _. 0" None]
  show ?thesis by (auto simp: sample_list_def)
qed

text \<open>\<open>libtar_list_add_str\<close> adds exactly the non-empty tokens of the string (of its first
  10239 characters, the size of its buffer less the terminator), in order.\<close>

theorem libtar_list_add_str_correct:
  assumes "represents l ds" "nul_free str" "nul_free delim" "length tmp = ADD_STR_BUF"
    and "distinct ns" "set ns \<inter> dom (nodes l) = {}"
    and "toks = filter (\<lambda>t. t \<noteq> []) (split_on (\<lambda>c. c \<in> set delim) (take (ADD_STR_BUF - 1) str))"
    and "length toks \<le> length ns"
  shows "\<exists>l'. libtar_list_add_str tmp junk (map (\<lambda>n. (True, Some n)) ns) l str delim = Some (0, l') \<and>
     represents l' (fold (data_add (list_flags l) (cmpfunc l)) (map Some toks) ds)"
  using libtar_list_add_str_represents [OF assms] .

definition sample_queue :: "string option libtar_list" where
  "sample_queue = \<lparr>nodes = Map.empty, list_first = None, list_last = None, cmpfunc = (\<lambda>_ _. 0),
     list_flags = LIST_QUEUE, list_nents = 0\<rparr>"

theorem libtar_list_add_str_correct_witness:
  "\<exists>l'. libtar_list_add_str (replicate ADD_STR_BUF nul) None (map (\<lambda>n. (True, Some n)) [3, 4])
      sample_queue ''a::bc'' '':'' = Some (0, l') \<and> represents l' [Some ''a'', Some ''bc'']"
proof -
  have "represents sample_queue []"
    by (simp add: represents_def list_rep_def sample_queue_def)
  from libtar_list_add_str_correct [OF this, of "''a::bc''" "'':''" "replicate ADD_STR_BUF nul" "[3, 4]" "[''a'', ''bc'']" None]
  show ?thesis by (simp add: sample_queue_def ADD_STR_BUF_def data_add_def)
qed

text \<open>Searching a list for \<open>k\<close> after the position \<open>p\<close> stops at the first later element
  the match function accepts, and reports its absence with the code 0 and a null pointer.\<close>

theorem libtar_list_search_correct:
  assumes "list_rep l (as @ (p, d) # bs)"
  shows "libtar_list_search sm l (Some p) k (Some f) =
      (case find (\<lambda>c. f k (snd c) \<noteq> 0) bs of None \<Rightarrow> Some (0, None) | Some c \<Rightarrow> Some (1, Some (fst c)))"
  using libtar_list_search_rep(2) [OF assms] by simp

theorem libtar_list_search_correct_witness:
  "libtar_list_search (\<lambda>_ _. 0) sample_list (Some 1) 30 (Some (\<lambda>x y. if x = y then 1 else 0)) = Some (1, Some 2)"
  using libtar_list_search_correct [of sample_list "[]" 1 10 "[(2, 30)]" "\<lambda>_ _. 0" 30 "\<lambda>x y. if x = y then 1 else 0"]
    sample_list_rep by simp

end
