(* ===== verification/Libtar_Hash.thy ===== *)
theory Libtar_Hash
  imports Libtar_List
begin

text \<open>
  \<open>par/libtar_hash.c\<close>: hash tables of lists. A table maps each bucket to \<open>NULL\<close> or to a
  \<open>LIST_QUEUE\<close> list; bucket numbers are C \<open>int\<close>s and every access to the table is checked
  against its bounds. \<open>hash_rep\<close> relates a table to the cells of its buckets; the lookups of
  the archive library (reset a pointer, \<open>libtar_hash_getkey\<close>, read the datum) implement the
  interface \<open>first_match_store\<close>.
\<close>

section \<open>Data\<close>

text \<open>A hash function may divide by the number of buckets: \<open>None\<close> is its undefined behaviour.\<close>

record 'a libtar_hash =
  numbuckets :: int
  table :: "'a libtar_list option list"
  hashfunc :: "'a \<Rightarrow> u32 \<Rightarrow> u32 option"
  hash_nents :: u32

record libtar_hashptr =
  hp_bucket :: int
  hp_node :: "addr option"

text \<open>\<open>h->table[b]\<close> and the assignment to it.\<close>

definition table_at :: "'a libtar_hash \<Rightarrow> int \<Rightarrow> 'a libtar_list option option" where
  "table_at h b = (if 0 \<le> b \<and> b < int (length (table h)) then Some (table h ! nat b) else None)"

definition table_set :: "'a libtar_hash \<Rightarrow> int \<Rightarrow> 'a libtar_list option \<Rightarrow> 'a libtar_hash" where
  "table_set h b v = h\<lparr>table := (table h)[nat b := v]\<rparr>"

section \<open>Operations\<close>

definition libtar_hashptr_reset :: "libtar_hashptr" where
  "libtar_hashptr_reset = \<lparr>hp_bucket = -1, hp_node = libtar_listptr_reset\<rparr>"

text \<open>The datum is read through the node pointer; the node belongs to the pointer's bucket.\<close>

definition libtar_hashptr_data :: "'a libtar_hash \<Rightarrow> libtar_hashptr \<Rightarrow> 'a option" where
  "libtar_hashptr_data h hp = do {
     b \<leftarrow> table_at h (hp_bucket hp);
     l \<leftarrow> b;
     libtar_listptr_data l (hp_node hp) }"

text \<open>\<open>key[0] % num_buckets\<close>: a \<open>char\<close> is signed on the target and is converted to
  \<open>unsigned int\<close> before the division.\<close>

definition libtar_str_hashfunc :: "string option \<Rightarrow> u32 \<Rightarrow> u32 option" where
  "libtar_str_hashfunc key num_buckets =
     (case key of None \<Rightarrow> Some 0
      | Some k \<Rightarrow>
        if num_buckets = 0 then None
        else Some (signed_take_bit 7 (of_char (case k of [] \<Rightarrow> nul | c # _ \<Rightarrow> c)) mod num_buckets))"

definition libtar_hash_nents :: "'a libtar_hash \<Rightarrow> u32" where
  "libtar_hash_nents h = hash_nents h"

text \<open>The two \<open>calloc\<close> outcomes are arguments; the default hash function is used when none is
  given (\<open>str_hash_cast\<close> is \<open>libtar_str_hashfunc\<close> at the element type).\<close>

definition libtar_hash_new ::
  "('a \<Rightarrow> u32 \<Rightarrow> u32 option) \<Rightarrow> bool \<Rightarrow> bool \<Rightarrow> int \<Rightarrow> ('a \<Rightarrow> u32 \<Rightarrow> u32 option) option \<Rightarrow> 'a libtar_hash option" where
  "libtar_hash_new str_hash_cast hash_ok table_ok num hashf =
     (if \<not> hash_ok then None
      else if \<not> table_ok then None
      else Some \<lparr>numbuckets = num, table = replicate (nat num) None,
        hashfunc = (case hashf of Some f \<Rightarrow> f | None \<Rightarrow> str_hash_cast), hash_nents = 0\<rparr>)"

text \<open>The loop over the buckets of \<open>libtar_hash_next\<close>, entered with \<open>bucket\<close> already
  incremented, and what follows it.\<close>

function hash_next_scan :: "'a libtar_hash \<Rightarrow> int \<Rightarrow> addr option \<Rightarrow> (int \<times> libtar_hashptr) option" where
  "hash_next_scan h bucket node =
     (if bucket < numbuckets h then
        Option.bind (table_at h bucket) (\<lambda>b.
          (case b of None \<Rightarrow> hash_next_scan h (bucket + 1) None
           | Some l \<Rightarrow> Option.bind (libtar_list_next l None) (\<lambda>(r, node').
               if r \<noteq> 0 then Some (1, \<lparr>hp_bucket = bucket, hp_node = node'\<rparr>)
               else hash_next_scan h (bucket + 1) node')))
      else if bucket = numbuckets h then Some (0, \<lparr>hp_bucket = -1, hp_node = None\<rparr>)
      else Some (0, \<lparr>hp_bucket = bucket, hp_node = node\<rparr>))"
  by pat_completeness auto
termination
  by (relation "measure (\<lambda>(h, bucket, node). nat (numbuckets h - bucket))") auto

declare hash_next_scan.simps [simp del]

definition libtar_hash_next :: "'a libtar_hash \<Rightarrow> libtar_hashptr \<Rightarrow> (int \<times> libtar_hashptr) option" where
  "libtar_hash_next h hp =
     (if hp_bucket hp \<ge> 0 \<and> hp_node hp \<noteq> None then do {
        b \<leftarrow> table_at h (hp_bucket hp);
        l \<leftarrow> b;
        (r, node) \<leftarrow> libtar_list_next l (hp_node hp);
        if r \<noteq> 0 then Some (1, hp\<lparr>hp_node := node\<rparr>)
        else hash_next_scan h (hp_bucket hp + 1) node }
      else hash_next_scan h (hp_bucket hp + 1) (hp_node hp))"

definition libtar_hash_del ::
  "'a libtar_hash \<Rightarrow> libtar_hashptr \<Rightarrow> (int \<times> 'a libtar_hash \<times> libtar_hashptr) option" where
  "libtar_hash_del h hp =
     (if hp_bucket hp < 0 \<or> hp_bucket hp \<ge> numbuckets h then Some (-1, h, hp)
      else do {
        b \<leftarrow> table_at h (hp_bucket hp);
        (case b of None \<Rightarrow> Some (-1, h, hp)
         | Some l \<Rightarrow>
           if hp_node hp = None then Some (-1, h, hp)
           else do {
             (l', node) \<leftarrow> libtar_list_del l (hp_node hp);
             Some (0, (table_set h (hp_bucket hp) (Some l'))\<lparr>hash_nents := hash_nents h - 1\<rparr>,
                   hp\<lparr>hp_node := node\<rparr>) }) })"

text \<open>The loops of \<open>libtar_hash_empty\<close> and \<open>libtar_hash_free\<close>; the second component collects
  the data handed to \<open>freefunc\<close>.\<close>

fun empty_buckets :: "'a libtar_list option list \<Rightarrow> 'a list \<Rightarrow> ('a libtar_list option list \<times> 'a list) option" where
  "empty_buckets [] freed = Some ([], freed)"
| "empty_buckets (None # bs) freed =
     map_option (\<lambda>(bs', fr). (None # bs', fr)) (empty_buckets bs freed)"
| "empty_buckets (Some l # bs) freed =
     Option.bind (libtar_list_empty l) (\<lambda>(l', fr).
       map_option (\<lambda>(bs', fr'). (Some l' # bs', fr')) (empty_buckets bs (freed @ fr)))"

definition libtar_hash_empty :: "'a libtar_hash \<Rightarrow> ('a libtar_hash \<times> 'a list) option" where
  "libtar_hash_empty h =
     (if numbuckets h > int (length (table h)) then None
      else map_option (\<lambda>(bs, freed).
          (h\<lparr>table := bs @ drop (nat (numbuckets h)) (table h), hash_nents := 0\<rparr>, freed))
        (empty_buckets (take (nat (numbuckets h)) (table h)) []))"

definition libtar_hash_free :: "'a libtar_hash \<Rightarrow> 'a list option" where
  "libtar_hash_free h =
     (if numbuckets h > int (length (table h)) then None
      else map_option snd (empty_buckets (take (nat (numbuckets h)) (table h)) []))"

text \<open>\<open>while (libtar_hash_next(h, hp) != 0) if ((*matchfunc)(data, ...) != 0) return 1;\<close>\<close>

partial_function (option) libtar_hash_search ::
  "'a libtar_hash \<Rightarrow> libtar_hashptr \<Rightarrow> 'a \<Rightarrow> ('a \<Rightarrow> 'a \<Rightarrow> int) \<Rightarrow> (int \<times> libtar_hashptr) option" where
  "libtar_hash_search h hp d matchfunc =
     Option.bind (libtar_hash_next h hp) (\<lambda>rp.
       if fst rp \<noteq> 0 then
         Option.bind (libtar_hashptr_data h (snd rp)) (\<lambda>x.
           if matchfunc d x \<noteq> 0 then Some (1, snd rp)
           else libtar_hash_search h (snd rp) d matchfunc)
       else Some (0, snd rp))"

text \<open>The bucket of a key: the hash function's \<open>unsigned\<close> result stored in an \<open>int\<close>.\<close>

definition hash_bucket :: "'a libtar_hash \<Rightarrow> 'a \<Rightarrow> int option" where
  "hash_bucket h k = map_option sint (hashfunc h k (word_of_int (numbuckets h)))"

definition libtar_hash_getkey ::
  "('a \<Rightarrow> 'a \<Rightarrow> int) \<Rightarrow> 'a libtar_hash \<Rightarrow> libtar_hashptr \<Rightarrow> 'a \<Rightarrow> ('a \<Rightarrow> 'a \<Rightarrow> int) option
   \<Rightarrow> (int \<times> libtar_hashptr) option" where
  "libtar_hash_getkey str_match_cast h hp key matchfunc = do {
     b \<leftarrow> (if hp_bucket hp = -1 then hash_bucket h key else Some (hp_bucket hp));
     let hp = hp\<lparr>hp_bucket := b\<rparr>;
     lp \<leftarrow> table_at h b;
     (case lp of None \<Rightarrow> Some (0, hp\<lparr>hp_bucket := -1\<rparr>)
      | Some l \<Rightarrow> do {
          (r, node) \<leftarrow> libtar_list_search str_match_cast l (hp_node hp) key matchfunc;
          Some (r, hp\<lparr>hp_node := node\<rparr>) }) }"

definition libtar_hash_add ::
  "('a \<Rightarrow> 'a \<Rightarrow> int) \<Rightarrow> bool \<Rightarrow> addr option \<Rightarrow> addr option \<Rightarrow> 'a libtar_hash \<Rightarrow> 'a
   \<Rightarrow> (int \<times> 'a libtar_hash) option" where
  "libtar_hash_add strcmp_cast calloc_ok mal junk h d = do {
     b \<leftarrow> hash_bucket h d;
     lp \<leftarrow> table_at h b;
     h \<leftarrow> (case lp of Some _ \<Rightarrow> Some h
           | None \<Rightarrow> map_option (table_set h b) (libtar_list_new strcmp_cast calloc_ok LIST_QUEUE None));
     lp \<leftarrow> table_at h b;
     l \<leftarrow> lp;
     (i, l') \<leftarrow> libtar_list_add mal junk l d;
     let h = table_set h b (Some l');
     Some (i, if i = 0 then h\<lparr>hash_nents := hash_nents h + 1\<rparr> else h) }"

section \<open>Representation\<close>

definition bucket_rep :: "'a libtar_list option \<Rightarrow> (addr \<times> 'a) list \<Rightarrow> bool" where
  "bucket_rep b cs = (case b of None \<Rightarrow> cs = [] | Some l \<Rightarrow> list_rep l cs \<and> list_flags l = LIST_QUEUE)"

definition hash_rep :: "'a libtar_hash \<Rightarrow> (addr \<times> 'a) list list \<Rightarrow> bool" where
  "hash_rep h css \<longleftrightarrow>
     numbuckets h = int (length css) \<and> css \<noteq> [] \<and> length css < 2 ^ 31 \<and>
     list_all2 bucket_rep (table h) css \<and> hash_nents h = of_nat (length (concat css))"

text \<open>A hash function that stays below the number of buckets.\<close>

definition hashfunc_ok :: "'a libtar_hash \<Rightarrow> bool" where
  "hashfunc_ok h \<longleftrightarrow>
     (\<forall>d. \<exists>u. hashfunc h d (word_of_int (numbuckets h)) = Some u \<and> unat u < nat (numbuckets h))"

lemma bucket_rep_simps [simp]:
  "bucket_rep None cs \<longleftrightarrow> cs = []"
  "bucket_rep (Some l) cs \<longleftrightarrow> list_rep l cs \<and> list_flags l = LIST_QUEUE"
  by (simp_all add: bucket_rep_def)

lemma hash_rep_at:
  assumes "hash_rep h css" "i < length css"
  shows "\<exists>b. table_at h (int i) = Some b \<and> bucket_rep b (css ! i)"
  using assms by (auto simp: hash_rep_def table_at_def list_all2_conv_all_nth)

lemma hash_bucket_ok:
  assumes "hash_rep h css" "hashfunc_ok h"
  shows "\<exists>i. hash_bucket h d = Some (int i) \<and> i < length css"
proof -
  from assms(2) obtain u where u: "hashfunc h d (word_of_int (numbuckets h)) = Some u" "unat u < nat (numbuckets h)"
    by (auto simp: hashfunc_ok_def)
  then have "unat u < length css" "unat u < 2 ^ 31" using assms(1) by (auto simp: hash_rep_def)
  then show ?thesis
    using u sint_small [of u] by (intro exI [of _ "unat u"]) (simp add: hash_bucket_def)
qed

lemma word_balance:
  fixes a b c d k k' :: "'a :: comm_ring"
  assumes "a + b = c + d" "d + k = b + k'"
  shows "c + k' - k = a"
proof -
  have "c + k' + b = c + d + k" using assms(2) by (simp add: ac_simps)
  also have "\<dots> = a + k + b" unfolding assms(1) [symmetric] by (simp add: ac_simps)
  finally show ?thesis by (simp add: algebra_simps)
qed

text \<open>Replacing the list of one bucket.\<close>

lemma hash_rep_update:
  assumes "hash_rep h css" "i < length css" "bucket_rep (Some l) cs'"
    and "of_nat (length cs') + k = of_nat (length (css ! i)) + k'"
  shows "hash_rep ((table_set h (int i) (Some l))\<lparr>hash_nents := hash_nents h + k' - k\<rparr>) (css[i := cs'])"
proof -
  have "concat (css[i := xs]) = concat (take i css) @ xs @ concat (drop (Suc i) css)" for xs
    using assms(2) by (simp add: upd_conv_take_nth_drop)
  from this [of "css ! i"] this [of cs']
  have "length (concat (css[i := cs'])) + length (css ! i) = length (concat css) + length cs'"
    by simp
  then have "of_nat (length (concat (css[i := cs']))) + of_nat (length (css ! i)) =
      (of_nat (length (concat css)) + of_nat (length cs') :: u32)"
    by (metis of_nat_add)
  then have "hash_nents h + k' - k = of_nat (length (concat (css[i := cs'])))"
    using word_balance [OF _ assms(4)] assms(1) unfolding hash_rep_def by metis
  then show ?thesis
    using assms(1-3) by (auto simp: hash_rep_def table_set_def intro: list_all2_update_cong)
qed

lemma libtar_hash_add_rep:
  assumes rep: "hash_rep h css" and i: "hash_bucket h d = Some (int i)" "i < length css"
    and fresh: "n \<notin> fst ` set (css ! i)"
  shows "\<exists>h'. libtar_hash_add sc True (Some n) junk h d = Some (0, h') \<and>
     hash_rep h' (css[i := css ! i @ [(n, d)]]) \<and> hashfunc h' = hashfunc h"
proof -
  obtain b where b: "table_at h (int i) = Some b" "bucket_rep b (css ! i)" using hash_rep_at [OF rep i(2)] by auto
  have len: "int i < int (length (table h))" using b(1) by (simp add: table_at_def split: if_splits)
  define l where "l = (case b of Some l \<Rightarrow> l | None \<Rightarrow> \<lparr>nodes = Map.empty, list_first = None, list_last = None,
        cmpfunc = sc, list_flags = LIST_QUEUE, list_nents = 0\<rparr>)"
  have l: "bucket_rep (Some l) (css ! i)"
    using b(2) by (cases b) (auto simp: l_def list_rep_def)
  then obtain l' where l': "libtar_list_add (Some n) junk l d = Some (0, l')"
      "list_rep l' (css ! i @ [(n, d)])" "list_flags l' = LIST_QUEUE"
    using libtar_list_add_rep [of l "css ! i" n junk d] fresh by (auto simp: cells_add_def)
  let ?h = "(table_set h (int i) (Some l'))\<lparr>hash_nents := hash_nents h + 1 - 0\<rparr>"
  have "hash_rep ?h (css[i := css ! i @ [(n, d)]])"
    using l' by (intro hash_rep_update [OF rep i(2)]) simp_all
  moreover have "libtar_hash_add sc True (Some n) junk h d = Some (0, ?h)"
    using b(1) l'(1) len i(1)
    by (cases b) (auto simp: libtar_hash_add_def l_def libtar_list_new_def table_at_def table_set_def Let_def)
  ultimately show ?thesis by (auto simp: table_set_def)
qed

lemma libtar_hash_del_rep:
  assumes rep: "hash_rep h css" and i: "i < length css" and split: "css ! i = as @ (p, d) # bs"
  shows "\<exists>h'. libtar_hash_del h \<lparr>hp_bucket = int i, hp_node = Some p\<rparr> =
       Some (0, h', \<lparr>hp_bucket = int i, hp_node = hd_opt (map fst bs) None\<rparr>) \<and>
     hash_rep h' (css[i := as @ bs])"
proof -
  obtain b where b: "table_at h (int i) = Some b" "bucket_rep b (css ! i)" using hash_rep_at [OF rep i] by auto
  then obtain l where l: "b = Some l" "list_rep l (as @ (p, d) # bs)" "list_flags l = LIST_QUEUE"
    by (cases b) (auto simp: split)
  obtain l' where l': "libtar_list_del l (Some p) = Some (l', hd_opt (map fst bs) None)"
      "list_rep l' (as @ bs)" "list_flags l' = list_flags l"
    using libtar_list_del_rep [OF l(2)] by auto
  let ?h = "(table_set h (int i) (Some l'))\<lparr>hash_nents := hash_nents h + 0 - 1\<rparr>"
  have "hash_rep ?h (css[i := as @ bs])"
    using l' l(3) by (intro hash_rep_update [OF rep i]) (simp_all add: split)
  moreover have "int i < numbuckets h" using rep i by (simp add: hash_rep_def)
  ultimately show ?thesis
    using b(1) l(1) l'(1) by (auto simp: libtar_hash_del_def)
qed

section \<open>Iteration\<close>

text \<open>The cells from bucket \<open>b\<close> on, each with its bucket.\<close>

fun located :: "nat \<Rightarrow> (addr \<times> 'a) list list \<Rightarrow> (nat \<times> addr \<times> 'a) list" where
  "located b [] = []"
| "located b (cs # css) = map (Pair b) cs @ located (Suc b) css"

lemma located_concat [simp]: "map snd (located b css) = concat css"
  by (induction css arbitrary: b) (simp_all add: comp_def)

text \<open>What \<open>libtar_hash_next\<close> must return when the cells still to come are \<open>rest\<close>.\<close>

definition next_result :: "(nat \<times> addr \<times> 'a) list \<Rightarrow> int \<times> libtar_hashptr" where
  "next_result rest = (case rest of [] \<Rightarrow> (0, libtar_hashptr_reset)
     | (i, p, _) # _ \<Rightarrow> (1, \<lparr>hp_bucket = int i, hp_node = Some p\<rparr>))"

lemma hash_next_scan_rep:
  assumes "hash_rep h css" "b \<le> length css"
  shows "hash_next_scan h (int b) node = Some (next_result (located b (drop b css)))"
  using assms(2)
proof (induction "length css - b" arbitrary: b node)
  case 0
  then have "b = length css" by simp
  then show ?case
    using assms(1) by (subst hash_next_scan.simps)
      (simp add: hash_rep_def next_result_def libtar_hashptr_reset_def libtar_listptr_reset_def)
next
  case (Suc k)
  then have b: "b < length css" by simp
  have IH: "hash_next_scan h (int b + 1) nd = Some (next_result (located (Suc b) (drop (Suc b) css)))" for nd
    using Suc.hyps(1) [of "Suc b" nd] Suc.hyps(2) b by (simp add: add.commute)
  have loc: "located b (drop b css) = map (Pair b) (css ! b) @ located (Suc b) (drop (Suc b) css)"
    using b by (simp add: Cons_nth_drop_Suc [symmetric])
  obtain t where t: "table_at h (int b) = Some t" "bucket_rep t (css ! b)"
    using hash_rep_at [OF assms(1) b] by auto
  have num: "int b < numbuckets h" using assms(1) b by (simp add: hash_rep_def)
  show ?case
  proof (cases t)
    case None
    then show ?thesis
      using t IH num loc by (subst hash_next_scan.simps) simp
  next
    case (Some l)
    then have nx: "libtar_list_next l None = Some (if css ! b = [] then 0 else 1, hd_opt (map fst (css ! b)) None)"
      using t(2) libtar_list_next_rep(1) [of l "css ! b"] by simp
    show ?thesis
      using t(1) Some nx IH num loc
      by (subst hash_next_scan.simps) (auto simp: next_result_def neq_Nil_conv)
  qed
qed

text \<open>A pointer stands before \<open>rest\<close>: at the start, or on a cell.\<close>

definition stands_before :: "(addr \<times> 'a) list list \<Rightarrow> libtar_hashptr \<Rightarrow> (nat \<times> addr \<times> 'a) list \<Rightarrow> bool" where
  "stands_before css hp rest \<longleftrightarrow>
     hp = libtar_hashptr_reset \<and> rest = located 0 css \<or>
     (\<exists>i as p d bs. i < length css \<and> css ! i = as @ (p, d) # bs \<and>
        hp = \<lparr>hp_bucket = int i, hp_node = Some p\<rparr> \<and>
        rest = map (Pair i) bs @ located (Suc i) (drop (Suc i) css))"

lemma located_head:
  assumes "located b css = (i, p, d) # rest"
  shows "b \<le> i \<and> i < b + length css \<and> (\<exists>bs. css ! (i - b) = (p, d) # bs \<and>
     rest = map (Pair i) bs @ located (Suc i) (drop (Suc (i - b)) css))"
  using assms
proof (induction css arbitrary: b)
  case (Cons cs css)
  show ?case
  proof (cases cs)
    case Nil
    then have "located (Suc b) css = (i, p, d) # rest" using Cons.prems by simp
    from Cons.IH [OF this] obtain bs where "Suc b \<le> i" "i < Suc b + length css" "css ! (i - Suc b) = (p, d) # bs"
      "rest = map (Pair i) bs @ located (Suc i) (drop (Suc (i - Suc b)) css)" by auto
    moreover from this have "i - b = Suc (i - Suc b)" by simp
    ultimately show ?thesis by simp
  next
    case (Cons c cs')
    then show ?thesis using Cons.prems by auto
  qed
qed simp

lemma stands_before_head:
  assumes "stands_before css hp ((j, q, e) # rest')"
  shows "\<exists>as bs. j < length css \<and> css ! j = as @ (q, e) # bs \<and>
     rest' = map (Pair j) bs @ located (Suc j) (drop (Suc j) css)"
  using assms unfolding stands_before_def
proof (elim disjE exE conjE)
  assume "(j, q, e) # rest' = located 0 css"
  then obtain bs where "j < length css" "css ! j = [] @ (q, e) # bs"
      "rest' = map (Pair j) bs @ located (Suc j) (drop (Suc j) css)"
    using located_head [of 0 css j q e rest'] by auto
  then show ?thesis by blast
next
  fix i as p d bs
  assume i: "i < length css" and c: "css ! i = as @ (p, d) # bs"
    and rest: "(j, q, e) # rest' = map (Pair i) bs @ located (Suc i) (drop (Suc i) css)"
  show ?thesis
  proof (cases bs)
    case Nil
    then obtain bs' where b: "Suc i \<le> j" "j < length css" "css ! j = [] @ (q, e) # bs'"
        "rest' = map (Pair j) bs' @ located (Suc j) (drop (Suc j) css)"
      using located_head [of "Suc i" "drop (Suc i) css" j q e rest'] rest i by auto
    then show ?thesis by blast
  next
    case (Cons b bs')
    then have "css ! j = (as @ [(p, d)]) @ (q, e) # bs'" "j = i" "rest' = map (Pair i) bs' @ located (Suc i) (drop (Suc i) css)"
      using c rest by auto
    then show ?thesis using i by blast
  qed
qed

lemma libtar_hash_next_rep:
  assumes "hash_rep h css" "stands_before css hp rest"
  shows "libtar_hash_next h hp = Some (next_result rest) \<and>
     (rest \<noteq> [] \<longrightarrow> stands_before css (snd (next_result rest)) (tl rest))"
proof
  show "libtar_hash_next h hp = Some (next_result rest)"
    using assms(2) unfolding stands_before_def
  proof (elim disjE exE conjE)
    assume "hp = libtar_hashptr_reset" "rest = located 0 css"
    then show ?thesis
      using hash_next_scan_rep [OF assms(1), of 0]
      by (simp add: libtar_hash_next_def libtar_hashptr_reset_def)
  next
    fix i as p d bs
    assume i: "i < length css" and c: "css ! i = as @ (p, d) # bs"
      and hp: "hp = \<lparr>hp_bucket = int i, hp_node = Some p\<rparr>"
      and rest: "rest = map (Pair i) bs @ located (Suc i) (drop (Suc i) css)"
    obtain l where l: "table_at h (int i) = Some (Some l)" "list_rep l (css ! i)"
      using hash_rep_at [OF assms(1) i] c by (metis append_is_Nil_conv bucket_rep_simps list.discI option.exhaust)
    have nx: "libtar_list_next l (Some p) = Some (if bs = [] then 0 else 1, hd_opt (map fst bs) None)"
      using libtar_list_next_rep(2) [OF l(2) c] .
    have scan: "hash_next_scan h (int i + 1) nd = Some (next_result (located (Suc i) (drop (Suc i) css)))" for nd
      using hash_next_scan_rep [OF assms(1), of "Suc i" nd] i by (simp add: add.commute)
    show ?thesis
      using l(1) nx scan by (auto simp: libtar_hash_next_def hp rest next_result_def neq_Nil_conv)
  qed
  show "rest \<noteq> [] \<longrightarrow> stands_before css (snd (next_result rest)) (tl rest)"
  proof
    assume "rest \<noteq> []"
    then obtain j q e rest' where r: "rest = (j, q, e) # rest'" by (cases rest) auto
    then show "stands_before css (snd (next_result rest)) (tl rest)"
      using stands_before_head [of css hp j q e rest'] assms(2)
      by (auto simp: stands_before_def next_result_def)
  qed
qed

lemma hashptr_data_cell:
  assumes "hash_rep h css" "i < length css" "css ! i = as @ (p, d) # bs"
  shows "libtar_hashptr_data h \<lparr>hp_bucket = int i, hp_node = Some p\<rparr> = Some d"
proof -
  obtain l where l: "table_at h (int i) = Some (Some l)" "list_rep l (as @ (p, d) # bs)"
    using hash_rep_at [OF assms(1,2)] assms(3)
    by (metis append_is_Nil_conv bucket_rep_simps list.discI option.exhaust)
  then show ?thesis using listptr_data_rep [OF l(2)] by (simp add: libtar_hashptr_data_def)
qed

lemma libtar_hash_search_rep:
  assumes "hash_rep h css" "stands_before css hp rest"
  shows "libtar_hash_search h hp k f =
     Some (next_result (dropWhile (\<lambda>c. f k (snd (snd c)) = 0) rest))"
  using assms(2)
proof (induction rest arbitrary: hp)
  case Nil
  then show ?case
    using libtar_hash_next_rep [OF assms(1) Nil]
    by (subst libtar_hash_search.simps) (simp add: next_result_def)
next
  case (Cons c rest)
  obtain i p d where c: "c = (i, p, d)" by (cases c)
  have nx: "libtar_hash_next h hp = Some (1, \<lparr>hp_bucket = int i, hp_node = Some p\<rparr>)"
      "stands_before css \<lparr>hp_bucket = int i, hp_node = Some p\<rparr> rest"
    using libtar_hash_next_rep [OF assms(1) Cons.prems] by (simp_all add: c next_result_def)
  have "libtar_hashptr_data h \<lparr>hp_bucket = int i, hp_node = Some p\<rparr> = Some d"
    using stands_before_head [of css hp i p d rest] Cons.prems hashptr_data_cell [OF assms(1)] by (auto simp: c)
  then show ?case
    using nx Cons.IH [OF nx(2)] by (subst libtar_hash_search.simps) (simp add: c next_result_def)
qed

section \<open>Emptying\<close>

lemma empty_buckets_rep:
  assumes "list_all2 bucket_rep bs css"
  shows "\<exists>bs'. empty_buckets bs freed = Some (bs', freed @ map snd (concat css)) \<and>
     list_all2 bucket_rep bs' (replicate (length css) [])"
  using assms
proof (induction bs css arbitrary: freed rule: list_all2_induct)
  case (Cons b bs cs css)
  show ?case
  proof (cases b)
    case None
    then show ?thesis using Cons.IH [of freed] Cons.hyps(1) by auto
  next
    case (Some l)
    then have l: "list_rep l cs" "list_flags l = LIST_QUEUE" using Cons.hyps(1) by simp_all
    show ?thesis
      using Cons.IH [of "freed @ map snd cs"] libtar_list_empty_rep [OF l(1)] l(2) by (auto simp: Some)
  qed
qed simp

lemma libtar_hash_empty_rep:
  assumes "hash_rep h css"
  shows "\<exists>h'. libtar_hash_empty h = Some (h', map snd (concat css)) \<and>
     hash_rep h' (replicate (length css) []) \<and> libtar_hash_free h = Some (map snd (concat css))"
proof -
  have len: "nat (numbuckets h) = length css" "length (table h) = length css" "css \<noteq> []"
    using assms by (auto simp: hash_rep_def list_all2_lengthD)
  obtain bs' where bs: "empty_buckets (table h) [] = Some (bs', map snd (concat css))"
      "list_all2 bucket_rep bs' (replicate (length css) [])"
    using empty_buckets_rep [of "table h" css "[]"] assms by (auto simp: hash_rep_def)
  have "concat (replicate n []) = []" for n by (induction n) simp_all
  then show ?thesis
    using assms bs len by (auto simp: libtar_hash_empty_def libtar_hash_free_def hash_rep_def)
qed

section \<open>Lookup\<close>

text \<open>How the archive library uses a table: insertions, and lookups of the first datum that
  matches a key (\<open>libtar_hashptr_reset\<close>, \<open>libtar_hash_getkey\<close>, \<open>libtar_hashptr_data\<close>).\<close>

definition hash_put :: "('a \<Rightarrow> 'a \<Rightarrow> int) \<Rightarrow> addr option \<Rightarrow> addr \<Rightarrow> 'a \<Rightarrow> 'a libtar_hash \<Rightarrow> 'a libtar_hash option" where
  "hash_put sc junk n d h =
     (case libtar_hash_add sc True (Some n) junk h d of
        Some (r, h') \<Rightarrow> if r = 0 then Some h' else None | None \<Rightarrow> None)"

definition hash_lookup :: "('a \<Rightarrow> 'a \<Rightarrow> int) \<Rightarrow> 'a \<Rightarrow> 'a libtar_hash \<Rightarrow> 'a option option" where
  "hash_lookup f k h =
     Option.bind (libtar_hash_getkey f h libtar_hashptr_reset k (Some f)) (\<lambda>(r, hp).
       if r \<noteq> 0 then map_option Some (libtar_hashptr_data h hp) else Some None)"

text \<open>The invariant of a table used with the match function \<open>f\<close>: it represents some cells, its
  hash function stays in range, a key and a datum it matches fall into the same bucket, and
  every datum is in its bucket.\<close>

definition hash_compatible :: "('a \<Rightarrow> 'a \<Rightarrow> int) \<Rightarrow> 'a libtar_hash \<Rightarrow> bool" where
  "hash_compatible f h \<longleftrightarrow> hashfunc_ok h \<and> (\<forall>k d n. f k d \<noteq> 0 \<longrightarrow> hashfunc h k n = hashfunc h d n)"

definition hash_placed :: "'a libtar_hash \<Rightarrow> (addr \<times> 'a) list list \<Rightarrow> bool" where
  "hash_placed h css \<longleftrightarrow> (\<forall>i<length css. \<forall>c\<in>set (css ! i). hash_bucket h (snd c) = Some (int i))"

definition hash_inv :: "('a \<Rightarrow> 'a \<Rightarrow> int) \<Rightarrow> 'a libtar_hash \<Rightarrow> bool" where
  "hash_inv f h \<longleftrightarrow> hash_compatible f h \<and> (\<exists>css. hash_rep h css \<and> hash_placed h css)"

definition hash_fresh :: "addr \<Rightarrow> 'a libtar_hash \<Rightarrow> bool" where
  "hash_fresh n h \<longleftrightarrow> (\<forall>l\<in>set (table h). \<forall>x. l = Some x \<longrightarrow> nodes x n = None)"

text \<open>The interface: a store of data in which a lookup finds the first datum that was put and
  agrees with the key.\<close>

fun put_all :: "('n \<Rightarrow> 'd \<Rightarrow> 's \<Rightarrow> 's option) \<Rightarrow> ('n \<times> 'd) list \<Rightarrow> 's \<Rightarrow> 's option" where
  "put_all put [] s = Some s"
| "put_all put ((n, d) # xs) s = Option.bind (put n d s) (put_all put xs)"

locale first_match_store =
  fixes inv :: "'s \<Rightarrow> bool"
    and put :: "'n \<Rightarrow> 'd \<Rightarrow> 's \<Rightarrow> 's option"
    and lookup :: "'d \<Rightarrow> 's \<Rightarrow> 'd option option"
    and fresh :: "'n \<Rightarrow> 's \<Rightarrow> bool"
    and agree :: "'d \<Rightarrow> 'd \<Rightarrow> bool"
  assumes put_ok: "inv s \<Longrightarrow> fresh n s \<Longrightarrow> \<exists>s'. put n d s = Some s' \<and> inv s'"
    and lookup_ok: "inv s \<Longrightarrow> \<exists>r. lookup k s = Some r"
    and lookup_put: "inv s \<Longrightarrow> fresh n s \<Longrightarrow> put n d s = Some s' \<Longrightarrow> lookup k s = Some r \<Longrightarrow>
      lookup k s' = Some (case r of Some x \<Rightarrow> Some x | None \<Rightarrow> if agree k d then Some d else None)"
    and fresh_put: "inv s \<Longrightarrow> fresh n s \<Longrightarrow> fresh m s \<Longrightarrow> m \<noteq> n \<Longrightarrow> put n d s = Some s' \<Longrightarrow> fresh m s'"
begin

lemma put_all_lookup:
  assumes "inv s" "distinct (map fst xs)" "\<forall>n\<in>set (map fst xs). fresh n s" "lookup k s = Some r"
  shows "\<exists>s'. put_all put xs s = Some s' \<and> inv s' \<and>
     lookup k s' = Some (case r of Some x \<Rightarrow> Some x | None \<Rightarrow> find (agree k) (map snd xs))"
  using assms
proof (induction xs arbitrary: s r)
  case Nil
  then show ?case by (auto split: option.splits)
next
  case (Cons x xs)
  obtain n d where x: "x = (n, d)" by (cases x)
  obtain s1 where s1: "put n d s = Some s1" "inv s1"
    using put_ok [of s n d] Cons.prems by (auto simp: x)
  have "lookup k s1 = Some (case r of Some x \<Rightarrow> Some x | None \<Rightarrow> if agree k d then Some d else None)"
    using lookup_put [OF _ _ s1(1)] Cons.prems by (simp add: x)
  moreover have "\<forall>m\<in>set (map fst xs). fresh m s1"
    using fresh_put [OF _ _ _ _ s1(1)] Cons.prems by (auto simp: x)
  ultimately show ?case
    using Cons.IH [OF s1(2)] Cons.prems(2) s1(1) by (auto simp: x split: option.splits)
qed

end

text \<open>A store whose data can be handed out, each as often as it was put.\<close>

locale listed_store = first_match_store inv put lookup fresh agree
  for inv :: "'s \<Rightarrow> bool" and put :: "'n \<Rightarrow> 'd \<Rightarrow> 's \<Rightarrow> 's option" and lookup fresh agree +
  fixes contents :: "'s \<Rightarrow> 'd list option"
  assumes contents_ok: "inv s \<Longrightarrow> \<exists>ds. contents s = Some ds"
    and contents_put: "inv s \<Longrightarrow> fresh n s \<Longrightarrow> put n d s = Some s' \<Longrightarrow> contents s = Some ds \<Longrightarrow>
      \<exists>ds'. contents s' = Some ds' \<and> mset ds' = add_mset d (mset ds)"
begin

lemma contents_put_fresh:
  assumes "inv s" "fresh n s" "put n d s = Some s'" "contents s = Some ds" "distinct ds" "d \<notin> set ds"
  shows "\<exists>ds'. contents s' = Some ds' \<and> distinct ds' \<and> set ds' = insert d (set ds)"
proof -
  obtain ds' where ds': "contents s' = Some ds'" "mset ds' = mset (d # ds)" using contents_put [OF assms(1-4)] by auto
  moreover have "distinct ds'" using mset_eq_imp_distinct_iff [OF ds'(2)] assms(5,6) by simp
  moreover have "set ds' = set (d # ds)" by (rule mset_eq_setD [OF ds'(2)])
  ultimately show ?thesis by auto
qed

end

lemma hash_fresh_iff:
  assumes "hash_rep h css"
  shows "hash_fresh n h \<longleftrightarrow> (\<forall>cs\<in>set css. n \<notin> fst ` set cs)"
proof -
  have "(\<forall>x. b = Some x \<longrightarrow> nodes x n = None) \<longleftrightarrow> n \<notin> fst ` set cs" if "bucket_rep b cs" for b cs
    using that by (cases b) (auto simp: list_rep_def domIff [symmetric])
  then show ?thesis
    using assms unfolding hash_fresh_def hash_rep_def list_all2_conv_all_nth all_set_conv_all_nth by metis
qed

lemma hash_bucket_cong:
  "hashfunc h' = hashfunc h \<Longrightarrow> numbuckets h' = numbuckets h \<Longrightarrow> hash_bucket h' = hash_bucket h"
  by (simp add: hash_bucket_def fun_eq_iff)

lemma hash_lookup_rep:
  assumes "hash_rep h css" "hash_bucket h k = Some (int i)" "i < length css"
  shows "hash_lookup f k h = Some (map_option snd (find (\<lambda>c. f k (snd c) \<noteq> 0) (css ! i)))"
proof -
  obtain b where b: "table_at h (int i) = Some b" "bucket_rep b (css ! i)" using hash_rep_at [OF assms(1,3)] by auto
  show ?thesis
  proof (cases b)
    case None
    then show ?thesis
      using b assms(2) by (simp add: hash_lookup_def libtar_hash_getkey_def libtar_hashptr_reset_def Let_def)
  next
    case (Some l)
    then have s: "libtar_list_search f l None k (Some f) =
        (case find (\<lambda>c. f k (snd c) \<noteq> 0) (css ! i) of None \<Rightarrow> Some (0, None) | Some c \<Rightarrow> Some (1, Some (fst c)))"
      using libtar_list_search_rep(1) [of l "css ! i" f k f] b(2) by simp
    show ?thesis
    proof (cases "find (\<lambda>c. f k (snd c) \<noteq> 0) (css ! i)")
      case None
      then show ?thesis
        using b(1) Some s assms(2)
        by (simp add: hash_lookup_def libtar_hash_getkey_def libtar_hashptr_reset_def libtar_listptr_reset_def Let_def)
    next
      case found: (Some c)
      then obtain as bs where "css ! i = as @ (fst c, snd c) # bs"
        using find_split [OF found] by auto
      then have "libtar_hashptr_data h \<lparr>hp_bucket = int i, hp_node = Some (fst c)\<rparr> = Some (snd c)"
        using hashptr_data_cell [OF assms(1,3)] by simp
      then show ?thesis
        using b(1) Some s found assms(2)
        by (simp add: hash_lookup_def libtar_hash_getkey_def libtar_hashptr_reset_def libtar_listptr_reset_def Let_def)
    qed
  qed
qed

lemma hash_put_rep:
  assumes "hash_rep h css" "hash_placed h css" "hash_compatible f h" "hash_fresh n h"
  shows "\<exists>h' j. hash_put sc junk n d h = Some h' \<and> hash_bucket h d = Some (int j) \<and> j < length css \<and>
     hash_rep h' (css[j := css ! j @ [(n, d)]]) \<and> hash_placed h' (css[j := css ! j @ [(n, d)]]) \<and>
     hash_compatible f h' \<and> hash_bucket h' = hash_bucket h"
proof -
  obtain j where j: "hash_bucket h d = Some (int j)" "j < length css"
    using hash_bucket_ok [OF assms(1), of d] assms(3) unfolding hash_compatible_def by blast
  have "n \<notin> fst ` set (css ! j)" using assms(4) hash_fresh_iff [OF assms(1)] j(2) by auto
  then obtain h' where h': "libtar_hash_add sc True (Some n) junk h d = Some (0, h')"
      "hash_rep h' (css[j := css ! j @ [(n, d)]])" "hashfunc h' = hashfunc h"
    using libtar_hash_add_rep [OF assms(1) j] by blast
  have num: "numbuckets h' = numbuckets h" using assms(1) h'(2) by (simp add: hash_rep_def)
  have b: "hash_bucket h' = hash_bucket h" by (rule hash_bucket_cong [OF h'(3) num])
  have "hash_placed h' (css[j := css ! j @ [(n, d)]])"
    using assms(2) j by (auto simp: hash_placed_def b nth_list_update)
  moreover have "hash_compatible f h'"
    using assms(3) by (simp add: hash_compatible_def hashfunc_ok_def h'(3) num)
  ultimately show ?thesis using h' j b by (auto simp: hash_put_def)
qed

interpretation hash_store: first_match_store "hash_inv f" "hash_put sc junk" "hash_lookup f" hash_fresh "\<lambda>k d. f k d \<noteq> 0"
  for f :: "'a \<Rightarrow> 'a \<Rightarrow> int" and sc junk
proof
  fix h :: "'a libtar_hash" and n d
  assume "hash_inv f h" "hash_fresh n h"
  then show "\<exists>h'. hash_put sc junk n d h = Some h' \<and> hash_inv f h'"
    using hash_put_rep [of h _ f n sc junk d] unfolding hash_inv_def by blast
next
  fix h :: "'a libtar_hash" and k
  assume "hash_inv f h"
  then show "\<exists>r. hash_lookup f k h = Some r"
    using hash_lookup_rep [of h _ k _ f] hash_bucket_ok [of h _ k] unfolding hash_inv_def hash_compatible_def by blast
next
  fix h h' :: "'a libtar_hash" and n d k r
  assume inv: "hash_inv f h" and fresh: "hash_fresh n h" and put: "hash_put sc junk n d h = Some h'"
    and look: "hash_lookup f k h = Some r"
  then obtain css j where css: "hash_rep h css" "hash_compatible f h" and j: "hash_bucket h d = Some (int j)" "j < length css"
    and h': "hash_rep h' (css[j := css ! j @ [(n, d)]])" "hash_bucket h' = hash_bucket h"
    using hash_put_rep [of h _ f n sc junk d] unfolding hash_inv_def by force
  obtain i where i: "hash_bucket h k = Some (int i)" "i < length css"
    using hash_bucket_ok [OF css(1), of k] css(2) unfolding hash_compatible_def by blast
  have r: "r = map_option snd (find (\<lambda>c. f k (snd c) \<noteq> 0) (css ! i))"
    using hash_lookup_rep [OF css(1) i] look by simp
  have look': "hash_lookup f k h' = Some (map_option snd (find (\<lambda>c. f k (snd c) \<noteq> 0) (css[j := css ! j @ [(n, d)]] ! i)))"
    using hash_lookup_rep [OF h'(1), of k i f] i h'(2) by simp
  show "hash_lookup f k h' = Some (case r of Some x \<Rightarrow> Some x | None \<Rightarrow> if f k d \<noteq> 0 then Some d else None)"
  proof (cases "i = j")
    case True
    then show ?thesis
      using look' r j(2) by (auto simp: find_append split: option.splits)
  next
    case False
    have "hash_bucket h k = hash_bucket h d" if "f k d \<noteq> 0"
      using css(2) that by (simp add: hash_compatible_def hash_bucket_def)
    then have "f k d = 0" using False i(1) j(1) by auto
    then show ?thesis using look' r False by (auto split: option.splits)
  qed
next
  fix h h' :: "'a libtar_hash" and n m d
  assume "hash_inv f h" "hash_fresh n h" "hash_fresh m h" "m \<noteq> n" "hash_put sc junk n d h = Some h'"
  then obtain css j where css: "hash_rep h css" and j: "j < length css"
    and h': "hash_rep h' (css[j := css ! j @ [(n, d)]])"
    using hash_put_rep [of h _ f n sc junk d] unfolding hash_inv_def by force
  have "m \<notin> fst ` set cs" if "cs \<in> set (css[j := css ! j @ [(n, d)]])" for cs
  proof -
    have "cs = css ! j @ [(n, d)] \<or> cs \<in> set css"
      using that set_update_subset_insert [of css j "css ! j @ [(n, d)]"] by blast
    moreover have all: "m \<notin> fst ` set cs'" if "cs' \<in> set css" for cs'
      using hash_fresh_iff [OF css] \<open>hash_fresh m h\<close> that by blast
    moreover have "m \<notin> fst ` set (css ! j @ [(n, d)])"
      using all [OF nth_mem [OF j]] \<open>m \<noteq> n\<close> by simp
    ultimately show ?thesis by blast
  qed
  then show "hash_fresh m h'" using hash_fresh_iff [OF h'] by blast
qed

lemma mset_concat_update:
  "i < length css \<Longrightarrow> mset (concat (css[i := css ! i @ xs])) = mset (concat css) + mset xs"
  by (subst (2) id_take_nth_drop [of i css]) (simp_all add: upd_conv_take_nth_drop)

interpretation hash_listed: listed_store "hash_inv f" "hash_put sc junk" "hash_lookup f" hash_fresh "\<lambda>k d. f k d \<noteq> 0" libtar_hash_free
  for f :: "'a \<Rightarrow> 'a \<Rightarrow> int" and sc junk
proof
  fix h :: "'a libtar_hash"
  assume "hash_inv f h"
  then show "\<exists>ds. libtar_hash_free h = Some ds" using libtar_hash_empty_rep unfolding hash_inv_def by blast
next
  fix h h' :: "'a libtar_hash" and n d ds
  assume "hash_inv f h" "hash_fresh n h" "hash_put sc junk n d h = Some h'" and ds: "libtar_hash_free h = Some ds"
  then obtain css j where css: "hash_rep h css" and j: "j < length css" and h': "hash_rep h' (css[j := css ! j @ [(n, d)]])"
    using hash_put_rep [of h _ f n sc junk d] unfolding hash_inv_def by force
  have "ds = map snd (concat css)" "libtar_hash_free h' = Some (map snd (concat (css[j := css ! j @ [(n, d)]])))"
    using libtar_hash_empty_rep [OF css] libtar_hash_empty_rep [OF h'] ds by auto
  moreover have "mset (map snd (concat (css[j := css ! j @ [(n, d)]]))) = add_mset d (mset (map snd (concat css)))"
    using mset_concat_update [OF j, of "[(n, d)]"] unfolding mset_map by simp
  ultimately show "\<exists>ds'. libtar_hash_free h' = Some ds' \<and> mset ds' = add_mset d (mset ds)" by metis
qed

section \<open>Properties of the hash tables\<close>

lemma libtar_hash_new_inv:
  assumes "0 < num" "num < 2 ^ 31" "libtar_hash_new shc True True num (Some hf) = Some h"
    and "\<forall>d. \<exists>u. hf d (word_of_int num) = Some u \<and> unat u < nat num"
    and "\<forall>k d n. f k d \<noteq> 0 \<longrightarrow> hf k n = hf d n"
  shows "hash_inv f h \<and> (\<forall>n. hash_fresh n h) \<and> hash_lookup f k h = Some None"
proof -
  have h: "h = \<lparr>numbuckets = num, table = replicate (nat num) None, hashfunc = hf, hash_nents = 0\<rparr>"
    using assms(3) by (simp add: libtar_hash_new_def)
  have empty: "concat (replicate m []) = []" for m by (induction m) simp_all
  have rep: "hash_rep h (replicate (nat num) [])"
    using assms(1,2) by (simp add: hash_rep_def h empty list_all2_conv_all_nth nat_less_iff)
  have ok: "hash_compatible f h" using assms(4,5) by (simp add: hash_compatible_def hashfunc_ok_def h)
  have "hash_placed h (replicate (nat num) [])" by (simp add: hash_placed_def)
  then have "hash_inv f h" using rep ok by (auto simp: hash_inv_def)
  moreover have "hash_fresh n h" for n by (simp add: hash_fresh_def h)
  moreover have "hash_lookup f k h = Some None"
    using hash_bucket_ok [OF rep, of k] ok hash_lookup_rep [OF rep, of k _ f] by (auto simp: hash_compatible_def)
  ultimately show ?thesis by blast
qed

text \<open>C11. A table filled from empty by successive insertions (any data, any hash function that
  stays in range and sends matching keys and data to the same bucket): looking up a key finds
  the first inserted datum the match function accepts, or nothing if there is none.\<close>

theorem libtar_hash_lookup_first:
  assumes "0 < num" "num < 2 ^ 31" "libtar_hash_new shc True True num (Some hf) = Some h"
    and "\<forall>d. \<exists>u. hf d (word_of_int num) = Some u \<and> unat u < nat num"
    and "\<forall>k d n. f k d \<noteq> 0 \<longrightarrow> hf k n = hf d n"
    and "distinct (map fst xs)"
  shows "\<exists>h'. put_all (hash_put sc junk) xs h = Some h' \<and> hash_inv f h' \<and>
     hash_lookup f k h' = Some (find (\<lambda>d. f k d \<noteq> 0) (map snd xs))"
  using hash_store.put_all_lookup [of f h xs k None sc junk] libtar_hash_new_inv [OF assms(1-5), of k] assms(6)
  by simp

theorem libtar_hash_lookup_first_witness:
  "\<exists>h'. put_all (hash_put (\<lambda>_ _. 0) None) [(1, 5), (2, 8), (3, 5)]
      (the (libtar_hash_new (\<lambda>_ _. None) True True 4 (Some (\<lambda>d n. Some (if even d then 0 else 1))))) = Some h' \<and>
     hash_lookup (\<lambda>k d. if k = d then 1 else 0) (8::int) h' = Some (Some 8)"
proof -
  have new: "libtar_hash_new (\<lambda>_ _. None) True True 4 (Some (\<lambda>d n. Some (if even d then 0 else 1))) =
      Some (the (libtar_hash_new (\<lambda>_ _. None) True True 4 (Some (\<lambda>d n. Some (if even (d::int) then 0 else 1)))))"
    by (simp add: libtar_hash_new_def)
  have "\<exists>h'. put_all (hash_put (\<lambda>_ _. 0) None) [(1, 5), (2, 8), (3, 5)]
      (the (libtar_hash_new (\<lambda>_ _. None) True True 4 (Some (\<lambda>d n. Some (if even d then 0 else 1))))) = Some h' \<and>
     hash_inv (\<lambda>k d. if k = d then 1 else 0) h' \<and>
     hash_lookup (\<lambda>k d. if k = d then 1 else 0) (8::int) h' =
       Some (find (\<lambda>d. (if 8 = d then 1 else 0 :: int) \<noteq> 0) (map snd [(1::nat, 5), (2, 8), (3, 5)]))"
    by (rule libtar_hash_lookup_first [OF _ _ new]) simp_all
  then show ?thesis by (simp only: list.map snd_conv find.simps) auto
qed

text \<open>Iterating with \<open>libtar_hash_search\<close> from a reset pointer visits every entry of the
  table, bucket by bucket, and stops at the first one that matches; when none does it returns 0
  and the pointer is reset.\<close>

theorem libtar_hash_search_all:
  assumes "hash_rep h css"
  shows "libtar_hash_search h libtar_hashptr_reset k f =
     Some (next_result (dropWhile (\<lambda>c. f k (snd (snd c)) = 0) (located 0 css)))"
  by (rule libtar_hash_search_rep [OF assms]) (simp add: stands_before_def)

definition sample_hash :: "int libtar_hash" where
  "sample_hash = \<lparr>numbuckets = 2, table = [None, Some (sample_list\<lparr>list_flags := LIST_QUEUE\<rparr>)],
     hashfunc = (\<lambda>_ _. Some 1), hash_nents = 2\<rparr>"

lemma sample_hash_rep: "hash_rep sample_hash [[], [(1, 10), (2, 30)]]"
  using sample_list_rep by (simp add: hash_rep_def sample_hash_def list_rep_def)

theorem libtar_hash_search_all_witness:
  "libtar_hash_search sample_hash libtar_hashptr_reset 30 (\<lambda>x y. if x = y then 1 else 0) =
     Some (1, \<lparr>hp_bucket = 1, hp_node = Some 2\<rparr>)"
  using libtar_hash_search_all [OF sample_hash_rep] by (simp add: next_result_def)

text \<open>Deleting an entry through its pointer removes exactly that entry and keeps the table
  and its count consistent; emptying the table hands every datum to the free function exactly
  once and leaves an empty table.\<close>

theorem libtar_hash_del_empty:
  assumes "hash_rep h css" "i < length css" "css ! i = as @ (p, d) # bs"
  shows "(\<exists>h'. libtar_hash_del h \<lparr>hp_bucket = int i, hp_node = Some p\<rparr> =
       Some (0, h', \<lparr>hp_bucket = int i, hp_node = hd_opt (map fst bs) None\<rparr>) \<and>
     hash_rep h' (css[i := as @ bs])) \<and>
   (\<exists>h'. libtar_hash_empty h = Some (h', map snd (concat css)) \<and> hash_rep h' (replicate (length css) []))"
  using libtar_hash_del_rep [OF assms] libtar_hash_empty_rep [OF assms(1)] by blast

theorem libtar_hash_del_empty_witness:
  "\<exists>h'. libtar_hash_del sample_hash \<lparr>hp_bucket = 1, hp_node = Some 1\<rparr> =
       Some (0, h', \<lparr>hp_bucket = 1, hp_node = Some 2\<rparr>) \<and> hash_rep h' [[], [(2, 30)]]"
  using libtar_hash_del_empty [OF sample_hash_rep, of 1 "[]" 1 10 "[(2, 30)]"] by simp

end
