(* ===== verification/Par_Archive.thy ===== *)
theory Par_Archive
  imports Par_Block Libtar_Hash
begin

text \<open>
  \<open>par/append.c\<close>, \<open>par/extract.c\<close>, \<open>par/wrapper.c\<close> and \<open>par/handle.c\<close>: the contents of regular
  files, extraction to the file system, opening and closing archives. The calls of the operating
  system are recorded in the order they are made; their results are a schedule (exhausted: the calls
  succeed), a negative number standing for \<open>-1\<close> with that \<open>errno\<close>. The schedule of allocations
  delivers addresses (exhausted: out of memory).
\<close>

section \<open>The contents of a regular file\<close>

text \<open>\<open>read\<close> on the input file: an outcome delivers its bytes in pieces.\<close>

definition file_read :: "nat \<Rightarrow> read_outcome list \<Rightarrow> int \<times> char list \<times> read_outcome list" where
  "file_read n rs =
     (case rs of [] \<Rightarrow> (0, [], [])
      | ReadError # r \<Rightarrow> (- 1, [], r)
      | ReadData bs # r \<Rightarrow>
          (int (length (take n bs)), take n bs, if n < length bs then ReadData (drop n bs) # r else r))"

text \<open>
  \<open>for (i = size; i > T_BLOCKSIZE; i -= T_BLOCKSIZE)\<close>: the value of \<open>i\<close> at the end, or a failure.
  Only \<open>-1\<close> counts as a failed write.
\<close>

function append_loop :: "int \<Rightarrow> char list \<Rightarrow> read_outcome list \<Rightarrow> dev \<Rightarrow> bool \<times> int \<times> char list \<times> read_outcome list \<times> dev" where
  "append_loop i block file d =
     (if i > int T_BLOCKSIZE then
        case file_read T_BLOCKSIZE file of
          (j, bs, file) \<Rightarrow>
            let block = overwrite block bs in
            if j \<noteq> int T_BLOCKSIZE then (False, i, block, file, d)
            else case par_block_write d block of
              (w, d) \<Rightarrow> if w = - 1 then (False, i, block, file, d) else append_loop (i - int T_BLOCKSIZE) block file d
      else (True, i, block, file, d))"
  by pat_completeness auto
termination by (relation "measure (\<lambda>(i, _). nat i)") (auto simp: T_BLOCKSIZE_def)

declare append_loop.simps [simp del]

text \<open>What follows the loop: the last block; the number of bytes in the last read is not looked at.\<close>

definition append_last :: "bool \<times> int \<times> char list \<times> read_outcome list \<times> dev \<Rightarrow> int \<times> dev" where
  "append_last st =
     (case st of (ok, i, block, file, d) \<Rightarrow>
        if \<not> ok then (- 1, d)
        else if i > 0 then
          case file_read (nat i) file of
            (j, bs, file) \<Rightarrow>
              if j = - 1 then (- 1, d)
              else let block = take (nat i) (overwrite block bs) @ replicate (T_BLOCKSIZE - nat i) nul in
                case par_block_write d block of (w, d) \<Rightarrow> if w = - 1 then (- 1, d) else (0, d)
        else (0, d))"

text \<open>
  \<open>block\<close> is the uninitialised local array and \<open>file\<close> the input file, unless opening it fails. The
  size is converted to \<open>int\<close>.
\<close>

definition par_append_regfile :: "char list \<Rightarrow> read_outcome list option \<Rightarrow> par \<Rightarrow> dev \<Rightarrow> int \<times> dev" where
  "par_append_regfile block file t d =
     (case file of None \<Rightarrow> (- 1, d)
      | Some file \<Rightarrow> append_last (append_loop (to_int (uint (th_get_size (th_buf t)))) block file d))"

text \<open>\<open>par_append_eof\<close>: two zero blocks.\<close>

definition par_append_eof :: "dev \<Rightarrow> int \<times> dev" where
  "par_append_eof d =
     (case par_block_write d (replicate T_BLOCKSIZE nul) of
        (i, d) \<Rightarrow>
          if i \<noteq> int T_BLOCKSIZE then (- 1, d)
          else case par_block_write d (replicate T_BLOCKSIZE nul) of
            (i, d) \<Rightarrow> if i \<noteq> int T_BLOCKSIZE then (- 1, d) else (0, d))"

section \<open>The operating system\<close>

datatype syscall =
    Mkdir string
  | OpenW string
  | Write string
  | Close
  | Chown string u32 u32
  | Utime string int
  | Chmod string u32
  | Link string string
  | Symlink string string
  | Unlink string
  | Lstat string
  | Open string int int
  | Fchmod int int
  | Gzdopen int string
  | Gzclose nat
  | CloseFd int
  | Lseek int
  | WriteFd int string

record os =
  calls :: "syscall list"
  results :: "int list"
  allocs :: "addr list"

definition sys :: "syscall \<Rightarrow> os \<Rightarrow> int \<times> os" where
  "sys c w =
     (case results w of [] \<Rightarrow> (0, w\<lparr>calls := calls w @ [c]\<rparr>)
      | r # rs \<Rightarrow> (r, w\<lparr>calls := calls w @ [c], results := rs\<rparr>))"

text \<open>\<open>write\<close> may write less than it was asked to; the record holds what went out.\<close>

definition sys_write :: "string \<Rightarrow> os \<Rightarrow> int \<times> os" where
  "sys_write s w =
     (case results w of [] \<Rightarrow> (int (length s), w\<lparr>calls := calls w @ [Write s]\<rparr>)
      | r # rs \<Rightarrow>
          if r < 0 then (- 1, w\<lparr>calls := calls w @ [Write []], results := rs\<rparr>)
          else (int (min (nat r) (length s)), w\<lparr>calls := calls w @ [Write (take (nat r) s)], results := rs\<rparr>))"

definition os_alloc :: "os \<Rightarrow> addr option \<times> os" where
  "os_alloc w = (case allocs w of [] \<Rightarrow> (None, w) | a # as \<Rightarrow> (Some a, w\<lparr>allocs := as\<rparr>))"

text \<open>
  \<open>libtar_hash_add\<close> with two allocations from the schedule: the list of an empty bucket (drawn for
  every insertion) and the node.
\<close>

definition hash_add_os :: "'a libtar_hash \<Rightarrow> 'a \<Rightarrow> os \<Rightarrow> (int \<times> 'a libtar_hash \<times> os) option" where
  "hash_add_os h x w =
     (case os_alloc w of (list_ok, w) \<Rightarrow> case os_alloc w of (node, w) \<Rightarrow>
        map_option (\<lambda>(r, h). (r, h, w)) (libtar_hash_add (\<lambda>_ _. 0) (list_ok \<noteq> None) node None h x))"

definition sys_mkdir :: "string \<Rightarrow> os \<Rightarrow> (int \<times> int) \<times> os" where
  "sys_mkdir path w = (case sys (Mkdir path) w of (r, w) \<Rightarrow> (if r < 0 then (- 1, - r) else (0, 0), w))"

text \<open>The loops of \<open>par_extract_regfile\<close> and \<open>par_skip_regfile\<close>; \<open>buf\<close> is the local array.\<close>

function extract_loop :: "int \<Rightarrow> char list \<Rightarrow> dev \<Rightarrow> os \<Rightarrow> bool \<times> dev \<times> os" where
  "extract_loop i buf d w =
     (if i > 0 then
        case par_block_read d of
          (k, bs, d) \<Rightarrow>
            let buf = overwrite buf bs in
            if k \<noteq> int T_BLOCKSIZE then (False, d, snd (sys Close w))
            else case sys_write (take (if i > int T_BLOCKSIZE then T_BLOCKSIZE else nat i) buf) w of
              (r, w) \<Rightarrow> if r = - 1 then (False, d, snd (sys Close w)) else extract_loop (i - int T_BLOCKSIZE) buf d w
      else (True, d, w))"
  by pat_completeness auto
termination by (relation "measure (\<lambda>(i, _). nat i)") (auto simp: T_BLOCKSIZE_def)

declare extract_loop.simps [simp del]

function skip_loop :: "int \<Rightarrow> dev \<Rightarrow> bool \<times> dev" where
  "skip_loop i d =
     (if i > 0 then
        case par_block_read d of
          (k, bs, d) \<Rightarrow> if k \<noteq> int T_BLOCKSIZE then (False, d) else skip_loop (i - int T_BLOCKSIZE) d
      else (True, d))"
  by pat_completeness auto
termination by (relation "measure (\<lambda>(i, _). nat i)") (auto simp: T_BLOCKSIZE_def)

declare skip_loop.simps [simp del]

definition par_skip_regfile :: "par \<Rightarrow> dev \<Rightarrow> int \<times> dev" where
  "par_skip_regfile t d =
     (if \<not> TH_ISREG (th_buf t) then (- 1, d)
      else case skip_loop (sint (th_get_size (th_buf t))) d of (ok, d) \<Rightarrow> (if ok then 0 else - 1, d))"

section \<open>Extraction\<close>

text \<open>
  What extraction depends on: the user data bases, whether the process is privileged, the library's
  \<open>dirname\<close> (its result and what it leaves of its argument, which it may modify), the contents of
  uninitialised arrays, and the addresses for long names.
\<close>

record penv =
  getpwnam :: "string \<Rightarrow> u32 option"
  getgrnam :: "string \<Rightarrow> u32 option"
  junk_id :: u32
  root :: bool
  dirname :: "string \<Rightarrow> string \<times> string"
  mkdir_buf :: "char list"
  block_buf :: "char list"
  malloc_ok :: bool
  mal_link :: u64
  mal_name :: u64
  junk_char :: char

record par_io =
  io_par :: par
  io_dev :: dev
  io_hash :: "char list libtar_hash"

definition PAR_NOOVERWRITE :: int where "PAR_NOOVERWRITE = 4"

definition ENOENT :: int where "ENOENT = 2"

definition par_set_file_perms :: "penv \<Rightarrow> string \<Rightarrow> par \<Rightarrow> os \<Rightarrow> int \<times> os" where
  "par_set_file_perms env filename t w =
     (let h = th_buf t; mode = th_get_mode h; uid = th_get_uid (getpwnam env) (junk_id env) h;
          gid = th_get_gid (getgrnam env) (junk_id env) h; mtime = th_get_mtime h
      in if TH_ISSYM h then (0, w)
         else case (if root env then sys (Chown filename uid gid) w else (0, w)) of
           (r, w) \<Rightarrow>
             if r < 0 then (- 1, w)
             else case sys (Utime filename mtime) w of
               (r, w) \<Rightarrow>
                 if r < 0 then (- 1, w)
                 else case sys (Chmod filename mode) w of (r, w) \<Rightarrow> (if r < 0 then - 1 else 0, w))"

definition par_extract_regfile :: "penv \<Rightarrow> string \<Rightarrow> par \<Rightarrow> dev \<Rightarrow> os \<Rightarrow> (int \<times> dev \<times> os) option" where
  "par_extract_regfile env filename t d w =
     (if \<not> TH_ISREG (th_buf t) then Some (- 1, d, w)
      else do {
        dir \<leftarrow> compat_cdirname (Some filename);
        dir \<leftarrow> dir;
        (r, w) \<leftarrow> mkdirhier sys_mkdir (mkdir_buf env) dir w;
        if r = - 1 then Some (- 1, d, w)
        else case sys (OpenW filename) w of
          (r, w) \<Rightarrow>
            if r < 0 then Some (- 1, d, w)
            else case extract_loop (sint (th_get_size (th_buf t))) (block_buf env) d w of
              (ok, d, w) \<Rightarrow>
                if \<not> ok then Some (- 1, d, w)
                else case sys Close w of (r, w) \<Rightarrow> Some (if r < 0 then - 1 else 0, d, w)
      })"

text \<open>The link name runs on behind its field when that is not terminated.\<close>

definition th_get_linkname :: "par \<Rightarrow> string option" where
  "th_get_linkname t =
     (if gnu_longlink (th_buf t) \<noteq> 0 then str_at t (gnu_longlink (th_buf t))
      else let s = drop 157 (block_of (th_buf t)) in if nul \<in> set s then Some (cstr s) else None)"

text \<open>
  The entries of the table are pairs of names, each terminated. The routines below also return the
  name as \<open>dirname\<close> leaves it.
\<close>

definition entry_match :: "char list \<Rightarrow> char list \<Rightarrow> int" where
  "entry_match k e = libtar_str_match (cstr k) (cstr e)"

definition par_extract_hardlink :: "penv \<Rightarrow> string \<Rightarrow> par_io \<Rightarrow> os \<Rightarrow> (int \<times> string \<times> os) option" where
  "par_extract_hardlink env filename io w =
     (if \<not> TH_ISLNK (th_buf (io_par io)) then Some (- 1, filename, w)
      else case dirname env filename of
        (dir, filename) \<Rightarrow> do {
          (r, w) \<leftarrow> mkdirhier sys_mkdir (mkdir_buf env) dir w;
          if r = - 1 then Some (- 1, filename, w)
          else do {
            ln \<leftarrow> th_get_linkname (io_par io);
            let key = safer_name_suffix ln;
            (found, hp) \<leftarrow> libtar_hash_getkey entry_match (io_hash io) libtar_hashptr_reset (key @ [nul]) (Some entry_match);
            linktgt \<leftarrow> (if found \<noteq> 0
              then map_option (\<lambda>lnp. cstr (drop (length (cstr lnp) + 1) lnp)) (libtar_hashptr_data (io_hash io) hp)
              else Some key);
            (case sys (Link linktgt filename) w of (r, w) \<Rightarrow> Some (if r < 0 then - 1 else 0, filename, w))
          }
        })"

definition par_extract_symlink :: "penv \<Rightarrow> string \<Rightarrow> par \<Rightarrow> os \<Rightarrow> (int \<times> string \<times> os) option" where
  "par_extract_symlink env filename t w =
     (if \<not> TH_ISSYM (th_buf t) then Some (- 1, filename, w)
      else case dirname env filename of
        (dir, filename) \<Rightarrow> do {
          (r, w) \<leftarrow> mkdirhier sys_mkdir (mkdir_buf env) dir w;
          if r = - 1 then Some (- 1, filename, w)
          else case sys (Unlink filename) w of
            (r, w) \<Rightarrow>
              if r < 0 \<and> r \<noteq> - ENOENT then Some (- 1, filename, w)
              else do {
                ln \<leftarrow> th_get_linkname t;
                (case sys (Symlink (safer_name_suffix ln) filename) w of (r, w) \<Rightarrow> Some (if r < 0 then - 1 else 0, filename, w))
              }
        })"

definition par_extract_dir :: "penv \<Rightarrow> string \<Rightarrow> par \<Rightarrow> os \<Rightarrow> (int \<times> string \<times> os) option" where
  "par_extract_dir env filename t w =
     (if \<not> TH_ISDIR (th_buf t) then Some (- 1, filename, w)
      else
        let mode = th_get_mode (th_buf t) in
        case dirname env filename of
          (dir, filename) \<Rightarrow> do {
            (r, w) \<leftarrow> mkdirhier sys_mkdir (mkdir_buf env) dir w;
            if r = - 1 then Some (- 1, filename, w)
            else case sys (Mkdir filename) w of
              (r, w) \<Rightarrow>
                if r < 0 then
                  if r = - EEXIST
                  then case sys (Chmod filename mode) w of (r, w) \<Rightarrow> Some (if r < 0 then - 1 else 1, filename, w)
                  else Some (- 1, filename, w)
                else Some (0, filename, w)
          })"

text \<open>Three allocations per file: the pair of names and those of \<open>hash_add_os\<close>.\<close>

definition par_extract_file :: "penv \<Rightarrow> string \<Rightarrow> par_io \<Rightarrow> os \<Rightarrow> (int \<times> par_io \<times> os) option" where
  "par_extract_file env realname io w =
     (let t = io_par io; h = th_buf t in
      case (if par_options t AND PAR_NOOVERWRITE \<noteq> 0 then sys (Lstat realname) w else (- ENOENT, w)) of
        (r, w) \<Rightarrow>
          if r \<noteq> - ENOENT then Some (- 1, io, w)
          else do {
            (i, realname, d, w) \<leftarrow>
              (if TH_ISDIR h then do {
                 (i, realname, w) \<leftarrow> par_extract_dir env realname t w;
                 Some (if i = 1 then 0 else i, realname, io_dev io, w)
               }
               else if TH_ISLNK h then do { (i, realname, w) \<leftarrow> par_extract_hardlink env realname io w; Some (i, realname, io_dev io, w) }
               else if TH_ISSYM h then do { (i, realname, w) \<leftarrow> par_extract_symlink env realname t w; Some (i, realname, io_dev io, w) }
               else do { (i, d, w) \<leftarrow> par_extract_regfile env realname t (io_dev io) w; Some (i, realname, d, w) });
            let io = io\<lparr>io_dev := d\<rparr>;
            if i \<noteq> 0 then Some (i, io, w)
            else case par_set_file_perms env realname t w of
              (i, w) \<Rightarrow>
                if i \<noteq> 0 then Some (i, io, w)
                else do {
                  (name, t) \<leftarrow> th_get_pathname (malloc_ok env) t;
                  name \<leftarrow> name;
                  let io = io\<lparr>io_par := t\<rparr>;
                  (case os_alloc w of
                     (None, w) \<Rightarrow> Some (- 1, io, w)
                   | (Some _, w) \<Rightarrow> do {
                       (r, hash, w) \<leftarrow> hash_add_os (io_hash io) (name @ [nul] @ realname @ [nul]) w;
                       Some (if r \<noteq> 0 then - 1 else 0, io\<lparr>io_hash := hash\<rparr>, w)
                     })
                }
          })"

section \<open>Whole archives\<close>

text \<open>The name under which an entry is extracted: \<open>snprintf\<close> or \<open>strlcpy\<close> into a local array.\<close>

definition target_name :: "string option \<Rightarrow> string \<Rightarrow> string" where
  "target_name prefix filename =
     take (MAXPATHLEN - 1) (case prefix of Some p \<Rightarrow> p @ ''/'' @ filename | None \<Rightarrow> filename)"

text \<open>The listing for the verbose option only prints.\<close>

partial_function (option) par_extract_all :: "penv \<Rightarrow> string option \<Rightarrow> par_io \<Rightarrow> os \<Rightarrow> (int \<times> par_io \<times> os) option" where
  "par_extract_all env prefix io w =
     Option.bind (th_read (mal_link env) (mal_name env) (junk_char env) (io_par io) (io_dev io)) (\<lambda>(i, t, d).
       let io = io\<lparr>io_par := t, io_dev := d\<rparr> in
       if i \<noteq> 0 then Some (if i = 1 then 0 else - 1, io, w)
       else Option.bind (th_get_pathname (malloc_ok env) t) (\<lambda>(filename, t).
         Option.bind filename (\<lambda>filename.
           Option.bind (par_extract_file env (target_name prefix filename) (io\<lparr>io_par := t\<rparr>) w) (\<lambda>(r, io, w).
             if r \<noteq> 0 then Some (- 1, io, w) else par_extract_all env prefix io w))))"

text \<open>\<open>fnm\<close> is \<open>fnmatch\<close> with the flags \<open>FNM_PATHNAME | FNM_PERIOD\<close>.\<close>

partial_function (option) par_extract_glob ::
  "penv \<Rightarrow> (string \<Rightarrow> string \<Rightarrow> int) \<Rightarrow> string \<Rightarrow> string option \<Rightarrow> par_io \<Rightarrow> os \<Rightarrow> (int \<times> par_io \<times> os) option" where
  "par_extract_glob env fnm globname prefix io w =
     Option.bind (th_read (mal_link env) (mal_name env) (junk_char env) (io_par io) (io_dev io)) (\<lambda>(i, t, d).
       let io = io\<lparr>io_par := t, io_dev := d\<rparr> in
       if i \<noteq> 0 then Some (if i = 1 then 0 else - 1, io, w)
       else Option.bind (th_get_pathname (malloc_ok env) t) (\<lambda>(filename, t).
         Option.bind filename (\<lambda>filename.
           let io = io\<lparr>io_par := t\<rparr> in
           if fnm globname filename \<noteq> 0 then
             if TH_ISREG (th_buf t)
             then (case par_skip_regfile t d of
                     (r, d) \<Rightarrow> if r \<noteq> 0 then Some (- 1, io\<lparr>io_dev := d\<rparr>, w)
                              else par_extract_glob env fnm globname prefix (io\<lparr>io_dev := d\<rparr>) w)
             else par_extract_glob env fnm globname prefix io w
           else Option.bind (par_extract_file env (target_name prefix filename) io w) (\<lambda>(r, io, w).
             if r \<noteq> 0 then Some (- 1, io, w) else par_extract_glob env fnm globname prefix io w))))"

section \<open>Contents as blocks\<close>

function chop :: "'a list \<Rightarrow> 'a list list" where
  "chop s = (if s = [] then [] else take T_BLOCKSIZE s # chop (drop T_BLOCKSIZE s))"
  by pat_completeness auto
termination by (relation "measure length") (auto simp: T_BLOCKSIZE_def)

declare chop.simps [simp del]

definition padded :: "string \<Rightarrow> string" where
  "padded s = s @ replicate ((T_BLOCKSIZE - length s mod T_BLOCKSIZE) mod T_BLOCKSIZE) nul"

lemma padded_step: "T_BLOCKSIZE \<le> length s \<Longrightarrow> padded s = take T_BLOCKSIZE s @ padded (drop T_BLOCKSIZE s)"
  by (simp add: padded_def le_mod_geq)

lemma padded_short: "0 < length s \<Longrightarrow> length s \<le> T_BLOCKSIZE \<Longrightarrow> padded s = s @ replicate (T_BLOCKSIZE - length s) nul"
  by (cases "length s = T_BLOCKSIZE") (simp_all add: padded_def)

lemma padded_Nil [simp]: "padded [] = []"
  by (simp add: padded_def)

lemma append_content:
  assumes "length block = T_BLOCKSIZE" "wouts d = []"
  shows "append_last (append_loop (int (length s)) block [ReadData s] d) = (0, d\<lparr>written := written d @ padded s\<rparr>)"
  using assms
proof (induction "length s" arbitrary: s block d rule: less_induct)
  case less
  show ?case
  proof (cases "T_BLOCKSIZE < length s")
    case False
    then have "append_loop (int (length s)) block [ReadData s] d = (True, int (length s), block, [ReadData s], d)"
      by (subst append_loop.simps) simp
    then show ?thesis using False less.prems padded_short [of s]
      by (cases "s = []") (simp_all add: append_last_def file_read_def par_block_write_def overwrite_def Let_def)
  next
    case True
    let ?b = "take T_BLOCKSIZE s" and ?r = "drop T_BLOCKSIZE s"
    let ?d = "d\<lparr>written := written d @ ?b\<rparr>"
    have lb: "length ?b = T_BLOCKSIZE" using True by simp
    have ov: "overwrite block ?b = ?b" using less.prems(1) lb by (simp add: overwrite_def)
    have rd: "file_read T_BLOCKSIZE [ReadData s] = (int T_BLOCKSIZE, ?b, [ReadData ?r])" using True by (simp add: file_read_def)
    have wr: "par_block_write d ?b = (int T_BLOCKSIZE, ?d)" using less.prems(2) by (simp add: par_block_write_def)
    have i: "int (length s) - int T_BLOCKSIZE = int (length ?r)" using True by simp
    have "append_loop (int (length s)) block [ReadData s] d = append_loop (int (length s) - int T_BLOCKSIZE) ?b [ReadData ?r] ?d"
      using True by (subst append_loop.simps) (simp add: rd wr ov Let_def)
    then have "append_loop (int (length s)) block [ReadData s] d = append_loop (int (length ?r)) ?b [ReadData ?r] ?d"
      by (simp only: i)
    moreover have "length ?r < length s" "wouts ?d = []" using True less.prems by (simp_all add: T_BLOCKSIZE_def)
    ultimately show ?thesis using less.hyps [of ?r ?b ?d] lb padded_step [of s] True by simp
  qed
qed

text \<open>Reading blocks: the device holds the padded contents, then something else.\<close>

definition holds_blocks :: "dev \<Rightarrow> string \<Rightarrow> read_outcome list \<Rightarrow> bool" where
  "holds_blocks d s rest \<longleftrightarrow> routs d = map ReadData (chop (padded s)) @ rest"

lemma holds_blocks_step:
  assumes "holds_blocks d s rest" "s \<noteq> []"
  shows "\<exists>b. par_block_read d = (int T_BLOCKSIZE, b, d\<lparr>routs := map ReadData (chop (padded (drop T_BLOCKSIZE s))) @ rest\<rparr>) \<and>
    length b = T_BLOCKSIZE \<and> take (length s) b = take T_BLOCKSIZE s"
proof -
  have "\<exists>b. length b = T_BLOCKSIZE \<and> padded s = b @ padded (drop T_BLOCKSIZE s) \<and> take (length s) b = take T_BLOCKSIZE s"
  proof (cases "T_BLOCKSIZE \<le> length s")
    case True
    then show ?thesis using padded_step [OF True] by (intro exI [of _ "take T_BLOCKSIZE s"]) simp
  next
    case False
    then show ?thesis using padded_short [of s] assms(2) by (intro exI [of _ "padded s"]) simp
  qed
  then obtain b where b: "length b = T_BLOCKSIZE" "padded s = b @ padded (drop T_BLOCKSIZE s)" "take (length s) b = take T_BLOCKSIZE s" by blast
  then have "chop (padded s) = b # chop (padded (drop T_BLOCKSIZE s))"
    by (subst chop.simps) (auto simp: T_BLOCKSIZE_def)
  then show ?thesis using assms(1) b(1,3) by (intro exI [of _ b]) (simp add: holds_blocks_def par_block_read_def)
qed

lemma holds_blocks_Nil: "holds_blocks d [] rest \<Longrightarrow> routs d = rest"
  by (simp add: holds_blocks_def chop.simps)

lemma skip_content:
  "holds_blocks d s rest \<Longrightarrow> skip_loop (int (length s)) d = (True, d\<lparr>routs := rest\<rparr>)"
proof (induction "length s" arbitrary: s d rule: less_induct)
  case less
  show ?case
  proof (cases "s = []")
    case True
    then have "routs d = rest" using holds_blocks_Nil less.prems by simp
    then show ?thesis using True by (subst skip_loop.simps) simp
  next
    case False
    let ?r = "drop T_BLOCKSIZE s"
    let ?d = "d\<lparr>routs := map ReadData (chop (padded ?r)) @ rest\<rparr>"
    obtain b where b: "par_block_read d = (int T_BLOCKSIZE, b, ?d)" using holds_blocks_step [OF less.prems False] by blast
    have "skip_loop (int (length s)) d = skip_loop (int (length s) - int T_BLOCKSIZE) ?d"
      using False b by (subst skip_loop.simps) simp
    also have "\<dots> = skip_loop (int (length ?r)) ?d"
      by (cases "T_BLOCKSIZE \<le> length s") (simp_all add: skip_loop.simps)
    also have "\<dots> = (True, ?d\<lparr>routs := rest\<rparr>)"
      using False by (intro less.hyps) (simp_all add: holds_blocks_def T_BLOCKSIZE_def)
    finally show ?thesis by simp
  qed
qed

lemma extract_content:
  assumes "holds_blocks d s rest" "results w = []" "length buf = T_BLOCKSIZE"
  shows "\<exists>pieces. extract_loop (int (length s)) buf d w = (True, d\<lparr>routs := rest\<rparr>, w\<lparr>calls := calls w @ map Write pieces\<rparr>) \<and>
    concat pieces = s"
  using assms
proof (induction "length s" arbitrary: s d w buf rule: less_induct)
  case less
  show ?case
  proof (cases "s = []")
    case True
    then have "routs d = rest" using holds_blocks_Nil less.prems(1) by simp
    then show ?thesis using True by (intro exI [of _ "[]"]) (subst extract_loop.simps, simp)
  next
    case False
    let ?r = "drop T_BLOCKSIZE s"
    let ?d = "d\<lparr>routs := map ReadData (chop (padded ?r)) @ rest\<rparr>"
    obtain b where b: "par_block_read d = (int T_BLOCKSIZE, b, ?d)" "length b = T_BLOCKSIZE" "take (length s) b = take T_BLOCKSIZE s"
      using holds_blocks_step [OF less.prems(1) False] by blast
    let ?w = "w\<lparr>calls := calls w @ [Write (take T_BLOCKSIZE s)]\<rparr>"
    have ov: "overwrite buf b = b" using b(2) less.prems(3) by (simp add: overwrite_def)
    have piece: "take (if int (length s) > int T_BLOCKSIZE then T_BLOCKSIZE else nat (int (length s))) b = take T_BLOCKSIZE s"
      using b(2,3) by auto
    have "extract_loop (int (length s)) buf d w = extract_loop (int (length s) - int T_BLOCKSIZE) b ?d ?w"
      using False b(1) less.prems(2) ov piece by (subst extract_loop.simps) (simp add: sys_write_def Let_def)
    also have "\<dots> = extract_loop (int (length ?r)) b ?d ?w"
      by (cases "T_BLOCKSIZE \<le> length s") (simp_all add: extract_loop.simps)
    finally have step: "extract_loop (int (length s)) buf d w = extract_loop (int (length ?r)) b ?d ?w" .
    have "length ?r < length s" "holds_blocks ?d ?r rest" "results ?w = []"
      using False less.prems(2) by (simp_all add: holds_blocks_def T_BLOCKSIZE_def)
    then obtain ps where ps: "extract_loop (int (length ?r)) b ?d ?w = (True, ?d\<lparr>routs := rest\<rparr>, ?w\<lparr>calls := calls ?w @ map Write ps\<rparr>)" "concat ps = ?r"
      using less.hyps [of ?r ?d ?w b] b(2) by blast
    then show ?thesis unfolding step by (intro exI [of _ "take T_BLOCKSIZE s # ps"]) simp
  qed
qed

section \<open>Names\<close>

lemma strip_dotdot_chars:
  "set (fst (strip_dotdot p t)) \<subseteq> set p \<and> set (snd (strip_dotdot p t)) \<subseteq> set p \<union> set t \<and>
   length (snd (strip_dotdot p t)) \<le> max (length p) (length t)"
proof (induction p t rule: strip_dotdot.induct)
  case (1 p t)
  then show ?case by (subst (1 2 3) strip_dotdot.simps) (auto dest!: in_set_dropD)
qed

lemma past_slash_chars: "set (past_slash p) \<subseteq> set p"
  by (induction p) auto

lemma safer_loop_chars: "set (safer_loop p t) \<subseteq> set p \<union> set t \<and> length (safer_loop p t) \<le> max (length p) (length t)"
proof (induction p t rule: safer_loop.induct)
  case (1 p t)
  obtain p' t' where s: "strip_dotdot p t = (p', t')" by fastforce
  have len: "length (past_slash p') \<le> length p"
    using past_slash_length [of p'] strip_dotdot_length [of p t] s by (cases "p' = []") auto
  show ?case
  proof (cases "p = []")
    case True
    then show ?thesis by (subst (1 2) safer_loop.simps) simp
  next
    case False
    have IH: "set (safer_loop (past_slash p') t') \<subseteq> set (past_slash p') \<union> set t'"
        "length (safer_loop (past_slash p') t') \<le> max (length (past_slash p')) (length t')"
      using 1 [OF False s [symmetric]] by simp_all
    have "safer_loop p t = safer_loop (past_slash p') t'" using False s by (subst safer_loop.simps) simp
    then show ?thesis
      using IH strip_dotdot_chars [of p t] past_slash_chars [of p'] len by (auto simp: s)
  qed
qed

lemma safer_name_facts:
  assumes "nul_free s"
  shows "nul_free (safer_name_suffix s)" "length (safer_name_suffix s) \<le> max 1 (length s)"
proof -
  let ?p = "dropWhile (\<lambda>c. c = slash) s"
  have "set ?p \<subseteq> set s" "length ?p \<le> length s" by (auto dest: set_dropWhileD simp: length_dropWhile_le)
  then show "nul_free (safer_name_suffix s)" "length (safer_name_suffix s) \<le> max 1 (length s)"
    using safer_loop_chars [of ?p ?p] assms by (auto simp: safer_name_suffix_def Let_def nul_free_def)
qed

lemma rstrip_facts: "set (rstrip_slashes s) \<subseteq> set s" "length (rstrip_slashes s) \<le> length s"
    "set (before_last_component s) \<subseteq> set s" "length (before_last_component s) \<le> length s"
  by (auto simp: rstrip_slashes_def before_last_component_def dest: set_dropWhileD intro: order_trans [OF length_dropWhile_le])

lemma dir_spec_facts:
  assumes "nul_free p"
  shows "nul_free (dir_spec p)" "length (dir_spec p) \<le> max 1 (length p)"
proof -
  let ?d = "rstrip_slashes (before_last_component (rstrip_slashes p))"
  have "set ?d \<subseteq> set p" "length ?d \<le> length p"
    using rstrip_facts [of p] rstrip_facts [of "rstrip_slashes p"] rstrip_facts [of "before_last_component (rstrip_slashes p)"]
    by (blast, linarith)
  then show "nul_free (dir_spec p)" "length (dir_spec p) \<le> max 1 (length p)"
    using assms by (auto simp: dir_spec_def Let_def nul_free_def)
qed

section \<open>Calls that succeed\<close>

lemma sys_ok: "results w = [] \<Longrightarrow> sys c w = (0, w\<lparr>calls := calls w @ [c]\<rparr>)"
  by (simp add: sys_def)

lemma mkdir_chain_ok:
  "results w = [] \<Longrightarrow> r = 0 \<or> r = 1 \<Longrightarrow>
     \<exists>r'. mkdir_chain sys_mkdir ds r w = (r', w\<lparr>calls := calls w @ map Mkdir ds\<rparr>) \<and> (r' = 0 \<or> r' = 1)"
proof (induction ds arbitrary: r w)
  case (Cons x ds)
  have "sys_mkdir x w = ((0, 0), w\<lparr>calls := calls w @ [Mkdir x]\<rparr>)" using Cons.prems by (simp add: sys_mkdir_def sys_ok)
  then show ?case using Cons.IH [of "w\<lparr>calls := calls w @ [Mkdir x]\<rparr>" 0] Cons.prems by auto
qed auto

definition env_ok :: "penv \<Rightarrow> bool" where
  "env_ok env \<longleftrightarrow> length (mkdir_buf env) = COMPAT_MAXPATHLEN \<and> length (block_buf env) = T_BLOCKSIZE \<and> malloc_ok env"

text \<open>The files that a sequence of calls leaves behind, with what was written to them.\<close>

fun files :: "(string \<times> string) list \<Rightarrow> syscall list \<Rightarrow> (string \<times> string) list" where
  "files fs [] = fs"
| "files fs (OpenW p # cs) = files (fs @ [(p, [])]) cs"
| "files fs (Write s # cs) = files (if fs = [] then [] else butlast fs @ [(fst (last fs), snd (last fs) @ s)]) cs"
| "files fs (_ # cs) = files fs cs"

lemma files_append: "files fs (cs @ ds) = files (files fs cs) ds"
  by (induction fs cs rule: files.induct) simp_all

lemma files_mkdirs [simp]: "files fs (map Mkdir ds) = fs"
  by (induction ds) simp_all

lemma files_writes [simp]: "files (fs @ [(p, c)]) (map Write ss) = fs @ [(p, c @ concat ss)]"
  by (induction ss arbitrary: c) simp_all

lemma regfile_extracted:
  assumes "TH_ISREG (th_buf t)" "th_get_size (th_buf t) = of_nat (length s)" "length s < 2 ^ 31"
    and "holds_blocks d s rest" "results w = []" "env_ok env" "nul_free name" "length name < 250"
  shows "\<exists>w'. par_extract_regfile env name t d w = Some (0, d\<lparr>routs := rest\<rparr>, w') \<and> results w' = [] \<and> allocs w' = allocs w \<and>
    files [] (calls w') = files [] (calls w) @ [(name, s)]"
proof -
  let ?dir = "dir_spec name"
  let ?ds = "prefixes_from (if ?dir \<noteq> [] \<and> ?dir ! 0 = slash then ''/'' else '''') (path_components ?dir)"
  have cd: "compat_cdirname (Some name) = Some (Some ?dir)"
    using assms(8) by (intro compat_cdirname_eq) (simp add: MAXPATHLEN_def)
  have dlen: "length ?dir < COMPAT_MAXPATHLEN - 1" using dir_spec_facts(2) [OF assms(7)] assms(8) by (simp add: COMPAT_MAXPATHLEN_def)
  have "mkdirhier sys_mkdir (mkdir_buf env) ?dir w = Some (mkdir_chain sys_mkdir ?ds 1 w)"
    using dir_spec_facts(1) [OF assms(7)] dlen assms(6) by (intro mkdirhier_eq) (auto simp: env_ok_def)
  then obtain r where mk: "mkdirhier sys_mkdir (mkdir_buf env) ?dir w = Some (r, w\<lparr>calls := calls w @ map Mkdir ?ds\<rparr>)" "r = 0 \<or> r = 1"
    using mkdir_chain_ok [OF assms(5), of 1 ?ds] by auto
  let ?w1 = "w\<lparr>calls := (calls w @ map Mkdir ?ds) @ [OpenW name]\<rparr>"
  have open1: "sys (OpenW name) (w\<lparr>calls := calls w @ map Mkdir ?ds\<rparr>) = (0, ?w1)" using assms(5) by (simp add: sys_ok)
  have "sint (of_nat (length s) :: u64) = int (length s)"
    using assms(3) by (simp add: signed_of_nat signed_take_bit_int_eq_self_iff)
  then obtain ps where ps: "extract_loop (sint (th_get_size (th_buf t))) (block_buf env) d ?w1 =
      (True, d\<lparr>routs := rest\<rparr>, ?w1\<lparr>calls := calls ?w1 @ map Write ps\<rparr>)" "concat ps = s"
    using extract_content [OF assms(4), of ?w1 "block_buf env"] assms(2,5,6) by (auto simp: env_ok_def)
  let ?w2 = "w\<lparr>calls := ((calls w @ map Mkdir ?ds) @ [OpenW name]) @ map Write ps @ [Close]\<rparr>"
  have "par_extract_regfile env name t d w = Some (0, d\<lparr>routs := rest\<rparr>, ?w2)"
    using assms(1,5) cd mk open1 ps(1) by (auto simp: par_extract_regfile_def sys_ok)
  moreover have "files [] (calls ?w2) = files [] (calls w) @ [(name, s)]" using ps(2) by (simp add: files_append)
  ultimately show ?thesis using assms(5) by (intro exI [of _ ?w2]) simp
qed

section \<open>The table of extracted names\<close>

definition path_hash_cast :: "char list \<Rightarrow> u32 \<Rightarrow> u32 option" where
  "path_hash_cast k n = map_option word_of_int (path_hashfunc (cstr k) (sint n))"

definition hash_ready :: "char list libtar_hash \<Rightarrow> addr list \<Rightarrow> bool" where
  "hash_ready hash free \<longleftrightarrow>
     (\<exists>css. hash_rep hash css \<and> length css = 256 \<and> hashfunc hash = path_hash_cast \<and> (\<forall>cs\<in>set css. set free \<inter> fst ` set cs = {}))"

lemma path_bucket:
  assumes "hash_rep hash css" "length css = 256" "hashfunc hash = path_hash_cast" "length (cstr k) < MAXPATHLEN"
  shows "\<exists>i<256. hash_bucket hash k = Some (int i)"
proof -
  define x where "x = (word_of_int (schar (hd (base_spec (cstr k)))) :: u32) mod 256"
  have n: "numbuckets hash = 256" using assms(1,2) by (simp add: hash_rep_def)
  have lt: "unat x < 256" by (simp add: x_def unat_mod)
  then have s: "sint x = int (unat x)" "sint (word_of_int (int (unat x)) :: u32) = int (unat x)"
    using sint_small [of x] by simp_all
  have "path_hashfunc (cstr k) (sint (256 :: u32)) = Some (int (unat x))"
    using assms(4) s(1) by (simp add: path_hashfunc_def x_def)
  then have "hash_bucket hash k = Some (int (unat x))" using n assms(3) s(2)
    by (simp add: hash_bucket_def path_hash_cast_def del: uint_nat)
  with lt show ?thesis by blast
qed

lemma hash_add_ready:
  assumes "hash_ready hash (a # free)" "distinct (a # free)" "length (cstr k) < MAXPATHLEN"
  shows "\<exists>hash'. libtar_hash_add sc True (Some a) junk hash k = Some (0, hash') \<and> hash_ready hash' free"
proof -
  obtain css where css: "hash_rep hash css" "length css = 256" "hashfunc hash = path_hash_cast"
      "\<forall>cs\<in>set css. set (a # free) \<inter> fst ` set cs = {}"
    using assms(1) unfolding hash_ready_def by blast
  obtain i where i: "i < 256" "hash_bucket hash k = Some (int i)" using path_bucket [OF css(1-3) assms(3)] by blast
  have il: "i < length css" using i(1) css(2) by simp
  then have fresh: "a \<notin> fst ` set (css ! i)" using css(4) by (metis disjoint_iff list.set_intros(1) nth_mem)
  obtain hash' where h: "libtar_hash_add sc True (Some a) junk hash k = Some (0, hash')"
      "hash_rep hash' (css[i := css ! i @ [(a, k)]])" "hashfunc hash' = hashfunc hash"
    using libtar_hash_add_rep [OF css(1) i(2) il fresh] by blast
  have "set free \<inter> fst ` set cs = {}" if "cs \<in> set (css[i := css ! i @ [(a, k)]])" for cs
  proof -
    have "cs = css ! i @ [(a, k)] \<or> cs \<in> set css" using that set_update_subset_insert [of css i "css ! i @ [(a, k)]"] by blast
    then show ?thesis
    proof
      assume "cs = css ! i @ [(a, k)]"
      then show ?thesis using css(4) il assms(2) by (auto simp: disjoint_iff)
    next
      assume "cs \<in> set css"
      then show ?thesis using css(4) by auto
    qed
  qed
  then have "hash_ready hash' free" using h(2,3) css(2,3) unfolding hash_ready_def by (intro exI [of _ "css[i := css ! i @ [(a, k)]]"]) simp
  then show ?thesis using h(1) by blast
qed

section \<open>The archive round trip\<close>

definition entry_name :: "par_file_header \<Rightarrow> string" where
  "entry_name h = safer_name_suffix (cstr (take 100 (hdr_name h)))"

text \<open>The header of a regular file with contents \<open>s\<close>.\<close>

definition entry_ok :: "par_file_header \<times> string \<Rightarrow> bool" where
  "entry_ok e \<longleftrightarrow> (case e of (h, s) \<Rightarrow>
     header_ok h \<and> hd (hdr_name h) \<noteq> nul \<and> hd (hdr_prefix h) = nul \<and> gnu_longname h = 0 \<and> gnu_longlink h = 0 \<and>
     hdr_typeflag h = REGTYPE \<and> \<not> TH_ISDIR (th_finish h) \<and> \<not> TH_ISSYM (th_finish h) \<and>
     th_get_size (th_finish h) = of_nat (length s) \<and> length s < 2 ^ 31)"

lemma entry_types:
  assumes "entry_ok (h, s)"
  shows "TH_ISREG (th_finish h)" "\<not> TH_ISLNK (th_finish h)" "\<not> TH_ISLONGLINK h" "\<not> TH_ISLONGNAME h"
  using assms by (simp_all add: entry_ok_def TH_ISREG_def TH_ISLNK_def TH_ISLONGLINK_def TH_ISLONGNAME_def type_defs)

lemma th_get_pathname_keeps:
  assumes "th_get_pathname ok t = Some (name, t')" "par_ok t" "gnu_longname (th_buf t) = 0"
  shows "th_buf t' = th_buf t \<and> par_ok t' \<and> par_options t' = par_options t \<and> longs t' = longs t"
  using assms length_snprintf
  by (auto simp: th_get_pathname_def Let_def par_ok_def split: option.splits if_splits)

lemma entry_pathname:
  assumes "entry_ok (h, s)" "par_ok t" "th_buf t = th_finish h"
  shows "\<exists>t'. th_get_pathname True t = Some (Some (entry_name h), t') \<and> th_buf t' = th_finish h \<and> par_ok t' \<and>
    par_options t' = par_options t"
proof -
  have g: "gnu_longname (th_buf t) = 0" using assms(1,3) by (simp add: entry_ok_def)
  have "hdr_prefix (th_finish h) = hdr_prefix h" by (simp add: th_finish_def Let_def)
  then have "cstr (take 100 (hdr_name h)) = (if \<not> strncmp_eq (TMAGLEN - 1) (hdr_magic (th_buf t)) TMAGIC \<or> hd (hdr_prefix (th_buf t)) = nul
            then cstr (take 100 (hdr_name (th_buf t)))
            else cstr (take 155 (hdr_prefix (th_buf t))) @ ''/'' @ cstr (take 100 (hdr_name (th_buf t))))"
    using assms(1,3) by (simp add: entry_ok_def)
  then obtain t' where "th_get_pathname True t = Some (Some (entry_name h), t')"
    using th_get_pathname_fields [OF assms(2) g] unfolding entry_name_def by blast
  then show ?thesis using th_get_pathname_keeps [OF _ assms(2) g] assms(3) by auto
qed

lemma entry_name_facts: "nul_free (entry_name h)" "length (entry_name h) \<le> 100"
proof -
  have n: "nul_free (cstr (take 100 (hdr_name h)))" by (simp add: cstr_def nul_free_def) (auto dest: set_takeWhileD)
  have l: "length (cstr (take 100 (hdr_name h))) \<le> 100" using length_cstr_le [of "take 100 (hdr_name h)"] by simp
  show "nul_free (entry_name h)" "length (entry_name h) \<le> 100"
    using safer_name_facts [OF n] l by (simp_all add: entry_name_def)
qed

lemma perms_ok:
  assumes "results w = []"
  shows "\<exists>w'. par_set_file_perms env name t w = (0, w') \<and> results w' = [] \<and> allocs w' = allocs w \<and>
    files [] (calls w') = files [] (calls w)"
  using assms by (auto simp: par_set_file_perms_def Let_def sys_def files_append)

lemma file_extracted:
  assumes "entry_ok (h, s)" "par_ok (io_par io)" "th_buf (io_par io) = th_finish h" "par_options (io_par io) AND PAR_NOOVERWRITE = 0"
    and "holds_blocks (io_dev io) s rest" "results w = []" "env_ok env" "nul_free name" "length name < 250"
    and "allocs w = x # y # a # free" "hash_ready (io_hash io) (a # free)" "distinct (a # free)"
  shows "\<exists>io' w'. par_extract_file env name io w = Some (0, io', w') \<and> par_ok (io_par io') \<and> th_buf (io_par io') = th_finish h \<and>
    par_options (io_par io') = par_options (io_par io) \<and> routs (io_dev io') = rest \<and> results w' = [] \<and> allocs w' = free \<and>
    hash_ready (io_hash io') free \<and> files [] (calls w') = files [] (calls w) @ [(name, s)]"
proof -
  note ty = entry_types [OF assms(1)]
  have e: "\<not> TH_ISDIR (th_finish h)" "\<not> TH_ISSYM (th_finish h)" "th_get_size (th_finish h) = of_nat (length s)" "length s < 2 ^ 31"
    using assms(1) by (simp_all add: entry_ok_def)
  let ?d = "(io_dev io)\<lparr>routs := rest\<rparr>"
  obtain w1 where w1: "par_extract_regfile env name (io_par io) (io_dev io) w = Some (0, ?d, w1)" "results w1 = []" "allocs w1 = allocs w"
      "files [] (calls w1) = files [] (calls w) @ [(name, s)]"
    using regfile_extracted [of "io_par io" s "io_dev io" rest w env name] assms(3,5-9) ty(1) e(3,4) by auto
  obtain w2 where w2: "par_set_file_perms env name (io_par io) w1 = (0, w2)" "results w2 = []" "allocs w2 = allocs w1"
      "files [] (calls w2) = files [] (calls w1)"
    using perms_ok [OF w1(2)] by blast
  obtain t' where t': "th_get_pathname True (io_par io) = Some (Some (entry_name h), t')" "th_buf t' = th_finish h" "par_ok t'"
      "par_options t' = par_options (io_par io)"
    using entry_pathname [OF assms(1-3)] by blast
  let ?k = "entry_name h @ [nul] @ name @ [nul]"
  have "length (cstr ?k) < MAXPATHLEN" using entry_name_facts [of h] by (simp add: MAXPATHLEN_def)
  then obtain hash' where h': "libtar_hash_add (\<lambda>_ _. 0) True (Some a) None (io_hash io) ?k = Some (0, hash')" "hash_ready hash' free"
    using hash_add_ready [OF assms(11,12), of ?k "\<lambda>_ _. 0" None] by blast
  let ?w = "w2\<lparr>allocs := free\<rparr>" and ?io = "io\<lparr>io_par := t', io_dev := ?d, io_hash := hash'\<rparr>"
  have "malloc_ok env" using assms(7) by (simp add: env_ok_def)
  then have "par_extract_file env name io w = Some (0, ?io, ?w)"
    using assms(3,4,10) e(1,2) ty(2) w1(1,3) w2(1,3) t'(1) h'(1)
    by (simp add: par_extract_file_def Let_def os_alloc_def hash_add_os_def)
  then show ?thesis using t' h'(2) w2 w1(4) by (intro exI [of _ ?io] exI [of _ ?w]) simp
qed

text \<open>The bytes of an archive: per entry the header block and the padded contents, then two zero blocks.\<close>

definition archive_bytes :: "(par_file_header \<times> string) list \<Rightarrow> string" where
  "archive_bytes es = concat (map (\<lambda>(h, s). block_of (th_finish h) @ padded s) es) @ replicate (2 * T_BLOCKSIZE) nul"

lemma chop_append: "length a mod T_BLOCKSIZE = 0 \<Longrightarrow> chop (a @ b) = chop a @ chop b"
proof (induction a rule: chop.induct)
  case (1 a)
  show ?case
  proof (cases "a = []")
    case False
    with 1(2) have le: "T_BLOCKSIZE \<le> length a" by (metis leI length_0_conv mod_less)
    then have "length (drop T_BLOCKSIZE a) mod T_BLOCKSIZE = 0" using 1(2) by (simp add: le_mod_geq)
    then have "chop (drop T_BLOCKSIZE a @ b) = chop (drop T_BLOCKSIZE a) @ chop b" using 1(1) False by simp
    then show ?thesis using False le by (subst (1 2) chop.simps) simp
  qed (simp add: chop.simps)
qed

lemma chop_block: "length a = T_BLOCKSIZE \<Longrightarrow> chop (a @ b) = a # chop b"
  by (subst chop.simps) (auto simp: T_BLOCKSIZE_def)

lemma padded_aligned: "length (padded s) mod T_BLOCKSIZE = 0"
proof (induction "length s" arbitrary: s rule: less_induct)
  case less
  consider "s = []" | "0 < length s" "length s \<le> T_BLOCKSIZE" | "T_BLOCKSIZE < length s" by fastforce
  then show ?case
  proof cases
    case 2
    then show ?thesis using padded_short [of s] by simp
  next
    case 3
    then have "length (padded (drop T_BLOCKSIZE s)) mod T_BLOCKSIZE = 0"
      using less [of "drop T_BLOCKSIZE s"] by (simp add: T_BLOCKSIZE_def)
    then show ?thesis using 3 padded_step [of s] by simp
  qed simp
qed

lemma archive_blocks:
  "archive_bytes [] = replicate T_BLOCKSIZE nul @ replicate T_BLOCKSIZE nul"
  "header_ok h \<Longrightarrow> chop (archive_bytes ((h, s) # es)) = block_of (th_finish h) # chop (padded s) @ chop (archive_bytes es)"
  by (simp_all add: archive_bytes_def mult_2 replicate_add chop_block chop_append padded_aligned block_length th_finish_ok)

lemma hash_ready_drop: "hash_ready hash (xs @ ys) \<Longrightarrow> hash_ready hash ys"
  unfolding hash_ready_def by fastforce

definition prefix_ok :: "string option \<Rightarrow> bool" where
  "prefix_ok p \<longleftrightarrow> (case p of Some s \<Rightarrow> nul_free s \<and> length s < 100 | None \<Rightarrow> True)"

lemma target_name_ok:
  assumes "prefix_ok p"
  shows "nul_free (target_name p (entry_name h))" "length (target_name p (entry_name h)) < 250"
  using assms entry_name_facts [of h]
  by (auto simp: prefix_ok_def target_name_def nul_free_def MAXPATHLEN_def split: option.splits dest: in_set_takeD)

lemma archive_extracted:
  assumes "list_all entry_ok es" "par_ok (io_par io)" "gnu_longname (th_buf (io_par io)) = 0" "gnu_longlink (th_buf (io_par io)) = 0"
    and "par_options (io_par io) AND PAR_NOOVERWRITE = 0" "par_options (io_par io) AND PAR_IGNORE_EOT = 0"
    and "routs (io_dev io) = map ReadData (chop (archive_bytes es)) @ rest" "results w = []" "env_ok env"
    and "prefix_ok p" "3 * length es \<le> length (allocs w)" "distinct (allocs w)" "hash_ready (io_hash io) (allocs w)"
  shows "\<exists>io' w'. par_extract_all env p io w = Some (0, io', w') \<and> routs (io_dev io') = rest \<and> results w' = [] \<and>
    hash_ready (io_hash io') [] \<and> files [] (calls w') = files [] (calls w) @ map (\<lambda>(h, s). (target_name p (entry_name h), s)) es"
  using assms
proof (induction es arbitrary: io w)
  case Nil
  have "routs (io_dev io) = ReadData (replicate T_BLOCKSIZE nul) # ReadData (replicate T_BLOCKSIZE nul) # rest"
    using Nil.prems(7) archive_blocks(1) chop_block [of "replicate T_BLOCKSIZE nul" "replicate T_BLOCKSIZE nul"]
      chop_block [of "replicate T_BLOCKSIZE nul" "[]"] by (simp add: chop.simps [of "[]"])
  from th_read_eof [OF this Nil.prems(6,3,4), of "mal_link env" "mal_name env" "junk_char env"]
  obtain t' where "th_read (mal_link env) (mal_name env) (junk_char env) (io_par io) (io_dev io) = Some (1, t', (io_dev io)\<lparr>routs := rest\<rparr>)"
    by blast
  then show ?case using Nil.prems(8) hash_ready_drop [of _ _ "[]"] Nil.prems(13) by (subst par_extract_all.simps) (simp add: Let_def)
next
  case (Cons e es)
  obtain h s where e: "e = (h, s)" by fastforce
  have ok: "entry_ok (h, s)" and oks: "list_all entry_ok es" using Cons.prems(1) e by simp_all
  have hdr: "header_ok h" "hd (hdr_name h) \<noteq> nul" "gnu_longname h = 0" "gnu_longlink h = 0" using ok by (simp_all add: entry_ok_def)
  note ty = entry_types [OF ok]
  let ?rest = "map ReadData (chop (archive_bytes es)) @ rest"
  let ?t = "(io_par io)\<lparr>th_buf := th_finish h\<rparr>" and ?d = "(io_dev io)\<lparr>routs := map ReadData (chop (padded s)) @ ?rest\<rparr>"
  have r: "routs (io_dev io) = ReadData (block_of (th_finish h)) # map ReadData (chop (padded s)) @ ?rest"
    using Cons.prems(7) archive_blocks(2) [OF hdr(1)] by (simp add: e)
  have rd: "th_read (mal_link env) (mal_name env) (junk_char env) (io_par io) (io_dev io) = Some (0, ?t, ?d)"
    using th_read_finished [OF r hdr(1,2) ty(3,4) Cons.prems(3,4)] by simp
  have "par_ok ?t" using Cons.prems(2) hdr(1) by (simp add: par_ok_def th_finish_ok)
  then obtain t' where t': "th_get_pathname True ?t = Some (Some (entry_name h), t')" "th_buf t' = th_finish h" "par_ok t'"
      "par_options t' = par_options ?t"
    using entry_pathname [OF ok, of ?t] by auto
  obtain x y a free where al: "allocs w = x # y # a # free"
    using Cons.prems(11) by (auto simp: numeral_eq_Suc Suc_le_length_iff)
  let ?io = "io\<lparr>io_dev := ?d, io_par := t'\<rparr>" and ?name = "target_name p (entry_name h)"
  have nm: "nul_free ?name" "length ?name < 250" by (rule target_name_ok [OF Cons.prems(10)])+
  have hr: "hash_ready (io_hash ?io) (a # free)" "distinct (a # free)"
    using Cons.prems(12,13) hash_ready_drop [of _ "[x, y]" "a # free"] by (simp_all add: al)
  obtain io' w' where x: "par_extract_file env ?name ?io w = Some (0, io', w')" "par_ok (io_par io')" "th_buf (io_par io') = th_finish h"
      "par_options (io_par io') = par_options (io_par ?io)" "routs (io_dev io') = ?rest" "results w' = []" "allocs w' = free"
      "hash_ready (io_hash io') free" "files [] (calls w') = files [] (calls w) @ [(?name, s)]"
    using file_extracted [OF ok, of ?io ?rest w env ?name x y a free] t' Cons.prems(5,8,9) nm al hr
    by (auto simp: holds_blocks_def)
  have "par_extract_all env p io w = par_extract_all env p io' w'"
    using rd t'(1) x(1) Cons.prems(9) by (subst par_extract_all.simps) (simp add: env_ok_def Let_def)
  moreover have "\<exists>io'' w''. par_extract_all env p io' w' = Some (0, io'', w'') \<and> routs (io_dev io'') = rest \<and> results w'' = [] \<and>
      hash_ready (io_hash io'') [] \<and> files [] (calls w'') = files [] (calls w') @ map (\<lambda>(h, s). (target_name p (entry_name h), s)) es"
    using Cons.prems(5,6,11,12) x(2-8) t'(4) hdr(3,4) al by (intro Cons.IH oks Cons.prems(9,10)) simp_all
  ultimately show ?case using x(9) by (auto simp: e)
qed

section \<open>Directories\<close>

lemma prefixes_length: "q \<in> set (prefixes_from dst ts) \<Longrightarrow> length q \<le> length dst + sum_list (map (\<lambda>t. Suc (length t)) ts)"
  by (induction ts arbitrary: dst) (auto simp: Let_def split: if_splits, fastforce+)

lemma mkdir_names_short:
  assumes "q \<in> set (prefixes_from (if p \<noteq> [] \<and> p ! 0 = slash then ''/'' else '''') (path_components p))"
  shows "length q \<le> Suc (length p)"
proof -
  have "sum_list (map (\<lambda>t. Suc (length t)) (path_components p)) \<le> Suc (length p)" using components_length [of "\<lambda>c. c = slash" p] by simp
  then show ?thesis using prefixes_length [OF assms] components_length_abs [of p "\<lambda>c. c = slash"] by (auto split: if_splits)
qed

text \<open>The library's \<open>dirname\<close> cuts its argument off: when it leaves the name of the parent
  behind, \<open>par_extract_dir\<close> creates the parent a second time and never the directory itself.\<close>

theorem extract_dir_parent:
  assumes "TH_ISDIR (th_buf t)" "dirname env name = (p, p)" "length p + 1 < length name" "nul_free p" "length p < 250"
    and "results w = []" "env_ok env"
  shows "\<exists>w' ds. par_extract_dir env name t w = Some (0, p, w') \<and> calls w' = calls w @ map Mkdir (ds @ [p]) \<and> name \<notin> set (ds @ [p])"
proof -
  let ?ds = "prefixes_from (if p \<noteq> [] \<and> p ! 0 = slash then ''/'' else '''') (path_components p)"
  have "mkdirhier sys_mkdir (mkdir_buf env) p w = Some (mkdir_chain sys_mkdir ?ds 1 w)"
    using assms(4,5,7) by (intro mkdirhier_eq) (auto simp: env_ok_def COMPAT_MAXPATHLEN_def)
  then obtain r where mk: "mkdirhier sys_mkdir (mkdir_buf env) p w = Some (r, w\<lparr>calls := calls w @ map Mkdir ?ds\<rparr>)" "r = 0 \<or> r = 1"
    using mkdir_chain_ok [OF assms(6), of 1 ?ds] by auto
  let ?w = "w\<lparr>calls := (calls w @ map Mkdir ?ds) @ [Mkdir p]\<rparr>"
  have "par_extract_dir env name t w = Some (0, p, ?w)"
    using assms(1,2,6) mk by (auto simp: par_extract_dir_def Let_def sys_ok)
  moreover have "name \<notin> set (?ds @ [p])" using mkdir_names_short [of name p] assms(3) by auto
  ultimately show ?thesis by (intro exI [of _ ?w] exI [of _ ?ds]) simp
qed

definition plain_penv :: penv where
  "plain_penv = \<lparr>getpwnam = (\<lambda>_. None), getgrnam = (\<lambda>_. None), junk_id = 0, root = False, dirname = (\<lambda>p. (''a'', ''a'')),
     mkdir_buf = replicate COMPAT_MAXPATHLEN nul, block_buf = replicate T_BLOCKSIZE nul, malloc_ok = True,
     mal_link = 0, mal_name = 0, junk_char = nul\<rparr>"

theorem extract_dir_parent_witness:
  "\<exists>w' ds. par_extract_dir plain_penv ''a/b'' (sample_par (zero_header\<lparr>hdr_typeflag := DIRTYPE\<rparr>)) \<lparr>calls = [], results = [], allocs = []\<rparr> =
       Some (0, ''a'', w') \<and> calls w' = map Mkdir (ds @ [''a'']) \<and> ''a/b'' \<notin> set (ds @ [''a''])"
  using extract_dir_parent [of "sample_par (zero_header\<lparr>hdr_typeflag := DIRTYPE\<rparr>)" plain_penv "''a/b''" "''a''" "\<lparr>calls = [], results = [], allocs = []\<rparr>"]
  by (simp add: sample_par_def TH_ISDIR_def plain_penv_def env_ok_def nul_free_def)

end
