(* ===== verification/Par_Append.thy ===== *)
theory Par_Append
  imports Par_Archive
begin

text \<open>
  \<open>par/append.c\<close> and \<open>par_append_tree\<close> of \<open>par/wrapper.c\<close>: adding files and directory trees to an
  archive. The files are a function from names to what \<open>lstat\<close>, \<open>open\<close>/\<open>read\<close>, \<open>readlink\<close> and
  \<open>opendir\<close>/\<open>readdir\<close> deliver for them. Hard links are recognised by two levels of hash tables, by
  device and by inode number; \<open>known_name\<close> is the map they implement.
\<close>

section \<open>Data\<close>

record tar_dev =
  td_dev :: u64
  td_h :: addr

record tar_ino =
  ti_ino :: u64
  ti_name :: string

record file_info =
  fi_stat :: stat
  fi_dev :: u64
  fi_ino :: u64
  fi_data :: "read_outcome list option"
  fi_link :: "string option"
  fi_dents :: "int + string list"

text \<open>
  The addresses \<open>strdup\<close> returns for a file's path and link name are functions of its name;
  \<open>data_buf\<close> is the uninitialised block of \<open>par_append_regfile\<close>.
\<close>

record aenv =
  fs :: "string \<Rightarrow> file_info option"
  getpwuid :: "u32 \<Rightarrow> string option"
  getgrgid :: "u32 \<Rightarrow> string option"
  dup_path :: "string \<Rightarrow> u64"
  dup_link :: "string \<Rightarrow> u64"
  data_buf :: "char list"

record par_out =
  out_par :: par
  out_dev :: dev
  out_hash :: "tar_dev libtar_hash"
  out_inos :: "addr \<Rightarrow> tar_ino libtar_hash option"

text \<open>The hash and match functions, applied to the first field of the entries.\<close>

definition dev_hash_cast :: "tar_dev \<Rightarrow> u32 \<Rightarrow> u32 option" where
  "dev_hash_cast d n = Some (word_of_int (dev_hash (td_dev d)))"

definition ino_hash_cast :: "tar_ino \<Rightarrow> u32 \<Rightarrow> u32 option" where
  "ino_hash_cast i n = Some (word_of_int (ino_hash (ti_ino i)))"

definition dev_matches :: "tar_dev \<Rightarrow> tar_dev \<Rightarrow> int" where
  "dev_matches k d = dev_match (td_dev k) (td_dev d)"

definition ino_matches :: "tar_ino \<Rightarrow> tar_ino \<Rightarrow> int" where
  "ino_matches k i = ino_match (ti_ino k) (ti_ino i)"

section \<open>Operations\<close>

text \<open>The entry of a device, added when there is none.\<close>

definition append_find_dev :: "u64 \<Rightarrow> par_out \<Rightarrow> os \<Rightarrow> (tar_dev option \<times> par_out \<times> os) option" where
  "append_find_dev dev out w = do {
     found \<leftarrow> hash_lookup dev_matches \<lparr>td_dev = dev, td_h = 0\<rparr> (out_hash out);
     (case found of Some td \<Rightarrow> Some (Some td, out, w)
      | None \<Rightarrow>
          (case os_alloc w of
             (None, w) \<Rightarrow> Some (None, out, w)
           | (Some _, w) \<Rightarrow>
               (case os_alloc w of
                  (None, w) \<Rightarrow> Some (None, out, w)
                | (Some h, w) \<Rightarrow>
                    (case os_alloc w of (tab, w) \<Rightarrow>
                      (case libtar_hash_new (\<lambda>_ _. None) True (tab \<noteq> None) 256 (Some ino_hash_cast) of
                         None \<Rightarrow> Some (None, out, w)
                       | Some tbl \<Rightarrow> do {
                           let td = \<lparr>td_dev = dev, td_h = h\<rparr>;
                           (r, hash, w) \<leftarrow> hash_add_os (out_hash out) td w;
                           Some (if r = - 1 then None else Some td,
                             out\<lparr>out_hash := hash, out_inos := (out_inos out)(h \<mapsto> tbl)\<rparr>, w)
                         }))))) }"

text \<open>The entry of an inode: the header becomes that of a hard link, or the name is remembered.\<close>

definition append_find_ino :: "u64 \<Rightarrow> tar_dev \<Rightarrow> u64 \<Rightarrow> string \<Rightarrow> par_out \<Rightarrow> os \<Rightarrow> (bool \<times> par_out \<times> os) option" where
  "append_find_ino dup td ino name out w = do {
     tbl \<leftarrow> out_inos out (td_h td);
     found \<leftarrow> hash_lookup ino_matches \<lparr>ti_ino = ino, ti_name = []\<rparr> tbl;
     (case found of
        Some ti \<Rightarrow> do {
          let t = out_par out;
          t \<leftarrow> th_set_link dup (t\<lparr>th_buf := (th_buf t)\<lparr>hdr_typeflag := LNKTYPE\<rparr>\<rparr>) (ti_name ti);
          Some (True, out\<lparr>out_par := t\<rparr>, w)
        }
      | None \<Rightarrow>
          (case os_alloc w of
             (None, w) \<Rightarrow> Some (False, out, w)
           | (Some _, w) \<Rightarrow> do {
               (r, tbl, w) \<leftarrow> hash_add_os tbl \<lparr>ti_ino = ino, ti_name = take (MAXPATHLEN - 1) name\<rparr> w;
               Some (True, out\<lparr>out_inos := (out_inos out)(td_h td \<mapsto> tbl)\<rparr>, w)
             })) }"

text \<open>The target of a symbolic link, the header and the contents of a regular file.\<close>

definition append_entry :: "aenv \<Rightarrow> string \<Rightarrow> file_info \<Rightarrow> par_out \<Rightarrow> (int \<times> par_out) option" where
  "append_entry env realname f out = do {
     (ok, t) \<leftarrow>
       (if TH_ISSYM (th_buf (out_par out)) then
          (case fi_link f of None \<Rightarrow> Some (False, out_par out)
           | Some path \<Rightarrow> map_option (Pair True) (th_set_link (dup_link env realname) (out_par out) (cstr (take (MAXPATHLEN - 1) path))))
        else Some (True, out_par out));
     if \<not> ok then Some (- 1, out)
     else do {
       (r, t, d) \<leftarrow> th_write t (out_dev out);
       let out = out\<lparr>out_par := t, out_dev := d\<rparr>;
       if r \<noteq> 0 then Some (- 1, out)
       else if TH_ISREG (th_buf t) then
         (case par_append_regfile (data_buf env) (fi_data f) t d of
            (r, d) \<Rightarrow> Some (if r \<noteq> 0 then - 1 else 0, out\<lparr>out_dev := d\<rparr>))
       else Some (0, out)
     } }"

definition par_append_file :: "aenv \<Rightarrow> string \<Rightarrow> string option \<Rightarrow> par_out \<Rightarrow> os \<Rightarrow> (int \<times> par_out \<times> os) option" where
  "par_append_file env realname savename out w =
     (case fs env realname of None \<Rightarrow> Some (- 1, out, w)
      | Some f \<Rightarrow> do {
          let name = (case savename of Some s \<Rightarrow> s | None \<Rightarrow> realname);
          (r, h) \<leftarrow> th_set_from_stat (getpwuid env) (getgrgid env) (fi_stat f) zero_header;
          let out = out\<lparr>out_par := (out_par out)\<lparr>th_buf := h\<rparr>\<rparr>;
          if r \<noteq> 0 then Some (- 1, out, w)
          else do {
            t \<leftarrow> th_set_path (dup_path env realname) (out_par out) name;
            (td, out, w) \<leftarrow> append_find_dev (fi_dev f) (out\<lparr>out_par := t\<rparr>) w;
            (case td of None \<Rightarrow> Some (- 1, out, w)
             | Some td \<Rightarrow> do {
                 (ok, out, w) \<leftarrow> append_find_ino (dup_link env realname) td (fi_ino f) name out w;
                 if \<not> ok then Some (- 1, out, w)
                 else map_option (\<lambda>(r, out). (r, out, w)) (append_entry env realname f out)
               })
          }
        })"

section \<open>Trees\<close>

text \<open>\<open>snprintf(path, MAXPATHLEN, "%s/%s", dir, name)\<close>, twice.\<close>

definition join_path :: "string \<Rightarrow> string \<Rightarrow> string" where
  "join_path dir name = take (MAXPATHLEN - 1) (dir @ ''/'' @ name)"

definition ENOTDIR :: int where "ENOTDIR = 20"

text \<open>
  The head of \<open>par_append_tree\<close>, up to \<open>opendir\<close>: \<open>Inl\<close> is a return value, \<open>Inr\<close> the entries to
  go through.
\<close>

definition tree_enter :: "aenv \<Rightarrow> string \<Rightarrow> string option \<Rightarrow> par_out \<Rightarrow> os \<Rightarrow> ((int + string list) \<times> par_out \<times> os) option" where
  "tree_enter env realdir savedir out w = do {
     (r, out, w) \<leftarrow> par_append_file env realdir savedir out w;
     if r \<noteq> 0 then Some (Inl (- 1), out, w)
     else (case fs env realdir of
         None \<Rightarrow> Some (Inl (- 1), out, w)
       | Some f \<Rightarrow>
           (case fi_dents f of
              Inl e \<Rightarrow> Some (Inl (if e = ENOTDIR then 0 else - 1), out, w)
            | Inr dents \<Rightarrow> Some (Inr dents, out, w))) }"

text \<open>The loop of \<open>par_append_tree\<close>; the recursive call is the head, then the loop over its entries.\<close>

partial_function (option) tree_loop ::
  "aenv \<Rightarrow> string \<Rightarrow> string option \<Rightarrow> string list \<Rightarrow> par_out \<Rightarrow> os \<Rightarrow> (int \<times> par_out \<times> os) option" where
  "tree_loop env realdir savedir dents out w =
     (case dents of [] \<Rightarrow> Some (0, out, w)
      | dent # dents \<Rightarrow>
          if dent = ''.'' \<or> dent = ''..'' then tree_loop env realdir savedir dents out w
          else
            let realpath = join_path realdir dent; savepath = map_option (\<lambda>s. join_path s dent) savedir in
            (case fs env realpath of None \<Rightarrow> Some (- 1, out, w)
             | Some f \<Rightarrow>
                 if S_IS S_IFDIR (st_mode (fi_stat f)) then
                   Option.bind (tree_enter env realpath savepath out w) (\<lambda>(e, out, w).
                     Option.bind (case e of Inl r \<Rightarrow> Some (r, out, w) | Inr sub \<Rightarrow> tree_loop env realpath savepath sub out w) (\<lambda>(r, out, w).
                       if r \<noteq> 0 then Some (- 1, out, w) else tree_loop env realdir savedir dents out w))
                 else
                   Option.bind (par_append_file env realpath savepath out w) (\<lambda>(r, out, w).
                     if r \<noteq> 0 then Some (- 1, out, w) else tree_loop env realdir savedir dents out w)))"

definition par_append_tree :: "aenv \<Rightarrow> string \<Rightarrow> string option \<Rightarrow> par_out \<Rightarrow> os \<Rightarrow> (int \<times> par_out \<times> os) option" where
  "par_append_tree env realdir savedir out w = do {
     (e, out, w) \<leftarrow> tree_enter env realdir savedir out w;
     (case e of Inl r \<Rightarrow> Some (r, out, w) | Inr dents \<Rightarrow> tree_loop env realdir savedir dents out w) }"

section \<open>Files one after the other\<close>

text \<open>What the tree routine amounts to: the files of a list of names (with the names they are saved
  under), until one fails.\<close>

fun append_all :: "aenv \<Rightarrow> (string \<times> string option) list \<Rightarrow> par_out \<Rightarrow> os \<Rightarrow> (int \<times> par_out \<times> os) option" where
  "append_all env [] out w = Some (0, out, w)"
| "append_all env ((r, s) # xs) out w =
     Option.bind (par_append_file env r s out w) (\<lambda>(i, out, w). if i \<noteq> 0 then Some (- 1, out, w) else append_all env xs out w)"

text \<open>A directory tree as \<open>readdir\<close> delivers it, without the entries for itself and its parent.\<close>

datatype tree = File | Dir "(string \<times> tree) list"

fun tree_names :: "string \<Rightarrow> string option \<Rightarrow> tree \<Rightarrow> (string \<times> string option) list" where
  "tree_names r s File = [(r, s)]"
| "tree_names r s (Dir ts) =
     (r, s) # concat (map (\<lambda>(n, t). tree_names (join_path r n) (map_option (\<lambda>s. join_path s n) s) t) ts)"

definition dots :: "string \<Rightarrow> bool" where
  "dots n \<longleftrightarrow> n = ''.'' \<or> n = ''..''"

text \<open>The files under a name are those of a tree.\<close>

fun tree_at :: "aenv \<Rightarrow> string \<Rightarrow> tree \<Rightarrow> bool" where
  "tree_at env r File \<longleftrightarrow> (\<exists>f. fs env r = Some f \<and> \<not> S_IS S_IFDIR (st_mode (fi_stat f)) \<and> fi_dents f = Inl ENOTDIR)"
| "tree_at env r (Dir ts) \<longleftrightarrow>
     (\<exists>f dents. fs env r = Some f \<and> S_IS S_IFDIR (st_mode (fi_stat f)) \<and> fi_dents f = Inr dents \<and>
        filter (\<lambda>n. \<not> dots n) dents = map fst ts) \<and>
     (\<forall>(n, t)\<in>set ts. tree_at env (join_path r n) t)"

lemma append_all_append:
  "append_all env (xs @ ys) out w =
     Option.bind (append_all env xs out w) (\<lambda>(i, out, w). if i \<noteq> 0 then Some (- 1, out, w) else append_all env ys out w)"
  by (induction env xs out w rule: append_all.induct) (auto split: bind_splits)

definition sub_names :: "string \<Rightarrow> string option \<Rightarrow> (string \<times> tree) list \<Rightarrow> (string \<times> string option) list" where
  "sub_names r s ts = concat (map (\<lambda>(n, t). tree_names (join_path r n) (map_option (\<lambda>s. join_path s n) s) t) ts)"

lemma sub_names_simps:
  "sub_names r s [] = []"
  "sub_names r s ((n, t) # ts) = tree_names (join_path r n) (map_option (\<lambda>s. join_path s n) s) t @ sub_names r s ts"
  "tree_names r s (Dir ts) = (r, s) # sub_names r s ts"
  by (simp_all add: sub_names_def)

text \<open>A call of \<open>par_append_tree\<close> inside the loop.\<close>

lemma par_append_tree_call:
  "par_append_tree env r s out w =
     Option.bind (tree_enter env r s out w) (\<lambda>(e, out, w). case e of Inl r \<Rightarrow> Some (r, out, w) | Inr sub \<Rightarrow> tree_loop env r s sub out w)"
  by (simp add: par_append_tree_def)

lemma tree_loop_Cons:
  assumes "\<not> dots dent" "fs env (join_path r dent) = Some f"
  shows "tree_loop env r s (dent # dents) out w =
    Option.bind (if S_IS S_IFDIR (st_mode (fi_stat f)) then par_append_tree env (join_path r dent) (map_option (\<lambda>s. join_path s dent) s) out w
                 else par_append_file env (join_path r dent) (map_option (\<lambda>s. join_path s dent) s) out w)
      (\<lambda>(i, out, w). if i \<noteq> 0 then Some (- 1, out, w) else tree_loop env r s dents out w)"
  using assms
  by (subst tree_loop.simps)
    (cases "tree_enter env (join_path r dent) (map_option (\<lambda>s. join_path s dent) s) out w";
     auto simp: dots_def Let_def par_append_tree_call split: sum.splits)

lemma tree_loop_names:
  assumes "\<And>t r s out w. t \<in> snd ` set ts \<Longrightarrow> tree_at env r t \<Longrightarrow> par_append_tree env r s out w = append_all env (tree_names r s t) out w"
    and "filter (\<lambda>n. \<not> dots n) dents = map fst ts" "\<forall>(n, t)\<in>set ts. tree_at env (join_path r n) t"
  shows "tree_loop env r s dents out w = append_all env (sub_names r s ts) out w"
  using assms
proof (induction dents arbitrary: ts out w)
  case Nil
  then show ?case by (subst tree_loop.simps) (simp add: sub_names_simps)
next
  case (Cons dent dents)
  show ?case
  proof (cases "dots dent")
    case True
    then show ?thesis using Cons.IH [of ts] Cons.prems by (subst tree_loop.simps) (auto simp: dots_def)
  next
    case False
    then obtain t ts' where ts: "ts = (dent, t) # ts'" "filter (\<lambda>n. \<not> dots n) dents = map fst ts'" using Cons.prems(2) by (cases ts) auto
    have at: "tree_at env (join_path r dent) t" using Cons.prems(3) by (simp add: ts)
    then obtain f where f: "fs env (join_path r dent) = Some f" "S_IS S_IFDIR (st_mode (fi_stat f)) \<longleftrightarrow> t \<noteq> File" by (cases t) auto
    have IH: "tree_loop env r s dents out w = append_all env (sub_names r s ts') out w" for out w
      using Cons.IH [OF _ ts(2)] Cons.prems(1,3) by (simp add: ts(1))
    let ?r = "join_path r dent" and ?s = "map_option (\<lambda>s. join_path s dent) s"
    have "(if S_IS S_IFDIR (st_mode (fi_stat f)) then par_append_tree env ?r ?s out w else par_append_file env ?r ?s out w) \<bind>
        (\<lambda>(i, out, w). if i \<noteq> 0 then Some (- 1, out, w) else append_all env (sub_names r s ts') out w) =
      append_all env (tree_names ?r ?s t @ sub_names r s ts') out w"
    proof (cases "t = File")
      case True
      then show ?thesis using f(2) by (simp add: append_all_append)
    next
      case False
      then show ?thesis using f(2) Cons.prems(1) [of t ?r ?s out w] at by (simp add: ts append_all_append)
    qed
    then show ?thesis unfolding tree_loop_Cons [OF False f(1)] IH by (simp add: ts sub_names_simps)
  qed
qed

lemma tree_appended: "tree_at env r t \<Longrightarrow> par_append_tree env r s out w = append_all env (tree_names r s t) out w"
proof (induction t arbitrary: r s out w)
  case File
  then show ?case
    by (cases "par_append_file env r s out w") (auto simp: par_append_tree_def tree_enter_def)
next
  case (Dir ts)
  obtain f dents where f: "fs env r = Some f" "fi_dents f = Inr dents" "filter (\<lambda>n. \<not> dots n) dents = map fst ts"
    using Dir.prems by auto
  have "tree_loop env r s dents out w = append_all env (sub_names r s ts) out w" for out w
    using Dir.IH Dir.prems f(3) by (intro tree_loop_names) (auto simp: snds.simps elim!: imageE)
  then show ?case using f(1,2) unfolding sub_names_simps(3)
    by (cases "par_append_file env r s out w") (auto simp: par_append_tree_def tree_enter_def)
qed

section \<open>Hard links\<close>

abbreviation dev_found :: "par_out \<Rightarrow> u64 \<Rightarrow> tar_dev \<Rightarrow> bool" where
  "dev_found out dev td \<equiv> hash_lookup dev_matches \<lparr>td_dev = dev, td_h = 0\<rparr> (out_hash out) = Some (Some td)"

abbreviation ino_lookup :: "u64 \<Rightarrow> tar_ino libtar_hash \<Rightarrow> tar_ino option option" where
  "ino_lookup ino tbl \<equiv> hash_lookup ino_matches \<lparr>ti_ino = ino, ti_name = []\<rparr> tbl"

text \<open>The name under which the file with a device and inode number was added.\<close>

definition known_name :: "par_out \<Rightarrow> u64 \<times> u64 \<Rightarrow> string option" where
  "known_name out = (\<lambda>(dev, ino).
     case hash_lookup dev_matches \<lparr>td_dev = dev, td_h = 0\<rparr> (out_hash out) of
       Some (Some td) \<Rightarrow> Option.bind (out_inos out (td_h td)) (\<lambda>tbl. Option.bind (ino_lookup ino tbl) (map_option ti_name))
     | _ \<Rightarrow> None)"

definition tables_ok :: "par_out \<Rightarrow> addr list \<Rightarrow> bool" where
  "tables_ok out free \<longleftrightarrow>
     hash_inv dev_matches (out_hash out) \<and> (\<forall>a\<in>set free. hash_fresh a (out_hash out) \<and> out_inos out a = None) \<and>
     (\<forall>dev td. dev_found out dev td \<longrightarrow>
        (\<exists>tbl. out_inos out (td_h td) = Some tbl \<and> hash_inv ino_matches tbl \<and> (\<forall>a\<in>set free. hash_fresh a tbl))) \<and>
     (\<forall>dev dev' td td'. dev_found out dev td \<longrightarrow> dev_found out dev' td' \<longrightarrow> td_h td = td_h td' \<longrightarrow> dev = dev') \<and>
     (\<exists>tds. libtar_hash_free (out_hash out) = Some tds \<and> distinct tds \<and> (\<forall>td\<in>set tds. dev_found out (td_dev td) td))"

lemma tables_okD:
  assumes "tables_ok out free"
  shows "hash_inv dev_matches (out_hash out)" "a \<in> set free \<Longrightarrow> hash_fresh a (out_hash out)" "a \<in> set free \<Longrightarrow> out_inos out a = None"
    and "dev_found out dev td \<Longrightarrow> \<exists>tbl. out_inos out (td_h td) = Some tbl \<and> hash_inv ino_matches tbl \<and> (\<forall>a\<in>set free. hash_fresh a tbl)"
    and "dev_found out dev td \<Longrightarrow> dev_found out dev' td' \<Longrightarrow> td_h td = td_h td' \<Longrightarrow> dev = dev'"
    and "\<exists>tds. libtar_hash_free (out_hash out) = Some tds \<and> distinct tds \<and> (\<forall>td\<in>set tds. dev_found out (td_dev td) td)"
  using assms unfolding tables_ok_def by blast+

lemma hash_add_os_put:
  assumes "hash_put (\<lambda>_ _. 0) None a x h = Some h'" "allocs w = l # a # free"
  shows "hash_add_os h x w = Some (0, h', w\<lparr>allocs := free\<rparr>)"
  using assms by (auto simp: hash_add_os_def hash_put_def os_alloc_def split: option.splits if_splits)

lemma to_int_small: "0 \<le> x \<Longrightarrow> x < 2 ^ 31 \<Longrightarrow> to_int x = x"
  by (simp add: to_int_def signed_take_bit_int_eq_self_iff)

lemma unat_to_int:
  fixes x :: u64
  assumes "uint x < 2 ^ 31"
  shows "unat (word_of_int (to_int (uint x)) :: u32) = unat x"
proof -
  have "to_int (uint x) = uint x" using assms by (simp add: to_int_small)
  then show ?thesis using assms by (simp only: unat_eq_nat_uint uint_word_of_int) (simp add: take_bit_int_eq_self)
qed

lemma ino_table_new:
  "\<exists>tbl. libtar_hash_new (\<lambda>_ _. None) True True 256 (Some ino_hash_cast) = Some tbl \<and> hash_inv ino_matches tbl \<and>
     (\<forall>a. hash_fresh a tbl) \<and> (\<forall>ino. ino_lookup ino tbl = Some None)"
proof -
  obtain tbl where tbl: "libtar_hash_new (\<lambda>_ _. None) True True 256 (Some ino_hash_cast) = Some tbl" by (simp add: libtar_hash_new_def)
  have "\<exists>u. ino_hash_cast d (word_of_int 256) = Some u \<and> unat u < nat 256" for d
  proof -
    let ?x = "ti_ino d mod 256"
    have "uint ?x < 256" by (simp add: uint_mod)
    then have lt: "unat (word_of_int (ino_hash (ti_ino d)) :: u32) = unat ?x" unfolding ino_hash_def by (intro unat_to_int) simp
    then show ?thesis by (simp add: ino_hash_cast_def unat_mod)
  qed
  then show ?thesis using libtar_hash_new_inv [OF _ _ tbl, of ino_matches] tbl
    by (auto simp: ino_matches_def ino_match_def ino_hash_cast_def)
qed

lemma dev_lookup_put:
  assumes "hash_inv dev_matches h" "hash_fresh a h" "hash_put sc junk a td h = Some h'"
  shows "hash_lookup dev_matches \<lparr>td_dev = dev, td_h = 0\<rparr> h' =
    Some (case the (hash_lookup dev_matches \<lparr>td_dev = dev, td_h = 0\<rparr> h) of Some x \<Rightarrow> Some x | None \<Rightarrow> if dev = td_dev td then Some td else None)"
  using hash_store.lookup_put [OF assms] hash_store.lookup_ok [OF assms(1), of "\<lparr>td_dev = dev, td_h = 0\<rparr>"]
  by (auto simp: dev_matches_def dev_match_def)

lemma ino_lookup_put:
  assumes "hash_inv ino_matches h" "hash_fresh a h" "hash_put sc junk a ti h = Some h'"
  shows "ino_lookup ino h' =
    Some (case the (ino_lookup ino h) of Some x \<Rightarrow> Some x | None \<Rightarrow> if ino = ti_ino ti then Some ti else None)"
  using hash_store.lookup_put [OF assms] hash_store.lookup_ok [OF assms(1), of "\<lparr>ti_ino = ino, ti_name = []\<rparr>"]
  by (auto simp: ino_matches_def ino_match_def)

lemma find_dev_ok:
  assumes "tables_ok out (allocs w)" "distinct (allocs w)" "5 \<le> length (allocs w)"
  shows "\<exists>td out' k. append_find_dev dev out w = Some (Some td, out', w\<lparr>allocs := drop k (allocs w)\<rparr>) \<and> k \<le> 5 \<and>
    dev_found out' dev td \<and> tables_ok out' (drop k (allocs w)) \<and> known_name out' = known_name out \<and>
    out_par out' = out_par out \<and> out_dev out' = out_dev out"
proof -
  note ok = tables_okD [OF assms(1)]
  note inv = ok(1)
  obtain r where r: "hash_lookup dev_matches \<lparr>td_dev = dev, td_h = 0\<rparr> (out_hash out) = Some r"
    using hash_store.lookup_ok [OF inv, of "\<lparr>td_dev = dev, td_h = 0\<rparr>"] by auto
  show ?thesis
  proof (cases r)
    case (Some td)
    then show ?thesis using r assms(1) by (intro exI [of _ td] exI [of _ out] exI [of _ 0]) (simp add: append_find_dev_def)
  next
    case None
    obtain x h tb l a free where al: "allocs w = x # h # tb # l # a # free"
      using assms(3) by (auto simp: numeral_eq_Suc Suc_le_length_iff)
    obtain tbl where tbl: "libtar_hash_new (\<lambda>_ _. None) True True 256 (Some ino_hash_cast) = Some tbl" "hash_inv ino_matches tbl"
        "\<forall>a. hash_fresh a tbl" "\<forall>ino. ino_lookup ino tbl = Some None"
      using ino_table_new by blast
    let ?td = "\<lparr>td_dev = dev, td_h = h\<rparr>"
    have fr: "hash_fresh a (out_hash out)" "\<forall>b\<in>set free. hash_fresh b (out_hash out) \<and> b \<noteq> a"
      using ok(2) assms(2) by (auto simp: al)
    obtain hash where hash: "hash_put (\<lambda>_ _. 0) None a ?td (out_hash out) = Some hash" "hash_inv dev_matches hash"
      using hash_store.put_ok [OF inv fr(1), of "\<lambda>_ _. 0" None ?td] by blast
    let ?out = "out\<lparr>out_hash := hash, out_inos := (out_inos out)(h \<mapsto> tbl)\<rparr>"
    have look: "hash_lookup dev_matches \<lparr>td_dev = dev', td_h = 0\<rparr> hash =
        (if dev' = dev then Some (Some ?td) else hash_lookup dev_matches \<lparr>td_dev = dev', td_h = 0\<rparr> (out_hash out))" for dev'
      using dev_lookup_put [OF inv fr(1) hash(1), of dev'] r None hash_store.lookup_ok [OF inv, of "\<lparr>td_dev = dev', td_h = 0\<rparr>"]
      by (auto split: option.splits)
    have other: "td_h td \<noteq> h" if "dev_found out dev' td" for dev' td
      using ok(3) [of h] ok(4) [OF that] by (auto simp: al)
    have "append_find_dev dev out w = Some (Some ?td, ?out, w\<lparr>allocs := free\<rparr>)"
      using r None tbl(1) hash_add_os_put [OF hash(1), of "w\<lparr>allocs := l # a # free\<rparr>" l free]
      by (simp add: append_find_dev_def os_alloc_def al Let_def)
    moreover have "tables_ok ?out free"
      unfolding tables_ok_def
    proof (intro conjI allI impI ballI)
      show "hash_inv dev_matches (out_hash ?out)" using hash(2) by simp
    next
      fix b assume b: "b \<in> set free"
      then show "hash_fresh b (out_hash ?out)" using hash_store.fresh_put [OF inv fr(1) _ _ hash(1)] fr(2) by simp
      show "out_inos ?out b = None" using ok(3) [of b] assms(2) b by (auto simp: al)
    next
      fix dev' td assume "dev_found ?out dev' td"
      then show "\<exists>tbl. out_inos ?out (td_h td) = Some tbl \<and> hash_inv ino_matches tbl \<and> (\<forall>a\<in>set free. hash_fresh a tbl)"
        using ok(4) [of dev' td] other [of dev' td] tbl(2,3) look [of dev'] by (cases "dev' = dev") (auto simp: al)
    next
      fix dev' dev'' td td'
      assume f: "dev_found ?out dev' td" "dev_found ?out dev'' td'" and h: "td_h td = td_h td'"
      have "dev' = dev \<and> td_h td = h \<or> dev_found out dev' td" using f(1) look [of dev'] by (auto split: if_split_asm)
      moreover have "dev'' = dev \<and> td_h td' = h \<or> dev_found out dev'' td'" using f(2) look [of dev''] by (auto split: if_split_asm)
      ultimately show "dev' = dev''" using ok(5) [of dev' td dev'' td'] other [of dev' td] other [of dev'' td'] h by metis
    next
      obtain tds where tds: "libtar_hash_free (out_hash out) = Some tds" "distinct tds" "\<forall>td\<in>set tds. dev_found out (td_dev td) td"
        using ok(6) by blast
      have "?td \<notin> set tds" using tds(3) other [of dev ?td] by auto
      then obtain tds' where tds': "libtar_hash_free hash = Some tds'" "distinct tds'" "set tds' = insert ?td (set tds)"
        using hash_listed.contents_put_fresh [OF inv fr(1) hash(1) tds(1,2)] by blast
      have "dev_found ?out (td_dev td) td" if "td \<in> set tds" for td
        using tds(3) that look [of "td_dev td"] r None by auto
      then show "\<exists>tds. libtar_hash_free (out_hash ?out) = Some tds \<and> distinct tds \<and> (\<forall>td\<in>set tds. dev_found ?out (td_dev td) td)"
        using tds' look [of dev] by (intro exI [of _ tds']) auto
    qed
    moreover have "known_name ?out (dev', ino) = known_name out (dev', ino)" for dev' ino
    proof (cases "dev' = dev")
      case True
      then show ?thesis using look [of dev] tbl(4) r None by (simp add: known_name_def)
    next
      case False
      then have "hash_lookup dev_matches \<lparr>td_dev = dev', td_h = 0\<rparr> hash = hash_lookup dev_matches \<lparr>td_dev = dev', td_h = 0\<rparr> (out_hash out)"
        using look [of dev'] by simp
      then show ?thesis using other [of dev'] by (simp add: known_name_def split: option.split)
    qed
    moreover have "dev_found ?out dev ?td" using look [of dev] by simp
    ultimately show ?thesis by (intro exI [of _ ?td] exI [of _ ?out] exI [of _ 5]) (simp add: al fun_eq_iff)
  qed
qed

lemma find_ino_known:
  assumes "dev_found out dev td" "known_name out (dev, ino) = Some n"
  shows "append_find_ino dup td ino name out w =
    map_option (\<lambda>t. (True, out\<lparr>out_par := t\<rparr>, w))
      (th_set_link dup ((out_par out)\<lparr>th_buf := (th_buf (out_par out))\<lparr>hdr_typeflag := LNKTYPE\<rparr>\<rparr>) n)"
proof -
  obtain tbl ti where "out_inos out (td_h td) = Some tbl" "ino_lookup ino tbl = Some (Some ti)" "ti_name ti = n"
    using assms by (auto simp: known_name_def bind_eq_Some_conv)
  then show ?thesis by (auto simp: append_find_ino_def Let_def map_option_case split: option.split)
qed

lemma find_ino_new:
  assumes "tables_ok out (allocs w)" "dev_found out dev td" "known_name out (dev, ino) = None"
    and "allocs w = x # l # a # free" "distinct (allocs w)"
  shows "\<exists>out'. append_find_ino dup td ino name out w = Some (True, out', w\<lparr>allocs := free\<rparr>) \<and> tables_ok out' free \<and>
    known_name out' = (known_name out)((dev, ino) \<mapsto> take (MAXPATHLEN - 1) name) \<and> out_par out' = out_par out \<and> out_dev out' = out_dev out"
proof -
  note ok = tables_okD [OF assms(1)]
  obtain tbl where tbl: "out_inos out (td_h td) = Some tbl" "hash_inv ino_matches tbl" "\<forall>a\<in>set (allocs w). hash_fresh a tbl"
    using ok(4) [OF assms(2)] by blast
  have fr: "hash_fresh a tbl" using tbl(3) assms(4) by simp
  let ?ti = "\<lparr>ti_ino = ino, ti_name = take (MAXPATHLEN - 1) name\<rparr>"
  obtain tbl' where tbl': "hash_put (\<lambda>_ _. 0) None a ?ti tbl = Some tbl'" "hash_inv ino_matches tbl'"
    using hash_store.put_ok [OF tbl(2) fr, of "\<lambda>_ _. 0" None ?ti] by blast
  have none: "ino_lookup ino tbl = Some None"
    using hash_store.lookup_ok [OF tbl(2), of "\<lparr>ti_ino = ino, ti_name = []\<rparr>"] assms(2,3) tbl(1) by (auto simp: known_name_def)
  have look: "ino_lookup i tbl' = (if i = ino then Some (Some ?ti) else ino_lookup i tbl)" for i
    using ino_lookup_put [OF tbl(2) fr tbl'(1), of i] none hash_store.lookup_ok [OF tbl(2), of "\<lparr>ti_ino = i, ti_name = []\<rparr>"]
    by (auto split: option.split)
  let ?out = "out\<lparr>out_inos := (out_inos out)(td_h td \<mapsto> tbl')\<rparr>"
  have "append_find_ino dup td ino name out w = Some (True, ?out, w\<lparr>allocs := free\<rparr>)"
    using tbl(1) none hash_add_os_put [OF tbl'(1), of "w\<lparr>allocs := l # a # free\<rparr>" l free] assms(4)
    by (simp add: append_find_ino_def os_alloc_def)
  moreover have "tables_ok ?out free"
    unfolding tables_ok_def
  proof (intro conjI allI impI ballI)
    show "hash_inv dev_matches (out_hash ?out)" using ok(1) by simp
  next
    fix b assume b: "b \<in> set free"
    then show "hash_fresh b (out_hash ?out)" using ok(2) [of b] assms(4) by simp
    show "out_inos ?out b = None" using ok(3) [of b] b tbl(1) assms(4) by auto
  next
    fix dev' td' assume "dev_found ?out dev' td'"
    moreover have "\<forall>b\<in>set free. hash_fresh b tbl'"
      using hash_store.fresh_put [OF tbl(2) fr _ _ tbl'(1)] tbl(3) assms(4,5) by auto
    ultimately show "\<exists>tbl. out_inos ?out (td_h td') = Some tbl \<and> hash_inv ino_matches tbl \<and> (\<forall>a\<in>set free. hash_fresh a tbl)"
      using ok(4) [of dev' td'] tbl'(2) assms(4) by (cases "td_h td' = td_h td") auto
  next
    fix dev' dev'' td1 td2 assume "dev_found ?out dev' td1" "dev_found ?out dev'' td2" "td_h td1 = td_h td2"
    then show "dev' = dev''" using ok(5) [of dev' td1 dev'' td2] by simp
  next
    show "\<exists>tds. libtar_hash_free (out_hash ?out) = Some tds \<and> distinct tds \<and> (\<forall>td\<in>set tds. dev_found ?out (td_dev td) td)"
      using ok(6) by simp
  qed
  moreover have "known_name ?out (d, i) = ((known_name out)((dev, ino) \<mapsto> take (MAXPATHLEN - 1) name)) (d, i)" for d i
  proof (cases "d = dev")
    case True
    then show ?thesis using assms(2) look [of i] tbl(1) by (simp add: known_name_def)
  next
    case False
    then have "td_h td' \<noteq> td_h td" if "dev_found out d td'" for td' using ok(5) [OF that assms(2)] by blast
    then show ?thesis using False by (simp add: known_name_def split: option.split)
  qed
  ultimately show ?thesis by (intro exI [of _ ?out]) (simp add: fun_eq_iff)
qed

section \<open>The header of a regular file\<close>

lemma length_int_to_oct [simp]: "n \<le> length oct \<Longrightarrow> length (int_to_oct num oct n) = length oct"
  by (simp add: int_to_oct_def length_snprintf)

lemma length_int_to_oct_nonull [simp]: "n \<le> length oct \<Longrightarrow> length (int_to_oct_nonull num oct n) = length oct"
  by (simp add: int_to_oct_nonull_def length_snprintf)

lemma size_field:
  assumes "header_ok h" "hdr_size h = int_to_oct_nonull n oct 12" "length oct = 12" "0 \<le> n" "n < 2 ^ 31"
  shows "th_get_size h = word_of_int n"
proof -
  have "drop 124 (block_of h) = hdr_size h @ drop 136 (block_of h)" using assms(1) by (simp add: header_ok_def block_of_def)
  then show ?thesis using int_to_oct_nonull_scan [OF assms(4,5,3)] assms(2) by (simp add: th_get_size_def oct_to_size_def)
qed

lemma mode_field:
  assumes "header_ok h" "hdr_mode h = int_to_oct (ucast m) oct 8" "length oct = 8" "unat m < 8 ^ 6"
  shows "hdr_mode_bits h = m"
proof -
  have "drop 100 (block_of h) = hdr_mode h @ drop 108 (block_of h)" using assms(1) by (simp add: header_ok_def block_of_def)
  moreover have "unat (ucast m :: u64) = unat m"
    using unsigned_less [of m, where 'a = nat] by (simp add: unsigned_ucast_eq take_bit_nat_eq_self)
  moreover have "ucast (ucast m :: u64) = m" by (rule bit_word_eqI) (simp add: bit_simps)
  ultimately show ?thesis using int_to_oct_scan [of "ucast m" oct] assms(2-4)
    by (simp add: hdr_mode_bits_def oct_to_int_def)
qed

text \<open>\<open>th_set_from_stat\<close> for a regular file, on the cleared header.\<close>

definition names_ok :: "aenv \<Rightarrow> bool" where
  "names_ok env \<longleftrightarrow> (\<forall>u n. getpwuid env u = Some n \<or> getgrgid env u = Some n \<longrightarrow> nul_free n)"

lemma strlcpy_total: "nul_free n \<Longrightarrow> length buf = 32 \<Longrightarrow> \<exists>f. strlcpy buf (n @ [nul]) 32 = Some (length n, f) \<and> length f = 32"
  using strlcpy_eq [of n 32 buf "[]"] by (auto simp: nul_free_def overwrite_def)

lemma regular_only:
  assumes "S_IS S_IFREG m"
  shows "\<not> S_IS S_IFCHR m" "\<not> S_IS S_IFBLK m" "\<not> S_IS S_IFIFO m" "\<not> S_IS S_IFSOCK m" "\<not> S_IS S_IFLNK m" "\<not> S_IS S_IFDIR m"
proof -
  have m: "m AND S_IFMT = S_IFREG" using assms by (simp only: S_IS_def)
  show "\<not> S_IS S_IFCHR m" "\<not> S_IS S_IFBLK m" "\<not> S_IS S_IFIFO m" "\<not> S_IS S_IFSOCK m" "\<not> S_IS S_IFLNK m" "\<not> S_IS S_IFDIR m"
    unfolding S_IS_def m by (simp_all add: file_type_defs)
qed

lemma user_set:
  assumes "names_ok env" "length (hdr_uname h) = 32"
  shows "\<exists>u. length u = 32 \<and> th_set_user (getpwuid env) uid h = Some (h\<lparr>hdr_uname := u, hdr_uid := int_to_oct (ucast uid) (hdr_uid h) 8\<rparr>)"
proof (cases "getpwuid env uid")
  case None
  then show ?thesis using assms(2) by (intro exI [of _ "hdr_uname h"]) (simp add: th_set_user_def)
next
  case (Some n)
  then have "nul_free n" using assms(1) by (auto simp: names_ok_def)
  then obtain f where "strlcpy (hdr_uname h) (n @ [nul]) 32 = Some (length n, f)" "length f = 32"
    using strlcpy_total assms(2) by blast
  then show ?thesis using Some by (intro exI [of _ f]) (simp add: th_set_user_def)
qed

lemma group_set:
  assumes "names_ok env" "length (hdr_gname h) = 32"
  shows "\<exists>g. length g = 32 \<and> th_set_group (getgrgid env) gid h = Some (h\<lparr>hdr_gname := g, hdr_gid := int_to_oct (ucast gid) (hdr_gid h) 8\<rparr>)"
proof (cases "getgrgid env gid")
  case None
  then show ?thesis using assms(2) by (intro exI [of _ "hdr_gname h"]) (simp add: th_set_group_def)
next
  case (Some n)
  then have "nul_free n" using assms(1) by (auto simp: names_ok_def)
  then obtain f where "strlcpy (hdr_gname h) (n @ [nul]) 32 = Some (length n, f)" "length f = 32"
    using strlcpy_total assms(2) by blast
  then show ?thesis using Some by (intro exI [of _ f]) (simp add: th_set_group_def)
qed

lemma regular_stat_header:
  assumes "names_ok env" "S_IS S_IFREG (st_mode st)"
  shows "\<exists>h. th_set_from_stat (getpwuid env) (getgrgid env) st zero_header = Some (0, h) \<and> header_ok h \<and> hdr_typeflag h = REGTYPE \<and>
    hdr_mode h = int_to_oct (ucast (st_mode st)) (hdr_mode zero_header) 8 \<and>
    hdr_size h = int_to_oct_nonull (to_int (st_size st)) (hdr_size zero_header) 12 \<and>
    hd (hdr_prefix h) = nul \<and> gnu_longname h = 0 \<and> gnu_longlink h = 0"
proof -
  note other = regular_only [OF assms(2)]
  let ?h0 = "zero_header\<lparr>hdr_typeflag := REGTYPE\<rparr>"
  have z: "header_ok zero_header" by (rule zero_header_facts)
  have ty: "th_set_type (st_mode st) zero_header = ?h0" using assms(2) other by (simp add: th_set_type_def Let_def)
  obtain u where u: "length u = 32" "th_set_user (getpwuid env) (st_uid st) ?h0 =
      Some (?h0\<lparr>hdr_uname := u, hdr_uid := int_to_oct (ucast (st_uid st)) (hdr_uid ?h0) 8\<rparr>)"
    using user_set [OF assms(1), of ?h0 "st_uid st"] z by (auto simp: header_ok_def)
  let ?h1 = "?h0\<lparr>hdr_uname := u, hdr_uid := int_to_oct (ucast (st_uid st)) (hdr_uid ?h0) 8\<rparr>"
  obtain g where g: "length g = 32" "th_set_group (getgrgid env) (st_gid st) ?h1 =
      Some (?h1\<lparr>hdr_gname := g, hdr_gid := int_to_oct (ucast (st_gid st)) (hdr_gid ?h1) 8\<rparr>)"
    using group_set [OF assms(1), of ?h1 "st_gid st"] z by (auto simp: header_ok_def)
  have st: "th_set_from_stat (getpwuid env) (getgrgid env) st zero_header =
      Some (0, th_set_size (st_size st) (th_set_mtime (st_mtime st) (th_set_mode (st_mode st)
        (?h1\<lparr>hdr_gname := g, hdr_gid := int_to_oct (ucast (st_gid st)) (hdr_gid ?h1) 8\<rparr>))))"
    using other assms(2) ty u(2) g(2) by (simp add: th_set_from_stat_def Let_def)
  show ?thesis unfolding st using z u(1) g(1) zero_header_facts(3-5)
    by (simp add: header_ok_def th_set_size_def th_set_mtime_def th_set_mode_def)
qed

text \<open>Setting a short path on it.\<close>

lemma regular_entry:
  assumes "names_ok env" "S_IS S_IFREG (st_mode st)" "unat (st_mode st) < 8 ^ 6" "st_size st = int (length s)" "length s < 2 ^ 31"
    and "nul_free name" "name \<noteq> []" "length name < T_NAMELEN"
  shows "\<exists>h0 h. th_set_from_stat (getpwuid env) (getgrgid env) st zero_header = Some (0, h0) \<and>
    (\<forall>t. th_buf t = h0 \<longrightarrow> th_set_path dup t name = Some (t\<lparr>th_buf := h\<rparr>)) \<and> entry_ok (h, s) \<and> entry_name h = safer_name_suffix name \<and>
    \<not> TH_ISSYM h \<and> hdr_mode h = int_to_oct (ucast (st_mode st)) (hdr_mode zero_header) 8"
proof -
  obtain h0 where h0: "th_set_from_stat (getpwuid env) (getgrgid env) st zero_header = Some (0, h0)" "header_ok h0" "hdr_typeflag h0 = REGTYPE"
      "hdr_mode h0 = int_to_oct (ucast (st_mode st)) (hdr_mode zero_header) 8"
      "hdr_size h0 = int_to_oct_nonull (to_int (st_size st)) (hdr_size zero_header) 12"
      "hd (hdr_prefix h0) = nul" "gnu_longname h0 = 0" "gnu_longlink h0 = 0"
    using regular_stat_header [OF assms(1,2)] by blast
  let ?n = "snprintf_to (hdr_name h0) 100 name"
  let ?h = "h0\<lparr>hdr_name := ?n\<rparr>"
  have z: "header_ok zero_header" by (rule zero_header_facts)
  have nlen: "length (hdr_name h0) = 100" using h0(2) by (simp add: header_ok_def)
  have ok: "header_ok ?h" using h0(2) nlen by (simp add: header_ok_def length_snprintf)
  have mode: "hdr_mode_bits h' = st_mode st" if "header_ok h'" "hdr_mode h' = hdr_mode h0" for h'
    using mode_field [OF that(1), of "st_mode st" "hdr_mode zero_header"] that(2) h0(4) z assms(3) by (simp add: header_ok_def)
  have kinds: "\<not> TH_ISDIR h'" "\<not> TH_ISSYM h'" if "header_ok h'" "hdr_mode h' = hdr_mode h0" "hdr_typeflag h' = REGTYPE" for h'
    using mode [OF that(1,2)] that(3) regular_only [OF assms(2)] by (simp_all add: TH_ISDIR_def TH_ISSYM_def type_defs)
  have "to_int (st_size st) = int (length s)" using assms(4,5) by (simp add: to_int_small)
  then have size: "th_get_size (th_finish ?h) = of_nat (length s)"
    using size_field [OF th_finish_ok [OF ok], of "int (length s)" "hdr_size zero_header"] h0(5) z assms(5)
    by (simp add: header_ok_def th_finish_def Let_def)
  have fin: "hdr_mode (th_finish ?h) = hdr_mode h0" "hdr_typeflag (th_finish ?h) = REGTYPE" using h0(3) by (simp_all add: th_finish_def Let_def)
  have n: "?n = name @ nul # drop (Suc (length name)) (hdr_name h0)"
    using assms(8) nlen by (simp add: snprintf_to_def overwrite_def T_NAMELEN_def)
  have "hd ?n \<noteq> nul" using assms(6,7) unfolding n by (cases name) (auto simp: nul_free_def)
  then have entry: "entry_ok (?h, s)"
    using ok h0(3,6-8) size kinds [OF th_finish_ok [OF ok] fin] assms(5) by (simp add: entry_ok_def)
  have same: "h0\<lparr>gnu_longname := 0\<rparr> = h0" by (rule par_file_header.equality) (simp_all add: h0(7))
  have path: "th_set_path dup t name = Some (t\<lparr>th_buf := ?h\<rparr>)" if "th_buf t = h0" for t
    using that assms(7,8) kinds(1) [OF h0(2) refl h0(3)] h0(7) by (simp add: th_set_path_def Let_def same T_NAMELEN_def)
  have "cstr (take 100 ?n) = name" using assms(6,8) snprintf_cstr [of name 100 "hdr_name h0"] nlen length_snprintf [of 100 "hdr_name h0" name]
    by (simp add: T_NAMELEN_def)
  then have "entry_name ?h = safer_name_suffix name" by (simp add: entry_name_def)
  then show ?thesis using h0(1,3,4) path entry kinds(2) [OF ok _ _] by (intro exI [of _ h0] exI [of _ ?h]) simp
qed

section \<open>Files and archives\<close>

text \<open>A regular file with the contents \<open>s\<close>.\<close>

definition regular :: "file_info \<Rightarrow> string \<Rightarrow> bool" where
  "regular f s \<longleftrightarrow> S_IS S_IFREG (st_mode (fi_stat f)) \<and> unat (st_mode (fi_stat f)) < 8 ^ 6 \<and>
     st_size (fi_stat f) = int (length s) \<and> length s < 2 ^ 31 \<and> fi_data f = Some [ReadData s]"

definition short_name :: "string \<Rightarrow> bool" where
  "short_name n \<longleftrightarrow> nul_free n \<and> n \<noteq> [] \<and> length n < T_NAMELEN"

lemma entry_written:
  assumes "entry_ok (h, s)" "\<not> TH_ISSYM h" "th_buf (out_par out) = h" "wouts (out_dev out) = []"
    and "fi_data f = Some [ReadData s]" "length (data_buf env) = T_BLOCKSIZE"
  shows "append_entry env r f out =
    Some (0, out\<lparr>out_par := (out_par out)\<lparr>th_buf := th_finish h\<rparr>,
      out_dev := (out_dev out)\<lparr>written := written (out_dev out) @ block_of (th_finish h) @ padded s\<rparr>\<rparr>)"
proof -
  have h: "header_ok h" "gnu_longname h = 0" "gnu_longlink h = 0" "th_get_size (th_finish h) = of_nat (length s)" "length s < 2 ^ 31"
    using assms(1) by (simp_all add: entry_ok_def)
  let ?d = "(out_dev out)\<lparr>written := written (out_dev out) @ block_of (th_finish h)\<rparr>"
  have wr: "th_write (out_par out) (out_dev out) = Some (0, (out_par out)\<lparr>th_buf := th_finish h\<rparr>, ?d)"
    using th_write_plain [of "out_par out" "out_dev out"] h assms(3,4) by simp
  have "uint (of_nat (length s) :: u64) = int (length s)" using h(5) by (simp add: unsigned_of_nat take_bit_nat_eq_self)
  then have "to_int (uint (th_get_size (th_finish h))) = int (length s)" using h(4,5) by (simp add: to_int_small)
  then have "par_append_regfile (data_buf env) (fi_data f) ((out_par out)\<lparr>th_buf := th_finish h\<rparr>) ?d =
      (0, ?d\<lparr>written := written ?d @ padded s\<rparr>)"
    using append_content [OF assms(6), of ?d s] assms(4,5) by (simp add: par_append_regfile_def)
  then show ?thesis using wr assms(2,3) entry_types(1) [OF assms(1)] by (simp add: append_entry_def Let_def)
qed

lemma file_appended:
  assumes "tables_ok out (allocs w)" "distinct (allocs w)" "8 \<le> length (allocs w)" "names_ok env" "length (data_buf env) = T_BLOCKSIZE"
    and "fs env r = Some f" "regular f s" "short_name (case sv of Some n \<Rightarrow> n | None \<Rightarrow> r)"
    and "known_name out (fi_dev f, fi_ino f) = None" "wouts (out_dev out) = []"
  shows "\<exists>h out' k. par_append_file env r sv out w = Some (0, out', w\<lparr>allocs := drop k (allocs w)\<rparr>) \<and> k \<le> 8 \<and>
    tables_ok out' (drop k (allocs w)) \<and> known_name out' = (known_name out)((fi_dev f, fi_ino f) \<mapsto> (case sv of Some n \<Rightarrow> n | None \<Rightarrow> r)) \<and>
    entry_ok (h, s) \<and> entry_name h = safer_name_suffix (case sv of Some n \<Rightarrow> n | None \<Rightarrow> r) \<and>
    out_dev out' = (out_dev out)\<lparr>written := written (out_dev out) @ block_of (th_finish h) @ padded s\<rparr>"
proof -
  define name where "name = (case sv of Some n \<Rightarrow> n | None \<Rightarrow> r)"
  have nm: "nul_free name" "name \<noteq> []" "length name < T_NAMELEN" using assms(8) by (simp_all add: short_name_def name_def)
  have st: "S_IS S_IFREG (st_mode (fi_stat f))" "unat (st_mode (fi_stat f)) < 8 ^ 6" "st_size (fi_stat f) = int (length s)" "length s < 2 ^ 31"
      "fi_data f = Some [ReadData s]"
    using assms(7) by (simp_all add: regular_def)
  obtain h0 h where h: "th_set_from_stat (getpwuid env) (getgrgid env) (fi_stat f) zero_header = Some (0, h0)"
      "\<forall>t. th_buf t = h0 \<longrightarrow> th_set_path (dup_path env r) t name = Some (t\<lparr>th_buf := h\<rparr>)" "entry_ok (h, s)"
      "entry_name h = safer_name_suffix name" "\<not> TH_ISSYM h"
    using regular_entry [OF assms(4) st(1-4) nm, of "dup_path env r"] by blast
  let ?t = "(out_par out)\<lparr>th_buf := h\<rparr>"
  let ?out = "out\<lparr>out_par := ?t\<rparr>"
  have tk: "tables_ok ?out (allocs w)" "known_name ?out = known_name out"
    using assms(1) by (simp_all add: tables_ok_def known_name_def cong: option.case_cong)
  obtain td out1 k where k: "append_find_dev (fi_dev f) ?out w = Some (Some td, out1, w\<lparr>allocs := drop k (allocs w)\<rparr>)" "k \<le> 5"
      "dev_found out1 (fi_dev f) td" "tables_ok out1 (drop k (allocs w))" "known_name out1 = known_name ?out"
      "out_par out1 = out_par ?out" "out_dev out1 = out_dev ?out"
    using find_dev_ok [OF tk(1) assms(2)] assms(3) by fastforce
  have "3 \<le> length (drop k (allocs w))" using k(2) assms(3) by simp
  then obtain x l a free where al: "drop k (allocs w) = x # l # a # free" by (metis Suc_le_length_iff numeral_3_eq_3)
  then have fr: "free = drop (k + 3) (allocs w)"
    by (metis (no_types) add.commute drop_drop drop_Suc_Cons drop0 numeral_3_eq_3)
  have dist: "distinct (drop k (allocs w))" using assms(2) by simp
  let ?w = "w\<lparr>allocs := drop k (allocs w)\<rparr>"
  obtain out2 where o2: "append_find_ino (dup_link env r) td (fi_ino f) name out1 ?w = Some (True, out2, ?w\<lparr>allocs := free\<rparr>)" "tables_ok out2 free"
      "known_name out2 = (known_name out1)((fi_dev f, fi_ino f) \<mapsto> take (MAXPATHLEN - 1) name)" "out_par out2 = out_par out1" "out_dev out2 = out_dev out1"
    using find_ino_new [of out1 ?w "fi_dev f" td "fi_ino f" x l a free "dup_link env r" name] k(3-5) tk(2) assms(9) al dist by auto
  let ?out' = "out2\<lparr>out_par := (out_par out2)\<lparr>th_buf := th_finish h\<rparr>,
      out_dev := (out_dev out2)\<lparr>written := written (out_dev out2) @ block_of (th_finish h) @ padded s\<rparr>\<rparr>"
  have e: "append_entry env r f out2 = Some (0, ?out')"
    using entry_written [OF h(3,5), of out2 f env r] o2(4,5) k(6,7) assms(5,10) st(5) by simp
  have "par_append_file env r sv out w = Some (0, ?out', w\<lparr>allocs := free\<rparr>)"
    using assms(6) h(1,2) k(1) o2(1) e by (simp add: par_append_file_def Let_def flip: name_def)
  moreover have "tables_ok ?out' free" "known_name ?out' = known_name out2"
    using o2(2) by (simp_all add: tables_ok_def known_name_def cong: option.case_cong)
  moreover have "take (MAXPATHLEN - 1) name = name" using nm(3) by (simp add: MAXPATHLEN_def T_NAMELEN_def)
  ultimately show ?thesis using h(3,4) k(2,5,7) o2(3,5) tk(2) fr unfolding name_def [symmetric]
    by (intro exI [of _ h] exI [of _ ?out'] exI [of _ "k + 3"]) simp
qed

text \<open>A list of files with their contents: what is known of the file system, and distinct inodes.\<close>

definition inode :: "aenv \<Rightarrow> string \<Rightarrow> u64 \<times> u64" where
  "inode env r = (case fs env r of Some f \<Rightarrow> (fi_dev f, fi_ino f) | None \<Rightarrow> (0, 0))"

definition saved_as :: "string \<times> string option \<Rightarrow> string" where
  "saved_as e = (case e of (r, Some n) \<Rightarrow> n | (r, None) \<Rightarrow> r)"

definition input_ok :: "aenv \<Rightarrow> (string \<times> string option) \<times> string \<Rightarrow> bool" where
  "input_ok env x \<longleftrightarrow> (\<exists>f. fs env (fst (fst x)) = Some f \<and> regular f (snd x)) \<and> short_name (saved_as (fst x))"

lemma files_appended:
  assumes "tables_ok out (allocs w)" "distinct (allocs w)" "8 * length xs \<le> length (allocs w)" "names_ok env"
    and "length (data_buf env) = T_BLOCKSIZE" "list_all (input_ok env) xs" "distinct (map (inode env \<circ> fst \<circ> fst) xs)"
    and "\<forall>x\<in>set xs. known_name out (inode env (fst (fst x))) = None" "wouts (out_dev out) = []"
  shows "\<exists>es out' k. append_all env (map fst xs) out w = Some (0, out', w\<lparr>allocs := drop k (allocs w)\<rparr>) \<and> tables_ok out' (drop k (allocs w)) \<and> list_all entry_ok es \<and>
    map (\<lambda>(h, s). (entry_name h, s)) es = map (\<lambda>(n, s). (safer_name_suffix (saved_as n), s)) xs \<and>
    out_dev out' = (out_dev out)\<lparr>written := written (out_dev out) @ concat (map (\<lambda>(h, s). block_of (th_finish h) @ padded s) es)\<rparr>"
  using assms
proof (induction xs arbitrary: out w)
  case Nil
  then show ?case by (intro exI [of _ "[]"] exI [of _ out] exI [of _ 0]) simp
next
  case (Cons x xs)
  obtain r sv s where x: "x = ((r, sv), s)" by (metis surj_pair)
  have sv: "saved_as (r, sv) = (case sv of Some n \<Rightarrow> n | None \<Rightarrow> r)" by (cases sv) (simp_all add: saved_as_def)
  obtain f where f: "fs env r = Some f" "regular f s" "short_name (saved_as (r, sv))"
    using Cons.prems(6) by (auto simp: x input_ok_def)
  have ino: "inode env r = (fi_dev f, fi_ino f)" using f(1) by (simp add: inode_def)
  obtain h out1 k where o1: "par_append_file env r sv out w = Some (0, out1, w\<lparr>allocs := drop k (allocs w)\<rparr>)" "k \<le> 8"
      "tables_ok out1 (drop k (allocs w))" "known_name out1 = (known_name out)(inode env r \<mapsto> saved_as (r, sv))"
      "entry_ok (h, s)" "entry_name h = safer_name_suffix (saved_as (r, sv))"
      "out_dev out1 = (out_dev out)\<lparr>written := written (out_dev out) @ block_of (th_finish h) @ padded s\<rparr>"
    using file_appended [OF Cons.prems(1,2) _ Cons.prems(4,5) f(1,2), of sv] Cons.prems(3,8,9) f(3) unfolding sv [symmetric] ino [symmetric]
    by (auto simp: x)
  let ?w = "w\<lparr>allocs := drop k (allocs w)\<rparr>"
  have "\<exists>es out' k'. append_all env (map fst xs) out1 ?w = Some (0, out', ?w\<lparr>allocs := drop k' (allocs ?w)\<rparr>) \<and>
      tables_ok out' (drop k' (allocs ?w)) \<and> list_all entry_ok es \<and>
      map (\<lambda>(h, s). (entry_name h, s)) es = map (\<lambda>(n, s). (safer_name_suffix (saved_as n), s)) xs \<and>
      out_dev out' = (out_dev out1)\<lparr>written := written (out_dev out1) @ concat (map (\<lambda>(h, s). block_of (th_finish h) @ padded s) es)\<rparr>"
  proof (rule Cons.IH)
    have "inode env r \<notin> (\<lambda>y. inode env (fst (fst y))) ` set xs" using Cons.prems(7) by (simp add: x comp_def)
    then have "inode env (fst (fst y)) \<noteq> inode env r" if "y \<in> set xs" for y using that by (metis (mono_tags) image_eqI)
    then show "\<forall>x\<in>set xs. known_name out1 (inode env (fst (fst x))) = None"
      using Cons.prems(8) o1(4) by simp
  qed (use Cons.prems o1(2,3,7) in \<open>simp_all add: x\<close>)
  then obtain es out' k' where es: "append_all env (map fst xs) out1 ?w = Some (0, out', ?w\<lparr>allocs := drop k' (allocs ?w)\<rparr>)"
      "tables_ok out' (drop k' (allocs ?w))" "list_all entry_ok es"
      "map (\<lambda>(h, s). (entry_name h, s)) es = map (\<lambda>(n, s). (safer_name_suffix (saved_as n), s)) xs"
      "out_dev out' = (out_dev out1)\<lparr>written := written (out_dev out1) @ concat (map (\<lambda>(h, s). block_of (th_finish h) @ padded s) es)\<rparr>"
    by blast
  then show ?case using o1(1,5-7) by (intro exI [of _ "(h, s) # es"] exI [of _ out'] exI [of _ "k' + k"]) (simp add: x)
qed

lemma eof_appended:
  assumes "wouts d = []" "written d = concat (map (\<lambda>(h, s). block_of (th_finish h) @ padded s) es)"
  shows "par_append_eof d = (0, d\<lparr>written := archive_bytes es\<rparr>)"
  using assms by (simp add: par_append_eof_def par_block_write_def archive_bytes_def mult_2 replicate_add)

section \<open>Properties of appending\<close>

lemma dev_table_new:
  "\<exists>h. libtar_hash_new (\<lambda>_ _. None) True True 16 (Some dev_hash_cast) = Some h \<and> hash_inv dev_matches h \<and>
     (\<forall>a. hash_fresh a h) \<and> (\<forall>k. hash_lookup dev_matches k h = Some None) \<and> libtar_hash_free h = Some []"
proof -
  obtain h where h: "libtar_hash_new (\<lambda>_ _. None) True True 16 (Some dev_hash_cast) = Some h" by (simp add: libtar_hash_new_def)
  have "\<exists>u. dev_hash_cast d (word_of_int 16) = Some u \<and> unat u < nat 16" for d
  proof -
    let ?x = "td_dev d mod 16"
    have "uint ?x < 16" by (simp add: uint_mod)
    then have "unat (word_of_int (dev_hash (td_dev d)) :: u32) = unat ?x" unfolding dev_hash_def by (intro unat_to_int) simp
    then show ?thesis by (simp add: dev_hash_cast_def unat_mod)
  qed
  then have "hash_inv dev_matches h \<and> (\<forall>a. hash_fresh a h) \<and> hash_lookup dev_matches k h = Some None" for k
    using libtar_hash_new_inv [OF _ _ h, of dev_matches] by (auto simp: dev_matches_def dev_match_def dev_hash_cast_def)
  moreover have "empty_buckets (replicate n None) ds = Some (replicate n None, ds)" for n :: nat and ds :: "tar_dev list"
    by (induction n) simp_all
  then have "libtar_hash_free h = Some []" using h by (auto simp: libtar_hash_new_def libtar_hash_free_def)
  ultimately show ?thesis using h by blast
qed

definition sample_file :: "u64 \<Rightarrow> string \<Rightarrow> file_info" where
  "sample_file ino s = \<lparr>fi_stat = \<lparr>st_mode = 0x81A4, st_uid = 0, st_gid = 0, st_mtime = 0, st_size = int (length s)\<rparr>,
     fi_dev = 1, fi_ino = ino, fi_data = Some [ReadData s], fi_link = None, fi_dents = Inl ENOTDIR\<rparr>"

definition sample_dir :: "string list \<Rightarrow> file_info" where
  "sample_dir ds = \<lparr>fi_stat = \<lparr>st_mode = 0x41ED, st_uid = 0, st_gid = 0, st_mtime = 0, st_size = 4096\<rparr>,
     fi_dev = 1, fi_ino = 10, fi_data = None, fi_link = None, fi_dents = Inr ds\<rparr>"

definition sample_aenv :: aenv where
  "sample_aenv = \<lparr>fs = [''a'' \<mapsto> sample_file 7 ''hello'', ''b'' \<mapsto> sample_file 9 '''', ''c'' \<mapsto> sample_file 7 ''hello'', ''d'' \<mapsto> sample_dir [''..'', ''x'', ''.''],
       ''d/x'' \<mapsto> sample_file 11 ''z''], getpwuid = (\<lambda>_. None), getgrgid = (\<lambda>_. None),
     dup_path = (\<lambda>_. 0), dup_link = (\<lambda>_. 0), data_buf = replicate T_BLOCKSIZE nul\<rparr>"


text \<open>C3. Appending a directory tree terminates and does exactly what appending the files of the tree
  one after the other does, each directory before its entries and the entries in the order of
  \<open>readdir\<close>: the same bytes, the same tables and the same failures.\<close>

theorem par_append_tree_preorder:
  assumes "tree_at env realdir t"
  shows "par_append_tree env realdir savedir out w = append_all env (tree_names realdir savedir t) out w"
  by (rule tree_appended [OF assms])

theorem par_append_tree_preorder_witness:
  "\<forall>out w. par_append_tree sample_aenv ''d'' (Some ''e'') out w = append_all sample_aenv [(''d'', Some ''e''), (''d/x'', Some ''e/x'')] out w"
proof -
  have "tree_at sample_aenv ''d'' (Dir [(''x'', File)])"
    by (simp add: sample_aenv_def sample_dir_def sample_file_def join_path_def MAXPATHLEN_def S_IS_def file_type_defs dots_def)
  moreover have "tree_names ''d'' (Some ''e'') (Dir [(''x'', File)]) = [(''d'', Some ''e''), (''d/x'', Some ''e/x'')]"
    by (simp add: join_path_def MAXPATHLEN_def)
  ultimately show ?thesis using par_append_tree_preorder [of sample_aenv "''d''" "Dir [(''x'', File)]" "Some ''e''"] by metis
qed

text \<open>C2. The hard link tables implement a map from device and inode numbers to names: appending a
  regular file whose inode is known writes a single header block of link type, with the known name
  as its link name and no contents, and leaves the map unchanged.\<close>

theorem hardlink_appended:
  assumes "tables_ok out (allocs w)" "distinct (allocs w)" "5 \<le> length (allocs w)" "names_ok env"
    and "fs env r = Some f" "regular f s" "short_name (saved_as (r, sv))"
    and "known_name out (fi_dev f, fi_ino f) = Some n" "short_name n" "wouts (out_dev out) = []"
  shows "\<exists>h out' w'. par_append_file env r sv out w = Some (0, out', w') \<and> hdr_typeflag h = LNKTYPE \<and> cstr (hdr_linkname h) = n \<and>
    out_dev out' = (out_dev out)\<lparr>written := written (out_dev out) @ block_of h\<rparr> \<and> length (block_of h) = T_BLOCKSIZE \<and>
    tables_ok out' (allocs w') \<and> known_name out' = known_name out"
proof -
  define name where "name = saved_as (r, sv)"
  have sv: "(case sv of Some n \<Rightarrow> n | None \<Rightarrow> r) = name" by (cases sv) (simp_all add: saved_as_def name_def)
  have nm: "nul_free name" "name \<noteq> []" "length name < T_NAMELEN" "nul_free n" "length n < T_NAMELEN"
    using assms(7,9) by (simp_all add: short_name_def name_def)
  have st: "S_IS S_IFREG (st_mode (fi_stat f))" "unat (st_mode (fi_stat f)) < 8 ^ 6" "st_size (fi_stat f) = int (length s)" "length s < 2 ^ 31"
    using assms(6) by (simp_all add: regular_def)
  obtain h0 h where h: "th_set_from_stat (getpwuid env) (getgrgid env) (fi_stat f) zero_header = Some (0, h0)"
      "\<forall>t. th_buf t = h0 \<longrightarrow> th_set_path (dup_path env r) t name = Some (t\<lparr>th_buf := h\<rparr>)" "entry_ok (h, s)" "\<not> TH_ISSYM h" "hdr_mode h = int_to_oct (ucast (st_mode (fi_stat f))) (hdr_mode zero_header) 8"
    using regular_entry [OF assms(4) st nm(1-3), of "dup_path env r"] by blast
  have hh: "header_ok h" "gnu_longname h = 0" "gnu_longlink h = 0" using h(3) by (simp_all add: entry_ok_def)
  let ?out = "out\<lparr>out_par := (out_par out)\<lparr>th_buf := h\<rparr>\<rparr>"
  have tk: "tables_ok ?out (allocs w)" "known_name ?out = known_name out"
    using assms(1) by (simp_all add: tables_ok_def known_name_def cong: option.case_cong)
  obtain td out1 k where k: "append_find_dev (fi_dev f) ?out w = Some (Some td, out1, w\<lparr>allocs := drop k (allocs w)\<rparr>)"
      "dev_found out1 (fi_dev f) td" "tables_ok out1 (drop k (allocs w))" "known_name out1 = known_name ?out"
      "out_par out1 = out_par ?out" "out_dev out1 = out_dev ?out"
    using find_dev_ok [OF tk(1) assms(2,3)] by blast
  let ?l = "overwrite (hdr_linkname h) (n @ [nul])"
  let ?h = "h\<lparr>hdr_typeflag := LNKTYPE, hdr_linkname := ?l, gnu_longlink := 0\<rparr>"
  let ?t = "(out_par out)\<lparr>th_buf := ?h\<rparr>"
  have "strlcpy (hdr_linkname h) (n @ [nul]) 100 = Some (length n, ?l)"
    using strlcpy_eq [of n 100 "hdr_linkname h" "[]"] nm(4,5) hh(1) by (simp add: header_ok_def T_NAMELEN_def)
  then have link: "th_set_link dup ((out_par out)\<lparr>th_buf := h\<lparr>hdr_typeflag := LNKTYPE\<rparr>\<rparr>) n = Some ?t" for dup
    using nm(5) hh(3) by (simp add: th_set_link_def T_NAMELEN_def Let_def)
  have ino: "append_find_ino (dup_link env r) td (fi_ino f) name out1 (w\<lparr>allocs := drop k (allocs w)\<rparr>) =
      Some (True, out1\<lparr>out_par := ?t\<rparr>, w\<lparr>allocs := drop k (allocs w)\<rparr>)"
    using find_ino_known [OF k(2), of "fi_ino f" n] assms(8) k(4,5) tk(2) link by simp
  have len: "length ?l = 100" using nm(5) hh(1) by (simp add: overwrite_def header_ok_def T_NAMELEN_def)
  have ok: "header_ok ?h" using hh(1) len by (simp add: header_ok_def)
  have "hdr_mode_bits ?h = st_mode (fi_stat f)"
    using mode_field [OF ok, of "st_mode (fi_stat f)" "hdr_mode zero_header"] h(5) st(2) zero_header_facts(1) by (simp add: header_ok_def)
  then have kinds: "\<not> TH_ISSYM ?h" "\<not> TH_ISREG (th_finish ?h)"
    using regular_only(5) [OF st(1)] by (simp_all add: TH_ISSYM_def TH_ISREG_def th_finish_def Let_def type_defs)
  have wr: "th_write ?t (out_dev out) = Some (0, ?t\<lparr>th_buf := th_finish ?h\<rparr>, (out_dev out)\<lparr>written := written (out_dev out) @ block_of (th_finish ?h)\<rparr>)"
    using th_write_plain [of ?t "out_dev out"] ok hh(2) assms(10) by simp
  let ?out' = "out1\<lparr>out_par := ?t\<lparr>th_buf := th_finish ?h\<rparr>, out_dev := (out_dev out)\<lparr>written := written (out_dev out) @ block_of (th_finish ?h)\<rparr>\<rparr>"
  have "append_entry env r f (out1\<lparr>out_par := ?t\<rparr>) = Some (0, ?out')"
    using kinds wr k(6) by (simp add: append_entry_def Let_def)
  then have "par_append_file env r sv out w = Some (0, ?out', w\<lparr>allocs := drop k (allocs w)\<rparr>)"
    using assms(5) h(1,2) k(1) ino by (simp add: par_append_file_def sv Let_def)
  moreover have "tables_ok ?out' (drop k (allocs w))" "known_name ?out' = known_name out1"
    using k(3) by (simp_all add: tables_ok_def known_name_def cong: option.case_cong)
  moreover have "hdr_typeflag (th_finish ?h) = LNKTYPE" "hdr_linkname (th_finish ?h) = ?l" by (simp_all add: th_finish_def Let_def)
  moreover have "?l = n @ nul # drop (Suc (length n)) (hdr_linkname h)" by (simp add: overwrite_def)
  then have "cstr ?l = n" using nm(4) by simp
  moreover have "length (block_of (th_finish ?h)) = T_BLOCKSIZE" by (rule block_length [OF th_finish_ok [OF ok]])
  ultimately show ?thesis using k(4) tk(2)
    by (intro exI [of _ "th_finish ?h"] exI [of _ ?out'] exI [of _ "w\<lparr>allocs := drop k (allocs w)\<rparr>"]) simp
qed

lemma sample_facts:
  "names_ok sample_aenv" "length (data_buf sample_aenv) = T_BLOCKSIZE" "fs sample_aenv ''a'' = Some (sample_file 7 ''hello'')"
  "fs sample_aenv ''c'' = Some (sample_file 7 ''hello'')" "regular (sample_file i ''hello'') ''hello''"
  "fi_dev (sample_file i s) = 1" "fi_ino (sample_file i s) = i"
  by (simp_all add: names_ok_def sample_aenv_def sample_file_def regular_def S_IS_def file_type_defs)

theorem hardlink_appended_witness:
  "\<exists>out w. known_name out (1, 7) = Some ''a'' \<and>
     (\<exists>h out' w'. par_append_file sample_aenv ''c'' None out w = Some (0, out', w') \<and> hdr_typeflag h = LNKTYPE \<and> cstr (hdr_linkname h) = ''a'' \<and>
        out_dev out' = (out_dev out)\<lparr>written := written (out_dev out) @ block_of h\<rparr> \<and> known_name out' = known_name out)"
proof -
  obtain h where h: "hash_inv dev_matches h" "\<forall>a. hash_fresh a h" "\<forall>k. hash_lookup dev_matches k h = Some None" "libtar_hash_free h = Some []"
    using dev_table_new by blast
  let ?out = "\<lparr>out_par = sample_par zero_header, out_dev = dev_of [], out_hash = h, out_inos = Map.empty\<rparr>"
  let ?w = "\<lparr>calls = [], results = [], allocs = [1..<30]\<rparr>"
  have "tables_ok ?out (allocs ?w)" "known_name ?out (1, 7) = None" using h by (simp_all add: tables_ok_def known_name_def)
  then obtain out1 k where o1: "k \<le> 8" "tables_ok out1 (drop k (allocs ?w))" "known_name out1 = (known_name ?out)((1, 7) \<mapsto> ''a'')"
      "wouts (out_dev out1) = []"
    using file_appended [of ?out ?w sample_aenv "''a''" "sample_file 7 ''hello''" "''hello''" None] sample_facts
    by (auto simp: short_name_def nul_free_def T_NAMELEN_def dev_of_def)
  have "distinct (drop k [1..<30::nat])" by simp
  then have "\<exists>h out' w'. par_append_file sample_aenv ''c'' None out1 (?w\<lparr>allocs := drop k (allocs ?w)\<rparr>) = Some (0, out', w') \<and>
      hdr_typeflag h = LNKTYPE \<and> cstr (hdr_linkname h) = ''a'' \<and>
      out_dev out' = (out_dev out1)\<lparr>written := written (out_dev out1) @ block_of h\<rparr> \<and> length (block_of h) = T_BLOCKSIZE \<and>
      tables_ok out' (allocs w') \<and> known_name out' = known_name out1"
    using o1 sample_facts by (intro hardlink_appended [where f = "sample_file 7 ''hello''" and s = "''hello''"]) (simp_all add: sample_facts short_name_def nul_free_def T_NAMELEN_def saved_as_def)
  then show ?thesis using o1(3) by (intro exI [of _ out1]) auto
qed

end
