(* ===== verification/Quid.thy ===== *)
theory Quid
  imports Prelude
begin

text \<open>
  \<open>quid/\<close>: the identifier library. The RC4 generator of \<open>arc4random.c\<close>, the time stamps and
  the formatting and parsing of identifiers in \<open>quid.c\<close>. What comes from outside (the random device, the clock) is an argument. Parsing is
  modelled on the bytes of the packed structure and of the memory behind it, because
  \<open>strtoquid\<close> stores more bytes than the fields have.
\<close>

section \<open>The generator\<close>

record arc4_stream =
  arc4_i :: byte
  arc4_j :: byte
  arc4_s :: "byte list"

definition arc4_init :: arc4_stream where
  "arc4_init = \<lparr>arc4_i = 0, arc4_j = 0, arc4_s = map of_nat [0..<256]\<rparr>"

text \<open>One round of the loop of \<open>arc4_addrandom\<close>, for the datum \<open>dn = dat[n % datlen]\<close>. The array
  has one cell per value of the index type, so that no access is out of bounds.\<close>

definition arc4_mix :: "byte \<Rightarrow> arc4_stream \<Rightarrow> arc4_stream" where
  "arc4_mix dn st =
     (let i = arc4_i st + 1;
          si = arc4_s st ! unat i;
          j = arc4_j st + si + dn;
          s = (arc4_s st)[unat i := arc4_s st ! unat j]
      in \<lparr>arc4_i = i, arc4_j = j, arc4_s = s[unat j := si]\<rparr>)"

definition arc4_addrandom :: "byte list \<Rightarrow> nat \<Rightarrow> arc4_stream \<Rightarrow> arc4_stream option" where
  "arc4_addrandom dat datlen st =
     (if datlen = 0 \<or> length dat < min datlen 256 then None
      else Some (fold (\<lambda>n. arc4_mix (dat ! (n mod datlen))) [0..<256] (st\<lparr>arc4_i := arc4_i st - 1\<rparr>)))"

definition arc4_getbyte :: "arc4_stream \<Rightarrow> byte \<times> arc4_stream" where
  "arc4_getbyte st =
     (let i = arc4_i st + 1;
          si = arc4_s st ! unat i;
          j = arc4_j st + si;
          sj = arc4_s st ! unat j;
          s = (arc4_s st)[unat i := sj];
          s = s[unat j := si]
      in (s ! unat ((si + sj) AND 0xff), \<lparr>arc4_i = i, arc4_j = j, arc4_s = s\<rparr>))"

text \<open>\<open>arc4_stir\<close>: \<open>Some rdat\<close> are the 128 bytes of time, process number and random data (zeroes
  when the device cannot be opened); \<open>None\<close> is a short read, after which the function returns
  without stirring.\<close>

definition arc4_stir :: "byte list option \<Rightarrow> arc4_stream \<Rightarrow> arc4_stream option" where
  "arc4_stir seed st =
     (case seed of None \<Rightarrow> Some st
      | Some rdat \<Rightarrow> map_option (fold (\<lambda>_ st. snd (arc4_getbyte st)) [0..<1024]) (arc4_addrandom rdat 128 st))"

definition arc4_getword :: "arc4_stream \<Rightarrow> u32 \<times> arc4_stream" where
  "arc4_getword st =
     (case arc4_getbyte st of (b3, st) \<Rightarrow>
      case arc4_getbyte st of (b2, st) \<Rightarrow>
      case arc4_getbyte st of (b1, st) \<Rightarrow>
      case arc4_getbyte st of (b0, st) \<Rightarrow>
        (push_bit 24 (ucast b3) OR push_bit 16 (ucast b2) OR push_bit 8 (ucast b1) OR ucast b0, st))"

text \<open>The static state of the file.\<close>

record rng =
  rs :: arc4_stream
  rs_initialized :: bool
  rs_stired :: bool

definition arc4_check_init :: "rng \<Rightarrow> rng" where
  "arc4_check_init g = (if rs_initialized g then g else g\<lparr>rs := arc4_init, rs_initialized := True\<rparr>)"

definition arc4_check_stir :: "byte list option \<Rightarrow> rng \<Rightarrow> rng option" where
  "arc4_check_stir seed g =
     (if rs_stired g then Some g
      else map_option (\<lambda>st. g\<lparr>rs := st, rs_stired := True\<rparr>) (arc4_stir seed (rs g)))"

definition arc4random_stir :: "byte list option \<Rightarrow> rng \<Rightarrow> rng option" where
  "arc4random_stir seed g =
     (let g = arc4_check_init g in map_option (\<lambda>st. g\<lparr>rs := st\<rparr>) (arc4_stir seed (rs g)))"

definition arc4random_addrandom :: "byte list option \<Rightarrow> byte list \<Rightarrow> nat \<Rightarrow> rng \<Rightarrow> rng option" where
  "arc4random_addrandom seed dat datlen g =
     Option.bind (arc4_check_stir seed (arc4_check_init g)) (\<lambda>g.
       map_option (\<lambda>st. g\<lparr>rs := st\<rparr>) (arc4_addrandom dat datlen (rs g)))"

definition arc4random :: "byte list option \<Rightarrow> rng \<Rightarrow> (u32 \<times> rng) option" where
  "arc4random seed g =
     map_option (\<lambda>g. case arc4_getword (rs g) of (w, st) \<Rightarrow> (w, g\<lparr>rs := st\<rparr>))
       (arc4_check_stir seed (arc4_check_init g))"

definition arc4random_uniform :: "byte list option \<Rightarrow> u32 \<Rightarrow> rng \<Rightarrow> (u32 \<times> rng) option" where
  "arc4random_uniform seed rnge g =
     Option.bind (arc4random seed g) (\<lambda>(w, g). if rnge = 0 then None else Some (w mod rnge, g))"

text \<open>The invariant: the state array is a permutation of all byte values.\<close>

definition arc4_inv :: "arc4_stream \<Rightarrow> bool" where
  "arc4_inv st \<longleftrightarrow> length (arc4_s st) = 256 \<and> distinct (arc4_s st)"

definition rng_inv :: "rng \<Rightarrow> bool" where
  "rng_inv g \<longleftrightarrow> (rs_initialized g \<longrightarrow> arc4_inv (rs g))"

lemma unat_byte [simp]: "unat (b::byte) < 256"
  using unsigned_less [of b, where 'a = nat] by simp

lemma swap_inv:
  assumes "length s = 256" "distinct s" "i < 256" "j < 256"
  shows "distinct (s[i := s ! j, j := s ! i])"
  using assms distinct_swap [of i s j] by simp

lemma arc4_init_inv: "arc4_inv arc4_init"
proof -
  have "inj_on (of_nat :: nat \<Rightarrow> byte) {0..<256}"
    by (rule inj_on_inverseI [where g = unat]) (simp add: unat_of_nat)
  then show ?thesis by (simp add: arc4_inv_def arc4_init_def distinct_map)
qed

lemma arc4_mix_inv: "arc4_inv st \<Longrightarrow> arc4_inv (arc4_mix dn st)"
  by (simp add: arc4_inv_def arc4_mix_def Let_def)

lemma arc4_getbyte_inv: "arc4_inv st \<Longrightarrow> arc4_inv (snd (arc4_getbyte st))"
  by (simp add: arc4_inv_def arc4_getbyte_def Let_def)

lemma fold_inv:
  assumes "\<And>x st. P st \<Longrightarrow> P (f x st)" "P st"
  shows "P (fold f xs st)"
  using assms(2) by (induction xs arbitrary: st) (simp_all add: assms(1))

lemma arc4_addrandom_inv:
  assumes "arc4_inv st" "arc4_addrandom d n st = Some st'"
  shows "arc4_inv st'"
proof -
  have "st' = fold (\<lambda>k. arc4_mix (d ! (k mod n))) [0..<256] (st\<lparr>arc4_i := arc4_i st - 1\<rparr>)"
    using assms(2) by (simp add: arc4_addrandom_def del: upt_rec_numeral split: if_splits)
  moreover have "arc4_inv (st\<lparr>arc4_i := arc4_i st - 1\<rparr>)" using assms(1) by (simp add: arc4_inv_def)
  ultimately show ?thesis by (simp only:) (rule fold_inv, rule arc4_mix_inv)
qed

lemma arc4_stir_inv:
  assumes "arc4_inv st" "arc4_stir seed st = Some st'"
  shows "arc4_inv st'"
proof (cases seed)
  case (Some rdat)
  then obtain u where u: "arc4_addrandom rdat 128 st = Some u"
      "st' = fold (\<lambda>_ st. snd (arc4_getbyte st)) [0..<1024] u"
    using assms(2) by (auto simp: arc4_stir_def simp del: upt_rec_numeral)
  then have "arc4_inv u" using arc4_addrandom_inv assms(1) by blast
  then show ?thesis unfolding u(2) by (rule fold_inv [rotated]) (rule arc4_getbyte_inv)
qed (use assms in \<open>simp add: arc4_stir_def\<close>)

lemma arc4_getword_inv: "arc4_inv st \<Longrightarrow> arc4_getword st = (w, st') \<Longrightarrow> arc4_inv st'"
  using arc4_getbyte_inv by (auto simp: arc4_getword_def split: prod.splits) (metis snd_conv)

lemma arc4random_inv:
  assumes "rng_inv g" "arc4random seed g = Some (w, g')"
  shows "rng_inv g' \<and> rs_initialized g' \<and> rs_stired g'"
proof -
  have i: "arc4_inv (rs (arc4_check_init g))" "rs_initialized (arc4_check_init g)"
    using assms(1) arc4_init_inv by (simp_all add: arc4_check_init_def rng_inv_def)
  obtain g1 where g1: "arc4_check_stir seed (arc4_check_init g) = Some g1"
      "(w, g') = (case arc4_getword (rs g1) of (w, st) \<Rightarrow> (w, g1\<lparr>rs := st\<rparr>))"
    using assms(2) by (auto simp: arc4random_def)
  then have "arc4_inv (rs g1)" "rs_initialized g1" "rs_stired g1"
    using i arc4_stir_inv [OF i(1)] by (auto simp: arc4_check_stir_def split: if_splits)
  then show ?thesis
    using g1(2) arc4_getword_inv [of "rs g1"] by (auto simp: rng_inv_def split: prod.splits)
qed

lemma arc4random_total:
  assumes "seed = None \<or> (\<exists>d. seed = Some d \<and> length d = 128)"
  shows "\<exists>w g'. arc4random seed g = Some (w, g')"
proof -
  have "\<exists>g1. arc4_check_stir seed (arc4_check_init g) = Some g1"
    using assms by (auto simp: arc4_check_stir_def arc4_stir_def arc4_addrandom_def simp del: upt_rec_numeral)
  then obtain g1 where "arc4_check_stir seed (arc4_check_init g) = Some g1" by blast
  then show ?thesis by (cases "arc4_getword (rs g1)") (simp add: arc4random_def)
qed

text \<open>The generator: with any seed data every call returns a word, keeps the state array a
  permutation of the 256 byte values, and \<open>arc4random_uniform\<close> stays below its range.\<close>

theorem arc4random_permutation:
  assumes "rng_inv g" "seed = None \<or> (\<exists>d. seed = Some d \<and> length d = 128)" "rnge \<noteq> 0"
  shows "\<exists>w g'. arc4random_uniform seed rnge g = Some (w, g') \<and> w < rnge \<and>
     set (arc4_s (rs g')) = UNIV \<and> distinct (arc4_s (rs g'))"
proof -
  obtain w g' where r: "arc4random seed g = Some (w, g')" using arc4random_total [OF assms(2)] by blast
  then have inv: "arc4_inv (rs g')" using arc4random_inv [OF assms(1) r] by (simp add: rng_inv_def)
  then have "card (set (arc4_s (rs g'))) = CARD(byte)"
    using distinct_card [of "arc4_s (rs g')"] by (simp add: arc4_inv_def card_word)
  then have "set (arc4_s (rs g')) = UNIV" by (metis card_subset_eq finite subset_UNIV)
  moreover have "w mod rnge < rnge" using assms(3) by (simp add: word_mod_less_divisor word_neq_0_conv)
  ultimately show ?thesis using r inv assms(3) by (auto simp: arc4random_uniform_def arc4_inv_def)
qed

definition fresh_rng :: rng where
  "fresh_rng = \<lparr>rs = \<lparr>arc4_i = 0, arc4_j = 0, arc4_s = replicate 256 0\<rparr>, rs_initialized = False, rs_stired = False\<rparr>"

theorem arc4random_permutation_witness:
  "\<exists>w g'. arc4random_uniform (Some (replicate 128 7)) 10 fresh_rng = Some (w, g') \<and> w < 10 \<and>
     set (arc4_s (rs g')) = UNIV \<and> distinct (arc4_s (rs g'))"
  using arc4random_permutation [of fresh_rng "Some (replicate 128 7)" 10]
  by (simp add: fresh_rng_def rng_inv_def)

section \<open>Time stamps\<close>

definition EPOCH_DIFF :: u64 where "EPOCH_DIFF = 11644473600"
definition UIDS_PER_TICK :: u16 where "UIDS_PER_TICK = 1024"
definition QUID_VERSION_3 :: u16 where "QUID_VERSION_3 = 0xa000"
definition QUID_SIGNATURE :: nat where "QUID_SIGNATURE = 0x80"

text \<open>A reading of \<open>gettimeofday\<close>: seconds and microseconds.\<close>

definition get_system_time :: "u64 \<times> u64 \<Rightarrow> u64" where
  "get_system_time tv = (EPOCH_DIFF + fst tv) * 10000000 + snd tv * 10"

record clock =
  clk_inited :: bool
  time_last :: u64
  ids_this_tick :: u16

text \<open>The loop of \<open>get_current_time\<close> over the successive readings of the clock; \<open>None\<close> when the
  readings given are used up while it spins.\<close>

fun tick_loop :: "(u64 \<times> u64) list \<Rightarrow> clock \<Rightarrow> (u64 \<times> clock \<times> (u64 \<times> u64) list) option" where
  "tick_loop [] c = None"
| "tick_loop (tv # tvs) c =
     (let time_now = get_system_time tv in
      if time_last c \<noteq> time_now
      then Some (time_now + 0, c\<lparr>ids_this_tick := 0, time_last := time_now\<rparr>, tvs)
      else if ids_this_tick c < UIDS_PER_TICK
      then (let ids = ids_this_tick c + 1 in Some (time_now + ucast ids, c\<lparr>ids_this_tick := ids\<rparr>, tvs))
      else tick_loop tvs c)"

definition get_current_time :: "(u64 \<times> u64) list \<Rightarrow> clock \<Rightarrow> (u64 \<times> clock \<times> (u64 \<times> u64) list) option" where
  "get_current_time tvs c =
     (if \<not> clk_inited c then
        (case tvs of [] \<Rightarrow> None
         | _ # tvs' \<Rightarrow> tick_loop tvs' (c\<lparr>ids_this_tick := UIDS_PER_TICK, clk_inited := True\<rparr>))
      else tick_loop tvs c)"

text \<open>\<open>n\<close> calls while the clock shows the same time.\<close>

fun stamps :: "nat \<Rightarrow> u64 \<times> u64 \<Rightarrow> clock \<Rightarrow> (u64 list \<times> clock) option" where
  "stamps 0 tv c = Some ([], c)"
| "stamps (Suc n) tv c =
     Option.bind (get_current_time [tv] c) (\<lambda>(ts, c', _).
       map_option (\<lambda>(r, c''). (ts # r, c'')) (stamps n tv c'))"

lemma stamps_same_tick:
  assumes "clk_inited c" "time_last c = get_system_time tv" "ids_this_tick c = of_nat k" "k + n \<le> 1024"
  shows "stamps n tv c = Some (map (\<lambda>i. get_system_time tv + of_nat (k + 1 + i)) [0..<n],
     c\<lparr>ids_this_tick := of_nat (k + n)\<rparr>)"
  using assms
proof (induction n arbitrary: k c)
  case 0
  then show ?case by simp
next
  case (Suc n)
  have k: "unat (of_nat k :: u16) = k" using Suc.prems(4) by (simp add: unat_of_nat)
  have less: "(of_nat k :: u16) < UIDS_PER_TICK"
    using Suc.prems(4) by (simp add: word_less_nat_alt k UIDS_PER_TICK_def)
  have "unat (of_nat (k + 1) :: u16) = k + 1"
    using Suc.prems(4) by (subst unat_of_nat) simp
  then have "ucast (of_nat (k + 1) :: u16) = (of_nat (k + 1) :: u64)"
    by (simp only: ucast_nat)
  moreover have "of_nat k + 1 = (of_nat (k + 1) :: u16)" by simp
  ultimately have u: "ucast (of_nat k + 1 :: u16) = (of_nat (k + 1) :: u64)" by (simp only:)
  let ?c = "c\<lparr>ids_this_tick := of_nat k + 1\<rparr>"
  have step: "get_current_time [tv] c = Some (get_system_time tv + of_nat (k + 1), ?c, [])"
    using Suc.prems less u by (simp add: get_current_time_def Let_def)
  have "stamps n tv ?c = Some (map (\<lambda>i. get_system_time tv + of_nat (k + 1 + 1 + i)) [0..<n],
      ?c\<lparr>ids_this_tick := of_nat (k + 1 + n)\<rparr>)"
    using Suc.prems by (intro Suc.IH) simp_all
  then show ?case
    using step by (simp add: upt_conv_Cons map_Suc_upt [symmetric] comp_def del: upt_Suc)
qed

text \<open>While the clock stands still, successive time stamps are consecutive: the tick's time
  and the 1024 values after it, all different.\<close>

theorem time_stamps_consecutive:
  assumes "clk_inited c" "time_last c \<noteq> get_system_time tv" "n \<le> 1024"
  shows "\<exists>c'. stamps (Suc n) tv c = Some (map (\<lambda>i. get_system_time tv + of_nat i) [0..<Suc n], c') \<and>
     distinct (map (\<lambda>i. get_system_time tv + of_nat i) [0..<Suc n])"
proof -
  let ?c = "c\<lparr>ids_this_tick := 0, time_last := get_system_time tv\<rparr>"
  have step: "get_current_time [tv] c = Some (get_system_time tv, ?c, [])"
    using assms(1,2) by (simp add: get_current_time_def Let_def)
  obtain c' where "stamps n tv ?c = Some (map (\<lambda>i. get_system_time tv + of_nat (0 + 1 + i)) [0..<n], c')"
    using stamps_same_tick [of ?c tv 0 n] assms(1,3) by simp
  then have st: "stamps (Suc n) tv c = Some (map (\<lambda>i. get_system_time tv + of_nat i) [0..<Suc n], c')"
    using step by (simp add: upt_conv_Cons map_Suc_upt [symmetric] comp_def del: upt_Suc)
  have "inj_on (\<lambda>i. get_system_time tv + of_nat i) {0..<Suc n}"
  proof (rule inj_onI)
    fix i j
    assume "i \<in> {0..<Suc n}" "j \<in> {0..<Suc n}" "get_system_time tv + of_nat i = get_system_time tv + of_nat j"
    then have "(of_nat i :: u64) = of_nat j" "i \<le> 1024" "j \<le> 1024" using assms(3) by auto
    moreover have "unat (of_nat k :: u64) = k" if "k \<le> 1024" for k
      using that by (subst unat_of_nat) simp
    ultimately show "i = j" by metis
  qed
  then show ?thesis using st by (auto simp: distinct_map simp del: upt_Suc)
qed

theorem time_stamps_consecutive_witness:
  "\<exists>c'. stamps 3 (1000, 5) \<lparr>clk_inited = True, time_last = 0, ids_this_tick = 9\<rparr> =
     Some (map (\<lambda>i. get_system_time (1000, 5) + of_nat i) [0..<3], c')"
  using time_stamps_consecutive [of "\<lparr>clk_inited = True, time_last = 0, ids_this_tick = 9\<rparr>" "(1000, 5)" 2]
  by (simp add: get_system_time_def EPOCH_DIFF_def numeral_3_eq_3 del: upt_Suc stamps.simps)

text \<open>Stamps of different ticks can collide: a tick of one microsecond advances the time by
  ten units only, so that the eleventh stamp of a tick is the first one of the next.\<close>

theorem time_stamps_collide:
  assumes "clk_inited c" "time_last c \<noteq> get_system_time (s, us)" "get_system_time (s, us + 1) \<noteq> get_system_time (s, us)"
  shows "\<exists>ts c' c''. stamps 11 (s, us) c = Some (ts, c') \<and> length ts = 11 \<and>
     get_current_time [(s, us + 1)] c' = Some (last ts, c'', [])"
proof -
  let ?T = "get_system_time (s, us)"
  let ?c = "c\<lparr>ids_this_tick := 0, time_last := ?T\<rparr>"
  have next_t: "get_system_time (s, us + 1) = ?T + 10" by (simp add: get_system_time_def algebra_simps)
  have first: "get_current_time [(s, us)] c = Some (?T, ?c, [])"
    using assms(1,2) by (simp add: get_current_time_def Let_def)
  have "stamps 10 (s, us) ?c = Some (map (\<lambda>i. ?T + of_nat (0 + 1 + i)) [0..<10], ?c\<lparr>ids_this_tick := of_nat (0 + 10)\<rparr>)"
    using assms(1) by (intro stamps_same_tick) simp_all
  then have "stamps (Suc 10) (s, us) c = Some (?T # map (\<lambda>i. ?T + of_nat (0 + 1 + i)) [0..<10],
      c\<lparr>ids_this_tick := 10, time_last := ?T\<rparr>)"
    using first by (simp only: stamps.simps bind.bind_lunit prod.case) simp
  then have "stamps 11 (s, us) c = Some (?T # map (\<lambda>i. ?T + of_nat (0 + 1 + i)) [0..<10],
      c\<lparr>ids_this_tick := 10, time_last := ?T\<rparr>)" by (simp only: Suc_numeral semiring_norm)
  moreover have "last (?T # map (\<lambda>i. ?T + of_nat (0 + 1 + i)) [0..<10]) = ?T + 10"
    by (simp add: last_map)
  moreover have "get_current_time [(s, us + 1)] (c\<lparr>ids_this_tick := 10, time_last := ?T\<rparr>) =
      Some (?T + 10, c\<lparr>ids_this_tick := 0, time_last := ?T + 10\<rparr>, [])"
    using assms(1,3) next_t by (simp add: get_current_time_def Let_def)
  moreover have "length (?T # map (\<lambda>i. ?T + of_nat (0 + 1 + i)) [0..<10]) = 11"
    by simp
  ultimately show ?thesis by (intro exI conjI) (assumption | simp only:)+
qed

theorem time_stamps_collide_witness:
  "\<exists>ts c' c''. stamps 11 (1000, 5) \<lparr>clk_inited = True, time_last = 0, ids_this_tick = 0\<rparr> = Some (ts, c') \<and> length ts = 11 \<and>
     get_current_time [(1000, 5 + 1)] c' = Some (last ts, c'', [])"
  by (rule time_stamps_collide) (simp_all add: get_system_time_def EPOCH_DIFF_def)

section \<open>Identifiers\<close>

definition QUID_LENGTH :: nat where "QUID_LENGTH = 38"

record quid =
  time_low :: u64
  time_mid :: u16
  time_hi_and_version :: u16
  clock_seq_hi_and_reserved :: byte
  clock_seq_low :: byte
  quid_node :: "byte list"

text \<open>The first four node bytes are low bytes of fresh random words, the fifth keeps its high
  nibble and the sixth is a whole byte.\<close>

fun random_words :: "nat \<Rightarrow> byte list option \<Rightarrow> rng \<Rightarrow> (u32 list \<times> rng) option" where
  "random_words 0 seed g = Some ([], g)"
| "random_words (Suc n) seed g =
     Option.bind (arc4random seed g) (\<lambda>(w, g').
       map_option (\<lambda>(ws, g''). (w # ws, g'')) (random_words n seed g'))"

definition node_bytes :: "u32 list \<Rightarrow> byte list" where
  "node_bytes ws = map ucast (take 4 ws) @ [ucast (ws ! 4 AND 0xf0), ucast (ws ! 5 AND 0xff)]"

definition format_quid :: "byte list option \<Rightarrow> u16 \<Rightarrow> u64 \<Rightarrow> rng \<Rightarrow> (quid \<times> rng) option" where
  "format_quid seed clock_seq timestamp g =
     map_option (\<lambda>(ws, g').
       (\<lparr>time_low = timestamp AND 0xffffffff,
         time_mid = ucast (drop_bit 32 timestamp AND 0xffff),
         time_hi_and_version = (ucast (drop_bit 48 timestamp AND 0xfff) XOR of_nat QUID_SIGNATURE) OR QUID_VERSION_3,
         clock_seq_hi_and_reserved = ucast (drop_bit 8 (clock_seq AND 0x3f00)) OR of_nat QUID_SIGNATURE,
         clock_seq_low = ucast (clock_seq AND 0xff),
         quid_node = node_bytes ws\<rparr>, g'))
     (random_words 6 seed g)"

definition quid_create ::
  "byte list option \<Rightarrow> (u64 \<times> u64) list \<Rightarrow> clock \<Rightarrow> rng \<Rightarrow> (quid \<times> clock \<times> rng) option" where
  "quid_create seed tvs c g = do {
     (timestamp, c, _) \<leftarrow> get_current_time tvs c;
     (w, g) \<leftarrow> arc4random seed g;
     (q, g) \<leftarrow> format_quid seed (ucast w) timestamp g;
     Some (q, c, g) }"

definition quid_short_create :: "byte list option \<Rightarrow> rng \<Rightarrow> (byte list \<times> rng) option" where
  "quid_short_create seed g = map_option (\<lambda>(ws, g'). (node_bytes ws, g')) (random_words 6 seed g)"

text \<open>The bytes of the packed structure, 20 on the target.\<close>

definition byte_char :: "byte \<Rightarrow> char" where
  "byte_char b = char_of (unat b)"

definition quid_bytes :: "quid \<Rightarrow> char list" where
  "quid_bytes q = le_chars 8 (unat (time_low q)) @ le_chars 2 (unat (time_mid q)) @
     le_chars 2 (unat (time_hi_and_version q)) @
     [byte_char (clock_seq_hi_and_reserved q), byte_char (clock_seq_low q)] @ map byte_char (quid_node q)"

text \<open>\<open>memcmp\<close>: the difference of the first bytes that differ (its sign is what counts).\<close>

fun memcmp :: "char list \<Rightarrow> char list \<Rightarrow> int" where
  "memcmp (a # as) (b # bs) = (if a = b then memcmp as bs else of_char a - of_char b)"
| "memcmp _ _ = 0"

definition quidcmp :: "quid \<Rightarrow> quid \<Rightarrow> int" where
  "quidcmp a b = memcmp (quid_bytes a) (quid_bytes b)"

definition quid_shortcmp :: "byte list \<Rightarrow> byte list \<Rightarrow> int" where
  "quid_shortcmp a b = memcmp (map byte_char a) (map byte_char b)"

text \<open>\<open>%.nx\<close>: hexadecimal with at least \<open>n\<close> digits; the arguments have at most \<open>n\<close>.\<close>

definition hex_digit :: "nat \<Rightarrow> char" where
  "hex_digit d = (if d < 10 then char_of (48 + d) else char_of (87 + d))"

fun hex_fixed :: "nat \<Rightarrow> nat \<Rightarrow> string" where
  "hex_fixed 0 v = []"
| "hex_fixed (Suc n) v = hex_fixed n (v div 16) @ [hex_digit (v mod 16)]"

definition quidtostr :: "quid \<Rightarrow> string" where
  "quidtostr u = ''{'' @ hex_fixed 8 (unat (ucast (time_low u) :: u32)) @ ''-'' @ hex_fixed 4 (unat (time_mid u)) @ ''-'' @
     hex_fixed 4 (unat (time_hi_and_version u)) @ ''-'' @ hex_fixed 2 (unat (clock_seq_hi_and_reserved u)) @
     hex_fixed 2 (unat (clock_seq_low u)) @ ''-'' @
     concat (map (\<lambda>b. hex_fixed 2 (unat b)) (take 6 (quid_node u))) @ ''}''"

definition quid_shorttostr :: "byte list \<Rightarrow> string" where
  "quid_shorttostr u = ''{'' @ concat (map (\<lambda>b. hex_fixed 2 (unat b)) (take 6 u)) @ ''}''"

section \<open>Parsing\<close>

definition hex_val :: "char \<Rightarrow> nat option" where
  "hex_val c = (let v = of_char c in
     if 48 \<le> v \<and> v \<le> 57 then Some (v - 48)
     else if 97 \<le> v \<and> v \<le> 102 then Some (v - 87)
     else if 65 \<le> v \<and> v \<le> 70 then Some (v - 55) else None)"

definition is_blank :: "char \<Rightarrow> bool" where
  "is_blank c \<longleftrightarrow> c \<in> {CHR '' '', CHR 0x09, CHR 0x0A, CHR 0x0B, CHR 0x0C, CHR 0x0D}"

text \<open>Up to \<open>w\<close> hexadecimal digits.\<close>

fun hex_run :: "nat \<Rightarrow> string \<Rightarrow> nat \<Rightarrow> nat \<times> nat \<times> string" where
  "hex_run (Suc w) (c # s) v =
     (case hex_val c of Some d \<Rightarrow> (case hex_run w s (16 * v + d) of (n, r) \<Rightarrow> (Suc n, r)) | None \<Rightarrow> (0, v, c # s))"
| "hex_run _ s v = (0, v, s)"

text \<open>A conversion \<open>%wx\<close> of \<open>sscanf\<close>: white space, then at most \<open>w\<close> characters with an
  optional sign and an optional \<open>0x\<close>, which must be followed by a digit. The width is at most
  eight, so that the value fits.\<close>

definition scan_hex :: "nat \<Rightarrow> string \<Rightarrow> (int \<times> string) option" where
  "scan_hex w s =
     (let s = dropWhile is_blank s;
          sign = (s \<noteq> [] \<and> w > 0 \<and> (hd s = CHR ''-'' \<or> hd s = CHR ''+''));
          neg = (sign \<and> hd s = CHR ''-'');
          (w, s) = (if sign then (w - 1, tl s) else (w, s));
          (w, s) = (if w \<ge> 2 \<and> (take 2 s = ''0x'' \<or> take 2 s = ''0X'') then (w - 2, drop 2 s) else (w, s))
      in (case hex_run w s 0 of (n, v, r) \<Rightarrow>
            if n = 0 then None else Some (if neg then - int v else int v, r)))"

text \<open>Storing the low \<open>n\<close> bytes of a value at an offset of the memory that starts with the
  structure; past the end of the object is undefined.\<close>

definition store :: "char list \<Rightarrow> nat \<Rightarrow> nat \<Rightarrow> int \<Rightarrow> char list option" where
  "store mem off n v =
     (if off + n \<le> length mem then Some (take off mem @ le_chars n (nat (v mod 256 ^ n)) @ drop (off + n) mem)
      else None)"

text \<open>The directives of a format: a literal character, or a conversion with width, the size of
  the object it stores to and its offset.\<close>

datatype directive = Lit char | Hex nat nat nat

fun sscanf :: "directive list \<Rightarrow> string \<Rightarrow> char list \<Rightarrow> char list option" where
  "sscanf [] s mem = Some mem"
| "sscanf (Lit c # ds) s mem = (case s of [] \<Rightarrow> Some mem | x # s' \<Rightarrow> if x = c then sscanf ds s' mem else Some mem)"
| "sscanf (Hex w n off # ds) s mem =
     (case scan_hex w s of None \<Rightarrow> Some mem
      | Some (v, s') \<Rightarrow> (case store mem off n v of None \<Rightarrow> None | Some mem' \<Rightarrow> sscanf ds s' mem'))"

definition quid_format :: "directive list" where
  "quid_format =
     [Hex 8 8 0, Lit CHR ''-'', Hex 4 2 8, Lit CHR ''-'', Hex 4 2 10, Lit CHR ''-'', Hex 2 2 12, Hex 2 2 13, Lit CHR ''-'',
      Hex 2 4 14, Hex 2 4 15, Hex 2 4 16, Hex 2 4 17, Hex 2 4 18, Hex 2 4 19]"

definition strtoquid :: "string \<Rightarrow> char list \<Rightarrow> char list option" where
  "strtoquid s mem =
     (if length s = QUID_LENGTH then sscanf (Lit CHR ''{'' # quid_format @ [Lit CHR ''}'']) s mem
      else if length s = QUID_LENGTH - 2 then sscanf quid_format s mem
      else Some mem)"

lemma hex_digit_val: "d < 16 \<Longrightarrow> hex_val (hex_digit d) = Some d"
proof -
  assume "d < 16"
  then have "d \<in> {0, 1, 2, 3, 4, 5, 6, 7, 8, 9, 10, 11, 12, 13, 14, 15}" unfolding insert_iff empty_iff by presburger
  then show ?thesis by (elim insertE emptyE; simp add: hex_digit_def hex_val_def Let_def)
qed

lemma length_hex_fixed [simp]: "length (hex_fixed n v) = n"
  by (induction n arbitrary: v) simp_all

lemma hex_run_append:
  assumes "\<forall>c\<in>set s. hex_val c \<noteq> None"
  shows "hex_run (length s + w) (s @ r) v =
    (case hex_run w r (foldl (\<lambda>v c. 16 * v + the (hex_val c)) v s) of (n, q) \<Rightarrow> (length s + n, q))"
  using assms by (induction s arbitrary: v) (auto split: prod.splits)

lemma hex_fixed_digits: "\<forall>c\<in>set (hex_fixed n v). hex_val c \<noteq> None"
  by (induction n arbitrary: v) (auto simp: hex_digit_val)

lemma hex_fixed_value: "foldl (\<lambda>v c. 16 * v + the (hex_val c)) a (hex_fixed n v) = 16 ^ n * a + v mod 16 ^ n"
proof (induction n arbitrary: v)
  case (Suc n)
  have "16 * (16 ^ n * a + v div 16 mod 16 ^ n) + v mod 16 = 16 ^ Suc n * a + v mod 16 ^ Suc n"
    by (simp add: mod_mult2_eq algebra_simps)
  then show ?case by (simp add: Suc.IH hex_digit_val)
qed simp

lemma hex_val_char: "hex_val c \<noteq> None \<Longrightarrow> \<not> is_blank c \<and> c \<noteq> CHR ''-'' \<and> c \<noteq> CHR ''+'' \<and> c \<noteq> CHR ''x'' \<and> c \<noteq> CHR ''X''"
  by (auto simp: hex_val_def is_blank_def Let_def)

lemma scan_hex_fixed:
  assumes "2 \<le> n"
  shows "scan_hex n (hex_fixed n v @ r) = Some (int (v mod 16 ^ n), r)"
proof -
  let ?s = "hex_fixed n v"
  have "length ?s = n" by simp
  then obtain a b s' where s: "?s = a # b # s'" using assms by (metis Suc_le_length_iff numeral_2_eq_2)
  have ab: "hex_val a \<noteq> None" "hex_val b \<noteq> None" using hex_fixed_digits [of n v] by (simp_all add: s)
  have skip: "dropWhile is_blank (?s @ r) = ?s @ r" using hex_val_char [OF ab(1)] by (simp add: s)
  have nosign: "hd (?s @ r) \<noteq> CHR ''-''" "hd (?s @ r) \<noteq> CHR ''+''" using hex_val_char [OF ab(1)] by (simp_all add: s)
  have nox: "take 2 (?s @ r) \<noteq> ''0x''" "take 2 (?s @ r) \<noteq> ''0X''" using hex_val_char [OF ab(2)] by (simp_all add: s)
  have "hex_run n (?s @ r) 0 = (n, v mod 16 ^ n, r)"
    using hex_run_append [OF hex_fixed_digits, of n v 0 r 0] hex_fixed_value [of 0 n v] by (cases r) simp_all
  then show ?thesis
    using assms skip nosign nox by (simp add: scan_hex_def Let_def)
qed

definition put :: "char list \<Rightarrow> nat \<Rightarrow> char list \<Rightarrow> char list" where
  "put mem off xs = take off mem @ xs @ drop (off + length xs) mem"

lemma sscanf_hex_step:
  assumes "2 \<le> n" "v < 16 ^ n" "v < 256 ^ k" "off + k \<le> length mem"
  shows "sscanf (Hex n k off # ds) (hex_fixed n v @ s) mem = sscanf ds s (put mem off (le_chars k v))"
proof -
  have "int v mod 256 ^ k = int v" using assms(3) by (metis mod_less of_nat_mod of_nat_numeral of_nat_power)
  then show ?thesis using assms scan_hex_fixed [OF assms(1), of v s] by (simp add: store_def put_def)
qed

lemma length_put [simp]: "off + length xs \<le> length mem \<Longrightarrow> length (put mem off xs) = length mem"
  by (simp add: put_def)

lemma byte_chars: "v < 256 \<Longrightarrow> le_chars 2 v = [char_of v, nul] \<and> le_chars 4 v = [char_of v, nul, nul, nul]"
proof -
  assume v: "v < 256"
  then have d: "v div 256 = 0" "v mod 256 = v" by simp_all
  have z: "char_of (0::nat) = nul" by (simp add: char_of_eq_iff)
  have "le_chars (Suc (Suc 0)) v = [char_of v, nul]" "le_chars (Suc (Suc (Suc (Suc 0)))) v = [char_of v, nul, nul, nul]"
    by (simp_all only: le_chars.simps d) (simp_all add: z)
  then show ?thesis by (simp only: numeral_2_eq_2 numeral_eq_Suc pred_numeral_simps BitM.simps eval_nat_numeral)
qed

text \<open>The stores of the eleven conversions, one after the other, on an object of at least 23 bytes.\<close>

lemma quid_stores:
  assumes "length mem \<ge> 23" "length L = 8" "length M = 2" "length H = 2"
    and "b0 < 256" "b1 < 256" "n0 < 256" "n1 < 256" "n2 < 256" "n3 < 256" "n4 < 256" "n5 < 256"
  shows "put (put (put (put (put (put (put (put (put (put (put mem 0 L) 8 M) 10 H) 12 (le_chars 2 b0)) 13 (le_chars 2 b1))
      14 (le_chars 4 n0)) 15 (le_chars 4 n1)) 16 (le_chars 4 n2)) 17 (le_chars 4 n3)) 18 (le_chars 4 n4)) 19 (le_chars 4 n5) =
    L @ M @ H @ [char_of b0, char_of b1] @ [char_of n0, char_of n1, char_of n2, char_of n3, char_of n4, char_of n5] @
      [nul, nul, nul] @ drop 23 mem"
proof -
  have "put mem 0 L = L @ drop 8 mem" using assms(2) by (simp add: put_def)
  moreover have "put (L @ drop 8 mem) 8 M = L @ M @ drop 10 mem" using assms(2,3) by (simp add: put_def)
  moreover have "put (L @ M @ drop 10 mem) 10 H = (L @ M @ H) @ drop 12 mem" using assms(2,3,4) by (simp add: put_def)
  moreover have "put ((L @ M @ H) @ drop 12 mem) 12 (le_chars 2 b0) = (L @ M @ H) @ [char_of b0, nul] @ drop 14 mem"
    using assms(2-5) byte_chars [of b0] by (simp add: put_def)
  moreover have "put ((L @ M @ H) @ [char_of b0, nul] @ drop 14 mem) 13 (le_chars 2 b1) =
      (L @ M @ H) @ [char_of b0, char_of b1, nul] @ drop 15 mem"
    using assms(2-4,6) byte_chars [of b1] by (simp add: put_def)
  moreover have "put ((L @ M @ H) @ [char_of b0, char_of b1, nul] @ drop 15 mem) 14 (le_chars 4 n0) =
      (L @ M @ H) @ [char_of b0, char_of b1, char_of n0, nul, nul, nul] @ drop 18 mem"
    using assms(2-4,7) byte_chars [of n0] by (simp add: put_def)
  moreover have "put ((L @ M @ H) @ [char_of b0, char_of b1, char_of n0, nul, nul, nul] @ drop 18 mem) 15 (le_chars 4 n1) =
      (L @ M @ H) @ [char_of b0, char_of b1, char_of n0, char_of n1, nul, nul, nul] @ drop 19 mem"
    using assms(2-4,8) byte_chars [of n1] by (simp add: put_def)
  moreover have "put ((L @ M @ H) @ [char_of b0, char_of b1, char_of n0, char_of n1, nul, nul, nul] @ drop 19 mem) 16 (le_chars 4 n2) =
      (L @ M @ H) @ [char_of b0, char_of b1, char_of n0, char_of n1, char_of n2, nul, nul, nul] @ drop 20 mem"
    using assms(2-4,9) byte_chars [of n2] by (simp add: put_def)
  moreover have "put ((L @ M @ H) @ [char_of b0, char_of b1, char_of n0, char_of n1, char_of n2, nul, nul, nul] @ drop 20 mem) 17 (le_chars 4 n3) =
      (L @ M @ H) @ [char_of b0, char_of b1, char_of n0, char_of n1, char_of n2, char_of n3, nul, nul, nul] @ drop 21 mem"
    using assms(2-4,10) byte_chars [of n3] by (simp add: put_def)
  moreover have "put ((L @ M @ H) @ [char_of b0, char_of b1, char_of n0, char_of n1, char_of n2, char_of n3, nul, nul, nul] @ drop 21 mem) 18 (le_chars 4 n4) =
      (L @ M @ H) @ [char_of b0, char_of b1, char_of n0, char_of n1, char_of n2, char_of n3, char_of n4, nul, nul, nul] @ drop 22 mem"
    using assms(2-4,11) byte_chars [of n4] by (simp add: put_def)
  moreover have "put ((L @ M @ H) @ [char_of b0, char_of b1, char_of n0, char_of n1, char_of n2, char_of n3, char_of n4, nul, nul, nul] @ drop 22 mem) 19 (le_chars 4 n5) =
      (L @ M @ H) @ [char_of b0, char_of b1, char_of n0, char_of n1, char_of n2, char_of n3, char_of n4, char_of n5, nul, nul, nul] @ drop 23 mem"
    using assms(2-4,12) byte_chars [of n5] by (simp add: put_def)
  ultimately show ?thesis by simp
qed

lemma sscanf_quid:
  assumes "length mem \<ge> 23" "quid_node q = [n0, n1, n2, n3, n4, n5]" "time_low q < 2 ^ 32"
    and "s = hex_fixed 8 (unat (ucast (time_low q) :: u32)) @ ''-'' @ hex_fixed 4 (unat (time_mid q)) @ ''-'' @
     hex_fixed 4 (unat (time_hi_and_version q)) @ ''-'' @ hex_fixed 2 (unat (clock_seq_hi_and_reserved q)) @
     hex_fixed 2 (unat (clock_seq_low q)) @ ''-'' @ hex_fixed 2 (unat n0) @ hex_fixed 2 (unat n1) @ hex_fixed 2 (unat n2) @
     hex_fixed 2 (unat n3) @ hex_fixed 2 (unat n4) @ hex_fixed 2 (unat n5) @ r"
  shows "sscanf (quid_format @ ds) s mem = sscanf ds r (quid_bytes q @ [nul, nul, nul] @ drop 23 mem)"
proof -
  have low: "unat (ucast (time_low q) :: u32) = unat (time_low q)" "unat (time_low q) < 4294967296"
    using assms(3) by (simp_all add: unsigned_ucast_eq take_bit_nat_eq_self word_less_nat_alt)
  have b: "unat (x::byte) < 256" "unat (y::u16) < 65536" for x y
    using unsigned_less [of x, where 'a = nat] unsigned_less [of y, where 'a = nat] by simp_all
  note b4 = order.strict_trans [OF b(1)]
  have u: "unat (x::byte) < 65536" "unat (x::byte) < 4294967296" for x by (rule b4, simp)+
  show ?thesis
    unfolding assms(4) quid_format_def append_Cons append_Nil
    using assms(1) b u low
      quid_stores [OF assms(1), of "le_chars 8 (unat (time_low q))" "le_chars 2 (unat (time_mid q))" "le_chars 2 (unat (time_hi_and_version q))"
        "unat (clock_seq_hi_and_reserved q)" "unat (clock_seq_low q)" "unat n0" "unat n1" "unat n2" "unat n3" "unat n4" "unat n5"]
    by (simp add: sscanf_hex_step quid_bytes_def assms(2) byte_char_def del: sscanf.simps(3) le_chars.simps)
qed

lemma six: "length xs = 6 \<Longrightarrow> \<exists>a b c d e f. xs = [a, b, c, d, e, f]"
  by (auto simp: length_Suc_conv eval_nat_numeral)

lemma quidtostr_length: "length (quid_node q) = 6 \<Longrightarrow> length (quidtostr q) = QUID_LENGTH"
  using six [of "quid_node q"] by (auto simp: quidtostr_def QUID_LENGTH_def)

lemma strtoquid_braced:
  "length s + 1 = QUID_LENGTH \<Longrightarrow> strtoquid (CHR ''{'' # s) mem = sscanf (quid_format @ [Lit CHR ''}'']) s mem"
  by (simp add: strtoquid_def)

lemma strtoquid_quidtostr:
  assumes "length (quid_node q) = 6"
  shows "strtoquid (quidtostr q) mem = sscanf (quid_format @ [Lit CHR ''}'']) (tl (quidtostr q)) mem"
proof -
  have hd: "quidtostr q = CHR ''{'' # tl (quidtostr q)" by (simp add: quidtostr_def)
  then have "length (tl (quidtostr q)) + 1 = QUID_LENGTH" using quidtostr_length [OF assms] by (metis Suc_eq_plus1 length_Cons)
  from strtoquid_braced [OF this] show ?thesis by (subst hd) simp
qed

text \<open>C19. Printing an identifier and parsing the text gives the identifier back, byte for byte,
  when the object parsed into has at least three bytes behind the structure; these become zero.\<close>

theorem quid_string_roundtrip:
  assumes "length (quid_node q) = 6" "time_low q < 2 ^ 32" "length mem \<ge> 23"
  shows "strtoquid (quidtostr q) mem = Some (quid_bytes q @ [nul, nul, nul] @ drop 23 mem)"
proof -
  obtain n0 n1 n2 n3 n4 n5 where n: "quid_node q = [n0, n1, n2, n3, n4, n5]" using six [OF assms(1)] by blast
  have "sscanf (quid_format @ [Lit CHR ''}'']) (tl (quidtostr q)) mem =
      sscanf [Lit CHR ''}''] ''}'' (quid_bytes q @ [nul, nul, nul] @ drop 23 mem)"
    by (rule sscanf_quid [OF assms(3) n assms(2)]) (simp add: quidtostr_def n)
  then show ?thesis by (simp add: strtoquid_quidtostr [OF assms(1)])
qed

definition sample_quid :: quid where
  "sample_quid = \<lparr>time_low = 0x1234abcd, time_mid = 0x55aa, time_hi_and_version = 0xa123,
     clock_seq_hi_and_reserved = 0x8f, clock_seq_low = 7, quid_node = [1, 2, 3, 4, 0xf0, 255]\<rparr>"

theorem quid_string_roundtrip_witness:
  "strtoquid (quidtostr sample_quid) (replicate 24 CHR ''?'') = Some (quid_bytes sample_quid @ [nul, nul, nul] @ ''?'')"
  using quid_string_roundtrip [of sample_quid "replicate 24 CHR ''?''"] by (simp add: sample_quid_def)

text \<open>Parsing into a bare structure of 20 bytes writes past its end: each node byte is stored
  with a conversion for a four-byte integer.\<close>

theorem strtoquid_overflow:
  assumes "length (quid_node q) = 6" "time_low q < 2 ^ 32" "length mem = 20"
  shows "strtoquid (quidtostr q) mem = None"
proof -
  obtain n0 n1 n2 n3 n4 n5 where n: "quid_node q = [n0, n1, n2, n3, n4, n5]" using six [OF assms(1)] by blast
  have low: "unat (ucast (time_low q) :: u32) = unat (time_low q)" "unat (time_low q) < 4294967296"
    using assms(2) by (simp_all add: unsigned_ucast_eq take_bit_nat_eq_self word_less_nat_alt)
  have b: "unat (x::byte) < 256" "unat (y::u16) < 65536" for x y
    using unsigned_less [of x, where 'a = nat] unsigned_less [of y, where 'a = nat] by simp_all
  note b4 = order.strict_trans [OF b(1)]
  have u: "unat (x::byte) < 65536" "unat (x::byte) < 4294967296" for x by (rule b4, simp)+
  have fault: "sscanf (Hex 2 4 17 # ds) (hex_fixed 2 v @ r) m = None" if "length m = 20" for ds v r m
    using that scan_hex_fixed [of 2 v r] by (simp add: store_def)
  have "sscanf (quid_format @ [Lit CHR ''}'']) (tl (quidtostr q)) mem = None"
    unfolding quid_format_def append_Cons append_Nil using assms(3) b u low fault
    by (simp add: quidtostr_def n sscanf_hex_step del: sscanf.simps(3) le_chars.simps)
  then show ?thesis by (simp only: strtoquid_quidtostr [OF assms(1)])
qed

theorem strtoquid_overflow_witness:
  "strtoquid (quidtostr sample_quid) (replicate 20 nul) = None"
  using strtoquid_overflow [of sample_quid "replicate 20 nul"] by (simp add: sample_quid_def)

section \<open>Creation\<close>

lemma random_words_inv:
  "rng_inv g \<Longrightarrow> random_words n seed g = Some (ws, g') \<Longrightarrow> length ws = n \<and> rng_inv g'"
proof (induction n arbitrary: g ws)
  case (Suc n)
  then obtain w g1 ws' where w: "arc4random seed g = Some (w, g1)" "random_words n seed g1 = Some (ws', g')" "ws = w # ws'"
    by (auto split: Option.bind_splits)
  have "rng_inv g1" using arc4random_inv [OF Suc.prems(1) w(1)] by simp
  then show ?case using Suc.IH [OF _ w(2)] w(3) by simp
qed simp

lemma lt16: "(n::nat) < 16 \<Longrightarrow> n \<in> {0, 1, 2, 3, 4, 5, 6, 7, 8, 9, 10, 11, 12, 13, 14, 15}"
  unfolding insert_iff empty_iff by presburger

lemma bit_constants:
  "n < 16 \<Longrightarrow> bit (128 :: int) n \<longleftrightarrow> n = 7"
  "n < 16 \<Longrightarrow> bit (40960 :: int) n \<longleftrightarrow> n = 13 \<or> n = 15"
  "n < 16 \<Longrightarrow> bit (61440 :: int) n \<longleftrightarrow> 12 \<le> n"
  "n < 16 \<Longrightarrow> bit (16128 :: int) n \<longleftrightarrow> 8 \<le> n \<and> n < 14"
  "n < 16 \<Longrightarrow> bit (240 :: int) n \<longleftrightarrow> 4 \<le> n \<and> n < 8"
  "n < 16 \<Longrightarrow> bit (63 :: int) n \<longleftrightarrow> n < 6"
  by (drule lt16, elim insertE emptyE; simp)+

text \<open>An identifier made from a time stamp carries its low 60 bits in its time fields, has the
  version and signature bits set, keeps the low 14 bits of the clock sequence, and its node has
  six bytes of which the fifth has an empty low nibble.\<close>

theorem format_quid_fields:
  assumes "rng_inv g" "format_quid seed clock_seq timestamp g = Some (q, g')"
  shows "time_low q OR push_bit 32 (ucast (time_mid q)) OR
       push_bit 48 (ucast ((time_hi_and_version q AND 0xfff) XOR of_nat QUID_SIGNATURE)) = timestamp AND mask 60 \<and>
     time_hi_and_version q AND 0xf000 = QUID_VERSION_3 \<and>
     ucast (clock_seq_low q) OR push_bit 8 (ucast (clock_seq_hi_and_reserved q AND 0x3f)) = clock_seq AND mask 14 \<and>
     length (quid_node q) = 6 \<and> quid_node q ! 4 AND 0x0f = 0 \<and> time_low q < 2 ^ 32 \<and> rng_inv g'"
proof -
  obtain ws where ws: "random_words 6 seed g = Some (ws, g')" and q: "q = \<lparr>time_low = timestamp AND 0xffffffff,
         time_mid = ucast (drop_bit 32 timestamp AND 0xffff),
         time_hi_and_version = (ucast (drop_bit 48 timestamp AND 0xfff) XOR of_nat QUID_SIGNATURE) OR QUID_VERSION_3,
         clock_seq_hi_and_reserved = ucast (drop_bit 8 (clock_seq AND 0x3f00)) OR of_nat QUID_SIGNATURE,
         clock_seq_low = ucast (clock_seq AND 0xff),
         quid_node = node_bytes ws\<rparr>"
    using assms(2) by (auto simp: format_quid_def)
  have len: "length ws = 6" "rng_inv g'" using random_words_inv [OF assms(1) ws] by simp_all
  have masks: "(0xffffffff::u64) = mask 32" "(0xffff::u64) = mask 16" "(0xfff::u64) = mask 12" "(0xfff::u16) = mask 12"
    "(0xff::u16) = mask 8" "(0x3f::byte) = mask 6" "(0x0f::byte) = mask 4"
    "of_nat QUID_SIGNATURE = (0x80 :: u16)" "of_nat QUID_SIGNATURE = (0x80 :: byte)" "QUID_VERSION_3 = 0xa000"
    by (simp_all add: mask_eq_exp_minus_1 QUID_SIGNATURE_def QUID_VERSION_3_def)
  have "time_low q OR push_bit 32 (ucast (time_mid q)) OR
       push_bit 48 (ucast ((time_hi_and_version q AND 0xfff) XOR of_nat QUID_SIGNATURE)) = timestamp AND mask 60"
  proof -
    have hi: "(time_hi_and_version q AND 0xfff) XOR of_nat QUID_SIGNATURE = ucast (drop_bit 48 timestamp AND mask 12)"
      by (rule bit_word_eqI) (auto simp: q masks bit_simps bit_constants)
    have "time_low q OR push_bit 32 (ucast (time_mid q)) OR push_bit 48 (ucast (ucast (drop_bit 48 timestamp AND mask 12) :: u16)) =
        timestamp AND mask 60"
    proof (rule bit_word_eqI)
      fix n assume "n < LENGTH(64)"
      then consider "n < 32" | "32 \<le> n" "n < 48" | "48 \<le> n" "n < 60" | "60 \<le> n" "n < 64" by force
      then show "bit (time_low q OR push_bit 32 (ucast (time_mid q)) OR
          push_bit 48 (ucast (ucast (drop_bit 48 timestamp AND mask 12) :: u16))) n = bit (timestamp AND mask 60) n"
        by cases (auto simp: q masks bit_simps)
    qed
    then show ?thesis by (simp only: hi)
  qed
  moreover have "time_hi_and_version q AND 0xf000 = QUID_VERSION_3"
    by (rule bit_word_eqI) (auto simp: q masks bit_simps bit_constants)
  moreover have "ucast (clock_seq_low q) OR push_bit 8 (ucast (clock_seq_hi_and_reserved q AND 0x3f)) = clock_seq AND mask 14"
    by (rule bit_word_eqI) (auto simp: q masks bit_simps bit_constants)
  moreover have "quid_node q ! 4 AND 0x0f = 0"
    using len by (intro bit_word_eqI) (auto simp: q masks bit_simps bit_constants node_bytes_def nth_append)
  moreover have "time_low q < 2 ^ 32"
    using le_less_trans [OF word_and_le1 [of timestamp "0xffffffff"], of "2 ^ 32"] by (simp add: q)
  ultimately show ?thesis using len by (simp add: q node_bytes_def)
qed

lemma random_words_total: "\<exists>ws g'. random_words n None g = Some (ws, g')"
proof (induction n arbitrary: g)
  case (Suc n)
  obtain w g1 where "arc4random None g = Some (w, g1)" using arc4random_total [of None g] by blast
  then show ?case using Suc [of g1] by auto
qed simp

lemma format_quid_total: "\<exists>q g'. format_quid None clock_seq timestamp g = Some (q, g')"
proof -
  obtain ws g' where "random_words 6 None g = Some (ws, g')" using random_words_total [of 6 g] by blast
  then show ?thesis by (simp add: format_quid_def)
qed

theorem format_quid_fields_witness:
  "\<exists>q g'. format_quid None 0x1234 0x01e5000012345678 fresh_rng = Some (q, g') \<and>
     time_hi_and_version q AND 0xf000 = QUID_VERSION_3 \<and> length (quid_node q) = 6 \<and> time_low q < 2 ^ 32"
proof -
  obtain q g' where q: "format_quid None 0x1234 0x01e5000012345678 fresh_rng = Some (q, g')"
    using format_quid_total by blast
  have "rng_inv fresh_rng" by (simp add: fresh_rng_def rng_inv_def)
  from format_quid_fields [OF this q] q show ?thesis by blast
qed

section \<open>Recognising identifiers\<close>

text \<open>\<open>strchr\<close> for a hyphen from a position on, and the loop over the hyphens: \<open>None\<close> when one
  stands at a position that is not allowed, else their number.\<close>

definition strchr_hyphen :: "string \<Rightarrow> nat \<Rightarrow> nat option" where
  "strchr_hyphen s k =
     (let n = length (takeWhile (\<lambda>c. c \<noteq> CHR ''-'') (drop k s)) in if k + n < length s then Some (k + n) else None)"

function hyphen_loop :: "nat list \<Rightarrow> string \<Rightarrow> nat \<Rightarrow> nat \<Rightarrow> nat option" where
  "hyphen_loop allowed s k nhyp =
     (case strchr_hyphen s k of None \<Rightarrow> Some nhyp
      | Some p \<Rightarrow> if p \<notin> set allowed then None else hyphen_loop allowed s (p + 1) (nhyp + 1))"
  by pat_completeness auto
termination
  by (relation "measure (\<lambda>(allowed, s, k, nhyp). length s - k)")
     (auto simp: strchr_hyphen_def Let_def split: if_splits)

declare hyphen_loop.simps [simp del]

definition strquid_format :: "string \<Rightarrow> nat" where
  "strquid_format s =
     (if length s = QUID_LENGTH then
        (if hd s \<noteq> CHR ''{'' \<or> s ! (QUID_LENGTH - 1) \<noteq> CHR ''}'' then 0
         else if \<not> set s \<subseteq> set ''{}-0123456789abcdefABCDEF'' then 0
         else if hyphen_loop [9, 14, 19, 24] s 0 0 = Some 4 then 1 else 0)
      else if length s = QUID_LENGTH - 2 then
        (if \<not> set s \<subseteq> set ''-0123456789abcdefABCDEF'' then 0
         else if hyphen_loop [8, 13, 18, 23] s 0 0 = Some 4 then 2 else 0)
      else 0)"

definition hyphens :: "string \<Rightarrow> nat set" where
  "hyphens s = {i. i < length s \<and> s ! i = CHR ''-''}"

lemma strchr_hyphen_spec:
  "case strchr_hyphen s k of
     None \<Rightarrow> \<forall>i\<in>hyphens s. i < k
   | Some p \<Rightarrow> k \<le> p \<and> p \<in> hyphens s \<and> (\<forall>i\<in>hyphens s. i < k \<or> p \<le> i)"
proof -
  define n where "n = length (takeWhile (\<lambda>c. c \<noteq> CHR ''-'') (drop k s))"
  have before: "s ! (k + i) \<noteq> CHR ''-''" if "i < n" "k + i < length s" for i
    using that nth_mem [of i "takeWhile (\<lambda>c. c \<noteq> CHR ''-'') (drop k s)"]
      takeWhile_nth [of i "\<lambda>c. c \<noteq> CHR ''-''" "drop k s"] set_takeWhileD
    unfolding n_def by fastforce
  have first: "s ! (k + n) = CHR ''-''" if "k + n < length s"
    using that nth_length_takeWhile [of "\<lambda>c. c \<noteq> CHR ''-''" "drop k s"] by (simp add: n_def)
  have low: "i < k \<or> k + n \<le> i" if "i \<in> hyphens s" for i
  proof (cases "i < k")
    case False
    then have "\<not> i - k < n" using before [of "i - k"] that by (auto simp: hyphens_def)
    then show ?thesis by linarith
  qed simp
  show ?thesis
    unfolding strchr_hyphen_def Let_def n_def [symmetric] using first low
    by (auto simp: hyphens_def)
qed

lemma hyphen_loop_spec:
  "hyphen_loop allowed s k nhyp =
     (if {i \<in> hyphens s. k \<le> i} \<subseteq> set allowed then Some (nhyp + card {i \<in> hyphens s. k \<le> i}) else None)"
proof (induction allowed s k nhyp rule: hyphen_loop.induct)
  case (1 allowed s k nhyp)
  have fin: "finite {i \<in> hyphens s. j \<le> i}" for j by (simp add: hyphens_def)
  show ?case
  proof (cases "strchr_hyphen s k")
    case None
    then have "\<forall>i\<in>hyphens s. i < k" using strchr_hyphen_spec [of s k] by simp
    then have none: "{i \<in> hyphens s. k \<le> i} = {}" by fastforce
    show ?thesis unfolding none using None by (subst hyphen_loop.simps) simp
  next
    case (Some p)
    then have p: "k \<le> p" "p \<in> hyphens s" "\<forall>i\<in>hyphens s. i < k \<or> p \<le> i" using strchr_hyphen_spec [of s k] by auto
    have split: "{i \<in> hyphens s. k \<le> i} = insert p {i \<in> hyphens s. p + 1 \<le> i}" using p by fastforce
    then have card: "card {i \<in> hyphens s. k \<le> i} = Suc (card {i \<in> hyphens s. p + 1 \<le> i})"
      using fin [of "p + 1"] by simp
    show ?thesis
    proof (cases "p \<in> set allowed")
      case False
      then show ?thesis using Some split by (subst hyphen_loop.simps) simp
    next
      case True
      have "hyphen_loop allowed s k nhyp = hyphen_loop allowed s (p + 1) (nhyp + 1)"
        using Some True by (subst hyphen_loop.simps) simp
      also have "\<dots> = (if {i \<in> hyphens s. p + 1 \<le> i} \<subseteq> set allowed
          then Some (nhyp + 1 + card {i \<in> hyphens s. p + 1 \<le> i}) else None)"
        using 1 [OF Some] True by simp
      finally show ?thesis using True unfolding card by (simp add: split)
    qed
  qed
qed


lemma hyphen_loop_all:
  assumes "distinct allowed" "length allowed = n"
  shows "hyphen_loop allowed s 0 0 = Some n \<longleftrightarrow> hyphens s = set allowed"
proof -
  have n: "card (set allowed) = n" using assms distinct_card by blast
  have "hyphen_loop allowed s 0 0 = (if hyphens s \<subseteq> set allowed then Some (card (hyphens s)) else None)"
    by (simp add: hyphen_loop_spec)
  moreover have "card (hyphens s) = n \<longleftrightarrow> hyphens s = set allowed" if "hyphens s \<subseteq> set allowed"
    using card_subset_eq [OF finite_set that] n by auto
  ultimately show ?thesis by (cases "hyphens s \<subseteq> set allowed") simp_all
qed

lemma hyphens_Nil [simp]: "hyphens [] = {}"
  by (simp add: hyphens_def)

lemma hyphens_append [simp]: "hyphens (xs @ ys) = hyphens xs \<union> (\<lambda>i. length xs + i) ` hyphens ys"
proof (rule set_eqI)
  fix i
  have "i \<in> hyphens (xs @ ys) \<longleftrightarrow> i \<in> hyphens xs \<or> (\<exists>j. i = length xs + j \<and> j \<in> hyphens ys)"
  proof (cases "i < length xs")
    case False
    then obtain j where "i = length xs + j" by (metis le_add_diff_inverse not_less)
    then show ?thesis by (simp add: hyphens_def)
  qed (auto simp: hyphens_def nth_append)
  then show "i \<in> hyphens (xs @ ys) \<longleftrightarrow> i \<in> hyphens xs \<union> (\<lambda>i. length xs + i) ` hyphens ys" by auto
qed

lemma hyphens_Cons: "hyphens (c # s) = hyphens [c] \<union> Suc ` hyphens s"
  using hyphens_append [of "[c]" s] by simp

lemma hyphens_none: "CHR ''-'' \<notin> set s \<Longrightarrow> hyphens s = {}"
  by (auto simp: hyphens_def dest: nth_mem)

lemma hyphens_single [simp]: "hyphens [c] = (if c = CHR ''-'' then {0} else {})"
  by (auto simp: hyphens_def)

lemma hex_digit_set: "v < 16 \<Longrightarrow> hex_digit v \<in> set ''0123456789abcdef''"
proof -
  have all: "\<forall>v\<in>{0, 1, 2, 3, 4, 5, 6, 7, 8, 9, 10, 11, 12, 13, 14, 15}. hex_digit v \<in> set ''0123456789abcdef''"
    by code_simp
  show "v < 16 \<Longrightarrow> ?thesis" by (rule bspec [OF all lt16])
qed

lemma hex_fixed_set: "set (hex_fixed n v) \<subseteq> set ''0123456789abcdef''" (is "_ \<subseteq> ?hex")
proof (induction n arbitrary: v)
  case (Suc n)
  have "hex_digit (v mod 16) \<in> ?hex" by (rule hex_digit_set) simp
  then have "set [hex_digit (v mod 16)] \<subseteq> ?hex" unfolding list.set(2) [of _ "[]"] list.set(1) by blast
  then show ?case unfolding hex_fixed.simps set_append using Suc by (intro Un_least)
qed simp

lemma hyphen_not_hex: "CHR ''-'' \<notin> set (hex_fixed n v)"
proof -
  have "CHR ''-'' \<notin> set ''0123456789abcdef''" by simp
  then show ?thesis using hex_fixed_set by blast
qed

lemma hyphens_hex [simp]: "hyphens (hex_fixed n v) = {}"
  by (rule hyphens_none [OF hyphen_not_hex])

lemma hyphens_hex_list [simp]: "hyphens (concat (map (\<lambda>b. hex_fixed n (f b)) bs)) = {}"
  by (rule hyphens_none) (simp add: hyphen_not_hex)

lemma quidtostr_hyphens: "length (quid_node q) = 6 \<Longrightarrow> hyphens (quidtostr q) = {9, 14, 19, 24}"
  by (simp add: quidtostr_def hyphens_Cons [of _ "_ @ _"] insert_commute)

lemma quidtostr_set: "set (quidtostr q) \<subseteq> set ''{}-0123456789abcdefABCDEF''" (is "_ \<subseteq> ?ok")
proof -
  have "set ''0123456789abcdef'' \<subseteq> ?ok" "set ''{'' \<subseteq> ?ok" "set ''-'' \<subseteq> ?ok" "set ''}'' \<subseteq> ?ok" by simp_all
  moreover from this(1) have hex: "set (hex_fixed n v) \<subseteq> ?ok" for n v using hex_fixed_set [of n v] by (rule order_trans [rotated])
  moreover have "set (concat (map (\<lambda>b. hex_fixed 2 (unat b)) (take 6 (quid_node q)))) \<subseteq> ?ok"
    unfolding set_concat set_map by (rule UN_least) (use hex in blast)
  ultimately show ?thesis unfolding quidtostr_def set_append by (intro Un_least)
qed

lemma strquid_format_shapes_facts:
  assumes "length (quid_node q) = 6"
  shows "strquid_format s = 1 \<longleftrightarrow> length s = QUID_LENGTH \<and> s ! 0 = CHR ''{'' \<and> s ! 37 = CHR ''}'' \<and>
      set s \<subseteq> set ''{}-0123456789abcdefABCDEF'' \<and> hyphens s = {9, 14, 19, 24}"
    and "strquid_format s = 2 \<longleftrightarrow> length s = QUID_LENGTH - 2 \<and>
      set s \<subseteq> set ''-0123456789abcdefABCDEF'' \<and> hyphens s = {8, 13, 18, 23}"
    and "strquid_format (quidtostr q) = 1"
proof -
  have h1: "hyphen_loop [9, 14, 19, 24] s 0 0 = Some 4 \<longleftrightarrow> hyphens s = {9, 14, 19, 24}" for s
    using hyphen_loop_all [of "[9, 14, 19, 24]" 4 s] by simp
  have h2: "hyphen_loop [8, 13, 18, 23] s 0 0 = Some 4 \<longleftrightarrow> hyphens s = {8, 13, 18, 23}"
    using hyphen_loop_all [of "[8, 13, 18, 23]" 4 s] by simp
  have one: "strquid_format s = 1 \<longleftrightarrow> length s = QUID_LENGTH \<and> s ! 0 = CHR ''{'' \<and> s ! 37 = CHR ''}'' \<and>
      set s \<subseteq> set ''{}-0123456789abcdefABCDEF'' \<and> hyphens s = {9, 14, 19, 24}" for s
    unfolding strquid_format_def h1 by (cases s) (auto simp: QUID_LENGTH_def)
  then show "strquid_format s = 1 \<longleftrightarrow> length s = QUID_LENGTH \<and> s ! 0 = CHR ''{'' \<and> s ! 37 = CHR ''}'' \<and>
      set s \<subseteq> set ''{}-0123456789abcdefABCDEF'' \<and> hyphens s = {9, 14, 19, 24}" .
  show "strquid_format s = 2 \<longleftrightarrow> length s = QUID_LENGTH - 2 \<and>
      set s \<subseteq> set ''-0123456789abcdefABCDEF'' \<and> hyphens s = {8, 13, 18, 23}"
    unfolding strquid_format_def h2 by (simp add: QUID_LENGTH_def)
  obtain t where t: "quidtostr q = CHR ''{'' # t @ [CHR ''}'']" by (simp add: quidtostr_def)
  then have "length t = 36" using quidtostr_length [OF assms] by (simp add: QUID_LENGTH_def)
  then have "quidtostr q ! 0 = CHR ''{''" "quidtostr q ! 37 = CHR ''}''" by (simp_all add: t nth_append)
  then show "strquid_format (quidtostr q) = 1"
    unfolding one using quidtostr_length [OF assms] quidtostr_hyphens [OF assms] quidtostr_set [of q] by blast
qed

text \<open>
  \<open>strquid_format\<close> answers 1 exactly for the braced and 2 exactly for the bare shape: the length,
  the character set and the four hyphens at their positions; every string that \<open>quidtostr\<close> prints
  has shape 1. (Braces are characters of the first set, so they are accepted inside too.)
\<close>

theorem strquid_format_shapes:
  assumes "length (quid_node q) = 6"
  shows "(strquid_format s = 1 \<longleftrightarrow> length s = QUID_LENGTH \<and> s ! 0 = CHR ''{'' \<and> s ! 37 = CHR ''}'' \<and>
      set s \<subseteq> set ''{}-0123456789abcdefABCDEF'' \<and> hyphens s = {9, 14, 19, 24}) \<and>
    (strquid_format s = 2 \<longleftrightarrow> length s = QUID_LENGTH - 2 \<and>
      set s \<subseteq> set ''-0123456789abcdefABCDEF'' \<and> hyphens s = {8, 13, 18, 23}) \<and>
    strquid_format (quidtostr q) = 1"
  by (intro conjI strquid_format_shapes_facts [OF assms])

theorem strquid_format_shapes_witness:
  "strquid_format (quidtostr sample_quid) = 1"
  by (rule strquid_format_shapes [of sample_quid, THEN conjunct2, THEN conjunct2]) (simp add: sample_quid_def)

end
