(* ===== verification/Par_Handle.thy ===== *)
theory Par_Handle
  imports Par_Append Quid
begin

text \<open>
  \<open>par/handle.c\<close>, \<open>par/list.c\<close> and \<open>par/util/parutil.c\<close>: opening and closing archives, the header of
  the archive file, listings, and the routines of the command line program that create, list and
  extract (its \<open>main\<close> is in \<open>Par_Main\<close>). The descriptors and
  compressed streams come from the schedule of the operating system: a negative result is a failure.
\<close>

section \<open>Handles\<close>

definition O_ACCMODE :: int where "O_ACCMODE = 3"
definition O_RDONLY :: int where "O_RDONLY = 0"
definition O_WRONLY :: int where "O_WRONLY = 1"
definition O_RDWR :: int where "O_RDWR = 2"
definition O_CREAT :: int where "O_CREAT = 64"
definition O_EXCL :: int where "O_EXCL = 128"

lemmas open_flags = O_ACCMODE_def O_RDONLY_def O_WRONLY_def O_RDWR_def O_CREAT_def O_EXCL_def

text \<open>A table of extracted names when reading, one of devices when writing.\<close>

datatype handle_table = ReadTable "char list libtar_hash" | WriteTable "tar_dev libtar_hash"

record handle =
  h_pathname :: string
  h_fd :: int
  h_gzfd :: "nat option"
  h_oflags :: int
  h_options :: int
  h_use_gz :: int
  h_table :: handle_table

text \<open>\<open>gzopen_init\<close>; a failing \<open>fchmod\<close> closes the descriptor.\<close>

definition gzopen_init :: "string \<Rightarrow> int \<Rightarrow> int \<Rightarrow> int \<Rightarrow> os \<Rightarrow> nat option \<times> os" where
  "gzopen_init pathname oflags mode fd w =
     (let acc = oflags AND O_ACCMODE in
      if acc \<noteq> O_WRONLY \<and> acc \<noteq> O_RDONLY then (None, w)
      else
        let gzoflags = (if acc = O_WRONLY then ''wb'' else ''rb'') in
        case (if oflags AND O_CREAT \<noteq> 0 then sys (Fchmod fd mode) w else (0, w)) of
          (r, w) \<Rightarrow>
            if r \<noteq> 0 then (None, snd (sys (CloseFd fd) w))
            else case sys (Gzdopen fd gzoflags) w of (g, w) \<Rightarrow> (if g < 0 then None else Some (nat g), w))"

text \<open>Three allocations: the handle, the table's head and the table. The third component is what
  \<open>*t\<close> points to afterwards.\<close>

definition par_init :: "string \<Rightarrow> int \<Rightarrow> int \<Rightarrow> int \<Rightarrow> os \<Rightarrow> int \<times> handle option \<times> os" where
  "par_init pathname compress oflags options w =
     (if oflags AND O_ACCMODE = O_RDWR then (- 1, None, w)
      else case os_alloc w of
        (None, w) \<Rightarrow> (- 1, None, w)
      | (Some _, w) \<Rightarrow>
          (case os_alloc w of (h, w) \<Rightarrow> case os_alloc w of (tab, w) \<Rightarrow>
            let tb =
              (if oflags AND O_ACCMODE = O_RDONLY
               then map_option ReadTable (libtar_hash_new (\<lambda>_ _. None) (h \<noteq> None) (tab \<noteq> None) 256 (Some path_hash_cast))
               else map_option WriteTable (libtar_hash_new (\<lambda>_ _. None) (h \<noteq> None) (tab \<noteq> None) 16 (Some dev_hash_cast)))
            in case tb of
                 None \<Rightarrow> (- 1, None, w)
               | Some tb \<Rightarrow>
                   (0, Some \<lparr>h_pathname = pathname, h_fd = 0, h_gzfd = None, h_oflags = oflags, h_options = options,
                      h_use_gz = compress, h_table = tb\<rparr>, w)))"

text \<open>The handle is gone after a failure of the last step, but not the descriptor.\<close>

definition par_open :: "string \<Rightarrow> int \<Rightarrow> int \<Rightarrow> int \<Rightarrow> int \<Rightarrow> os \<Rightarrow> int \<times> handle option \<times> os" where
  "par_open pathname compress oflags mode options w =
     (case par_init pathname compress oflags options w of
        (r, None, w) \<Rightarrow> (- 1, None, w)
      | (r, Some t, w) \<Rightarrow>
          let oflags = (if options AND PAR_NOOVERWRITE \<noteq> 0 \<and> oflags AND O_CREAT \<noteq> 0 then oflags OR O_EXCL else oflags) in
          case sys (Open pathname oflags mode) w of
            (fd, w) \<Rightarrow>
              let t = t\<lparr>h_fd := fd\<rparr> in
              if fd < 0 then (- 1, Some t, w)
              else case (if h_use_gz t \<noteq> 0 then gzopen_init pathname oflags mode fd w else (h_gzfd t, w)) of
                (gz, w) \<Rightarrow> if gz = None then (- 1, None, w) else (0, Some (t\<lparr>h_gzfd := gz\<rparr>), w))"

section \<open>The header of the archive file\<close>

definition PACKAGE_MAGIC :: string where "PACKAGE_MAGIC = ''$MAVJO}''"
definition PACKAGE_VERSION_MAJOR :: byte where "PACKAGE_VERSION_MAJOR = 1"
definition PACKAGE_VERSION_MINOR :: byte where "PACKAGE_VERSION_MINOR = 2"
definition PAR_COMPRESS :: byte where "PAR_COMPRESS = 16"

record archive_header =
  ah_magic :: "char list"
  ah_version_major :: byte
  ah_version_minor :: byte
  ah_options :: byte
  ah_quid :: "char list"
  ah_meta :: "char list"

definition archive_header_ok :: "archive_header \<Rightarrow> bool" where
  "archive_header_ok h \<longleftrightarrow> length (ah_magic h) = 8 \<and> length (ah_quid h) = 20 \<and> length (ah_meta h) = 64"

text \<open>The bytes of the structure; the identifier is packed, so that there is no padding.\<close>

definition archive_header_bytes :: "archive_header \<Rightarrow> char list" where
  "archive_header_bytes h = ah_magic h @ [byte_char (ah_version_major h), byte_char (ah_version_minor h), byte_char (ah_options h)] @
     ah_quid h @ ah_meta h"

definition archive_header_size :: nat where "archive_header_size = 95"

text \<open>\<open>junk\<close> is the uninitialised local; its options and its meta data are written as they are.\<close>

definition par_write_header ::
  "byte list option \<Rightarrow> (u64 \<times> u64) list \<Rightarrow> archive_header \<Rightarrow> handle \<Rightarrow> clock \<Rightarrow> rng \<Rightarrow> os \<Rightarrow> (int \<times> clock \<times> rng \<times> os) option" where
  "par_write_header seed tvs junk t c g w = do {
     (_, magic) \<leftarrow> strlcpy (ah_magic junk) (PACKAGE_MAGIC @ [nul]) 8;
     (q, c, g) \<leftarrow> quid_create seed tvs c g;
     let header = junk\<lparr>ah_magic := magic, ah_version_major := PACKAGE_VERSION_MAJOR, ah_version_minor := PACKAGE_VERSION_MINOR,
       ah_quid := quid_bytes q, ah_options := (if h_use_gz t \<noteq> 0 then ah_options junk OR PAR_COMPRESS else ah_options junk)\<rparr>;
     (case sys (WriteFd (h_fd t) (archive_header_bytes header)) w of (r, w) \<Rightarrow> Some (if r < 0 then - 1 else 0, c, g, w)) }"

text \<open>\<open>file\<close> is what the descriptor delivers from the start; \<open>junk\<close> the uninitialised local.\<close>

definition par_read_header :: "char list \<Rightarrow> read_outcome list \<Rightarrow> handle \<Rightarrow> os \<Rightarrow> int \<times> read_outcome list \<times> os" where
  "par_read_header junk file t w =
     (case sys (Lseek (h_fd t)) w of
        (r, w) \<Rightarrow>
          if r < 0 then (- 1, file, w)
          else case file_read archive_header_size file of
            (k, bs, file) \<Rightarrow>
              if k < 0 then (- 1, file, w)
              else if \<not> strncmp_eq 8 (overwrite junk bs) PACKAGE_MAGIC then (- 2, file, w)
              else (0, file, w))"

section \<open>Closing\<close>

text \<open>\<open>tar_dev_free\<close>: the table of inodes and its entries.\<close>

definition tar_dev_free :: "tar_dev \<Rightarrow> (addr \<Rightarrow> tar_ino libtar_hash option) \<Rightarrow> (addr \<Rightarrow> tar_ino libtar_hash option) option" where
  "tar_dev_free td inos = do {
     tbl \<leftarrow> inos (td_h td);
     _ \<leftarrow> libtar_hash_free tbl;
     Some (inos(td_h td := None)) }"

fun free_devs :: "tar_dev list \<Rightarrow> (addr \<Rightarrow> tar_ino libtar_hash option) \<Rightarrow> (addr \<Rightarrow> tar_ino libtar_hash option) option" where
  "free_devs [] inos = Some inos"
| "free_devs (td # tds) inos = Option.bind (tar_dev_free td inos) (free_devs tds)"

text \<open>The result is that of the closing call; the entries of the table are freed one by one.\<close>

definition par_close :: "handle \<Rightarrow> (addr \<Rightarrow> tar_ino libtar_hash option) \<Rightarrow> os \<Rightarrow> (int \<times> (addr \<Rightarrow> tar_ino libtar_hash option) \<times> os) option" where
  "par_close t inos w =
     (case (if h_use_gz t \<noteq> 0
            then Option.bind (h_gzfd t) (\<lambda>g. Some (sys (Gzclose g) w)) else Some (sys (CloseFd (h_fd t)) w)) of
        None \<Rightarrow> None
      | Some (i, w) \<Rightarrow>
          (case h_table t of
             ReadTable h \<Rightarrow> map_option (\<lambda>_. (i, inos, w)) (libtar_hash_free h)
           | WriteTable h \<Rightarrow> do {
               tds \<leftarrow> libtar_hash_free h;
               inos \<leftarrow> free_devs tds inos;
               Some (i, inos, w) }))"

section \<open>Listings\<close>

fun hex_digits :: "nat \<Rightarrow> string" where
  "hex_digits n = (if n < 16 then [hex_digit n] else hex_digits (n div 16) @ [hex_digit (n mod 16)])"

declare hex_digits.simps [simp del]

text \<open>A string field with a precision, and \<open>%02x\<close> of a signed \<open>char\<close>.\<close>

definition print_field :: "string \<Rightarrow> nat \<Rightarrow> char list \<Rightarrow> string" where
  "print_field label n f = ''  '' @ label @ '' = '' @ [CHR 0x22] @ cstr (take n f) @ [CHR 0x22, CHR 0x0A]"

definition print_pointer :: "string \<Rightarrow> u64 \<Rightarrow> par \<Rightarrow> string option" where
  "print_pointer label p t =
     map_option (\<lambda>s. ''  '' @ label @ '' = '' @ [CHR 0x22] @ s @ [CHR 0x22, CHR 0x0A])
       (if p \<noteq> 0 then str_at t p else Some ''[NULL]'')"

definition print_char_hex :: "char \<Rightarrow> string" where
  "print_char_hex c = (let s = hex_digits (unat (word_of_int (schar c) :: u32)) in replicate (2 - length s) CHR ''0'' @ s)"

definition th_print :: "par \<Rightarrow> string option" where
  "th_print t = do {
     let h = th_buf t;
     let quote = CHR 0x27;
     n \<leftarrow> print_pointer ''gnu_longname'' (gnu_longname h) t;
     l \<leftarrow> print_pointer ''gnu_longlink'' (gnu_longlink h) t;
     Some ([CHR 0x0A] @ ''Printing header:'' @ [CHR 0x0A] @
       print_field ''name    '' 100 (hdr_name h) @ print_field ''mode    '' 8 (hdr_mode h) @ print_field ''uid     '' 8 (hdr_uid h) @
       print_field ''gid     '' 8 (hdr_gid h) @ print_field ''size    '' 12 (hdr_size h) @ print_field ''mtime   '' 12 (hdr_mtime h) @
       print_field ''chksum  '' 8 (hdr_chksum h) @
       ''  typeflag = '' @ [quote] @ ''0x'' @ print_char_hex (hdr_typeflag h) @ [quote, CHR 0x0A] @
       print_field ''linkname'' 100 (hdr_linkname h) @ print_field ''magic   '' 6 (hdr_magic h) @
       ''  version  = '' @ [quote, hdr_version h ! 0, quote] @ '','' @ [quote, hdr_version h ! 1, quote, CHR 0x0A] @
       print_field ''uname   '' 32 (hdr_uname h) @ print_field ''gname   '' 32 (hdr_gname h) @
       print_field ''prefix  '' 155 (hdr_prefix h) @ print_field ''padding '' 12 (hdr_padding h) @ n @ l) }"

definition show_int :: "int \<Rightarrow> string" where
  "show_int i = (if i < 0 then ''-'' @ decimal (nat (- i)) else decimal (nat i))"

definition pad_right :: "nat \<Rightarrow> string \<Rightarrow> string" where
  "pad_right n s = s @ replicate (n - length s) CHR '' ''"

text \<open>The user data bases by number and the formatted time are parameters.\<close>

record lsenv =
  ls_passwd :: "u32 \<Rightarrow> string option"
  ls_group :: "u32 \<Rightarrow> string option"
  ls_time :: "int \<Rightarrow> string"

definition id_name :: "(u32 \<Rightarrow> string option) \<Rightarrow> u32 \<Rightarrow> string" where
  "id_name names i = take 8 (case names i of None \<Rightarrow> show_int (sint i) | Some n \<Rightarrow> n)"

definition th_print_long_ls :: "penv \<Rightarrow> lsenv \<Rightarrow> par \<Rightarrow> (string \<times> par) option" where
  "th_print_long_ls env ls t = do {
     let h = th_buf t;
     let uid = th_get_uid (getpwnam env) (junk_id env) h;
     let gid = th_get_gid (getgrnam env) (junk_id env) h;
     let modes = take 10 (strmode (th_get_mode h));
     let head = modes @ '' '' @ pad_right 8 (id_name (ls_passwd ls) uid) @ '' '' @ pad_right 8 (id_name (ls_group ls) gid) @ '' '' @
       pad_left 9 (show_int (sint (th_get_size h))) @ '' '' @ ls_time ls (th_get_mtime h);
     (name, t) \<leftarrow> th_get_pathname (malloc_ok env) t;
     name \<leftarrow> name;
     link \<leftarrow>
       (if TH_ISSYM h \<or> TH_ISLNK h then do {
          target \<leftarrow> (if gnu t \<and> gnu_longlink h \<noteq> 0 then map_option safer_name_suffix (str_at t (gnu_longlink h))
                     else (let s = drop 157 (block_of h) in
                       if nul \<in> set s then Some (take 100 (safer_name_suffix (cstr s))) else None));
          Some ((if TH_ISSYM h then '' -> '' else '' link to '') @ target)
        }
        else Some '''');
     Some (head @ '' '' @ name @ link @ [CHR 0x0A], t) }"

section \<open>The command line program\<close>

text \<open>The state of a writer and a reader right after \<open>par_open\<close>; \<open>d\<close> is the file behind the handle.\<close>

definition fresh_par :: "handle \<Rightarrow> par" where
  "fresh_par t = \<lparr>par_options = h_options t, th_buf = zero_header, th_pathname = None, longs = Map.empty\<rparr>"

definition writer_of :: "handle \<Rightarrow> dev \<Rightarrow> par_out option" where
  "writer_of t d =
     (case h_table t of WriteTable h \<Rightarrow> Some \<lparr>out_par = fresh_par t, out_dev = d, out_hash = h, out_inos = Map.empty\<rparr>
      | ReadTable _ \<Rightarrow> None)"

definition reader_of :: "handle \<Rightarrow> dev \<Rightarrow> par_io option" where
  "reader_of t d =
     (case h_table t of ReadTable h \<Rightarrow> Some \<lparr>io_par = fresh_par t, io_dev = d, io_hash = h\<rparr> | WriteTable _ \<Rightarrow> None)"

text \<open>The loop of \<open>par_create\<close> over the names on the command line.\<close>

fun create_loop :: "aenv \<Rightarrow> string option \<Rightarrow> string list \<Rightarrow> par_out \<Rightarrow> os \<Rightarrow> (int \<times> par_out \<times> os) option" where
  "create_loop env rootdir [] out w = Some (0, out, w)"
| "create_loop env rootdir (pathname # ps) out w =
     (let buf = (case rootdir of
          Some dir \<Rightarrow> if pathname = [] \<or> hd pathname \<noteq> slash then join_path dir pathname else take (MAXPATHLEN - 1) pathname
        | None \<Rightarrow> take (MAXPATHLEN - 1) pathname)
      in Option.bind (par_append_tree env buf (Some pathname) out w) (\<lambda>(r, out, w).
        if r \<noteq> 0 then Some (- 1, out, w) else create_loop env rootdir ps out w))"

definition close_handle :: "handle \<Rightarrow> (addr \<Rightarrow> tar_ino libtar_hash option) \<Rightarrow> os \<Rightarrow> (int \<times> os) option" where
  "close_handle t inos w = map_option (\<lambda>(r, _, w). (r, w)) (par_close t inos w)"

text \<open>The result and the bytes behind the handle, after the header of the archive file.\<close>

definition par_create ::
  "aenv \<Rightarrow> byte list option \<Rightarrow> (u64 \<times> u64) list \<Rightarrow> archive_header \<Rightarrow> clock \<Rightarrow> rng \<Rightarrow> dev \<Rightarrow> string \<Rightarrow> string option \<Rightarrow> string list
   \<Rightarrow> os \<Rightarrow> (int \<times> dev \<times> os) option" where
  "par_create env seed tvs junk c g d file rootdir names w =
     (case par_open file 1 (O_WRONLY OR O_CREAT) 420 0 w of
        (r, t, w) \<Rightarrow>
          if r = - 1 then Some (- 1, d, w)
          else do {
            t \<leftarrow> t;
            (r, c, g, w) \<leftarrow> par_write_header seed tvs junk t c g w;
            if r = - 1 then do { (_, w) \<leftarrow> close_handle t Map.empty w; Some (- 1, d, w) }
            else do {
              out \<leftarrow> writer_of t d;
              (r, out, w) \<leftarrow> create_loop env rootdir names out w;
              let t = t\<lparr>h_table := WriteTable (out_hash out)\<rparr>;
              if r \<noteq> 0 then do { (_, w) \<leftarrow> close_handle t (out_inos out) w; Some (- 1, out_dev out, w) }
              else (case par_append_eof (out_dev out) of
                  (r, d) \<Rightarrow> do {
                    (i, w) \<leftarrow> close_handle t (out_inos out) w;
                    Some (if r \<noteq> 0 then - 1 else if i \<noteq> 0 then - 1 else 0, d, w) })
            }
          })"

text \<open>The loop of \<open>par_list\<close>: the result tells whether it ended by itself, and the output.\<close>

partial_function (option) list_loop :: "penv \<Rightarrow> lsenv \<Rightarrow> par \<Rightarrow> dev \<Rightarrow> string \<Rightarrow> (bool \<times> string) option" where
  "list_loop env ls t d txt =
     Option.bind (th_read (mal_link env) (mal_name env) (junk_char env) t d) (\<lambda>(i, t, d).
       if i \<noteq> 0 then Some (True, txt)
       else Option.bind (th_print_long_ls env ls t) (\<lambda>(line, t).
         if TH_ISREG (th_buf t)
         then (case par_skip_regfile t d of (r, d) \<Rightarrow> if r \<noteq> 0 then Some (False, txt @ line) else list_loop env ls t d (txt @ line))
         else list_loop env ls t d (txt @ line)))"

definition par_list ::
  "penv \<Rightarrow> lsenv \<Rightarrow> char list \<Rightarrow> read_outcome list \<Rightarrow> dev \<Rightarrow> string \<Rightarrow> os \<Rightarrow> (int \<times> string \<times> os) option" where
  "par_list env ls junk head d file w =
     (case par_open file 1 O_RDONLY 0 0 w of
        (r, t, w) \<Rightarrow>
          if r = - 1 then Some (- 1, '''', w)
          else do {
            t \<leftarrow> t;
            (case par_read_header junk head t w of
               (r, _, w) \<Rightarrow>
                 if r \<noteq> 0 then do { (_, w) \<leftarrow> close_handle t Map.empty w; Some (- 1, '''', w) }
                 else do {
                   (ok, txt) \<leftarrow> list_loop env ls (fresh_par t) d '''';
                   if \<not> ok then Some (- 1, txt, w)
                   else do { (i, w) \<leftarrow> close_handle t Map.empty w; Some (if i \<noteq> 0 then - 1 else 0, txt, w) } })
          })"

definition par_extract ::
  "penv \<Rightarrow> char list \<Rightarrow> read_outcome list \<Rightarrow> dev \<Rightarrow> string \<Rightarrow> string option \<Rightarrow> os \<Rightarrow> (int \<times> os) option" where
  "par_extract env junk head d file rootdir w =
     (case par_open file 1 O_RDONLY 0 0 w of
        (r, t, w) \<Rightarrow>
          if r = - 1 then Some (- 1, w)
          else do {
            t \<leftarrow> t;
            (case par_read_header junk head t w of
               (r, _, w) \<Rightarrow>
                 if r \<noteq> 0 then do { (_, w) \<leftarrow> close_handle t Map.empty w; Some (- 1, w) }
                 else do {
                   io \<leftarrow> reader_of t d;
                   (r, io, w) \<leftarrow> par_extract_all env rootdir io w;
                   (i, w) \<leftarrow> close_handle (t\<lparr>h_table := ReadTable (io_hash io)\<rparr>) Map.empty w;
                   Some (if r \<noteq> 0 then - 1 else if i \<noteq> 0 then - 1 else 0, w) })
          })"

section \<open>Opening\<close>

lemma path_table_new:
  "\<exists>h. libtar_hash_new (\<lambda>_ _. None) True True 256 (Some path_hash_cast) = Some h \<and> hash_ready h free"
proof -
  obtain h where h: "libtar_hash_new (\<lambda>_ _. None) True True 256 (Some path_hash_cast) = Some h" by (simp add: libtar_hash_new_def)
  have "concat (replicate n []) = []" for n by (induction n) simp_all
  then have "hash_rep h (replicate 256 [])" "hashfunc h = path_hash_cast"
    using h by (auto simp: libtar_hash_new_def hash_rep_def list_all2_conv_all_nth)
  then show ?thesis using h unfolding hash_ready_def by (intro exI [of _ h] conjI exI [of _ "replicate 256 []"]) simp_all
qed

text \<open>Opening an archive without compression always fails: the descriptor is opened, but the
  missing compressed stream counts as an error.\<close>

theorem par_open_uncompressed: "fst (par_open pathname 0 oflags mode options w) = - 1"
proof (cases "par_init pathname 0 oflags options w")
  case (fields r t w')
  have "h_use_gz h = 0 \<and> h_gzfd h = None" if "t = Some h" for h
    using fields that by (auto simp: par_init_def Let_def split: if_splits option.splits prod.splits)
  then show ?thesis using fields by (auto simp: par_open_def Let_def split: option.splits prod.splits)
qed

lemma open_write:
  assumes "results w = []" "allocs w = a # b # c # free"
  shows "\<exists>t w'. par_open file 1 (O_WRONLY OR O_CREAT) mode 0 w = (0, Some t, w') \<and> allocs w' = free \<and> results w' = [] \<and>
    h_use_gz t = 1 \<and> h_gzfd t \<noteq> None \<and> h_options t = 0 \<and>
    (\<forall>d. \<exists>out. writer_of t d = Some out \<and> out_dev out = d \<and> tables_ok out free \<and> (\<forall>i. known_name out i = None))"
proof -
  obtain h where h: "libtar_hash_new (\<lambda>_ _. None) True True 16 (Some dev_hash_cast) = Some h" "hash_inv dev_matches h"
      "\<forall>a. hash_fresh a h" "\<forall>k. hash_lookup dev_matches k h = Some None" "libtar_hash_free h = Some []"
    using dev_table_new by blast
  have fl: "(O_WRONLY OR O_CREAT) AND O_ACCMODE = O_WRONLY" "(O_WRONLY OR O_CREAT) AND O_CREAT \<noteq> 0"
      "O_WRONLY \<noteq> O_RDWR" "O_WRONLY \<noteq> O_RDONLY" by (simp_all add: open_flags)
  let ?t = "\<lparr>h_pathname = file, h_fd = 0, h_gzfd = Some 0, h_oflags = O_WRONLY OR O_CREAT, h_options = 0, h_use_gz = 1,
      h_table = WriteTable h\<rparr>"
  let ?w = "w\<lparr>allocs := free, calls := calls w @ [Open file (O_WRONLY OR O_CREAT) mode, Fchmod 0 mode, Gzdopen 0 ''wb'']\<rparr>"
  have "par_open file 1 (O_WRONLY OR O_CREAT) mode 0 w = (0, Some ?t, ?w)"
    using assms fl h(1) by (simp add: par_open_def par_init_def os_alloc_def gzopen_init_def sys_def Let_def)
  moreover have "tables_ok \<lparr>out_par = fresh_par ?t, out_dev = d, out_hash = h, out_inos = Map.empty\<rparr> free" for d
    using h by (simp add: tables_ok_def)
  ultimately show ?thesis using h(4) assms(1)
    by (intro exI [of _ ?t] exI [of _ ?w]) (simp add: writer_of_def known_name_def)
qed

lemma open_read:
  assumes "results w = []" "allocs w = a # b # c # free"
  shows "\<exists>t w'. par_open file 1 O_RDONLY mode 0 w = (0, Some t, w') \<and> allocs w' = free \<and> results w' = [] \<and>
    files [] (calls w') = files [] (calls w) \<and> h_use_gz t = 1 \<and> h_gzfd t \<noteq> None \<and>
    (\<forall>d. \<exists>io. reader_of t d = Some io \<and> io_par io = \<lparr>par_options = 0, th_buf = zero_header, th_pathname = None, longs = Map.empty\<rparr> \<and>
       io_dev io = d \<and> hash_ready (io_hash io) free)"
proof -
  obtain h where h: "libtar_hash_new (\<lambda>_ _. None) True True 256 (Some path_hash_cast) = Some h" "hash_ready h free"
    using path_table_new by blast
  have fl: "O_RDONLY AND O_ACCMODE = O_RDONLY" "O_RDONLY AND O_CREAT = 0" "O_RDONLY \<noteq> O_RDWR" "O_RDONLY \<noteq> O_WRONLY"
    by (simp_all add: open_flags)
  let ?t = "\<lparr>h_pathname = file, h_fd = 0, h_gzfd = Some 0, h_oflags = O_RDONLY, h_options = 0, h_use_gz = 1, h_table = ReadTable h\<rparr>"
  let ?w = "w\<lparr>allocs := free, calls := calls w @ [Open file O_RDONLY mode, Gzdopen 0 ''rb'']\<rparr>"
  have "par_open file 1 O_RDONLY mode 0 w = (0, Some ?t, ?w)"
    using assms fl h(1) by (simp add: par_open_def par_init_def os_alloc_def gzopen_init_def sys_def Let_def)
  then show ?thesis using h(2) assms(1)
    by (intro exI [of _ ?t] exI [of _ ?w]) (simp add: reader_of_def fresh_par_def files_append)
qed

section \<open>Closing\<close>

lemma free_devs_ok:
  assumes "\<forall>td\<in>set tds. \<exists>tbl. inos (td_h td) = Some tbl \<and> hash_inv ino_matches tbl" "distinct (map td_h tds)"
  shows "\<exists>inos'. free_devs tds inos = Some inos'"
  using assms
proof (induction tds arbitrary: inos)
  case (Cons td tds)
  then obtain tbl where tbl: "inos (td_h td) = Some tbl" "hash_inv ino_matches tbl" by auto
  then obtain ds where "libtar_hash_free tbl = Some ds" using hash_listed.contents_ok by blast
  then have "tar_dev_free td inos = Some (inos(td_h td := None))" using tbl(1) by (simp add: tar_dev_free_def)
  moreover have "\<exists>inos'. free_devs tds (inos(td_h td := None)) = Some inos'"
    using Cons.prems by (intro Cons.IH) (auto simp: image_iff)
  ultimately show ?case by simp
qed simp

lemma close_write:
  assumes "tables_ok out free" "h_use_gz t \<noteq> 0" "h_gzfd t \<noteq> None" "results w = []"
  shows "\<exists>w'. close_handle (t\<lparr>h_table := WriteTable (out_hash out)\<rparr>) (out_inos out) w = Some (0, w')"
proof -
  note ok = tables_okD [OF assms(1)]
  obtain tds where tds: "libtar_hash_free (out_hash out) = Some tds" "distinct tds" "\<forall>td\<in>set tds. dev_found out (td_dev td) td"
    using ok(6) by blast
  have "td = td'" if "td \<in> set tds" "td' \<in> set tds" "td_h td = td_h td'" for td td'
    using ok(5) [of "td_dev td" td "td_dev td'" td'] tds(3) that by auto
  then have "distinct (map td_h tds)" using tds(2) by (auto simp: distinct_map inj_on_def)
  moreover have "\<forall>td\<in>set tds. \<exists>tbl. out_inos out (td_h td) = Some tbl \<and> hash_inv ino_matches tbl" using tds(3) ok(4) by blast
  ultimately obtain inos where "free_devs tds (out_inos out) = Some inos" using free_devs_ok by blast
  then show ?thesis using assms(2-4) tds(1) by (auto simp: close_handle_def par_close_def sys_ok)
qed

lemma close_read:
  assumes "hash_rep hash css" "h_use_gz t \<noteq> 0" "h_gzfd t \<noteq> None" "results w = []"
  shows "\<exists>w'. close_handle (t\<lparr>h_table := ReadTable hash\<rparr>) inos w = Some (0, w') \<and> files [] (calls w') = files [] (calls w)"
  using libtar_hash_empty_rep [OF assms(1)] assms(2-4) by (auto simp: close_handle_def par_close_def sys_ok files_append)

section \<open>The whole program\<close>

lemma random_words_length: "random_words n seed g = Some (ws, g') \<Longrightarrow> length ws = n"
  by (induction n seed g arbitrary: ws g' rule: random_words.induct) (auto split: bind_splits)

lemma quid_bytes_length:
  assumes "quid_create seed tvs c g = Some (q, c', g')"
  shows "length (quid_bytes q) = 20"
  using assms random_words_length
  by (auto simp: quid_create_def format_quid_def quid_bytes_def node_bytes_def split: bind_splits)

lemma header_written:
  assumes "archive_header_ok junk" "quid_create seed tvs c g = Some (q, c', g')" "results w = []"
  shows "\<exists>hb. par_write_header seed tvs junk t c g w = Some (0, c', g', w\<lparr>calls := calls w @ [WriteFd (h_fd t) hb]\<rparr>) \<and>
    length hb = archive_header_size \<and> take 8 hb = PACKAGE_MAGIC @ [nul]"
proof -
  have cp: "strlcpy (ah_magic junk) (PACKAGE_MAGIC @ [nul]) 8 = Some (7, PACKAGE_MAGIC @ [nul])"
    using strlcpy_eq [of PACKAGE_MAGIC 8 "ah_magic junk" "[]"] assms(1)
    by (simp add: PACKAGE_MAGIC_def nul_free_def archive_header_ok_def overwrite_def)
  let ?h = "junk\<lparr>ah_magic := PACKAGE_MAGIC @ [nul], ah_version_major := PACKAGE_VERSION_MAJOR, ah_version_minor := PACKAGE_VERSION_MINOR,
       ah_quid := quid_bytes q, ah_options := (if h_use_gz t \<noteq> 0 then ah_options junk OR PAR_COMPRESS else ah_options junk)\<rparr>"
  let ?hb = "archive_header_bytes ?h"
  have "par_write_header seed tvs junk t c g w = Some (0, c', g', w\<lparr>calls := calls w @ [WriteFd (h_fd t) ?hb]\<rparr>)"
    using cp assms(2,3) by (simp add: par_write_header_def Let_def sys_ok)
  moreover have "length ?hb = archive_header_size" "take 8 ?hb = PACKAGE_MAGIC @ [nul]"
    using assms(1) quid_bytes_length [OF assms(2)]
    by (simp_all add: archive_header_bytes_def archive_header_size_def archive_header_ok_def PACKAGE_MAGIC_def)
  ultimately show ?thesis by blast
qed

lemma header_read:
  assumes "length hb = archive_header_size" "take 8 hb = PACKAGE_MAGIC @ [nul]" "length junk = archive_header_size" "results w = []"
  shows "par_read_header junk [ReadData hb] t w = (0, [], w\<lparr>calls := calls w @ [Lseek (h_fd t)]\<rparr>)"
proof -
  have "overwrite junk hb = hb" using assms(1,3) by (simp add: overwrite_def)
  moreover have "take 8 (PACKAGE_MAGIC :: string) = PACKAGE_MAGIC" "cstr (PACKAGE_MAGIC @ [nul]) = cstr PACKAGE_MAGIC"
    by (simp_all add: PACKAGE_MAGIC_def cstr_def)
  ultimately show ?thesis
    using assms by (simp add: par_read_header_def sys_ok file_read_def strncmp_eq_def)
qed

lemma create_loop_files:
  assumes "list_all (\<lambda>n. tree_at env n File \<and> length n < MAXPATHLEN) names"
  shows "create_loop env None names out w = append_all env (map (\<lambda>n. (n, Some n)) names) out w"
  using assms
proof (induction names arbitrary: out w)
  case (Cons n names)
  have "par_append_tree env n (Some n) out w = append_all env [(n, Some n)] out w" using tree_appended [of env n File] Cons.prems by simp
  then show ?case using Cons by (cases "par_append_file env n (Some n) out w") (auto simp: Let_def)
qed simp

text \<open>A regular file under its name, that \<open>opendir\<close> refuses.\<close>

definition plain_file :: "aenv \<Rightarrow> string \<times> string \<Rightarrow> bool" where
  "plain_file env x \<longleftrightarrow> (\<exists>f. fs env (fst x) = Some f \<and> regular f (snd x) \<and> fi_dents f = Inl ENOTDIR) \<and> short_name (fst x)"

lemma plain_file_facts:
  assumes "plain_file env (n, s)"
  shows "tree_at env n File" "length n < MAXPATHLEN" "input_ok env ((n, Some n), s)"
  using assms regular_only(6)
  by (auto simp: plain_file_def regular_def input_ok_def saved_as_def short_name_def T_NAMELEN_def MAXPATHLEN_def)

lemma program_creates:
  assumes "list_all (plain_file env) xs" "distinct (map (inode env \<circ> fst) xs)" "names_ok env" "length (data_buf env) = T_BLOCKSIZE"
    and "archive_header_ok junk" "quid_create seed tvs c g = Some (q, c', g')"
    and "results w = []" "distinct (allocs w)" "8 * length xs + 3 \<le> length (allocs w)" "written d = []" "wouts d = []"
  shows "\<exists>d' w' fd hb es. par_create env seed tvs junk c g d file None (map fst xs) w = Some (0, d', w') \<and>
    WriteFd fd hb \<in> set (calls w') \<and> length hb = archive_header_size \<and> take 8 hb = PACKAGE_MAGIC @ [nul] \<and>
    written d' = archive_bytes es \<and> list_all entry_ok es \<and>
    map (\<lambda>(h, s). (entry_name h, s)) es = map (\<lambda>(n, s). (safer_name_suffix n, s)) xs"
proof -
  obtain a b c1 free where al: "allocs w = a # b # c1 # free" using assms(9) by (metis Suc_le_length_iff add_leD2 numeral_3_eq_3)
  obtain t w1 where t: "par_open file 1 (O_WRONLY OR O_CREAT) 420 0 w = (0, Some t, w1)" "allocs w1 = free" "results w1 = []"
      "h_use_gz t = 1" "h_gzfd t \<noteq> None"
      "\<forall>d. \<exists>out. writer_of t d = Some out \<and> out_dev out = d \<and> tables_ok out free \<and> (\<forall>i. known_name out i = None)"
    using open_write [OF assms(7) al] by blast
  obtain hb where hb: "par_write_header seed tvs junk t c g w1 = Some (0, c', g', w1\<lparr>calls := calls w1 @ [WriteFd (h_fd t) hb]\<rparr>)"
      "length hb = archive_header_size" "take 8 hb = PACKAGE_MAGIC @ [nul]"
    using header_written [OF assms(5,6) t(3)] by blast
  let ?w = "w1\<lparr>calls := calls w1 @ [WriteFd (h_fd t) hb]\<rparr>"
  obtain out where out: "writer_of t d = Some out" "out_dev out = d" "tables_ok out (allocs ?w)" "\<forall>i. known_name out i = None"
    using spec [OF t(6), of d] t(2) by auto
  let ?ys = "map (\<lambda>(n, s). ((n, Some n), s)) xs"
  have ok: "list_all (input_ok env) ?ys" "list_all (\<lambda>n. tree_at env n File \<and> length n < MAXPATHLEN) (map fst xs)"
    using assms(1) plain_file_facts by (auto simp: list_all_iff)
  have ino: "map (inode env \<circ> fst \<circ> fst) ?ys = map (inode env \<circ> fst) xs" by auto
  have names: "map fst ?ys = map (\<lambda>n. (n, Some n)) (map fst xs)" by auto
  obtain es out' k where es: "append_all env (map fst ?ys) out ?w = Some (0, out', ?w\<lparr>allocs := drop k (allocs ?w)\<rparr>)"
      "tables_ok out' (drop k (allocs ?w))" "list_all entry_ok es"
      "map (\<lambda>(h, s). (entry_name h, s)) es = map (\<lambda>(n, s). (safer_name_suffix (saved_as n), s)) ?ys"
      "out_dev out' = (out_dev out)\<lparr>written := written (out_dev out) @ concat (map (\<lambda>(h, s). block_of (th_finish h) @ padded s) es)\<rparr>"
    using files_appended [of out ?w ?ys env] out(2-4) ok(1) assms(2-4,8,9,11) t(2) al unfolding ino by auto
  have eof: "par_append_eof (out_dev out') = (0, (out_dev out')\<lparr>written := archive_bytes es\<rparr>)"
    using es(5) out(2) assms(10,11) by (intro eof_appended) simp_all
  let ?w2 = "?w\<lparr>allocs := drop k (allocs ?w)\<rparr>"
  obtain w' where w': "close_handle (t\<lparr>h_table := WriteTable (out_hash out')\<rparr>) (out_inos out') ?w2 = Some (0, w')"
    using close_write [OF es(2), of t ?w2] t(3-5) by auto
  then have "calls w' = calls ?w2 @ [Gzclose (the (h_gzfd t))]"
    using t(3-5) by (auto simp: close_handle_def par_close_def sys_ok split: option.splits handle_table.splits bind_splits)
  then have "WriteFd (h_fd t) hb \<in> set (calls w')" by simp
  moreover have "create_loop env None (map fst xs) out ?w = Some (0, out', ?w2)"
    using create_loop_files [OF ok(2)] es(1) unfolding names by simp
  then have "par_create env seed tvs junk c g d file None (map fst xs) w = Some (0, (out_dev out')\<lparr>written := archive_bytes es\<rparr>, w')"
    using t(1) hb(1) out(1) eof w' by (simp add: par_create_def Let_def)
  moreover have "map (\<lambda>(n, s). (safer_name_suffix (saved_as n), s)) ?ys = map (\<lambda>(n, s). (safer_name_suffix n, s)) xs"
    by (auto simp: saved_as_def)
  ultimately show ?thesis using hb(2,3) es(3,4) by fastforce
qed

lemma program_extracts:
  assumes "list_all entry_ok es" "env_ok env" "length hb = archive_header_size" "take 8 hb = PACKAGE_MAGIC @ [nul]"
    and "length junk = archive_header_size" "results w = []" "distinct (allocs w)" "3 * length es + 3 \<le> length (allocs w)"
  shows "\<exists>w'. par_extract env junk [ReadData hb] (dev_of (map ReadData (chop (archive_bytes es)))) file None w = Some (0, w') \<and>
    files [] (calls w') = files [] (calls w) @ map (\<lambda>(h, s). (entry_name h, s)) es"
proof -
  obtain a b c free where al: "allocs w = a # b # c # free" using assms(8) by (metis Suc_le_length_iff add_leD2 numeral_3_eq_3)
  let ?d = "dev_of (map ReadData (chop (archive_bytes es)))"
  obtain t w1 where t: "par_open file 1 O_RDONLY 0 0 w = (0, Some t, w1)" "allocs w1 = free" "results w1 = []"
      "files [] (calls w1) = files [] (calls w)" "h_use_gz t = 1" "h_gzfd t \<noteq> None"
      "\<forall>d. \<exists>io. reader_of t d = Some io \<and> io_par io = \<lparr>par_options = 0, th_buf = zero_header, th_pathname = None, longs = Map.empty\<rparr> \<and>
         io_dev io = d \<and> hash_ready (io_hash io) free"
    using open_read [OF assms(6) al] by blast
  let ?w = "w1\<lparr>calls := calls w1 @ [Lseek (h_fd t)]\<rparr>"
  have hd: "par_read_header junk [ReadData hb] t w1 = (0, [], ?w)" by (rule header_read [OF assms(3-5) t(3)])
  obtain io where io: "reader_of t ?d = Some io" "io_par io = \<lparr>par_options = 0, th_buf = zero_header, th_pathname = None, longs = Map.empty\<rparr>"
      "io_dev io = ?d" "hash_ready (io_hash io) (allocs ?w)"
    using spec [OF t(7), of ?d] t(2) by auto
  have par: "par_ok (io_par io)" using io(2) zero_header_facts(1) by (simp add: par_ok_def)
  obtain io' w2 where w2: "par_extract_all env None io ?w = Some (0, io', w2)" "results w2 = []" "hash_ready (io_hash io') []"
      "files [] (calls w2) = files [] (calls ?w) @ map (\<lambda>(h, s). (target_name None (entry_name h), s)) es"
    using archive_extracted [OF assms(1) par, of "[]" ?w env None] io(2-4) zero_header_facts(3,4) t(2,3) assms(2,7,8) al
    by (auto simp: dev_of_def prefix_ok_def)
  obtain css where "hash_rep (io_hash io') css" using w2(3) by (auto simp: hash_ready_def)
  then obtain w' where w': "close_handle (t\<lparr>h_table := ReadTable (io_hash io')\<rparr>) Map.empty w2 = Some (0, w')"
      "files [] (calls w') = files [] (calls w2)"
    using close_read [of _ css t w2] t(5,6) w2(2) by fastforce
  have "target_name None (entry_name h) = entry_name h" for h
    using entry_name_facts(2) [of h] by (simp add: target_name_def MAXPATHLEN_def)
  moreover have "par_extract env junk [ReadData hb] ?d file None w = Some (0, w')"
    using t(1) hd io(1) w2(1) w'(1) by (simp add: par_extract_def)
  ultimately show ?thesis using w'(2) w2(4) t(4) by (simp add: files_append)
qed

text \<open>The program round trip: \<open>par_create\<close> on regular files with distinct inodes and names that
  fit the name field succeeds, and \<open>par_extract\<close> on what it wrote (the header of the archive file,
  then the blocks behind it) succeeds and creates exactly these files in this order, with their
  contents, under their names made safe.\<close>

theorem par_roundtrip:
  assumes "list_all (plain_file env) xs" "distinct (map (inode env \<circ> fst) xs)" "names_ok env" "length (data_buf env) = T_BLOCKSIZE"
    and "archive_header_ok junk" "quid_create seed tvs c g \<noteq> None" "written d = []" "wouts d = []"
    and "results w = []" "distinct (allocs w)" "8 * length xs + 3 \<le> length (allocs w)"
    and "env_ok penv" "length junk2 = archive_header_size" "results w2 = []" "distinct (allocs w2)" "3 * length xs + 3 \<le> length (allocs w2)"
  shows "\<exists>d' w' fd hb. par_create env seed tvs junk c g d file None (map fst xs) w = Some (0, d', w') \<and> WriteFd fd hb \<in> set (calls w') \<and>
    (\<exists>w2'. par_extract penv junk2 [ReadData hb] (dev_of (map ReadData (chop (written d')))) file None w2 = Some (0, w2') \<and>
       files [] (calls w2') = files [] (calls w2) @ map (\<lambda>(n, s). (safer_name_suffix n, s)) xs)"
proof -
  obtain q c' g' where q: "quid_create seed tvs c g = Some (q, c', g')" using assms(6) by auto
  obtain d' w' fd hb es where cr: "par_create env seed tvs junk c g d file None (map fst xs) w = Some (0, d', w')"
      "WriteFd fd hb \<in> set (calls w')" "length hb = archive_header_size" "take 8 hb = PACKAGE_MAGIC @ [nul]"
      "written d' = archive_bytes es" "list_all entry_ok es" "map (\<lambda>(h, s). (entry_name h, s)) es = map (\<lambda>(n, s). (safer_name_suffix n, s)) xs"
    using program_creates [OF assms(1-5) q assms(9-11,7,8)] by blast
  have "length es = length xs" using cr(7) map_eq_imp_length_eq by blast
  then have "\<exists>w2'. par_extract penv junk2 [ReadData hb] (dev_of (map ReadData (chop (written d')))) file None w2 = Some (0, w2') \<and>
      files [] (calls w2') = files [] (calls w2) @ map (\<lambda>(n, s). (safer_name_suffix n, s)) xs"
    using program_extracts [OF cr(6) assms(12) cr(3,4) assms(13-15)] assms(16) unfolding cr(5) cr(7) [symmetric] by simp
  then show ?thesis using cr(1,2) by blast
qed

definition sample_archive_header :: archive_header where
  "sample_archive_header = \<lparr>ah_magic = replicate 8 nul, ah_version_major = 0, ah_version_minor = 0, ah_options = 0,
     ah_quid = replicate 20 nul, ah_meta = replicate 64 nul\<rparr>"

definition sample_os :: "nat \<Rightarrow> os" where
  "sample_os n = \<lparr>calls = [], results = [], allocs = [1..<n]\<rparr>"

definition sample_clock :: clock where
  "sample_clock = \<lparr>clk_inited = True, time_last = 0, ids_this_tick = 0\<rparr>"

lemma sample_quid_created: "quid_create None [(1000, 5)] sample_clock fresh_rng \<noteq> None"
proof -
  obtain w g where "arc4random None fresh_rng = Some (w, g)" using arc4random_total [of None fresh_rng] by blast
  moreover obtain ts cl l where "get_current_time [(1000, 5)] sample_clock = Some (ts, cl, l)"
    by (simp add: get_current_time_def sample_clock_def Let_def get_system_time_def EPOCH_DIFF_def)
  moreover obtain q g' where "format_quid None (ucast w) ts g = Some (q, g')" using format_quid_total by blast
  ultimately show ?thesis by (simp add: quid_create_def)
qed

lemma sample_files: "list_all (plain_file sample_aenv) [(''a'', ''hello''), (''b'', '''')]"
    "distinct (map (inode sample_aenv \<circ> fst) [(''a'', ''hello''), (''b'', '''')])"
  by (simp_all add: plain_file_def sample_aenv_def sample_file_def regular_def short_name_def S_IS_def file_type_defs T_NAMELEN_def
      nul_free_def inode_def)

theorem par_roundtrip_witness:
  "\<exists>d' w' fd hb. par_create sample_aenv None [(1000, 5)] sample_archive_header sample_clock fresh_rng (dev_of []) ''x.par'' None [''a'', ''b'']
       (sample_os 30) = Some (0, d', w') \<and> WriteFd fd hb \<in> set (calls w') \<and>
    (\<exists>w2'. par_extract plain_penv (replicate archive_header_size nul) [ReadData hb] (dev_of (map ReadData (chop (written d')))) ''x.par'' None
         (sample_os 30) = Some (0, w2') \<and>
       files [] (calls w2') = [(safer_name_suffix ''a'', ''hello''), (safer_name_suffix ''b'', '''')])"
  using par_roundtrip [of sample_aenv "[(''a'', ''hello''), (''b'', '''')]" sample_archive_header None "[(1000, 5)]" sample_clock fresh_rng
      "dev_of []" "sample_os 30" plain_penv "replicate archive_header_size nul" "sample_os 30" "''x.par''"] sample_files sample_quid_created
  by (simp add: names_ok_def sample_aenv_def archive_header_ok_def sample_archive_header_def dev_of_def sample_os_def env_ok_def plain_penv_def)

end
