(* ===== verification/Common_Util.thy ===== *)
theory Common_Util
  imports Prelude "HOL-Library.Sublist"
begin

text \<open>
  \<open>common/url.cpp\<close> and \<open>common/util.c\<close>: splitting a URL, the extension of a file name, counting the lines of a
  file that hold a string, random names, and the removal of a directory tree.
\<close>

section \<open>URLs\<close>

record url =
  url_protocol :: string
  url_host :: string
  url_path :: string
  url_query :: string

text \<open>\<open>std::search\<close> returns the end of the string when it finds nothing.\<close>

definition url_parse :: "string \<Rightarrow> url" where
  "url_parse url_s =
     (case find_sub ''://'' url_s of
        None \<Rightarrow> \<lparr>url_protocol = map tolower url_s, url_host = [], url_path = [], url_query = []\<rparr>
      | Some k \<Rightarrow>
          (let rest = drop (k + 3) url_s;
               host = takeWhile (\<lambda>c. c \<noteq> CHR ''/'') rest;
               tail = dropWhile (\<lambda>c. c \<noteq> CHR ''/'') rest;
               path = takeWhile (\<lambda>c. c \<noteq> CHR ''?'') tail;
               query = dropWhile (\<lambda>c. c \<noteq> CHR ''?'') tail
           in \<lparr>url_protocol = map tolower (take k url_s), url_host = map tolower host, url_path = path,
               url_query = (if query = [] then [] else tl query)\<rparr>))"

definition url_print :: "url \<Rightarrow> string" where
  "url_print u = url_protocol u @ ''://'' @ url_host u @ url_path u @ (if url_query u = [] then [] else ''?'' @ url_query u)"

text \<open>Components that a URL can carry: the path begins with a slash, or both it and the query are empty.\<close>

definition url_wf :: "url \<Rightarrow> bool" where
  "url_wf u \<longleftrightarrow>
     map tolower (url_protocol u) = url_protocol u \<and> CHR '':'' \<notin> set (url_protocol u) \<and>
     map tolower (url_host u) = url_host u \<and> CHR ''/'' \<notin> set (url_host u) \<and>
     CHR ''?'' \<notin> set (url_path u) \<and>
     (url_path u = [] \<longrightarrow> url_query u = []) \<and> (url_path u \<noteq> [] \<longrightarrow> hd (url_path u) = CHR ''/'')"

lemma span_stop:
  assumes "z \<notin> set xs" "ys = [] \<or> hd ys = z"
  shows "takeWhile (\<lambda>c. c \<noteq> z) (xs @ ys) = xs" "dropWhile (\<lambda>c. c \<noteq> z) (xs @ ys) = ys"
proof -
  show "takeWhile (\<lambda>c. c \<noteq> z) (xs @ ys) = xs" using assms by (induction xs) (auto simp: takeWhile_eq_Nil_iff)
  have "dropWhile (\<lambda>c. c \<noteq> z) ys = ys" using assms(2) by (cases ys) auto
  then show "dropWhile (\<lambda>c. c \<noteq> z) (xs @ ys) = ys" using assms(1) by (induction xs) auto
qed

lemma find_sub_first:
  "c \<notin> set p \<Longrightarrow> find_sub (c # sep) (p @ c # sep @ rest) = Some (length p)"
  by (induction p) (auto simp: find_sub.simps [of _ "_ # _"])

text \<open>
  A URL that is put together from its components is split into the same components.\<close>

theorem url_roundtrip:
  assumes "url_wf u"
  shows "url_parse (url_print u) = u"
proof -
  define q where "q = (if url_query u = [] then [] else ''?'' @ url_query u)"
  have k: "find_sub ''://'' (url_print u) = Some (length (url_protocol u))"
    using find_sub_first [of "CHR '':''" "url_protocol u" "''//''"] assms by (simp add: url_print_def url_wf_def)
  have "url_path u @ q = [] \<or> hd (url_path u @ q) = CHR ''/''" using assms by (auto simp: url_wf_def q_def)
  then have host: "takeWhile (\<lambda>c. c \<noteq> CHR ''/'') (url_host u @ url_path u @ q) = url_host u"
    "dropWhile (\<lambda>c. c \<noteq> CHR ''/'') (url_host u @ url_path u @ q) = url_path u @ q"
    using assms by (intro span_stop; simp add: url_wf_def)+
  have path: "takeWhile (\<lambda>c. c \<noteq> CHR ''?'') (url_path u @ q) = url_path u" "dropWhile (\<lambda>c. c \<noteq> CHR ''?'') (url_path u @ q) = q"
    using assms by (intro span_stop; simp add: url_wf_def q_def)+
  have rest: "take (length (url_protocol u)) (url_print u) = url_protocol u"
    "drop (length (url_protocol u) + 3) (url_print u) = url_host u @ url_path u @ q"
    by (simp_all add: url_print_def q_def)
  show ?thesis unfolding url_parse_def k option.case rest Let_def host path
    using assms by (simp add: url_wf_def q_def)
qed

theorem url_roundtrip_witness:
  "url_parse (url_print \<lparr>url_protocol = ''http'', url_host = ''a.nl:80'', url_path = ''/x'', url_query = ''y?z''\<rparr>) =
    \<lparr>url_protocol = ''http'', url_host = ''a.nl:80'', url_path = ''/x'', url_query = ''y?z''\<rparr>"
  by (rule url_roundtrip) (simp add: url_wf_def tolower_def)

section \<open>File names and files\<close>

text \<open>The place behind the last dot; \<open>None\<close> is a null pointer.\<close>

fun strrchr :: "char \<Rightarrow> string \<Rightarrow> nat option" where
  "strrchr c [] = None"
| "strrchr c (d # s) =
     (case strrchr c s of Some k \<Rightarrow> Some (Suc k) | None \<Rightarrow> if d = c then Some 0 else None)"

definition file_extension :: "string \<Rightarrow> string option" where
  "file_extension fname =
     (case strrchr CHR ''.'' fname of
        None \<Rightarrow> None
      | Some dot \<Rightarrow> if dot = 0 then None else Some (drop (dot + 1) fname))"

lemma strrchr_None: "c \<notin> set s \<Longrightarrow> strrchr c s = None"
  by (induction s) auto

lemma strrchr_last: "c \<notin> set s \<Longrightarrow> strrchr c (p @ c # s) = Some (length p)"
  by (induction p) (simp_all add: strrchr_None)

lemma file_extension_append:
  "p \<noteq> [] \<Longrightarrow> CHR ''.'' \<notin> set e \<Longrightarrow> file_extension (p @ CHR ''.'' # e) = Some e"
  by (simp add: file_extension_def strrchr_last)

function find_lines :: "string \<Rightarrow> string \<Rightarrow> nat" where
  "find_lines str inp =
     (if inp = [] then 0
      else case fgets 512 inp of
        (temp, inp') \<Rightarrow> (if find_sub str (cstr temp) \<noteq> None then 1 else 0) + find_lines str inp')"
  by pat_completeness auto
termination
  by (relation "measure (\<lambda>(_, inp). length inp)") (auto intro: fgets_shorter)

declare find_lines.simps [simp del]

definition find_in_file :: "string option \<Rightarrow> string \<Rightarrow> int" where
  "find_in_file content str = (case content of None \<Rightarrow> - 1 | Some inp \<Rightarrow> int (find_lines str inp))"

lemma find_sub_sublist: "find_sub sep s \<noteq> None \<longleftrightarrow> sublist sep s"
proof (induction s)
  case Nil
  then show ?case by (subst find_sub.simps) auto
next
  case (Cons c s)
  have "take (length sep) (c # s) = sep \<longleftrightarrow> prefix sep (c # s)" by (metis append_eq_conv_conj prefix_def take_is_prefix)
  then show ?case using Cons by (subst find_sub.simps) (auto simp: sublist_Cons_right)
qed

lemma sublist_line: "c \<notin> set str \<Longrightarrow> sublist str (l @ [c]) \<longleftrightarrow> sublist str l"
proof
  assume c: "c \<notin> set str" and "sublist str (l @ [c])"
  then obtain ps ss where s: "l @ [c] = ps @ str @ ss" by (auto simp: sublist_def)
  show "sublist str l"
  proof (cases ss rule: rev_cases)
    case Nil
    then show ?thesis using s c by (cases str rule: rev_cases) auto
  next
    case (snoc ss' d)
    then have "l = ps @ str @ ss'" using s by simp
    then show ?thesis by (auto simp: sublist_def)
  qed
qed (metis sublist_append_rightI sublist_order.order_trans)

text \<open>
  On a file whose lines fit the buffer, the result is the number of lines that contain the string.\<close>

theorem find_in_file_counts:
  assumes "\<forall>l\<in>set ls. CHR 0x0A \<notin> set l \<and> nul_free l \<and> length l < 511" "CHR 0x0A \<notin> set str"
  shows "find_in_file (Some (concat (map (\<lambda>l. l @ [CHR 0x0A]) ls))) str = int (length (filter (sublist str) ls))"
proof -
  have "find_lines str (concat (map (\<lambda>l. l @ [CHR 0x0A]) ls)) = length (filter (sublist str) ls)"
    using assms(1)
  proof (induction ls)
    case (Cons l ls)
    have "fgets 512 (l @ CHR 0x0A # concat (map (\<lambda>l. l @ [CHR 0x0A]) ls)) =
        (l @ [CHR 0x0A], concat (map (\<lambda>l. l @ [CHR 0x0A]) ls))"
      using Cons.prems by (intro fgets_line) auto
    moreover have "find_sub str (l @ [CHR 0x0A]) \<noteq> None \<longleftrightarrow> sublist str l"
      using sublist_line [OF assms(2), of l] find_sub_sublist [of str "l @ [CHR 0x0A]"] by simp
    ultimately show ?case using Cons by (simp add: find_lines.simps [of str "l @ _"])
  qed (simp add: find_lines.simps)
  then show ?thesis by (simp add: find_in_file_def)
qed

theorem find_in_file_counts_witness:
  "find_in_file (Some (concat (map (\<lambda>l. l @ [CHR 0x0A]) [''abab'', ''b'', ''xab'']))) ''ab'' = 2"
proof -
  have "filter (sublist ''ab'') [''abab'', ''b'', ''xab''] = [''abab'', ''xab'']"
    by (simp add: sublist_Cons_right)
  then show ?thesis using find_in_file_counts [of "[''abab'', ''b'', ''xab'']" "''ab''"] by simp
qed

section \<open>Random names\<close>

definition charset :: string where
  "charset = ''abcdefghijklmnopqrstuvwxyzABCDEFGHIJKLMNOPQRSTUVWXYZ0123456789_-''"

text \<open>\<open>rand n\<close> is the \<open>n\<close>-th number after the generator was seeded with the time in seconds; the counter is an
  \<open>unsigned int\<close>, so lengths are below \<open>2 ^ 32\<close>.\<close>

definition randstring :: "(nat \<Rightarrow> nat \<Rightarrow> nat) \<Rightarrow> nat \<Rightarrow> bool \<Rightarrow> nat \<Rightarrow> string option" where
  "randstring rand time malloc_ok len =
     (let len = (if len = 0 then 8 else len) in
      if \<not> malloc_ok then None
      else Some (map (\<lambda>n. charset ! (rand time n mod length charset)) [0..<len]))"

lemma randstring_chars:
  assumes "randstring rand time True len = Some s"
  shows "length s = (if len = 0 then 8 else len)" "set s \<subseteq> set charset"
proof -
  have "charset \<noteq> []" by (simp add: charset_def)
  then have "charset ! (x mod length charset) \<in> set charset" for x by (intro nth_mem) simp
  then show "set s \<subseteq> set charset" "length s = (if len = 0 then 8 else len)"
    using assms by (auto simp: randstring_def Let_def)
qed

section \<open>Removing a directory tree\<close>

text \<open>What a path names: a file, a directory with its entries in the order of \<open>readdir\<close>, or a symbolic link with
  what it leads to (\<open>None\<close> when that does not exist).\<close>

datatype fnode = File | Dir "(string \<times> fnode) list" | Link "fnode option"

datatype rm_call = Unlink string | Rmdir string

text \<open>\<open>stat\<close> follows links: whether the path names a directory, \<open>None\<close> if it fails.\<close>

fun stat_dir :: "fnode \<Rightarrow> bool option" where
  "stat_dir File = Some False"
| "stat_dir (Dir es) = Some True"
| "stat_dir (Link None) = None"
| "stat_dir (Link (Some t)) = stat_dir t"

text \<open>The result and the calls that were made; \<open>ok\<close> tells which of them succeed.\<close>

definition rm_do :: "(rm_call \<Rightarrow> bool) \<Rightarrow> rm_call \<Rightarrow> int \<times> rm_call list" where
  "rm_do ok c = (if ok c then 0 else - 1, [c])"

text \<open>Going on only after success.\<close>

definition rm_then :: "int \<times> rm_call list \<Rightarrow> int \<times> rm_call list \<Rightarrow> int \<times> rm_call list" where
  "rm_then a b = (if fst a = 0 then (fst b, snd a @ snd b) else a)"

fun remove_directory :: "(rm_call \<Rightarrow> bool) \<Rightarrow> string \<Rightarrow> fnode \<Rightarrow> int \<times> rm_call list"
  and remove_entries :: "(rm_call \<Rightarrow> bool) \<Rightarrow> string \<Rightarrow> (string \<times> fnode) list \<Rightarrow> int \<times> rm_call list" where
  "remove_directory ok path File = (- 1, [])"
| "remove_directory ok path (Link None) = (- 1, [])"
| "remove_directory ok path (Link (Some t)) = remove_directory ok path t"
| "remove_directory ok path (Dir es) = rm_then (remove_entries ok path es) (rm_do ok (Rmdir path))"
| "remove_entries ok path [] = (0, [])"
| "remove_entries ok path ((d_name, t) # es) =
     (if d_name = ''.'' \<or> d_name = ''..'' then remove_entries ok path es
      else
        rm_then
          (if stat_dir t = None then (- 1, [])
           else if stat_dir t = Some True then remove_directory ok (path @ ''/'' @ d_name) t
           else rm_do ok (Unlink (path @ ''/'' @ d_name)))
          (remove_entries ok path es))"

text \<open>The calls in post-order, and running them up to the first that fails.\<close>

fun post_order :: "string \<Rightarrow> fnode \<Rightarrow> rm_call list"
  and post_entries :: "string \<Rightarrow> (string \<times> fnode) list \<Rightarrow> rm_call list" where
  "post_order path (Dir es) = post_entries path es @ [Rmdir path]"
| "post_order path t = [Unlink path]"
| "post_entries path [] = []"
| "post_entries path ((n, t) # es) =
     (if n = ''.'' \<or> n = ''..'' then [] else post_order (path @ ''/'' @ n) t) @ post_entries path es"

fun run_calls :: "(rm_call \<Rightarrow> bool) \<Rightarrow> rm_call list \<Rightarrow> int \<times> rm_call list" where
  "run_calls ok [] = (0, [])"
| "run_calls ok (c # cs) = (if ok c then apsnd ((#) c) (run_calls ok cs) else (- 1, [c]))"

fun link_free :: "fnode \<Rightarrow> bool" where
  "link_free File = True"
| "link_free (Dir es) = (\<forall>e\<in>set es. link_free (snd e))"
| "link_free (Link t) = False"

lemma rm_then_run: "rm_then (run_calls ok cs) (run_calls ok ds) = run_calls ok (cs @ ds)"
  by (induction cs) (auto simp: rm_then_def apsnd_def map_prod_def split: prod.splits)

lemma remove_run:
  "link_free t \<Longrightarrow> stat_dir t = Some True \<Longrightarrow> remove_directory ok path t = run_calls ok (post_order path t)"
  "\<forall>e\<in>set es. link_free (snd e) \<Longrightarrow> remove_entries ok path es = run_calls ok (post_entries path es)"
proof (induction ok path t and ok path es rule: remove_directory_remove_entries.induct)
  case (6 ok path d_name t es)
  then have rest: "remove_entries ok path es = run_calls ok (post_entries path es)"
    by (cases "d_name = ''.'' \<or> d_name = ''..''") auto
  show ?case using 6 rest
    by (cases t) (auto simp: rm_then_run rm_then_def [of "(_, _)"] rm_do_def apsnd_def map_prod_def split: prod.splits)
qed (auto simp: rm_then_run [of _ _ "[_]", symmetric] rm_do_def)

text \<open>
  A tree without symbolic links is removed from the leaves up: every file is unlinked, every directory is
  removed after everything in it, and the routine stops with -1 at the first call that fails.\<close>

theorem remove_directory_post_order:
  assumes "\<forall>e\<in>set es. link_free (snd e)"
  shows "remove_directory ok path (Dir es) = run_calls ok (post_order path (Dir es))"
  using assms by (intro remove_run(1)) auto

theorem remove_directory_post_order_witness:
  "remove_directory (\<lambda>c. c \<noteq> Unlink ''d/y'') ''d'' (Dir [(''.'', File), (''s'', Dir [(''x'', File)]), (''y'', File), (''z'', File)]) =
    (- 1, [Unlink ''d/s/x'', Rmdir ''d/s'', Unlink ''d/y''])"
  using remove_directory_post_order
    [of "[(''.'', File), (''s'', Dir [(''x'', File)]), (''y'', File), (''z'', File)]" "\<lambda>c. c \<noteq> Unlink ''d/y''" "''d''"]
  by simp

text \<open>
  A link to a directory is followed: the files of the directory it leads to are unlinked too, and the whole
  removal then fails, because the link itself cannot be removed as a directory.\<close>

theorem remove_directory_follows_links:
  "remove_directory (\<lambda>c. c \<noteq> Rmdir ''d/l'') ''d'' (Dir [(''l'', Link (Some (Dir [(''precious'', File)])))]) =
    (- 1, [Unlink ''d/l/precious'', Rmdir ''d/l''])"
  by (simp add: rm_then_def rm_do_def)

end
