(* ===== verification/Packer.thy ===== *)
theory Packer
  imports Par_Handle Common_Util
begin

text \<open>
  \<open>packer/package.c\<close> and \<open>packer/packer.c\<close>: packages are archives of a job's files. The Python interpreter that
  the program starts is a parameter: what it leaves behind is whether \<open>package.json\<close> exists.
\<close>

section \<open>Packages\<close>

text \<open>The three routines repeat those of the archive program, statement by statement.\<close>

definition package_create ::
  "aenv \<Rightarrow> byte list option \<Rightarrow> (u64 \<times> u64) list \<Rightarrow> archive_header \<Rightarrow> clock \<Rightarrow> rng \<Rightarrow> dev \<Rightarrow> string \<Rightarrow> string option \<Rightarrow> string list
   \<Rightarrow> os \<Rightarrow> (int \<times> dev \<times> os) option" where
  "package_create = par_create"

definition package_extract ::
  "penv \<Rightarrow> char list \<Rightarrow> read_outcome list \<Rightarrow> dev \<Rightarrow> string \<Rightarrow> string option \<Rightarrow> os \<Rightarrow> (int \<times> os) option" where
  "package_extract = par_extract"

definition package_verify ::
  "penv \<Rightarrow> lsenv \<Rightarrow> char list \<Rightarrow> read_outcome list \<Rightarrow> dev \<Rightarrow> string \<Rightarrow> os \<Rightarrow> (int \<times> string \<times> os) option" where
  "package_verify = par_list"

section \<open>Choosing the files\<close>

text \<open>The files of the working directory, and whether \<open>package.json\<close> exists after a script was run.\<close>

record pkenv =
  pk_file :: "string \<Rightarrow> string option"
  pk_run :: "string \<Rightarrow> bool"

definition pk_exists :: "pkenv \<Rightarrow> string \<Rightarrow> bool" where
  "pk_exists env name \<longleftrightarrow> pk_file env name \<noteq> None"

record job =
  job_check :: bool
  jobname_idx :: nat
  has_job_init :: bool
  has_ace_job :: bool
  has_package :: bool
  job_list :: "string list"

definition lf :: string where "lf = [CHR 0x0A]"

text \<open>The script, cut to the buffer. Its quotes are \<open>0x27\<close>.\<close>

definition package_script :: "string \<Rightarrow> string \<Rightarrow> string" where
  "package_script module arg =
     (let q = [CHR 0x27]; tab = [CHR 0x09] in
      take 511
       (''import socket'' @ lf @ ''import json'' @ lf @ ''import time'' @ lf @ ''import '' @ module @ lf @
        ''r='' @ module @ ''.package()'' @ lf @
        ''with open('' @ q @ ''package.json'' @ q @ '', '' @ q @ ''w'' @ q @ '') as fp:'' @ lf @
        tab @ ''r['' @ q @ ''meta'' @ q @ '']={}'' @ lf @
        tab @ ''r['' @ q @ ''meta'' @ q @ '']['' @ q @ ''main'' @ q @ '']='' @ q @ arg @ q @ ''[:-3]'' @ lf @
        tab @ ''r['' @ q @ ''meta'' @ q @ '']['' @ q @ ''invoke'' @ q @ '']='' @ q @ ''job_init'' @ q @ lf @
        tab @ ''r['' @ q @ ''meta'' @ q @ '']['' @ q @ ''host'' @ q @ '']=socket.gethostname()'' @ lf @
        tab @ ''r['' @ q @ ''meta'' @ q @ '']['' @ q @ ''timestamp'' @ q @ '']=time.time()'' @ lf @
        tab @ ''json.dump(r, fp)'' @ lf))"

text \<open>\<open>strtok (str, ".")\<close>.\<close>

definition first_token :: "string \<Rightarrow> string option" where
  "first_token s =
     (let m = takeWhile (\<lambda>c. c \<noteq> CHR ''.'') (dropWhile (\<lambda>c. c = CHR ''.'') s) in if m = [] then None else Some m)"

definition job_package :: "pkenv \<Rightarrow> string \<Rightarrow> job \<Rightarrow> job" where
  "job_package env arg j =
     (if find_in_file (pk_file env arg) ''def package'' > 0 then
        (case first_token arg of
           None \<Rightarrow> j
         | Some module \<Rightarrow>
             j\<lparr>job_list := job_list j @ (if pk_run env (package_script module arg) then [''package.json''] else []),
               has_package := True\<rparr>)
      else j)"

definition job_python :: "pkenv \<Rightarrow> string \<Rightarrow> job \<Rightarrow> job" where
  "job_python env arg j =
     (let j = job_package env arg j;
          j = (if find_in_file (pk_file env arg) ''def job_init'' > 0 then j\<lparr>has_job_init := True\<rparr> else j)
      in if find_in_file (pk_file env arg) ''ace.job.Job'' > 0 then j\<lparr>has_ace_job := True\<rparr> else j)"

text \<open>One turn of the loop over the arguments.\<close>

definition job_arg :: "pkenv \<Rightarrow> nat \<Rightarrow> string \<Rightarrow> job \<Rightarrow> job" where
  "job_arg env c arg j =
     (if arg = ''--skip-check'' then j\<lparr>job_check := False, jobname_idx := jobname_idx j + 1\<rparr>
      else if c = 1 then j
      else if \<not> pk_exists env arg then j
      else
        let j = (if file_extension arg = Some ''py'' then job_python env arg j else j)
        in j\<lparr>job_list := job_list j @ [arg]\<rparr>)"

fun job_args :: "pkenv \<Rightarrow> nat \<Rightarrow> string list \<Rightarrow> job \<Rightarrow> job" where
  "job_args env c [] j = j"
| "job_args env c (arg # args) j = job_args env (c + 1) args (job_arg env c arg j)"

text \<open>What \<open>PyCheck\<close> comes to: to give up with exit code 0, or to make an archive of the given name with the given
  files. The name is \<open>argv[jobname_idx]\<close>; \<open>None\<close> is the null pointer behind the last argument.\<close>

datatype pack_result = GivesUp | Packs "string option" "string list"

definition std_files :: "pkenv \<Rightarrow> string list" where
  "std_files env = [''.inittab'', ''.initwrap'', ''LICENSE''] @ (if pk_exists env ''ace/job.py'' then [''ace/job.py''] else [])"

definition new_job :: job where
  "new_job = \<lparr>job_check = True, jobname_idx = 1, has_job_init = False, has_ace_job = False, has_package = False, job_list = []\<rparr>"

text \<open>The result is undefined when the index is behind the null pointer.\<close>

definition PyCheck :: "pkenv \<Rightarrow> string list \<Rightarrow> pack_result option" where
  "PyCheck env argv =
     (let j = job_args env 1 (tl argv) new_job in
      if (\<not> has_job_init j \<or> \<not> has_ace_job j) \<and> job_check j then Some GivesUp
      else
        do {name \<leftarrow> peek (map Some argv @ [None]) (jobname_idx j);
            Some (Packs name (job_list j @ std_files env))})"

text \<open>The standard files that are created because they are missing, with what is put into them.\<close>

definition inittab :: string where
  "inittab = ''# Inittab'' @ lf @ ''# Execute commands before job is loaded'' @ lf @ ''#'' @ lf @ ''# Commands are run per line and can'' @ lf @
     ''# be used to setup a local environment'' @ lf @ ''#'' @ lf"

definition initwrap :: string where
  "initwrap = ''# Initwrap'' @ lf @ ''# Execute commands after job is unloaded'' @ lf @ ''#'' @ lf @ ''# Commands are run per line and can'' @ lf @
     ''# be used to teardown a local environment'' @ lf @ ''#'' @ lf"

definition license :: string where
  "license = ''Copyright (C) 2015-2016 Mavicona, Quenza Inc.'' @ lf @ ''All Rights Reserved'' @ lf @ lf @
     ''Content can not be copied and/or distributed without '' @ lf @ ''the express permission of the author.'' @ lf"

definition created_files :: "pkenv \<Rightarrow> (string \<times> string) list" where
  "created_files env = filter (\<lambda>f. \<not> pk_exists env (fst f)) [(''.inittab'', inittab), (''.initwrap'', initwrap), (''LICENSE'', license)]"

text \<open>The cleanup on every way out: \<open>package.json\<close> if it exists, and the cache directory of the interpreter
  (\<open>None\<close> when there is none).\<close>

definition job_cleanup :: "(rm_call \<Rightarrow> bool) \<Rightarrow> bool \<Rightarrow> fnode option \<Rightarrow> rm_call list" where
  "job_cleanup ok package_json pycache =
     (if package_json then [Unlink ''package.json''] else []) @
     (case pycache of None \<Rightarrow> [] | Some t \<Rightarrow> snd (remove_directory ok ''__pycache__'' t))"

datatype packer_action = Exit int | Verify string | Extract string | Check

definition packer_main :: "string list \<Rightarrow> packer_action" where
  "packer_main argv =
     (if length argv < 2 then Exit 1
      else
        let a = argv ! 1 in
        if a = ''--help'' \<or> a = ''-h'' then Exit 1
        else if a = ''--version'' \<or> a = ''-v'' \<or> a = ''-V'' then Exit 1
        else if a = ''--verify'' \<and> length argv = 3 then Verify (argv ! 2)
        else if a = ''--extract'' \<and> length argv = 3 then Extract (argv ! 2)
        else Check)"

section \<open>Verification accepts anything\<close>

text \<open>
  C28. \<open>package_verify\<close> does not tell the end of the archive from a header that cannot be read: when the first
  block is no valid header, the loop ends and the result is 0, as for a sound package.\<close>

theorem package_verify_accepts_damage:
  assumes "length hb = archive_header_size" "take 8 hb = PACKAGE_MAGIC @ [nul]" "length junk = archive_header_size"
    and "results w = []" "3 \<le> length (allocs w)"
    and "length b = T_BLOCKSIZE" "hd b \<noteq> nul" "\<not> header_valid (header_of b)"
  shows "\<exists>w'. package_verify env ls junk [ReadData hb] (dev_of (ReadData b # bs)) file w = Some (0, [], w')"
proof -
  obtain a b1 c1 free where al: "allocs w = a # b1 # c1 # free" using assms(5) by (metis Suc_le_length_iff numeral_3_eq_3)
  obtain t w1 where t: "par_open file 1 O_RDONLY 0 0 w = (0, Some t, w1)" "results w1 = []" "h_use_gz t = 1" "h_gzfd t \<noteq> None"
      "\<exists>io. reader_of t (dev_of []) = Some io \<and> hash_ready (io_hash io) free"
    using open_read [OF assms(4) al] by blast
  let ?w = "w1\<lparr>calls := calls w1 @ [Lseek (h_fd t)]\<rparr>"
  have hd: "par_read_header junk [ReadData hb] t w1 = (0, [], ?w)" by (rule header_read [OF assms(1-3) t(2)])
  have "th_read_internal ((fresh_par t)\<lparr>th_buf := zero_header\<rparr>) (dev_of (ReadData b # bs)) =
      (-2, (fresh_par t)\<lparr>th_buf := header_of b\<rparr>, dev_of bs)"
    using read_loop_block [of "dev_of (ReadData b # bs)" b bs "(fresh_par t)\<lparr>th_buf := zero_header\<rparr>" 0] assms(6-8) zero_header_facts(1)
    by (simp add: th_read_internal_def dev_of_def)
  then have "\<exists>t' d'. th_read (mal_link env) (mal_name env) (junk_char env) (fresh_par t) (dev_of (ReadData b # bs)) = Some (- 1, t', d')"
    using zero_header_facts(3,4) by (simp add: th_read_def Let_def T_BLOCKSIZE_def fresh_par_def)
  then have loop: "list_loop env ls (fresh_par t) (dev_of (ReadData b # bs)) [] = Some (True, [])"
    by (auto simp: list_loop.simps)
  obtain h css where h: "h_table t = ReadTable h" "hash_rep h css"
    using t(5) by (auto simp: reader_of_def hash_ready_def split: handle_table.splits)
  then have "t\<lparr>h_table := ReadTable h\<rparr> = t" by (cases t) simp
  then obtain w' where "close_handle t Map.empty ?w = Some (0, w')"
    using close_read [OF h(2), of t ?w Map.empty] t(2-4) by auto
  then show ?thesis using t(1) hd loop by (simp add: package_verify_def par_list_def)
qed

definition garbage :: "char list" where
  "garbage = replicate T_BLOCKSIZE CHR ''x''"

lemma garbage_invalid: "\<not> header_valid (header_of garbage)"
proof -
  have "hdr_magic (header_of garbage) = ''xxxxxx''"
    by (simp add: header_of_def field_at_def garbage_def T_BLOCKSIZE_def) (simp add: eval_nat_numeral)
  then show ?thesis by (simp add: header_valid_def strncmp_eq_def TMAGLEN_def TMAGIC_def cstr_def)
qed

theorem package_verify_accepts_damage_witness:
  "\<exists>w'. package_verify plain_penv \<lparr>ls_passwd = \<lambda>_. None, ls_group = \<lambda>_. None, ls_time = \<lambda>_. []\<rparr> (replicate archive_header_size nul)
     [ReadData (PACKAGE_MAGIC @ replicate 88 nul)] (dev_of [ReadData garbage]) ''job.par'' (sample_os 10) = Some (0, [], w')"
proof -
  have "hd garbage \<noteq> nul" "length garbage = T_BLOCKSIZE" by (simp_all add: garbage_def T_BLOCKSIZE_def)
  then show ?thesis
    using garbage_invalid by (intro package_verify_accepts_damage)
      (simp_all add: archive_header_size_def PACKAGE_MAGIC_def sample_os_def)
qed

section \<open>What is packed\<close>

text \<open>The names that one argument brings into the package.\<close>

definition py_has :: "pkenv \<Rightarrow> string \<Rightarrow> string \<Rightarrow> bool" where
  "py_has env what arg \<longleftrightarrow>
     pk_exists env arg \<and> file_extension arg = Some ''py'' \<and> find_in_file (pk_file env arg) what > 0"

definition packed_names :: "pkenv \<Rightarrow> string \<Rightarrow> string list" where
  "packed_names env arg =
     (if \<not> pk_exists env arg then []
      else if py_has env ''def package'' arg \<and> (case first_token arg of None \<Rightarrow> False | Some m \<Rightarrow> pk_run env (package_script m arg))
      then [''package.json'', arg] else [arg])"

lemma job_arg_source:
  assumes "arg \<noteq> ''--skip-check''" "c \<noteq> 1"
  shows "job_list (job_arg env c arg j) = job_list j @ packed_names env arg"
    and "has_job_init (job_arg env c arg j) \<longleftrightarrow> has_job_init j \<or> py_has env ''def job_init'' arg"
    and "has_ace_job (job_arg env c arg j) \<longleftrightarrow> has_ace_job j \<or> py_has env ''ace.job.Job'' arg"
    and "job_check (job_arg env c arg j) = job_check j" "jobname_idx (job_arg env c arg j) = jobname_idx j"
  using assms
  by (auto simp: job_arg_def job_python_def job_package_def packed_names_def py_has_def Let_def split: option.splits)

lemma job_arg_first: "arg \<noteq> ''--skip-check'' \<Longrightarrow> job_arg env (Suc 0) arg j = j"
  by (simp add: job_arg_def)

lemma job_arg_skip: "job_arg env c ''--skip-check'' j = j\<lparr>job_check := False, jobname_idx := jobname_idx j + 1\<rparr>"
  by (simp add: job_arg_def)

lemma job_args_sources:
  assumes "''--skip-check'' \<notin> set args" "1 < c"
  shows "job_list (job_args env c args j) = job_list j @ concat (map (packed_names env) args) \<and>
    (has_job_init (job_args env c args j) \<longleftrightarrow> has_job_init j \<or> (\<exists>a\<in>set args. py_has env ''def job_init'' a)) \<and>
    (has_ace_job (job_args env c args j) \<longleftrightarrow> has_ace_job j \<or> (\<exists>a\<in>set args. py_has env ''ace.job.Job'' a)) \<and>
    job_check (job_args env c args j) = job_check j \<and> jobname_idx (job_args env c args j) = jobname_idx j"
  using assms by (induction args arbitrary: c j) (auto simp: job_arg_source)

text \<open>
  C26. Without the option, the job is packed exactly if the Python sources that exist define \<open>job_init\<close> and name
  the base class: under the name of the first argument, the sources that exist in their order, each with the
  \<open>package.json\<close> it makes in front, then the standard files.\<close>

theorem PyCheck_packs:
  assumes "''--skip-check'' \<notin> set (jobname # sources)"
  shows "PyCheck env (prog # jobname # sources) = Some
    (if (\<exists>a\<in>set sources. py_has env ''def job_init'' a) \<and> (\<exists>a\<in>set sources. py_has env ''ace.job.Job'' a)
     then Packs (Some jobname) (concat (map (packed_names env) sources) @ std_files env)
     else GivesUp)"
proof -
  have new: "\<not> has_job_init new_job" "\<not> has_ace_job new_job" "job_check new_job" "jobname_idx new_job = 1" "job_list new_job = []"
    by (simp_all add: new_job_def)
  have "job_args env 1 (jobname # sources) new_job = job_args env 2 sources new_job"
    using assms by (auto simp: job_arg_first numeral_2_eq_2)
  then show ?thesis
    using job_args_sources [of sources 2 env new_job] assms new by (auto simp: PyCheck_def peek_def Let_def simp del: job_args.simps)
qed

definition sample_pkenv :: pkenv where
  "sample_pkenv = \<lparr>pk_file = [''j.py'' \<mapsto> ''def job_init ace.job.Job'' @ lf], pk_run = (\<lambda>_. False)\<rparr>"

theorem PyCheck_packs_witness:
  "PyCheck sample_pkenv [''packer'', ''job'', ''j.py'', ''none''] = Some (Packs (Some ''job'') [''j.py'', ''.inittab'', ''.initwrap'', ''LICENSE''])"
proof -
  have "py_has sample_pkenv ''def job_init'' ''j.py'' \<and> py_has sample_pkenv ''ace.job.Job'' ''j.py'' \<and>
      packed_names sample_pkenv ''j.py'' = [''j.py''] \<and> packed_names sample_pkenv ''none'' = [] \<and>
      std_files sample_pkenv = [''.inittab'', ''.initwrap'', ''LICENSE'']"
    by code_simp
  then show ?thesis using PyCheck_packs [of "''job''" "[''j.py'', ''none'']" sample_pkenv "''packer''"] by simp
qed

text \<open>
  The option behind the sources shifts the name of the package to the first source: that source is
  overwritten by the archive.\<close>

theorem PyCheck_overwrites_source:
  assumes "jobname \<noteq> ''--skip-check''" "src \<noteq> ''--skip-check''"
  shows "PyCheck env [prog, jobname, src, ''--skip-check''] = Some (Packs (Some src) (packed_names env src @ std_files env))"
proof -
  define j where "j = job_arg env (Suc (Suc 0)) src new_job"
  have j: "job_list j = packed_names env src" "jobname_idx j = 1"
    using job_arg_source [OF assms(2), of "Suc (Suc 0)" env new_job] by (simp_all add: j_def new_job_def)
  have "job_args env 1 [jobname, src, ''--skip-check''] new_job = j\<lparr>job_check := False, jobname_idx := 2\<rparr>"
    using assms j by (simp add: job_arg_first job_arg_skip j_def)
  then show ?thesis using j by (simp add: PyCheck_def peek_def del: job_args.simps)
qed

theorem PyCheck_overwrites_source_witness:
  "PyCheck sample_pkenv [''packer'', ''job'', ''j.py'', ''--skip-check''] =
    Some (Packs (Some ''j.py'') (packed_names sample_pkenv ''j.py'' @ std_files sample_pkenv))"
  using PyCheck_overwrites_source [of "''job''" "''j.py''" sample_pkenv "''packer''"] by simp

end
