(* ===== verification/Compat_Getopt.thy ===== *)
theory Compat_Getopt
  imports Prelude
begin

text \<open>
  \<open>compat/getopt.c\<close>: scanning of command lines. The static and global variables are a record, which has the argument
  vector too, because it is permuted; \<open>argc\<close> is its length. Strings are never changed, so that a pointer into one is its
  remaining text. Messages on the error stream and writes through the flag pointers are recorded. Reading behind the
  vector or through a null pointer is undefined (\<open>None\<close>). The branches for \<open>_LIBC\<close> are not part of the program.
\<close>

section \<open>State\<close>

datatype ordering = REQUIRE_ORDER | PERMUTE | RETURN_IN_ORDER

record long_option =
  lo_name :: string
  lo_has_arg :: int
  lo_flag :: "addr option"
  lo_val :: int

record getopt_state =
  optarg :: "string option"
  optind :: nat
  getopt_initialized :: bool
  nextchar :: "string option"
  opterr :: bool
  optopt :: int
  ordering :: ordering
  posixly_correct :: bool
  first_nonopt :: nat
  last_nonopt :: nat
  argv :: "string list"
  go_stderr :: "string list"
  go_longind :: "nat option"
  go_flags :: "(addr \<times> int) list"

abbreviation argc :: "getopt_state \<Rightarrow> nat" where
  "argc s \<equiv> length (argv s)"

text \<open>The variables as a program starts, in an environment with or without \<open>POSIXLY_CORRECT\<close>.\<close>

definition getopt_start :: "string list \<Rightarrow> getopt_state" where
  "getopt_start args = \<lparr>optarg = None, optind = 1, getopt_initialized = False, nextchar = None, opterr = True, optopt = schar CHR ''?'',
     ordering = REQUIRE_ORDER, posixly_correct = False, first_nonopt = 0, last_nonopt = 0, argv = args, go_stderr = [],
     go_longind = None, go_flags = []\<rparr>"

text \<open>The characters of a string and its terminator.\<close>

definition char_at :: "string \<Rightarrow> nat \<Rightarrow> char" where
  "char_at s i = (if i < length s then s ! i else nul)"

fun my_index :: "string \<Rightarrow> char \<Rightarrow> string option" where
  "my_index [] chr = None"
| "my_index (c # str) chr = (if c = chr then Some (c # str) else my_index str chr)"

section \<open>Exchanging segments\<close>

fun swap_segments :: "nat \<Rightarrow> nat \<Rightarrow> nat \<Rightarrow> 'a list \<Rightarrow> 'a list option" where
  "swap_segments 0 a b xs = Some xs"
| "swap_segments (Suc n) a b xs =
     do {x \<leftarrow> peek xs a; y \<leftarrow> peek xs b; xs \<leftarrow> poke xs a y; xs \<leftarrow> poke xs b x; swap_segments n (a + 1) (b + 1) xs}"

function exchange_loop :: "nat \<Rightarrow> nat \<Rightarrow> nat \<Rightarrow> 'a list \<Rightarrow> 'a list option" where
  "exchange_loop bottom middle upper xs =
     (if upper > middle \<and> middle > bottom then
        if upper - middle > middle - bottom then
          (case swap_segments (middle - bottom) bottom (upper - (middle - bottom)) xs of
             None \<Rightarrow> None | Some xs \<Rightarrow> exchange_loop bottom middle (upper - (middle - bottom)) xs)
        else
          (case swap_segments (upper - middle) bottom middle xs of
             None \<Rightarrow> None | Some xs \<Rightarrow> exchange_loop (bottom + (upper - middle)) middle upper xs)
      else Some xs)"
  by pat_completeness auto
termination
  by (relation "measure (\<lambda>(bottom, middle, upper, _). upper - bottom)") auto

declare exchange_loop.simps [simp del]

definition exchange :: "getopt_state \<Rightarrow> getopt_state option" where
  "exchange s =
     do {args \<leftarrow> exchange_loop (first_nonopt s) (last_nonopt s) (optind s) (argv s);
         Some (s\<lparr>argv := args, first_nonopt := first_nonopt s + (optind s - last_nonopt s), last_nonopt := optind s\<rparr>)}"

section \<open>One call\<close>

definition getopt_initialize :: "bool \<Rightarrow> string \<Rightarrow> getopt_state \<Rightarrow> string \<times> getopt_state" where
  "getopt_initialize env optstring s =
     (let s = s\<lparr>first_nonopt := optind s, last_nonopt := optind s, nextchar := None, posixly_correct := env\<rparr> in
      if char_at optstring 0 = CHR ''-'' then (drop 1 optstring, s\<lparr>ordering := RETURN_IN_ORDER\<rparr>)
      else if char_at optstring 0 = CHR ''+'' then (drop 1 optstring, s\<lparr>ordering := REQUIRE_ORDER\<rparr>)
      else if env then (optstring, s\<lparr>ordering := REQUIRE_ORDER\<rparr>)
      else (optstring, s\<lparr>ordering := PERMUTE\<rparr>))"

definition NONOPTION_P :: "string \<Rightarrow> bool" where
  "NONOPTION_P x = (char_at x 0 \<noteq> CHR ''-'' \<or> char_at x 1 = nul)"

function skip_nonopts :: "string list \<Rightarrow> nat \<Rightarrow> nat" where
  "skip_nonopts xs i = (if i < length xs \<and> NONOPTION_P (xs ! i) then skip_nonopts xs (i + 1) else i)"
  by pat_completeness auto
termination
  by (relation "measure (\<lambda>(xs, i). length xs - i)") auto

declare skip_nonopts.simps [simp del]

text \<open>Moving to the next element: either the call ends there, or an option element is begun.\<close>

definition permute_next :: "getopt_state \<Rightarrow> getopt_state option" where
  "permute_next s =
     (if ordering s = PERMUTE then
        do {s \<leftarrow> (if first_nonopt s \<noteq> last_nonopt s \<and> last_nonopt s \<noteq> optind s then exchange s
                   else Some (if last_nonopt s \<noteq> optind s then s\<lparr>first_nonopt := optind s\<rparr> else s));
            let i = skip_nonopts (argv s) (optind s);
            Some (s\<lparr>optind := i, last_nonopt := i\<rparr>)}
      else Some s)"

definition double_dash :: "getopt_state \<Rightarrow> getopt_state option" where
  "double_dash s =
     (if optind s = argc s then Some s
      else do {
        x \<leftarrow> peek (argv s) (optind s);
        if x \<noteq> ''--'' then Some s
        else do {
          let s = s\<lparr>optind := optind s + 1\<rparr>;
          s \<leftarrow> (if first_nonopt s \<noteq> last_nonopt s \<and> last_nonopt s \<noteq> optind s then exchange s
                 else Some (if first_nonopt s = last_nonopt s then s\<lparr>first_nonopt := optind s\<rparr> else s));
          Some (s\<lparr>last_nonopt := argc s, optind := argc s\<rparr>)}})"

definition advance :: "long_option list option \<Rightarrow> getopt_state \<Rightarrow> (int \<times> getopt_state + getopt_state) option" where
  "advance longopts s =
     do {let s = (if last_nonopt s > optind s then s\<lparr>last_nonopt := optind s\<rparr> else s);
         let s = (if first_nonopt s > optind s then s\<lparr>first_nonopt := optind s\<rparr> else s);
         s \<leftarrow> permute_next s;
         s \<leftarrow> double_dash s;
         if optind s = argc s
         then Some (Inl (- 1, if first_nonopt s \<noteq> last_nonopt s then s\<lparr>optind := first_nonopt s\<rparr> else s))
         else do {
           x \<leftarrow> peek (argv s) (optind s);
           if NONOPTION_P x then
             Some (Inl (if ordering s = REQUIRE_ORDER then (- 1, s) else (1, s\<lparr>optarg := Some x, optind := optind s + 1\<rparr>)))
           else
             Some (Inr (s\<lparr>nextchar := Some (drop (1 + (if longopts \<noteq> None \<and> char_at x 1 = CHR ''-'' then 1 else 0)) x)\<rparr>))}}"

text \<open>All long options are tried; the first exact match wins, otherwise an abbreviation of one name.\<close>

fun find_long :: "string \<Rightarrow> nat \<Rightarrow> (long_option \<times> nat) option \<Rightarrow> bool \<Rightarrow> long_option list \<Rightarrow> (long_option \<times> nat) option \<times> bool \<times> bool" where
  "find_long key i pfound ambig [] = (pfound, False, ambig)"
| "find_long key i pfound ambig (p # ps) =
     (if take (length key) (lo_name p) = key then
        if length key = length (lo_name p) then (Some (p, i), True, ambig)
        else if pfound = None then find_long key (i + 1) (Some (p, i)) ambig ps
        else find_long key (i + 1) pfound True ps
      else find_long key (i + 1) pfound ambig ps)"

definition quoted :: "string \<Rightarrow> string" where
  "quoted t = CHR 0x60 # t @ [CHR 0x27]"

text \<open>A message: the program's name and a text.\<close>

definition complain :: "bool \<Rightarrow> string \<Rightarrow> getopt_state \<Rightarrow> getopt_state option" where
  "complain print_errors msg s =
     (if print_errors then do {prog \<leftarrow> peek (argv s) 0; Some (s\<lparr>go_stderr := go_stderr s @ [prog @ '': '' @ msg @ [CHR 0x0A]]\<rparr>)}
      else Some s)"

definition store_flag :: "bool \<Rightarrow> long_option \<times> nat \<Rightarrow> getopt_state \<Rightarrow> int \<times> getopt_state" where
  "store_flag longind pi s =
     (case pi of (p, i) \<Rightarrow>
       let s = s\<lparr>nextchar := Some []\<rparr>; s = (if longind then s\<lparr>go_longind := Some i\<rparr> else s) in
       case lo_flag p of
         Some a \<Rightarrow> (0, s\<lparr>go_flags := go_flags s @ [(a, lo_val p)]\<rparr>)
       | None \<Rightarrow> (lo_val p, s))"

definition decode_long ::
  "string \<Rightarrow> long_option list \<Rightarrow> bool \<Rightarrow> bool \<Rightarrow> bool \<Rightarrow> string \<Rightarrow> string \<Rightarrow> getopt_state \<Rightarrow> (int \<times> getopt_state + getopt_state) option" where
  "decode_long optstring longopts longind long_only print_errors x next s =
     (let key = takeWhile (\<lambda>c. c \<noteq> CHR ''='') next; rest = drop (length key) next;
          (pfound, exact, ambig) = find_long key 0 None False longopts
      in
      if ambig \<and> \<not> exact then
        do {s \<leftarrow> complain print_errors (''option '' @ quoted x @ '' is ambiguous'') s;
            Some (Inl (schar CHR ''?'', s\<lparr>nextchar := Some [], optind := optind s + 1, optopt := 0\<rparr>))}
      else
        (case pfound of
           Some (p, i) \<Rightarrow>
             let s = s\<lparr>optind := optind s + 1\<rparr> in
             if rest \<noteq> [] then
               if lo_has_arg p \<noteq> 0 then Some (Inl (store_flag longind (p, i) (s\<lparr>optarg := Some (drop 1 rest)\<rparr>)))
               else do {
                 s \<leftarrow> complain print_errors (''option '' @ quoted ((if char_at x 1 = CHR ''-'' then ''--'' else [char_at x 0]) @ lo_name p) @
                       '' doesn'' @ [CHR 0x27] @ ''t allow an argument'') s;
                 Some (Inl (schar CHR ''?'', s\<lparr>nextchar := Some [], optopt := lo_val p\<rparr>))}
             else if lo_has_arg p = 1 then
               if optind s < argc s then
                 do {a \<leftarrow> peek (argv s) (optind s);
                     Some (Inl (store_flag longind (p, i) (s\<lparr>optarg := Some a, optind := optind s + 1\<rparr>)))}
               else do {
                 s \<leftarrow> complain print_errors (''option '' @ quoted x @ '' requires an argument'') s;
                 Some (Inl (if char_at optstring 0 = CHR '':'' then schar CHR '':'' else schar CHR ''?'', s\<lparr>nextchar := Some [], optopt := lo_val p\<rparr>))}
             else Some (Inl (store_flag longind (p, i) s))
         | None \<Rightarrow>
             if \<not> long_only \<or> char_at x 1 = CHR ''-'' \<or> my_index optstring (char_at next 0) = None then
               do {s \<leftarrow> complain print_errors (''unrecognized option '' @ quoted ((if char_at x 1 = CHR ''-'' then ''--'' else [char_at x 0]) @ next)) s;
                   Some (Inl (schar CHR ''?'', s\<lparr>nextchar := Some [], optind := optind s + 1, optopt := 0\<rparr>))}
             else Some (Inr s)))"

text \<open>The option \<open>-W\<close> with a semicolon in the list of options: its argument is taken as a long option.\<close>

definition decode_W :: "string \<Rightarrow> long_option list option \<Rightarrow> bool \<Rightarrow> bool \<Rightarrow> string \<Rightarrow> getopt_state \<Rightarrow> (int \<times> getopt_state) option" where
  "decode_W optstring longopts longind print_errors next s =
     (if next = [] \<and> optind s = argc s then
        do {s \<leftarrow> complain print_errors ''option requires an argument -- W'' s;
            Some (if char_at optstring 0 = CHR '':'' then schar CHR '':'' else schar CHR ''?'', s\<lparr>optopt := schar CHR ''W''\<rparr>)}
      else do {
        arg \<leftarrow> (if next \<noteq> [] then Some next else peek (argv s) (optind s));
        let s = s\<lparr>optarg := Some arg, optind := optind s + 1, nextchar := Some arg\<rparr>;
        let key = takeWhile (\<lambda>c. c \<noteq> CHR ''='') arg;
        let rest = drop (length key) arg;
        longopts \<leftarrow> longopts;
        let (pfound, exact, ambig) = find_long key 0 None False longopts;
        if ambig \<and> \<not> exact then
          do {s \<leftarrow> (if print_errors
                     then do {x \<leftarrow> peek (argv s) (optind s); complain True (''option '' @ quoted (''-W '' @ x) @ '' is ambiguous'') s}
                     else Some s);
              Some (schar CHR ''?'', s\<lparr>nextchar := Some [], optind := optind s + 1\<rparr>)}
        else
          (case pfound of
             Some (p, i) \<Rightarrow>
               if rest \<noteq> [] then
                 if lo_has_arg p \<noteq> 0 then Some (store_flag longind (p, i) (s\<lparr>optarg := Some (drop 1 rest)\<rparr>))
                 else do {
                   s \<leftarrow> complain print_errors (''option '' @ quoted (''-W '' @ lo_name p) @ '' doesn'' @ [CHR 0x27] @ ''t allow an argument'') s;
                   Some (schar CHR ''?'', s\<lparr>nextchar := Some []\<rparr>)}
               else if lo_has_arg p = 1 then
                 if optind s < argc s then
                   do {a \<leftarrow> peek (argv s) (optind s);
                       Some (store_flag longind (p, i) (s\<lparr>optarg := Some a, optind := optind s + 1\<rparr>))}
                 else do {
                   x \<leftarrow> peek (argv s) (optind s - 1);
                   s \<leftarrow> complain print_errors (''option '' @ quoted x @ '' requires an argument'') s;
                   Some (if char_at optstring 0 = CHR '':'' then schar CHR '':'' else schar CHR ''?'', s\<lparr>nextchar := Some []\<rparr>)}
               else Some (store_flag longind (p, i) s)
           | None \<Rightarrow> Some (schar CHR ''W'', s\<lparr>nextchar := None\<rparr>))})"

definition decode_short :: "string \<Rightarrow> long_option list option \<Rightarrow> bool \<Rightarrow> bool \<Rightarrow> getopt_state \<Rightarrow> (int \<times> getopt_state) option" where
  "decode_short optstring longopts longind print_errors s =
     (case nextchar s of
        Some (c # next) \<Rightarrow>
          let temp = my_index optstring c;
              s = s\<lparr>nextchar := Some next, optind := (if next = [] then optind s + 1 else optind s)\<rparr>
          in
          if temp = None \<or> c = CHR '':'' then
            do {s \<leftarrow> complain print_errors ((if posixly_correct s then ''illegal option -- '' else ''invalid option -- '') @ [c]) s;
                Some (schar CHR ''?'', s\<lparr>optopt := schar c\<rparr>)}
          else
            let temp = the temp in
            if c = CHR ''W'' \<and> char_at temp 1 = CHR '';'' then decode_W optstring longopts longind print_errors next s
            else if char_at temp 1 = CHR '':'' then
              if char_at temp 2 = CHR '':'' then
                Some (schar c, if next \<noteq> [] then s\<lparr>optarg := Some next, optind := optind s + 1, nextchar := None\<rparr>
                               else s\<lparr>optarg := None, nextchar := None\<rparr>)
              else if next \<noteq> [] then Some (schar c, s\<lparr>optarg := Some next, optind := optind s + 1, nextchar := None\<rparr>)
              else if optind s = argc s then
                do {s \<leftarrow> complain print_errors (''option requires an argument -- '' @ [c]) s;
                    Some (if char_at optstring 0 = CHR '':'' then schar CHR '':'' else schar CHR ''?'', s\<lparr>optopt := schar c, nextchar := None\<rparr>)}
              else
                do {a \<leftarrow> peek (argv s) (optind s);
                    Some (schar c, s\<lparr>optarg := Some a, optind := optind s + 1, nextchar := None\<rparr>)}
            else Some (schar c, s)
      | _ \<Rightarrow> None)"

definition getopt_internal ::
  "bool \<Rightarrow> string \<Rightarrow> long_option list option \<Rightarrow> bool \<Rightarrow> bool \<Rightarrow> getopt_state \<Rightarrow> (int \<times> getopt_state) option" where
  "getopt_internal env optstring longopts longind long_only s =
     do {let print_errors = (opterr s \<and> char_at optstring 0 \<noteq> CHR '':'');
         let s = s\<lparr>optarg := None\<rparr>;
         let (optstring, s) =
           (if optind s = 0 \<or> \<not> getopt_initialized s then
              let s = (if optind s = 0 then s\<lparr>optind := 1\<rparr> else s); (optstring, s) = getopt_initialize env optstring s
              in (optstring, s\<lparr>getopt_initialized := True\<rparr>)
            else (optstring, s));
         r \<leftarrow> (if nextchar s = None \<or> nextchar s = Some [] then advance longopts s else Some (Inr s));
         case r of
           Inl res \<Rightarrow> Some res
         | Inr s \<Rightarrow>
             do {r \<leftarrow> (case longopts of
                         Some los \<Rightarrow>
                           do {x \<leftarrow> peek (argv s) (optind s);
                               if char_at x 1 = CHR ''-'' \<or> (long_only \<and> (char_at x 2 \<noteq> nul \<or> my_index optstring (char_at x 1) = None))
                               then decode_long optstring los longind long_only print_errors x (the (nextchar s)) s
                               else Some (Inr s)}
                       | None \<Rightarrow> Some (Inr s));
                 case r of Inl res \<Rightarrow> Some res | Inr s \<Rightarrow> decode_short optstring longopts longind print_errors s}}"

definition getopt :: "bool \<Rightarrow> string \<Rightarrow> getopt_state \<Rightarrow> (int \<times> getopt_state) option" where
  "getopt env optstring s = getopt_internal env optstring None False False s"

section \<open>Exchanging is a rotation\<close>

lemma swap_segments_correct:
  assumes "length ys = n" "length zs = n" "a = length xs" "b = length xs + length ys + length ms"
  shows "swap_segments n a b (xs @ ys @ ms @ zs @ rest) = Some (xs @ zs @ ms @ ys @ rest)"
  using assms
proof (induction n arbitrary: a b xs ys ms zs)
  case (Suc n)
  obtain y ys' where y: "ys = y # ys'" "length ys' = n" using Suc.prems(1) by (cases ys) auto
  obtain z zs' where z: "zs = z # zs'" "length zs' = n" using Suc.prems(2) by (cases zs) auto
  have p1: "peek (xs @ ys @ ms @ zs @ rest) a = Some y" using Suc.prems y by (simp add: peek_def nth_append)
  have p2: "peek (xs @ ys @ ms @ zs @ rest) b = Some z" using Suc.prems y z by (simp add: peek_def nth_append)
  have w1: "poke (xs @ ys @ ms @ zs @ rest) a z = Some (xs @ (z # ys') @ ms @ zs @ rest)"
    using Suc.prems y by (simp add: poke_def list_update_append)
  have w2: "poke (xs @ (z # ys') @ ms @ zs @ rest) b y = Some ((xs @ [z]) @ ys' @ (ms @ [y]) @ zs' @ rest)"
    using Suc.prems y z by (simp add: poke_def list_update_append)
  have "swap_segments n (a + 1) (b + 1) ((xs @ [z]) @ ys' @ (ms @ [y]) @ zs' @ rest) = Some ((xs @ [z]) @ zs' @ (ms @ [y]) @ ys' @ rest)"
    using Suc.prems y z by (intro Suc.IH) simp_all
  then show ?case using p1 p2 w1 w2 y z by simp
qed simp

lemma exchange_loop_correct:
  assumes "bottom = length xs" "middle = bottom + length ns" "upper = middle + length os"
  shows "exchange_loop bottom middle upper (xs @ ns @ os @ rest) = Some (xs @ os @ ns @ rest)"
  using assms
proof (induction "length ns + length os" arbitrary: bottom middle upper xs ns os rest rule: less_induct)
  case less
  consider "ns = [] \<or> os = []" | "ns \<noteq> []" "length ns < length os" | "ns \<noteq> []" "os \<noteq> []" "length os \<le> length ns"
    by (cases "length ns < length os") auto
  then show ?case
  proof cases
    case 1
    then show ?thesis using less.prems by (subst exchange_loop.simps) auto
  next
    case 2
    define k where "k = length os - length ns"
    define o1 o2 where "o1 = take k os" and "o2 = drop k os"
    have os: "os = o1 @ o2" "length o2 = length ns" "length o1 = k" "0 < k" using 2 by (simp_all add: o1_def o2_def k_def)
    have "swap_segments (length ns) bottom (upper - length ns) (xs @ ns @ o1 @ o2 @ rest) = Some (xs @ o2 @ o1 @ ns @ rest)"
      using less.prems os by (intro swap_segments_correct) simp_all
    moreover have "exchange_loop bottom middle (upper - length ns) (xs @ o2 @ o1 @ ns @ rest) = Some (xs @ o1 @ o2 @ ns @ rest)"
      using less.prems os 2 by (intro less.hyps) simp_all
    ultimately show ?thesis using less.prems 2 os by (subst exchange_loop.simps) simp
  next
    case 3
    define n1 n2 where "n1 = take (length os) ns" and "n2 = drop (length os) ns"
    have ns: "ns = n1 @ n2" "length n1 = length os" using 3 by (simp_all add: n1_def n2_def)
    have "swap_segments (length os) bottom middle (xs @ n1 @ n2 @ os @ rest) = Some (xs @ os @ n2 @ n1 @ rest)"
      using less.prems ns by (intro swap_segments_correct) simp_all
    moreover have "exchange_loop (bottom + length os) middle upper ((xs @ os) @ n2 @ n1 @ rest) = Some ((xs @ os) @ n1 @ n2 @ rest)"
      using less.prems ns 3 by (intro less.hyps) simp_all
    ultimately show ?thesis using less.prems 3 ns by (subst exchange_loop.simps) simp
  qed
qed

lemma exchange_correct:
  assumes "argv s = xs @ ns @ os @ rest" "first_nonopt s = length xs" "last_nonopt s = length xs + length ns"
    and "optind s = length xs + length ns + length os"
  shows "exchange s = Some (s\<lparr>argv := xs @ os @ ns @ rest, first_nonopt := length xs + length os, last_nonopt := optind s\<rparr>)"
  using exchange_loop_correct [of "length xs" xs "length xs + length ns" ns "length xs + length ns + length os" os rest] assms
  by (simp add: exchange_def)

section \<open>What a command line means\<close>

text \<open>The loop of a caller: the results and arguments until the end, and the state then.\<close>

partial_function (option) getopt_all :: "bool \<Rightarrow> string \<Rightarrow> getopt_state \<Rightarrow> ((int \<times> string option) list \<times> getopt_state) option" where
  "getopt_all env optstring s =
     do {(c, s) \<leftarrow> getopt env optstring s;
         if c = - 1 then Some ([], s)
         else do {(rs, t) \<leftarrow> getopt_all env optstring s; Some ((c, optarg s) # rs, t)}}"

datatype opt_kind = Unknown | Flag | Optional | Required

definition kind_of :: "string \<Rightarrow> char \<Rightarrow> opt_kind" where
  "kind_of optstring c =
     (case my_index optstring c of
        None \<Rightarrow> Unknown
      | Some t \<Rightarrow> if c = CHR '':'' then Unknown
                  else if char_at t 1 \<noteq> CHR '':'' then Flag else if char_at t 2 = CHR '':'' then Optional else Required)"

text \<open>The options in one element and the following element that is taken as an argument.\<close>

fun cluster :: "string \<Rightarrow> string \<Rightarrow> string list \<Rightarrow> (int \<times> string option) list \<times> string list" where
  "cluster optstring [] xs = ([], [])"
| "cluster optstring (c # next) xs =
     (case kind_of optstring c of
        Unknown \<Rightarrow> apfst (Cons (schar CHR ''?'', None)) (cluster optstring next xs)
      | Flag \<Rightarrow> apfst (Cons (schar c, None)) (cluster optstring next xs)
      | Optional \<Rightarrow> ([(schar c, if next = [] then None else Some next)], [])
      | Required \<Rightarrow>
          if next \<noteq> [] then ([(schar c, Some next)], [])
          else case xs of
            [] \<Rightarrow> ([(if char_at optstring 0 = CHR '':'' then schar CHR '':'' else schar CHR ''?'', None)], [])
          | x # _ \<Rightarrow> ([(schar c, Some x)], [x]))"

text \<open>The options of a command line, the elements they are in, and the other elements, each in order.\<close>

function scan_args :: "string \<Rightarrow> string list \<Rightarrow> (int \<times> string option) list \<times> string list \<times> string list" where
  "scan_args optstring [] = ([], [], [])"
| "scan_args optstring (x # xs) =
     (if x = ''--'' then ([], [x], xs)
      else if NONOPTION_P x then (case scan_args optstring xs of (rs, es, ns) \<Rightarrow> (rs, es, x # ns))
      else case cluster optstring (tl x) xs of
        (r, taken) \<Rightarrow> (case scan_args optstring (drop (length taken) xs) of (rs, es, ns) \<Rightarrow> (r @ rs, x # taken @ es, ns)))"
  by pat_completeness auto
termination
  by (relation "measure (\<lambda>(_, xs). length xs)") auto

text \<open>Between two elements: settled elements, skipped ones, options behind them, and what is left.\<close>

definition between :: "getopt_state \<Rightarrow> string list \<Rightarrow> string list \<Rightarrow> string list \<Rightarrow> string list \<Rightarrow> bool" where
  "between s pre ns os rest =
     (argv s = pre @ ns @ os @ rest \<and> pre \<noteq> [] \<and> first_nonopt s = length pre \<and> last_nonopt s = length pre + length ns \<and>
      optind s = length pre + length ns + length os \<and> nextchar s \<in> {None, Some []} \<and> getopt_initialized s \<and> ordering s = PERMUTE)"

lemma skip_nonopts_take:
  assumes "list_all NONOPTION_P sk" "rest = [] \<or> \<not> NONOPTION_P (hd rest)"
  shows "skip_nonopts (pre @ sk @ rest) (length pre) = length pre + length sk"
  using assms(1)
proof (induction sk arbitrary: pre)
  case Nil
  then show ?case using assms(2) by (subst skip_nonopts.simps) (auto simp: nth_append hd_conv_nth)
next
  case (Cons x sk)
  then show ?case using Cons.IH [of "pre @ [x]"] by (subst skip_nonopts.simps) (simp add: nth_append)
qed

lemma permute_next_between:
  assumes "between s pre ns os (sk @ rest)" "list_all NONOPTION_P sk" "rest = [] \<or> \<not> NONOPTION_P (hd rest)"
  shows "\<exists>s'. permute_next s = Some s' \<and> between s' (pre @ os) (ns @ sk) [] rest \<and> optarg s' = optarg s"
proof -
  define t where "t = s\<lparr>argv := pre @ os @ ns @ sk @ rest, first_nonopt := length pre + length os,
    last_nonopt := (if ns \<noteq> [] \<and> os \<noteq> [] then optind s else last_nonopt s)\<rparr>"
  have "(if first_nonopt s \<noteq> last_nonopt s \<and> last_nonopt s \<noteq> optind s then exchange s
      else Some (if last_nonopt s \<noteq> optind s then s\<lparr>first_nonopt := optind s\<rparr> else s)) = Some t"
  proof (cases "ns \<noteq> [] \<and> os \<noteq> []")
    case True
    then show ?thesis using assms(1) exchange_correct [of s pre ns os "sk @ rest"] by (simp add: between_def t_def)
  next
    case False
    then show ?thesis using assms(1) by (auto simp: between_def t_def)
  qed
  moreover have "optind t = length (pre @ os @ ns)" "argv t = (pre @ os @ ns) @ sk @ rest"
    using assms(1) by (auto simp: between_def t_def)
  moreover from this have "skip_nonopts (argv t) (optind t) = length (pre @ os @ ns) + length sk"
    using skip_nonopts_take [OF assms(2,3), of "pre @ os @ ns"] by simp
  ultimately show ?thesis using assms(1)
    by (auto simp: permute_next_def between_def t_def Let_def)
qed

lemma advance_between:
  assumes "between s pre ns os (sk @ rest)" "list_all NONOPTION_P sk" "rest = [] \<or> \<not> NONOPTION_P (hd rest)"
  shows "case rest of
      [] \<Rightarrow> \<exists>s'. advance None s = Some (Inl (- 1, s')) \<and> argv s' = pre @ os @ ns @ sk \<and> optind s' = length (pre @ os)
    | x # xs \<Rightarrow>
        if x = ''--'' then \<exists>s'. advance None s = Some (Inl (- 1, s')) \<and> argv s' = pre @ os @ x # ns @ sk @ xs \<and> optind s' = length (pre @ os @ [x])
        else \<exists>s'. advance None s = Some (Inr (s'\<lparr>nextchar := Some (tl x)\<rparr>)) \<and> between s' (pre @ os) (ns @ sk) [] rest \<and> optarg s' = optarg s"
proof -
  obtain t where p: "permute_next s = Some t" and t: "between t (pre @ os) (ns @ sk) [] rest" and a: "optarg t = optarg s"
    using permute_next_between [OF assms] by blast
  have l: "\<not> last_nonopt s > optind s" "\<not> first_nonopt s > optind s" using assms(1) by (auto simp: between_def)
  show ?thesis
  proof (cases rest)
    case Nil
    then show ?thesis using p t l by (auto simp: advance_def Let_def double_dash_def between_def)
  next
    case (Cons x xs)
    have pk: "peek (argv t) (optind t) = Some x" "optind t \<noteq> argc t" using t Cons by (simp_all add: between_def peek_def nth_append)
    show ?thesis
    proof (cases "x = ''--''")
      case True
      define u where "u = t\<lparr>optind := Suc (optind t)\<rparr>"
      define v where "v = u\<lparr>argv := pre @ os @ x # ns @ sk @ xs, first_nonopt := length (pre @ os) + 1,
        last_nonopt := (if ns @ sk \<noteq> [] then optind u else last_nonopt u)\<rparr>"
      have "(if first_nonopt u \<noteq> last_nonopt u \<and> last_nonopt u \<noteq> optind u then exchange u
          else Some (if first_nonopt u = last_nonopt u then u\<lparr>first_nonopt := optind u\<rparr> else u)) = Some v"
      proof (cases "ns @ sk = []")
        case True
        then show ?thesis using t Cons by (auto simp: between_def u_def v_def)
      next
        case False
        then show ?thesis using exchange_correct [of u "pre @ os" "ns @ sk" "[x]" xs] t Cons by (auto simp: between_def u_def v_def)
      qed
      then have "double_dash t = Some (v\<lparr>last_nonopt := argc v, optind := argc v\<rparr>)"
        using pk True by (simp add: double_dash_def Let_def u_def [symmetric])
      moreover have "argv v = pre @ os @ x # ns @ sk @ xs" "first_nonopt v = length (pre @ os) + 1" by (simp_all add: v_def)
      ultimately show ?thesis using p l True Cons by (auto simp: advance_def Let_def)
    next
      case False
      then have "double_dash t = Some t" using pk by (simp add: double_dash_def)
      then show ?thesis using False p l pk t a Cons assms(3) by (auto simp: advance_def Let_def drop_Suc)
    qed
  qed
qed

text \<open>Decoding an element changes neither the vector nor the range of skipped elements.\<close>

definition same_scan :: "getopt_state \<Rightarrow> getopt_state \<Rightarrow> bool" where
  "same_scan s s' = (argv s' = argv s \<and> first_nonopt s' = first_nonopt s \<and> last_nonopt s' = last_nonopt s \<and> ordering s' = ordering s \<and>
     getopt_initialized s' = getopt_initialized s)"

definition short_only :: "string \<Rightarrow> bool" where
  "short_only optstring = (CHR '';'' \<notin> set optstring \<and> CHR 0xFF \<notin> set optstring)"

lemma complain_done: "argv s \<noteq> [] \<Longrightarrow> \<exists>m. complain pe msg s = Some (s\<lparr>go_stderr := m\<rparr>)"
  by (cases pe) (auto simp: complain_def peek_def intro: exI [of _ "go_stderr s"])

lemma my_index_Some: "my_index str c = Some t \<Longrightarrow> c \<in> set str \<and> set t \<subseteq> set str \<and> t \<noteq> []"
  by (induction str) (auto split: if_splits)

lemma char_at_set: "char_at t i = c \<Longrightarrow> c \<noteq> nul \<Longrightarrow> c \<in> set t"
  by (auto simp: char_at_def split: if_splits)

lemma schar_end:
  assumes "c \<noteq> CHR 0xFF"
  shows "schar c \<noteq> - 1"
proof
  assume "schar c = - 1"
  then have "uchar c = uchar CHR 0xFF" using uchar_bounds [of c] by (simp add: schar_def split: if_splits)
  then show False using assms by (simp only: of_char_eq_iff)
qed

lemma decode_flag:
  assumes "short_only optstring" "kind_of optstring c \<in> {Unknown, Flag}" "nextchar s = Some (c # next)" "argv s \<noteq> []"
  shows "\<exists>code s'. decode_short optstring None False pe s = Some (code, s') \<and> code \<noteq> - 1 \<and> same_scan s s' \<and> optarg s' = optarg s \<and>
    nextchar s' = Some next \<and> optind s' = (if next = [] then optind s + 1 else optind s) \<and>
    (\<forall>xs. cluster optstring (c # next) xs = apfst (Cons (code, None)) (cluster optstring next xs))"
proof (cases "my_index optstring c = None \<or> c = CHR '':''")
  case True
  then have k: "kind_of optstring c = Unknown" by (auto simp: kind_of_def split: option.split)
  define t where "t = s\<lparr>nextchar := Some next, optind := (if next = [] then optind s + 1 else optind s)\<rparr>"
  obtain m where "complain pe ((if posixly_correct t then ''illegal option -- '' else ''invalid option -- '') @ [c]) t = Some (t\<lparr>go_stderr := m\<rparr>)"
    using complain_done [of t] assms(4) unfolding t_def by fastforce
  then show ?thesis using True assms(3) k by (auto simp: decode_short_def Let_def t_def [symmetric]) (auto simp: t_def same_scan_def schar_end)
next
  case False
  then obtain t where t: "my_index optstring c = Some t" by auto
  then have f: "kind_of optstring c = Flag" "char_at t 1 \<noteq> CHR '':''" using assms(2) False by (auto simp: kind_of_def split: if_splits)
  have "char_at t 1 \<noteq> CHR '';''" "c \<noteq> CHR 0xFF"
    using my_index_Some [OF t] assms(1) char_at_set [of t 1 "CHR '';''"] by (auto simp: short_only_def)
  then show ?thesis using False t f assms(3) by (auto simp: decode_short_def Let_def same_scan_def schar_end)
qed

lemma decode_arg:
  assumes "short_only optstring" "kind_of optstring c \<in> {Optional, Required}" "nextchar s = Some (c # next)"
    and "argv s = pre @ x # xs" "optind s = length pre" "optarg s = None"
  shows "\<exists>code s' taken. decode_short optstring None False pe s = Some (code, s') \<and> code \<noteq> - 1 \<and> same_scan s s' \<and> nextchar s' = None \<and>
    cluster optstring (c # next) xs = ([(code, optarg s')], taken) \<and> optind s' = length pre + 1 + length taken \<and> taken = take (length taken) xs"
proof -
  obtain t where t: "my_index optstring c = Some t" "c \<noteq> CHR '':''" "char_at t 1 = CHR '':''"
    and k: "kind_of optstring c = (if char_at t 2 = CHR '':'' then Optional else Required)"
  proof (cases "my_index optstring c")
    case (Some t)
    then show ?thesis using that [of t] assms(2) by (auto simp: kind_of_def split: if_splits)
  qed (use assms(2) in \<open>simp add: kind_of_def\<close>)
  have "c \<noteq> CHR 0xFF" using my_index_Some [OF t(1)] assms(1) by (auto simp: short_only_def)
  then have c: "schar c \<noteq> - 1" by (rule schar_end)
  show ?thesis
  proof (cases "char_at t 2 \<noteq> CHR '':'' \<and> next = []")
    case False
    define u where "u = s\<lparr>optarg := (if next = [] then None else Some next), optind := Suc (optind s), nextchar := None\<rparr>"
    have "decode_short optstring None False pe s = Some (schar c, u)"
      using False t assms(3) by (cases "next = []") (simp_all add: decode_short_def Let_def u_def)
    moreover have "cluster optstring (c # next) xs = ([(schar c, optarg u)], [])" using False k by (auto simp: u_def)
    moreover have "same_scan s u" "nextchar u = None" "optind u = length pre + 1 + 0" using assms(5) by (simp_all add: same_scan_def u_def)
    ultimately show ?thesis using c by auto
  next
    case True
    define u where "u = s\<lparr>nextchar := Some [], optind := Suc (optind s)\<rparr>"
    show ?thesis
    proof (cases xs)
      case Nil
      obtain m where "complain pe (''option requires an argument -- '' @ [c]) u = Some (u\<lparr>go_stderr := m\<rparr>)"
        using complain_done [of u] assms(4) unfolding u_def by fastforce
      then show ?thesis using True Nil t k assms(3-6)
        by (auto simp: decode_short_def Let_def u_def [symmetric]) (auto simp: u_def same_scan_def schar_end)
    next
      case (Cons y ys)
      then have "peek (argv u) (optind u) = Some y" "optind u \<noteq> argc u" using assms(4,5) by (simp_all add: u_def peek_def nth_append)
      then show ?thesis using True Cons t k c assms(3-6)
        by (auto simp: decode_short_def Let_def u_def [symmetric]) (auto simp: u_def same_scan_def)
    qed
  qed
qed

definition collect :: "bool \<Rightarrow> string \<Rightarrow> (int \<times> getopt_state) option \<Rightarrow> ((int \<times> string option) list \<times> getopt_state) option" where
  "collect env optstring r =
     do {(c, s) \<leftarrow> r;
         if c = - 1 then Some ([], s)
         else do {(rs, t) \<leftarrow> getopt_all env optstring s; Some ((c, optarg s) # rs, t)}}"

lemma getopt_all_collect: "getopt_all env optstring s = collect env optstring (getopt env optstring s)"
  by (subst getopt_all.simps) (simp add: collect_def)

lemma getopt_inside:
  assumes "getopt_initialized s" "optind s \<noteq> 0" "nextchar s = Some (c # next)" "optarg s = None"
  shows "getopt env optstring s = decode_short optstring None False (opterr s \<and> char_at optstring 0 \<noteq> CHR '':'') s"
  using assms by (cases s) (simp add: getopt_def getopt_internal_def)

lemma cluster_all:
  assumes "short_only optstring" "nextchar s = Some next" "next \<noteq> []" "argv s = pre @ x # xs" "optind s = length pre" "pre \<noteq> []"
    and "getopt_initialized s" "optarg s = None" "cluster optstring next xs = (r, taken)"
  shows "\<exists>s'. same_scan s s' \<and> nextchar s' \<in> {None, Some []} \<and> optind s' = length pre + 1 + length taken \<and> taken = take (length taken) xs \<and>
    collect env optstring (decode_short optstring None False pe s) = do {(rs, t) \<leftarrow> getopt_all env optstring s'; Some (r @ rs, t)}"
  using assms(2-)
proof (induction "next" arbitrary: s pe r)
  case (Cons c "next")
  show ?case
  proof (cases "kind_of optstring c \<in> {Unknown, Flag}")
    case True
    obtain code s1 where s1: "decode_short optstring None False pe s = Some (code, s1)" "code \<noteq> - 1" "same_scan s s1" "optarg s1 = None"
      "nextchar s1 = Some next" "optind s1 = (if next = [] then optind s + 1 else optind s)"
      "cluster optstring (c # next) xs = apfst (Cons (code, None)) (cluster optstring next xs)"
      using decode_flag [OF assms(1) True, of s "next" pe] Cons.prems by auto
    have step: "collect env optstring (decode_short optstring None False pe s) =
        do {(rs, t) \<leftarrow> getopt_all env optstring s1; Some ((code, None) # rs, t)}"
      using s1 by (simp add: collect_def)
    show ?thesis
    proof (cases "next = []")
      case True
      then show ?thesis using s1 step Cons.prems by (intro exI [of _ s1]) auto
    next
      case False
      obtain r' where r': "cluster optstring next xs = (r', taken)" "r = (code, None) # r'"
        using Cons.prems(8) s1(7) by (cases "cluster optstring next xs") auto
      have all: "getopt_all env optstring s1 =
          collect env optstring (decode_short optstring None False (opterr s1 \<and> char_at optstring 0 \<noteq> CHR '':'') s1)"
        using s1 False Cons.prems by (subst getopt_all_collect, cases "next") (auto simp: same_scan_def getopt_inside)
      obtain s' where "same_scan s1 s'" "nextchar s' \<in> {None, Some []}" "optind s' = length pre + 1 + length taken" "taken = take (length taken) xs"
        "getopt_all env optstring s1 = do {(rs, t) \<leftarrow> getopt_all env optstring s'; Some (r' @ rs, t)}"
        using Cons.IH [of s1 r' "opterr s1 \<and> char_at optstring 0 \<noteq> CHR '':''"] all s1 False Cons.prems r' by (auto simp: same_scan_def)
      then show ?thesis using s1(3) step r' by (intro exI [of _ s']) (auto simp: same_scan_def case_prod_beta)
    qed
  next
    case False
    then have "kind_of optstring c \<in> {Optional, Required}" by (cases "kind_of optstring c") auto
    then obtain code s1 where "decode_short optstring None False pe s = Some (code, s1)" "code \<noteq> - 1" "same_scan s s1" "nextchar s1 = None"
      "r = [(code, optarg s1)]" "optind s1 = length pre + 1 + length taken" "taken = take (length taken) xs"
      using decode_arg [OF assms(1) _ Cons.prems(1,3,4), of pe] Cons.prems(7,8) by auto
    then show ?thesis by (intro exI [of _ s1]) (simp add: collect_def)
  qed
qed simp

lemma scan_args_skip: "list_all NONOPTION_P sk \<Longrightarrow> scan_args optstring rest = (rs, es, ns) \<Longrightarrow> scan_args optstring (sk @ rest) = (rs, es, sk @ ns)"
  by (induction sk) (auto simp: NONOPTION_P_def char_at_def)

lemma getopt_between:
  assumes "between s pre ns os rest"
  shows "getopt env optstring s = (case advance None (s\<lparr>optarg := None\<rparr>) of
      None \<Rightarrow> None
    | Some (Inl res) \<Rightarrow> Some res
    | Some (Inr t) \<Rightarrow> decode_short optstring None False (opterr s \<and> char_at optstring 0 \<noteq> CHR '':'') t)"
  using assms by (auto simp: getopt_def getopt_internal_def between_def split: option.split sum.split)

lemma getopt_all_between:
  assumes "short_only optstring" "between s pre ns os rest" "scan_args optstring rest = (rs, es, ns')"
  shows "\<exists>t. getopt_all env optstring s = Some (rs, t) \<and> argv t = pre @ os @ es @ ns @ ns' \<and> optind t = length (pre @ os @ es)"
  using assms(2,3)
proof (induction "length rest" arbitrary: s pre ns os rest rs es ns' rule: less_induct)
  case less
  define sk where "sk = takeWhile NONOPTION_P rest"
  define rest' where "rest' = dropWhile NONOPTION_P rest"
  have rest: "rest = sk @ rest'" and sk: "list_all NONOPTION_P sk" by (auto simp: sk_def rest'_def list_all_iff dest: set_takeWhileD)
  have hd: "rest' = [] \<or> \<not> NONOPTION_P (hd rest')" using hd_dropWhile [of NONOPTION_P rest] by (auto simp: rest'_def)
  obtain ns2 where sc: "scan_args optstring rest' = (rs, es, ns2)" and ns': "ns' = sk @ ns2"
    using less.prems(2) scan_args_skip [OF sk] unfolding rest by (cases "scan_args optstring rest'") force
  let ?s = "s\<lparr>optarg := None\<rparr>"
  have b: "between ?s pre ns os (sk @ rest')" using less.prems(1) by (simp add: between_def rest)
  note adv = advance_between [OF b sk hd] and all = getopt_all_collect [of env optstring s] and go = getopt_between [OF less.prems(1), of env optstring]
  show ?case
  proof (cases rest')
    case Nil
    then show ?thesis using adv all go sc ns' by (auto simp: collect_def)
  next
    case (Cons x xs)
    show ?thesis
    proof (cases "x = ''--''")
      case True
      then show ?thesis using adv all go sc ns' Cons by (auto simp: collect_def)
    next
      case False
      obtain u where u: "advance None ?s = Some (Inr (u\<lparr>nextchar := Some (tl x)\<rparr>))" "between u (pre @ os) (ns @ sk) [] rest'" "optarg u = None"
        using adv False Cons by auto
      obtain r taken where c: "cluster optstring (tl x) xs = (r, taken)" by (cases "cluster optstring (tl x) xs")
      obtain rs2 es2 ns3 where sc2: "scan_args optstring (drop (length taken) xs) = (rs2, es2, ns3)"
        by (cases "scan_args optstring (drop (length taken) xs)")
      have e: "rs = r @ rs2" "es = x # taken @ es2" "ns2 = ns3" using sc Cons False hd c sc2 by auto
      have x: "tl x \<noteq> []" using hd Cons by (cases x; cases "tl x") (auto simp: NONOPTION_P_def char_at_def)
      let ?u = "u\<lparr>nextchar := Some (tl x)\<rparr>"
      obtain s' where s': "same_scan ?u s'" "nextchar s' \<in> {None, Some []}" "optind s' = length (pre @ os @ ns @ sk) + 1 + length taken"
        "taken = take (length taken) xs"
        "collect env optstring (decode_short optstring None False (opterr s \<and> char_at optstring 0 \<noteq> CHR '':'') ?u) =
          do {(rs, t) \<leftarrow> getopt_all env optstring s'; Some (r @ rs, t)}"
        using cluster_all [OF assms(1) _ x _ _ _ _ _ c, of ?u "pre @ os @ ns @ sk" x env "opterr s \<and> char_at optstring 0 \<noteq> CHR '':''"] u Cons
        by (auto simp: between_def)
      have "xs = taken @ drop (length taken) xs" using s'(4) append_take_drop_id [of "length taken" xs] by simp
      then have "between s' (pre @ os) (ns @ sk) (x # taken) (drop (length taken) xs)"
        using u(2) s' Cons by (auto simp: between_def same_scan_def)
      moreover have "length (drop (length taken) xs) < length rest" by (simp add: rest Cons)
      ultimately obtain t where "getopt_all env optstring s' = Some (rs2, t)" "argv t = (pre @ os) @ (x # taken) @ es2 @ (ns @ sk) @ ns3"
        "optind t = length ((pre @ os) @ (x # taken) @ es2)"
        using less.hyps [OF _ _ sc2, of s' "pre @ os" "ns @ sk" "x # taken"] by blast
      then show ?thesis using all go u(1) s'(5) e ns' by (simp add: collect_def [of _ _ None])
    qed
  qed
qed

lemma getopt_all_scan:
  assumes "short_only optstring" "char_at optstring 0 \<notin> {CHR ''-'', CHR ''+''}"
  shows "case scan_args optstring args of (rs, es, ns) \<Rightarrow>
    \<exists>t. getopt_all False optstring (getopt_start (prog # args)) = Some (rs, t) \<and> argv t = prog # es @ ns \<and> optind t = 1 + length es"
proof -
  define s where "s = (getopt_start (prog # args))\<lparr>first_nonopt := 1, last_nonopt := 1, ordering := PERMUTE, getopt_initialized := True\<rparr>"
  have "getopt False optstring (getopt_start (prog # args)) = getopt False optstring s"
    using assms(2) by (simp add: getopt_def getopt_internal_def getopt_initialize_def getopt_start_def s_def)
  then have "getopt_all False optstring (getopt_start (prog # args)) = getopt_all False optstring s"
    by (simp add: getopt_all_collect [of _ _ "getopt_start (prog # args)"] getopt_all_collect [of _ _ s])
  moreover have "between s [prog] [] [] args" by (simp add: between_def s_def getopt_start_def)
  moreover obtain rs es ns where "scan_args optstring args = (rs, es, ns)" by (cases "scan_args optstring args")
  ultimately show ?thesis using getopt_all_between [OF assms(1), of s "[prog]" "[]" "[]" args rs es ns False] by auto
qed

text \<open>C29. Calls of \<open>getopt\<close> until it returns \<open>-1\<close> end for every command line: they return the options with their
  arguments in the order of the command line, unknown options and missing arguments as a question mark or colon, and leave
  the vector permuted, the elements of options first and the other ones behind them, both in their order, with \<open>optind\<close> at the first
  of the latter. For a list of options that asks for no other order.\<close>

theorem getopt_permutes:
  assumes "short_only optstring" "char_at optstring 0 \<notin> {CHR ''-'', CHR ''+''}"
  shows "case scan_args optstring args of (rs, es, ns) \<Rightarrow>
    \<exists>t. getopt_all False optstring (getopt_start (prog # args)) = Some (rs, t) \<and> argv t = prog # es @ ns \<and> optind t = 1 + length es"
  using getopt_all_scan [OF assms] .

theorem getopt_permutes_witness:
  "\<exists>t. getopt_all False ''xvf:'' (getopt_start [''par'', ''a'', ''-vz'', ''b'', ''-f'', ''o'', ''--'', ''-x'']) =
      Some ([(schar CHR ''v'', None), (schar CHR ''?'', None), (schar CHR ''f'', Some ''o'')], t) \<and>
    argv t = [''par'', ''-vz'', ''-f'', ''o'', ''--'', ''a'', ''b'', ''-x''] \<and> optind t = 5"
proof -
  have "short_only ''xvf:''" "char_at ''xvf:'' 0 \<notin> {CHR ''-'', CHR ''+''}" by code_simp+
  moreover have "scan_args ''xvf:'' [''a'', ''-vz'', ''b'', ''-f'', ''o'', ''--'', ''-x''] =
      ([(schar CHR ''v'', None), (schar CHR ''?'', None), (schar CHR ''f'', Some ''o'')], [''-vz'', ''-f'', ''o'', ''--''], [''a'', ''b'', ''-x''])"
    by code_simp
  ultimately show ?thesis
    using getopt_permutes [where optstring = "''xvf:''" and args = "[''a'', ''-vz'', ''b'', ''-f'', ''o'', ''--'', ''-x'']" and prog = "''par''"]
    by (simp add: eval_nat_numeral del: scan_args.simps)
qed

section \<open>Long options\<close>

text \<open>An exact name wins; without one an abbreviation has to fit one name only.\<close>

definition abbreviates :: "string \<Rightarrow> long_option \<Rightarrow> bool" where
  "abbreviates key p = (take (length key) (lo_name p) = key)"

lemma find_long_exact:
  assumes "p \<in> set los" "lo_name p = key"
  shows "\<exists>q j amb. find_long key i pf ambig los = (Some (q, i + j), True, amb) \<and> j < length los \<and> los ! j = q \<and> lo_name q = key \<and>
    (\<forall>k < j. lo_name (los ! k) \<noteq> key)"
  using assms(1)
proof (induction los arbitrary: i pf ambig)
  case (Cons a los)
  show ?case
  proof (cases "lo_name a = key")
    case True
    then show ?thesis by (intro exI [of _ a] exI [of _ 0] exI [of _ ambig]) simp
  next
    case False
    then have "p \<in> set los" using Cons.prems assms(2) by auto
    moreover have "\<not> (take (length key) (lo_name a) = key \<and> length key = length (lo_name a))" using False by auto
    then obtain pf' ambig' where "find_long key i pf ambig (a # los) = find_long key (i + 1) pf' ambig' los"
      by (cases "take (length key) (lo_name a) = key"; cases "pf = None") auto
    ultimately obtain q j amb where "find_long key i pf ambig (a # los) = (Some (q, i + 1 + j), True, amb)" "j < length los"
      "los ! j = q" "lo_name q = key" "\<forall>k<j. lo_name (los ! k) \<noteq> key"
      using Cons.IH [of "i + 1" pf' ambig'] by auto
    then show ?thesis using False
      by (intro exI [of _ q] exI [of _ "Suc j"] exI [of _ amb]) (auto simp: nth_Cons split: nat.splits)
  qed
qed simp

lemma find_long_abbreviation:
  assumes "\<forall>p \<in> set los. lo_name p \<noteq> key"
  shows "find_long key i pf ambig los =
    (case pf of Some _ \<Rightarrow> pf | None \<Rightarrow> (case filter (\<lambda>(p, _). abbreviates key p) (zip los [i..<i + length los]) of [] \<Rightarrow> None | pj # _ \<Rightarrow> Some pj),
     False, ambig \<or> 1 < (if pf = None then 0 else 1) + length (filter (abbreviates key) los))"
  using assms
proof (induction los arbitrary: i pf ambig)
  case (Cons a los)
  have "\<not> (take (length key) (lo_name a) = key \<and> length key = length (lo_name a))" using Cons.prems by auto
  moreover have "[i..<i + length (a # los)] = i # [i + 1..<i + 1 + length los]" by (simp add: upt_conv_Cons del: upt_Suc)
  ultimately show ?case using Cons by (cases pf) (auto simp: abbreviates_def)
qed (auto split: option.split)

text \<open>An ambiguous argument of \<open>-W\<close> at the end of the command line makes the message read the null pointer behind the
  vector; without messages the index moves behind the end, and the next call reads there.\<close>

lemma getopt_W_overrun:
  "let los = [\<lparr>lo_name = ''verbose'', lo_has_arg = 0, lo_flag = None, lo_val = 1\<rparr>, \<lparr>lo_name = ''version'', lo_has_arg = 0, lo_flag = None, lo_val = 2\<rparr>];
       s = getopt_start [''p'', ''-W'', ''ver''] in
   getopt_internal False ''W;'' (Some los) False False s = None \<and>
   (case getopt_internal False ''W;'' (Some los) False False (s\<lparr>opterr := False\<rparr>) of
      None \<Rightarrow> False
    | Some (c, t) \<Rightarrow> c = schar CHR ''?'' \<and> optind t = 4 \<and> argc t = 3 \<and> getopt_internal False ''W;'' (Some los) False False t = None)"
  by code_simp

end
