(* ===== verification/Par_Main.thy ===== *)
theory Par_Main
  imports Par_Handle Compat_Getopt
begin

text \<open>
  \<open>par/util/parutil.c\<close>, the program: \<open>main\<close> on top of the command line scanner of \<open>compat/getopt.c\<close> and the routines that create,
  list and extract archives. The usage message on the output is left out.
\<close>

section \<open>The command line\<close>

definition MODE_LIST :: nat where "MODE_LIST = 1"
definition MODE_CREATE :: nat where "MODE_CREATE = 2"
definition MODE_EXTRACT :: nat where "MODE_EXTRACT = 3"

definition set_mode :: "nat \<Rightarrow> nat \<Rightarrow> int + nat" where
  "set_mode new mode = (if mode \<noteq> 0 then Inl 1 else Inr new)"

definition main_switch :: "int \<Rightarrow> nat \<Rightarrow> int + nat" where
  "main_switch c mode =
     (if c = schar CHR ''v'' then Inr mode
      else if c = schar CHR ''c'' then set_mode MODE_CREATE mode
      else if c = schar CHR ''x'' then set_mode MODE_EXTRACT mode
      else if c = schar CHR ''l'' then set_mode MODE_LIST mode
      else Inl 1)"

definition main_options :: string where
  "main_options = ''clvVxh''"

partial_function (option) main_loop :: "bool \<Rightarrow> getopt_state \<Rightarrow> nat \<Rightarrow> (int + nat \<times> getopt_state) option" where
  "main_loop posix s mode =
     do {(c, s) \<leftarrow> getopt posix main_options s;
         if c = - 1 then Some (Inr (mode, s))
         else case main_switch c mode of Inl r \<Rightarrow> Some (Inl r) | Inr mode \<Rightarrow> main_loop posix s mode}"

datatype par_command = Exit int | Extract string | Create string "string list" | Lst string

definition main_command :: "bool \<Rightarrow> string list \<Rightarrow> par_command option" where
  "main_command posix args =
     do {r \<leftarrow> main_loop posix (getopt_start args) 0;
         case r of
           Inl code \<Rightarrow> Some (Exit code)
         | Inr (mode, s) \<Rightarrow>
             if mode = 0 \<or> argc s < optind s + (if mode = MODE_CREATE then 2 else 1) then Some (Exit 2)
             else do {
               file \<leftarrow> peek (argv s) (optind s);
               Some (if mode = MODE_EXTRACT then Extract file
                     else if mode = MODE_CREATE then Create file (drop (optind s + 1) (argv s))
                     else Lst file)}}"

text \<open>What the program does with a command, and the code it returns.\<close>

definition par_main ::
  "aenv \<Rightarrow> byte list option \<Rightarrow> (u64 \<times> u64) list \<Rightarrow> archive_header \<Rightarrow> clock \<Rightarrow> rng \<Rightarrow> penv \<Rightarrow> lsenv \<Rightarrow> char list \<Rightarrow> read_outcome list \<Rightarrow>
   bool \<Rightarrow> string list \<Rightarrow> dev \<Rightarrow> os \<Rightarrow> (int \<times> string \<times> dev \<times> os) option" where
  "par_main env seed tvs junk c g penv ls junk2 head posix args d w =
     do {cmd \<leftarrow> main_command posix args;
         case cmd of
           Exit code \<Rightarrow> Some (code, [], d, w)
         | Extract file \<Rightarrow> do {(r, w) \<leftarrow> par_extract penv junk2 head d file None w; Some (r, [], d, w)}
         | Create file names \<Rightarrow> do {(r, d, w) \<leftarrow> par_create env seed tvs junk c g d file None names w; Some (r, [], d, w)}
         | Lst file \<Rightarrow> do {(r, out, w) \<leftarrow> par_list penv ls junk2 head d file w; Some (r, out, d, w)}}"

section \<open>Commands\<close>

text \<open>The mode from the codes of the options: exactly one of the three, any number of \<open>-v\<close>, and nothing else.\<close>

definition codes_mode :: "int list \<Rightarrow> int + nat" where
  "codes_mode cs =
     (case filter (\<lambda>c. c \<noteq> schar CHR ''v'') cs of
        [] \<Rightarrow> Inr 0
      | [c] \<Rightarrow> if c = schar CHR ''c'' then Inr 2 else if c = schar CHR ''x'' then Inr 3 else if c = schar CHR ''l'' then Inr 1 else Inl 1
      | _ \<Rightarrow> Inl 1)"

fun switch_all :: "int list \<Rightarrow> nat \<Rightarrow> int + nat" where
  "switch_all [] mode = Inr mode"
| "switch_all (c # cs) mode = (case main_switch c mode of Inl r \<Rightarrow> Inl r | Inr mode \<Rightarrow> switch_all cs mode)"

lemmas modes = MODE_CREATE_def MODE_EXTRACT_def MODE_LIST_def

lemma switch_all_again: "0 < mode \<Longrightarrow> switch_all cs mode = (if filter (\<lambda>c. c \<noteq> schar CHR ''v'') cs = [] then Inr mode else Inl 1)"
  by (induction cs arbitrary: mode) (auto simp: main_switch_def set_mode_def)

lemma switch_all_codes: "switch_all cs 0 = codes_mode cs"
proof (induction cs)
  case (Cons c cs)
  have "schar CHR ''v'' \<noteq> schar CHR ''c''" "schar CHR ''v'' \<noteq> schar CHR ''x''" "schar CHR ''v'' \<noteq> schar CHR ''l''"
    "schar CHR ''c'' \<noteq> schar CHR ''x''" "schar CHR ''c'' \<noteq> schar CHR ''l''" "schar CHR ''x'' \<noteq> schar CHR ''l''" by code_simp+
  then show ?case using Cons
    by (auto simp: codes_mode_def main_switch_def set_mode_def switch_all_again modes split: list.split)
qed (simp add: codes_mode_def)

text \<open>The command of a command line, in terms of its options and other elements.\<close>

definition command_of :: "string list \<Rightarrow> par_command" where
  "command_of args =
     (case scan_args main_options args of
        (opts, _, ns) \<Rightarrow>
          (case codes_mode (map fst opts) of
            Inl code \<Rightarrow> Exit code
          | Inr mode \<Rightarrow>
              (case ns of
                 file # names \<Rightarrow>
                   if mode = MODE_EXTRACT then Extract file
                   else if mode = MODE_CREATE then (if names = [] then Exit 2 else Create file names)
                   else if mode = MODE_LIST then Lst file else Exit 2
               | [] \<Rightarrow> Exit 2)))"

lemma main_loop_codes:
  assumes "getopt_all posix main_options s = Some (opts, t)"
  shows "main_loop posix s mode = Some (case switch_all (map fst opts) mode of Inl r \<Rightarrow> Inl r | Inr mode \<Rightarrow> Inr (mode, t))"
  using assms
proof (induction opts arbitrary: s mode)
  case Nil
  then show ?case by (subst main_loop.simps) (auto simp: getopt_all_collect collect_def split: bind_splits if_splits)
next
  case (Cons r opts)
  obtain s' where s': "getopt posix main_options s = Some (fst r, s')" "fst r \<noteq> - 1" "getopt_all posix main_options s' = Some (opts, t)"
    using Cons.prems by (auto simp: getopt_all_collect [of _ _ s] collect_def split: bind_splits if_splits)
  then show ?case using Cons.IH [OF s'(3)] by (subst main_loop.simps) (auto split: sum.split)
qed

lemma codes_mode_range: "codes_mode cs = Inr m \<Longrightarrow> m \<in> {0, MODE_EXTRACT, MODE_CREATE, MODE_LIST}"
  by (auto simp: codes_mode_def modes split: list.splits if_splits)

text \<open>\<open>main\<close> reads every command line to its end and runs the command it stands for, wherever the options
  are among the names.\<close>

lemma main_command_eq: "main_command False (prog # args) = Some (command_of args)"
proof -
  obtain opts es ns where sc: "scan_args main_options args = (opts, es, ns)" by (cases "scan_args main_options args")
  have "short_only main_options" "char_at main_options 0 \<notin> {CHR ''-'', CHR ''+''}" by code_simp+
  from getopt_all_scan [OF this, where args = args and prog = prog] obtain t where t: "getopt_all False main_options (getopt_start (prog # args)) = Some (opts, t)" "argv t = prog # es @ ns" "optind t = 1 + length es"
    using sc by auto
  have m: "m \<in> {0, MODE_EXTRACT, MODE_CREATE, MODE_LIST}" if "codes_mode (map fst opts) = Inr m" for m
    using codes_mode_range [OF that] .
  show ?thesis
    using main_loop_codes [OF t(1), of 0, unfolded switch_all_codes] t(2,3) sc m
    by (cases ns)
      (auto simp: main_command_def command_of_def peek_def nth_append MODE_CREATE_def MODE_EXTRACT_def MODE_LIST_def Suc_le_eq split: sum.split)
qed



definition sample_lsenv :: lsenv where
  "sample_lsenv = \<lparr>ls_passwd = \<lambda>_. None, ls_group = \<lambda>_. None, ls_time = \<lambda>_. []\<rparr>"


end
