(* ===== verification/Compat_Fnmatch.thy ===== *)
theory Compat_Fnmatch
  imports Prelude
begin

text \<open>
  \<open>compat/fnmatch.c\<close>: matching of file names against shell patterns. Pattern and string are the
  characters before the terminator, so that the end of a list is \<open>EOS\<close>; \<open>prev\<close> is the character before
  the current position of the string, \<open>None\<close> at its start. The reference semantics reads the pattern
  as a list of items first and lets a star match any stretch.
\<close>

section \<open>The routine\<close>

record fnm_flags =
  FNM_NOESCAPE :: bool
  FNM_PATHNAME :: bool
  FNM_PERIOD :: bool
  FNM_LEADING_DIR :: bool
  FNM_CASEFOLD :: bool

datatype range_result = RANGE_MATCH string | RANGE_NOMATCH | RANGE_ERROR

definition fold_case :: "fnm_flags \<Rightarrow> char \<Rightarrow> char" where
  "fold_case fl c = (if FNM_CASEFOLD fl then tolower c else c)"

text \<open>
  A character of a bracket expression, behind an optional backslash: \<open>None\<close> at the end of the
  pattern.
\<close>

definition bracket_char :: "fnm_flags \<Rightarrow> char \<Rightarrow> string \<Rightarrow> (char \<times> string) option" where
  "bracket_char fl c p =
     (if c = CHR 0x5C \<and> \<not> FNM_NOESCAPE fl then (case p of [] \<Rightarrow> None | c # p \<Rightarrow> Some (c, p)) else Some (c, p))"

text \<open>What one round of the loop of \<open>rangematch\<close> reads: a character or a range, or a return value.\<close>

datatype range_elem = Single char | Range char char

definition range_item :: "fnm_flags \<Rightarrow> char \<Rightarrow> string \<Rightarrow> range_result + range_elem \<times> string" where
  "range_item fl c p =
     (case bracket_char fl c p of None \<Rightarrow> Inl RANGE_ERROR
      | Some (c, p) \<Rightarrow>
          if c = slash \<and> FNM_PATHNAME fl then Inl RANGE_NOMATCH
          else case p of
            d # c2 # q \<Rightarrow>
              if d = CHR ''-'' \<and> c2 \<noteq> CHR '']'' then
                (case bracket_char fl c2 q of None \<Rightarrow> Inl RANGE_ERROR | Some (c2, q) \<Rightarrow> Inr (Range (fold_case fl c) (fold_case fl c2), q))
              else Inr (Single (fold_case fl c), p)
          | _ \<Rightarrow> Inr (Single (fold_case fl c), p))"

fun elem_ok :: "char \<Rightarrow> range_elem \<Rightarrow> bool" where
  "elem_ok test (Single c) \<longleftrightarrow> c = test"
| "elem_ok test (Range c c2) \<longleftrightarrow> schar c \<le> schar test \<and> schar test \<le> schar c2"

lemma range_item_shorter: "range_item fl c p = Inr (e, q) \<Longrightarrow> length q \<le> length p"
  by (auto simp: range_item_def bracket_char_def split: if_splits list.splits)

text \<open>The loop, entered with \<open>c\<close> already read.\<close>

function range_loop :: "fnm_flags \<Rightarrow> char \<Rightarrow> bool \<Rightarrow> bool \<Rightarrow> char \<Rightarrow> string \<Rightarrow> range_result" where
  "range_loop fl test negate ok c p =
     (case range_item fl c p of Inl r \<Rightarrow> r
      | Inr (e, p) \<Rightarrow>
          let ok = (ok \<or> elem_ok test e) in
          (case p of [] \<Rightarrow> RANGE_ERROR
           | c # p \<Rightarrow>
               if c = CHR '']'' then (if ok = negate then RANGE_NOMATCH else RANGE_MATCH p)
               else range_loop fl test negate ok c p))"
  by pat_completeness auto
termination
  by (relation "measure (\<lambda>(_, _, _, _, _, p). length p)") (auto dest!: range_item_shorter)

declare range_loop.simps [simp del]

definition rangematch :: "fnm_flags \<Rightarrow> string \<Rightarrow> char \<Rightarrow> range_result" where
  "rangematch fl p test =
     (let negate = (p \<noteq> [] \<and> (hd p = CHR ''!'' \<or> hd p = CHR ''^'')); p = (if negate then tl p else p) in
      case p of [] \<Rightarrow> RANGE_ERROR | c # p \<Rightarrow> range_loop fl (fold_case fl test) negate False c p)"

text \<open>A period that only a period in the pattern may match.\<close>

definition leading_period :: "fnm_flags \<Rightarrow> char option \<Rightarrow> string \<Rightarrow> bool" where
  "leading_period fl prev s \<longleftrightarrow> s \<noteq> [] \<and> hd s = CHR ''.'' \<and> FNM_PERIOD fl \<and> (prev = None \<or> FNM_PATHNAME fl \<and> prev = Some slash)"

definition same_char :: "fnm_flags \<Rightarrow> char \<Rightarrow> char \<Rightarrow> bool" where
  "same_char fl c d \<longleftrightarrow> c = d \<or> FNM_CASEFOLD fl \<and> tolower c = tolower d"

lemma range_loop_shorter: "range_loop fl test negate ok c p = RANGE_MATCH r \<Longrightarrow> length r < length p"
proof (induction fl test negate ok c p rule: range_loop.induct)
  case (1 fl test negate ok c p)
  show ?case
  proof (cases "range_item fl c p")
    case (Inl r)
    then show ?thesis using 1(2)
      by (subst (asm) range_loop.simps) (auto simp: range_item_def split: option.splits if_splits list.splits)
  next
    case (Inr ep)
    obtain e q where ep: "ep = (e, q)" by fastforce
    show ?thesis
    proof (cases q)
      case Nil
      then show ?thesis using 1(2) Inr ep by (subst (asm) range_loop.simps) simp
    next
      case (Cons d q')
      have "length q' < length p" using range_item_shorter [of fl c p e q] Inr ep Cons by simp
      then show ?thesis
        using 1(1) [OF Inr ep [symmetric] refl Cons] 1(2) Inr ep Cons
        by (subst (asm) range_loop.simps) (auto simp: Let_def split: if_splits)
    qed
  qed
qed

lemma rangematch_shorter: "rangematch fl p test = RANGE_MATCH r \<Longrightarrow> length r < length p"
  by (cases p) (auto simp: rangematch_def Let_def split: list.splits if_splits dest!: range_loop_shorter)

text \<open>
  \<open>fnmatch\<close>, as True for a match (the result 0), and the loop behind a star, which tries the rest of
  the pattern at every position up to the first slash that stands for itself.
\<close>

function fnm :: "fnm_flags \<Rightarrow> char option \<Rightarrow> string \<Rightarrow> string \<Rightarrow> bool"
  and star_loop :: "fnm_flags \<Rightarrow> string \<Rightarrow> string \<Rightarrow> bool" where
  "fnm fl prev p s =
     (case p of
        [] \<Rightarrow> FNM_LEADING_DIR fl \<and> s \<noteq> [] \<and> hd s = slash \<or> s = []
      | c # p \<Rightarrow>
          if c = CHR ''?'' then
            s \<noteq> [] \<and> \<not> (hd s = slash \<and> FNM_PATHNAME fl) \<and> \<not> leading_period fl prev s \<and> fnm fl (Some (hd s)) p (tl s)
          else if c = CHR ''*'' then
            (let p = dropWhile (\<lambda>c. c = CHR ''*'') p in
             if leading_period fl prev s then False
             else if p = [] then (if FNM_PATHNAME fl then FNM_LEADING_DIR fl \<or> slash \<notin> set s else True)
             else if hd p = slash \<and> FNM_PATHNAME fl then
               slash \<in> set s \<and> fnm fl (if hd s = slash then prev else Some (last (takeWhile (\<lambda>c. c \<noteq> slash) s))) p (dropWhile (\<lambda>c. c \<noteq> slash) s)
             else star_loop fl p s)
          else if c = CHR ''['' then
            s \<noteq> [] \<and> \<not> (hd s = slash \<and> FNM_PATHNAME fl) \<and> \<not> leading_period fl prev s \<and>
            (case rangematch fl p (hd s) of
               RANGE_ERROR \<Rightarrow> same_char fl c (hd s) \<and> fnm fl (Some (hd s)) p (tl s)
             | RANGE_MATCH q \<Rightarrow> fnm fl (Some (hd s)) q (tl s)
             | RANGE_NOMATCH \<Rightarrow> False)
          else
            (case (if c = CHR 0x5C \<and> \<not> FNM_NOESCAPE fl then (case p of [] \<Rightarrow> (c, p) | d # q \<Rightarrow> (d, q)) else (c, p)) of
               (c, p) \<Rightarrow> s \<noteq> [] \<and> same_char fl c (hd s) \<and> fnm fl (Some (hd s)) p (tl s)))"
| "star_loop fl p s =
     (case s of [] \<Rightarrow> False
      | test # s' \<Rightarrow>
          fnm (fl\<lparr>FNM_PERIOD := False\<rparr>) None p s \<or> \<not> (test = slash \<and> FNM_PATHNAME fl) \<and> star_loop fl p s')"
  by pat_completeness auto
termination
proof (relation "measures [\<lambda>x. case x of Inl (_, _, p, _) \<Rightarrow> length p | Inr (_, p, _) \<Rightarrow> length p,
    \<lambda>x. case x of Inl _ \<Rightarrow> 0 | Inr (_, _, s) \<Rightarrow> Suc (length s)]", goal_cases)
qed (auto dest: rangematch_shorter split: if_splits list.splits intro: le_less_trans [OF length_dropWhile_le])

definition fnmatch :: "string \<Rightarrow> string \<Rightarrow> fnm_flags \<Rightarrow> bool" where
  "fnmatch pattern s fl = fnm fl None pattern s"

declare fnm.simps [simp del] star_loop.simps [simp del]

section \<open>Reference semantics\<close>

datatype item = Lit char | AnyChar | Star | Class bool "range_elem list" | Never

text \<open>The elements of a bracket expression and what follows it.\<close>

function class_elems :: "fnm_flags \<Rightarrow> char \<Rightarrow> string \<Rightarrow> range_result + range_elem list \<times> string" where
  "class_elems fl c p =
     (case range_item fl c p of Inl r \<Rightarrow> Inl r
      | Inr (e, p) \<Rightarrow>
          (case p of [] \<Rightarrow> Inl RANGE_ERROR
           | d # q \<Rightarrow> if d = CHR '']'' then Inr ([e], q) else (case class_elems fl d q of Inl r \<Rightarrow> Inl r | Inr (es, r) \<Rightarrow> Inr (e # es, r))))"
  by pat_completeness auto
termination by (relation "measure (\<lambda>(_, _, p). length p)") (auto dest!: range_item_shorter)

declare class_elems.simps [simp del]

definition read_class :: "fnm_flags \<Rightarrow> string \<Rightarrow> range_result + bool \<times> range_elem list \<times> string" where
  "read_class fl p =
     (let negate = (p \<noteq> [] \<and> (hd p = CHR ''!'' \<or> hd p = CHR ''^'')); p = (if negate then tl p else p) in
      case p of [] \<Rightarrow> Inl RANGE_ERROR | c # p \<Rightarrow> (case class_elems fl c p of Inl r \<Rightarrow> Inl r | Inr (es, r) \<Rightarrow> Inr (negate, es, r)))"

lemma class_elems_shorter: "class_elems fl c p = Inr (es, q) \<Longrightarrow> length q < length p"
proof (induction fl c p arbitrary: es rule: class_elems.induct)
  case (1 fl c p)
  obtain e r where r: "range_item fl c p = Inr (e, r)" using 1(2)
    by (subst (asm) class_elems.simps) (auto split: sum.splits)
  obtain d r' where r': "r = d # r'" using 1(2) r by (subst (asm) class_elems.simps) (auto split: list.splits)
  have "length r' < length p" using range_item_shorter [OF r] r' by simp
  moreover have "d \<noteq> CHR '']'' \<and> class_elems fl d r' = Inr (tl es, q) \<or> r' = q"
    using 1(2) r r' by (subst (asm) class_elems.simps) (auto split: if_splits sum.splits)
  ultimately show ?case using 1(1) [OF r refl r'] by (metis order.strict_trans)
qed

lemma read_class_shorter: "read_class fl p = Inr (n, es, q) \<Longrightarrow> length q < length p"
  by (cases p)
    (auto simp: read_class_def Let_def split: list.splits if_splits sum.splits
      dest!: class_elems_shorter)

function items :: "fnm_flags \<Rightarrow> string \<Rightarrow> item list" where
  "items fl p =
     (case p of [] \<Rightarrow> []
      | c # p \<Rightarrow>
          if c = CHR ''?'' then AnyChar # items fl p
          else if c = CHR ''*'' then Star # items fl p
          else if c = CHR ''['' then
            (case read_class fl p of
               Inl r \<Rightarrow> if r = RANGE_ERROR then Lit c # items fl p else [Never]
             | Inr (n, es, q) \<Rightarrow> Class n es # items fl q)
          else if c = CHR 0x5C \<and> \<not> FNM_NOESCAPE fl then (case p of [] \<Rightarrow> [Lit c] | d # q \<Rightarrow> Lit d # items fl q)
          else Lit c # items fl p)"
  by pat_completeness auto
termination by (relation "measure (\<lambda>(_, p). length p)") (auto dest!: read_class_shorter)

declare items.simps [simp del]

definition class_ok :: "fnm_flags \<Rightarrow> bool \<Rightarrow> range_elem list \<Rightarrow> char \<Rightarrow> bool" where
  "class_ok fl n es x \<longleftrightarrow> list_ex (elem_ok (fold_case fl x)) es \<noteq> n"

text \<open>Whether a single character fits an item that stands for one.\<close>

fun one_ok :: "fnm_flags \<Rightarrow> item \<Rightarrow> char \<Rightarrow> bool" where
  "one_ok fl (Lit c) x \<longleftrightarrow> same_char fl c x"
| "one_ok fl AnyChar x \<longleftrightarrow> \<not> (x = slash \<and> FNM_PATHNAME fl)"
| "one_ok fl (Class n es) x \<longleftrightarrow> \<not> (x = slash \<and> FNM_PATHNAME fl) \<and> class_ok fl n es x"
| "one_ok fl _ x \<longleftrightarrow> False"

fun matches :: "fnm_flags \<Rightarrow> item list \<Rightarrow> string \<Rightarrow> bool" where
  "matches fl [] s \<longleftrightarrow> s = [] \<or> FNM_LEADING_DIR fl \<and> hd s = slash"
| "matches fl (i # is) s \<longleftrightarrow>
     (if i = Star
      then (\<exists>k\<in>set [0..<Suc (length s)]. (FNM_PATHNAME fl \<longrightarrow> slash \<notin> set (take k s)) \<and> matches fl is (drop k s))
      else s \<noteq> [] \<and> one_ok fl i (hd s) \<and> matches fl is (tl s))"

lemma range_loop_elems:
  "range_loop fl test n ok c p =
     (case class_elems fl c p of Inl r \<Rightarrow> r
      | Inr (es, q) \<Rightarrow> if (ok \<or> list_ex (elem_ok test) es) = n then RANGE_NOMATCH else RANGE_MATCH q)"
proof (induction fl c p arbitrary: ok rule: class_elems.induct)
  case (1 fl c p)
  show ?case
  proof (cases "range_item fl c p")
    case (Inl r)
    then show ?thesis by (simp add: range_loop.simps class_elems.simps)
  next
    case (Inr ep)
    obtain e q where ep: "ep = (e, q)" by fastforce
    show ?thesis
    proof (cases q)
      case Nil
      then show ?thesis using Inr ep by (simp add: range_loop.simps class_elems.simps)
    next
      case (Cons d r)
      show ?thesis
      proof (cases "d = CHR '']''")
        case True
        then show ?thesis using Inr ep Cons by (subst range_loop.simps, subst class_elems.simps) simp
      next
        case False
        then show ?thesis using Inr ep Cons 1 [OF Inr ep [symmetric] Cons False]
          by (subst range_loop.simps, subst class_elems.simps) (auto simp: Let_def split: sum.splits)
      qed
    qed
  qed
qed

lemma rangematch_class:
  "rangematch fl p x =
     (case read_class fl p of Inl r \<Rightarrow> r
      | Inr (n, es, q) \<Rightarrow> if class_ok fl n es x then RANGE_MATCH q else RANGE_NOMATCH)"
  by (auto simp: rangematch_def read_class_def Let_def range_loop_elems class_ok_def split: list.splits sum.splits)

lemma class_elems_error: "class_elems fl c p = Inl r \<Longrightarrow> r = RANGE_ERROR \<or> r = RANGE_NOMATCH"
proof (induction fl c p rule: class_elems.induct)
  case (1 fl c p)
  have "range_item fl c p = Inl r \<or> r = RANGE_ERROR \<or> (\<exists>e d q. range_item fl c p = Inr (e, d # q) \<and> d \<noteq> CHR '']'' \<and> class_elems fl d q = Inl r)"
    using 1(2) by (subst (asm) class_elems.simps) (auto split: sum.splits list.splits if_splits)
  moreover have "r = RANGE_ERROR \<or> r = RANGE_NOMATCH" if "range_item fl c p = Inl r"
    using that by (auto simp: range_item_def split: list.splits if_splits option.splits)
  ultimately show ?case using 1(1) by blast
qed

lemma read_class_error: "read_class fl p = Inl r \<Longrightarrow> r = RANGE_ERROR \<or> r = RANGE_NOMATCH"
  by (auto simp: read_class_def Let_def split: list.splits sum.splits if_splits dest: class_elems_error)

section \<open>Equivalence\<close>

lemma matches_Star:
  "matches fl (Star # is) s \<longleftrightarrow> (\<exists>u v. s = u @ v \<and> (FNM_PATHNAME fl \<longrightarrow> slash \<notin> set u) \<and> matches fl is v)"
proof
  assume "matches fl (Star # is) s"
  then obtain k where "FNM_PATHNAME fl \<longrightarrow> slash \<notin> set (take k s)" "matches fl is (drop k s)"
    by (auto simp del: upt_Suc)
  then show "\<exists>u v. s = u @ v \<and> (FNM_PATHNAME fl \<longrightarrow> slash \<notin> set u) \<and> matches fl is v" by (metis append_take_drop_id)
next
  assume "\<exists>u v. s = u @ v \<and> (FNM_PATHNAME fl \<longrightarrow> slash \<notin> set u) \<and> matches fl is v"
  then obtain u v where "s = u @ v" "FNM_PATHNAME fl \<longrightarrow> slash \<notin> set u" "matches fl is v" by blast
  moreover from this have "length u \<in> set [0..<Suc (length s)]" by simp
  ultimately show "matches fl (Star # is) s" by (simp only: matches.simps refl if_True) (rule bexI [of _ "length u"], simp_all)
qed

lemmas matches_one = matches.simps(2) [where i = "Lit c" for c] matches.simps(2) [where i = AnyChar]
  matches.simps(2) [where i = "Class n es" for n es] matches.simps(2) [where i = Never]

declare matches.simps(2) [simp del]
declare matches_one [simp]

lemma star_star: "matches fl (Star # Star # is) s = matches fl (Star # is) s"
proof
  assume "matches fl (Star # Star # is) s"
  then obtain u v x where "s = u @ v @ x" "FNM_PATHNAME fl \<longrightarrow> slash \<notin> set u" "FNM_PATHNAME fl \<longrightarrow> slash \<notin> set v" "matches fl is x"
    unfolding matches_Star by blast
  then show "matches fl (Star # is) s" unfolding matches_Star by (intro exI [of _ "u @ v"] exI [of _ x]) simp
next
  assume "matches fl (Star # is) s"
  then show "matches fl (Star # Star # is) s" unfolding matches_Star [of _ "Star # is"] by (intro exI [of _ "[]"] exI [of _ s]) simp
qed

lemma items_star [simp]: "items fl (CHR ''*'' # p) = Star # items fl p"
  by (simp add: items.simps)

lemma items_drop_stars: "matches fl (Star # items fl p) s = matches fl (Star # items fl (dropWhile (\<lambda>c. c = CHR ''*'') p)) s"
  by (induction p) (auto simp: star_star simp del: matches.simps)

lemma items_consume:
  assumes "p \<noteq> []" "hd p \<noteq> CHR ''*''"
  shows "\<exists>i is. items fl p = i # is \<and> i \<noteq> Star"
  using assms by (cases p) (auto simp: items.simps [of fl "_ # _"] split: sum.splits list.splits)

lemma star_step:
  assumes "is \<noteq> []" "hd is \<noteq> Star"
  shows "matches fl (Star # is) s \<longleftrightarrow>
    s \<noteq> [] \<and> (matches fl is s \<or> \<not> (hd s = slash \<and> FNM_PATHNAME fl) \<and> matches fl (Star # is) (tl s))"
proof (cases s)
  case Nil
  then show ?thesis using assms by (cases "is") (auto simp: matches_Star matches.simps(2))
next
  case (Cons x xs)
  have "(\<exists>u v. x # xs = u @ v \<and> P u v) \<longleftrightarrow> P [] (x # xs) \<or> (\<exists>u v. xs = u @ v \<and> P (x # u) v)" for P
    by (metis Cons_eq_append_conv append_Cons append_Nil)
  then show ?thesis unfolding Cons matches_Star by auto
qed

text \<open>The routine on the forms of a pattern.\<close>

lemma fnm_Nil: "fnm fl prev [] s \<longleftrightarrow> s = [] \<or> FNM_LEADING_DIR fl \<and> hd s = slash"
  by (subst fnm.simps) auto

lemma fnm_any:
  "fnm fl prev (CHR ''?'' # p) s \<longleftrightarrow>
     s \<noteq> [] \<and> \<not> (hd s = slash \<and> FNM_PATHNAME fl) \<and> \<not> leading_period fl prev s \<and> fnm fl (Some (hd s)) p (tl s)"
  by (subst fnm.simps) simp

lemma fnm_class:
  "fnm fl prev (CHR ''['' # p) s \<longleftrightarrow> s \<noteq> [] \<and> \<not> (hd s = slash \<and> FNM_PATHNAME fl) \<and> \<not> leading_period fl prev s \<and>
     (case read_class fl p of
        Inl r \<Rightarrow> r = RANGE_ERROR \<and> same_char fl (CHR ''['') (hd s) \<and> fnm fl (Some (hd s)) p (tl s)
      | Inr (n, es, q) \<Rightarrow> class_ok fl n es (hd s) \<and> fnm fl (Some (hd s)) q (tl s))"
  by (subst fnm.simps) (auto simp: rangematch_class split: sum.splits dest: read_class_error)

text \<open>The literal at the start of a pattern and what follows it.\<close>

definition literal :: "fnm_flags \<Rightarrow> char \<Rightarrow> string \<Rightarrow> char \<times> string" where
  "literal fl c p = (if c = CHR 0x5C \<and> \<not> FNM_NOESCAPE fl then (case p of [] \<Rightarrow> (c, p) | d # q \<Rightarrow> (d, q)) else (c, p))"

lemma literal_shorter: "length (snd (literal fl c p)) \<le> length p"
  by (auto simp: literal_def split: list.splits)

lemma fnm_literal:
  assumes "c \<notin> {CHR ''?'', CHR ''*'', CHR ''[''}"
  shows "fnm fl prev (c # p) s \<longleftrightarrow> s \<noteq> [] \<and> same_char fl (fst (literal fl c p)) (hd s) \<and> fnm fl (Some (hd s)) (snd (literal fl c p)) (tl s)"
  using assms by (subst fnm.simps) (auto simp: literal_def split: list.splits)

lemma items_literal:
  assumes "c \<notin> {CHR ''?'', CHR ''*'', CHR ''[''}"
  shows "items fl (c # p) = Lit (fst (literal fl c p)) # items fl (snd (literal fl c p))"
  using assms by (subst items.simps) (auto simp: literal_def items.simps [of fl "[]"] split: list.splits)

lemma items_class:
  "items fl (CHR ''['' # p) =
     (case read_class fl p of
        Inl r \<Rightarrow> if r = RANGE_ERROR then Lit (CHR ''['') # items fl p else [Never]
      | Inr (n, es, q) \<Rightarrow> Class n es # items fl q)"
  by (subst items.simps) simp

lemma fnm_star:
  "fnm fl prev (CHR ''*'' # p) s \<longleftrightarrow> \<not> leading_period fl prev s \<and>
     (let p = dropWhile (\<lambda>c. c = CHR ''*'') p in
      if p = [] then (FNM_PATHNAME fl \<longrightarrow> FNM_LEADING_DIR fl \<or> slash \<notin> set s)
      else if hd p = slash \<and> FNM_PATHNAME fl then
        slash \<in> set s \<and> fnm fl (if hd s = slash then prev else Some (last (takeWhile (\<lambda>c. c \<noteq> slash) s))) p (dropWhile (\<lambda>c. c \<noteq> slash) s)
      else star_loop fl p s)"
  by (subst fnm.simps) (auto simp: Let_def)

text \<open>Without the rule for leading periods the routine decides the reference semantics.\<close>

lemma star_loop_matches:
  assumes "\<And>s. fnm fl None p s = matches fl (items fl p) s" "\<not> FNM_PERIOD fl" "p \<noteq> []" "hd p \<noteq> CHR ''*''"
  shows "star_loop fl p s = matches fl (Star # items fl p) s"
proof -
  obtain i "is" where i: "items fl p = i # is" "i \<noteq> Star" using items_consume [OF assms(3,4)] by blast
  have same: "fl\<lparr>FNM_PERIOD := False\<rparr> = fl" using assms(2) by (intro fnm_flags.equality) simp_all
  show ?thesis
    by (induction s) (subst star_loop.simps, subst star_step, simp_all add: i same assms(1) [unfolded i])+
qed

lemma same_char_slash: "same_char fl slash c \<longleftrightarrow> c = slash" "same_char fl c slash \<longleftrightarrow> c = slash"
proof -
  have "tolower c \<noteq> slash" if "c \<noteq> slash"
  proof (cases "65 \<le> (of_char c :: nat) \<and> (of_char c :: nat) \<le> 90")
    case True
    then have "of_char (tolower c) = (of_char c + 32 :: nat)" by (simp add: tolower_def Let_def)
    then show ?thesis using True by auto
  next
    case False
    then show ?thesis using that by (auto simp: tolower_def Let_def)
  qed
  moreover have "tolower slash = slash" by (simp add: tolower_def)
  ultimately show "same_char fl slash c \<longleftrightarrow> c = slash" "same_char fl c slash \<longleftrightarrow> c = slash" unfolding same_char_def by metis+
qed

lemma hd_to_slash: "slash \<in> set s \<Longrightarrow> hd (dropWhile (\<lambda>c. c \<noteq> slash) s) = slash"
  by (induction s) auto

lemma last_star:
  "matches fl [Star] s \<longleftrightarrow> (FNM_PATHNAME fl \<longrightarrow> FNM_LEADING_DIR fl \<or> slash \<notin> set s)"
proof -
  have "\<exists>u v. s = u @ v \<and> slash \<notin> set u \<and> (v = [] \<or> hd v = slash)"
    by (rule exI [of _ "takeWhile (\<lambda>c. c \<noteq> slash) s"], rule exI [of _ "dropWhile (\<lambda>c. c \<noteq> slash) s"])
      (auto dest: set_takeWhileD simp: hd_to_slash)
  then show ?thesis unfolding matches_Star by auto
qed

text \<open>A star before a slash stands for everything up to the first slash.\<close>

lemma star_slash:
  assumes "FNM_PATHNAME fl"
  shows "matches fl (Star # Lit slash # is) s \<longleftrightarrow> slash \<in> set s \<and> matches fl (Lit slash # is) (dropWhile (\<lambda>c. c \<noteq> slash) s)"
proof
  assume "matches fl (Star # Lit slash # is) s"
  then obtain u v where s: "s = u @ slash # v" "slash \<notin> set u" "matches fl is v"
    using assms by (auto simp: matches_Star same_char_slash neq_Nil_conv)
  have "\<forall>x\<in>set u. x \<noteq> slash" using s(2) by blast
  then have "dropWhile (\<lambda>c. c \<noteq> slash) s = slash # v" by (simp add: s(1) dropWhile_append3)
  then show "slash \<in> set s \<and> matches fl (Lit slash # is) (dropWhile (\<lambda>c. c \<noteq> slash) s)" using s by (simp add: same_char_slash)
next
  assume "slash \<in> set s \<and> matches fl (Lit slash # is) (dropWhile (\<lambda>c. c \<noteq> slash) s)"
  then show "matches fl (Star # Lit slash # is) s" unfolding matches_Star
    by - (rule exI [of _ "takeWhile (\<lambda>c. c \<noteq> slash) s"], rule exI [of _ "dropWhile (\<lambda>c. c \<noteq> slash) s"], auto dest: set_takeWhileD)
qed

lemma fnm_matches: "\<not> FNM_PERIOD fl \<Longrightarrow> fnm fl prev p s = matches fl (items fl p) s"
proof (induction "length p" arbitrary: p prev s rule: less_induct)
  case less
  have np: "\<not> leading_period fl prev s" for prev s using less.prems by (simp add: leading_period_def)
  have IH: "fnm fl prev q s = matches fl (items fl q) s" if "length q < length p" for q prev s using less.hyps [OF that less.prems] .
  show ?case
  proof (cases p)
    case Nil
    then show ?thesis by (simp add: fnm_Nil items.simps)
  next
    case (Cons c q)
    then have q: "length q < length p" by simp
    consider (any) "c = CHR ''?''" | (star) "c = CHR ''*''" | (cls) "c = CHR ''[''" | (lit) "c \<notin> {CHR ''?'', CHR ''*'', CHR ''[''}" by blast
    then show ?thesis
    proof cases
      case any
      then have "items fl p = AnyChar # items fl q" using Cons by (simp add: items.simps [of fl "_ # _"])
      then show ?thesis using any Cons IH [OF q] np by (simp add: fnm_any)
    next
      case star
      define r where r_def: "r = dropWhile (\<lambda>c. c = CHR ''*'') q"
      have r: "length r < length p" unfolding r_def by (rule le_less_trans [OF length_dropWhile_le q])
      have st: "fnm fl prev p s \<longleftrightarrow>
          (if r = [] then (FNM_PATHNAME fl \<longrightarrow> FNM_LEADING_DIR fl \<or> slash \<notin> set s)
           else if hd r = slash \<and> FNM_PATHNAME fl then slash \<in> set s \<and> matches fl (items fl r) (dropWhile (\<lambda>c. c \<noteq> slash) s)
           else star_loop fl r s)"
        unfolding Cons star fnm_star Let_def r_def [symmetric] IH [OF r] using np by simp
      have "fnm fl prev p s \<longleftrightarrow> matches fl (Star # items fl r) s"
      proof (cases r)
        case Nil
        then show ?thesis using st by (simp add: last_star items.simps [of fl "[]"])
      next
        case (Cons d r')
        have h: "d \<noteq> CHR ''*''" using hd_dropWhile [of "\<lambda>c. c = CHR ''*''" q] Cons by (simp flip: r_def)
        show ?thesis
        proof (cases "d = slash \<and> FNM_PATHNAME fl")
          case True
          then have "items fl r = Lit slash # items fl r'" using Cons items_literal [of slash fl r'] by (simp add: literal_def)
          then show ?thesis using st True Cons by (simp add: star_slash)
        next
          case False
          have "star_loop fl r s = matches fl (Star # items fl r) s"
            using IH [OF r] less.prems h Cons by (intro star_loop_matches) auto
          then show ?thesis using st False Cons by auto
        qed
      qed
      then show ?thesis using star Cons items_drop_stars [of fl q s] by (simp add: r_def)
    next
      case cls
      show ?thesis
      proof (cases "read_class fl q")
        case (Inl r)
        then show ?thesis using cls Cons IH [OF q] np read_class_error [OF Inl] less.prems
          by (auto simp: fnm_class items_class same_char_slash)
      next
        case (Inr x)
        obtain n es r where x: "x = (n, es, r)" by (metis surj_pair)
        have "length r < length p" using read_class_shorter [of fl q n es r] Inr x q by simp
        then show ?thesis using cls Cons IH Inr x np by (simp add: fnm_class items_class)
      qed
    next
      case lit
      have "length (snd (literal fl c q)) < length p" using literal_shorter [of fl c q] q by simp
      then show ?thesis using Cons IH by (simp add: fnm_literal [OF lit] items_literal [OF lit])
    qed
  qed
qed

section \<open>Properties\<close>

text \<open>C22. Without the rule for leading periods, \<open>fnmatch\<close> with its collapsed stars, its special cases
  for a final star and a star before a slash and its single pass over bracket expressions decides
  exactly the reference semantics: the pattern as a list of items, a star standing for any stretch
  (without slashes when they are special).\<close>

theorem fnmatch_correct:
  assumes "\<not> FNM_PERIOD fl"
  shows "fnmatch pattern s fl \<longleftrightarrow> matches fl (items fl pattern) s"
  using fnm_matches [OF assms] by (simp add: fnmatch_def)

definition no_flags :: fnm_flags where
  "no_flags = \<lparr>FNM_NOESCAPE = False, FNM_PATHNAME = False, FNM_PERIOD = False, FNM_LEADING_DIR = False, FNM_CASEFOLD = False\<rparr>"

theorem fnmatch_correct_witness:
  "fnmatch ''a*[!x-z]?'' ''abcd'' no_flags \<longleftrightarrow> matches no_flags (items no_flags ''a*[!x-z]?'') ''abcd''"
  by (rule fnmatch_correct) (simp add: no_flags_def)

text \<open>The rule for leading periods plays no part in reading a pattern.\<close>

lemma period_irrelevant [simp]:
  "bracket_char (fl\<lparr>FNM_PERIOD := b\<rparr>) = bracket_char fl" "fold_case (fl\<lparr>FNM_PERIOD := b\<rparr>) = fold_case fl"
  "same_char (fl\<lparr>FNM_PERIOD := b\<rparr>) = same_char fl" "literal (fl\<lparr>FNM_PERIOD := b\<rparr>) = literal fl"
  "class_ok (fl\<lparr>FNM_PERIOD := b\<rparr>) = class_ok fl"
  by (simp_all add: fun_eq_iff bracket_char_def fold_case_def same_char_def literal_def class_ok_def)

lemma range_item_period [simp]: "range_item (fl\<lparr>FNM_PERIOD := b\<rparr>) c p = range_item fl c p"
  by (simp add: range_item_def cong: option.case_cong list.case_cong if_cong)

lemma class_elems_period [simp]: "class_elems (fl\<lparr>FNM_PERIOD := b\<rparr>) c p = class_elems fl c p"
proof (induction fl c p rule: class_elems.induct)
  case (1 fl c p)
  then show ?case
    by (subst (1 2) class_elems.simps) (auto split: sum.split list.split)
qed

lemma read_class_period [simp]: "read_class (fl\<lparr>FNM_PERIOD := b\<rparr>) p = read_class fl p"
  by (simp add: read_class_def Let_def cong: list.case_cong)

lemma star_loop_period [simp]: "star_loop (fl\<lparr>FNM_PERIOD := False\<rparr>) p s = star_loop fl p s"
  by (induction s) (subst (1 2) star_loop.simps, simp)+

text \<open>The rule only removes matches.\<close>

lemma period_restricts: "fnm fl prev p s \<Longrightarrow> fnm (fl\<lparr>FNM_PERIOD := False\<rparr>) prev' p s"
proof (induction "length p" arbitrary: p prev prev' s rule: less_induct)
  case less
  let ?fl = "fl\<lparr>FNM_PERIOD := False\<rparr>"
  have np: "\<not> leading_period ?fl prev s" for prev s by (simp add: leading_period_def)
  show ?case
  proof (cases p)
    case Nil
    then show ?thesis using less.prems by (simp add: fnm_Nil)
  next
    case (Cons c q)
    then have q: "length q < length p" by simp
    consider (any) "c = CHR ''?''" | (star) "c = CHR ''*''" | (cls) "c = CHR ''[''" | (lit) "c \<notin> {CHR ''?'', CHR ''*'', CHR ''[''}" by blast
    then show ?thesis
    proof cases
      case any
      then show ?thesis using less.prems less.hyps [OF q] np unfolding Cons any fnm_any by auto
    next
      case star
      let ?r = "dropWhile (\<lambda>c. c = CHR ''*'') q"
      have r: "length ?r < length p" by (rule le_less_trans [OF length_dropWhile_le q])
      show ?thesis using less.prems less.hyps [OF r] np unfolding Cons star fnm_star Let_def
        by (auto simp del: dropWhile_eq_Nil_conv split: if_splits)
    next
      case cls
      show ?thesis
      proof (cases "read_class fl q")
        case (Inl e)
        then show ?thesis using less.prems less.hyps [OF q] np unfolding Cons cls fnm_class by auto
      next
        case (Inr x)
        obtain n es r where x: "x = (n, es, r)" by (metis surj_pair)
        have "length r < length p" using read_class_shorter [of fl q n es r] Inr x q by simp
        from less.hyps [OF this] show ?thesis using less.prems np Inr x unfolding Cons cls fnm_class by auto
      qed
    next
      case lit
      have "length (snd (literal fl c q)) < length p" using literal_shorter [of fl c q] q by simp
      from less.hyps [OF this] show ?thesis using less.prems unfolding Cons fnm_literal [OF lit] by auto
    qed
  qed
qed

text \<open>With the rule for leading periods, a match is a match of the reference semantics, and a
  string that starts with a period is matched only by a pattern that starts with a literal period.\<close>

theorem fnmatch_period_sound:
  assumes "fnmatch pattern s fl"
  shows "matches (fl\<lparr>FNM_PERIOD := False\<rparr>) (items (fl\<lparr>FNM_PERIOD := False\<rparr>) pattern) s \<and>
    (FNM_PERIOD fl \<and> s \<noteq> [] \<and> hd s = CHR ''.'' \<longrightarrow> (\<exists>c is. items fl pattern = Lit c # is \<and> same_char fl c (CHR ''.'')))"
proof (intro conjI impI)
  show "matches (fl\<lparr>FNM_PERIOD := False\<rparr>) (items (fl\<lparr>FNM_PERIOD := False\<rparr>) pattern) s"
    using assms period_restricts [of fl None pattern s None] fnm_matches [of "fl\<lparr>FNM_PERIOD := False\<rparr>" None pattern s]
    by (simp add: fnmatch_def)
next
  assume "FNM_PERIOD fl \<and> s \<noteq> [] \<and> hd s = CHR ''.''"
  then have lp: "leading_period fl None s" and s: "s \<noteq> []" "hd s = CHR ''.''" by (simp_all add: leading_period_def)
  have f: "fnm fl None pattern s" using assms by (simp add: fnmatch_def)
  have "pattern \<noteq> []" using f s by (auto simp: fnm_Nil)
  then obtain c p where p: "pattern = c # p" by (cases pattern) auto
  have c: "c \<notin> {CHR ''?'', CHR ''*'', CHR ''[''}" using f lp unfolding p by (auto simp: fnm_any fnm_star fnm_class)
  then show "\<exists>c is. items fl pattern = Lit c # is \<and> same_char fl c (CHR ''.'')"
    using f s unfolding p by (auto simp: fnm_literal items_literal)
qed

definition glob_flags :: fnm_flags where
  "glob_flags = no_flags\<lparr>FNM_PATHNAME := True, FNM_PERIOD := True\<rparr>"

theorem fnmatch_period_sound_witness:
  "fnmatch ''.b?'' ''.bc'' glob_flags \<and> (\<exists>c is. items glob_flags ''.b?'' = Lit c # is \<and> same_char glob_flags c (CHR ''.''))"
proof -
  have "fnmatch ''.b?'' ''.bc'' glob_flags" by code_simp
  from this fnmatch_period_sound [OF this] show ?thesis by (simp add: glob_flags_def)
qed

text \<open>The rule for leading periods is given up behind the first star: with \<open>FNM_PATHNAME\<close> and
  \<open>FNM_PERIOD\<close> set, as the extraction of groups of files sets them, a hidden file in a directory is
  matched by a star that must not match it.\<close>

theorem fnmatch_period_gap:
  "fnmatch ''a*b/*'' ''ab/.x'' glob_flags \<and> \<not> fnmatch ''ab/*'' ''ab/.x'' glob_flags"
  by code_simp

end
