(* ===== verification/Compat_Snprintf.thy ===== *)
theory Compat_Snprintf
  imports Prelude
begin

text \<open>
  \<open>compat/snprintf.c\<close>: formatted output into a bounded buffer. The format is a character array with its
  terminator, and the arguments a list; reading behind the format or an argument of another type is
  undefined (\<open>None\<close>). The floating point arithmetic of \<open>fmtfp\<close> is a parameter, what it does with the two integers it
  computes is modelled. The loop of \<open>dopr\<close> is a total function: every turn consumes a character or moves on
  in the order of the states. Widths and precisions are integers without a bound, where the code has \<open>int\<close>.
\<close>

section \<open>Output\<close>

record pbuf =
  p_buf :: "char list"
  p_len :: nat

definition dopr_outch :: "nat \<Rightarrow> char \<Rightarrow> pbuf \<Rightarrow> pbuf option" where
  "dopr_outch maxlen c b =
     (if p_len b < maxlen
      then map_option (\<lambda>buf. b\<lparr>p_buf := buf, p_len := p_len b + 1\<rparr>) (poke (p_buf b) (p_len b) c)
      else Some b)"

fun outs :: "nat \<Rightarrow> string \<Rightarrow> pbuf \<Rightarrow> pbuf option" where
  "outs maxlen [] b = Some b"
| "outs maxlen (c # cs) b = do {b \<leftarrow> dopr_outch maxlen c b; outs maxlen cs b}"

record dp_flags =
  f_minus :: bool
  f_plus :: bool
  f_space :: bool
  f_num :: bool
  f_zero :: bool
  f_up :: bool
  f_unsigned :: bool

definition no_dp_flags :: dp_flags where
  "no_dp_flags = \<lparr>f_minus = False, f_plus = False, f_space = False, f_num = False, f_zero = False, f_up = False, f_unsigned = False\<rparr>"

section \<open>Strings\<close>

text \<open>The loops of \<open>fmtstr\<close>, with the count of characters they share.\<close>

fun pad_loop :: "nat \<Rightarrow> nat \<Rightarrow> int \<Rightarrow> int \<Rightarrow> pbuf \<Rightarrow> (int \<times> pbuf) option" where
  "pad_loop maxlen 0 cnt mx b = Some (cnt, b)"
| "pad_loop maxlen (Suc n) cnt mx b =
     (if cnt < mx then do {b \<leftarrow> dopr_outch maxlen CHR '' '' b; pad_loop maxlen n (cnt + 1) mx b} else Some (cnt, b))"

fun copy_loop :: "nat \<Rightarrow> string \<Rightarrow> int \<Rightarrow> int \<Rightarrow> pbuf \<Rightarrow> (int \<times> pbuf) option" where
  "copy_loop maxlen [] cnt mx b = Some (cnt, b)"
| "copy_loop maxlen (c # s) cnt mx b =
     (if cnt < mx then do {b \<leftarrow> dopr_outch maxlen c b; copy_loop maxlen s (cnt + 1) mx b} else Some (cnt, b))"

definition fmtstr :: "nat \<Rightarrow> string option \<Rightarrow> dp_flags \<Rightarrow> int \<Rightarrow> int \<Rightarrow> pbuf \<Rightarrow> pbuf option" where
  "fmtstr maxlen str fl mn mx b =
     (let val = (case str of None \<Rightarrow> ''<NULL>'' | Some v \<Rightarrow> v);
          padlen = nat (mn - int (length val))
      in do {
        (cnt, b) \<leftarrow> pad_loop maxlen (if f_minus fl then 0 else padlen) 0 mx b;
        (cnt, b) \<leftarrow> copy_loop maxlen val cnt mx b;
        (cnt, b) \<leftarrow> pad_loop maxlen (if f_minus fl then padlen else 0) cnt mx b;
        Some b})"

section \<open>Integers\<close>

definition digit :: "bool \<Rightarrow> nat \<Rightarrow> char" where
  "digit caps d = (if caps then ''0123456789ABCDEF'' else ''0123456789abcdef'') ! d"

text \<open>The digits from the last, at most twenty.\<close>

function convert_loop :: "bool \<Rightarrow> nat \<Rightarrow> nat \<Rightarrow> char list \<Rightarrow> char list" where
  "convert_loop caps base uvalue convert =
     (let convert = convert @ [digit caps (uvalue mod base)]; uvalue = uvalue div base in
      if uvalue \<noteq> 0 \<and> length convert < 20 then convert_loop caps base uvalue convert else convert)"
  by pat_completeness auto
termination
  by (relation "measure (\<lambda>(_, _, _, convert). 20 - length convert)") auto

declare convert_loop.simps [simp del]

text \<open>The last cell of the array is needed for a terminator.\<close>

definition converted :: "bool \<Rightarrow> nat \<Rightarrow> nat \<Rightarrow> char list" where
  "converted caps base uvalue =
     (let convert = convert_loop caps base uvalue [] in if length convert = 20 then butlast convert else convert)"

definition fmtint :: "nat \<Rightarrow> u64 \<Rightarrow> nat \<Rightarrow> int \<Rightarrow> int \<Rightarrow> dp_flags \<Rightarrow> pbuf \<Rightarrow> pbuf option" where
  "fmtint maxlen val base mn mx fl b =
     (let mx = (if mx < 0 then 0 else mx);
          neg = (\<not> f_unsigned fl \<and> sint val < 0);
          uvalue = (if neg then - val else val);
          sign = (if f_unsigned fl then [] else if neg then ''-'' else if f_plus fl then ''+'' else if f_space fl then '' '' else []);
          convert = converted (f_up fl) base (unat uvalue);
          place = int (length convert);
          zpadlen = nat (mx - place);
          spadlen = nat (mn - (if mx \<ge> place then mx else place) - int (length sign));
          (zpadlen, spadlen) = (if f_zero fl then (if zpadlen \<ge> spadlen then zpadlen else spadlen, 0) else (zpadlen, spadlen))
      in do {
        b \<leftarrow> outs maxlen (replicate (if f_minus fl then 0 else spadlen) CHR '' '') b;
        b \<leftarrow> outs maxlen sign b;
        b \<leftarrow> outs maxlen (replicate zpadlen CHR ''0'') b;
        b \<leftarrow> outs maxlen (rev convert) b;
        outs maxlen (replicate (if f_minus fl then spadlen else 0) CHR '' '') b})"

section \<open>Floating point\<close>

text \<open>\<open>parts\<close> is whether the number is negative, its integer part, and the fraction in units of the last of \<open>mx\<close> decimals.\<close>

definition fmtfp :: "(nat \<Rightarrow> bool \<times> nat \<times> nat) \<Rightarrow> nat \<Rightarrow> int \<Rightarrow> int \<Rightarrow> dp_flags \<Rightarrow> pbuf \<Rightarrow> pbuf option" where
  "fmtfp parts maxlen mn mx fl b =
     (let mx = (if mx < 0 then 6 else if mx > 9 then 9 else mx);
          (neg, intpart, fracpart) = parts (nat mx);
          sign = (if neg then ''-'' else if f_plus fl then ''+'' else if f_space fl then '' '' else []);
          iconvert = converted False 10 intpart;
          fconvert = converted False 10 fracpart;
          padlen = nat (mn - int (length iconvert) - mx - 1 - int (length sign));
          zpadlen = nat (mx - int (length fconvert));
          zeros = (f_zero fl \<and> \<not> f_minus fl \<and> padlen > 0)
      in do {
        b \<leftarrow> (if zeros then do {b \<leftarrow> outs maxlen sign b; outs maxlen (replicate (padlen - length sign) CHR ''0'') b} else Some b);
        b \<leftarrow> outs maxlen (replicate (if zeros \<or> f_minus fl then 0 else padlen) CHR '' '') b;
        b \<leftarrow> outs maxlen (if zeros then [] else sign) b;
        b \<leftarrow> outs maxlen (rev iconvert) b;
        b \<leftarrow> outs maxlen ''.'' b;
        b \<leftarrow> outs maxlen (rev fconvert) b;
        b \<leftarrow> outs maxlen (replicate zpadlen CHR ''0'') b;
        outs maxlen (replicate (if f_minus fl then padlen else 0) CHR '' '') b})"

section \<open>The format\<close>

datatype dp_state = DP_S_DEFAULT | DP_S_FLAGS | DP_S_MIN | DP_S_DOT | DP_S_MAX | DP_S_MOD | DP_S_CONV | DP_S_DONE
datatype dp_cflags = DP_C_NONE | DP_C_SHORT | DP_C_LONG | DP_C_LDOUBLE

text \<open>Arguments; a number is the contents of its register. A floating point number is given by its parts.\<close>

datatype va = VaNum u64 | VaStr "string option" | VaFp "nat \<Rightarrow> bool \<times> nat \<times> nat" | VaPtr addr

record dp =
  dp_state :: dp_state
  dp_ch :: char
  dp_format :: "char list"
  dp_args :: "va list"
  dp_fl :: dp_flags
  dp_cfl :: dp_cflags
  dp_min :: int
  dp_max :: int
  dp_out :: pbuf
  dp_stored :: "(addr \<times> nat) list"

definition next_ch :: "dp \<Rightarrow> dp option" where
  "next_ch s = (case dp_format s of [] \<Rightarrow> None | c # f \<Rightarrow> Some (s\<lparr>dp_ch := c, dp_format := f\<rparr>))"

fun va_num :: "va list \<Rightarrow> (u64 \<times> va list) option" where
  "va_num (VaNum n # as) = Some (n, as)"
| "va_num as = None"

text \<open>What \<open>va_arg\<close> makes of a register: an \<open>int\<close> is extended with its sign, an \<open>unsigned int\<close> with zeros.\<close>

definition va_signed :: "dp_cflags \<Rightarrow> u64 \<Rightarrow> u64" where
  "va_signed cfl n = (if cfl = DP_C_LONG then n else scast (ucast n :: u32))"

definition va_unsigned :: "dp_cflags \<Rightarrow> u64 \<Rightarrow> u64" where
  "va_unsigned cfl n = (if cfl = DP_C_LONG then n else ucast (ucast n :: u32))"

definition va_int :: "dp \<Rightarrow> (int \<times> dp) option" where
  "va_int s = map_option (\<lambda>(n, as). (sint (ucast n :: u32), s\<lparr>dp_args := as\<rparr>)) (va_num (dp_args s))"

definition conv_int :: "nat \<Rightarrow> dp_flags \<Rightarrow> bool \<Rightarrow> nat \<Rightarrow> dp \<Rightarrow> dp option" where
  "conv_int maxlen fl uns base s =
     do {(n, as) \<leftarrow> va_num (dp_args s);
         let val = (if uns then va_unsigned (dp_cfl s) n else va_signed (dp_cfl s) n);
         out \<leftarrow> fmtint maxlen val base (dp_min s) (dp_max s) (fl\<lparr>f_unsigned := uns\<rparr>) (dp_out s);
         Some (s\<lparr>dp_args := as, dp_out := out\<rparr>)}"

definition conv_char :: "nat \<Rightarrow> dp \<Rightarrow> dp option" where
  "conv_char maxlen s =
     (let fl = dp_fl s; ch = dp_ch s in
      if ch = CHR ''d'' \<or> ch = CHR ''i'' then conv_int maxlen fl False 10 s
      else if ch = CHR ''o'' then conv_int maxlen fl True 8 s
      else if ch = CHR ''u'' then conv_int maxlen fl True 10 s
      else if ch = CHR ''X'' then conv_int maxlen (fl\<lparr>f_up := True\<rparr>) True 16 s
      else if ch = CHR ''x'' then conv_int maxlen fl True 16 s
      else if ch \<in> set ''fEeGg'' then
        (case dp_args s of
           VaFp parts # as \<Rightarrow>
             do {out \<leftarrow> (if ch = CHR ''f'' then fmtfp parts maxlen (dp_min s) (dp_max s) fl (dp_out s) else Some (dp_out s));
                 Some (s\<lparr>dp_args := as, dp_out := out\<rparr>)}
         | _ \<Rightarrow> None)
      else if ch = CHR ''c'' then
        do {(n, as) \<leftarrow> va_num (dp_args s);
            out \<leftarrow> dopr_outch maxlen (char_of (unat n)) (dp_out s);
            Some (s\<lparr>dp_args := as, dp_out := out\<rparr>)}
      else if ch = CHR ''s'' then
        (case dp_args s of
           VaStr str # as \<Rightarrow>
             do {out \<leftarrow> fmtstr maxlen str fl (dp_min s) (if dp_max s < 0 then int maxlen else dp_max s) (dp_out s);
                 Some (s\<lparr>dp_args := as, dp_out := out\<rparr>)}
         | _ \<Rightarrow> None)
      else if ch = CHR ''p'' then
        (case dp_args s of
           VaPtr p # as \<Rightarrow>
             do {out \<leftarrow> fmtint maxlen (of_nat p) 16 (dp_min s) (dp_max s) fl (dp_out s);
                 Some (s\<lparr>dp_args := as, dp_out := out\<rparr>)}
         | _ \<Rightarrow> None)
      else if ch = CHR ''n'' then
        (case dp_args s of
           VaPtr p # as \<Rightarrow> Some (s\<lparr>dp_args := as, dp_stored := dp_stored s @ [(p, p_len (dp_out s))]\<rparr>)
         | _ \<Rightarrow> None)
      else if ch = CHR ''%'' then map_option (\<lambda>out. s\<lparr>dp_out := out\<rparr>) (dopr_outch maxlen ch (dp_out s))
      else if ch = CHR ''w'' then next_ch s
      else Some s)"

text \<open>One turn of the loop.\<close>

definition dopr_step :: "nat \<Rightarrow> dp \<Rightarrow> dp option" where
  "dopr_step maxlen s =
     (let s = (if dp_ch s = nul \<or> p_len (dp_out s) \<ge> maxlen then s\<lparr>dp_state := DP_S_DONE\<rparr> else s);
          ch = dp_ch s; fl = dp_fl s
      in
      case dp_state s of
        DP_S_DEFAULT \<Rightarrow>
          if ch = CHR ''%'' then next_ch (s\<lparr>dp_state := DP_S_FLAGS\<rparr>)
          else do {out \<leftarrow> dopr_outch maxlen ch (dp_out s); next_ch (s\<lparr>dp_out := out\<rparr>)}
      | DP_S_FLAGS \<Rightarrow>
          if ch = CHR ''-'' then next_ch (s\<lparr>dp_fl := fl\<lparr>f_minus := True\<rparr>\<rparr>)
          else if ch = CHR ''+'' then next_ch (s\<lparr>dp_fl := fl\<lparr>f_plus := True\<rparr>\<rparr>)
          else if ch = CHR '' '' then next_ch (s\<lparr>dp_fl := fl\<lparr>f_space := True\<rparr>\<rparr>)
          else if ch = CHR ''#'' then next_ch (s\<lparr>dp_fl := fl\<lparr>f_num := True\<rparr>\<rparr>)
          else if ch = CHR ''0'' then next_ch (s\<lparr>dp_fl := fl\<lparr>f_zero := True\<rparr>\<rparr>)
          else Some (s\<lparr>dp_state := DP_S_MIN\<rparr>)
      | DP_S_MIN \<Rightarrow>
          if isdigit ch then next_ch (s\<lparr>dp_min := 10 * dp_min s + (uchar ch - 48)\<rparr>)
          else if ch = CHR ''*'' then do {(n, s) \<leftarrow> va_int s; next_ch (s\<lparr>dp_min := n, dp_state := DP_S_DOT\<rparr>)}
          else Some (s\<lparr>dp_state := DP_S_DOT\<rparr>)
      | DP_S_DOT \<Rightarrow>
          if ch = CHR ''.'' then next_ch (s\<lparr>dp_state := DP_S_MAX\<rparr>) else Some (s\<lparr>dp_state := DP_S_MOD\<rparr>)
      | DP_S_MAX \<Rightarrow>
          if isdigit ch then next_ch (s\<lparr>dp_max := 10 * (if dp_max s < 0 then 0 else dp_max s) + (uchar ch - 48)\<rparr>)
          else if ch = CHR ''*'' then do {(n, s) \<leftarrow> va_int s; next_ch (s\<lparr>dp_max := n, dp_state := DP_S_MOD\<rparr>)}
          else Some (s\<lparr>dp_state := DP_S_MOD\<rparr>)
      | DP_S_MOD \<Rightarrow>
          if ch = CHR ''h'' then next_ch (s\<lparr>dp_cfl := DP_C_SHORT, dp_state := DP_S_CONV\<rparr>)
          else if ch = CHR ''l'' then next_ch (s\<lparr>dp_cfl := DP_C_LONG, dp_state := DP_S_CONV\<rparr>)
          else if ch = CHR ''L'' then next_ch (s\<lparr>dp_cfl := DP_C_LDOUBLE, dp_state := DP_S_CONV\<rparr>)
          else Some (s\<lparr>dp_state := DP_S_CONV\<rparr>)
      | DP_S_CONV \<Rightarrow>
          do {s \<leftarrow> conv_char maxlen s;
              s \<leftarrow> next_ch s;
              Some (s\<lparr>dp_state := DP_S_DEFAULT, dp_fl := no_dp_flags, dp_cfl := DP_C_NONE, dp_min := 0, dp_max := - 1\<rparr>)}
      | DP_S_DONE \<Rightarrow> Some s)"

fun dp_rank :: "dp_state \<Rightarrow> nat" where
  "dp_rank DP_S_DEFAULT = 1"
| "dp_rank DP_S_FLAGS = 6"
| "dp_rank DP_S_MIN = 5"
| "dp_rank DP_S_DOT = 4"
| "dp_rank DP_S_MAX = 3"
| "dp_rank DP_S_MOD = 2"
| "dp_rank DP_S_CONV = 1"
| "dp_rank DP_S_DONE = 0"

lemma next_ch_Some: "next_ch s = Some t \<Longrightarrow> length (dp_format t) < length (dp_format s)"
  by (auto simp: next_ch_def split: list.splits)

lemma conv_char_format: "conv_char maxlen s = Some t \<Longrightarrow> length (dp_format t) \<le> length (dp_format s)"
  by (auto simp: conv_char_def conv_int_def Let_def split: if_splits bind_splits list.splits va.splits prod.splits dest!: next_ch_Some)

lemma dopr_step_measure:
  assumes "dopr_step maxlen s = Some t" "dp_state s \<noteq> DP_S_DONE"
  shows "length (dp_format t) < length (dp_format s) \<or>
    (length (dp_format t) = length (dp_format s) \<and> dp_rank (dp_state t) < dp_rank (dp_state s))"
proof (cases "dp_ch s = nul \<or> p_len (dp_out s) \<ge> maxlen")
  case True
  then have "t = s\<lparr>dp_state := DP_S_DONE\<rparr>" using assms(1) by (simp add: dopr_step_def)
  then show ?thesis using assms(2) by (cases "dp_state s") auto
next
  case False
  then show ?thesis using assms
    by (cases "dp_state s")
      (auto simp: dopr_step_def va_int_def Let_def split: if_splits bind_splits dest!: next_ch_Some conv_char_format)
qed

function dopr_loop :: "nat \<Rightarrow> dp \<Rightarrow> dp option" where
  "dopr_loop maxlen s =
     (if dp_state s = DP_S_DONE then Some s
      else case dopr_step maxlen s of None \<Rightarrow> None | Some s \<Rightarrow> dopr_loop maxlen s)"
  by pat_completeness auto
termination
  by (relation "(\<lambda>(_, s). length (dp_format s)) <*mlex*> measure (\<lambda>(_, s). dp_rank (dp_state s))")
    (auto simp: wf_mlex mlex_iff dest: dopr_step_measure)

declare dopr_loop.simps [simp del]

definition dopr :: "char list \<Rightarrow> nat \<Rightarrow> char list \<Rightarrow> va list \<Rightarrow> (char list \<times> (addr \<times> nat) list) option" where
  "dopr buffer maxlen format args =
     (case format of
        [] \<Rightarrow> None
      | ch # format \<Rightarrow>
          do {s \<leftarrow> dopr_loop maxlen \<lparr>dp_state = DP_S_DEFAULT, dp_ch = ch, dp_format = format, dp_args = args, dp_fl = no_dp_flags,
                dp_cfl = DP_C_NONE, dp_min = 0, dp_max = - 1, dp_out = \<lparr>p_buf = buffer, p_len = 0\<rparr>, dp_stored = []\<rparr>;
              buffer \<leftarrow> (if maxlen = 0 \<or> p_len (dp_out s) < maxlen - 1 then poke (p_buf (dp_out s)) (p_len (dp_out s)) nul
                        else poke (p_buf (dp_out s)) (maxlen - 1) nul);
              Some (buffer, dp_stored s)})"

definition mutt_vsnprintf :: "char list \<Rightarrow> nat \<Rightarrow> char list \<Rightarrow> va list \<Rightarrow> (nat \<times> char list) option" where
  "mutt_vsnprintf str count fmt args =
     do {str \<leftarrow> poke str 0 nul;
         (str, _) \<leftarrow> dopr str count fmt args;
         Some (length (cstr str), str)}"

section \<open>What is in the buffer\<close>

text \<open>The buffer after \<open>t\<close> was put out: as much of it as there is room for.\<close>

definition filled :: "nat \<Rightarrow> char list \<Rightarrow> string \<Rightarrow> pbuf" where
  "filled maxlen buf t = \<lparr>p_buf = overwrite buf (take maxlen t), p_len = min maxlen (length t)\<rparr>"

lemma filled_full: "maxlen \<le> length t \<Longrightarrow> filled maxlen buf (t @ u) = filled maxlen buf t"
  by (simp add: filled_def)

lemma overwrite_snoc: "length xs < length buf \<Longrightarrow> (overwrite buf xs)[length xs := c] = overwrite buf (xs @ [c])"
  by (simp add: overwrite_def list_update_append upd_conv_take_nth_drop Cons_nth_drop_Suc [symmetric])

lemma outch_filled:
  assumes "maxlen \<le> length buf"
  shows "dopr_outch maxlen c (filled maxlen buf t) = Some (filled maxlen buf (t @ [c]))"
proof (cases "length t < maxlen")
  case True
  then have "length t < length (overwrite buf t)" using assms by (simp add: overwrite_def)
  then show ?thesis using True assms overwrite_snoc [of t buf c] by (simp add: dopr_outch_def filled_def poke_def)
qed (simp add: dopr_outch_def filled_def)

lemma outs_filled: "maxlen \<le> length buf \<Longrightarrow> outs maxlen cs (filled maxlen buf t) = Some (filled maxlen buf (t @ cs))"
  by (induction cs arbitrary: t) (simp_all add: outch_filled)

lemma copy_loop_filled:
  assumes "maxlen \<le> length buf"
  shows "copy_loop maxlen s cnt mx (filled maxlen buf t) =
    Some (cnt + int (min (length s) (nat (mx - cnt))), filled maxlen buf (t @ take (nat (mx - cnt)) s))"
proof (induction s arbitrary: cnt t)
  case (Cons c s)
  show ?case
  proof (cases "cnt < mx")
    case True
    then have "nat (mx - cnt) = Suc (nat (mx - (cnt + 1)))" by simp
    then show ?thesis using Cons True assms by (simp add: outch_filled)
  qed simp
qed simp

lemma pad_loop_copy: "pad_loop maxlen n cnt mx b = copy_loop maxlen (replicate n CHR '' '') cnt mx b"
  by (induction n arbitrary: cnt b) (auto intro: bind_option_cong)

lemma fmtstr_filled:
  assumes "maxlen \<le> length buf" "0 \<le> mx"
  shows "fmtstr maxlen str fl mn mx (filled maxlen buf t) =
    (let val = (case str of None \<Rightarrow> ''<NULL>'' | Some v \<Rightarrow> v); pad = replicate (nat (mn - int (length val))) CHR '' '' in
     Some (filled maxlen buf (t @ take (nat mx) (if f_minus fl then val @ pad else pad @ val))))"
proof -
  have "nat (mx - int (min n (nat mx))) = nat mx - n" for n using assms(2) by linarith
  then show ?thesis
    using assms by (cases "f_minus fl") (simp_all add: fmtstr_def Let_def pad_loop_copy copy_loop_filled)
qed

section \<open>Numbers in a base\<close>

fun radix :: "bool \<Rightarrow> nat \<Rightarrow> nat \<Rightarrow> string" where
  "radix caps base n = (if n < base \<or> base < 2 then [] else radix caps base (n div base)) @ [digit caps (n mod base)]"

declare radix.simps [simp del]

lemma convert_loop_radix:
  assumes "2 \<le> base" "length acc + length (radix caps base n) < 20"
  shows "convert_loop caps base n acc = acc @ rev (radix caps base n)"
  using assms(2)
proof (induction n arbitrary: acc rule: less_induct)
  case (less n)
  show ?case
  proof (cases "n < base")
    case True
    then show ?thesis by (subst convert_loop.simps) (simp add: radix.simps [of caps base n])
  next
    case False
    have r: "radix caps base n = radix caps base (n div base) @ [digit caps (n mod base)]"
      using False assms(1) by (simp add: radix.simps [of caps base n])
    have "0 < length (radix caps base (n div base))" by (simp add: radix.simps [of caps base "n div base"])
    then have len: "length acc + 1 < 20" using less.prems r by simp
    have "n div base < n" using False assms(1) by (simp add: div_less_dividend)
    then have "convert_loop caps base (n div base) (acc @ [digit caps (n mod base)]) =
        (acc @ [digit caps (n mod base)]) @ rev (radix caps base (n div base))"
      using less.prems r by (intro less.IH) simp_all
    moreover have "n div base \<noteq> 0" using False assms(1) by (simp add: div_eq_0_iff)
    ultimately show ?thesis using len r by (subst convert_loop.simps) (simp add: Let_def)
  qed
qed

lemma converted_radix: "2 \<le> base \<Longrightarrow> length (radix caps base n) < 20 \<Longrightarrow> converted caps base n = rev (radix caps base n)"
  using convert_loop_radix [of base "[]" caps n] by (simp add: converted_def Let_def)

text \<open>A number with its sign, in a field of a width and with a number of digits at least, as the standard has it; a
  negative precision is none.\<close>

definition num_text :: "dp_flags \<Rightarrow> int \<Rightarrow> int \<Rightarrow> string \<Rightarrow> string \<Rightarrow> string" where
  "num_text fl mn mx sign digits =
     (let body = replicate (nat mx - length digits) CHR ''0'' @ digits;
          room = nat mn - length (sign @ body)
      in if f_minus fl then sign @ body @ replicate room CHR '' ''
         else if f_zero fl \<and> mx < 0 then sign @ replicate room CHR ''0'' @ body
         else replicate room CHR '' '' @ sign @ body)"

definition num_sign :: "dp_flags \<Rightarrow> int \<Rightarrow> string" where
  "num_sign fl v = (if v < 0 then ''-'' else if f_plus fl then ''+'' else if f_space fl then '' '' else [])"

lemma unat_neg_abs:
  fixes val :: u64
  assumes "sint val < 0"
  shows "unat (- val) = nat \<bar>sint val\<bar>"
proof -
  have "- (2 ^ 63) \<le> sint val" using sint_ge [of val] by simp
  then have "uint (word_of_int (- sint val) :: u64) = - sint val"
    using assms unfolding uint_word_of_int_eq by (intro take_bit_int_eq_self) simp_all
  then have "uint (- val) = - sint val" by simp
  then show ?thesis using assms by (simp add: unat_eq_nat_uint)
qed

lemma unat_abs:
  fixes val :: u64
  assumes "0 \<le> sint val"
  shows "unat val = nat \<bar>sint val\<bar>"
proof -
  have "sint val < 2 ^ 63" using sint_lt [of val] by simp
  then have "uint (word_of_int (sint val) :: u64) = sint val"
    using assms unfolding uint_word_of_int_eq by (intro take_bit_int_eq_self) simp_all
  then show ?thesis using assms by (simp add: unat_eq_nat_uint)
qed

lemma fmtint_filled:
  assumes "maxlen \<le> length buf" "2 \<le> base" "0 \<le> mn" "\<not> (f_zero fl \<and> (f_minus fl \<or> 0 \<le> mx))"
    and "digits = radix (f_up fl) base (nat (if f_unsigned fl then uint val else \<bar>sint val\<bar>))" "length digits < 20"
    and "sign = (if f_unsigned fl then [] else num_sign fl (sint val))"
  shows "fmtint maxlen val base mn mx fl (filled maxlen buf t) = Some (filled maxlen buf (t @ num_text fl mn mx sign digits))"
proof -
  define neg where "neg = (\<not> f_unsigned fl \<and> sint val < 0)"
  define mx' where "mx' = (if mx < 0 then 0 else mx)"
  have "unat (if neg then - val else val) = nat (if f_unsigned fl then uint val else \<bar>sint val\<bar>)"
    by (simp add: neg_def unat_neg_abs unat_abs unat_eq_nat_uint [symmetric])
  then have conv: "converted (f_up fl) base (unat (if neg then - val else val)) = rev digits"
    using assms(2,5,6) by (simp add: converted_radix)
  have sgn: "(if f_unsigned fl then [] else if neg then ''-'' else if f_plus fl then ''+'' else if f_space fl then '' '' else []) = sign"
    using assms(7) by (simp add: neg_def num_sign_def)
  have z: "nat (mx' - int (length digits)) = nat mx - length digits" by (auto simp: mx'_def)
  have s: "nat (mn - (if int (length digits) \<le> mx' then mx' else int (length digits)) - int (length sign)) =
      nat mn - (length sign + ((nat mx - length digits) + length digits))"
    using assms(3) by (auto simp: mx'_def)
  have m: "mx' = 0" "nat mx = 0" if "f_zero fl" using that assms(4) by (simp_all add: mx'_def)
  have run: "fmtint maxlen val base mn mx fl (filled maxlen buf t) =
     (let zpadlen = nat mx - length digits; spadlen = nat mn - (length sign + (zpadlen + length digits));
          (zpadlen, spadlen) = (if f_zero fl then (if zpadlen \<ge> spadlen then zpadlen else spadlen, 0) else (zpadlen, spadlen))
      in Some (filled maxlen buf (t @ replicate (if f_minus fl then 0 else spadlen) CHR '' '' @ sign @ replicate zpadlen CHR ''0'' @
           digits @ replicate (if f_minus fl then spadlen else 0) CHR '' '')))"
    using assms(1) unfolding fmtint_def Let_def neg_def [symmetric] mx'_def [symmetric] conv sgn length_rev z s
    by (simp add: outs_filled split: prod.split)
  show ?thesis
    using assms(4) m by (cases "f_minus fl"; cases "f_zero fl") (simp_all add: run Let_def num_text_def)
qed

section \<open>Formats and their meaning\<close>

text \<open>A format as a list of characters and conversions, with the arguments a width or precision is taken from.\<close>

datatype amount = Num nat | Star

record cspec =
  cs_flags :: string
  cs_width :: amount
  cs_prec :: "amount option"
  cs_long :: bool
  cs_conv :: char

datatype seg = Text char | Conv cspec

fun print_width :: "amount \<Rightarrow> string" where
  "print_width (Num n) = (if n = 0 then [] else radix False 10 n)"
| "print_width Star = ''*''"

fun print_prec :: "amount option \<Rightarrow> string" where
  "print_prec None = []"
| "print_prec (Some (Num n)) = CHR ''.'' # radix False 10 n"
| "print_prec (Some Star) = ''.*''"

definition print_conv :: "cspec \<Rightarrow> string" where
  "print_conv cs = cs_flags cs @ print_width (cs_width cs) @ print_prec (cs_prec cs) @ (if cs_long cs then ''l'' else []) @ [cs_conv cs]"

fun print_seg :: "seg \<Rightarrow> string" where
  "print_seg (Text c) = [c]"
| "print_seg (Conv cs) = CHR ''%'' # print_conv cs"

definition print_segs :: "seg list \<Rightarrow> string" where
  "print_segs segs = concat (map print_seg segs)"

definition flag_chars :: string where
  "flag_chars = ''-+ #0''"

definition cs_fl :: "string \<Rightarrow> dp_flags" where
  "cs_fl fs = \<lparr>f_minus = CHR ''-'' \<in> set fs, f_plus = CHR ''+'' \<in> set fs, f_space = CHR '' '' \<in> set fs, f_num = CHR ''#'' \<in> set fs,
     f_zero = CHR ''0'' \<in> set fs, f_up = False, f_unsigned = False\<rparr>"

fun wf_seg :: "seg \<Rightarrow> bool" where
  "wf_seg (Text c) = (c \<noteq> CHR ''%'' \<and> c \<noteq> nul)"
| "wf_seg (Conv cs) = (set (cs_flags cs) \<subseteq> set flag_chars \<and> cs_conv cs \<in> set ''diouxXcs%'')"

fun amount_value :: "amount \<Rightarrow> va list \<Rightarrow> (int \<times> va list) option" where
  "amount_value (Num n) as = Some (int n, as)"
| "amount_value Star as = map_option (\<lambda>(n, as). (sint (ucast n :: u32), as)) (va_num as)"

fun prec_value :: "amount option \<Rightarrow> va list \<Rightarrow> (int \<times> va list) option" where
  "prec_value None as = Some (- 1, as)"
| "prec_value (Some a) as = amount_value a as"

text \<open>
  What the C standard has a conversion print, of a width \<open>mn\<close> and a precision \<open>mx\<close> (negative: none). \<open>None\<close> where the arguments
  do not fit, or where \<open>dopr\<close> does not do what the standard says: alternative forms, a precision of zero for
  zero, numbers of twenty digits and more, the zero flag together with a precision or the minus flag, a width for a character,
  and a string that is both padded and cut.
\<close>

definition num_conv :: "dp_flags \<Rightarrow> nat \<Rightarrow> bool \<Rightarrow> int \<Rightarrow> int \<Rightarrow> string \<Rightarrow> int \<Rightarrow> string option" where
  "num_conv fl base caps mn mx sign v =
     (let digits = radix caps base (nat \<bar>v\<bar>) in
      if 20 \<le> length digits \<or> mn < 0 \<or> (v = 0 \<and> mx = 0) \<or> (f_zero fl \<and> (f_minus fl \<or> 0 \<le> mx)) \<or> (f_num fl \<and> base \<noteq> 10)
      then None else Some (num_text fl mn mx sign digits))"

definition str_conv :: "dp_flags \<Rightarrow> int \<Rightarrow> int \<Rightarrow> string \<Rightarrow> string option" where
  "str_conv fl mn mx v =
     (let cut = (if mx < 0 then v else take (nat mx) v); pad = replicate (nat mn - length cut) CHR '' '' in
      if mn < 0 \<or> (0 \<le> mx \<and> min (nat mx) (length v) < nat mn \<and> nat mx < max (nat mn) (length v)) then None
      else Some (if f_minus fl then cut @ pad else pad @ cut))"

definition conv_text :: "char \<Rightarrow> dp_flags \<Rightarrow> bool \<Rightarrow> int \<Rightarrow> int \<Rightarrow> va list \<Rightarrow> (string \<times> va list) option" where
  "conv_text ch fl long mn mx as =
     (if ch = CHR ''%'' then Some (''%'', as)
      else case as of
        VaNum n # as \<Rightarrow>
          let s = sint (if long then n else scast (ucast n :: u32));
              u = uint (if long then n else ucast (ucast n :: u32))
          in map_option (\<lambda>text. (text, as))
               (if ch = CHR ''d'' \<or> ch = CHR ''i'' then num_conv fl 10 False mn mx (num_sign fl s) s
                else if ch = CHR ''o'' then num_conv fl 8 False mn mx [] u
                else if ch = CHR ''u'' then num_conv fl 10 False mn mx [] u
                else if ch = CHR ''x'' then num_conv fl 16 False mn mx [] u
                else if ch = CHR ''X'' then num_conv fl 16 True mn mx [] u
                else if ch = CHR ''c'' \<and> mn = 0 then Some [char_of (unat n)] else None)
      | VaStr (Some v) # as \<Rightarrow> if ch = CHR ''s'' then map_option (\<lambda>text. (text, as)) (str_conv fl mn mx v) else None
      | _ \<Rightarrow> None)"

fun seg_text :: "seg \<Rightarrow> va list \<Rightarrow> (string \<times> va list) option" where
  "seg_text (Text c) as = Some ([c], as)"
| "seg_text (Conv cs) as =
     do {(mn, as) \<leftarrow> amount_value (cs_width cs) as;
         (mx, as) \<leftarrow> prec_value (cs_prec cs) as;
         conv_text (cs_conv cs) (cs_fl (cs_flags cs)) (cs_long cs) mn mx as}"

fun segs_text :: "seg list \<Rightarrow> va list \<Rightarrow> string option" where
  "segs_text [] as = Some []"
| "segs_text (g # gs) as = do {(t, as) \<leftarrow> seg_text g as; map_option (\<lambda>u. t @ u) (segs_text gs as)}"

section \<open>Conversions print what they mean\<close>

lemma filled_take: "filled maxlen buf (t @ take maxlen u) = filled maxlen buf (t @ u)"
  by (simp add: filled_def min_def)

lemma num_conv_filled:
  assumes "maxlen \<le> length buf" "2 \<le> base" "num_conv fl base (f_up fl) mn mx sign v = Some text"
    and "v = (if f_unsigned fl then uint val else sint val)" "sign = (if f_unsigned fl then [] else num_sign fl v)"
  shows "fmtint maxlen val base mn mx fl (filled maxlen buf t) = Some (filled maxlen buf (t @ text))"
proof -
  have "radix (f_up fl) base (nat (if f_unsigned fl then uint val else \<bar>sint val\<bar>)) = radix (f_up fl) base (nat \<bar>v\<bar>)"
    using assms(4) by simp
  moreover have "\<not> 20 \<le> length (radix (f_up fl) base (nat \<bar>v\<bar>))" "0 \<le> mn" "\<not> (f_zero fl \<and> (f_minus fl \<or> 0 \<le> mx))"
    "text = num_text fl mn mx sign (radix (f_up fl) base (nat \<bar>v\<bar>))"
    using assms(3) by (auto simp: num_conv_def Let_def split: if_splits)
  ultimately show ?thesis
    using assms(1,2,4,5) fmtint_filled [of maxlen buf base mn fl mx "radix (f_up fl) base (nat \<bar>v\<bar>)" val sign t] by auto
qed

lemma str_conv_filled:
  assumes "maxlen \<le> length buf" "str_conv fl mn mx v = Some text"
  shows "fmtstr maxlen (Some v) fl mn (if mx < 0 then int maxlen else mx) (filled maxlen buf t) = Some (filled maxlen buf (t @ text))"
proof -
  define pad where "pad = replicate (nat mn - length v) CHR '' ''"
  have mn: "nat (mn - int (length v)) = nat mn - length v" "0 \<le> mn"
    using assms(2) by (auto simp: str_conv_def Let_def split: if_splits)
  have run: "fmtstr maxlen (Some v) fl mn (if mx < 0 then int maxlen else mx) (filled maxlen buf t) =
      Some (filled maxlen buf (t @ take (if mx < 0 then maxlen else nat mx) (if f_minus fl then v @ pad else pad @ v)))"
    using assms(1) by (simp add: fmtstr_filled mn pad_def)
  show ?thesis
  proof (cases "mx < 0")
    case True
    then have "text = (if f_minus fl then v @ pad else pad @ v)"
      using assms(2) by (simp add: str_conv_def Let_def pad_def split: if_splits)
    then show ?thesis using True run by (simp add: filled_take)
  next
    case False
    then have "take (nat mx) (if f_minus fl then v @ pad else pad @ v) = text"
      using assms(2) by (auto simp: str_conv_def Let_def pad_def split: if_splits)
    then show ?thesis using False run by simp
  qed
qed

section \<open>Reading a format\<close>

text \<open>The state before a turn, with the characters that remain, the current one first.\<close>

definition dps :: "dp_state \<Rightarrow> char list \<Rightarrow> va list \<Rightarrow> dp_flags \<Rightarrow> dp_cflags \<Rightarrow> int \<Rightarrow> int \<Rightarrow> pbuf \<Rightarrow> dp" where
  "dps st f as fl cfl mn mx b = \<lparr>dp_state = st, dp_ch = hd f, dp_format = tl f, dp_args = as, dp_fl = fl, dp_cfl = cfl,
     dp_min = mn, dp_max = mx, dp_out = b, dp_stored = []\<rparr>"

lemma loop_step:
  assumes "dopr_step maxlen (dps st f as fl cfl mn mx b) = Some t" "st \<noteq> DP_S_DONE"
  shows "dopr_loop maxlen (dps st f as fl cfl mn mx b) = dopr_loop maxlen t"
  using assms by (subst dopr_loop.simps) (simp add: dps_def)

lemma loop_stop:
  assumes "f = nul # g \<or> maxlen \<le> p_len b" "st \<noteq> DP_S_DONE"
  shows "dopr_loop maxlen (dps st f as fl cfl mn mx b) = Some ((dps st f as fl cfl mn mx b)\<lparr>dp_state := DP_S_DONE\<rparr>)"
  using assms by (subst dopr_loop.simps) (auto simp: dps_def dopr_step_def dopr_loop.simps)

lemma flag_step:
  assumes "c \<in> set flag_chars" "p_len b < maxlen" "f \<noteq> []"
  shows "dopr_loop maxlen (dps DP_S_FLAGS (c # f) as (cs_fl fs) cfl mn mx b) = dopr_loop maxlen (dps DP_S_FLAGS f as (cs_fl (fs @ [c])) cfl mn mx b)"
  using assms
  by (intro loop_step) (auto simp: flag_chars_def dopr_step_def dps_def next_ch_def cs_fl_def neq_Nil_conv)

lemma loop_flags:
  assumes "set gs \<subseteq> set flag_chars" "c \<notin> set flag_chars" "c \<noteq> nul" "p_len b < maxlen"
  shows "dopr_loop maxlen (dps DP_S_FLAGS (gs @ c # f) as (cs_fl fs) cfl mn mx b) = dopr_loop maxlen (dps DP_S_MIN (c # f) as (cs_fl (fs @ gs)) cfl mn mx b)"
  using assms(1)
proof (induction gs arbitrary: fs)
  case Nil
  show ?case using assms(2-4) by (simp, intro loop_step) (auto simp: flag_chars_def dopr_step_def dps_def)
next
  case (Cons g gs)
  then show ?case using flag_step [of g b maxlen "gs @ c # f" as fs cfl mn mx] assms(4) by simp
qed

text \<open>Decimal numbers.\<close>

definition decimal :: "int \<Rightarrow> string \<Rightarrow> int" where
  "decimal = foldl (\<lambda>v d. 10 * v + (uchar d - 48))"

lemma digit_decimal: "d < 10 \<Longrightarrow> isdigit (digit caps d) \<and> uchar (digit caps d) = 48 + int d"
proof -
  assume "d < 10"
  then have "d \<in> {0, 1, 2, 3, 4, 5, 6, 7, 8, 9}" by auto
  then show ?thesis by (auto simp: digit_def isdigit_def)
qed

lemma radix_decimal: "list_all isdigit (radix caps 10 n) \<and> decimal 0 (radix caps 10 n) = int n"
proof (induction n rule: less_induct)
  case (less n)
  have "int n = 10 * int (n div 10) + int (n mod 10)" by presburger
  then show ?case
    using less [of "n div 10"] digit_decimal [of "n mod 10" caps]
    by (subst (1 2) radix.simps) (auto simp: decimal_def)
qed

lemma radix_nonzero: "0 < n \<Longrightarrow> \<exists>c cs. radix caps 10 n = c # cs \<and> isdigit c \<and> c \<noteq> CHR ''0''"
proof (induction n rule: less_induct)
  case (less n)
  show ?case
  proof (cases "n < 10")
    case True
    then have "digit caps n \<noteq> CHR ''0''" using digit_decimal [of n caps] less.prems by auto
    then show ?thesis using True digit_decimal [of n caps] by (subst radix.simps) simp
  next
    case False
    then have "n div 10 < n" "0 < n div 10" by auto
    then obtain c cs where "radix caps 10 (n div 10) = c # cs" "isdigit c" "c \<noteq> CHR ''0''" using less.IH [of "n div 10"] by auto
    then show ?thesis using False by (subst radix.simps) simp
  qed
qed

lemma loop_min_digits:
  assumes "list_all isdigit ds" "p_len b < maxlen" "f \<noteq> []"
  shows "dopr_loop maxlen (dps DP_S_MIN (ds @ f) as fl cfl mn mx b) = dopr_loop maxlen (dps DP_S_MIN f as fl cfl (decimal mn ds) mx b)"
  using assms(1)
proof (induction ds arbitrary: mn)
  case (Cons d ds)
  have "d \<noteq> nul" using Cons.prems by (auto simp: isdigit_def)
  then have "dopr_loop maxlen (dps DP_S_MIN (d # ds @ f) as fl cfl mn mx b) =
      dopr_loop maxlen (dps DP_S_MIN (ds @ f) as fl cfl (10 * mn + (uchar d - 48)) mx b)"
    using Cons.prems assms(2,3)
    by (intro loop_step) (auto simp: dopr_step_def dps_def next_ch_def neq_Nil_conv split: list.split)
  then show ?case using Cons by (simp add: decimal_def)
qed (simp add: decimal_def)

lemma loop_max_digits:
  assumes "list_all isdigit ds" "p_len b < maxlen" "f \<noteq> []" "0 \<le> mx"
  shows "dopr_loop maxlen (dps DP_S_MAX (ds @ f) as fl cfl mn mx b) = dopr_loop maxlen (dps DP_S_MAX f as fl cfl mn (decimal mx ds) b)"
  using assms(1,4)
proof (induction ds arbitrary: mx)
  case (Cons d ds)
  have "d \<noteq> nul" "0 \<le> 10 * mx + (uchar d - 48)" using Cons.prems by (auto simp: isdigit_def)
  moreover from this(1) have "dopr_loop maxlen (dps DP_S_MAX (d # ds @ f) as fl cfl mn mx b) =
      dopr_loop maxlen (dps DP_S_MAX (ds @ f) as fl cfl mn (10 * mx + (uchar d - 48)) b)"
    using Cons.prems assms(2,3)
    by (intro loop_step) (auto simp: dopr_step_def dps_def next_ch_def neq_Nil_conv split: list.split)
  ultimately show ?case using Cons by (simp add: decimal_def)
qed (simp add: decimal_def)

text \<open>Without digits there is no precision, the first digit makes one.\<close>

lemma loop_max_none:
  assumes "isdigit d" "p_len b < maxlen"
  shows "dopr_loop maxlen (dps DP_S_MAX (d # f) as fl cfl mn (- 1) b) = dopr_loop maxlen (dps DP_S_MAX (d # f) as fl cfl mn 0 b)"
proof -
  have "d \<noteq> nul" using assms(1) by (auto simp: isdigit_def)
  then have "dopr_step maxlen (dps DP_S_MAX (d # f) as fl cfl mn (- 1) b) = dopr_step maxlen (dps DP_S_MAX (d # f) as fl cfl mn 0 b)"
    using assms by (simp add: dopr_step_def dps_def next_ch_def)
  then show ?thesis by (subst (1 2) dopr_loop.simps) (simp add: dps_def)
qed

definition plain :: "char \<Rightarrow> bool" where
  "plain c = (c \<notin> set flag_chars \<and> \<not> isdigit c \<and> c \<noteq> CHR ''*'' \<and> c \<noteq> nul)"

lemma loop_width:
  assumes "amount_value a as = Some (mn, as')" "set gs \<subseteq> set flag_chars" "plain c" "p_len b < maxlen"
  shows "dopr_loop maxlen (dps DP_S_FLAGS (gs @ print_width a @ c # f) as (cs_fl []) cfl 0 mx b) =
    dopr_loop maxlen (dps DP_S_DOT (c # f) as' (cs_fl gs) cfl mn mx b)"
proof -
  have stop: "dopr_loop maxlen (dps DP_S_MIN (c # f) as fl cfl n mx b) = dopr_loop maxlen (dps DP_S_DOT (c # f) as fl cfl n mx b)" for fl n
    using assms(3,4) by (intro loop_step) (auto simp: plain_def dopr_step_def dps_def)
  show ?thesis
  proof (cases a)
    case (Num n)
    show ?thesis
    proof (cases "n = 0")
      case True
      then show ?thesis using Num assms stop [of "cs_fl gs" 0] loop_flags [of gs c b maxlen f as "[]" cfl 0 mx] by (simp add: plain_def)
    next
      case False
      then obtain d ds where r: "radix False 10 n = d # ds" "isdigit d" "d \<noteq> CHR ''0''" using radix_nonzero [of n False] by auto
      then have d: "d \<notin> set flag_chars" "d \<noteq> nul" by (auto simp: flag_chars_def isdigit_def)
      have "dopr_loop maxlen (dps DP_S_FLAGS (gs @ print_width a @ c # f) as (cs_fl []) cfl 0 mx b) =
          dopr_loop maxlen (dps DP_S_MIN (radix False 10 n @ c # f) as (cs_fl gs) cfl 0 mx b)"
        using loop_flags [of gs d b maxlen "ds @ c # f" as "[]" cfl 0 mx] assms(2,4) d r(1) False Num by simp
      also have "\<dots> = dopr_loop maxlen (dps DP_S_MIN (c # f) as (cs_fl gs) cfl (int n) mx b)"
        using loop_min_digits [of "radix False 10 n" b maxlen "c # f" as "cs_fl gs" cfl 0 mx] radix_decimal [of False n] assms(4) by simp
      finally show ?thesis using stop [of "cs_fl gs" "int n"] Num assms(1) by simp
    qed
  next
    case Star
    then have "dopr_loop maxlen (dps DP_S_MIN (CHR ''*'' # c # f) as (cs_fl gs) cfl 0 mx b) =
        dopr_loop maxlen (dps DP_S_DOT (c # f) as' (cs_fl gs) cfl mn mx b)"
      using assms(1,4) by (intro loop_step) (auto simp: dopr_step_def dps_def isdigit_def va_int_def next_ch_def)
    then show ?thesis using Star assms(2,4) loop_flags [of gs "CHR ''*''" b maxlen "c # f" as "[]" cfl 0 mx] by (simp add: flag_chars_def)
  qed
qed

lemma loop_prec:
  assumes "prec_value p as = Some (mx, as')" "plain c" "c \<noteq> CHR ''.''" "p_len b < maxlen"
  shows "dopr_loop maxlen (dps DP_S_DOT (print_prec p @ c # f) as fl cfl mn (- 1) b) =
    dopr_loop maxlen (dps DP_S_MOD (c # f) as' fl cfl mn mx b)"
proof (cases p)
  case None
  then show ?thesis using assms by simp (intro loop_step; auto simp: plain_def dopr_step_def dps_def)
next
  case (Some a)
  have dot: "dopr_loop maxlen (dps DP_S_DOT (CHR ''.'' # g # gs) as fl cfl mn (- 1) b) =
      dopr_loop maxlen (dps DP_S_MAX (g # gs) as fl cfl mn (- 1) b)" for g gs
    using assms(4) by (intro loop_step) (auto simp: dopr_step_def dps_def next_ch_def)
  show ?thesis
  proof (cases a)
    case (Num n)
    obtain d ds where r: "radix False 10 n = d # ds" by (cases "radix False 10 n") (auto simp: radix.simps [of False 10 n])
    have stop: "dopr_loop maxlen (dps DP_S_MAX (c # f) as fl cfl mn (int n) b) = dopr_loop maxlen (dps DP_S_MOD (c # f) as fl cfl mn (int n) b)"
      using assms(2,4) by (intro loop_step) (auto simp: plain_def dopr_step_def dps_def)
    have "dopr_loop maxlen (dps DP_S_MAX ((d # ds) @ c # f) as fl cfl mn 0 b) = dopr_loop maxlen (dps DP_S_MAX (c # f) as fl cfl mn (int n) b)"
      using loop_max_digits [of "radix False 10 n" b maxlen "c # f" 0 as fl cfl mn] radix_decimal [of False n] assms(4) r by simp
    then show ?thesis
      using dot [of d "ds @ c # f"] loop_max_none [of d b maxlen "ds @ c # f" as fl cfl mn] stop radix_decimal [of False n] r Some Num assms(1,4)
      by simp
  next
    case Star
    then have "dopr_loop maxlen (dps DP_S_MAX (CHR ''*'' # c # f) as fl cfl mn (- 1) b) = dopr_loop maxlen (dps DP_S_MOD (c # f) as' fl cfl mn mx b)"
      using assms(1,4) Some by (intro loop_step) (auto simp: dopr_step_def dps_def isdigit_def va_int_def next_ch_def)
    then show ?thesis using Star Some dot [of "CHR ''*''" "c # f"] by simp
  qed
qed

lemma loop_mod:
  assumes "c \<in> set ''diouxXcs%''" "p_len b < maxlen"
  shows "dopr_loop maxlen (dps DP_S_MOD ((if long then ''l'' else []) @ c # f) as fl DP_C_NONE mn mx b) =
    dopr_loop maxlen (dps DP_S_CONV (c # f) as fl (if long then DP_C_LONG else DP_C_NONE) mn mx b)"
  using assms by (cases long; simp; intro loop_step; auto simp: dopr_step_def dps_def next_ch_def)

lemma num_text_upd [simp]: "num_text (fl\<lparr>f_up := u\<rparr>) = num_text fl" "num_text (fl\<lparr>f_unsigned := u\<rparr>) = num_text fl"
  by (simp_all add: num_text_def fun_eq_iff Let_def)

lemma num_conv_upd [simp]: "num_conv (fl\<lparr>f_up := u\<rparr>) = num_conv fl" "num_conv (fl\<lparr>f_unsigned := u\<rparr>) = num_conv fl"
  by (simp_all add: num_conv_def fun_eq_iff Let_def)

lemma conv_int_text:
  assumes "num_conv fl base (f_up fl) mn mx sign v = Some out" "sign = (if uns then [] else num_sign fl v)"
    and "v = (if uns then uint (va_unsigned cfl n) else sint (va_signed cfl n))" "maxlen \<le> length buf" "2 \<le> base"
    and "s = dps DP_S_CONV (c # f) (VaNum n # as) fl' cfl mn mx (filled maxlen buf t)"
  shows "conv_int maxlen fl uns base s = Some (s\<lparr>dp_args := as, dp_out := filled maxlen buf (t @ out)\<rparr>)"
proof -
  have "num_conv (fl\<lparr>f_unsigned := uns\<rparr>) base (f_up (fl\<lparr>f_unsigned := uns\<rparr>)) mn mx sign v = Some out"
    "num_sign (fl\<lparr>f_unsigned := uns\<rparr>) v = num_sign fl v"
    using assms(1) by (simp_all add: num_sign_def)
  then show ?thesis
    using assms(2-6) num_conv_filled [of maxlen buf base "fl\<lparr>f_unsigned := uns\<rparr>" mn mx sign v "out"
      "if uns then va_unsigned cfl n else va_signed cfl n" t]
    by (cases uns) (simp_all add: conv_int_def dps_def)
qed

lemma conv_char_text:
  assumes "conv_text c (cs_fl fs) long mn mx as = Some (text, as')" "c \<in> set ''diouxXcs%''" "maxlen \<le> length buf"
    and "s = dps DP_S_CONV (c # f) as (cs_fl fs) (if long then DP_C_LONG else DP_C_NONE) mn mx (filled maxlen buf t)"
  shows "conv_char maxlen s = Some (s\<lparr>dp_args := as', dp_out := filled maxlen buf (t @ text)\<rparr>)"
proof -
  consider "c = CHR ''%''" | v bs where "as = VaStr (Some v) # bs" "c = CHR ''s''"
    | n bs where "as = VaNum n # bs" "c \<in> set ''diouxXc''"
    using assms(1,2) by (auto simp: conv_text_def split: list.splits va.splits option.splits if_splits)
  then show ?thesis
  proof cases
    case 1
    then show ?thesis using assms(1,3,4) by (simp add: conv_char_def conv_text_def outch_filled dps_def)
  next
    case (2 v bs)
    then show ?thesis using assms(1,3,4)
      by (auto simp: conv_char_def conv_text_def Let_def str_conv_filled dps_def cong: if_cong split del: if_split)
  next
    case (3 n bs)
    have cfl: "va_signed (if long then DP_C_LONG else DP_C_NONE) n = (if long then n else scast (ucast n :: u32))"
      "va_unsigned (if long then DP_C_LONG else DP_C_NONE) n = (if long then n else ucast (ucast n :: u32))"
      by (simp_all add: va_signed_def va_unsigned_def)
    have fl: "f_up (cs_fl fs) = False" "dp_fl s = cs_fl fs" "dp_ch s = c" "dp_args s = VaNum n # bs"
      "dp_out s = filled maxlen buf t"
      by (simp_all add: cs_fl_def assms(4) dps_def 3(1))
    note int = conv_int_text [OF _ refl refl assms(3) _ assms(4) [unfolded 3(1)], where out = "text"]
    note defs = conv_text_def conv_char_def 3(1) fl cfl Let_def
    from 3(2) consider "c = CHR ''d'' \<or> c = CHR ''i''" | "c = CHR ''o''" | "c = CHR ''u''" | "c = CHR ''x''" | "c = CHR ''X''" | "c = CHR ''c''"
      by auto
    then show ?thesis
    proof cases
      case 1
      then show ?thesis using assms(1) int [where fl = "cs_fl fs" and base = 10 and uns = False] by (auto simp: defs)
    next
      case 2
      then show ?thesis using assms(1) int [where fl = "cs_fl fs" and base = 8 and uns = True] by (auto simp: defs)
    next
      case 3
      then show ?thesis using assms(1) int [where fl = "cs_fl fs" and base = 10 and uns = True] by (auto simp: defs)
    next
      case 4
      then show ?thesis using assms(1) int [where fl = "cs_fl fs" and base = 16 and uns = True] by (auto simp: defs)
    next
      case 5
      then show ?thesis using assms(1) int [where fl = "cs_fl fs\<lparr>f_up := True\<rparr>" and base = 16 and uns = True] by (auto simp: defs)
    next
      case 6
      then show ?thesis using assms(1,3) by (auto simp: defs outch_filled split: if_splits)
    qed
  qed
qed

lemma loop_conv:
  assumes "conv_text c (cs_fl fs) long mn mx as = Some (text, as')" "c \<in> set ''diouxXcs%''"
    and "maxlen \<le> length buf" "length t < maxlen" "f \<noteq> []"
  shows "dopr_loop maxlen (dps DP_S_CONV (c # f) as (cs_fl fs) (if long then DP_C_LONG else DP_C_NONE) mn mx (filled maxlen buf t)) =
    dopr_loop maxlen (dps DP_S_DEFAULT f as' no_dp_flags DP_C_NONE 0 (- 1) (filled maxlen buf (t @ text)))"
proof -
  let ?s = "dps DP_S_CONV (c # f) as (cs_fl fs) (if long then DP_C_LONG else DP_C_NONE) mn mx (filled maxlen buf t)"
  have "conv_char maxlen ?s = Some (?s\<lparr>dp_args := as', dp_out := filled maxlen buf (t @ text)\<rparr>)"
    using conv_char_text [OF assms(1-3) refl] .
  then have "dopr_step maxlen ?s = Some (dps DP_S_DEFAULT f as' no_dp_flags DP_C_NONE 0 (- 1) (filled maxlen buf (t @ text)))"
    using assms(2,4,5) by (auto simp: dopr_step_def dps_def filled_def next_ch_def neq_Nil_conv)
  then show ?thesis by (intro loop_step) simp_all
qed

lemma print_conv_loop:
  assumes "wf_seg (Conv cs)" "seg_text (Conv cs) as = Some (out, as')" "maxlen \<le> length buf" "length t < maxlen" "f \<noteq> []"
  shows "dopr_loop maxlen (dps DP_S_FLAGS (print_conv cs @ f) as no_dp_flags DP_C_NONE 0 (- 1) (filled maxlen buf t)) =
    dopr_loop maxlen (dps DP_S_DEFAULT f as' no_dp_flags DP_C_NONE 0 (- 1) (filled maxlen buf (t @ out)))"
proof -
  obtain mn as1 mx as2 where w: "amount_value (cs_width cs) as = Some (mn, as1)" and p: "prec_value (cs_prec cs) as1 = Some (mx, as2)"
    and c: "conv_text (cs_conv cs) (cs_fl (cs_flags cs)) (cs_long cs) mn mx as2 = Some (out, as')"
    using assms(2) by (auto split: bind_splits)
  let ?ls = "(if cs_long cs then ''l'' else []) @ cs_conv cs # f"
  obtain e g where e: "?ls = e # g" "plain e" "e \<noteq> CHR ''.''"
    using assms(1) by (cases "cs_long cs") (auto simp: plain_def flag_chars_def isdigit_def)
  obtain d h where d: "print_prec (cs_prec cs) @ ?ls = d # h" "plain d"
    using e(1,2) by (cases "cs_prec cs" rule: print_prec.cases) (auto simp: plain_def flag_chars_def isdigit_def)
  have l: "p_len (filled maxlen buf t) < maxlen" using assms(4) by (simp add: filled_def)
  have nf: "no_dp_flags = cs_fl []" by (simp add: no_dp_flags_def cs_fl_def)
  have "dopr_loop maxlen (dps DP_S_FLAGS (print_conv cs @ f) as no_dp_flags DP_C_NONE 0 (- 1) (filled maxlen buf t)) =
      dopr_loop maxlen (dps DP_S_DOT (print_prec (cs_prec cs) @ ?ls) as1 (cs_fl (cs_flags cs)) DP_C_NONE mn (- 1) (filled maxlen buf t))"
    using loop_width [OF w _ d(2) l, of "cs_flags cs" h DP_C_NONE "- 1"] assms(1) by (simp add: print_conv_def nf d(1))
  also have "\<dots> = dopr_loop maxlen (dps DP_S_MOD ?ls as2 (cs_fl (cs_flags cs)) DP_C_NONE mn mx (filled maxlen buf t))"
    using loop_prec [OF p e(2,3) l, of g "cs_fl (cs_flags cs)" DP_C_NONE mn] by (simp add: e(1))
  also have "\<dots> = dopr_loop maxlen (dps DP_S_CONV (cs_conv cs # f) as2 (cs_fl (cs_flags cs)) (if cs_long cs then DP_C_LONG else DP_C_NONE)
      mn mx (filled maxlen buf t))"
    using loop_mod [OF _ l, of "cs_conv cs"] assms(1) by simp
  also have "\<dots> = dopr_loop maxlen (dps DP_S_DEFAULT f as' no_dp_flags DP_C_NONE 0 (- 1) (filled maxlen buf (t @ out)))"
    using loop_conv [OF c _ assms(3-5)] assms(1) by simp
  finally show ?thesis .
qed

lemma loop_seg:
  assumes "wf_seg g" "seg_text g as = Some (out, as')" "maxlen \<le> length buf" "length t < maxlen" "f \<noteq> []"
  shows "dopr_loop maxlen (dps DP_S_DEFAULT (print_seg g @ f) as no_dp_flags DP_C_NONE 0 (- 1) (filled maxlen buf t)) =
    dopr_loop maxlen (dps DP_S_DEFAULT f as' no_dp_flags DP_C_NONE 0 (- 1) (filled maxlen buf (t @ out)))"
proof (cases g)
  case (Text c)
  then have "dopr_step maxlen (dps DP_S_DEFAULT (c # f) as no_dp_flags DP_C_NONE 0 (- 1) (filled maxlen buf t)) =
      Some (dps DP_S_DEFAULT f as' no_dp_flags DP_C_NONE 0 (- 1) (filled maxlen buf (t @ out)))"
    using assms outch_filled [OF assms(3), of c t]
    by (auto simp: dopr_step_def dps_def next_ch_def filled_def neq_Nil_conv)
  then show ?thesis using Text by (simp add: loop_step)
next
  case (Conv cs)
  obtain c h where "print_conv cs @ f = c # h" by (cases "print_conv cs @ f") (auto simp: print_conv_def)
  then have "dopr_step maxlen (dps DP_S_DEFAULT (CHR ''%'' # print_conv cs @ f) as no_dp_flags DP_C_NONE 0 (- 1) (filled maxlen buf t)) =
      Some (dps DP_S_FLAGS (print_conv cs @ f) as no_dp_flags DP_C_NONE 0 (- 1) (filled maxlen buf t))"
    using assms(4) by (auto simp: dopr_step_def dps_def next_ch_def filled_def)
  then show ?thesis using print_conv_loop [of cs as out as' maxlen buf t f] assms Conv by (simp add: loop_step)
qed

lemma loop_segs:
  assumes "list_all wf_seg gs" "segs_text gs as = Some out" "maxlen \<le> length buf"
  shows "\<exists>s. dopr_loop maxlen (dps DP_S_DEFAULT (print_segs gs @ [nul]) as no_dp_flags DP_C_NONE 0 (- 1) (filled maxlen buf t)) = Some s \<and>
    dp_out s = filled maxlen buf (t @ out)"
  using assms(1,2)
proof (induction gs arbitrary: as t out)
  case Nil
  then show ?case using loop_stop [of "[nul]" "[]" maxlen "filled maxlen buf t" DP_S_DEFAULT as no_dp_flags DP_C_NONE 0 "- 1"]
    by (simp add: print_segs_def dps_def)
next
  case (Cons g gs)
  obtain u as' v where u: "seg_text g as = Some (u, as')" "segs_text gs as' = Some v" "out = u @ v"
    using Cons.prems(2) by (auto split: bind_splits)
  show ?case
  proof (cases "length t < maxlen")
    case True
    then show ?thesis
      using Cons.IH [of as' v "t @ u"] Cons.prems u loop_seg [OF _ u(1) assms(3) True, of "print_segs gs @ [nul]"]
      by (auto simp: print_segs_def)
  next
    case False
    then show ?thesis by (simp add: loop_stop filled_def [of _ _ t] filled_full) (simp add: dps_def filled_def)
  qed
qed

lemma terminated:
  assumes "0 < count" "count \<le> length buf"
  shows "(if min count (length out) < count - 1 then poke (overwrite buf (take count out)) (min count (length out)) nul
      else poke (overwrite buf (take count out)) (count - 1) nul) = Some (overwrite buf (take (count - 1) out @ [nul]))"
proof (cases "length out < count")
  case True
  then have "length out < length buf" using assms(2) by simp
  moreover have "count - 1 = length out" if "\<not> length out < count - 1" using that True by simp
  ultimately show ?thesis using True overwrite_snoc [of out buf nul] by (auto simp: poke_def overwrite_def)
next
  case False
  then obtain n where n: "count = Suc n" "n < length out" using assms(1) by (cases count) auto
  then show ?thesis using assms(2) by (simp add: poke_def overwrite_def take_Suc_conv_app_nth list_update_append)
qed



section \<open>Staying within the buffer\<close>

text \<open>For every format, what a turn puts out is appended.\<close>

definition within :: "nat \<Rightarrow> char list \<Rightarrow> pbuf \<Rightarrow> bool" where
  "within maxlen buf b = (\<exists>t. b = filled maxlen buf t)"

lemma outch_within: "dopr_outch maxlen c b = Some b' \<Longrightarrow> within maxlen buf b \<Longrightarrow> maxlen \<le> length buf \<Longrightarrow> within maxlen buf b'"
  by (auto simp: within_def outch_filled)

lemma withinI: "\<exists>u. r = Some (filled maxlen buf u) \<Longrightarrow> r = Some b' \<Longrightarrow> within maxlen buf b'"
  by (auto simp: within_def)

lemma fmtstr_within:
  assumes "fmtstr maxlen str fl mn mx b = Some b'" "within maxlen buf b" "maxlen \<le> length buf"
  shows "within maxlen buf b'"
proof -
  obtain t where "b = filled maxlen buf t" using assms(2) by (auto simp: within_def)
  then have "\<exists>u. fmtstr maxlen str fl mn mx b = Some (filled maxlen buf u)"
    using assms(3) by (simp add: fmtstr_def Let_def pad_loop_copy copy_loop_filled split del: if_split) blast
  then show ?thesis using assms(1) by (rule withinI)
qed

lemma fmtint_within:
  assumes "fmtint maxlen val base mn mx fl b = Some b'" "within maxlen buf b" "maxlen \<le> length buf"
  shows "within maxlen buf b'"
proof -
  obtain t where "b = filled maxlen buf t" using assms(2) by (auto simp: within_def)
  then have "\<exists>u. fmtint maxlen val base mn mx fl b = Some (filled maxlen buf u)"
    using assms(3) unfolding fmtint_def Let_def by (simp add: outs_filled case_prod_beta split del: if_split) blast
  then show ?thesis using assms(1) by (rule withinI)
qed

lemma fmtfp_within:
  assumes "fmtfp parts maxlen mn mx fl b = Some b'" "within maxlen buf b" "maxlen \<le> length buf"
  shows "within maxlen buf b'"
proof -
  obtain t where b: "b = filled maxlen buf t" using assms(2) by (auto simp: within_def)
  have "(if zeros then do {b \<leftarrow> outs maxlen sign b; outs maxlen zs b} else Some b) =
      Some (filled maxlen buf (t @ (if zeros then sign @ zs else [])))" for zeros sign zs
    using assms(3) by (simp add: b outs_filled)
  then have "\<exists>u. fmtfp parts maxlen mn mx fl b = Some (filled maxlen buf u)"
    using assms(3) unfolding fmtfp_def Let_def case_prod_beta by (simp only: bind.bind_lunit outs_filled) blast
  then show ?thesis using assms(1) by (rule withinI)
qed

lemma conv_int_within:
  assumes "conv_int maxlen fl uns base s = Some s'" "within maxlen buf (dp_out s)" "maxlen \<le> length buf"
  shows "within maxlen buf (dp_out s')"
  using assms by (auto simp: conv_int_def Let_def split: bind_splits) (erule (2) fmtint_within)

lemma next_ch_out: "next_ch s = Some s' \<Longrightarrow> dp_out s' = dp_out s"
  by (auto simp: next_ch_def split: list.splits)

lemma conv_char_within:
  assumes "conv_char maxlen s = Some s'" "within maxlen buf (dp_out s)" "maxlen \<le> length buf"
  shows "within maxlen buf (dp_out s')"
  using assms unfolding conv_char_def Let_def
  by (auto split: if_splits bind_splits list.splits va.splits
      intro: conv_int_within fmtint_within fmtfp_within fmtstr_within dest: next_ch_out)
    (erule (2) outch_within)+

lemma dopr_step_within:
  assumes "maxlen \<le> length buf" "within maxlen buf (dp_out s)" "dopr_step maxlen s = Some s'"
  shows "within maxlen buf (dp_out s')"
proof (cases "dp_ch s = nul \<or> p_len (dp_out s) \<ge> maxlen")
  case False
  then show ?thesis using assms(2,3)
    by (cases "dp_state s")
      (auto simp: dopr_step_def va_int_def Let_def split: if_splits bind_splits
        dest!: next_ch_out dest: outch_within [OF _ _ assms(1)] conv_char_within [OF _ _ assms(1)])
qed (use assms(2,3) in \<open>auto simp: dopr_step_def\<close>)

lemma dopr_loop_within:
  assumes "maxlen \<le> length buf"
  shows "within maxlen buf (dp_out s) \<Longrightarrow> dopr_loop maxlen s = Some s' \<Longrightarrow> within maxlen buf (dp_out s')"
  using assms
proof (induction maxlen s rule: dopr_loop.induct)
  case (1 maxlen s)
  show ?case
  proof (cases "dp_state s = DP_S_DONE")
    case False
    then obtain u where "dopr_step maxlen s = Some u" "dopr_loop maxlen u = Some s'"
      using "1.prems"(2) by (auto simp: dopr_loop.simps [of maxlen s] split: option.splits)
    then show ?thesis using "1.IH" [OF False] "1.prems" dopr_step_within by blast
  qed (use 1 in \<open>simp add: dopr_loop.simps\<close>)
qed

lemma drop_overwrite: "length xs \<le> k \<Longrightarrow> drop k (overwrite buf xs) = drop k buf"
  by (simp add: overwrite_def)

text \<open>C31. Whatever the format and the arguments, when \<open>mutt_vsnprintf\<close> returns from a call with a buffer of at least \<open>count\<close>
  cells, it has written nothing behind the first \<open>count\<close>, the result is below \<open>count\<close>, and the
  string ends there.\<close>

theorem vsnprintf_bounds:
  assumes "mutt_vsnprintf str count fmt args = Some (n, str')" "0 < count" "count \<le> length str"
  shows "n < count \<and> length str' = length str \<and> str' ! n = nul \<and> drop count str' = drop count str"
proof -
  let ?str = "str[0 := nul]"
  obtain c f where f: "fmt = c # f" using assms(1) by (auto simp: mutt_vsnprintf_def dopr_def split: bind_splits list.splits)
  define s0 where "s0 = \<lparr>dp_state = DP_S_DEFAULT, dp_ch = c, dp_format = f, dp_args = args, dp_fl = no_dp_flags,
      dp_cfl = DP_C_NONE, dp_min = 0, dp_max = - 1, dp_out = \<lparr>p_buf = ?str, p_len = 0\<rparr>, dp_stored = []\<rparr>"
  obtain s where s: "dopr_loop count s0 = Some s"
    and e: "(if p_len (dp_out s) < count - 1 then poke (p_buf (dp_out s)) (p_len (dp_out s)) nul
      else poke (p_buf (dp_out s)) (count - 1) nul) = Some str'" and n: "n = length (cstr str')"
    using assms by (auto simp: mutt_vsnprintf_def dopr_def f poke_def [of str] s0_def [symmetric] split: bind_splits if_splits)
  have "within count ?str (dp_out s0)"
    unfolding within_def by (rule exI [of _ "[]"]) (simp add: s0_def filled_def overwrite_def)
  then obtain t where "dp_out s = filled count ?str t" using dopr_loop_within [OF _ _ s, of ?str] assms(3) by (auto simp: within_def)
  then have "p_len (dp_out s) = min count (length t)" "p_buf (dp_out s) = overwrite ?str (take count t)" by (simp_all add: filled_def)
  then have t: "str' = overwrite ?str (take (count - 1) t @ [nul])"
    using e terminated [OF assms(2), of ?str t] assms(3) by (simp only: length_list_update option.inject)
  have "n < length (take (count - 1) t @ [nul])"
  proof -
    have "cstr str' = takeWhile (\<lambda>c. c \<noteq> nul) (take (count - 1) t)"
      unfolding t cstr_def overwrite_def by (simp add: takeWhile_tail)
    then show ?thesis using n length_takeWhile_le [of "\<lambda>c. c \<noteq> nul" "take (count - 1) t"] by auto
  qed
  moreover have l: "length (take (count - 1) t @ [nul]) \<le> count" using assms(2) by simp
  ultimately have "n < count" by simp
  moreover have len: "length str' = length str" using l assms(3) by (simp add: t overwrite_def)
  moreover have "str' ! n = nul"
    using \<open>n < count\<close> assms(3) len n nth_length_takeWhile [of "\<lambda>c. c \<noteq> nul" str'] by (simp add: cstr_def)
  moreover have "drop count str' = drop count str"
    using assms(2) drop_overwrite [OF l, of ?str] by (simp only: t drop_update_cancel)
  ultimately show ?thesis by simp
qed

theorem vsnprintf_bounds_witness:
  "\<exists>str'. mutt_vsnprintf (replicate 5 CHR ''z'') 4 (''%5.3s%w!'' @ [nul]) [VaStr None] = Some (3, str') \<and> 3 < (4 :: nat) \<and>
    length str' = 5 \<and> str' ! 3 = nul \<and> drop 4 str' = ''z''"
proof -
  have e: "mutt_vsnprintf (replicate 5 CHR ''z'') 4 (''%5.3s%w!'' @ [nul]) [VaStr None] = Some (3, ''<NU'' @ nul # ''z'')" by code_simp
  show ?thesis using vsnprintf_bounds [OF e] e by simp
qed

text \<open>Where the output is not what the standard asks for.\<close>

lemma fmtint_drops_first_digit:
  "fmtint 32 (- 1) 10 0 (- 1) (no_dp_flags\<lparr>f_unsigned := True\<rparr>) (filled 32 (replicate 32 nul) t) =
    Some (filled 32 (replicate 32 nul) (t @ ''8446744073709551615''))"
proof -
  have "unat (- 1 :: u64) = 18446744073709551615" by (simp add: unat_eq_nat_uint uint_word_ariths)
  moreover have "converted False 10 18446744073709551615 = rev ''8446744073709551615''"
    by (simp add: converted_def convert_loop.simps digit_def)
  ultimately show ?thesis by (simp add: fmtint_def no_dp_flags_def outs_filled)
qed

lemma vsnprintf_cuts_padding:
  "map_option (\<lambda>(n, buf). (n, cstr buf)) (mutt_vsnprintf (replicate 32 nul) 32 (''%5.3s'' @ [nul]) [VaStr (Some ''a'')]) =
    Some (3, ''   '')"
  by code_simp

lemma vsnprintf_fraction_zeros:
  "map_option (\<lambda>(n, buf). (n, cstr buf)) (mutt_vsnprintf (replicate 32 nul) 32 (''%.2f'' @ [nul]) [VaFp (\<lambda>d. (False, 1, 5 * 10 ^ d div 100))]) =
    Some (4, ''1.50'')"
  by code_simp

end
