(* ===== verification/Quid_Base.thy ===== *)
theory Quid_Base
  imports Prelude "HOL-Library.Signed_Division"
begin

text \<open>
  Support routines of the identifier library (\<open>src/quid\<close>): decimal rendering of integers
  (\<open>itoa.c\<close>) and the global error register (\<open>error.c\<close>).
\<close>

section \<open>Decimal rendering\<close>

text \<open>
  \<open>itoa\<close> fills its static buffer of \<open>INT_DIGITS + 2\<close> cells from the back; \<open>p\<close> is the index the
  pointer stands at. C's remainder and quotient truncate towards zero. \<open>None\<close> would be a write
  before the buffer.
\<close>

definition INT_DIGITS :: nat where
  "INT_DIGITS = 19"

fun itoa_loop :: "bool \<Rightarrow> nat \<Rightarrow> int \<Rightarrow> char list \<Rightarrow> (nat \<times> char list) option" where
  "itoa_loop neg 0 i buf = None"
| "itoa_loop neg (Suc p) i buf = do {
     buf \<leftarrow> poke buf p (char_of (nat (if neg then 48 - i smod 10 else 48 + i smod 10)));
     let i = i sdiv 10;
     if i \<noteq> 0 then itoa_loop neg p i buf else Some (p, buf)
   }"

definition itoa :: "int \<Rightarrow> char list \<Rightarrow> (nat \<times> char list) option" where
  "itoa i buf =
     (let p = INT_DIGITS + 1 in
      if i \<ge> 0 then itoa_loop False p i buf
      else do {
        (p, buf) \<leftarrow> itoa_loop True p i buf;
        case p of 0 \<Rightarrow> None | Suc p \<Rightarrow> do { buf \<leftarrow> poke buf p CHR ''-''; Some (p, buf) }
      })"

lemma sdiv_nat: "int n sdiv 10 = int (n div 10)" "- int n sdiv 10 = - int (n div 10)"
  "int n smod 10 = int (n mod 10)" "- int n smod 10 = - int (n mod 10)"
  by (cases "n = 0"; simp add: signed_divide_int_def signed_modulo_int_def zdiv_int zmod_int)+

lemma itoa_loop_decimal:
  assumes "n < 10 ^ p" "p \<le> length buf" "0 < p"
  shows "\<exists>q. itoa_loop neg p (if neg then - int n else int n) buf =
      Some (q, take q buf @ decimal n @ drop p buf) \<and> q + length (decimal n) = p"
  using assms
proof (induction p arbitrary: n buf)
  case (Suc p)
  let ?c = "char_of (48 + n mod 10) :: char"
  have digit: "nat (if neg then 48 - (if neg then - int n else int n) smod 10 else 48 + (if neg then - int n else int n) smod 10)
      = 48 + n mod 10" by (simp add: sdiv_nat nat_add_distrib)
  show ?case
  proof (cases "n < 10")
    case True
    then show ?thesis
      using Suc.prems digit
      by (auto simp: sdiv_nat poke_def decimal.simps [of n] upd_conv_take_nth_drop Suc_le_eq)
  next
    case False
    then have p: "0 < p" "n div 10 < 10 ^ p" using Suc.prems by (cases p, auto simp: div_less_iff_less_mult)
    have p1: "n div 10 \<noteq> 0" using False by simp
    obtain q where q: "itoa_loop neg p (if neg then - int (n div 10) else int (n div 10)) (buf[p := ?c]) =
        Some (q, take q (buf[p := ?c]) @ decimal (n div 10) @ drop p (buf[p := ?c]))"
        "q + length (decimal (n div 10)) = p"
      using Suc.IH [of "n div 10" "buf[p := ?c]"] p Suc.prems by auto
    have buf: "take q (buf[p := ?c]) = take q buf" "drop p (buf[p := ?c]) = ?c # drop (Suc p) buf"
      using q(2) Suc.prems by (simp_all add: upd_conv_take_nth_drop Suc_le_eq)
    have "itoa_loop neg (Suc p) (if neg then - int n else int n) buf =
        itoa_loop neg p (if neg then - int (n div 10) else int (n div 10)) (buf[p := ?c])"
      using p1 Suc.prems digit by (simp add: sdiv_nat poke_def Suc_le_eq Let_def)
    then show ?thesis using q False by (simp add: buf decimal.simps [of n])
  qed
qed simp


definition decimal_value :: "string \<Rightarrow> nat" where
  "decimal_value s = foldl (\<lambda>v c. 10 * v + (of_char c - 48)) 0 s"

lemma decimal_value_decimal: "decimal_value (decimal n) = n"
proof (induction n rule: decimal.induct)
  case (1 n)
  have "of_char (char_of (48 + n mod 10) :: char) = (48 + n mod 10 :: nat)" by simp
  then show ?case
    using 1 by (subst decimal.simps) (simp add: decimal_value_def mult.commute)
qed

lemma decimal_nul_free: "nul_free (decimal n)"
proof (induction n rule: decimal.induct)
  case (1 n)
  have "of_char (char_of (48 + n mod 10) :: char) = (48 + n mod 10 :: nat)" by simp
  then have "of_char (char_of (48 + n mod 10) :: char) \<noteq> (of_char nul :: nat)" by simp
  then have "char_of (48 + n mod 10) \<noteq> nul" by metis
  then show ?case using 1 by (subst decimal.simps) simp
qed

text \<open>
  \<open>itoa\<close> never writes outside its buffer, for no \<open>long\<close> value (the most negative one uses all of
  it), keeps the final NUL, and the string it returns is the decimal notation of its argument.
\<close>

theorem itoa_correct:
  assumes "- (2 ^ 63) \<le> i" "i < 2 ^ 63" "length buf = INT_DIGITS + 2" "last buf = nul"
  shows "\<exists>p buf' ds. itoa i buf = Some (p, buf') \<and> length buf' = INT_DIGITS + 2 \<and> last buf' = nul \<and>
    cstr (drop p buf') = (if i < 0 then CHR ''-'' # ds else ds) \<and> ds = decimal (nat \<bar>i\<bar>) \<and> int (decimal_value ds) = \<bar>i\<bar>"
proof -
  let ?n = "nat \<bar>i\<bar>"
  have n: "?n < 10 ^ 19" using assms by (auto simp: nat_less_iff)
  obtain q where q: "itoa_loop (i < 0) 20 (if i < 0 then - int ?n else int ?n) buf =
      Some (q, take q buf @ decimal ?n @ drop 20 buf)" "q + length (decimal ?n) = 20"
    using itoa_loop_decimal [of ?n 20 buf "i < 0"] n assms(3) by (auto simp: INT_DIGITS_def)
  have q0: "1 \<le> q" using decimal_length [OF n] q(2) by simp
  have end20: "drop 20 buf = [nul]"
    using assms(3,4) by (cases buf rule: rev_cases) (auto simp: INT_DIGITS_def)
  have val: "int (decimal_value (decimal ?n)) = \<bar>i\<bar>" by (simp add: decimal_value_decimal)
  show ?thesis
  proof (cases "i < 0")
    case False
    then show ?thesis using q val assms(3)
      by (simp add: itoa_def end20 INT_DIGITS_def decimal_nul_free)
  next
    case True
    obtain p where p: "q = Suc p" using q0 by (cases q) simp_all
    then have "itoa i buf = Some (p, take p buf @ CHR ''-'' # decimal ?n @ [nul])"
      using q True assms(3)
      by (simp add: itoa_def end20 INT_DIGITS_def poke_def take_Suc_conv_app_nth list_update_append)
    then show ?thesis using q p True val assms(3) decimal_nul_free [of ?n]
      by (simp add: INT_DIGITS_def flip: append_Cons)
  qed
qed

theorem itoa_correct_witness:
  "\<exists>p buf'. itoa (- (2 ^ 63)) (replicate 21 nul) = Some (p, buf') \<and>
     cstr (drop p buf') = CHR ''-'' # decimal (2 ^ 63)"
  using itoa_correct [of "- (2 ^ 63)" "replicate 21 nul"] by (simp add: INT_DIGITS_def) blast

section \<open>The last error\<close>

text \<open>
  The global \<open>struct error\<close>: a cell array for the code and the description, \<open>NULL\<close> when there is
  none. \<open>strncpy\<close> copies at most its bound and pads with NUL; the outcome of \<open>strdup\<close> (whether it
  has memory) is an argument.
\<close>

definition ERROR_CODE :: nat where
  "ERROR_CODE = 14"

record error_state =
  error_squid :: "char list"
  description :: "string option"

definition error_clear :: "error_state \<Rightarrow> error_state" where
  "error_clear st =
     st\<lparr>error_squid := overwrite (error_squid st) (replicate (12 + 1) nul), description := None\<rparr>"

definition iserror :: "error_state \<Rightarrow> bool" where
  "iserror st = (description st \<noteq> None)"

definition strncpy :: "char list \<Rightarrow> string \<Rightarrow> nat \<Rightarrow> char list" where
  "strncpy dst src n = overwrite dst (take n (src @ replicate n nul))"

definition error_throw :: "bool \<Rightarrow> string \<Rightarrow> string \<Rightarrow> error_state \<Rightarrow> error_state" where
  "error_throw mem error_code error_message st =
     (let st = error_clear st in
      st\<lparr>error_squid := strncpy (error_squid st) error_code ERROR_CODE,
         description := (if mem then Some error_message else None)\<rparr>)"

definition error_throw_fatal :: "bool \<Rightarrow> string \<Rightarrow> string \<Rightarrow> error_state \<Rightarrow> error_state \<times> string" where
  "error_throw_fatal mem error_code error_message st =
     (error_throw mem error_code error_message st, ''[erro] '' @ error_message @ [CHR 0x0a])"

definition get_error_code :: "error_state \<Rightarrow> string option" where
  "get_error_code st = (if nul \<in> set (error_squid st) then Some (cstr (error_squid st)) else None)"

definition get_error_description :: "error_state \<Rightarrow> string option" where
  "get_error_description st = description st"

text \<open>
  The error register: after a throw with a code of at most 13 characters the code and the
  message read back and \<open>iserror\<close> holds (as long as the message could be copied), whatever was there
  before; a code of 14 or more characters leaves the array without a terminator; \<open>error_clear\<close>
  makes the code empty and \<open>iserror\<close> false.
\<close>

theorem error_throw_correct:
  assumes "length (error_squid st) = ERROR_CODE" "nul_free error_code"
  shows "length (error_squid (error_throw mem error_code msg st)) = ERROR_CODE"
    and "get_error_code (error_throw mem error_code msg st) =
      (if length error_code < ERROR_CODE then Some error_code else None)"
    and "get_error_description (error_throw mem error_code msg st) = (if mem then Some msg else None)"
    and "iserror (error_throw mem error_code msg st) \<longleftrightarrow> mem"
    and "get_error_code (error_clear st) = Some []" and "\<not> iserror (error_clear st)"
proof -
  have len: "length (error_squid (error_clear st)) = 14"
    using assms by (simp add: error_clear_def ERROR_CODE_def)
  then have sq: "error_squid (error_throw mem error_code msg st) = take 14 (error_code @ replicate 14 nul)"
    by (simp add: error_throw_def strncpy_def ERROR_CODE_def overwrite_def)
  then show "length (error_squid (error_throw mem error_code msg st)) = ERROR_CODE"
    by (simp add: ERROR_CODE_def)
  show "get_error_code (error_throw mem error_code msg st) =
      (if length error_code < ERROR_CODE then Some error_code else None)"
  proof (cases "length error_code < 14")
    case True
    then have "take 14 (error_code @ replicate 14 nul) = error_code @ nul # replicate (13 - length error_code) nul"
      by (simp add: Suc_diff_le flip: replicate_Suc)
    then show ?thesis using True assms(2) by (simp add: get_error_code_def sq ERROR_CODE_def)
  next
    case False
    then have "nul \<notin> set (take 14 error_code)" using nul_free_take [OF assms(2), of 14] by (simp add: nul_free_def)
    then show ?thesis using False by (simp add: get_error_code_def sq ERROR_CODE_def)
  qed
  show "get_error_code (error_clear st) = Some []"
    by (simp add: get_error_code_def error_clear_def overwrite_def numeral_eq_Suc cstr_def)
qed (simp_all add: get_error_description_def iserror_def error_throw_def error_clear_def Let_def)

theorem error_throw_correct_witness:
  "get_error_code (error_throw True ''0x1'' ''msg'' \<lparr>error_squid = replicate 14 CHR ''x'', description = None\<rparr>) = Some ''0x1''"
  by (subst error_throw_correct(2)) (simp_all add: ERROR_CODE_def)

end
