(* ===== verification/Quid_Zmalloc.thy ===== *)
theory Quid_Zmalloc
  imports Prelude "HOL-Library.Tree"
begin

text \<open>
  The hierarchical allocator of the identifier library (\<open>src/quid/zmalloc.c\<close>). Every block carries a
  header of three pointers before the user data: the first child, the next sibling and the
  previous sibling (the parent, for a first child). The heap maps the user address of a live
  block to its header and data; \<open>None\<close> as a result is undefined behaviour (a dead block or
  \<open>NULL\<close> is dereferenced) or a failed \<open>zassert\<close>.
\<close>

record zblock =
  zchild :: "addr option"
  znext :: "addr option"
  zprev :: "addr option"
  zdata :: "char list"

type_synonym zheap = "addr \<rightharpoonup> zblock"

section \<open>Header accesses\<close>

definition zput :: "zheap \<Rightarrow> addr \<Rightarrow> (zblock \<Rightarrow> zblock) \<Rightarrow> zheap option" where
  "zput h m f = map_option (\<lambda>b. h(m \<mapsto> f b)) (h m)"

definition zderef :: "(zblock \<Rightarrow> addr option) \<Rightarrow> zheap \<Rightarrow> addr option \<Rightarrow> addr option option" where
  "zderef field h p = do { m \<leftarrow> p; b \<leftarrow> h m; Some (field b) }"

definition is_root :: "zheap \<Rightarrow> addr \<Rightarrow> bool option" where
  "is_root h m = map_option (\<lambda>b. zprev b = None) (h m)"

definition is_first :: "zheap \<Rightarrow> addr \<Rightarrow> bool option" where
  "is_first h m = do { p \<leftarrow> zderef zprev h (Some m); n \<leftarrow> zderef znext h p; Some (n \<noteq> Some m) }"

section \<open>Linking\<close>

definition unlink_block :: "addr \<Rightarrow> zheap \<Rightarrow> zheap option" where
  "unlink_block m h = do {
     n \<leftarrow> zderef znext h (Some m);
     h \<leftarrow> (case n of None \<Rightarrow> Some h
           | Some n' \<Rightarrow> do { p \<leftarrow> zderef zprev h (Some m); zput h n' (\<lambda>b. b\<lparr>zprev := p\<rparr>) });
     first \<leftarrow> is_first h m;
     h \<leftarrow> (if first then Some h
           else do { p \<leftarrow> zderef zprev h (Some m); n \<leftarrow> zderef znext h (Some m);
                     q \<leftarrow> p; zput h q (\<lambda>b. b\<lparr>znext := n\<rparr>) });
     first \<leftarrow> is_first h m;
     (if first
      then do { p \<leftarrow> zderef zprev h (Some m); n \<leftarrow> zderef znext h (Some m);
                q \<leftarrow> p; zput h q (\<lambda>b. b\<lparr>zchild := n\<rparr>) }
      else Some h)
   }"

definition link_block :: "addr \<Rightarrow> addr \<Rightarrow> zheap \<Rightarrow> zheap option" where
  "link_block m parent h = do {
     c \<leftarrow> zderef zchild h (Some parent);
     h \<leftarrow> (case c of None \<Rightarrow> Some h
           | Some c' \<Rightarrow> do { h \<leftarrow> zput h m (\<lambda>b. b\<lparr>znext := c\<rparr>); zput h c' (\<lambda>b. b\<lparr>zprev := Some m\<rparr>) });
     h \<leftarrow> zput h m (\<lambda>b. b\<lparr>zprev := Some parent\<rparr>);
     zput h parent (\<lambda>b. b\<lparr>zchild := Some m\<rparr>)
   }"

definition tree_set_parent :: "addr option \<Rightarrow> addr option \<Rightarrow> zheap \<Rightarrow> zheap option" where
  "tree_set_parent mem parent h =
     (case mem of None \<Rightarrow> Some h
      | Some m \<Rightarrow> do {
          root \<leftarrow> is_root h m;
          h \<leftarrow> (if root then Some h else unlink_block m h);
          h \<leftarrow> zput h m (\<lambda>b. b\<lparr>znext := None, zprev := None\<rparr>);
          (case parent of None \<Rightarrow> Some h | Some q \<Rightarrow> link_block m q h)
        })"

text \<open>The loop over the previous siblings; it ends on every well-formed heap.\<close>

partial_function (option) get_parent_loop :: "zheap \<Rightarrow> addr \<Rightarrow> addr option option" where
  "get_parent_loop h m = do {
     first \<leftarrow> is_first h m;
     if first then zderef zprev h (Some m)
     else do { p \<leftarrow> zderef zprev h (Some m); q \<leftarrow> p; get_parent_loop h q }
   }"

definition tree_get_parent :: "addr option \<Rightarrow> zheap \<Rightarrow> addr option option" where
  "tree_get_parent mem h =
     (case mem of None \<Rightarrow> Some None
      | Some m \<Rightarrow> do { root \<leftarrow> is_root h m; if root then Some None else get_parent_loop h m })"

partial_function (option) last_sibling :: "zheap \<Rightarrow> addr \<Rightarrow> addr option" where
  "last_sibling h m = do {
     n \<leftarrow> zderef znext h (Some m);
     (case n of None \<Rightarrow> Some m | Some n' \<Rightarrow> last_sibling h n')
   }"

definition tree_steal :: "addr option \<Rightarrow> addr option \<Rightarrow> zheap \<Rightarrow> zheap option" where
  "tree_steal mem parent h =
     (case mem of None \<Rightarrow> Some h
      | Some m \<Rightarrow> do {
          h \<leftarrow> tree_set_parent mem None h;
          c \<leftarrow> zderef zchild h mem;
          (case c of None \<Rightarrow> Some h
           | Some c' \<Rightarrow> do {
               h \<leftarrow> (case parent of None \<Rightarrow> Some h
                     | Some q \<Rightarrow> do {
                         pc \<leftarrow> zderef zchild h parent;
                         h \<leftarrow> (case pc of None \<Rightarrow> Some h
                               | Some pc' \<Rightarrow> do {
                                   l \<leftarrow> last_sibling h c';
                                   h \<leftarrow> zput h pc' (\<lambda>b. b\<lparr>zprev := Some l\<rparr>);
                                   zput h l (\<lambda>b. b\<lparr>znext := pc\<rparr>)
                                 });
                         c \<leftarrow> zderef zchild h mem;
                         zput h q (\<lambda>b. b\<lparr>zchild := c\<rparr>)
                       });
               c \<leftarrow> zderef zchild h mem;
               c' \<leftarrow> c;
               h \<leftarrow> zput h c' (\<lambda>b. b\<lparr>zprev := parent\<rparr>);
               zput h m (\<lambda>b. b\<lparr>zchild := None\<rparr>)
             })
        })"

section \<open>Allocation\<close>

text \<open>
  The address that the C allocator returns is an argument (\<open>None\<close>: out of memory), as are the
  cells of the new block (indeterminate for \<open>malloc\<close>).
\<close>

definition tree_zmalloc_init :: "addr option \<Rightarrow> char list \<Rightarrow> addr option \<Rightarrow> zheap \<Rightarrow> (addr option \<times> zheap) option" where
  "tree_zmalloc_init mem cells parent h =
     (case mem of None \<Rightarrow> Some (None, h)
      | Some m \<Rightarrow> do {
          h \<leftarrow> tree_set_parent mem parent (h(m \<mapsto> \<lparr>zchild = None, znext = None, zprev = None, zdata = cells\<rparr>));
          Some (mem, h)
        })"

definition tree_zmalloc ::
  "addr option \<Rightarrow> char list \<Rightarrow> nat \<Rightarrow> addr option \<Rightarrow> zheap \<Rightarrow> (addr option \<times> zheap) option" where
  "tree_zmalloc mem garbage sz parent h = tree_zmalloc_init mem (take sz garbage) parent h"

definition tree_zcalloc ::
  "addr option \<Rightarrow> nat \<Rightarrow> nat \<Rightarrow> addr option \<Rightarrow> zheap \<Rightarrow> (addr option \<times> zheap) option" where
  "tree_zcalloc mem num sz parent h =
     (if num = 0 \<and> mem \<noteq> None then None
      else tree_zmalloc_init mem (replicate (num * (sz + 24) - 24) nul) parent h)"

definition tree_zrealloc ::
  "addr option \<Rightarrow> char list \<Rightarrow> addr option \<Rightarrow> nat \<Rightarrow> zheap \<Rightarrow> (addr option \<times> zheap) option" where
  "tree_zrealloc mem garbage usr sz h =
     (case (usr, mem) of
        (None, _) \<Rightarrow> tree_zmalloc_init mem (take sz garbage) None h
      | (Some u, None) \<Rightarrow> (if u \<in> dom h then tree_zmalloc_init None [] None h else None)
      | (Some u, Some m) \<Rightarrow> do {
          b \<leftarrow> h u;
          let h = (h(u := None))(m \<mapsto> b\<lparr>zdata := take sz (zdata b @ garbage)\<rparr>);
          if m = u then Some (mem, h)
          else do {
            c \<leftarrow> zderef zchild h mem;
            h \<leftarrow> (case c of None \<Rightarrow> Some h | Some c' \<Rightarrow> zput h c' (\<lambda>b. b\<lparr>zprev := mem\<rparr>));
            root \<leftarrow> is_root h m;
            h \<leftarrow> (if root then Some h
                  else do {
                    n \<leftarrow> zderef znext h mem;
                    h \<leftarrow> (case n of None \<Rightarrow> Some h | Some n' \<Rightarrow> zput h n' (\<lambda>b. b\<lparr>zprev := mem\<rparr>));
                    p \<leftarrow> zderef zprev h mem;
                    q \<leftarrow> p;
                    pn \<leftarrow> zderef znext h p;
                    h \<leftarrow> (if pn = usr then zput h q (\<lambda>b. b\<lparr>znext := mem\<rparr>) else Some h);
                    pc \<leftarrow> zderef zchild h p;
                    (if pc = usr then zput h q (\<lambda>b. b\<lparr>zchild := mem\<rparr>) else Some h)
                  });
            Some (mem, h)
          }
        })"

definition tree_zstrdup ::
  "addr option \<Rightarrow> char list \<Rightarrow> string \<Rightarrow> addr option \<Rightarrow> zheap \<Rightarrow> (addr option \<times> zheap) option" where
  "tree_zstrdup mem garbage str parent h = do {
     (copy, h) \<leftarrow> tree_zmalloc mem garbage (length str + 1) parent h;
     case copy of None \<Rightarrow> Some (None, h)
     | Some m \<Rightarrow> do { h \<leftarrow> zput h m (\<lambda>b. b\<lparr>zdata := overwrite (zdata b) (str @ [nul])\<rparr>); Some (copy, h) }
   }"

definition tree_zstrndup ::
  "addr option \<Rightarrow> char list \<Rightarrow> char list \<Rightarrow> nat \<Rightarrow> addr option \<Rightarrow> zheap \<Rightarrow> (addr option \<times> zheap) option" where
  "tree_zstrndup mem garbage str n parent h = do {
     (copy, h) \<leftarrow> tree_zmalloc mem garbage (n + 1) parent h;
     case copy of None \<Rightarrow> Some (None, h)
     | Some m \<Rightarrow>
         if length str < n then None
         else do {
           h \<leftarrow> zput h m (\<lambda>b. b\<lparr>zdata := overwrite (zdata b) (take n str)\<rparr>);
           b \<leftarrow> h m;
           cells \<leftarrow> poke (zdata b) n nul;
           h \<leftarrow> zput h m (\<lambda>b. b\<lparr>zdata := cells\<rparr>);
           Some (copy, h)
         }
   }"

section \<open>Release\<close>

definition zfree :: "zheap \<Rightarrow> addr \<Rightarrow> zheap option" where
  "zfree h m = (if m \<in> dom h then Some (h(m := None)) else None)"

partial_function (option) zfree_rec :: "addr option \<Rightarrow> zheap \<Rightarrow> zheap option" where
  "zfree_rec mem h =
     (case mem of None \<Rightarrow> Some h
      | Some m \<Rightarrow> do {
          p \<leftarrow> zderef zprev h mem;
          if p = None then None
          else do {
            h \<leftarrow> zput h m (\<lambda>b. b\<lparr>zprev := None\<rparr>);
            c \<leftarrow> zderef zchild h mem;
            h \<leftarrow> zfree_rec c h;
            n \<leftarrow> zderef znext h mem;
            h \<leftarrow> zfree_rec n h;
            zfree h m
          }
        })"

definition tree_zfree :: "addr option \<Rightarrow> zheap \<Rightarrow> zheap option" where
  "tree_zfree mem h =
     (case mem of None \<Rightarrow> Some h
      | Some m \<Rightarrow> do {
          h \<leftarrow> tree_set_parent mem None h;
          c \<leftarrow> zderef zchild h mem;
          h \<leftarrow> zfree_rec c h;
          zfree h m
        })"


text \<open>
  The duplicators \<open>zlldup\<close>, \<open>zlludup\<close>, \<open>zldup\<close>, \<open>zludup\<close>, \<open>zidup\<close> and \<open>ziudup\<close> are one routine at
  six element types; the outcome of \<open>malloc\<close> is not tested.
\<close>

definition zlldup :: "bool \<Rightarrow> 'a list \<Rightarrow> nat \<Rightarrow> 'a list option" where
  "zlldup mem src len = (if mem \<and> len \<le> length src then Some (take len src) else None)"

section \<open>Representation of hierarchies\<close>

text \<open>
  A hierarchy is represented in first-child/next-sibling form: the left subtree of a node holds
  its children, the right subtree its later siblings; the \<open>prev\<close> pointer is then the parent in
  the binary tree. \<open>children p t\<close> and \<open>set_children p s t\<close> read and replace the children of \<open>p\<close>.
\<close>

fun rep :: "zheap \<Rightarrow> addr option \<Rightarrow> addr tree \<Rightarrow> addr option \<Rightarrow> bool" where
  "rep h prv Leaf p \<longleftrightarrow> p = None"
| "rep h prv (Node c a n) p \<longleftrightarrow> p = Some a \<and>
     (\<exists>b. h a = Some b \<and> zprev b = prv \<and> rep h (Some a) c (zchild b) \<and> rep h (Some a) n (znext b))"

definition distinct_tree :: "addr tree \<Rightarrow> bool" where
  "distinct_tree t \<longleftrightarrow> distinct (inorder t)"

fun children :: "addr \<Rightarrow> addr tree \<Rightarrow> addr tree" where
  "children p Leaf = Leaf"
| "children p (Node c a n) = (if a = p then c else if p \<in> set_tree c then children p c else children p n)"

fun set_children :: "addr \<Rightarrow> addr tree \<Rightarrow> addr tree \<Rightarrow> addr tree" where
  "set_children p s Leaf = Leaf"
| "set_children p s (Node c a n) =
     (if a = p then Node s a n else Node (set_children p s c) a (set_children p s n))"

definition root_ptr :: "addr tree \<Rightarrow> addr option" where
  "root_ptr t = (case t of Leaf \<Rightarrow> None | Node c a n \<Rightarrow> Some a)"

lemma root_ptr_simps [simp]: "root_ptr Leaf = None" "root_ptr (Node c a n) = Some a"
  by (simp_all add: root_ptr_def)

lemma distinct_tree_simps [simp]:
  "distinct_tree Leaf"
  "distinct_tree (Node c a n) \<longleftrightarrow> distinct_tree c \<and> distinct_tree n \<and> a \<notin> set_tree c \<and> a \<notin> set_tree n \<and>
     set_tree c \<inter> set_tree n = {}"
  by (auto simp: distinct_tree_def)

lemma rep_root_ptr: "rep h prv t p \<Longrightarrow> p = root_ptr t"
  by (cases t) auto

lemma rep_frame: "rep h prv t p \<Longrightarrow> (\<And>a. a \<in> set_tree t \<Longrightarrow> h' a = h a) \<Longrightarrow> rep h' prv t p"
  by (induction h prv t p rule: rep.induct) auto

lemma rep_upd [simp]: "a \<notin> set_tree t \<Longrightarrow> rep (h(a := x)) prv t p \<longleftrightarrow> rep h prv t p"
proof
  assume "a \<notin> set_tree t" "rep (h(a := x)) prv t p"
  then show "rep h prv t p" by (elim rep_frame) auto
next
  assume "a \<notin> set_tree t" "rep h prv t p"
  then show "rep (h(a := x)) prv t p" by (elim rep_frame) auto
qed

lemma rep_live: "rep h prv t p \<Longrightarrow> set_tree t \<subseteq> dom h"
proof (induction h prv t p rule: rep.induct)
  case (2 h prv c a n p)
  then show ?case using domI [of h a] by force
qed simp

lemma set_children_id: "p \<notin> set_tree t \<Longrightarrow> set_children p s t = t"
  by (induction t) auto

lemma set_tree_children: "set_tree (children p t) \<subseteq> set_tree t"
  by (induction t) auto

lemma root_ptr_set_children [simp]: "root_ptr (set_children p s t) = root_ptr t"
  by (cases t) auto

lemma rep_children:
  "rep h prv t r \<Longrightarrow> p \<in> set_tree t \<Longrightarrow> \<exists>b. h p = Some b \<and> rep h (Some p) (children p t) (zchild b)"
proof (induction h prv t r rule: rep.induct)
  case (2 h prv c a n r)
  then obtain b where b: "h a = Some b" "rep h (Some a) c (zchild b)" "rep h (Some a) n (znext b)" by auto
  consider "a = p" | "a \<noteq> p" "p \<in> set_tree c" | "a \<noteq> p" "p \<notin> set_tree c" "p \<in> set_tree n" using 2(4) by auto
  then show ?case using b 2(1) [of b] 2(2) [of b] by cases simp_all
qed simp

text \<open>Replacing the children of one block leaves the rest of the representation alone.\<close>

lemma rep_set_children:
  assumes "rep h prv t r" "distinct_tree t" "p \<in> set_tree t"
    and "\<And>a. a \<in> set_tree t \<Longrightarrow> a \<notin> set_tree (children p t) \<Longrightarrow> a \<noteq> p \<Longrightarrow> h' a = h a"
    and "h p = Some b" and h'p: "h' p = Some (b\<lparr>zchild := c'\<rparr>)" and s: "rep h' (Some p) s c'"
  shows "rep h' prv (set_children p s t) r"
  using assms(1-5)
proof (induction h prv t r rule: rep.induct)
  case (2 h prv c a n r)
  then obtain ba where ba: "h a = Some ba" "zprev ba = prv" "rep h (Some a) c (zchild ba)" "rep h (Some a) n (znext ba)"
      "r = Some a"
    by auto
  have d: "distinct_tree c" "distinct_tree n" "a \<notin> set_tree c" "a \<notin> set_tree n" "set_tree c \<inter> set_tree n = {}"
    using 2(4) by auto
  note frame = 2(6) and hp = 2(7)
  consider "a = p" | "a \<noteq> p" "p \<in> set_tree c" "p \<notin> set_tree n" | "a \<noteq> p" "p \<in> set_tree n" "p \<notin> set_tree c"
    using 2(5) d by auto
  then show ?case
  proof cases
    case 1
    have "rep h' (Some a) n (znext ba)" using d 1 by (intro rep_frame [OF ba(4)] frame) auto
    then show ?thesis using 1 ba h'p s hp by simp
  next
    case 2
    have "h' a = h a" using frame [of a] 2 d set_tree_children [of p c] by auto
    moreover have "rep h' (Some a) n (znext ba)" using d 2 set_tree_children [of p c] by (intro rep_frame [OF ba(4)] frame) auto
    moreover have "rep h' (Some a) (set_children p s c) (zchild ba)" using "2.IH"(1) ba d 2 frame hp by simp
    ultimately show ?thesis using ba 2 by (simp add: set_children_id)
  next
    case 3
    have "h' a = h a" using frame [of a] 3 d set_tree_children [of p n] by auto
    moreover have "rep h' (Some a) c (zchild ba)" using d 3 set_tree_children [of p n] by (intro rep_frame [OF ba(3)] frame) auto
    moreover have "rep h' (Some a) (set_children p s n) (znext ba)" using "2.IH"(2) ba d 3 frame hp by simp
    ultimately show ?thesis using ba 3 by (simp add: set_children_id)
  qed
qed simp


section \<open>Linking and unlinking\<close>

lemmas heap_simps = zput_def zderef_def is_root_def is_first_def

lemma children_distinct:
  "distinct_tree t \<Longrightarrow> distinct_tree (children p t) \<and> p \<notin> set_tree (children p t)"
proof (induction t)
  case (Node c a n)
  then show ?case using set_tree_children [of p c] set_tree_children [of p n] by auto
qed simp

lemma link_block_rep:
  assumes t: "rep h prv t r" "distinct_tree t" "p \<in> set_tree t"
    and m: "rep h None (Node c m Leaf) (Some m)" "distinct_tree c" "m \<notin> set_tree c"
    and disj: "insert m (set_tree c) \<inter> set_tree t = {}"
  shows "\<exists>h'. link_block m p h = Some h' \<and> rep h' prv (set_children p (Node c m (children p t)) t) r \<and>
    (\<forall>a. a \<notin> insert m (set_tree c) \<union> set_tree t \<longrightarrow> h' a = h a)"
proof -
  obtain bp where bp: "h p = Some bp" "rep h (Some p) (children p t) (zchild bp)" using rep_children [OF t(1,3)] by blast
  obtain bm where bm: "h m = Some bm" "zprev bm = None" "znext bm = None" "rep h (Some m) c (zchild bm)" using m(1) by auto
  have ne: "m \<noteq> p" "p \<notin> set_tree c" "m \<notin> set_tree t" using disj t(3) by auto
  note sub = set_tree_children [of p t] and dist = children_distinct [OF t(2), of p]
  show ?thesis
  proof (cases "children p t")
    case Leaf
    then have "zchild bp = None" using bp by simp
    define h' where "h' = h(m \<mapsto> bm\<lparr>zprev := Some p\<rparr>, p \<mapsto> bp\<lparr>zchild := Some m\<rparr>)"
    have "link_block m p h = Some h'"
      using bp(1) bm(1) ne \<open>zchild bp = None\<close> by (simp add: link_block_def heap_simps h'_def)
    moreover have "rep h' prv (set_children p (Node c m Leaf) t) r"
      using ne bm m(3) by (intro rep_set_children [OF t _ bp(1), of h' "Some m"]) (auto simp: h'_def)
    ultimately show ?thesis using Leaf t(3) by (auto simp: h'_def)
  next
    case (Node cc k kn)
    then have "zchild bp = Some k" using bp(2) by simp
    obtain bk where bk: "h k = Some bk" "rep h (Some k) cc (zchild bk)" "rep h (Some k) kn (znext bk)"
      using bp(2) Node by auto
    have k: "k \<in> set_tree t" "k \<noteq> m" "k \<notin> set_tree c" "k \<noteq> p" "m \<notin> set_tree cc" "m \<notin> set_tree kn" "k \<notin> set_tree cc"
        "k \<notin> set_tree kn" "p \<notin> set_tree cc" "p \<notin> set_tree kn"
      using sub dist disj ne unfolding Node by auto
    define h' where "h' = h(m \<mapsto> bm\<lparr>znext := Some k, zprev := Some p\<rparr>, k \<mapsto> bk\<lparr>zprev := Some m\<rparr>, p \<mapsto> bp\<lparr>zchild := Some m\<rparr>)"
    have "link_block m p h = Some h'"
      using bp(1) bm(1) bk ne k \<open>zchild bp = Some k\<close> by (simp add: link_block_def heap_simps h'_def fun_upd_twist)
    moreover have "rep h' prv (set_children p (Node c m (children p t)) t) r"
      using ne bm bk m(3) k Node by (intro rep_set_children [OF t _ bp(1), of h' "Some m"]) (auto simp: h'_def)
    ultimately show ?thesis using t(3) k(1) by (auto simp: h'_def)
  qed
qed

lemma tree_zmalloc_init_rep:
  assumes t: "rep h prv t r" "distinct_tree t" "p \<in> set_tree t" and m: "m \<notin> dom h"
  shows "\<exists>h'. tree_zmalloc_init (Some m) cells (Some p) h = Some (Some m, h') \<and>
    rep h' prv (set_children p (Node Leaf m (children p t)) t) r \<and>
    (\<forall>a. a \<notin> insert m (set_tree t) \<longrightarrow> h' a = h a)"
proof -
  let ?h = "h(m \<mapsto> \<lparr>zchild = None, znext = None, zprev = None, zdata = cells\<rparr>)"
  have mt: "m \<notin> set_tree t" using rep_live [OF t(1)] m by auto
  then have rep: "rep ?h prv t r" using t(1) by simp
  have "rep ?h None (Node Leaf m Leaf) (Some m)" by simp
  from link_block_rep [OF rep t(2,3) this] mt obtain h' where
    "link_block m p ?h = Some h'" "rep h' prv (set_children p (Node Leaf m (children p t)) t) r"
    "\<forall>a. a \<notin> insert m (set_tree t) \<longrightarrow> h' a = ?h a" by auto
  then show ?thesis by (auto simp: tree_zmalloc_init_def tree_set_parent_def heap_simps)
qed

section \<open>Release of a hierarchy\<close>

lemma zfree_rec_simps:
  "zfree_rec None h = Some h"
  "zfree_rec (Some m) h = do {
     p \<leftarrow> zderef zprev h (Some m);
     if p = None then None
     else do {
       h \<leftarrow> zput h m (\<lambda>b. b\<lparr>zprev := None\<rparr>);
       c \<leftarrow> zderef zchild h (Some m);
       h \<leftarrow> zfree_rec c h;
       n \<leftarrow> zderef znext h (Some m);
       h \<leftarrow> zfree_rec n h;
       zfree h m
     }
   }"
  by (subst zfree_rec.simps; simp)+

lemma zfree_rec_rep:
  "rep h (Some q) t p \<Longrightarrow> distinct_tree t \<Longrightarrow> zfree_rec p h = Some (h |` (- set_tree t))"
proof (induction t arbitrary: h p q)
  case Leaf
  then show ?case by (simp add: zfree_rec_simps)
next
  case (Node c a n)
  then obtain b where b: "p = Some a" "h a = Some b" "zprev b = Some q" "rep h (Some a) c (zchild b)" "rep h (Some a) n (znext b)"
    by auto
  have d: "distinct_tree c" "distinct_tree n" "a \<notin> set_tree c" "a \<notin> set_tree n" "set_tree c \<inter> set_tree n = {}"
    using Node.prems by auto
  let ?h1 = "h(a \<mapsto> b\<lparr>zprev := None\<rparr>)"
  let ?h2 = "?h1 |` (- set_tree c)"
  have "rep ?h1 (Some a) c (zchild b)" using b(4) d by simp
  then have "zfree_rec (zchild b) ?h1 = Some ?h2" using d by (intro Node.IH(1))
  moreover have "rep ?h2 (Some a) n (znext b)" using d by (intro rep_frame [OF b(5)]) (auto simp: restrict_map_def)
  then have "zfree_rec (znext b) ?h2 = Some (?h2 |` (- set_tree n))" using d by (intro Node.IH(2))
  moreover have "zderef zprev h (Some a) = Some (Some q)" "zput h a (\<lambda>b. b\<lparr>zprev := None\<rparr>) = Some ?h1"
    "zderef zchild ?h1 (Some a) = Some (zchild b)" "zderef znext ?h2 (Some a) = Some (znext b)"
    using b d by (simp_all add: heap_simps)
  ultimately have "zfree_rec p h = zfree (?h2 |` (- set_tree n)) a"
    unfolding b(1) zfree_rec_simps(2) by simp
  also have "\<dots> = Some ((?h2 |` (- set_tree n))(a := None))" using d by (simp add: zfree_def domIff)
  also have "(?h2 |` (- set_tree n))(a := None) = h |` (- set_tree (Node c a n))"
    by (rule ext) (simp add: restrict_map_def)
  finally show ?case .
qed

lemma rep_siblings:
  "rep h prv t r \<Longrightarrow> distinct_tree t \<Longrightarrow> p \<in> set_tree t \<Longrightarrow>
     \<exists>b s. h p = Some b \<and> rep h (Some p) (children p t) (zchild b) \<and> rep h (Some p) s (znext b) \<and>
       set_tree s \<inter> set_tree (children p t) = {}"
proof (induction h prv t r rule: rep.induct)
  case (2 h prv c a n r)
  then obtain b where b: "h a = Some b" "rep h (Some a) c (zchild b)" "rep h (Some a) n (znext b)" by auto
  consider "a = p" | "a \<noteq> p" "p \<in> set_tree c" | "a \<noteq> p" "p \<notin> set_tree c" "p \<in> set_tree n" using 2(5) by auto
  then show ?case
  proof cases
    case 1
    then show ?thesis using b 2(4) by auto
  qed (use b 2(1,2) [of b] 2(4) in simp_all)
qed simp

text \<open>A first child is unlinked: its later siblings take its place.\<close>

lemma unlink_first:
  assumes t: "rep h prv t r" "distinct_tree t" "p \<in> set_tree t" and ch: "children p t = Node c m n"
  shows "\<exists>h'. tree_set_parent (Some m) None h = Some h' \<and> rep h' prv (set_children p n t) r \<and>
    rep h' None (Node c m Leaf) (Some m) \<and> (\<forall>a. a \<notin> set_tree t \<longrightarrow> h' a = h a)"
proof -
  obtain bp s where bp: "h p = Some bp" "rep h (Some p) (Node c m n) (zchild bp)" "rep h (Some p) s (znext bp)"
      "set_tree s \<inter> set_tree (Node c m n) = {}"
    using rep_siblings [OF t] unfolding ch by blast
  obtain bm where bm: "h m = Some bm" "zprev bm = Some p" "rep h (Some m) c (zchild bm)" "rep h (Some m) n (znext bm)"
    using bp(2) by auto
  have next_p: "znext bp \<noteq> Some m" using bp(3,4) rep_root_ptr [OF bp(3)] by (cases s) auto
  have d: "distinct_tree n" "distinct_tree c" "m \<noteq> p" "m \<notin> set_tree c" "m \<notin> set_tree n" "p \<notin> set_tree c" "p \<notin> set_tree n"
      "set_tree c \<inter> set_tree n = {}"
    using children_distinct [OF t(2), of p] unfolding ch by auto
  have sub: "insert m (set_tree c \<union> set_tree n) \<subseteq> set_tree t" using set_tree_children [of p t] unfolding ch by auto
  let ?bm = "bm\<lparr>znext := None, zprev := None\<rparr>" and ?bp = "bp\<lparr>zchild := znext bm\<rparr>"
  show ?thesis
  proof (cases n)
    case Leaf
    then have nx: "znext bm = None" using bm(4) by simp
    define h' where "h' = h(p \<mapsto> ?bp, m \<mapsto> ?bm)"
    have "tree_set_parent (Some m) None h = Some h'"
      using bp(1) bm d nx next_p by (simp add: tree_set_parent_def unlink_block_def heap_simps h'_def)
    moreover have "rep h' None (Node c m Leaf) (Some m)" using bm(3) d by (simp add: h'_def)
    moreover have "rep h' prv (set_children p n t) r"
      using d nx Leaf by (intro rep_set_children [OF t _ bp(1), of h' None]) (auto simp: h'_def ch)
    ultimately show ?thesis using t(3) sub by (auto simp: h'_def)
  next
    case (Node kc k kn)
    then obtain bk where k: "znext bm = Some k" "h k = Some bk" "rep h (Some k) kc (zchild bk)" "rep h (Some k) kn (znext bk)"
      using bm(4) by auto
    have dk: "k \<noteq> m" "k \<noteq> p" "k \<notin> set_tree c" "k \<notin> set_tree kc" "k \<notin> set_tree kn" "m \<notin> set_tree kc" "m \<notin> set_tree kn"
        "p \<notin> set_tree kc" "p \<notin> set_tree kn" using d unfolding Node by auto
    define h' where "h' = h(k \<mapsto> bk\<lparr>zprev := Some p\<rparr>, p \<mapsto> ?bp, m \<mapsto> ?bm)"
    have "tree_set_parent (Some m) None h = Some h'"
      using bp(1) bm k d dk next_p by (simp add: tree_set_parent_def unlink_block_def heap_simps h'_def)
    moreover have "rep h' None (Node c m Leaf) (Some m)" using bm(3) d dk by (simp add: h'_def)
    moreover have "rep h' prv (set_children p n t) r"
      using d dk k by (intro rep_set_children [OF t _ bp(1), of h' "Some k"]) (auto simp: h'_def ch Node)
    ultimately show ?thesis using t(3) sub by (auto simp: h'_def Node)
  qed
qed

lemma tree_zfree_detached:
  assumes "rep h None (Node c m Leaf) (Some m)" "distinct_tree c" "m \<notin> set_tree c"
    and "tree_set_parent (Some m) None h0 = Some h"
  shows "tree_zfree (Some m) h0 = Some (h |` (- insert m (set_tree c)))"
proof -
  obtain b where b: "h m = Some b" "rep h (Some m) c (zchild b)" using assms by auto
  show ?thesis using b zfree_rec_rep [OF b(2) assms(2)] assms(3,4)
    by (auto simp: tree_zfree_def heap_simps zfree_def restrict_map_def fun_eq_iff)
qed

text \<open>The parent of a block, whichever sibling it is.\<close>

fun spine :: "addr tree \<Rightarrow> addr list" where
  "spine Leaf = []"
| "spine (Node c a n) = a # spine n"

lemma get_parent_loop_rep:
  "rep h (Some q) t p \<Longrightarrow> distinct_tree t \<Longrightarrow> h q = Some bq \<Longrightarrow> get_parent_loop h q = Some g \<Longrightarrow> znext bq = p \<Longrightarrow>
     m \<in> set (spine t) \<Longrightarrow> get_parent_loop h m = Some g"
proof (induction t arbitrary: q bq p)
  case (Node c a n)
  then obtain b where b: "p = Some a" "h a = Some b" "zprev b = Some q" "rep h (Some a) n (znext b)" by auto
  have "is_first h a = Some False" using b Node.prems by (simp add: heap_simps)
  then have a: "get_parent_loop h a = Some g"
    using b Node.prems by (subst get_parent_loop.simps) (simp add: heap_simps)
  then show ?case using Node.IH(2) [OF b(4) _ b(2) a] Node.prems by (cases "m = a") auto
qed simp

section \<open>Properties of the allocator\<close>

lemma zderef_root: "rep h None (Node c m n) (Some m) \<Longrightarrow> is_root h m = Some True"
  by (auto simp: heap_simps)

lemma set_parent_root:
  "rep h None (Node c m Leaf) (Some m) \<Longrightarrow> tree_set_parent (Some m) None h = Some h"
  by (auto simp: tree_set_parent_def heap_simps fun_upd_idem)

lemma set_tree_set_children:
  "p \<in> set_tree t \<Longrightarrow> distinct_tree t \<Longrightarrow>
     set_tree (set_children p s t) = (set_tree t - set_tree (children p t)) \<union> set_tree s"
proof (induction t)
  case (Node c a n)
  have d: "distinct_tree c" "distinct_tree n" "a \<notin> set_tree c" "a \<notin> set_tree n" "set_tree c \<inter> set_tree n = {}"
    using Node.prems by auto
  consider "a = p" | "a \<noteq> p" "p \<in> set_tree c" "p \<notin> set_tree n" | "a \<noteq> p" "p \<in> set_tree n" "p \<notin> set_tree c"
    using Node.prems d by auto
  then show ?case
  proof cases
    case 1
    then show ?thesis using d by auto
  next
    case 2
    then have "set_tree (set_children p s c) = (set_tree c - set_tree (children p c)) \<union> set_tree s"
      using Node.IH(1) d by simp
    then show ?thesis using 2 d set_tree_children [of p c] by (auto simp: set_children_id)
  next
    case 3
    then have "set_tree (set_children p s n) = (set_tree n - set_tree (children p n)) \<union> set_tree s"
      using Node.IH(2) d by simp
    then show ?thesis using 3 d set_tree_children [of p n] by (auto simp: set_children_id)
  qed
qed simp

lemma distinct_set_children:
  "distinct_tree t \<Longrightarrow> distinct_tree s \<Longrightarrow> p \<in> set_tree t \<Longrightarrow>
     set_tree s \<inter> (set_tree t - set_tree (children p t)) = {} \<Longrightarrow> distinct_tree (set_children p s t)"
proof (induction t)
  case (Node c a n)
  have d: "distinct_tree c" "distinct_tree n" "a \<notin> set_tree c" "a \<notin> set_tree n" "set_tree c \<inter> set_tree n = {}"
    using Node.prems by auto
  note s = Node.prems(4)
  consider "a = p" | "a \<noteq> p" "p \<in> set_tree c" "p \<notin> set_tree n" | "a \<noteq> p" "p \<in> set_tree n" "p \<notin> set_tree c"
    using Node.prems d by auto
  then show ?case
  proof cases
    case 1
    then show ?thesis using d s Node.prems(2) by auto
  next
    case 2
    have "distinct_tree (set_children p s c)" using Node.IH(1) d 2 s Node.prems(2) by auto
    then show ?thesis using 2 d s set_tree_children [of p c] set_tree_set_children [OF 2(2) d(1), of s]
      by (auto simp: set_children_id)
  next
    case 3
    have "distinct_tree (set_children p s n)" using Node.IH(2) d 3 s Node.prems(2) by auto
    then show ?thesis using 3 d s set_tree_children [of p n] set_tree_set_children [OF 3(2) d(2), of s]
      by (auto simp: set_children_id)
  qed
qed simp

lemma distinct_insert_child:
  assumes "distinct_tree t" "p \<in> set_tree t" "m \<notin> set_tree t"
  shows "distinct_tree (set_children p (Node Leaf m (children p t)) t)"
  using assms children_distinct [OF assms(1), of p] set_tree_children [of p t]
  by (intro distinct_set_children) auto

lemma children_set_children:
  "p \<in> set_tree t \<Longrightarrow> distinct_tree t \<Longrightarrow> p \<in> set_tree (set_children p s t) \<and> children p (set_children p s t) = s"
proof (induction t)
  case (Node c a n)
  have d: "distinct_tree c" "distinct_tree n" "a \<notin> set_tree c" "a \<notin> set_tree n" "set_tree c \<inter> set_tree n = {}"
    using Node.prems by auto
  consider "a = p" | "a \<noteq> p" "p \<in> set_tree c" "p \<notin> set_tree n" | "a \<noteq> p" "p \<in> set_tree n" "p \<notin> set_tree c"
    using Node.prems d by auto
  then show ?case using Node.IH d by cases (auto simp: set_children_id)
qed simp

lemma rep_spine_prev: "rep h (Some q) t p \<Longrightarrow> m \<in> set (spine t) \<Longrightarrow> \<exists>b x. h m = Some b \<and> zprev b = Some x"
  by (induction t arbitrary: q p) auto

lemma tree_get_parent_rep:
  assumes "rep h prv t r" "distinct_tree t" "p \<in> set_tree t" "m \<in> set (spine (children p t))"
  shows "tree_get_parent (Some m) h = Some (Some p)"
proof -
  obtain c k n where ch: "children p t = Node c k n" using assms(4) by (cases "children p t") auto
  obtain bp s where bp: "h p = Some bp" "rep h (Some p) (Node c k n) (zchild bp)" "rep h (Some p) s (znext bp)"
      "set_tree s \<inter> set_tree (Node c k n) = {}"
    using rep_siblings [OF assms(1-3)] unfolding ch by blast
  obtain bk where bk: "h k = Some bk" "zprev bk = Some p" "rep h (Some k) n (znext bk)" using bp(2) by auto
  have "znext bp \<noteq> Some k" using bp(4) rep_root_ptr [OF bp(3)] by (cases s) auto
  then have k: "get_parent_loop h k = Some (Some p)"
    using bk bp(1) by (subst get_parent_loop.simps) (simp add: heap_simps)
  have dn: "distinct_tree n" using children_distinct [OF assms(2), of p] unfolding ch by simp
  have m: "m = k \<or> m \<in> set (spine n)" using assms(4) by (simp add: ch)
  have "get_parent_loop h m = Some (Some p)" using get_parent_loop_rep [OF bk(3) dn bk(1) k refl] k m by blast
  moreover have "is_root h m = Some False" using m bk rep_spine_prev [OF bk(3)] by (auto simp: is_root_def)
  ultimately show ?thesis by (simp add: tree_get_parent_def)
qed

text \<open>A representation to compute with: a root 1 with the children 4, 3 and 2.\<close>

definition sample_zheap :: zheap where
  "sample_zheap = [1 \<mapsto> \<lparr>zchild = Some 4, znext = None, zprev = None, zdata = []\<rparr>,
     4 \<mapsto> \<lparr>zchild = None, znext = Some 3, zprev = Some 1, zdata = []\<rparr>,
     3 \<mapsto> \<lparr>zchild = None, znext = Some 2, zprev = Some 4, zdata = []\<rparr>,
     2 \<mapsto> \<lparr>zchild = None, znext = None, zprev = Some 3, zdata = []\<rparr>]"

definition sample_tree :: "addr tree" where
  "sample_tree = Node (Node Leaf 4 (Node Leaf 3 (Node Leaf 2 Leaf))) 1 Leaf"

lemma sample_zheap_rep: "rep sample_zheap None sample_tree (Some 1)" "distinct_tree sample_tree"
  by (simp_all add: sample_zheap_def sample_tree_def)

lemma tree_zmalloc_child_facts:
  assumes "rep h None t (Some r)" "distinct_tree t" "p \<in> set_tree t" "m \<notin> dom h"
  shows "\<exists>h'. tree_zmalloc (Some m) garbage sz (Some p) h = Some (Some m, h') \<and>
    rep h' None (set_children p (Node Leaf m (children p t)) t) (Some r) \<and>
    distinct_tree (set_children p (Node Leaf m (children p t)) t) \<and>
    (\<forall>a. a \<notin> insert m (set_tree t) \<longrightarrow> h' a = h a) \<and> tree_get_parent (Some m) h' = Some (Some p)"
    and "tree_zmalloc None garbage sz (Some p) h = Some (None, h)"
proof -
  have mt: "m \<notin> set_tree t" using rep_live [OF assms(1)] assms(4) by auto
  let ?t' = "set_children p (Node Leaf m (children p t)) t"
  have dist: "distinct_tree ?t'" using assms(2,3) mt by (rule distinct_insert_child)
  obtain h' where h': "tree_zmalloc (Some m) garbage sz (Some p) h = Some (Some m, h')" "rep h' None ?t' (Some r)"
      "\<forall>a. a \<notin> insert m (set_tree t) \<longrightarrow> h' a = h a"
    using tree_zmalloc_init_rep [OF assms] unfolding tree_zmalloc_def by blast
  have "p \<in> set_tree ?t'" "m \<in> set (spine (children p ?t'))"
    using children_set_children [OF assms(3,2)] by simp_all
  then have "tree_get_parent (Some m) h' = Some (Some p)" by (rule tree_get_parent_rep [OF h'(2) dist])
  then show "\<exists>h'. tree_zmalloc (Some m) garbage sz (Some p) h = Some (Some m, h') \<and>
    rep h' None ?t' (Some r) \<and> distinct_tree ?t' \<and>
    (\<forall>a. a \<notin> insert m (set_tree t) \<longrightarrow> h' a = h a) \<and> tree_get_parent (Some m) h' = Some (Some p)"
    using h' dist by blast
  show "tree_zmalloc None garbage sz (Some p) h = Some (None, h)"
    by (simp add: tree_zmalloc_def tree_zmalloc_init_def)
qed

text \<open>
  Allocation under a parent anywhere in a hierarchy puts the new block in front of the
  parent's children, changes nothing else of the hierarchy and no block outside it, and
  \<open>tree_get_parent\<close> then answers that parent; without memory nothing changes.
\<close>

theorem tree_zmalloc_child:
  assumes "rep h None t (Some r)" "distinct_tree t" "p \<in> set_tree t" "m \<notin> dom h"
  shows "(\<exists>h'. tree_zmalloc (Some m) garbage sz (Some p) h = Some (Some m, h') \<and>
      rep h' None (set_children p (Node Leaf m (children p t)) t) (Some r) \<and>
      distinct_tree (set_children p (Node Leaf m (children p t)) t) \<and>
      (\<forall>a. a \<notin> insert m (set_tree t) \<longrightarrow> h' a = h a) \<and> tree_get_parent (Some m) h' = Some (Some p)) \<and>
    tree_zmalloc None garbage sz (Some p) h = Some (None, h)"
  by (intro conjI tree_zmalloc_child_facts [OF assms])

theorem tree_zmalloc_child_witness:
  "\<exists>h'. tree_zmalloc (Some 9) [] 0 (Some 3) sample_zheap = Some (Some 9, h') \<and>
     tree_get_parent (Some 9) h' = Some (Some 3)"
proof -
  have "3 \<in> set_tree sample_tree" by (simp add: sample_tree_def)
  moreover have "9 \<notin> dom sample_zheap" by (simp add: sample_zheap_def)
  ultimately show ?thesis using tree_zmalloc_child [OF sample_zheap_rep, of 3 9 "[]" 0] by blast
qed

lemma tree_zfree_exact_facts:
  assumes "rep h None t (Some r)" "distinct_tree t"
  shows "t = Node c r Leaf \<longrightarrow> tree_zfree (Some r) h = Some (h |` (- set_tree t))"
    and "p \<in> set_tree t \<and> children p t = Node c m n \<longrightarrow>
      (\<exists>h'. tree_zfree (Some m) h = Some h' \<and> dom h' = dom h - insert m (set_tree c) \<and>
        rep h' None (set_children p n t) (Some r) \<and> (\<forall>a. a \<notin> set_tree t \<longrightarrow> h' a = h a))"
proof -
  show "t = Node c r Leaf \<longrightarrow> tree_zfree (Some r) h = Some (h |` (- set_tree t))"
  proof
    assume t: "t = Node c r Leaf"
    then have r: "rep h None (Node c r Leaf) (Some r)" using assms(1) by simp
    show "tree_zfree (Some r) h = Some (h |` (- set_tree t))"
      using tree_zfree_detached [OF r _ _ set_parent_root [OF r]] assms(2) t by simp
  qed
  show "p \<in> set_tree t \<and> children p t = Node c m n \<longrightarrow>
      (\<exists>h'. tree_zfree (Some m) h = Some h' \<and> dom h' = dom h - insert m (set_tree c) \<and>
        rep h' None (set_children p n t) (Some r) \<and> (\<forall>a. a \<notin> set_tree t \<longrightarrow> h' a = h a))"
  proof (intro impI, elim conjE)
    assume p: "p \<in> set_tree t" and ch: "children p t = Node c m n"
    obtain h1 where h1: "tree_set_parent (Some m) None h = Some h1" "rep h1 None (set_children p n t) (Some r)"
        "rep h1 None (Node c m Leaf) (Some m)" "\<forall>a. a \<notin> set_tree t \<longrightarrow> h1 a = h a"
      using unlink_first [OF assms p ch] by blast
    have d: "distinct_tree c" "m \<notin> set_tree c" "insert m (set_tree c) \<inter> set_tree n = {}"
      using children_distinct [OF assms(2), of p] unfolding ch by auto
    have sub: "insert m (set_tree c) \<subseteq> set_tree t" using set_tree_children [of p t] unfolding ch by auto
    let ?h' = "h1 |` (- insert m (set_tree c))"
    have dom1: "dom h1 = dom h"
    proof -
      have "set_tree t \<subseteq> dom h" by (rule rep_live [OF assms(1)])
      moreover have "set_tree t \<subseteq> dom h1"
        using rep_live [OF h1(2)] rep_live [OF h1(3)] unfolding set_tree_set_children [OF p assms(2)] ch by auto
      ultimately have "x \<in> dom h1 \<longleftrightarrow> x \<in> dom h" for x
        using h1(4) by (cases "x \<in> set_tree t") (blast, simp add: domIff)
      then show ?thesis by blast
    qed
    have "tree_zfree (Some m) h = Some ?h'" by (rule tree_zfree_detached [OF h1(3) d(1,2) h1(1)])
    moreover have "rep ?h' None (set_children p n t) (Some r)"
      using set_tree_set_children [OF p assms(2), of n] d(3)
      by (intro rep_frame [OF h1(2)]) (auto simp: ch restrict_map_def)
    moreover have "\<forall>a. a \<notin> set_tree t \<longrightarrow> ?h' a = h a" using h1(4) sub by (auto simp: restrict_map_def)
    moreover have "dom ?h' = dom h - insert m (set_tree c)" using dom1 by auto
    ultimately show "\<exists>h'. tree_zfree (Some m) h = Some h' \<and> dom h' = dom h - insert m (set_tree c) \<and>
        rep h' None (set_children p n t) (Some r) \<and> (\<forall>a. a \<notin> set_tree t \<longrightarrow> h' a = h a)" by blast
  qed
qed

text \<open>
  C12. Releasing a root, or a block that is the first child of its parent, frees exactly this block
  and its descendants (each once, no dead block is touched); what remains is the hierarchy
  without them, the later siblings having moved up, and every other block is unchanged.
\<close>

theorem tree_zfree_exact:
  assumes "rep h None t (Some r)" "distinct_tree t"
  shows "(t = Node c r Leaf \<longrightarrow> tree_zfree (Some r) h = Some (h |` (- set_tree t))) \<and>
    (p \<in> set_tree t \<and> children p t = Node c m n \<longrightarrow>
      (\<exists>h'. tree_zfree (Some m) h = Some h' \<and> dom h' = dom h - insert m (set_tree c) \<and>
        rep h' None (set_children p n t) (Some r) \<and> (\<forall>a. a \<notin> set_tree t \<longrightarrow> h' a = h a)))"
  by (intro conjI tree_zfree_exact_facts [OF assms])

theorem tree_zfree_exact_witness:
  "\<exists>h'. tree_zfree (Some 4) sample_zheap = Some h' \<and> dom h' = {1, 2, 3}"
proof -
  have "\<exists>h'. tree_zfree (Some 4) sample_zheap = Some h' \<and> dom h' = dom sample_zheap - {4}"
  proof -
    have "1 \<in> set_tree sample_tree \<and> children 1 sample_tree = Node Leaf 4 (Node Leaf 3 (Node Leaf 2 Leaf))"
      by (simp add: sample_tree_def)
    then show ?thesis using tree_zfree_exact [OF sample_zheap_rep] by (metis tree.set(1))
  qed
  moreover have "dom sample_zheap - {4} = {1, 2, 3}" by (auto simp: sample_zheap_def)
  ultimately show ?thesis by simp
qed

lemma middle_free_aborts: "Option.bind (tree_zfree (Some 3) sample_zheap) (tree_zfree (Some 1)) = None"
  by (simp add: sample_zheap_def tree_zfree_def tree_set_parent_def unlink_block_def heap_simps zfree_rec_simps zfree_def)

lemma tree_set_parent_corrupts_facts:
  assumes "h m = Some bm" "zprev bm = Some q" "h q = Some bq" "znext bq = Some m" "q \<noteq> m"
    and "case znext bm of None \<Rightarrow> True | Some k \<Rightarrow> k \<noteq> m \<and> k \<noteq> q \<and> k \<in> dom h"
  shows "\<exists>h'. tree_set_parent (Some m) None h = Some h' \<and>
    h' q = Some (bq\<lparr>znext := znext bm, zchild := znext bm\<rparr>)"
    and "Option.bind (tree_zfree (Some 3) sample_zheap) (tree_zfree (Some 1)) = None"
proof -
  show "\<exists>h'. tree_set_parent (Some m) None h = Some h' \<and> h' q = Some (bq\<lparr>znext := znext bm, zchild := znext bm\<rparr>)"
    using assms by (cases "znext bm") (auto simp: tree_set_parent_def unlink_block_def heap_simps)
  show "Option.bind (tree_zfree (Some 3) sample_zheap) (tree_zfree (Some 1)) = None"
    by (rule middle_free_aborts)
qed

text \<open>
  Unlinking a block that is \<^emph>\<open>not\<close> the first child corrupts the hierarchy: after the previous
  sibling's \<open>next\<close> has been redirected, the test for the first child succeeds as well, and the
  previous sibling's list of children is overwritten by the later siblings. In the hierarchy of
  three siblings, releasing the middle one and then the root aborts.
\<close>

theorem tree_set_parent_corrupts:
  assumes "h m = Some bm" "zprev bm = Some q" "h q = Some bq" "znext bq = Some m" "q \<noteq> m"
    and "case znext bm of None \<Rightarrow> True | Some k \<Rightarrow> k \<noteq> m \<and> k \<noteq> q \<and> k \<in> dom h"
  shows "(\<exists>h'. tree_set_parent (Some m) None h = Some h' \<and>
      h' q = Some (bq\<lparr>znext := znext bm, zchild := znext bm\<rparr>)) \<and>
    Option.bind (tree_zfree (Some 3) sample_zheap) (tree_zfree (Some 1)) = None"
  by (intro conjI tree_set_parent_corrupts_facts [OF assms])

theorem tree_set_parent_corrupts_witness:
  "\<exists>h'. tree_set_parent (Some 3) None sample_zheap = Some h' \<and> map_option zchild (h' 4) = Some (Some 2)"
  using tree_set_parent_corrupts [of sample_zheap 3 "\<lparr>zchild = None, znext = Some 2, zprev = Some 4, zdata = []\<rparr>" 4
    "\<lparr>zchild = None, znext = Some 3, zprev = Some 1, zdata = []\<rparr>"]
  by (auto simp: sample_zheap_def)

end
