(* ===== verification/Mumux_Sha.thy ===== *)
theory Mumux_Sha
  imports Prelude
begin

text \<open>
  \<open>mumux/sha.c\<close>: the SHA-1 digest used in the web socket handshake. The routines are modelled as
  they are written (a 64-byte buffer that is filled and hashed, a byte count kept in two 32-bit
  words), and compared with a direct definition of SHA-1 (FIPS 180) on the padded message.
\<close>

section \<open>The compression function\<close>

definition wby_sha1_rol :: "u32 \<Rightarrow> nat \<Rightarrow> u32" where
  "wby_sha1_rol v bits = push_bit bits v OR drop_bit (32 - bits) v"

definition sha1_word :: "byte list \<Rightarrow> nat \<Rightarrow> u32" where
  "sha1_word block i =
     push_bit 24 (ucast (block ! (i * 4 + 0))) OR push_bit 16 (ucast (block ! (i * 4 + 1))) OR
     push_bit 8 (ucast (block ! (i * 4 + 2))) OR push_bit 0 (ucast (block ! (i * 4 + 3)))"

text \<open>The message schedule: the array is filled from index 16 on.\<close>

fun sha1_schedule :: "nat \<Rightarrow> u32 list \<Rightarrow> u32 list" where
  "sha1_schedule 0 w = w"
| "sha1_schedule (Suc n) w =
     (let i = length w in
      sha1_schedule n (w @ [wby_sha1_rol (w ! (i - 3) XOR w ! (i - 8) XOR w ! (i - 14) XOR w ! (i - 16)) 1]))"

type_synonym sha1_vars = "u32 \<times> u32 \<times> u32 \<times> u32 \<times> u32"

definition SHA1_LOOP ::
  "nat \<Rightarrow> nat \<Rightarrow> (u32 \<Rightarrow> u32 \<Rightarrow> u32 \<Rightarrow> u32) \<Rightarrow> u32 \<Rightarrow> u32 list \<Rightarrow> sha1_vars \<Rightarrow> sha1_vars" where
  "SHA1_LOOP start stop func k w =
     fold (\<lambda>i (a, b, c, d, e).
       let t = wby_sha1_rol a 5 + func b c d + e + k + w ! i in (t, a, wby_sha1_rol b 30, c, d)) [start..<stop]"

definition wby_sha1_hash_block :: "sha1_vars \<Rightarrow> byte list \<Rightarrow> sha1_vars" where
  "wby_sha1_hash_block st block =
     (let w = sha1_schedule 64 (map (sha1_word block) [0..<16]);
          v = SHA1_LOOP 0 20 (\<lambda>b c d. (b AND c) XOR (NOT b AND d)) 0x5a827999 w st;
          v = SHA1_LOOP 20 40 (\<lambda>b c d. b XOR c XOR d) 0x6ed9eba1 w v;
          v = SHA1_LOOP 40 60 (\<lambda>b c d. (b AND c) XOR (b AND d) XOR (c AND d)) 0x8f1bbcdc w v;
          (a, b, c, d, e) = SHA1_LOOP 60 80 (\<lambda>b c d. b XOR c XOR d) 0xca62c1d6 w v;
          (s0, s1, s2, s3, s4) = st
      in (s0 + a, s1 + b, s2 + c, s3 + d, s4 + e))"

section \<open>The running digest\<close>

record wby_sha1 =
  sha1_state :: sha1_vars
  msg_size_hi :: u32
  msg_size_lo :: u32
  buf_used :: nat
  sha1_buffer :: "byte list"

definition wby_sha1_init :: "wby_sha1 \<Rightarrow> wby_sha1" where
  "wby_sha1_init s =
     s\<lparr>sha1_state := (0x67452301, 0xefcdab89, 0x98badcfe, 0x10325476, 0xc3d2e1f0),
       msg_size_hi := 0, msg_size_lo := 0, buf_used := 0\<rparr>"

text \<open>
  The copying loop of \<open>wby_sha1_update\<close>; more than 64 bytes in use would make the copy leave the
  buffer.
\<close>

function sha1_fill :: "wby_sha1 \<Rightarrow> byte list \<Rightarrow> wby_sha1 option" where
  "sha1_fill s data =
     (if data = [] then Some s
      else if buf_used s > 64 then None
      else
        let buf_space = 64 - buf_used s;
            copy_size = (if length data < buf_space then length data else buf_space);
            s1 = s\<lparr>sha1_buffer := take (buf_used s) (sha1_buffer s) @ take copy_size data @
                     drop (buf_used s + copy_size) (sha1_buffer s),
                   buf_used := buf_used s + copy_size\<rparr>;
            s2 = (if buf_used s1 = 64
                  then s1\<lparr>sha1_state := wby_sha1_hash_block (sha1_state s1) (sha1_buffer s1), buf_used := 0\<rparr>
                  else s1)
        in sha1_fill s2 (drop copy_size data))"
  by pat_completeness auto
termination
  by (relation "measure (\<lambda>(s, data). 2 * length data + (if buf_used s = 64 then 1 else 0))")
     (auto simp: Let_def)

declare sha1_fill.simps [simp del]

definition wby_sha1_update :: "wby_sha1 \<Rightarrow> byte list \<Rightarrow> wby_sha1 option" where
  "wby_sha1_update s data = do {
     s \<leftarrow> sha1_fill s data;
     let size_lo = msg_size_lo s + of_nat (length data * 8);
     let s = (if size_lo < msg_size_lo s then s\<lparr>msg_size_hi := msg_size_hi s + 1\<rparr> else s);
     Some (s\<lparr>msg_size_lo := size_lo\<rparr>)
   }"

text \<open>The big-endian bytes of a word, as the loops over \<open>(word >> ((3 - (i & 3)) * 8))\<close> deliver them.\<close>

definition be_bytes :: "u32 \<Rightarrow> byte list" where
  "be_bytes w = map (\<lambda>i. ucast (drop_bit ((3 - i) * 8) w)) [0, 1, 2, 3]"

text \<open>The padding loop ends because the fill level runs through all values below 64.\<close>

partial_function (option) sha1_pad :: "wby_sha1 \<Rightarrow> wby_sha1 option" where
  "sha1_pad s = (if buf_used s = 56 then Some s else Option.bind (wby_sha1_update s [0]) sha1_pad)"

definition wby_sha1_final :: "wby_sha1 \<Rightarrow> (byte list \<times> wby_sha1) option" where
  "wby_sha1_final s = do {
     let count_data = be_bytes (msg_size_hi s) @ be_bytes (msg_size_lo s);
     s \<leftarrow> wby_sha1_update s [0x80];
     s \<leftarrow> sha1_pad s;
     s \<leftarrow> wby_sha1_update s count_data;
     let (a, b, c, d, e) = sha1_state s;
     Some (concat (map be_bytes [a, b, c, d, e]), s)
   }"

section \<open>Reference definition\<close>

function sha1_W :: "byte list \<Rightarrow> nat \<Rightarrow> u32" where
  "sha1_W block t =
     (if t < 16 then sha1_word block t
      else wby_sha1_rol (sha1_W block (t - 3) XOR sha1_W block (t - 8) XOR sha1_W block (t - 14) XOR sha1_W block (t - 16)) 1)"
  by pat_completeness auto
termination by (relation "measure snd") auto

declare sha1_W.simps [simp del]

definition sha1_f :: "nat \<Rightarrow> u32 \<Rightarrow> u32 \<Rightarrow> u32 \<Rightarrow> u32" where
  "sha1_f t b c d =
     (if t < 20 then (b AND c) OR (NOT b AND d)
      else if t < 40 then b XOR c XOR d
      else if t < 60 then (b AND c) OR (b AND d) OR (c AND d)
      else b XOR c XOR d)"

definition sha1_K :: "nat \<Rightarrow> u32" where
  "sha1_K t = (if t < 20 then 0x5a827999 else if t < 40 then 0x6ed9eba1 else if t < 60 then 0x8f1bbcdc else 0xca62c1d6)"

definition sha1_round :: "byte list \<Rightarrow> nat \<Rightarrow> sha1_vars \<Rightarrow> sha1_vars" where
  "sha1_round block t = (\<lambda>(a, b, c, d, e).
     (wby_sha1_rol a 5 + sha1_f t b c d + e + sha1_K t + sha1_W block t, a, wby_sha1_rol b 30, c, d))"

definition sha1_compress :: "sha1_vars \<Rightarrow> byte list \<Rightarrow> sha1_vars" where
  "sha1_compress st block =
     (let (a, b, c, d, e) = fold (sha1_round block) [0..<80] st; (s0, s1, s2, s3, s4) = st
      in (s0 + a, s1 + b, s2 + c, s3 + d, s4 + e))"

text \<open>Hashing the full blocks of a message; the rest of less than 64 bytes is returned.\<close>

function sha1_blocks :: "sha1_vars \<Rightarrow> byte list \<Rightarrow> sha1_vars \<times> byte list" where
  "sha1_blocks st m = (if length m < 64 then (st, m) else sha1_blocks (sha1_compress st (take 64 m)) (drop 64 m))"
  by pat_completeness auto
termination by (relation "measure (length \<circ> snd)") auto

declare sha1_blocks.simps [simp del]

definition sha1_padded :: "byte list \<Rightarrow> byte list" where
  "sha1_padded m = m @ [0x80] @ replicate ((119 - length m mod 64) mod 64) 0 @
     be_bytes (of_nat (8 * length m div 2 ^ 32)) @ be_bytes (of_nat (8 * length m))"

definition sha1 :: "byte list \<Rightarrow> byte list" where
  "sha1 m = (case fst (sha1_blocks (0x67452301, 0xefcdab89, 0x98badcfe, 0x10325476, 0xc3d2e1f0) (sha1_padded m)) of
     (a, b, c, d, e) \<Rightarrow> concat (map be_bytes [a, b, c, d, e]))"

section \<open>The block function is the compression function\<close>

lemma length_sha1_schedule [simp]: "length (sha1_schedule n w) = length w + n"
  by (induction n w rule: sha1_schedule.induct) (simp_all add: Let_def)

lemma sha1_schedule_W:
  "16 \<le> k \<Longrightarrow> sha1_schedule n (map (sha1_W block) [0..<k]) = map (sha1_W block) [0..<k + n]"
proof (induction n arbitrary: k)
  case (Suc n)
  let ?w = "map (sha1_W block) [0..<k]"
  have nth: "?w ! (k - j) = sha1_W block (k - j)" if "0 < j" "j \<le> k" for j
    using that by simp
  have "wby_sha1_rol (?w ! (k - 3) XOR ?w ! (k - 8) XOR ?w ! (k - 14) XOR ?w ! (k - 16)) 1 = sha1_W block k"
    using Suc.prems by (subst sha1_W.simps) (simp add: nth)
  then have "sha1_schedule (Suc n) ?w = sha1_schedule n (map (sha1_W block) [0..<Suc k])"
    by (simp add: Let_def)
  then show ?case using Suc.IH [of "Suc k"] Suc.prems by simp
qed simp

lemma sha1_choice: "(b AND c) XOR (NOT b AND d) = (b AND c) OR (NOT b AND (d :: u32))"
  by (rule bit_word_eqI) (auto simp: bit_simps)

lemma sha1_majority: "(b AND c) XOR (b AND d) XOR (c AND d) = (b AND c) OR (b AND d) OR (c AND (d :: u32))"
  by (rule bit_word_eqI) (auto simp: bit_simps)

lemma SHA1_LOOP_rounds:
  assumes "\<And>t. start \<le> t \<Longrightarrow> t < stop \<Longrightarrow> k = sha1_K t \<and> w ! t = sha1_W block t \<and> func = sha1_f t"
  shows "SHA1_LOOP start stop func k w v = fold (sha1_round block) [start..<stop] v"
  unfolding SHA1_LOOP_def
proof (rule fold_cong [OF refl refl])
  fix t assume "t \<in> set [start..<stop]"
  then show "(\<lambda>(a, b, c, d, e). let x = wby_sha1_rol a 5 + func b c d + e + k + w ! t in
      (x, a, wby_sha1_rol b 30, c, d)) = sha1_round block t"
    using assms [of t] by (simp add: fun_eq_iff sha1_round_def Let_def)
qed

lemma hash_block_compress: "wby_sha1_hash_block st block = sha1_compress st block"
proof -
  have "map (sha1_word block) [0..<16] = map (sha1_W block) [0..<16]"
    by (rule map_cong) (auto simp: sha1_W.simps)
  then have w: "sha1_schedule 64 (map (sha1_word block) [0..<16]) = map (sha1_W block) [0..<80]"
    using sha1_schedule_W [of 16 64 block] by (simp only:) simp
  let ?w = "map (sha1_W block) [0..<80]"
  have "SHA1_LOOP 0 20 (\<lambda>b c d. (b AND c) XOR (NOT b AND d)) 0x5a827999 ?w v = fold (sha1_round block) [0..<20] v"
    "SHA1_LOOP 20 40 (\<lambda>b c d. b XOR c XOR d) 0x6ed9eba1 ?w v = fold (sha1_round block) [20..<40] v"
    "SHA1_LOOP 40 60 (\<lambda>b c d. (b AND c) XOR (b AND d) XOR (c AND d)) 0x8f1bbcdc ?w v = fold (sha1_round block) [40..<60] v"
    "SHA1_LOOP 60 80 (\<lambda>b c d. b XOR c XOR d) 0xca62c1d6 ?w v = fold (sha1_round block) [60..<80] v" for v
    by (rule SHA1_LOOP_rounds; simp add: sha1_K_def sha1_f_def fun_eq_iff sha1_choice sha1_majority)+
  moreover have "[0..<80] = [0..<20] @ [20..<40] @ [40..<60] @ [60..<80::nat]"
    using upt_add_eq_append [of 0 20 60] upt_add_eq_append [of 20 40 40] upt_add_eq_append [of 40 60 20]
    by (simp del: upt_rec_numeral)
  ultimately show ?thesis
    unfolding wby_sha1_hash_block_def sha1_compress_def w Let_def by (simp del: upt_rec_numeral)
qed


section \<open>Streaming\<close>

lemma sha1_blocks_small [simp]: "length m < 64 \<Longrightarrow> sha1_blocks st m = (st, m)"
  by (subst sha1_blocks.simps) simp

lemma sha1_blocks_full: "length b = 64 \<Longrightarrow> sha1_blocks st (b @ m) = sha1_blocks (sha1_compress st b) m"
  by (subst sha1_blocks.simps) simp

lemma sha1_blocks_append:
  "sha1_blocks st (m @ d) = (case sha1_blocks st m of (st', r) \<Rightarrow> sha1_blocks st' (r @ d))"
proof (induction st m rule: sha1_blocks.induct)
  case (1 st m)
  show ?case
  proof (cases "length m < 64")
    case False
    then have "sha1_blocks st (m @ d) = sha1_blocks (sha1_compress st (take 64 m)) (drop 64 m @ d)"
      by (subst sha1_blocks.simps) simp
    then show ?thesis using 1 False by (subst (2) sha1_blocks.simps) simp
  qed simp
qed

lemma sha1_blocks_rest: "length (snd (sha1_blocks st m)) = length m mod 64"
proof (induction st m rule: sha1_blocks.induct)
  case (1 st m)
  then show ?case by (subst sha1_blocks.simps) (simp add: le_mod_geq)
qed

text \<open>
  The structure holds the digest of \<open>m\<close> so far: its full blocks are hashed, the rest is buffered,
  and the two size words together count its bits modulo \<open>2^64\<close>.
\<close>

definition msg_size :: "wby_sha1 \<Rightarrow> u64" where
  "msg_size s = push_bit 32 (ucast (msg_size_hi s)) + ucast (msg_size_lo s)"

definition sha1_IV :: sha1_vars where
  "sha1_IV = (0x67452301, 0xefcdab89, 0x98badcfe, 0x10325476, 0xc3d2e1f0)"

definition sha1_holds :: "wby_sha1 \<Rightarrow> byte list \<Rightarrow> bool" where
  "sha1_holds s m \<longleftrightarrow> length (sha1_buffer s) = 64 \<and> buf_used s = length m mod 64 \<and>
     sha1_blocks sha1_IV m = (sha1_state s, take (buf_used s) (sha1_buffer s))"

lemma sha1_fill_blocks:
  "length (sha1_buffer s) = 64 \<Longrightarrow> buf_used s < 64 \<Longrightarrow>
    \<exists>s'. sha1_fill s data = Some s' \<and> length (sha1_buffer s') = 64 \<and> buf_used s' = (buf_used s + length data) mod 64 \<and>
      sha1_blocks (sha1_state s) (take (buf_used s) (sha1_buffer s) @ data) = (sha1_state s', take (buf_used s') (sha1_buffer s')) \<and>
      msg_size_hi s' = msg_size_hi s \<and> msg_size_lo s' = msg_size_lo s"
proof (induction s data rule: sha1_fill.induct)
  case (1 s data)
  let ?u = "buf_used s" and ?buf = "sha1_buffer s"
  consider "data = []" | "data \<noteq> []" "?u + length data < 64" | "data \<noteq> []" "64 \<le> ?u + length data" by linarith
  then show ?case
  proof cases
    case 1
    then show ?thesis using "1.prems" by (subst sha1_fill.simps) simp
  next
    case 2
    let ?s = "s\<lparr>sha1_buffer := take ?u ?buf @ data @ drop (?u + length data) ?buf, buf_used := ?u + length data\<rparr>"
    have "length data < 64 - ?u" using 2 by linarith
    then have "sha1_fill s data = sha1_fill ?s []"
      using 2 "1.prems" by (subst sha1_fill.simps) (simp add: Let_def)
    also have "\<dots> = Some ?s" by (subst sha1_fill.simps) simp
    finally show ?thesis using 2 "1.prems" by (simp add: sha1_blocks.simps)
  next
    case 3
    let ?n = "64 - ?u"
    let ?b = "take ?u ?buf @ take ?n data"
    have b: "length ?b = 64" using 3 "1.prems" by simp
    let ?s1 = "s\<lparr>sha1_buffer := ?b, buf_used := 64\<rparr>"
    let ?s2 = "?s1\<lparr>sha1_state := wby_sha1_hash_block (sha1_state s) ?b, buf_used := 0\<rparr>"
    have "\<not> length data < ?n" using 3 by linarith
    then have step: "sha1_fill s data = sha1_fill ?s2 (drop ?n data)"
      using 3 "1.prems" by (subst sha1_fill.simps) (simp add: Let_def)
    have "sha1_blocks (sha1_state s) (take ?u ?buf @ data) = sha1_blocks (sha1_state s) (?b @ drop ?n data)" by simp
    also have "\<dots> = sha1_blocks (sha1_compress (sha1_state s) ?b) (drop ?n data)" by (rule sha1_blocks_full [OF b])
    finally have blocks: "sha1_blocks (sha1_state s) (take ?u ?buf @ data) = sha1_blocks (sha1_state ?s2) (drop ?n data)"
      by (simp add: hash_block_compress)
    have len: "(?u + length data) mod 64 = length (drop ?n data) mod 64"
      using 3 "1.prems" by (simp add: mod_if [of "?u + length data"]) (metis Nat.diff_diff_right add.commute le_mod_geq less_imp_le_nat)
    have "\<exists>s'. sha1_fill ?s2 (drop ?n data) = Some s' \<and> length (sha1_buffer s') = 64 \<and>
        buf_used s' = (buf_used ?s2 + length (drop ?n data)) mod 64 \<and>
        sha1_blocks (sha1_state ?s2) (take (buf_used ?s2) (sha1_buffer ?s2) @ drop ?n data) =
          (sha1_state s', take (buf_used s') (sha1_buffer s')) \<and>
        msg_size_hi s' = msg_size_hi ?s2 \<and> msg_size_lo s' = msg_size_lo ?s2"
      using 3 "1.prems" b by (intro "1.IH" [of "64 - ?u" "?n" ?s1]) (simp_all add: Let_def)
    then show ?thesis unfolding step blocks len by simp
  qed
qed


lemma carry_add:
  fixes hi lo :: u32
  assumes "x < 2 ^ 32"
  shows "push_bit 32 (ucast (if lo + of_nat x < lo then hi + 1 else hi)) + ucast (lo + of_nat x) =
    push_bit 32 (ucast hi) + ucast lo + (of_nat x :: u64)"
proof -
  have bounds: "unat lo < 2 ^ 32" "unat hi < 2 ^ 32" using unsigned_less [of lo, where 'a = nat] unsigned_less [of hi, where 'a = nat] by simp_all
  have sum: "unat (lo + of_nat x) = (unat lo + x) mod 2 ^ 32" using assms by (simp add: unat_word_ariths unat_of_nat)
  have shift: "push_bit 32 (ucast w) = (of_nat (unat w * 2 ^ 32) :: u64)" for w :: u32
    by (simp only: ucast_nat push_bit_eq_mult of_nat_mult of_nat_power of_nat_numeral)
  show ?thesis
  proof (cases "unat lo + x < 2 ^ 32")
    case True
    then have "\<not> lo + of_nat x < lo" using sum by (simp add: word_less_nat_alt)
    moreover have "ucast (lo + of_nat x) = (ucast lo + of_nat x :: u64)" 
      by (simp only: ucast_nat sum mod_less [OF True] of_nat_add)
    ultimately show ?thesis by simp
  next
    case False
    then have s: "unat (lo + of_nat x) = unat lo + x - 2 ^ 32" using sum assms bounds by (simp add: mod_if)
    then have less: "lo + of_nat x < lo" using assms False by (simp add: word_less_nat_alt)
    have "ucast (lo + of_nat x) = (ucast lo + of_nat x - 2 ^ 32 :: u64)"
      using False by (simp only: ucast_nat s of_nat_diff [of "2 ^ 32" "unat lo + x"] of_nat_add of_nat_power of_nat_numeral not_less)
    moreover have "push_bit 32 (ucast (hi + 1)) = (push_bit 32 (ucast hi) + 2 ^ 32 :: u64)"
    proof (cases "unat hi + 1 < 2 ^ 32")
      case True
      then have "unat (hi + 1) = unat hi + 1" by (simp add: unat_word_ariths)
      then show ?thesis
        unfolding shift by (simp only: of_nat_mult of_nat_add of_nat_power of_nat_numeral of_nat_1 distrib_right mult_1)
    next
      case False
      then have h: "unat hi = 2 ^ 32 - 1" using bounds by simp
      then have "hi + 1 = 0" by (simp add: word_unat_eq_iff unat_word_ariths)
      then have "(of_nat (unat (hi + 1) * 2 ^ 32) :: u64) = 0" by simp
      moreover have "(of_nat (unat hi * 2 ^ 32) + 2 ^ 32 :: u64) = of_nat (2 ^ 64)" by (simp add: h)
      moreover have "(of_nat (2 ^ 64) :: u64) = 0" by (simp add: word_unat_eq_iff unat_of_nat)
      ultimately show ?thesis unfolding shift by metis
    qed
    ultimately show ?thesis using less by simp
  qed
qed

lemma sha1_update_holds:
  assumes "sha1_holds s m"
  shows "\<exists>s'. wby_sha1_update s d = Some s' \<and> sha1_holds s' (m @ d) \<and>
    (length d < 2 ^ 29 \<longrightarrow> msg_size s' = msg_size s + of_nat (8 * length d))"
proof -
  have s: "length (sha1_buffer s) = 64" "buf_used s = length m mod 64"
      "sha1_blocks sha1_IV m = (sha1_state s, take (buf_used s) (sha1_buffer s))"
    using assms by (simp_all add: sha1_holds_def)
  obtain s1 where s1: "sha1_fill s d = Some s1" "length (sha1_buffer s1) = 64" "buf_used s1 = (buf_used s + length d) mod 64"
      "sha1_blocks (sha1_state s) (take (buf_used s) (sha1_buffer s) @ d) = (sha1_state s1, take (buf_used s1) (sha1_buffer s1))"
      "msg_size_hi s1 = msg_size_hi s" "msg_size_lo s1 = msg_size_lo s"
    using sha1_fill_blocks [OF s(1), of d] s(2) by auto
  let ?lo = "msg_size_lo s + of_nat (length d * 8)"
  let ?s' = "(if ?lo < msg_size_lo s then s1\<lparr>msg_size_hi := msg_size_hi s + 1\<rparr> else s1)\<lparr>msg_size_lo := ?lo\<rparr>"
  have "wby_sha1_update s d = Some ?s'" using s1 by (simp add: wby_sha1_update_def Let_def)
  moreover have "sha1_holds ?s' (m @ d)"
    using s s1 by (simp add: sha1_holds_def sha1_blocks_append [of _ m] mod_add_left_eq)
  moreover have "msg_size ?s' = msg_size s + of_nat (8 * length d)" if "length d < 2 ^ 29"
  proof -
    have "msg_size_hi ?s' = (if ?lo < msg_size_lo s then msg_size_hi s + 1 else msg_size_hi s)" "msg_size_lo ?s' = ?lo"
      using s1(5) by simp_all
    moreover have "length d * 8 < 2 ^ 32" using that by simp
    ultimately show ?thesis
      using carry_add [of "length d * 8" "msg_size_lo s" "msg_size_hi s"]
      unfolding msg_size_def by (simp only: mult.commute [of 8])
  qed
  ultimately show ?thesis by blast
qed

lemma sha1_pad_holds:
  "sha1_holds s m \<Longrightarrow> (length m + z) mod 64 = 56 \<Longrightarrow> z < 64 \<Longrightarrow>
     \<exists>s'. sha1_pad s = Some s' \<and> sha1_holds s' (m @ replicate z 0)"
proof (induction z arbitrary: s m)
  case 0
  then show ?case by (subst sha1_pad.simps) (simp add: sha1_holds_def)
next
  case (Suc z)
  have "length m mod 64 \<noteq> 56"
  proof
    assume "length m mod 64 = 56"
    then have "(length m + Suc z) mod 64 = (56 + Suc z) mod 64" by (metis mod_add_left_eq)
    then show False using Suc.prems(2,3) by (simp add: mod_if split: if_splits)
  qed
  then have ne: "buf_used s \<noteq> 56" using Suc.prems(1) by (simp add: sha1_holds_def)
  obtain s1 where s1: "wby_sha1_update s [0] = Some s1" "sha1_holds s1 (m @ [0])"
    using sha1_update_holds [OF Suc.prems(1), of "[0]"] by blast
  obtain s' where "sha1_pad s1 = Some s'" "sha1_holds s' ((m @ [0]) @ replicate z 0)"
    using Suc.IH [OF s1(2)] Suc.prems by auto
  then show ?case using ne s1 by (subst sha1_pad.simps) simp
qed

fun sha1_updates :: "byte list list \<Rightarrow> wby_sha1 \<Rightarrow> wby_sha1 option" where
  "sha1_updates [] s = Some s"
| "sha1_updates (d # ds) s = Option.bind (wby_sha1_update s d) (sha1_updates ds)"

lemma sha1_updates_holds:
  "sha1_holds s m \<Longrightarrow> \<forall>d\<in>set ds. length d < 2 ^ 29 \<Longrightarrow>
     \<exists>s'. sha1_updates ds s = Some s' \<and> sha1_holds s' (m @ concat ds) \<and>
       msg_size s' = msg_size s + of_nat (8 * length (concat ds))"
proof (induction ds arbitrary: s m)
  case (Cons d ds)
  then obtain s1 where s1: "wby_sha1_update s d = Some s1" "sha1_holds s1 (m @ d)"
      "msg_size s1 = msg_size s + of_nat (8 * length d)"
    using sha1_update_holds [OF Cons.prems(1), of d] by auto
  obtain s' where "sha1_updates ds s1 = Some s'" "sha1_holds s' ((m @ d) @ concat ds)"
      "msg_size s' = msg_size s1 + of_nat (8 * length (concat ds))"
    using Cons.IH [OF s1(2)] Cons.prems(2) by auto
  then show ?case using s1 by (simp add: algebra_simps)
qed simp

lemma msg_size_words:
  assumes "msg_size s = of_nat n" "n < 2 ^ 64"
  shows "msg_size_hi s = of_nat (n div 2 ^ 32)" "msg_size_lo s = of_nat n"
proof -
  let ?h = "unat (msg_size_hi s)" and ?l = "unat (msg_size_lo s)"
  have b: "?l < 2 ^ 32" "?h < 2 ^ 32"
    using unsigned_less [of "msg_size_lo s", where 'a = nat] unsigned_less [of "msg_size_hi s", where 'a = nat] by simp_all
  have "msg_size s = of_nat (?h * 2 ^ 32 + ?l)" 
    by (simp only: msg_size_def ucast_nat push_bit_eq_mult of_nat_mult of_nat_add of_nat_power of_nat_numeral)
  moreover have "?h * 2 ^ 32 + ?l < 2 ^ 64"
  proof -
    have "?h * 2 ^ 32 \<le> (2 ^ 32 - 1) * 2 ^ 32" using b(2) by (intro mult_le_mono1) simp
    then show ?thesis using b(1) by simp
  qed
  moreover have "unat (of_nat k :: u64) = k" if "k < 2 ^ 64" for k using that by (simp add: unat_of_nat)
  ultimately have n: "n = ?h * 2 ^ 32 + ?l" using assms by metis
  then have "n div 2 ^ 32 = ?h" "n mod 2 ^ 32 = ?l" using b(1) by simp_all
  then show "msg_size_hi s = of_nat (n div 2 ^ 32)" by simp
  have "(of_nat n :: u32) = of_nat (n mod 2 ^ 32)" by (simp add: word_unat_eq_iff unat_of_nat)
  then show "msg_size_lo s = of_nat n" using \<open>n mod 2 ^ 32 = ?l\<close> by simp
qed


lemma sha1_final_correct:
  assumes "sha1_holds s m" "msg_size s = of_nat (8 * length m)" "8 * length m < 2 ^ 64"
  shows "\<exists>s'. wby_sha1_final s = Some (sha1 m, s') \<and> buf_used s' = 0"
proof -
  let ?c = "be_bytes (msg_size_hi s) @ be_bytes (msg_size_lo s)"
  let ?z = "(119 - length m mod 64) mod 64"
  obtain s1 where s1: "wby_sha1_update s [0x80] = Some s1" "sha1_holds s1 (m @ [0x80])"
    using sha1_update_holds [OF assms(1), of "[0x80]"] by blast
  have z: "(length (m @ [0x80]) + ?z) mod 64 = 56"
  proof -
    have "length m mod 64 < 64" by simp
    then have "(length m mod 64 + (1 + ?z)) mod 64 = 56"
      by (cases "length m mod 64 \<le> 55") (auto simp: mod_if [of "119 - length m mod 64"])
    then have "(length m + (1 + ?z)) mod 64 = 56" by (simp only: mod_add_left_eq)
    then show ?thesis by (simp only: length_append list.size add.assoc One_nat_def add_0 add_0_right)
  qed
  from z obtain s2 where s2: "sha1_pad s1 = Some s2" "sha1_holds s2 ((m @ [0x80]) @ replicate ?z 0)"
    using sha1_pad_holds [OF s1(2), of ?z] by auto
  obtain s3 where s3: "wby_sha1_update s2 ?c = Some s3" "sha1_holds s3 (((m @ [0x80]) @ replicate ?z 0) @ ?c)"
    using sha1_update_holds [OF s2(2), of ?c] by blast
  have "sha1_padded m = ((m @ [0x80]) @ replicate ?z 0) @ ?c"
    using msg_size_words [OF assms(2,3)] by (simp add: sha1_padded_def)
  then have "fst (sha1_blocks sha1_IV (sha1_padded m)) = sha1_state s3" using s3(2) by (simp add: sha1_holds_def)
  moreover have "buf_used s3 = 0"
  proof -
    have "length ?c = 8" by (simp add: be_bytes_def)
    moreover have "buf_used s3 = length (((m @ [0x80]) @ replicate ?z 0) @ ?c) mod 64" using s3(2) by (simp add: sha1_holds_def)
    ultimately have "buf_used s3 = (length (m @ [0x80]) + ?z + 8) mod 64" by (simp only: length_append length_replicate)
    also have "\<dots> = ((length (m @ [0x80]) + ?z) mod 64 + 8) mod 64" by (simp only: mod_add_left_eq)
    finally show ?thesis using z by simp
  qed
  ultimately show ?thesis using s1 s2 s3
    by (cases "sha1_state s3") (simp add: wby_sha1_final_def sha1_def sha1_IV_def Let_def)
qed

lemma sha1_init_holds: "length (sha1_buffer s) = 64 \<Longrightarrow> sha1_holds (wby_sha1_init s) []"
  by (simp add: sha1_holds_def wby_sha1_init_def sha1_IV_def)

text \<open>
  C6. The digest is SHA-1: for a message that is fed in any pieces (of less than 512 MB each, below
  2^61 bytes in all), \<open>wby_sha1_final\<close> ends, leaves no partial block and returns the digest that
  FIPS 180 defines for the whole message.
\<close>

theorem wby_sha1_correct:
  assumes "length (sha1_buffer s) = 64" "\<forall>d\<in>set ds. length d < 2 ^ 29" "length (concat ds) < 2 ^ 61"
  shows "\<exists>s'. Option.bind (sha1_updates ds (wby_sha1_init s)) wby_sha1_final = Some (sha1 (concat ds), s') \<and>
    buf_used s' = 0"
proof -
  obtain s1 where s1: "sha1_updates ds (wby_sha1_init s) = Some s1" "sha1_holds s1 (concat ds)"
      "msg_size s1 = msg_size (wby_sha1_init s) + of_nat (8 * length (concat ds))"
    using sha1_updates_holds [OF sha1_init_holds [OF assms(1)] assms(2)] by auto
  moreover have "msg_size (wby_sha1_init s) = 0" by (simp add: msg_size_def wby_sha1_init_def)
  ultimately show ?thesis using sha1_final_correct [of s1 "concat ds"] assms(3) by auto
qed

theorem wby_sha1_correct_witness:
  "\<exists>s'. Option.bind (sha1_updates [[0x61], [0x62, 0x63]]
     (wby_sha1_init \<lparr>sha1_state = (0, 0, 0, 0, 0), msg_size_hi = 0, msg_size_lo = 0, buf_used = 0,
        sha1_buffer = replicate 64 0\<rparr>)) wby_sha1_final = Some (sha1 [0x61, 0x62, 0x63], s')"
  using wby_sha1_correct [of "\<lparr>sha1_state = (0, 0, 0, 0, 0), msg_size_hi = 0, msg_size_lo = 0, buf_used = 0,
        sha1_buffer = replicate 64 0\<rparr>" "[[0x61], [0x62, 0x63]]"] by simp blast


end
