(* ===== verification/Mumux_Base64.thy ===== *)
theory Mumux_Base64
  imports Prelude
begin

text \<open>
  \<open>mumux/base64.c\<close>: the base64 encoder of the web socket handshake, compared with a reference
  decoder.
\<close>

section \<open>The encoder\<close>

definition BASE64_QUADS_BEFORE_LINEBREAK :: nat where
  "BASE64_QUADS_BEFORE_LINEBREAK = 19"

definition wby_base64_bufsize :: "nat \<Rightarrow> nat" where
  "wby_base64_bufsize input_size =
     (let triplets = (input_size + 2) div 3;
          base_size = 4 * triplets;
          line_breaks = 2 * (triplets div BASE64_QUADS_BEFORE_LINEBREAK);
          null_termination = 1
      in base_size + line_breaks + null_termination)"

definition base64_enc :: string where
  "base64_enc = ''ABCDEFGHIJKLMNOPQRSTUVWXYZabcdefghijklmnopqrstuvwxyz0123456789+/=''"

text \<open>One pass of the loop, at input position \<open>i\<close>: the four characters.\<close>

definition base64_quad :: "byte list \<Rightarrow> nat \<Rightarrow> string" where
  "base64_quad input i =
     (let input_size = length input;
          i0 = push_bit 16 (ucast (input ! i)) :: u32; i = i + 1;
          i0 = i0 OR push_bit 8 (if i < input_size then ucast (input ! i) else 0); i = i + 1;
          i0 = i0 OR (if i < input_size then ucast (input ! i) else 0); i = i + 1;
          idx_0 = drop_bit 18 (i0 AND 0xfc0000); i0 = push_bit 6 i0;
          idx_1 = drop_bit 18 (i0 AND 0xfc0000); i0 = push_bit 6 i0;
          idx_2 = drop_bit 18 (i0 AND 0xfc0000); i0 = push_bit 6 i0;
          idx_3 = drop_bit 18 (i0 AND 0xfc0000);
          idx_2 = (if i - 1 > input_size then 64 else idx_2);
          idx_3 = (if i > input_size then 64 else idx_3)
      in map (\<lambda>idx. base64_enc ! unat idx) [idx_0, idx_1, idx_2, idx_3])"

function base64_loop :: "byte list \<Rightarrow> nat \<Rightarrow> nat \<Rightarrow> string" where
  "base64_loop input i line_out =
     (if i < length input then
        let line_out = line_out + 1 in
        base64_quad input i @ (if line_out = BASE64_QUADS_BEFORE_LINEBREAK then [CHR 0x0d, CHR 0x0a] else []) @
        base64_loop input (i + 3) line_out
      else [])"
  by pat_completeness auto
termination by (relation "measure (\<lambda>(input, i, _). length input - i)") auto

declare base64_loop.simps [simp del]

text \<open>The result is the return code and the output array; writing past the array is undefined.\<close>

definition wby_base64_encode :: "char list \<Rightarrow> byte list \<Rightarrow> (nat \<times> char list) option" where
  "wby_base64_encode output input =
     (if length output < wby_base64_bufsize (length input) then Some (1, output)
      else
        let text = base64_loop input 0 0 @ [nul] in
        if length text \<le> length output then Some (0, overwrite output text) else None)"

text \<open>The reference decoder (RFC 4648), which skips line breaks.\<close>

definition base64_value :: "char \<Rightarrow> nat" where
  "base64_value c = length (takeWhile (\<lambda>d. d \<noteq> c) base64_enc)"

fun base64_decode :: "string \<Rightarrow> byte list" where
  "base64_decode (a # b # c # d # s) =
     (let v = base64_value a * 2 ^ 18 + base64_value b * 2 ^ 12 in
      if c = CHR ''='' then [of_nat (v div 2 ^ 16)]
      else let v = v + base64_value c * 2 ^ 6 in
        if d = CHR ''='' then [of_nat (v div 2 ^ 16), of_nat (v div 2 ^ 8)]
        else let v = v + base64_value d in
          of_nat (v div 2 ^ 16) # of_nat (v div 2 ^ 8) # of_nat v # base64_decode s)"
| "base64_decode _ = []"

lemma base64_enc_value: "n < 65 \<Longrightarrow> base64_value (base64_enc ! n) = n"
proof -
  have all: "\<forall>n\<in>set [0..<65]. base64_value (base64_enc ! n) = n" by code_simp
  show "n < 65 \<Longrightarrow> ?thesis" using all by (simp del: upt_rec_numeral)
qed

lemma base64_enc_chars: "n < 64 \<Longrightarrow> base64_enc ! n \<noteq> CHR ''='' \<and> base64_enc ! n \<notin> {CHR 0x0d, CHR 0x0a, nul}"
proof -
  have all: "\<forall>n\<in>set [0..<64]. base64_enc ! n \<noteq> CHR ''='' \<and> base64_enc ! n \<notin> {CHR 0x0d, CHR 0x0a, nul}" by code_simp
  show "n < 64 \<Longrightarrow> ?thesis" using all by (simp del: upt_rec_numeral)
qed


lemma sextet:
  fixes w :: u32
  assumes "k \<le> 18"
  shows "unat (drop_bit 18 (push_bit k w AND 0xfc0000)) = unat w div 2 ^ (18 - k) mod 64"
proof -
  have c: "(0xfc0000 :: u32) = push_bit 18 (mask 6)" by (simp add: mask_eq_exp_minus_1 push_bit_eq_mult)
  have "drop_bit 18 (push_bit k w AND 0xfc0000) = take_bit 6 (drop_bit (18 - k) w)"
    unfolding c using assms by (intro bit_word_eqI) (auto simp: bit_simps)
  then have "unat (drop_bit 18 (push_bit k w AND 0xfc0000)) = take_bit 6 (drop_bit (18 - k) (unat w))"
    using take_bit_nat_eq_self [OF unsigned_less [of w, where 'a = nat]]
    by (simp only: unsigned_take_bit_eq unsigned_drop_bit_eq)
  then show ?thesis by (simp add: take_bit_eq_mod drop_bit_eq_div)
qed

lemma unat_push_byte: "k \<le> 24 \<Longrightarrow> unat (push_bit k (ucast (a :: byte)) :: u32) = unat a * 2 ^ k"
proof -
  assume k: "k \<le> 24"
  have "unat a < 2 ^ 8" using unsigned_less [of a, where 'a = nat] by simp
  then have "unat a * 2 ^ k < 2 ^ 8 * 2 ^ k" by simp
  also have "\<dots> \<le> 2 ^ 32" using k power_increasing [of "8 + k" 32 "2 :: nat"] by (simp only: power_add)
  finally have l: "unat a * 2 ^ k < 2 ^ 32" .
  have u: "unat (ucast a :: u32) = unat a" using \<open>unat a < 2 ^ 8\<close> by (simp add: unsigned_ucast_eq take_bit_nat_eq_self)
  have "unat (push_bit k (ucast a) :: u32) = take_bit 32 (push_bit k (unat a))"
    unfolding unsigned_push_bit_eq u by simp
  then show ?thesis using l by (simp add: push_bit_eq_mult take_bit_nat_eq_self)
qed

lemma triple:
  "unat (push_bit 16 (ucast a) OR push_bit 8 (ucast b) OR ucast c :: u32) =
     unat (a :: byte) * 2 ^ 16 + unat (b :: byte) * 2 ^ 8 + unat (c :: byte)"
proof -
  have "push_bit 16 (ucast a) OR push_bit 8 (ucast b) OR ucast c =
      (push_bit 16 (ucast a) + (push_bit 8 (ucast b) + ucast c) :: u32)"
  proof -
    have "push_bit 8 (ucast b) AND ucast c = (0 :: u32)" by (rule bit_word_eqI) (auto simp: bit_simps dest: bit_imp_le_length)
    then have bc: "push_bit 8 (ucast b) + ucast c = (push_bit 8 (ucast b) OR ucast c :: u32)" by (rule disjunctive_add_eq_or)
    have "push_bit 16 (ucast a) AND (push_bit 8 (ucast b) OR ucast c) = (0 :: u32)"
      by (rule bit_word_eqI) (auto simp: bit_simps dest: bit_imp_le_length)
    then show ?thesis unfolding bc by (rule disjunctive_add_eq_or [symmetric])
  qed
  moreover have "unat a < 2 ^ 8" "unat b < 2 ^ 8" "unat c < 2 ^ 8"
    using unsigned_less [of a, where 'a = nat] unsigned_less [of b, where 'a = nat] unsigned_less [of c, where 'a = nat] by simp_all
  ultimately show ?thesis
    using unat_push_byte [of 16 a] unat_push_byte [of 8 b] unat_push_byte [of 0 c] by (simp add: unat_word_ariths)
qed

definition quad_value :: "byte \<Rightarrow> byte \<Rightarrow> byte \<Rightarrow> nat" where
  "quad_value a b c = unat a * 2 ^ 16 + unat b * 2 ^ 8 + unat c"

lemma base64_quad_value:
  assumes "i < length input"
    and "b = (if i + 1 < length input then input ! (i + 1) else 0)" "c = (if i + 2 < length input then input ! (i + 2) else 0)"
  shows "base64_quad input i = (let v = quad_value (input ! i) b c in
    map ((!) base64_enc) [v div 2 ^ 18 mod 64, v div 2 ^ 12 mod 64,
      if i + 2 > length input then 64 else v div 2 ^ 6 mod 64, if i + 3 > length input then 64 else v mod 64])"
proof -
  let ?w = "push_bit 16 (ucast (input ! i)) OR push_bit 8 (ucast b) OR ucast c :: u32"
  have w: "unat ?w = quad_value (input ! i) b c" unfolding quad_value_def by (rule triple)
  have b: "(if i + 1 < length input then ucast (input ! (i + 1)) else 0) = (ucast b :: u32)"
    and c: "(if i + 1 + 1 < length input then ucast (input ! (i + 1 + 1)) else 0) = (ucast c :: u32)"
    using assms(2,3) by simp_all
  have sh: "push_bit 6 (push_bit 6 ?w) = push_bit 12 ?w" "push_bit 6 (push_bit 12 ?w) = push_bit 18 ?w" by (simp_all add: push_bit_push_bit)
  show ?thesis
    unfolding base64_quad_def Let_def b c or.assoc sh
    using sextet [of 0 ?w] sextet [of 6 ?w] sextet [of 12 ?w] sextet [of 18 ?w] by (simp add: w or.assoc)
qed


lemma quad_value_less: "quad_value a b c < 2 ^ 24"
  using unsigned_less [of a, where 'a = nat] unsigned_less [of b, where 'a = nat] unsigned_less [of c, where 'a = nat]
  by (simp add: quad_value_def)

lemma quad_value_bytes:
  "(of_nat (quad_value a b c div 2 ^ 16) :: byte) = a" "(of_nat (quad_value a b c div 2 ^ 8) :: byte) = b"
  "(of_nat (quad_value a b c) :: byte) = c"
proof -
  have l: "unat b < 256" "unat c < 256" using unsigned_less [of b, where 'a = nat] unsigned_less [of c, where 'a = nat] by simp_all
  have m: "(of_nat n :: byte) = of_nat (n mod 256)" for n by (simp add: word_unat_eq_iff unat_of_nat)
  have "quad_value a b c div 2 ^ 16 = unat a" using l by (simp add: quad_value_def)
  then show "(of_nat (quad_value a b c div 2 ^ 16) :: byte) = a" by simp
  have "quad_value a b c div 2 ^ 8 = unat a * 256 + unat b" using l by (simp add: quad_value_def)
  then have "quad_value a b c div 2 ^ 8 mod 256 = unat b" using l by simp
  then show "(of_nat (quad_value a b c div 2 ^ 8) :: byte) = b" by (subst m) simp
  have "quad_value a b c = (unat a * 256 + unat b) * 256 + unat c" by (simp add: quad_value_def)
  then have "quad_value a b c mod 256 = unat c" using l(2) by (simp only: mod_mult_self3 mod_less)
  then show "(of_nat (quad_value a b c) :: byte) = c" by (subst m) simp
qed

lemma sextets_sum:
  assumes "v < 2 ^ 24"
  shows "v div 2 ^ 18 mod 64 * 2 ^ 18 + v div 2 ^ 12 mod 64 * 2 ^ 12 = v div 2 ^ 12 * 2 ^ 12"
    and "v div 2 ^ 12 * 2 ^ 12 + v div 2 ^ 6 mod 64 * 2 ^ 6 = v div 2 ^ 6 * 2 ^ 6"
    and "v div 2 ^ 6 * 2 ^ 6 + v mod 64 = (v :: nat)"
proof -
  have d: "x div 64 * 64 + x mod 64 = x" for x :: nat by simp
  have "v div 2 ^ 18 < 64" using assms by (simp add: div_less_iff_less_mult)
  moreover have "v div 2 ^ 12 div 64 = v div 2 ^ 18" "v div 2 ^ 6 div 64 = v div 2 ^ 12" by (simp_all add: div_mult2_eq [symmetric])
  ultimately show "v div 2 ^ 18 mod 64 * 2 ^ 18 + v div 2 ^ 12 mod 64 * 2 ^ 12 = v div 2 ^ 12 * 2 ^ 12"
    "v div 2 ^ 12 * 2 ^ 12 + v div 2 ^ 6 mod 64 * 2 ^ 6 = v div 2 ^ 6 * 2 ^ 6"
    using d [of "v div 2 ^ 12"] d [of "v div 2 ^ 6"] by simp_all
  show "v div 2 ^ 6 * 2 ^ 6 + v mod 64 = v" by simp
qed

lemma decode_quad:
  assumes "i < length input"
  shows "base64_decode (base64_quad input i @ s) =
    (if i + 3 \<le> length input then [input ! i, input ! (i + 1), input ! (i + 2)] @ base64_decode s else drop i input)"
proof -
  define b where "b = (if i + 1 < length input then input ! (i + 1) else 0)"
  define c where "c = (if i + 2 < length input then input ! (i + 2) else 0)"
  define v where "v = quad_value (input ! i) b c"
  note q = base64_quad_value [OF assms b_def c_def, folded v_def, unfolded Let_def]
  have val: "base64_value (base64_enc ! (x mod 64)) = x mod 64" "base64_enc ! (x mod 64) \<noteq> CHR ''=''" for x
    using base64_enc_value [of "x mod 64"] base64_enc_chars [of "x mod 64"] by simp_all
  have pad: "base64_enc ! 64 = CHR ''=''" by (simp add: base64_enc_def)
  note sums = sextets_sum [OF quad_value_less [of "input ! i" b c], folded v_def]
  note bytes = quad_value_bytes [of "input ! i" b c, folded v_def]
  have trunc: "v div 2 ^ 12 * 2 ^ 12 div 2 ^ 16 = v div 2 ^ 16" "v div 2 ^ 6 * 2 ^ 6 div 2 ^ 16 = v div 2 ^ 16"
    "v div 2 ^ 6 * 2 ^ 6 div 2 ^ 8 = v div 2 ^ 8"
    using div_mult2_eq [of _ "2 ^ 12" "2 ^ 4 :: nat"] div_mult2_eq [of _ "2 ^ 6" "2 ^ 10 :: nat"] div_mult2_eq [of _ "2 ^ 6" "2 ^ 2 :: nat"]
    by simp_all
  consider "length input = i + 1" | "length input = i + 2" | "i + 3 \<le> length input" using assms by linarith
  then show ?thesis
  proof cases
    case 1
    then have "base64_decode (base64_quad input i @ s) = [of_nat (v div 2 ^ 12 * 2 ^ 12 div 2 ^ 16)]"
      unfolding q by (simp add: val pad sums(1) del: power_numeral)
    then show ?thesis using 1 trunc bytes by (simp add: Cons_nth_drop_Suc [symmetric])
  next
    case 2
    then have "base64_decode (base64_quad input i @ s) = [of_nat (v div 2 ^ 6 * 2 ^ 6 div 2 ^ 16), of_nat (v div 2 ^ 6 * 2 ^ 6 div 2 ^ 8)]"
      unfolding q by (simp add: val pad sums(1,2) Let_def del: power_numeral)
    then show ?thesis using 2 trunc bytes by (simp add: b_def Cons_nth_drop_Suc [symmetric])
  next
    case 3
    then have "base64_decode (base64_quad input i @ s) = of_nat (v div 2 ^ 16) # of_nat (v div 2 ^ 8) # of_nat v # base64_decode s"
      unfolding q by (simp add: val sums Let_def del: power_numeral of_nat_add of_nat_mult)
    then show ?thesis using 3 bytes by (simp add: b_def c_def)
  qed
qed


lemma base64_quad_chars:
  assumes "i < length input"
  shows "length (base64_quad input i) = 4" "set (base64_quad input i) \<inter> {CHR 0x0d, CHR 0x0a, nul} = {}"
proof -
  have pad: "base64_enc ! 64 = CHR ''=''" by (simp add: base64_enc_def)
  have "base64_enc ! (x mod 64) \<notin> {CHR 0x0d, CHR 0x0a, nul}" for x using base64_enc_chars [of "x mod 64"] by simp
  then show "length (base64_quad input i) = 4" "set (base64_quad input i) \<inter> {CHR 0x0d, CHR 0x0a, nul} = {}"
    unfolding base64_quad_value [OF assms refl refl] Let_def by (auto simp: pad)
qed

definition no_breaks :: "string \<Rightarrow> string" where
  "no_breaks s = filter (\<lambda>c. c \<notin> {CHR 0x0d, CHR 0x0a}) s"

lemma no_breaks_quad: "i < length input \<Longrightarrow> no_breaks (base64_quad input i @ s) = base64_quad input i @ no_breaks s"
  using base64_quad_chars(2) [of i input] by (auto simp: no_breaks_def filter_id_conv)

lemma base64_loop_decode: "base64_decode (no_breaks (base64_loop input i l)) = drop i input"
proof (induction input i l rule: base64_loop.induct)
  case (1 input i l)
  show ?case
  proof (cases "i < length input")
    case True
    let ?r = "base64_loop input (i + 3) (l + 1)"
    have "no_breaks (base64_loop input i l) = base64_quad input i @ no_breaks ?r"
      using True by (subst base64_loop.simps) (simp add: Let_def no_breaks_quad, simp add: no_breaks_def)
    then have "base64_decode (no_breaks (base64_loop input i l)) =
        (if i + 3 \<le> length input then [input ! i, input ! (i + 1), input ! (i + 2)] @ drop (i + 3) input else drop i input)"
      using decode_quad [OF True] "1.IH" [OF True refl] by simp
    moreover have "[input ! i, input ! (i + 1), input ! (i + 2)] @ drop (i + 3) input = drop i input" if "i + 3 \<le> length input"
      using that by (simp add: Cons_nth_drop_Suc numeral_3_eq_3)
    ultimately show ?thesis by simp
  qed (subst base64_loop.simps, simp add: no_breaks_def)
qed

lemma base64_loop_length:
  "length (base64_loop input i l) =
     4 * ((length input - i + 2) div 3) + (if l < 19 \<and> 19 \<le> l + (length input - i + 2) div 3 then 2 else 0)"
proof (induction input i l rule: base64_loop.induct)
  case (1 input i l)
  show ?case
  proof (cases "i < length input")
    case True
    have t: "(length input - i + 2) div 3 = Suc ((length input - (i + 3) + 2) div 3)" using True by presburger
    show ?thesis unfolding t using True "1.IH" [OF True refl] base64_quad_chars(1) [OF True]
      by (subst base64_loop.simps) (auto simp: Let_def BASE64_QUADS_BEFORE_LINEBREAK_def)
  qed (subst base64_loop.simps, simp)
qed

lemma base64_loop_nul_free: "nul_free (base64_loop input i l)"
proof (induction input i l rule: base64_loop.induct)
  case (1 input i l)
  show ?case
  proof (cases "i < length input")
    case True
    have "nul_free (base64_quad input i)" using base64_quad_chars(2) [OF True] by (auto simp: nul_free_def)
    then show ?thesis using True "1.IH" [OF True refl] by (subst base64_loop.simps) (simp add: Let_def)
  qed (subst base64_loop.simps, simp)
qed

lemma base64_encode_fits:
  assumes "wby_base64_bufsize (length input) \<le> length output"
  shows "\<exists>out. wby_base64_encode output input = Some (0, out) \<and> length out = length output \<and>
    length (cstr out) < wby_base64_bufsize (length input) \<and> base64_decode (no_breaks (cstr out)) = input"
proof -
  let ?t = "base64_loop input 0 0"
  have len: "length ?t + 1 \<le> wby_base64_bufsize (length input)"
  proof -
    have "19 \<le> n \<Longrightarrow> 2 \<le> 2 * (n div 19)" for n :: nat by presburger
    then show ?thesis by (auto simp: base64_loop_length wby_base64_bufsize_def Let_def BASE64_QUADS_BEFORE_LINEBREAK_def)
  qed
  then have "wby_base64_encode output input = Some (0, overwrite output (?t @ [nul]))"
    using assms by (simp add: wby_base64_encode_def Let_def)
  moreover have "cstr (overwrite output (?t @ [nul])) = ?t"
    using base64_loop_nul_free [of input 0 0] by (simp add: overwrite_def)
  ultimately show ?thesis using len assms base64_loop_decode [of input 0 0] by simp
qed

text \<open>
  C21. Base64: an output array of at least \<open>wby_base64_bufsize\<close> cells is always big enough (the
  terminator included) and the text in it decodes to the input (RFC 4648, line breaks skipped);
  a smaller array is refused and left alone.
\<close>

theorem base64_roundtrip:
  "if wby_base64_bufsize (length input) \<le> length output
   then \<exists>out. wby_base64_encode output input = Some (0, out) \<and> length out = length output \<and>
     length (cstr out) < wby_base64_bufsize (length input) \<and> base64_decode (no_breaks (cstr out)) = input
   else wby_base64_encode output input = Some (1, output)"
proof (cases "wby_base64_bufsize (length input) \<le> length output")
  case True
  then show ?thesis using base64_encode_fits by (simp only: if_True)
qed (simp add: wby_base64_encode_def)

end
