(* ===== verification/Mumux_Frames.thy ===== *)
theory Mumux_Frames
  imports Prelude
begin

text \<open>
  \<open>mumux\<close>: web socket frame headers, written by \<open>wby_make_websocket_header\<close> (\<open>util.c\<close>) and read by
  \<open>wby_scan_websocket_frame\<close> (\<open>request.c\<close>).
\<close>

section \<open>Web socket frame headers\<close>

definition WBY_WSF_FIN :: byte where "WBY_WSF_FIN = 1"
definition WBY_WSF_MASKED :: byte where "WBY_WSF_MASKED = 2"

text \<open>
  The header bytes that \<open>wby_make_websocket_header\<close> stores; their number is its result. The payload
  length is a C \<open>int\<close>.
\<close>

definition wby_make_websocket_header :: "byte \<Rightarrow> u32 \<Rightarrow> bool \<Rightarrow> byte list" where
  "wby_make_websocket_header opcode payload_len fin =
     (let b0 = (if fin then 0x80 else 0) OR opcode in
      if sint payload_len < 126 then [b0, ucast (payload_len AND 0x7f)]
      else if sint payload_len < 65536 then [b0, 126, ucast (signed_drop_bit 8 payload_len), ucast payload_len]
      else [b0, 127, 0, 0, 0, 0, ucast (signed_drop_bit 24 payload_len), ucast (signed_drop_bit 16 payload_len),
        ucast (signed_drop_bit 8 payload_len), ucast payload_len])"

record wby_frame =
  frame_flags :: byte
  frame_opcode :: byte
  header_size :: nat
  mask_key :: "byte list"
  payload_length :: u32

text \<open>\<open>wby_scan_websocket_frame\<close> on the used part of a buffer: \<open>None\<close> is the result -1.\<close>

definition wby_scan_websocket_frame :: "wby_frame \<Rightarrow> byte list \<Rightarrow> wby_frame option" where
  "wby_scan_websocket_frame frame buf =
     (if length buf < 2 then None
      else
        let header0 = buf ! 0; header1 = buf ! 1;
            flags = (if header0 AND 0x80 \<noteq> 0 then WBY_WSF_FIN else 0);
            masked = (header1 AND 0x80 \<noteq> 0);
            flags = (if masked then flags OR WBY_WSF_MASKED else flags);
            mask_bytes = (if masked then 4 else 0);
            opcode = header0 AND 0xf;
            len = header1 AND 0x7f;
            len_bytes = (if len = 126 then 2 else if len = 127 then 8 else 0)
        in
        if 2 + len_bytes + mask_bytes > length buf then None
        else
          let len = foldl (\<lambda>l b. push_bit 8 l OR ucast b) (if len_bytes = 0 then ucast len else 0) (take len_bytes (drop 2 buf));
              data = drop (2 + len_bytes) buf
          in Some (frame\<lparr>mask_key := overwrite (mask_key frame) (take mask_bytes data),
               header_size := 2 + len_bytes + mask_bytes, frame_flags := flags, frame_opcode := opcode,
               payload_length := len\<rparr>))"

text \<open>The pong frame of \<open>connection.h\<close>.\<close>

definition wby_websocket_pong :: "byte list" where
  "wby_websocket_pong = [0x80, 10, 0x00]"

definition blank_frame :: wby_frame where
  "blank_frame = \<lparr>frame_flags = 0, frame_opcode = 0, header_size = 0, mask_key = [0, 0, 0, 0], payload_length = 0\<rparr>"



lemma bit_128: "bit (128 :: int) n \<longleftrightarrow> n = 7"
proof -
  have "(128 :: int) = push_bit 7 1" by simp
  then show ?thesis by (simp only: bit_push_bit_iff) (auto simp: bit_1_iff)
qed

lemma byte_constants:
  "(0x7f :: byte) = mask 7" "(0xf :: byte) = mask 4" "(0x7f :: u32) = mask 7"
  by (simp_all add: mask_eq_exp_minus_1)

lemma small_bits: "unat (w :: 'a :: len word) < 2 ^ k \<Longrightarrow> bit w n \<Longrightarrow> n < k"
proof -
  assume "unat w < 2 ^ k"
  then have "take_bit k w = w" by (simp add: word_unat_eq_iff unsigned_take_bit_eq take_bit_nat_eq_self)
  moreover assume "bit w n"
  ultimately show "n < k" by (metis bit_take_bit_iff)
qed

lemma first_byte:
  assumes "opcode < 16"
  shows "((if fin then 0x80 else 0) OR opcode) AND 0x80 \<noteq> (0 :: byte) \<longleftrightarrow> fin"
    and "((if fin then 0x80 else 0) OR opcode) AND 0xf = (opcode :: byte)"
proof -
  have op: "bit opcode n \<Longrightarrow> n < 4" for n using small_bits [of opcode 4 n] assms by (simp add: word_less_nat_alt)
  have "((if fin then 0x80 else 0) OR opcode) AND 0x80 = (if fin then 0x80 else 0)"
    unfolding byte_constants using op op [of 7] by (intro bit_word_eqI) (auto simp: bit_simps bit_128)
  then show "((if fin then 0x80 else 0) OR opcode) AND 0x80 \<noteq> (0 :: byte) \<longleftrightarrow> fin" by simp
  show "((if fin then 0x80 else 0) OR opcode) AND 0xf = (opcode :: byte)"
    unfolding byte_constants using op op [of 7] by (intro bit_word_eqI) (auto simp: bit_simps bit_128)
qed

lemma short_length:
  assumes "p < 126"
  shows "ucast (p AND 0x7f :: u32) AND 0x80 = (0 :: byte)" "ucast (ucast (p AND 0x7f) AND 0x7f :: byte) = p"
    "ucast (p AND 0x7f) AND 0x7f \<noteq> (126 :: byte)" "ucast (p AND 0x7f) AND 0x7f \<noteq> (127 :: byte)"
proof -
  have "unat p < 2 ^ 7" using assms by (simp add: word_less_nat_alt)
  then have b: "bit p n \<Longrightarrow> n < 7 \<and> n < 8" for n using small_bits [of p 7 n] by fastforce
  show "ucast (p AND 0x7f :: u32) AND 0x80 = (0 :: byte)"
    unfolding byte_constants by (intro bit_word_eqI) (auto simp: bit_simps bit_128)
  show u: "ucast (ucast (p AND 0x7f) AND 0x7f :: byte) = p"
    unfolding byte_constants using b by (intro bit_word_eqI) (auto simp: bit_simps bit_128)
  show "ucast (p AND 0x7f) AND 0x7f \<noteq> (126 :: byte)" "ucast (p AND 0x7f) AND 0x7f \<noteq> (127 :: byte)"
  proof -
    have "p \<noteq> 126" "p \<noteq> 127" using assms by auto
    then show "ucast (p AND 0x7f) AND 0x7f \<noteq> (126 :: byte)" "ucast (p AND 0x7f) AND 0x7f \<noteq> (127 :: byte)"
      using u by auto
  qed
qed

lemma long_length:
  "unat (p :: u32) < 2 ^ 16 \<Longrightarrow> foldl (\<lambda>l b. push_bit 8 l OR ucast b) 0 [ucast (signed_drop_bit 8 p), ucast p :: byte] = p"
  "foldl (\<lambda>l b. push_bit 8 l OR ucast b) 0 [0, 0, 0, 0, ucast (signed_drop_bit 24 p), ucast (signed_drop_bit 16 p),
     ucast (signed_drop_bit 8 p), ucast p :: byte] = p"
proof -
  show "foldl (\<lambda>l b. push_bit 8 l OR ucast b) 0 [ucast (signed_drop_bit 8 p), ucast p :: byte] = p" if "unat p < 2 ^ 16"
  proof -
    have b: "bit p n \<Longrightarrow> n < 16" for n using small_bits [of p 16 n] that by simp
    show ?thesis
    proof (rule bit_word_eqI)
      fix n assume "n < LENGTH(32)"
      then show "bit (foldl (\<lambda>l b. push_bit 8 l OR ucast b) 0 [ucast (signed_drop_bit 8 p), ucast p :: byte] :: u32) n = bit p n"
        using b [of n] by (cases "n < 8"; cases "n < 16") (auto simp: bit_simps)
    qed
  qed
  have pos: "n < 8 \<or> 8 \<le> n \<and> n < 16 \<or> 16 \<le> n \<and> n < 24 \<or> 24 \<le> n" for n :: nat by linarith
  show "foldl (\<lambda>l b. push_bit 8 l OR ucast b) 0 [0, 0, 0, 0, ucast (signed_drop_bit 24 p), ucast (signed_drop_bit 16 p),
     ucast (signed_drop_bit 8 p), ucast p :: byte] = p"
  proof (rule bit_word_eqI)
    fix n assume "n < LENGTH(32)"
    then show "bit (foldl (\<lambda>l b. push_bit 8 l OR ucast b) 0 [0, 0, 0, 0, ucast (signed_drop_bit 24 p),
        ucast (signed_drop_bit 16 p), ucast (signed_drop_bit 8 p), ucast p :: byte] :: u32) n = bit p n"
      using pos [of n] by (auto simp: bit_simps bit_128)
  qed
qed

lemma scan_long:
  assumes "lenb = 126 \<and> k = 2 \<or> lenb = 127 \<and> k = 8" "length ext = k"
  shows "wby_scan_websocket_frame f (opc # lenb # ext @ rest) =
      Some (f\<lparr>header_size := 2 + k, frame_flags := (if opc AND 0x80 \<noteq> 0 then WBY_WSF_FIN else 0), frame_opcode := opc AND 0xf,
        payload_length := foldl (\<lambda>l b. push_bit 8 l OR ucast b) 0 ext\<rparr>)"
    and "n < 2 + k \<Longrightarrow> wby_scan_websocket_frame f (take n (opc # lenb # ext)) = None"
proof -
  have hb: "lenb AND 0x80 = 0" "(if lenb AND 0x7f = 126 then 2 else if lenb AND 0x7f = 127 then 8 else 0) = k" "k \<noteq> 0"
    using assms(1) by auto
  show "wby_scan_websocket_frame f (opc # lenb # ext @ rest) =
      Some (f\<lparr>header_size := 2 + k, frame_flags := (if opc AND 0x80 \<noteq> 0 then WBY_WSF_FIN else 0), frame_opcode := opc AND 0xf,
        payload_length := foldl (\<lambda>l b. push_bit 8 l OR ucast b) 0 ext\<rparr>)"
    using assms(2) hb by (simp add: wby_scan_websocket_frame_def Let_def overwrite_def)
  assume n: "n < 2 + k"
  show "wby_scan_websocket_frame f (take n (opc # lenb # ext)) = None"
  proof (cases "n < 2")
    case False
    then obtain j where j: "n = Suc (Suc j)" by (metis add_2_eq_Suc less_eqE not_less)
    then have "length (opc # lenb # take j ext) < 2 + k" using n by simp
    then show ?thesis using hb by (simp add: j wby_scan_websocket_frame_def Let_def)
  qed (simp add: wby_scan_websocket_frame_def)
qed

text \<open>
  Frame headers: what \<open>wby_make_websocket_header\<close> writes for an opcode and a payload length of a
  non-negative \<open>int\<close>, \<open>wby_scan_websocket_frame\<close> reads back, in each of the three length formats and
  whatever follows; a proper prefix of the header is not accepted.
\<close>

theorem websocket_header_roundtrip:
  assumes "opcode < 16" "unat payload_len < 2 ^ 31"
  shows "wby_scan_websocket_frame f (wby_make_websocket_header opcode payload_len fin @ rest) =
      Some (f\<lparr>header_size := length (wby_make_websocket_header opcode payload_len fin),
        frame_flags := (if fin then WBY_WSF_FIN else 0), frame_opcode := opcode, payload_length := payload_len\<rparr>) \<and>
    (\<forall>n < length (wby_make_websocket_header opcode payload_len fin).
      wby_scan_websocket_frame f (take n (wby_make_websocket_header opcode payload_len fin)) = None)"
proof -
  have sp: "sint payload_len = int (unat payload_len)" by (rule sint_small [OF assms(2)])
  note fb = first_byte [OF assms(1), of fin]
  consider "unat payload_len < 126" | "\<not> unat payload_len < 126" "unat payload_len < 65536" | "\<not> unat payload_len < 65536" by linarith
  then show ?thesis
  proof cases
    case 1
    then have "payload_len < 126" by (simp add: word_less_nat_alt)
    note short = short_length [OF this]
    have "sint payload_len < 126" using 1 by (simp only: sp of_nat_less_numeral_iff)
    then have h: "wby_make_websocket_header opcode payload_len fin = [(if fin then 0x80 else 0) OR opcode, ucast (payload_len AND 0x7f)]"
      by (simp add: wby_make_websocket_header_def Let_def)
    show ?thesis unfolding h using short fb
      by (auto simp: wby_scan_websocket_frame_def Let_def overwrite_def)
  next
    case 2
    have "\<not> sint payload_len < 126" "sint payload_len < 65536" using 2 by (simp_all only: sp of_nat_less_numeral_iff not_False_eq_True)
    then have h: "wby_make_websocket_header opcode payload_len fin =
        [(if fin then 0x80 else 0) OR opcode, 126, ucast (signed_drop_bit 8 payload_len), ucast payload_len]"
      by (simp add: wby_make_websocket_header_def Let_def)
    show ?thesis unfolding h using fb long_length(1) [of payload_len] 2
      scan_long [where lenb = 126 and k = 2 and f = f and ext = "[ucast (signed_drop_bit 8 payload_len), ucast payload_len]"] by simp
  next
    case 3
    have "\<not> sint payload_len < 126" "\<not> sint payload_len < 65536" using 3 by (simp_all only: sp of_nat_less_numeral_iff not_False_eq_True)
    then have h: "wby_make_websocket_header opcode payload_len fin =
        [(if fin then 0x80 else 0) OR opcode, 127, 0, 0, 0, 0, ucast (signed_drop_bit 24 payload_len), ucast (signed_drop_bit 16 payload_len),
          ucast (signed_drop_bit 8 payload_len), ucast payload_len]"
      by (simp add: wby_make_websocket_header_def Let_def)
    show ?thesis unfolding h using fb long_length(2) [of payload_len]
      scan_long [where lenb = 127 and k = 8 and f = f and ext = "[0, 0, 0, 0, ucast (signed_drop_bit 24 payload_len), ucast (signed_drop_bit 16 payload_len),
          ucast (signed_drop_bit 8 payload_len), ucast payload_len]"] by simp
  qed
qed


theorem websocket_header_roundtrip_witness:
  "wby_scan_websocket_frame blank_frame (wby_make_websocket_header 2 70000 True @ [1, 2, 3]) =
     Some (blank_frame\<lparr>header_size := 10, frame_flags := WBY_WSF_FIN, frame_opcode := 2, payload_length := 70000\<rparr>)"
proof -
  have "sint (70000 :: u32) = 70000" by simp
  then have "length (wby_make_websocket_header 2 70000 True) = 10" by (simp add: wby_make_websocket_header_def)
  then show ?thesis using websocket_header_roundtrip [of 2 70000 blank_frame True "[1, 2, 3]"] by simp
qed

text \<open>
  The answer to a ping is malformed: a peer that scans the bytes \<open>wby_websocket_pong\<close> sees a final
  \<^emph>\<open>continuation\<close> frame that announces ten bytes of payload, of which one is there.
\<close>

theorem websocket_pong_malformed:
  "wby_scan_websocket_frame f wby_websocket_pong =
     Some (f\<lparr>header_size := 2, frame_flags := WBY_WSF_FIN, frame_opcode := 0, payload_length := 10\<rparr>) \<and>
   wby_websocket_pong \<noteq> wby_make_websocket_header 10 0 True"
  by (simp add: wby_websocket_pong_def wby_scan_websocket_frame_def Let_def overwrite_def wby_make_websocket_header_def)

end
