(* ===== verification/Mumux_Text.thy ===== *)
theory Mumux_Text
  imports Prelude
begin

text \<open>
  \<open>mumux\<close>, text processing: URL decoding and query variables (\<open>url.c\<close>), the end of a request
  header and the in-place tokenizer (\<open>util.c\<close>).
\<close>

section \<open>Characters\<close>

text \<open>\<open>isxdigit\<close> of the C locale.\<close>

definition isxdigit :: "char \<Rightarrow> bool" where
  "isxdigit c \<longleftrightarrow> c \<in> set ''0123456789abcdefABCDEF''"

definition HEXTOI :: "char \<Rightarrow> nat" where
  "HEXTOI x = (if isdigit x then of_char x - of_char CHR ''0'' else of_char x - of_char CHR ''W'')"

text \<open>\<open>strcasecmp\<close> and \<open>strncasecmp\<close>, as equality tests on NUL-free strings.\<close>

definition strcasecmp_eq :: "string \<Rightarrow> string \<Rightarrow> bool" where
  "strcasecmp_eq s t \<longleftrightarrow> map tolower s = map tolower t"

definition strncasecmp_eq :: "string \<Rightarrow> string \<Rightarrow> nat \<Rightarrow> bool" where
  "strncasecmp_eq s t n \<longleftrightarrow> map tolower (take n s) = map tolower (take n t)"

section \<open>URL decoding\<close>

text \<open>
  \<open>wby_url_decode\<close> with a source and a destination in the same array (the way the request line is
  decoded) or in different ones: the memory is one array, \<open>src\<close> and \<open>dst\<close> are positions in it. The
  character after the end of the source is read after a percent sign, as in the code.
\<close>

function url_decode_loop :: "char list \<Rightarrow> nat \<Rightarrow> nat \<Rightarrow> nat \<Rightarrow> nat \<Rightarrow> bool \<Rightarrow> nat \<Rightarrow> nat \<Rightarrow> (nat \<times> char list) option" where
  "url_decode_loop mem src src_len dst dst_len form i j =
     (if i < src_len \<and> j < (dst_len + (2 ^ 64 - 1)) mod 2 ^ 64 then do {
        c \<leftarrow> peek mem (src + i);
        hex \<leftarrow> (if c = CHR ''%'' then do {
                  c1 \<leftarrow> peek mem (src + i + 1);
                  if isxdigit c1 then do {
                    c2 \<leftarrow> peek mem (src + i + 2);
                    Some (if isxdigit c2 then Some (tolower c1, tolower c2) else None)
                  } else Some None
                } else Some None);
        (case hex of
           Some (a, b) \<Rightarrow> do {
             mem \<leftarrow> poke mem (dst + j) (char_of (push_bit 4 (HEXTOI a) OR HEXTOI b));
             url_decode_loop mem src src_len dst dst_len form (i + 3) (j + 1)
           }
         | None \<Rightarrow> do {
             mem \<leftarrow> poke mem (dst + j) (if form \<and> c = CHR ''+'' then CHR '' '' else c);
             url_decode_loop mem src src_len dst dst_len form (i + 1) (j + 1)
           })
      } else do { mem \<leftarrow> poke mem (dst + j) nul; Some (j, mem) })"
  by pat_completeness auto
termination
  by (relation "measure (\<lambda>(mem, src, src_len, dst, dst_len, form, i, j). src_len - i)") auto

declare url_decode_loop.simps [simp del]

definition wby_url_decode :: "char list \<Rightarrow> nat \<Rightarrow> nat \<Rightarrow> nat \<Rightarrow> nat \<Rightarrow> bool \<Rightarrow> (nat \<times> char list) option" where
  "wby_url_decode mem src src_len dst dst_len form = url_decode_loop mem src src_len dst dst_len form 0 0"

text \<open>The decoding of a string, and an encoder that writes every character as a percent escape unless it is kept.\<close>

fun url_decoded :: "bool \<Rightarrow> string \<Rightarrow> string" where
  "url_decoded form [] = []"
| "url_decoded form (c # s) =
     (if c = CHR ''%'' \<and> 2 \<le> length s \<and> isxdigit (s ! 0) \<and> isxdigit (s ! 1)
      then char_of (HEXTOI (tolower (s ! 0)) * 16 + HEXTOI (tolower (s ! 1))) # url_decoded form (drop 2 s)
      else (if form \<and> c = CHR ''+'' then CHR '' '' else c) # url_decoded form s)"

text \<open>
  \<open>wby_find_query_var\<close>: the text and the destination array lie behind each other in the memory. The
  result is the length (\<open>None\<close>: -1) and the destination.
\<close>

function query_loop :: "string \<Rightarrow> string \<Rightarrow> char list \<Rightarrow> nat \<Rightarrow> (nat option \<times> char list) option" where
  "query_loop buf name dst p =
     (if p + length name < length buf then
        if (p = 0 \<or> buf ! (p - 1) = CHR ''&'') \<and> buf ! (p + length name) = CHR ''='' \<and>
           strncasecmp_eq name (drop p buf) (length name)
        then
          let p = p + length name + 1;
              len = length (takeWhile (\<lambda>c. c \<noteq> CHR ''&'') (drop p buf))
          in
          if len < length dst
          then do {
            (n, mem) \<leftarrow> wby_url_decode (buf @ nul # dst) p len (length buf + 1) (length dst) True;
            Some (Some n, drop (length buf + 1) mem)
          }
          else Some (None, dst)
        else query_loop buf name dst (p + 1)
      else Some (None, dst))"
  by pat_completeness auto
termination by (relation "measure (\<lambda>(buf, name, dst, p). length buf - p)") auto

declare query_loop.simps [simp del]

definition wby_find_query_var :: "string \<Rightarrow> string \<Rightarrow> char list \<Rightarrow> (nat option \<times> char list) option" where
  "wby_find_query_var buf name dst = do { dst \<leftarrow> poke dst 0 nul; query_loop buf name dst 0 }"

section \<open>Decoding is correct\<close>

text \<open>Nothing decoded can be longer than its source, so decoding in place reads only what it has not written yet.\<close>

lemma length_url_decoded: "length (url_decoded form s) \<le> length s"
  by (induction form s rule: url_decoded.induct) auto

lemma isxdigit_nul: "isxdigit c \<Longrightarrow> c \<noteq> nul"
  by (auto simp: isxdigit_def)

lemma hextoi_less: "isxdigit c \<Longrightarrow> HEXTOI (tolower c) < 16"
proof -
  have "\<forall>c\<in>set ''0123456789abcdefABCDEF''. HEXTOI (tolower c) < 16" by code_simp
  then show "isxdigit c \<Longrightarrow> ?thesis" unfolding isxdigit_def by blast
qed

lemma hex_pair: "b < 16 \<Longrightarrow> push_bit 4 a OR b = a * 16 + (b :: nat)"
proof -
  assume "b < 16"
  then have b: "take_bit 4 b = b" by (simp add: take_bit_nat_eq_self)
  have "push_bit 4 a AND b = push_bit 4 a AND take_bit 4 b" by (simp add: b)
  also have "\<dots> = 0" by (rule bit_eqI) (auto simp: bit_simps)
  finally show ?thesis by (simp add: disjunctive_add_eq_or [symmetric] push_bit_eq_mult)
qed

lemma url_decode_step:
  assumes "mem = pre @ t @ nul # post" "length pre = src + i" "i + length t = src_len" "t = c # s" "nul_free t"
    and "j < (dst_len + (2 ^ 64 - 1)) mod 2 ^ 64" "dst + j < length mem"
  shows "url_decode_loop mem src src_len dst dst_len form i j =
    (if c = CHR ''%'' \<and> 2 \<le> length s \<and> isxdigit (s ! 0) \<and> isxdigit (s ! 1)
     then url_decode_loop (mem[dst + j := char_of (HEXTOI (tolower (s ! 0)) * 16 + HEXTOI (tolower (s ! 1)))])
       src src_len dst dst_len form (i + 3) (j + 1)
     else url_decode_loop (mem[dst + j := if form \<and> c = CHR ''+'' then CHR '' '' else c]) src src_len dst dst_len form (i + 1) (j + 1))"
proof -
  have at: "peek mem (src + i + k) = peek (t @ nul # post) k" for k
    using assms(1,2) by (simp add: peek_def nth_append)
  have c0: "peek mem (src + i) = Some c" using at [of 0] assms(4) by (simp add: peek_def)
  have c1: "peek mem (src + i + 1) = Some (if s = [] then nul else s ! 0)"
    using at [of 1] assms(4) by (cases s) (simp_all add: peek_def)
  have c2: "peek mem (src + i + 2) = Some (if length s = 1 then nul else s ! 1)" if "s \<noteq> []"
    using at [of 2] assms(4) that by (cases s; cases "tl s") (simp_all add: peek_def)
  have i: "i < src_len" using assms(3,4) by simp
  have n: "\<not> isxdigit nul" using isxdigit_nul by blast
  consider "s = []" | x where "s = [x]" | x y r where "s = x # y # r" by (metis list.exhaust)
  then show ?thesis
    using c0 c1 c2 i n assms(6,7) hextoi_less
    by cases (subst url_decode_loop.simps, simp add: poke_def hex_pair)+
qed


lemma unsigned_pred: "0 < n \<Longrightarrow> n < 2 ^ 64 \<Longrightarrow> (n + (2 ^ 64 - 1)) mod 2 ^ 64 = n - (1 :: nat)"
proof -
  assume n: "0 < n" "n < 2 ^ 64"
  have "n + (2 ^ 64 - 1) = (n - 1) + 2 ^ 64" using n by simp
  also have "\<dots> mod 2 ^ 64 = n - 1" using n by (subst mod_add_self2) simp
  finally show ?thesis .
qed

lemma upd_take_drop: "k < length xs \<Longrightarrow> xs[k := x] = take k xs @ x # drop (k + 1) xs"
  by (simp add: upd_conv_take_nth_drop)

lemma url_decode_loop_spec:
  assumes "mem = pre @ t @ nul # post" "length pre = src + i" "i + length t = src_len" "nul_free t"
    and "j + length (url_decoded form t) < dst_len" "dst_len < 2 ^ 64" "dst + j + length (url_decoded form t) < length mem"
    and "dst + j \<le> src + i \<or> src + src_len < dst + j"
  shows "url_decode_loop mem src src_len dst dst_len form i j =
    Some (j + length (url_decoded form t),
      take (dst + j) mem @ url_decoded form t @ nul # drop (dst + j + length (url_decoded form t) + 1) mem)"
  using assms
proof (induction form t arbitrary: mem pre post i j rule: url_decoded.induct)
  case (1 form)
  then have "url_decode_loop mem src src_len dst dst_len form i j = Some (j, mem[dst + j := nul])"
    by (subst url_decode_loop.simps) (simp add: poke_def)
  then show ?case using 1 by (simp add: upd_take_drop)
next
  case (2 form c s)
  define hex where "hex \<longleftrightarrow> c = CHR ''%'' \<and> 2 \<le> length s \<and> isxdigit (s ! 0) \<and> isxdigit (s ! 1)"
  define x where "x = (if hex then char_of (HEXTOI (tolower (s ! 0)) * 16 + HEXTOI (tolower (s ! 1)))
    else if form \<and> c = CHR ''+'' then CHR '' '' else c)"
  define n where "n = (if hex then 3 else 1 :: nat)"
  define r where "r = drop (n - 1) s"
  have len: "n \<le> length (c # s)" using hex_def n_def by auto
  have dec: "url_decoded form (c # s) = x # url_decoded form r" by (simp add: x_def r_def n_def hex_def)
  let ?D = "url_decoded form r" and ?m = "mem[dst + j := x]"
  have j: "j < (dst_len + (2 ^ 64 - 1)) mod 2 ^ 64" using 2(7,8) dec by (subst unsigned_pred) auto
  have step: "url_decode_loop mem src src_len dst dst_len form i j = url_decode_loop ?m src src_len dst dst_len form (i + n) (j + 1)"
    using url_decode_step [OF 2(3-5) refl 2(6) j, of dst] 2(9) by (auto simp: hex_def x_def n_def)
  have split: "c # s = take n (c # s) @ r" by (simp add: r_def n_def drop_Cons')
  have mem: "mem = pre @ (take n (c # s) @ r) @ nul # post" using 2(3) unfolding split [symmetric] .
  have "\<exists>pre' post'. ?m = pre' @ r @ nul # post' \<and> length pre' = src + (i + n)"
  proof (cases "dst + j \<le> src + i")
    case True
    let ?p = "pre @ take n (c # s)"
    have "?m = (?p @ r @ nul # post)[dst + j := x]" using mem by simp
    also have "\<dots> = ?p[dst + j := x] @ r @ nul # post"
      using True 2(4) len n_def by (intro list_update_append1) auto
    finally show ?thesis using 2(4) len by (intro exI [of _ "?p[dst + j := x]"] exI [of _ post]) simp
  next
    case False
    let ?p = "pre @ take n (c # s)"
    have b: "src + src_len < dst + j" using False 2(10) by simp
    have lp: "length (?p @ r @ [nul]) \<le> dst + j" using b 2(4,5) len split by (simp add: r_def n_def)
    have "?m = ((?p @ r @ [nul]) @ post)[dst + j := x]" using mem by simp
    also have "\<dots> = (?p @ r @ [nul]) @ post[dst + j - length (?p @ r @ [nul]) := x]"
      using lp by (simp only: list_update_append not_less [symmetric] if_False)
    finally show ?thesis using 2(4) len by (intro exI [of _ ?p] exI) auto
  qed
  then obtain pre' post' where m: "?m = pre' @ r @ nul # post'" "length pre' = src + (i + n)" by blast
  have "url_decode_loop ?m src src_len dst dst_len form (i + n) (j + 1) =
      Some (j + 1 + length ?D, take (dst + (j + 1)) ?m @ ?D @ nul # drop (dst + (j + 1) + length ?D + 1) ?m)"
  proof -
    have prems: "(i + n) + length r = src_len" "nul_free r" "j + 1 + length ?D < dst_len" "dst + (j + 1) + length ?D < length ?m"
        "dst + (j + 1) \<le> src + (i + n) \<or> src + src_len < dst + (j + 1)"
      using 2(5,6,7,9,10) len dec by (auto simp: r_def n_def)
    show ?thesis
    proof (cases hex)
      case True
      then have r: "r = drop 2 s" by (simp add: r_def n_def)
      show ?thesis unfolding r
        by (rule 2(1) [OF True [unfolded hex_def]]) (use m 2(8) prems in \<open>simp_all add: r\<close>)
    next
      case False
      then have r: "r = s" by (simp add: r_def n_def)
      show ?thesis unfolding r
        by (rule 2(2) [OF False [unfolded hex_def]]) (use m 2(8) prems in \<open>simp_all add: r\<close>)
    qed
  qed
  then show ?case using 2(9) unfolding dec step by (simp add: take_Suc_conv_app_nth)
qed


lemma wby_url_decode_inplace:
  assumes "nul_free s" "length s + 1 < 2 ^ 64"
  shows "wby_url_decode (pre @ s @ nul # post) (length pre) (length s) (length pre) (length s + 1) form =
    Some (length (url_decoded form s),
      pre @ url_decoded form s @ nul # drop (length pre + length (url_decoded form s) + 1) (pre @ s @ nul # post))"
  unfolding wby_url_decode_def using length_url_decoded [of form s] assms
  by (subst url_decode_loop_spec [of _ pre s post]) auto

text \<open>Percent encoding: the characters that are kept and the escapes of all others.\<close>

definition hex_char :: "nat \<Rightarrow> char" where
  "hex_char d = ''0123456789ABCDEF'' ! d"

definition url_encode :: "(char \<Rightarrow> bool) \<Rightarrow> string \<Rightarrow> string" where
  "url_encode keep s = concat (map (\<lambda>c. if keep c then [c]
     else [CHR ''%'', hex_char (of_char c div 16), hex_char (of_char c mod 16)]) s)"

lemma hex_char_digit: "d < 16 \<Longrightarrow> isxdigit (hex_char d) \<and> HEXTOI (tolower (hex_char d)) = d"
proof -
  have all: "\<forall>d\<in>set [0..<16]. isxdigit (hex_char d) \<and> HEXTOI (tolower (hex_char d)) = d" by code_simp
  show "d < 16 \<Longrightarrow> ?thesis" using all by (simp del: upt_rec_numeral)
qed

lemma url_decoded_encode:
  assumes "\<not> keep CHR ''%''" "\<not> keep CHR ''+''"
  shows "url_decoded form (url_encode keep s) = s"
proof (induction s)
  case (Cons c s)
  show ?case
  proof (cases "keep c")
    case True
    then have "c \<noteq> CHR ''%''" "c \<noteq> CHR ''+''" using assms by auto
    then show ?thesis using True Cons by (simp add: url_encode_def)
  next
    case False
    have "of_char c < (256 :: nat)" by simp
    then have "of_char c div 16 < (16 :: nat)" by (simp add: div_less_iff_less_mult)
    then have "isxdigit (hex_char (of_char c div 16))" "HEXTOI (tolower (hex_char (of_char c div 16))) = of_char c div 16"
        "isxdigit (hex_char (of_char c mod 16))" "HEXTOI (tolower (hex_char (of_char c mod 16))) = of_char c mod 16"
      using hex_char_digit [of "of_char c div 16"] hex_char_digit [of "of_char c mod 16"] by simp_all
    then show ?thesis using False Cons by (simp add: url_encode_def)
  qed
qed (simp add: url_encode_def)

text \<open>
  Decoding a request target in place is memory-safe and correct: only the cells of the target
  are changed, the array then holds the decoded string with its terminator, and a target that was
  percent-encoded (with any set of kept characters without \<open>%\<close> and \<open>+\<close>) decodes to the original.
\<close>

theorem url_decode_roundtrip:
  assumes "\<not> keep CHR ''%''" "\<not> keep CHR ''+''" "\<not> keep nul" "length (url_encode keep s) + 1 < 2 ^ 64"
  shows "\<exists>rest. wby_url_decode (pre @ url_encode keep s @ nul # post) (length pre) (length (url_encode keep s))
      (length pre) (length (url_encode keep s) + 1) form = Some (length s, pre @ s @ nul # rest) \<and>
    length s + length rest = length (url_encode keep s) + length post"
proof -
  have "nul_free (url_encode keep s)"
  proof -
    have "\<forall>d\<in>set [0..<16]. hex_char d \<noteq> nul" by code_simp
    then have "d < 16 \<Longrightarrow> hex_char d \<noteq> nul" for d by (simp del: upt_rec_numeral)
    moreover have "of_char c div 16 < (16 :: nat)" for c by (simp add: div_less_iff_less_mult)
    ultimately have "hex_char (of_char c div 16) \<noteq> nul \<and> hex_char (of_char c mod 16) \<noteq> nul" for c by simp
    then show ?thesis using assms(3) by (induction s) (auto simp: url_encode_def)
  qed
  note dec = wby_url_decode_inplace [OF this assms(4), of pre post form, unfolded url_decoded_encode [OF assms(1,2)]]
  have "length s \<le> length (url_encode keep s)"
    using length_url_decoded [of form "url_encode keep s"] by (simp add: url_decoded_encode [OF assms(1,2)])
  then show ?thesis unfolding dec by simp
qed

theorem url_decode_roundtrip_witness:
  "\<exists>rest. wby_url_decode (''GET /'' @ url_encode isdigit ''a&1'' @ nul # ''HTTP'') 5 7 5 8 True =
     Some (3, ''GET /'' @ ''a&1'' @ nul # rest) \<and> length rest = 8"
proof -
  have e: "url_encode isdigit ''a&1'' = ''%61%261''" by code_simp
  have "\<not> isdigit CHR ''%''" "\<not> isdigit CHR ''+''" "\<not> isdigit nul" by (simp_all add: isdigit_def)
  moreover have "length ''GET /'' = 5" "length ''%61%261'' = 7" "length ''a&1'' = 3" "length ''HTTP'' = 4" by simp_all
  ultimately show ?thesis
    using url_decode_roundtrip [of isdigit "''a&1''" "''GET /''" "''HTTP''" True, unfolded e] by (simp add: e del: list.size append_Cons)
qed


section \<open>The end of a request header\<close>

text \<open>\<open>wb_peek_request_size\<close> on the used part of the buffer: the size, or \<open>None\<close> for -1.\<close>

fun peek_request_from :: "nat \<Rightarrow> string \<Rightarrow> nat option" where
  "peek_request_from i (a # b # c # d # s) =
     (if [a, b, c, d] = [CHR 0x0d, CHR 0x0a, CHR 0x0d, CHR 0x0a] then Some (i + 4) else peek_request_from (i + 1) (b # c # d # s))"
| "peek_request_from i _ = None"

definition wb_peek_request_size :: "string \<Rightarrow> nat option" where
  "wb_peek_request_size buf = peek_request_from 0 buf"

section \<open>The tokenizer\<close>

definition is_ws :: "char \<Rightarrow> bool" where
  "is_ws c \<longleftrightarrow> c = CHR '' '' \<or> c = CHR 0x09"

partial_function (option) wby_skipws :: "char list \<Rightarrow> nat \<Rightarrow> nat option" where
  "wby_skipws buf p = do { ch \<leftarrow> peek buf p; if is_ws ch then wby_skipws buf (p + 1) else Some p }"

text \<open>\<open>strstr\<close> on an array needs a terminator.\<close>

definition strstr :: "char list \<Rightarrow> nat \<Rightarrow> string \<Rightarrow> nat option option" where
  "strstr buf b sep =
     (if nul \<in> set (drop b buf) then Some (map_option (\<lambda>k. b + k) (find_sub sep (cstr (drop b buf)))) else None)"

text \<open>Tokens are positions in the array; the separators found are overwritten by NUL.\<close>

partial_function (option) tok_loop :: "string \<Rightarrow> nat \<Rightarrow> bool \<Rightarrow> char list \<Rightarrow> nat \<Rightarrow> nat list \<Rightarrow> (nat list \<times> char list) option" where
  "tok_loop separator max_tok skipws buf b toks =
     (if length toks < max_tok then do {
        b \<leftarrow> (if skipws then wby_skipws buf b else Some b);
        e \<leftarrow> strstr buf b separator;
        (case e of
           Some e \<Rightarrow> do {
             let toks = (if e - b > 0 then toks @ [b] else toks);
             buf \<leftarrow> poke buf e nul;
             tok_loop separator max_tok skipws buf (e + length separator) toks
           }
         | None \<Rightarrow> Some (toks @ [b], buf))
      } else Some (toks, buf))"

definition wby_tok_inplace :: "char list \<Rightarrow> nat \<Rightarrow> string \<Rightarrow> nat \<Rightarrow> bool \<Rightarrow> (nat list \<times> char list) option" where
  "wby_tok_inplace buf b separator max_tok skipws = tok_loop separator max_tok skipws buf b []"

text \<open>What the tokens should be, on strings; with the position of each token in the string.\<close>

function token_list :: "string \<Rightarrow> nat \<Rightarrow> bool \<Rightarrow> nat \<Rightarrow> string \<Rightarrow> (nat \<times> string) list" where
  "token_list sep n skip o0 s =
     (if n = 0 \<or> sep = [] then []
      else
        let w = (if skip then length (takeWhile is_ws s) else 0);
            s = drop w s; o0 = o0 + w
        in case find_sub sep s of
             Some k \<Rightarrow> (if k > 0 then (o0, take k s) # token_list sep (n - 1) skip (o0 + k + length sep) (drop (k + length sep) s)
                       else token_list sep n skip (o0 + length sep) (drop (length sep) s))
           | None \<Rightarrow> [(o0, s)])"
  by pat_completeness auto
termination
proof (relation "measure (\<lambda>(sep, n, skip, o0, s). length s + n)", goal_cases)
  case (3 sep n skip o0 s w s' o1 k)
  then have "length sep \<le> length s'" using find_sub_SomeD [of sep s' k] by simp
  then show ?case using 3 by (cases sep) auto
qed auto

declare token_list.simps [simp del]


text \<open>A string stands in an array at a position; positions of tokens in ascending, disjoint order.\<close>

definition str_at :: "char list \<Rightarrow> nat \<Rightarrow> string \<Rightarrow> bool" where
  "str_at buf p t \<longleftrightarrow> take (length t + 1) (drop p buf) = t @ [nul]"

fun spans :: "nat \<Rightarrow> (nat \<times> string) list \<Rightarrow> nat \<Rightarrow> bool" where
  "spans lo [] hi \<longleftrightarrow> True"
| "spans lo ((p, t) # L) hi \<longleftrightarrow> lo \<le> p \<and> p + length t \<le> hi \<and> spans (p + length t + 1) L hi"

lemma str_at_cstr: "str_at buf p t \<Longrightarrow> nul_free t \<Longrightarrow> cstr (drop p buf) = t"
proof -
  assume "str_at buf p t" "nul_free t"
  then have "drop p buf = t @ nul # drop (length t + 1) (drop p buf)"
    by (metis append.assoc append_Cons append_Nil append_take_drop_id str_at_def)
  then show ?thesis using \<open>nul_free t\<close> by (metis cstr_nul)
qed

lemma spans_mono: "spans lo L hi \<Longrightarrow> lo' \<le> lo \<Longrightarrow> spans lo' L hi"
  by (cases L) auto

lemma skipws_spec:
  "buf = pre @ s @ nul # post \<Longrightarrow> wby_skipws buf (length pre) = Some (length pre + length (takeWhile is_ws s))"
proof (induction s arbitrary: pre)
  case Nil
  then show ?case by (subst wby_skipws.simps) (simp add: is_ws_def)
next
  case (Cons c s)
  have "wby_skipws buf (length (pre @ [c])) = Some (length (pre @ [c]) + length (takeWhile is_ws s))"
    using Cons.prems by (intro Cons.IH) simp
  then show ?case using Cons.prems by (subst wby_skipws.simps) simp
qed

lemma strstr_spec:
  "buf = pre @ s @ nul # post \<Longrightarrow> nul_free s \<Longrightarrow>
     strstr buf (length pre) sep = Some (map_option (\<lambda>k. length pre + k) (find_sub sep s))"
  by (simp add: strstr_def)

lemma poke_separator:
  assumes "buf = pre @ s @ nul # post" "find_sub sep s = Some k" "sep \<noteq> []"
  shows "poke buf (length pre + k) nul = Some ((pre @ take k s @ nul # tl sep) @ drop (k + length sep) s @ nul # post)"
proof -
  have k: "take (length sep) (drop k s) = sep" "k + length sep \<le> length s" using find_sub_SomeD [OF assms(2)] by simp_all
  then have "drop k s = sep @ drop (k + length sep) s" by (metis add.commute append_take_drop_id drop_drop)
  then have "s = take k s @ hd sep # tl sep @ drop (k + length sep) s"
    using assms(3) by (metis append_Cons append_take_drop_id list.collapse)
  then have "buf = (pre @ take k s) @ hd sep # tl sep @ drop (k + length sep) s @ nul # post"
    using assms(1) by (metis append.assoc append_Cons)
  moreover have "length (pre @ take k s) = length pre + k" using k(2) by simp
  ultimately show ?thesis by (simp add: poke_def list_update_append nth_append)
qed

lemma tok_loop_spec:
  assumes "buf = pre @ s @ nul # post" "nul_free s" "sep \<noteq> []"
    and "L = token_list sep n skip (length pre) s" "length toks + n = max_tok"
  shows "\<exists>buf'. tok_loop sep max_tok skip buf (length pre) toks = Some (toks @ map fst L, buf') \<and>
    length buf' = length buf \<and> take (length pre) buf' = pre \<and> drop (length pre + length s) buf' = nul # post \<and>
    (\<forall>(p, t)\<in>set L. str_at buf' p t \<and> nul_free t) \<and> spans (length pre) L (length pre + length s)"
  using assms
proof (induction "length s + n" arbitrary: n s buf pre toks L rule: less_induct)
  case less
  define w where "w = (if skip then length (takeWhile is_ws s) else 0)"
  define s1 where "s1 = drop w s"
  define pre1 where "pre1 = pre @ take w s"
  have w: "w \<le> length s" by (simp add: w_def length_takeWhile_le)
  have buf1: "buf = pre1 @ s1 @ nul # post" and len1: "length pre1 = length pre + w" and s1: "length s1 = length s - w" "nul_free s1"
    using less.prems w by (simp_all add: pre1_def s1_def)
  show ?case
  proof (cases "n = 0")
    case True
    then show ?thesis using less.prems by (subst tok_loop.simps) (simp add: token_list.simps)
  next
    case False
    have sk: "(if skip then wby_skipws buf (length pre) else Some (length pre)) = Some (length pre1)"
      using skipws_spec [OF less.prems(1)] by (simp add: w_def len1)
    note ss = strstr_spec [OF buf1 s1(2), of sep]
    show ?thesis
    proof (cases "find_sub sep s1")
      case None
      have L: "L = [(length pre1, s1)]" unfolding less.prems(4)
        using False less.prems(3) None by (subst token_list.simps) (simp add: Let_def w_def [symmetric] s1_def [symmetric] len1)
      have "tok_loop sep max_tok skip buf (length pre) toks = Some (toks @ [length pre1], buf)"
        using False less.prems(5) sk ss None by (subst tok_loop.simps) simp
      moreover have "str_at buf (length pre1) s1" using buf1 by (simp add: str_at_def)
      ultimately show ?thesis using L len1 s1 w less.prems(1) by simp
    next
      case (Some k)
      have k: "k + length sep \<le> length s1" using find_sub_SomeD [OF Some] by simp
      have sep: "0 < length sep" using less.prems(3) by simp
      let ?pre = "pre1 @ take k s1 @ nul # tl sep" and ?s = "drop (k + length sep) s1"
      let ?toks = "if k > 0 then toks @ [length pre1] else toks" and ?n = "if k > 0 then n - 1 else n"
      let ?L = "token_list sep ?n skip (length ?pre) ?s"
      have lp: "length ?pre = length pre1 + k + length sep" using k sep by simp
      have L: "L = (if k > 0 then [(length pre1, take k s1)] else []) @ ?L" unfolding less.prems(4) lp
        using False less.prems(3) Some
        by (subst token_list.simps) (simp add: Let_def w_def [symmetric] s1_def [symmetric] len1 add.assoc)
      have step: "tok_loop sep max_tok skip buf (length pre) toks = tok_loop sep max_tok skip (?pre @ ?s @ nul # post) (length ?pre) ?toks"
        using False less.prems(5) sk ss Some poke_separator [OF buf1 Some less.prems(3)] lp
        by (subst tok_loop.simps) (simp add: Let_def add.assoc)
      have "\<exists>buf'. tok_loop sep max_tok skip (?pre @ ?s @ nul # post) (length ?pre) ?toks = Some (?toks @ map fst ?L, buf') \<and>
          length buf' = length (?pre @ ?s @ nul # post) \<and> take (length ?pre) buf' = ?pre \<and> drop (length ?pre + length ?s) buf' = nul # post \<and>
          (\<forall>(p, t)\<in>set ?L. str_at buf' p t \<and> nul_free t) \<and> spans (length ?pre) ?L (length ?pre + length ?s)"
        using False k sep s1 less.prems(2,3,5) w by (intro less.hyps) (auto simp: s1_def)
      then obtain buf' where buf': "tok_loop sep max_tok skip buf (length pre) toks = Some (?toks @ map fst ?L, buf')"
          "length buf' = length (?pre @ ?s @ nul # post)" "take (length ?pre) buf' = ?pre" "drop (length ?pre + length ?s) buf' = nul # post"
          "\<forall>(p, t)\<in>set ?L. str_at buf' p t \<and> nul_free t" "spans (length ?pre) ?L (length ?pre + length ?s)"
        unfolding step by blast
      have total: "length ?pre + length ?s = length pre + length s" using lp k len1 s1 w by simp
      have "str_at buf' (length pre1) (take k s1)"
      proof -
        have "buf' = ?pre @ drop (length ?pre) buf'" using buf'(3) by (metis append_take_drop_id)
        then have "drop (length pre1) buf' = take k s1 @ nul # tl sep @ drop (length ?pre) buf'"
          by (metis append.assoc append_Cons append_eq_conv_conj)
        then show ?thesis using k by (simp add: str_at_def min_def)
      qed
      moreover have "take (length pre) buf' = pre"
      proof -
        have "take (length pre) buf' = take (length pre) (take (length ?pre) buf')" using lp len1 by simp
        then show ?thesis unfolding buf'(3) by (simp add: pre1_def)
      qed
      moreover have "length buf' = length buf" using buf'(2) total less.prems(1) by simp
      moreover have "spans (length pre) L (length pre + length s)"
      proof -
        have sp: "spans (length ?pre) ?L (length pre + length s)" using buf'(6) by (simp only: total)
        have tk: "length (take k s1) = k" "length pre1 + k \<le> length pre + length s" using k len1 s1 w by simp_all
        have "spans (length pre1 + k + 1) ?L (length pre + length s)" "spans (length pre) ?L (length pre + length s)"
          using lp sep len1 by (intro spans_mono [OF sp]; linarith)+
        then show ?thesis using tk len1 unfolding L by (cases "k > 0") (simp_all only: if_True if_False append_Nil append_Cons spans.simps le_add1)
      qed
      ultimately show ?thesis using buf'(1,4,5) total s1(2) unfolding L by (auto simp: nul_free_take)
    qed
  qed
qed


text \<open>
  C15. The tokenizer ends and is memory-safe: on a terminated string it writes only inside the
  string, and the tokens it returns are those of \<open>token_list\<close> (leading blanks skipped where
  asked, empty pieces before a separator dropped, at most \<open>max_tok\<close>), each readable in the array as a
  terminated string, in ascending and disjoint places.
\<close>

theorem wby_tok_inplace_correct:
  assumes "nul_free s" "sep \<noteq> []"
  shows "\<exists>buf'. wby_tok_inplace (pre @ s @ nul # post) (length pre) sep max_tok skip =
      Some (map fst (token_list sep max_tok skip (length pre) s), buf') \<and>
    take (length pre) buf' = pre \<and> drop (length pre + length s) buf' = nul # post \<and>
    (\<forall>(p, t)\<in>set (token_list sep max_tok skip (length pre) s). cstr (drop p buf') = t) \<and>
    spans (length pre) (token_list sep max_tok skip (length pre) s) (length pre + length s)"
proof -
  let ?L = "token_list sep max_tok skip (length pre) s"
  obtain buf' where b: "tok_loop sep max_tok skip (pre @ s @ nul # post) (length pre) [] = Some (map fst ?L, buf')"
      "take (length pre) buf' = pre" "drop (length pre + length s) buf' = nul # post"
      "\<forall>(p, t)\<in>set ?L. str_at buf' p t \<and> nul_free t" "spans (length pre) ?L (length pre + length s)"
    using tok_loop_spec [OF refl assms refl, where toks = "[]" and n = max_tok and pre = pre and post = post and skip = skip] by auto
  have "\<forall>(p, t)\<in>set ?L. cstr (drop p buf') = t" using b(4) str_at_cstr by fast
  then show ?thesis using b unfolding wby_tok_inplace_def by blast
qed

theorem wby_tok_inplace_correct_witness:
  "\<exists>buf'. wby_tok_inplace (''x'' @ ''Host: a:80'' @ nul # []) 1 '':'' 2 True = Some ([1, 7], buf') \<and>
     cstr (drop 7 buf') = ''a''"
proof -
  have "token_list '':'' 2 True 1 ''Host: a:80'' = [(1, ''Host''), (7, ''a'')]" by code_simp
  moreover have "length ''x'' = 1" by simp
  ultimately show ?thesis
    using wby_tok_inplace_correct [of "''Host: a:80''" "'':''" "''x''" "[]" 2 True] by auto
qed

end
