(* ===== verification/Mumux_Conn.thy ===== *)
theory Mumux_Conn
  imports Mumux_Sha Mumux_Base64 Mumux_Frames Mumux_Text
begin

text \<open>
  \<open>mumux\<close>: sockets, buffers and the connection record with its output stream (\<open>socket.c\<close>,
  \<open>connection.c\<close>). A socket is what the program sees of it: the events that \<open>recv\<close> will report, the
  text that was sent, and the outcomes of the coming \<open>send\<close> and \<open>fcntl\<close> calls (exhausted: they
  succeed completely). A blocking \<open>recv\<close> without a coming event never returns: \<open>None\<close>, like
  undefined behaviour. Bytes in buffers are characters. The bits of \<open>flags\<close> are a set.
\<close>

section \<open>Sockets\<close>

datatype recv_event = Data string | Again | Fail | Eof

record net =
  rx :: "recv_event list"
  tx :: string
  send_results :: "int list"
  fcntl_results :: "bool list"
  nonblock :: bool
  open_sock :: bool

text \<open>\<open>recv\<close>: an error (with whether it is \<open>EAGAIN\<close>), or the characters; none at the end of the stream.\<close>

datatype recv_result = RErr bool | ROk string

fun recv_events :: "bool \<Rightarrow> nat \<Rightarrow> recv_event list \<Rightarrow> (recv_result \<times> recv_event list) option" where
  "recv_events nb len [] = (if nb then Some (RErr True, []) else None)"
| "recv_events nb len (Data s # es) =
     Some (ROk (take len s), if length s \<le> len then es else Data (drop len s) # es)"
| "recv_events nb len (Again # es) = (if nb then Some (RErr True, es) else recv_events nb len es)"
| "recv_events nb len (Fail # es) = Some (RErr False, es)"
| "recv_events nb len (Eof # es) = Some (ROk [], Eof # es)"

definition sock_recv :: "nat \<Rightarrow> net \<Rightarrow> (recv_result \<times> net) option" where
  "sock_recv len n =
     (if open_sock n
      then map_option (\<lambda>(r, es). (r, n\<lparr>rx := es\<rparr>)) (recv_events (nonblock n) len (rx n))
      else Some (RErr False, n))"

text \<open>\<open>send\<close>: how many characters went out, or a negative number.\<close>

definition sock_send :: "string \<Rightarrow> net \<Rightarrow> int \<times> net" where
  "sock_send s n =
     (if open_sock n
      then case send_results n of
        [] \<Rightarrow> (int (length s), n\<lparr>tx := tx n @ s\<rparr>)
      | r # rs \<Rightarrow>
          (let k = min (nat r) (length s)
           in (if r < 0 then - 1 else int k, n\<lparr>send_results := rs, tx := tx n @ take k s\<rparr>))
      else (- 1, n))"

definition wby_socket_set_blocking :: "bool \<Rightarrow> net \<Rightarrow> bool \<times> net" where
  "wby_socket_set_blocking blocking n =
     (if \<not> open_sock n then (False, n)
      else case fcntl_results n of
        [] \<Rightarrow> (True, n\<lparr>nonblock := \<not> blocking\<rparr>)
      | r # rs \<Rightarrow> (if r then (True, n\<lparr>fcntl_results := rs, nonblock := \<not> blocking\<rparr>) else (False, n\<lparr>fcntl_results := rs\<rparr>)))"

definition wby_socket_close :: "net \<Rightarrow> net" where
  "wby_socket_close n = n\<lparr>open_sock := False\<rparr>"

definition wby_socket_config_incoming :: "net \<Rightarrow> bool \<times> net" where
  "wby_socket_config_incoming n = wby_socket_set_blocking False n"

text \<open>The result \<open>True\<close> is \<open>WBY_OK\<close> here and below.\<close>

function wby_socket_send :: "string \<Rightarrow> net \<Rightarrow> bool \<times> net" where
  "wby_socket_send buffer n =
     (if buffer = [] then (True, n)
      else case sock_send buffer n of
        (err, n) \<Rightarrow> if err \<le> 0 then (False, n) else wby_socket_send (drop (nat err) buffer) n)"
  by pat_completeness auto
termination by (relation "measure (\<lambda>(buffer, _). length buffer)") auto

declare wby_socket_send.simps [simp del]

record wby_buffer =
  used :: nat
  max_size :: nat
  buf_data :: string

datatype fill_result = WBY_FILL_OK | WBY_FILL_ERROR | WBY_FILL_FULL

definition buffer_put :: "wby_buffer \<Rightarrow> string \<Rightarrow> wby_buffer option" where
  "buffer_put buf s =
     (if used buf + length s \<le> length (buf_data buf)
      then Some (buf\<lparr>buf_data := take (used buf) (buf_data buf) @ s @ drop (used buf + length s) (buf_data buf),
             used := used buf + length s\<rparr>)
      else None)"

partial_function (option) wby_socket_recv :: "wby_buffer \<Rightarrow> net \<Rightarrow> (fill_result \<times> wby_buffer \<times> net) option" where
  "wby_socket_recv buf n =
     (let buf_left = int (max_size buf) - int (used buf) in
      if buf_left = 0 then Some (WBY_FILL_FULL, buf, n)
      else do {
        (r, n) \<leftarrow> sock_recv (nat buf_left) n;
        (case r of
           RErr again \<Rightarrow> Some (if again then WBY_FILL_OK else WBY_FILL_ERROR, buf, n)
         | ROk s \<Rightarrow>
             if s = [] then Some (WBY_FILL_ERROR, buf, n)
             else do { buf \<leftarrow> buffer_put buf s; wby_socket_recv buf n })
      })"

definition wby_socket_flush :: "wby_buffer \<Rightarrow> net \<Rightarrow> bool \<times> wby_buffer \<times> net" where
  "wby_socket_flush buf n =
     (if used buf > 0
      then case wby_socket_send (take (used buf) (buf_data buf)) n of
        (ok, n) \<Rightarrow> if ok then (True, buf\<lparr>used := 0\<rparr>, n) else (False, buf, n)
      else (True, buf\<lparr>used := 0\<rparr>, n))"

section \<open>Connections\<close>

datatype con_flag = ALIVE | FRESH_CONNECTION | CLOSE_AFTER_RESPONSE | CHUNKED_RESPONSE | WEBSOCKET

datatype con_state = ST_REQUEST | ST_SEND_CONTINUE | ST_SERVE | ST_WEBSOCKET

text \<open>The strings of a request are positions in the header buffer, as in the code.\<close>

record wby_request =
  req_method :: nat
  req_uri :: nat
  req_version :: nat
  query_params :: "nat option"
  content_length :: int
  req_headers :: "(nat \<times> nat) list"

record wby_connection =
  request :: wby_request
  flags :: "con_flag set"
  con_state :: con_state
  sock :: net
  header_buf :: wby_buffer
  io_buf :: wby_buffer
  header_body_left :: int
  io_data_left :: int
  continue_data_left :: nat
  body_bytes_read :: int
  ws_frame :: wby_frame
  ws_opcode :: byte
  blocking_count :: u64

definition kill :: "wby_connection \<Rightarrow> wby_connection" where
  "kill c = c\<lparr>flags := flags c - {ALIVE}\<rparr>"

definition wby_connection_set_blocking :: "wby_connection \<Rightarrow> bool \<times> wby_connection" where
  "wby_connection_set_blocking c =
     (if blocking_count c = 0
      then case wby_socket_set_blocking True (sock c) of
        (ok, n) \<Rightarrow> if ok then (True, c\<lparr>sock := n, blocking_count := blocking_count c + 1\<rparr>) else (False, kill (c\<lparr>sock := n\<rparr>))
      else (True, c\<lparr>blocking_count := blocking_count c + 1\<rparr>))"

definition wby_connection_set_nonblocking :: "wby_connection \<Rightarrow> bool \<times> wby_connection" where
  "wby_connection_set_nonblocking c =
     (let count = blocking_count c in
      if ALIVE \<in> flags c \<and> count = 1
      then case wby_socket_set_blocking False (sock c) of
        (ok, n) \<Rightarrow> if ok then (True, c\<lparr>sock := n, blocking_count := count - 1\<rparr>) else (False, kill (c\<lparr>sock := n\<rparr>))
      else (True, c\<lparr>blocking_count := count - 1\<rparr>))"

definition wby_connection_reset :: "nat \<Rightarrow> nat \<Rightarrow> wby_connection \<Rightarrow> wby_connection" where
  "wby_connection_reset request_buffer_size io_buffer_size c =
     c\<lparr>header_buf := (header_buf c)\<lparr>used := 0, max_size := request_buffer_size\<rparr>,
       io_buf := (io_buf c)\<lparr>used := 0, max_size := io_buffer_size\<rparr>,
       header_body_left := 0, io_data_left := 0, continue_data_left := 0, body_bytes_read := 0,
       con_state := ST_REQUEST, blocking_count := 0\<rparr>"

definition wby_connection_close :: "wby_connection \<Rightarrow> wby_connection" where
  "wby_connection_close c = c\<lparr>sock := wby_socket_close (sock c), flags := {}\<rparr>"

text \<open>\<open>wby_connection_push\<close>: buffered output; the loop runs while text is left.\<close>

partial_function (option) push_loop :: "string \<Rightarrow> wby_connection \<Rightarrow> (bool \<times> wby_connection) option" where
  "push_loop data c =
     (if data = [] then Some (True, c)
      else
        let buf_space = int (max_size (io_buf c)) - int (used (io_buf c));
            copy_size = (if int (length data) < buf_space then int (length data) else buf_space)
        in if copy_size < 0 then None
        else do {
          buf \<leftarrow> buffer_put (io_buf c) (take (nat copy_size) data);
          let c = c\<lparr>io_buf := buf\<rparr>;
          let data = drop (nat copy_size) data;
          if used buf = max_size buf
          then case wby_socket_flush buf (sock c) of
            (ok, buf, n) \<Rightarrow>
              (let c = c\<lparr>io_buf := buf, sock := n\<rparr> in
               if \<not> ok then Some (False, c)
               else if length data \<ge> max_size buf
               then case wby_socket_send data (sock c) of (ok, n) \<Rightarrow> Some (ok, c\<lparr>sock := n\<rparr>)
               else push_loop data c)
          else push_loop data c
        })"

definition wby_connection_push :: "string \<Rightarrow> wby_connection \<Rightarrow> (bool \<times> wby_connection) option" where
  "wby_connection_push data c =
     (if con_state c \<noteq> ST_SERVE then Some (False, c)
      else if data = []
      then case wby_socket_flush (io_buf c) (sock c) of (ok, buf, n) \<Rightarrow> Some (ok, c\<lparr>io_buf := buf, sock := n\<rparr>)
      else push_loop data c)"

section \<open>Output is a stream\<close>

definition buf_ok :: "wby_buffer \<Rightarrow> bool" where
  "buf_ok b \<longleftrightarrow> used b \<le> max_size b \<and> max_size b \<le> length (buf_data b)"

definition pending :: "wby_buffer \<Rightarrow> string" where
  "pending b = take (used b) (buf_data b)"

lemma length_pending [simp]: "buf_ok b \<Longrightarrow> length (pending b) = used b"
  by (simp add: buf_ok_def pending_def)

lemma buffer_put_spec:
  assumes "buf_ok b" "used b + length s \<le> max_size b"
  shows "\<exists>b'. buffer_put b s = Some b' \<and> buf_ok b' \<and> pending b' = pending b @ s \<and> max_size b' = max_size b \<and>
    used b' = used b + length s \<and> length (buf_data b') = length (buf_data b)"
  using assms by (auto simp: buffer_put_def buf_ok_def pending_def)

text \<open>What a transmission may change of a socket: text goes out, outcomes are used up.\<close>

definition sent :: "net \<Rightarrow> string \<Rightarrow> net \<Rightarrow> bool" where
  "sent n s n' \<longleftrightarrow> tx n' = tx n @ s \<and> rx n' = rx n \<and> nonblock n' = nonblock n \<and> open_sock n' = open_sock n \<and>
     fcntl_results n' = fcntl_results n"

lemma sent_refl [simp]: "sent n [] n"
  by (simp add: sent_def)

lemma sent_trans [trans]: "sent n s n' \<Longrightarrow> sent n' t n'' \<Longrightarrow> sent n (s @ t) n''"
  by (simp add: sent_def)

lemma sock_send_spec:
  "case sock_send s n of (err, n') \<Rightarrow> err \<le> int (length s) \<and> sent n (take (nat err) s) n'"
  by (auto simp: sock_send_def sent_def Let_def split: list.splits)

lemma wby_socket_send_spec:
  "case wby_socket_send s n of (ok, n') \<Rightarrow> \<exists>k. sent n (take k s) n' \<and> (ok \<longrightarrow> length s \<le> k)"
proof (induction s n rule: wby_socket_send.induct)
  case (1 s n)
  show ?case
  proof (cases "s = []")
    case True
    then show ?thesis by (subst wby_socket_send.simps) simp
  next
    case False
    obtain err n1 where n1: "sock_send s n = (err, n1)" by (cases "sock_send s n") auto
    then have e: "err \<le> int (length s)" "sent n (take (nat err) s) n1" using sock_send_spec [of s n] by auto
    show ?thesis
    proof (cases "err \<le> 0")
      case True
      then show ?thesis using False n1 e by (subst wby_socket_send.simps) (auto intro!: exI [of _ 0])
    next
      case pos: False
      obtain ok n2 where n2: "wby_socket_send (drop (nat err) s) n1 = (ok, n2)" by (cases "wby_socket_send (drop (nat err) s) n1") auto
      then obtain k where k: "sent n1 (take k (drop (nat err) s)) n2" "ok \<longrightarrow> length (drop (nat err) s) \<le> k"
        using "1.IH" [OF False n1 [symmetric] pos] by auto
      have "sent n (take (nat err + k) s) n2" using sent_trans [OF e(2) k(1)] by (simp add: take_add)
      moreover have "ok \<longrightarrow> length s \<le> nat err + k" using k(2) by auto
      moreover have "wby_socket_send s n = (ok, n2)" using False n1 n2 pos by (subst wby_socket_send.simps) simp
      ultimately show ?thesis by auto
    qed
  qed
qed

lemma wby_socket_flush_spec:
  assumes "buf_ok b"
  shows "\<exists>ok b' n' k. wby_socket_flush b n = (ok, b', n') \<and> buf_ok b' \<and> max_size b' = max_size b \<and>
    length (buf_data b') = length (buf_data b) \<and>
    sent n (take k (pending b)) n' \<and> (ok \<longrightarrow> used b \<le> k \<and> used b' = 0)"
proof (cases "used b > 0")
  case True
  obtain ok n' where s: "wby_socket_send (pending b) n = (ok, n')" by (cases "wby_socket_send (pending b) n") auto
  then obtain k where k: "sent n (take k (pending b)) n'" "ok \<longrightarrow> used b \<le> k"
    using wby_socket_send_spec [of n "pending b"] assms by auto
  have "wby_socket_flush b n = (if ok then (True, b\<lparr>used := 0\<rparr>, n') else (False, b, n'))"
    using True s by (simp add: wby_socket_flush_def pending_def)
  then show ?thesis using k assms
    by (intro exI [of _ ok] exI [of _ "if ok then b\<lparr>used := 0\<rparr> else b"] exI [of _ n'] exI [of _ k]) (simp add: buf_ok_def)
next
  case False
  then show ?thesis using assms by (auto simp: wby_socket_flush_def buf_ok_def pending_def intro!: exI [of _ 0])
qed

definition same_but_output :: "wby_connection \<Rightarrow> wby_connection \<Rightarrow> bool" where
  "same_but_output c c' \<longleftrightarrow> c' = c\<lparr>io_buf := io_buf c', sock := sock c'\<rparr> \<and>
     max_size (io_buf c') = max_size (io_buf c) \<and> length (buf_data (io_buf c')) = length (buf_data (io_buf c))"

lemma same_but_output_trans: "same_but_output c c' \<Longrightarrow> same_but_output c' c'' \<Longrightarrow> same_but_output c c''"
  by (cases c; cases c'; cases c'') (simp add: same_but_output_def)

text \<open>
  Pushing text: the connection never loses, repeats or reorders output. Everything that was
  pending followed by the new text is sent or pending afterwards; on an error a prefix was sent.
\<close>

lemma push_loop_step:
  assumes "data \<noteq> []" "used (io_buf c) \<le> max_size (io_buf c)" "k = min (length data) (max_size (io_buf c) - used (io_buf c))"
    and "buffer_put (io_buf c) (take k data) = Some b"
  shows "push_loop data c =
    (if used b = max_size b
     then case wby_socket_flush b (sock c) of
       (ok, b', n) \<Rightarrow>
         if \<not> ok then Some (False, c\<lparr>io_buf := b', sock := n\<rparr>)
         else if max_size b' \<le> length (drop k data)
         then case wby_socket_send (drop k data) n of (ok, n') \<Rightarrow> Some (ok, c\<lparr>io_buf := b', sock := n'\<rparr>)
         else push_loop (drop k data) (c\<lparr>io_buf := b', sock := n\<rparr>)
     else push_loop (drop k data) (c\<lparr>io_buf := b\<rparr>))"
proof -
  have cs: "(if int (length data) < int (max_size (io_buf c)) - int (used (io_buf c)) then int (length data)
      else int (max_size (io_buf c)) - int (used (io_buf c))) = int k"
    using assms(2,3) by (auto simp: min_def)
  show ?thesis
    by (subst push_loop.simps) (simp add: Let_def cs assms(1,4) split: prod.split)
qed

lemma push_loop_stream:
  assumes "buf_ok (io_buf c)"
  shows "\<exists>ok c' s. push_loop data c = Some (ok, c') \<and> same_but_output c c' \<and> buf_ok (io_buf c') \<and>
    sent (sock c) s (sock c') \<and>
    (if ok then s @ pending (io_buf c') = pending (io_buf c) @ data
     else \<exists>k. s = take k (pending (io_buf c) @ data))"
  using assms
proof (induction "2 * length data + (if used (io_buf c) = max_size (io_buf c) then 1 else 0)" arbitrary: data c rule: less_induct)
  case less
  let ?b = "io_buf c"
  show ?case
  proof (cases "data = []")
    case True
    then show ?thesis using less.prems
      by (subst push_loop.simps) (auto simp: same_but_output_def intro!: exI [of _ True])
  next
    case False
    define k where "k = min (length data) (max_size ?b - used ?b)"
    have ok: "used ?b \<le> max_size ?b" using less.prems by (simp add: buf_ok_def)
    have fits: "used ?b + length (take k data) \<le> max_size ?b" using ok by (simp add: k_def)
    obtain b1 where b1: "buffer_put ?b (take k data) = Some b1" "buf_ok b1" "pending b1 = pending ?b @ take k data"
        "max_size b1 = max_size ?b" "used b1 = used ?b + length (take k data)" "length (buf_data b1) = length (buf_data ?b)"
      using buffer_put_spec [OF less.prems fits] by blast
    have klen: "length (take k data) = k" by (simp add: k_def)
    note step = push_loop_step [OF \<open>data \<noteq> []\<close> ok k_def b1(1)]
    let ?c1 = "c\<lparr>io_buf := b1\<rparr>"
    have same1: "same_but_output c ?c1" using b1 by (simp add: same_but_output_def)
    show ?thesis
    proof (cases "used b1 = max_size b1")
      case False
      then have k: "k = length data" using b1 klen ok by (auto simp: k_def min_def split: if_splits)
      have "push_loop data c = Some (True, ?c1)" unfolding step using False k by (simp add: push_loop.simps)
      then show ?thesis using b1 k same1 by (auto intro!: exI [of _ True])
    next
      case full: True
      obtain okf b2 n2 kf where f: "wby_socket_flush b1 (sock c) = (okf, b2, n2)" "buf_ok b2" "max_size b2 = max_size b1"
          "length (buf_data b2) = length (buf_data b1)" "sent (sock c) (take kf (pending b1)) n2" "okf \<longrightarrow> used b1 \<le> kf \<and> used b2 = 0"
        using wby_socket_flush_spec [OF b1(2)] by blast
      let ?c2 = "c\<lparr>io_buf := b2, sock := n2\<rparr>" and ?rest = "drop k data"
      have same2: "same_but_output c ?c2" using b1 f by (simp add: same_but_output_def)
      have whole: "pending ?b @ data = pending b1 @ ?rest" using b1(3) by simp
      show ?thesis
      proof (cases okf)
        case False
        have "push_loop data c = Some (False, ?c2)" unfolding step using full f False by simp
        moreover have "take kf (pending b1) = take (min kf (length (pending b1))) (pending ?b @ data)"
          unfolding whole by (simp add: min_def)
        ultimately show ?thesis using same2 f by (auto intro!: exI [of _ False])
      next
        case True
        have all: "take kf (pending b1) = pending b1" using f(6) True b1(2) by simp
        have p2: "pending b2 = []" using f(6) True by (simp add: pending_def)
        show ?thesis
        proof (cases "max_size b2 \<le> length ?rest")
          case big: True
          obtain ok3 n3 where s3: "wby_socket_send ?rest n2 = (ok3, n3)" by (cases "wby_socket_send ?rest n2") auto
          then obtain k3 where k3: "sent n2 (take k3 ?rest) n3" "ok3 \<longrightarrow> length ?rest \<le> k3"
            using wby_socket_send_spec [of n2 ?rest] by auto
          let ?c3 = "c\<lparr>io_buf := b2, sock := n3\<rparr>"
          define S where "S = pending b1 @ take k3 ?rest"
          have res: "push_loop data c = Some (ok3, ?c3)" unfolding step using full f True big s3 by simp
          have snt: "sent (sock c) S n3" using sent_trans [OF f(5) k3(1)] all by (simp add: S_def)
          have same3: "same_but_output c ?c3" using b1 f by (simp add: same_but_output_def)
          have "S = take (length (pending b1) + k3) (pending ?b @ data)" unfolding whole S_def by simp
          then have "if ok3 then S @ pending b2 = pending ?b @ data else \<exists>k. S = take k (pending ?b @ data)"
            using k3(2) p2 whole S_def by (cases ok3) (simp, metis)
          then show ?thesis using f(2) res snt same3
            by (intro exI [of _ ok3] exI [of _ ?c3] exI [of _ S]) (simp del: take_append)
        next
          case small: False
          have "2 * length ?rest + (if used b2 = max_size b2 then 1 else 0) <
              2 * length data + (if used ?b = max_size ?b then 1 else 0)"
            using small f(3,6) True b1(4,5) full klen \<open>data \<noteq> []\<close> by (cases "k = 0") auto
          moreover have c2: "io_buf ?c2 = b2" "sock ?c2 = n2" by simp_all
          ultimately obtain ok4 c4 s4 where c4: "push_loop ?rest ?c2 = Some (ok4, c4)" "same_but_output ?c2 c4"
              "buf_ok (io_buf c4)" "sent n2 s4 (sock c4)"
              "if ok4 then s4 @ pending (io_buf c4) = pending b2 @ ?rest else \<exists>k. s4 = take k (pending b2 @ ?rest)"
            using less.hyps [of ?rest ?c2, unfolded c2] f(2) by blast
          have "push_loop data c = Some (ok4, c4)" unfolding step using full f True small c4 by simp
          moreover have "sent (sock c) (pending b1 @ s4) (sock c4)" using sent_trans [OF f(5) c4(4)] all by simp
          moreover have "if ok4 then (pending b1 @ s4) @ pending (io_buf c4) = pending ?b @ data
              else \<exists>k. pending b1 @ s4 = take k (pending ?b @ data)"
          proof (cases ok4)
            case False
            then obtain j where "s4 = take j ?rest" using c4(5) p2 by auto
            then have "pending b1 @ s4 = take (length (pending b1) + j) (pending ?b @ data)" unfolding whole by simp
            then show ?thesis using False by metis
          qed (use c4(5) p2 whole in simp)
          ultimately show ?thesis using c4(3) same_but_output_trans [OF same2 c4(2)] by blast
        qed
      qed
    qed
  qed
qed


lemma push_stream:
  assumes "con_state c = ST_SERVE" "buf_ok (io_buf c)"
  shows "\<exists>ok c' s. wby_connection_push data c = Some (ok, c') \<and> same_but_output c c' \<and> buf_ok (io_buf c') \<and>
    sent (sock c) s (sock c') \<and>
    (if ok then s @ pending (io_buf c') = pending (io_buf c) @ data \<and> (data = [] \<longrightarrow> pending (io_buf c') = [])
     else \<exists>k. s = take k (pending (io_buf c) @ data))"
proof (cases "data = []")
  case True
  obtain ok b n k where f: "wby_socket_flush (io_buf c) (sock c) = (ok, b, n)" "buf_ok b" "max_size b = max_size (io_buf c)"
      "length (buf_data b) = length (buf_data (io_buf c))" "sent (sock c) (take k (pending (io_buf c))) n"
      "ok \<longrightarrow> used (io_buf c) \<le> k \<and> used b = 0"
    using wby_socket_flush_spec [OF assms(2)] by blast
  have "wby_connection_push data c = Some (ok, c\<lparr>io_buf := b, sock := n\<rparr>)"
    using True assms(1) f by (simp add: wby_connection_push_def)
  moreover have "same_but_output c (c\<lparr>io_buf := b, sock := n\<rparr>)" using f by (simp add: same_but_output_def)
  moreover have "if ok then take k (pending (io_buf c)) @ pending b = pending (io_buf c) @ data \<and> (data = [] \<longrightarrow> pending b = [])
      else \<exists>k'. take k (pending (io_buf c)) = take k' (pending (io_buf c) @ data)"
  proof (cases ok)
    case okt: True
    then have "take k (pending (io_buf c)) = pending (io_buf c)" "pending b = []"
      using f(6) assms(2) by (simp_all add: pending_def buf_ok_def)
    then show ?thesis using okt True by simp
  next
    case False
    then show ?thesis using True by (simp, blast)
  qed
  ultimately show ?thesis using f(2,5)
    by (intro exI [of _ ok] exI [of _ "c\<lparr>io_buf := b, sock := n\<rparr>"] exI [of _ "take k (pending (io_buf c))"]) (simp del: take_append)
next
  case False
  moreover obtain ok c' s where "push_loop data c = Some (ok, c')" "same_but_output c c'" "buf_ok (io_buf c')" "sent (sock c) s (sock c')"
      "if ok then s @ pending (io_buf c') = pending (io_buf c) @ data else \<exists>k. s = take k (pending (io_buf c) @ data)"
    using push_loop_stream [OF assms(2), of data] by blast
  ultimately show ?thesis using assms(1)
    by (intro exI [of _ ok] exI [of _ c'] exI [of _ s]) (simp add: wby_connection_push_def del: take_append)
qed

section \<open>Reliable sockets\<close>

text \<open>A socket whose coming \<open>send\<close> calls all succeed; the output then is exactly what was pushed.\<close>

definition reliable :: "net \<Rightarrow> bool" where
  "reliable n \<longleftrightarrow> open_sock n \<and> send_results n = []"

definition output_text :: "wby_connection \<Rightarrow> string" where
  "output_text c = tx (sock c) @ pending (io_buf c)"

lemma socket_send_reliable: "reliable n \<Longrightarrow> wby_socket_send s n = (True, n\<lparr>tx := tx n @ s\<rparr>)"
  by (subst wby_socket_send.simps, cases "s = []")
     (simp_all add: reliable_def sock_send_def wby_socket_send.simps)

lemma reliable_tx [simp]: "reliable (n\<lparr>tx := t\<rparr>) = reliable n"
  by (simp add: reliable_def)

lemma socket_flush_reliable:
  "reliable n \<Longrightarrow> \<exists>b' n'. wby_socket_flush b n = (True, b', n') \<and> reliable n' \<and> used b' = 0 \<and> max_size b' = max_size b \<and> buf_data b' = buf_data b"
  by (simp add: wby_socket_flush_def socket_send_reliable)

lemma push_loop_reliable:
  assumes "buf_ok (io_buf c)" "reliable (sock c)"
  shows "\<exists>c'. push_loop data c = Some (True, c') \<and> reliable (sock c')"
  using assms
proof (induction "2 * length data + (if used (io_buf c) = max_size (io_buf c) then 1 else 0)" arbitrary: data c rule: less_induct)
  case less
  let ?b = "io_buf c"
  show ?case
  proof (cases "data = []")
    case True
    then show ?thesis using less.prems by (subst push_loop.simps) simp
  next
    case False
    define k where "k = min (length data) (max_size ?b - used ?b)"
    have le: "used ?b \<le> max_size ?b" using less.prems by (simp add: buf_ok_def)
    have fits: "used ?b + length (take k data) \<le> max_size ?b" and klen: "length (take k data) = k" using le by (simp_all add: k_def)
    obtain b1 where b1: "buffer_put ?b (take k data) = Some b1" "buf_ok b1" "max_size b1 = max_size ?b" "used b1 = used ?b + k"
      using buffer_put_spec [OF less.prems(1) fits, unfolded klen] by blast
    note step = push_loop_step [OF False le k_def b1(1)]
    show ?thesis
    proof (cases "used b1 = max_size b1")
      case notfull: False
      then have "k = length data" using b1 le by (auto simp: k_def min_def split: if_splits)
      then show ?thesis unfolding step using notfull less.prems(2) by (simp add: push_loop.simps)
    next
      case full: True
      obtain b2 n2 where f: "wby_socket_flush b1 (sock c) = (True, b2, n2)" "reliable n2" "used b2 = 0" "max_size b2 = max_size b1"
          "buf_data b2 = buf_data b1"
        using socket_flush_reliable [OF less.prems(2)] by blast
      show ?thesis
      proof (cases "max_size b2 \<le> length (drop k data)")
        case True
        then show ?thesis unfolding step using full f by (simp add: socket_send_reliable)
      next
        case small: False
        let ?c2 = "c\<lparr>io_buf := b2, sock := n2\<rparr>"
        have "2 * length (drop k data) + (if used b2 = max_size b2 then 1 else 0) <
            2 * length data + (if used ?b = max_size ?b then 1 else 0)"
          using small f(3,4) b1(3,4) full False by (cases "k = 0") auto
        moreover have "buf_ok b2" using b1(2) f by (simp add: buf_ok_def)
        ultimately obtain c' where "push_loop (drop k data) ?c2 = Some (True, c')" "reliable (sock c')"
          using less.hyps [of "drop k data" ?c2] f(2) by auto
        then show ?thesis unfolding step using full f small by simp
      qed
    qed
  qed
qed

lemma push_reliable:
  assumes "con_state c = ST_SERVE" "buf_ok (io_buf c)" "reliable (sock c)"
  shows "\<exists>c'. wby_connection_push data c = Some (True, c') \<and> same_but_output c c' \<and> buf_ok (io_buf c') \<and>
    reliable (sock c') \<and> output_text c' = output_text c @ data \<and> (data = [] \<longrightarrow> pending (io_buf c') = [])"
proof -
  obtain ok c' s where c': "wby_connection_push data c = Some (ok, c')" "same_but_output c c'" "buf_ok (io_buf c')"
      "sent (sock c) s (sock c')"
      "if ok then s @ pending (io_buf c') = pending (io_buf c) @ data \<and> (data = [] \<longrightarrow> pending (io_buf c') = [])
       else \<exists>k. s = take k (pending (io_buf c) @ data)"
    using push_stream [OF assms(1,2), of data] by blast
  have "ok \<and> reliable (sock c')"
  proof (cases "data = []")
    case True
    obtain b n where "wby_socket_flush (io_buf c) (sock c) = (True, b, n)" "reliable n"
      using socket_flush_reliable [OF assms(3)] by blast
    then show ?thesis using c'(1) True assms(1) by (auto simp: wby_connection_push_def)
  next
    case False
    then show ?thesis using push_loop_reliable [OF assms(2,3), of data] c'(1) assms(1) by (auto simp: wby_connection_push_def)
  qed
  then show ?thesis using c' by (auto simp: output_text_def sent_def)
qed

text \<open>
  C13. Output of a connection is a stream: pushing text always ends; nothing but the buffer and the
  socket changes and the buffer stays within its array; what was pending followed by the new text
  is, without loss, repetition or reordering, what has been sent followed by what is pending now; after
  a failed \<open>send\<close> a prefix of it was sent; pushing the empty text flushes.
\<close>

theorem connection_push_stream:
  assumes "con_state c = ST_SERVE" "buf_ok (io_buf c)"
  shows "\<exists>ok c' s. wby_connection_push data c = Some (ok, c') \<and> same_but_output c c' \<and> buf_ok (io_buf c') \<and>
    tx (sock c') = tx (sock c) @ s \<and> (reliable (sock c) \<longrightarrow> ok) \<and>
    (if ok then s @ pending (io_buf c') = pending (io_buf c) @ data \<and> (data = [] \<longrightarrow> pending (io_buf c') = [])
     else \<exists>k. s = take k (pending (io_buf c) @ data))"
proof -
  obtain ok c' s where c': "wby_connection_push data c = Some (ok, c')" "same_but_output c c'" "buf_ok (io_buf c')"
      "sent (sock c) s (sock c')"
      "if ok then s @ pending (io_buf c') = pending (io_buf c) @ data \<and> (data = [] \<longrightarrow> pending (io_buf c') = [])
       else \<exists>k. s = take k (pending (io_buf c) @ data)"
    using push_stream [OF assms, of data] by blast
  moreover have "reliable (sock c) \<longrightarrow> ok" using push_reliable [OF assms, of data] c'(1) by auto
  ultimately show ?thesis unfolding sent_def by blast
qed

definition sample_connection :: wby_connection where
  "sample_connection =
     \<lparr>request = \<lparr>req_method = 0, req_uri = 0, req_version = 0, query_params = None, content_length = 0, req_headers = []\<rparr>,
      flags = {ALIVE}, con_state = ST_SERVE,
      sock = \<lparr>rx = [], tx = [], send_results = [], fcntl_results = [], nonblock = False, open_sock = True\<rparr>,
      header_buf = \<lparr>used = 0, max_size = 64, buf_data = replicate 64 nul\<rparr>,
      io_buf = \<lparr>used = 0, max_size = 4, buf_data = replicate 4 nul\<rparr>,
      header_body_left = 0, io_data_left = 0, continue_data_left = 0, body_bytes_read = 0,
      ws_frame = \<lparr>frame_flags = 0, frame_opcode = 0, header_size = 0, mask_key = [0, 0, 0, 0], payload_length = 0\<rparr>,
      ws_opcode = 0, blocking_count = 0\<rparr>"

theorem connection_push_stream_witness:
  "\<exists>ok c' s. wby_connection_push ''hello'' sample_connection = Some (ok, c') \<and> ok \<and>
     tx (sock c') = s \<and> s @ pending (io_buf c') = ''hello''"
proof -
  have "con_state sample_connection = ST_SERVE" "buf_ok (io_buf sample_connection)" "reliable (sock sample_connection)"
      "tx (sock sample_connection) = []" "pending (io_buf sample_connection) = []"
    by (simp_all add: sample_connection_def buf_ok_def reliable_def pending_def)
  then show ?thesis using connection_push_stream [of sample_connection "''hello''"] by (metis append_Nil)
qed

end
