(* ===== verification/Mumux_Request.thy ===== *)
theory Mumux_Request
  imports Mumux_Conn
begin

text \<open>
  \<open>mumux\<close>: reading and answering requests (\<open>connection.c\<close>, \<open>request.c\<close>, \<open>response.c\<close>). A result
  \<open>None\<close> is undefined behaviour or a \<open>recv\<close> that never returns.
\<close>

section \<open>Reading\<close>

text \<open>\<open>wby_read_buffered_data\<close>: what is left in the buffer, what was read, and what is still wanted.\<close>

definition wby_read_buffered_data :: "int \<Rightarrow> wby_buffer \<Rightarrow> nat \<Rightarrow> (string \<times> int \<times> nat) option" where
  "wby_read_buffered_data left buf len =
     (if left = 0 then Some ([], left, len)
      else
        let offset = int (used buf) - left;
            read_size = (if int len > left then left else int len)
        in if offset < 0 \<or> read_size < 0 \<or> nat (offset + read_size) > length (buf_data buf) then None
           else Some (take (nat read_size) (drop (nat offset) (buf_data buf)), left - read_size, len - nat read_size))"

text \<open>The loop over \<open>recv\<close>: at the end of the stream \<open>recv\<close> returns 0 and the loop never ends.\<close>

partial_function (option) recv_loop :: "nat \<Rightarrow> string \<Rightarrow> wby_connection \<Rightarrow> (bool \<times> string \<times> wby_connection) option" where
  "recv_loop len got c =
     (if len = 0 then Some (True, got, c)
      else do {
        (r, n) \<leftarrow> sock_recv len (sock c);
        (case r of
           RErr _ \<Rightarrow> Some (False, got, kill (c\<lparr>sock := n\<rparr>))
         | ROk s \<Rightarrow> recv_loop (len - length s) (got @ s) (c\<lparr>sock := n, body_bytes_read := body_bytes_read c + int (length s)\<rparr>))
      })"

definition byte_of :: "char \<Rightarrow> byte" where
  "byte_of ch = of_nat (of_char ch)"

definition char_of_byte :: "byte \<Rightarrow> char" where
  "char_of_byte b = char_of (unat b)"

text \<open>The characters from body position \<open>i\<close> on, unmasked.\<close>

fun unmask :: "byte list \<Rightarrow> int \<Rightarrow> string \<Rightarrow> string" where
  "unmask key i [] = []"
| "unmask key i (ch # s) = char_of_byte (byte_of ch XOR key ! nat (i mod 4)) # unmask key (i + 1) s"

text \<open>\<open>wby_read\<close>: success, the characters stored at \<open>ptr\<close>, the connection.\<close>

definition wby_read :: "nat \<Rightarrow> wby_connection \<Rightarrow> (bool \<times> string \<times> wby_connection) option" where
  "wby_read len c = do {
     let start_pos = body_bytes_read c;
     (s1, c, len) \<leftarrow> (if header_body_left c > 0
       then do {
         (s, left, len) \<leftarrow> wby_read_buffered_data (header_body_left c) (header_buf c) len;
         Some (s, c\<lparr>header_body_left := left, body_bytes_read := body_bytes_read c + int (length s)\<rparr>, len)
       } else Some ([], c, len));
     (s2, c, len) \<leftarrow> (if io_data_left c > 0
       then do {
         (s, left, len) \<leftarrow> wby_read_buffered_data (io_data_left c) (io_buf c) len;
         Some (s, c\<lparr>io_data_left := left, body_bytes_read := body_bytes_read c + int (length s)\<rparr>, len)
       } else Some ([], c, len));
     (ok, s, c) \<leftarrow> recv_loop len (s1 @ s2) c;
     if \<not> ok then Some (False, s, c)
     else if WEBSOCKET \<in> flags c \<and> frame_flags (ws_frame c) AND WBY_WSF_MASKED \<noteq> 0
     then Some (True, unmask (mask_key (ws_frame c)) start_pos s, c)
     else Some (True, s, c)
   }"

function wby_con_discard_incoming_data :: "int \<Rightarrow> wby_connection \<Rightarrow> (bool \<times> wby_connection) option" where
  "wby_con_discard_incoming_data count c =
     (if count > 0 then
        let read_size = (if count > 1024 then 1024 else count) in
        case wby_read (nat read_size) c of
          None \<Rightarrow> None
        | Some (ok, _, c) \<Rightarrow> if ok then wby_con_discard_incoming_data (count - read_size) c else Some (False, c)
      else Some (True, c))"
  by pat_completeness auto
termination by (relation "measure (\<lambda>(count, _). nat count)") auto

declare wby_con_discard_incoming_data.simps [simp del]

section \<open>Request headers\<close>

definition header_text :: "wby_connection \<Rightarrow> nat \<Rightarrow> string" where
  "header_text c p = cstr (drop p (buf_data (header_buf c)))"

definition wby_find_header :: "string \<Rightarrow> wby_connection \<Rightarrow> string option" where
  "wby_find_header name c =
     map_option (\<lambda>(n, v). header_text c v)
       (find (\<lambda>(n, v). strcasecmp_eq (header_text c n) name) (req_headers (request c)))"

definition wby_con_is_websocket_request :: "wby_connection \<Rightarrow> bool" where
  "wby_con_is_websocket_request c =
     (case wby_find_header ''Connection'' c of
        None \<Rightarrow> False
      | Some hdr \<Rightarrow>
          if \<not> strcasecmp_eq hdr ''Upgrade'' then False
          else case wby_find_header ''Upgrade'' c of None \<Rightarrow> False | Some hdr \<Rightarrow> strcasecmp_eq hdr ''websocket'')"

definition WBY_MAX_HEADERS :: nat where
  "WBY_MAX_HEADERS = 64"

text \<open>\<open>(int)strtoul(s, NULL, 10)\<close>.\<close>

definition is_space :: "char \<Rightarrow> bool" where
  "is_space ch \<longleftrightarrow> ch \<in> {CHR '' '', CHR 0x09, CHR 0x0a, CHR 0x0b, CHR 0x0c, CHR 0x0d}"

definition strtoul_int :: "string \<Rightarrow> int" where
  "strtoul_int s =
     (let s = dropWhile is_space s;
          neg = (s \<noteq> [] \<and> hd s = CHR ''-'');
          s = (if s \<noteq> [] \<and> (hd s = CHR ''-'' \<or> hd s = CHR ''+'') then tl s else s);
          v = foldl (\<lambda>v d. 10 * v + (of_char d - 48)) (0 :: nat) (takeWhile isdigit s);
          u = (if v \<ge> 2 ^ 64 then 2 ^ 64 - 1 else if neg then (2 ^ 64 - v) mod 2 ^ 64 else v)
      in sint (of_nat u :: u32))"

definition CRLF :: string where
  "CRLF = [CHR 0x0d, CHR 0x0a]"

text \<open>
  The loop over the header lines; the second component of the result is \<open>False\<close> for an early
  \<open>return 1\<close>.
\<close>

fun parse_headers :: "nat list \<Rightarrow> char list \<Rightarrow> (nat \<times> nat) list \<Rightarrow> int \<Rightarrow> (bool \<times> (nat \<times> nat) list \<times> int \<times> char list) option" where
  "parse_headers [] buf hs cl = Some (True, hs, cl, buf)"
| "parse_headers (l # ls) buf hs cl = do {
     (tok, buf) \<leftarrow> wby_tok_inplace buf l '':'' 2 True;
     (case tok of
        [n, v] \<Rightarrow>
          let name = cstr (drop n buf); hs = hs @ [(n, v)] in
          if strcasecmp_eq ''content-length'' name then parse_headers ls buf hs (strtoul_int (cstr (drop v buf)))
          else if strcasecmp_eq ''transfer-encoding'' name then Some (False, hs, cl, buf)
          else parse_headers ls buf hs cl
      | _ \<Rightarrow> Some (False, hs, cl, buf))
   }"

definition wby_connection_setup_request :: "nat \<Rightarrow> wby_connection \<Rightarrow> (bool \<times> wby_connection) option" where
  "wby_connection_setup_request request_size c = do {
     buf \<leftarrow> (if request_size < 2 then None else poke (buf_data (header_buf c)) (request_size - 2) nul);
     (lines, buf) \<leftarrow> wby_tok_inplace buf 0 CRLF (WBY_MAX_HEADERS + 2) False;
     let upd = (\<lambda>c buf. c\<lparr>header_buf := (header_buf c)\<lparr>buf_data := buf\<rparr>\<rparr>);
     let header_count = int (length lines) - 2;
     if length lines < 1 \<or> header_count > int WBY_MAX_HEADERS then Some (False, upd c buf)
     else do {
       (tok, buf) \<leftarrow> wby_tok_inplace buf (lines ! 0) '' '' 16 False;
       (case tok of
          [m, u, v] \<Rightarrow> do {
            let uri = cstr (drop u buf);
            let q = length (takeWhile (\<lambda>ch. ch \<noteq> CHR ''?'') uri);
            (query, buf) \<leftarrow> (if q < length uri then do { buf \<leftarrow> poke buf (u + q) nul; Some (Some (u + q + 1), buf) }
                             else Some (None, buf));
            let uri_len = length (cstr (drop u buf));
            (_, buf) \<leftarrow> wby_url_decode buf u uri_len u (uri_len + 1) True;
            let req = (request c)\<lparr>req_method := m, req_uri := u, req_version := v, content_length := 0, query_params := query\<rparr>;
            (ok, hs, cl, buf) \<leftarrow> parse_headers (take (nat header_count) (drop 1 lines)) buf [] 0;
            Some (ok, (upd c buf)\<lparr>request := req\<lparr>content_length := cl,
              req_headers := (if ok then hs else take (length (req_headers req)) (hs @ drop (length hs) (req_headers req)))\<rparr>\<rparr>)
          }
        | _ \<Rightarrow> Some (False, upd c buf))
     }
   }"


section \<open>Writing\<close>

fun hex_string :: "nat \<Rightarrow> string" where
  "hex_string n = (if n < 16 then [] else hex_string (n div 16)) @ [''0123456789abcdef'' ! (n mod 16)]"

declare hex_string.simps [simp del]

definition WBY_WSOP_CONTINUATION :: byte where "WBY_WSOP_CONTINUATION = 0"

definition wby_write :: "string \<Rightarrow> wby_connection \<Rightarrow> (bool \<times> wby_connection) option" where
  "wby_write s c =
     (if WEBSOCKET \<in> flags c then
        let header = map char_of_byte (wby_make_websocket_header (ws_opcode c) (of_nat (length s)) False);
            c = c\<lparr>ws_opcode := WBY_WSOP_CONTINUATION\<rparr>
        in case wby_socket_send header (sock c) of
          (ok, n) \<Rightarrow>
            if \<not> ok then Some (False, kill (c\<lparr>sock := n\<rparr>))
            else case wby_socket_send s n of
              (ok, n) \<Rightarrow> if \<not> ok then Some (False, kill (c\<lparr>sock := n\<rparr>)) else Some (True, c\<lparr>sock := n\<rparr>)
      else if CHUNKED_RESPONSE \<in> flags c then do {
        (_, c) \<leftarrow> wby_connection_push (hex_string (length s) @ CRLF) c;
        (_, c) \<leftarrow> wby_connection_push s c;
        wby_connection_push CRLF c
      }
      else wby_connection_push s c)"

text \<open>
  \<open>wby_printf\<close> formats into an array of 1024 characters but passes on the length the whole text
  would have: text of exactly 1024 characters is sent with the terminator for its last character, longer
  text reads behind the array.
\<close>

definition wby_printf :: "string \<Rightarrow> wby_connection \<Rightarrow> (bool \<times> wby_connection) option" where
  "wby_printf s c =
     (if length s < 1024 then wby_write s c
      else if length s = 1024 then wby_write (take 1023 s @ [nul]) c
      else None)"

definition wby_frame_begin :: "byte \<Rightarrow> wby_connection \<Rightarrow> bool \<times> wby_connection" where
  "wby_frame_begin opcode c = wby_connection_set_blocking (c\<lparr>ws_opcode := opcode\<rparr>)"

definition wby_frame_end :: "wby_connection \<Rightarrow> bool \<times> wby_connection" where
  "wby_frame_end c =
     (case wby_socket_send (map char_of_byte (wby_make_websocket_header (ws_opcode c) 0 True)) (sock c) of
        (ok, n) \<Rightarrow> wby_connection_set_nonblocking (if ok then c\<lparr>sock := n\<rparr> else kill (c\<lparr>sock := n\<rparr>)))"

section \<open>Responses\<close>

definition wby_status_map :: "(int \<times> string) list" where
  "wby_status_map =
     [(100, ''Continue''), (101, ''Switching Protocols''), (200, ''OK''), (201, ''Created''), (202, ''Accepted''),
      (203, ''Non-Authoritative Information''), (204, ''No Content''), (205, ''Reset Content''), (206, ''Partial Content''),
      (300, ''Multiple Choices''), (301, ''Moved Permanently''), (302, ''Found''), (303, ''See Other''),
      (304, ''Not Modified''), (305, ''Use Proxy''), (307, ''Temporary Redirect''), (400, ''Bad Request''),
      (401, ''Unauthorized''), (402, ''Payment Required''), (403, ''Forbidden''), (404, ''Not Found''),
      (405, ''Method Not Allowed''), (406, ''Not Acceptable''), (407, ''Proxy Authentication Required''),
      (408, ''Request Time-out''), (409, ''Conflict''), (410, ''Gone''), (411, ''Length Required''),
      (412, ''Precondition Failed''), (413, ''Request Entity Too Large''), (414, ''Request-URI Too Large''),
      (415, ''Unsupported Media Type''), (416, ''Requested range not satisfiable''), (417, ''Expectation Failed''),
      (500, ''Internal Server Error''), (501, ''Not Implemented''), (502, ''Bad Gateway''), (503, ''Service Unavailable''),
      (504, ''Gateway Time-out''), (505, ''HTTP Version not supported'')]"

definition wby_response_status_text :: "int \<Rightarrow> string" where
  "wby_response_status_text status_code =
     (case find (\<lambda>(n, _). n = status_code) wby_status_map of Some (_, t) \<Rightarrow> t | None \<Rightarrow> ''Unknown'')"

text \<open>\<open>%d\<close> of an \<open>int\<close>.\<close>

definition int_string :: "int \<Rightarrow> string" where
  "int_string i = (if i < 0 then CHR ''-'' # decimal (nat (- i)) else decimal (nat i))"

text \<open>The results of \<open>wby_printf\<close> are not looked at.\<close>

definition emit :: "string \<Rightarrow> wby_connection \<Rightarrow> wby_connection option" where
  "emit s c = map_option snd (wby_printf s c)"

fun response_headers :: "(string \<times> string) list \<Rightarrow> wby_connection \<Rightarrow> wby_connection option" where
  "response_headers [] c = Some c"
| "response_headers ((n, v) # hs) c = do {
     let c = (if strcasecmp_eq n ''Connection'' \<and> strcasecmp_eq v ''close''
              then c\<lparr>flags := insert CLOSE_AFTER_RESPONSE (flags c)\<rparr> else c);
     c \<leftarrow> emit (n @ '': '' @ v @ CRLF) c;
     response_headers hs c
   }"

definition wby_response_begin ::
  "int \<Rightarrow> int \<Rightarrow> (string \<times> string) list \<Rightarrow> wby_connection \<Rightarrow> (bool \<times> wby_connection) option" where
  "wby_response_begin status_code len headers c = do {
     (ok, c) \<leftarrow> (if body_bytes_read c < content_length (request c)
       then wby_con_discard_incoming_data (content_length (request c) - body_bytes_read c) c
       else Some (True, c));
     if \<not> ok then Some (False, kill c)
     else do {
       c \<leftarrow> emit (''HTTP/1.1 '' @ int_string status_code @ '' '' @ wby_response_status_text status_code @ CRLF) c;
       c \<leftarrow> (if len \<ge> 0 then emit (''Content-Length: '' @ int_string len @ CRLF) c
             else emit (''Transfer-Encoding: chunked'' @ CRLF) c);
       c \<leftarrow> emit (''Server: wby'' @ CRLF) c;
       c \<leftarrow> response_headers headers c;
       c \<leftarrow> (if CLOSE_AFTER_RESPONSE \<notin> flags c
             then case wby_find_header ''Connection'' c of
               Some h \<Rightarrow>
                 if strcasecmp_eq ''close'' h
                 then emit (''Connection: close'' @ CRLF) (c\<lparr>flags := insert CLOSE_AFTER_RESPONSE (flags c)\<rparr>)
                 else Some c
             | None \<Rightarrow> Some c
             else Some c);
       c \<leftarrow> emit CRLF c;
       Some (True, if len < 0 then c\<lparr>flags := insert CHUNKED_RESPONSE (flags c)\<rparr> else c)
     }
   }"

definition wby_response_end :: "wby_connection \<Rightarrow> wby_connection option" where
  "wby_response_end c = do {
     c \<leftarrow> (if CHUNKED_RESPONSE \<in> flags c
           then do {
             (_, c) \<leftarrow> wby_connection_push (''0'' @ CRLF @ CRLF) c;
             Some (c\<lparr>flags := flags c - {CHUNKED_RESPONSE}\<rparr>)
           } else Some c);
     (_, c) \<leftarrow> wby_connection_push [] c;
     Some (if content_length (request c) = 0 then wby_connection_close c else c)
   }"

section \<open>The web socket handshake\<close>

definition WBY_WEBSOCKET_VERSION :: string where "WBY_WEBSOCKET_VERSION = ''13''"

definition wby_websocket_guid :: string where
  "wby_websocket_guid = ''258EAFA5-E914-47DA-95CA-C5AB0DC85B11''"

text \<open>The uninitialised locals of the routine (digest state, output array) are arguments.\<close>

definition wby_connection_send_websocket_upgrade ::
  "wby_sha1 \<Rightarrow> char list \<Rightarrow> wby_connection \<Rightarrow> (bool \<times> wby_connection) option" where
  "wby_connection_send_websocket_upgrade sha output_digest c =
     (case wby_find_header ''Sec-WebSocket-Version'' c of
        None \<Rightarrow> Some (False, c)
      | Some hdr \<Rightarrow>
          if hdr \<noteq> WBY_WEBSOCKET_VERSION then Some (False, c)
          else case wby_find_header ''Sec-WebSocket-Key'' c of
            None \<Rightarrow> Some (False, c)
          | Some hdr \<Rightarrow> do {
              let s = wby_sha1_init sha;
              s \<leftarrow> wby_sha1_update s (map byte_of hdr);
              s \<leftarrow> wby_sha1_update s (map byte_of wby_websocket_guid);
              (digest, _) \<leftarrow> wby_sha1_final s;
              (err, out) \<leftarrow> wby_base64_encode output_digest digest;
              if err \<noteq> 0 then Some (False, c)
              else do {
                (_, c) \<leftarrow> wby_response_begin 101 0
                  [(''Upgrade'', ''websocket''), (''Connection'', ''Upgrade''), (''Sec-WebSocket-Accept'', cstr out)] c;
                c \<leftarrow> wby_response_end c;
                Some (True, c)
              }
            })"

section \<open>The text of a response\<close>

text \<open>A connection that can answer: serving, its socket reliable, no web socket.\<close>

definition answering :: "wby_connection \<Rightarrow> bool" where
  "answering c \<longleftrightarrow> con_state c = ST_SERVE \<and> buf_ok (io_buf c) \<and> reliable (sock c) \<and> WEBSOCKET \<notin> flags c"

definition same_request :: "wby_connection \<Rightarrow> wby_connection \<Rightarrow> bool" where
  "same_request c c' \<longleftrightarrow> request c' = request c \<and> header_buf c' = header_buf c \<and> body_bytes_read c' = body_bytes_read c \<and>
     blocking_count c' = blocking_count c"

lemma same_but_output_fields:
  assumes "same_but_output c c'"
  shows "flags c' = flags c" "con_state c' = con_state c" "same_request c c'"
proof -
  obtain b n where "c' = c\<lparr>io_buf := b, sock := n\<rparr>" using assms unfolding same_but_output_def by metis
  then show "flags c' = flags c" "con_state c' = con_state c" "same_request c c'" by (simp_all add: same_request_def)
qed

lemma same_request_trans: "same_request c c' \<Longrightarrow> same_request c' c'' \<Longrightarrow> same_request c c''"
  by (simp add: same_request_def)

lemma same_request_refl [simp]: "same_request c c"
  by (simp add: same_request_def)

lemma same_request_flags [simp]: "same_request c (c'\<lparr>flags := f\<rparr>) = same_request c c'"
  by (simp add: same_request_def)

lemma same_request_header: "same_request c c' \<Longrightarrow> wby_find_header name c' = wby_find_header name c"
  by (simp add: same_request_def wby_find_header_def header_text_def)

lemma answering_flags [simp]: "f \<noteq> WEBSOCKET \<Longrightarrow> answering (c\<lparr>flags := insert f (flags c)\<rparr>) = answering c"
  "answering (c\<lparr>flags := flags c - {CHUNKED_RESPONSE}\<rparr>) = answering c"
  by (auto simp: answering_def)

lemma output_text_flags [simp]: "output_text (c\<lparr>flags := f\<rparr>) = output_text c"
  by (simp add: output_text_def)

definition chunk :: "string \<Rightarrow> string" where
  "chunk s = hex_string (length s) @ CRLF @ s @ CRLF"

lemma push_answering:
  assumes "answering c"
  shows "\<exists>c'. wby_connection_push data c = Some (True, c') \<and> answering c' \<and> output_text c' = output_text c @ data \<and>
    flags c' = flags c \<and> same_request c c' \<and> (data = [] \<longrightarrow> pending (io_buf c') = [])"
proof -
  obtain c' where c': "wby_connection_push data c = Some (True, c')" "same_but_output c c'" "buf_ok (io_buf c')"
      "reliable (sock c')" "output_text c' = output_text c @ data" "data = [] \<longrightarrow> pending (io_buf c') = []"
    using push_reliable [of c data] assms unfolding answering_def by blast
  then show ?thesis using same_but_output_fields [OF c'(2)] assms by (auto simp: answering_def)
qed

lemma write_answering:
  assumes "answering c"
  shows "\<exists>c'. wby_write s c = Some (True, c') \<and> answering c' \<and>
    output_text c' = output_text c @ (if CHUNKED_RESPONSE \<in> flags c then chunk s else s) \<and> flags c' = flags c \<and> same_request c c'"
proof (cases "CHUNKED_RESPONSE \<in> flags c")
  case True
  obtain c1 where c1: "wby_connection_push (hex_string (length s) @ CRLF) c = Some (True, c1)" "answering c1"
      "output_text c1 = output_text c @ hex_string (length s) @ CRLF" "flags c1 = flags c" "same_request c c1"
    using push_answering [OF assms] by blast
  obtain c2 where c2: "wby_connection_push s c1 = Some (True, c2)" "answering c2" "output_text c2 = output_text c1 @ s"
      "flags c2 = flags c1" "same_request c1 c2"
    using push_answering [OF c1(2)] by blast
  obtain c3 where c3: "wby_connection_push CRLF c2 = Some (True, c3)" "answering c3" "output_text c3 = output_text c2 @ CRLF"
      "flags c3 = flags c2" "same_request c2 c3"
    using push_answering [OF c2(2)] by blast
  have "wby_write s c = Some (True, c3)" using True c1 c2 c3 assms by (simp add: wby_write_def answering_def)
  then show ?thesis using True c1 c2 c3 by (auto simp: chunk_def intro: same_request_trans)
next
  case False
  then show ?thesis using push_answering [OF assms, of s] assms by (auto simp: wby_write_def answering_def)
qed

lemma emit_answering:
  assumes "answering c" "CHUNKED_RESPONSE \<notin> flags c" "length s < 1024"
  shows "\<exists>c'. emit s c = Some c' \<and> answering c' \<and> output_text c' = output_text c @ s \<and> flags c' = flags c \<and> same_request c c'"
  using write_answering [OF assms(1), of s] assms(2,3) by (auto simp: emit_def wby_printf_def)

definition header_line :: "string \<times> string \<Rightarrow> string" where
  "header_line h = fst h @ '': '' @ snd h @ CRLF"

definition is_close :: "string \<times> string \<Rightarrow> bool" where
  "is_close h \<longleftrightarrow> strcasecmp_eq (fst h) ''Connection'' \<and> strcasecmp_eq (snd h) ''close''"

lemma response_headers_answering:
  assumes "answering c" "CHUNKED_RESPONSE \<notin> flags c" "\<forall>h\<in>set hs. length (header_line h) < 1024"
  shows "\<exists>c'. response_headers hs c = Some c' \<and> answering c' \<and> output_text c' = output_text c @ concat (map header_line hs) \<and>
    flags c' = flags c \<union> (if \<exists>h\<in>set hs. is_close h then {CLOSE_AFTER_RESPONSE} else {}) \<and> same_request c c'"
  using assms
proof (induction hs arbitrary: c)
  case (Cons h hs)
  obtain n v where h: "h = (n, v)" by (cases h)
  let ?c = "if strcasecmp_eq n ''Connection'' \<and> strcasecmp_eq v ''close'' then c\<lparr>flags := insert CLOSE_AFTER_RESPONSE (flags c)\<rparr> else c"
  have c0: "answering ?c" "CHUNKED_RESPONSE \<notin> flags ?c" "same_request c ?c" "output_text ?c = output_text c"
      "flags ?c = flags c \<union> (if is_close h then {CLOSE_AFTER_RESPONSE} else {})"
    using Cons.prems by (simp_all add: h is_close_def)
  obtain c1 where c1: "emit (header_line h) ?c = Some c1" "answering c1" "output_text c1 = output_text ?c @ header_line h"
      "flags c1 = flags ?c" "same_request ?c c1"
    using emit_answering [OF c0(1,2), of "header_line h"] Cons.prems(3) by auto
  obtain c2 where c2: "response_headers hs c1 = Some c2" "answering c2"
      "output_text c2 = output_text c1 @ concat (map header_line hs)"
      "flags c2 = flags c1 \<union> (if \<exists>h\<in>set hs. is_close h then {CLOSE_AFTER_RESPONSE} else {})" "same_request c1 c2"
    using Cons.IH [of c1] c0 c1 Cons.prems(3) by auto
  have "response_headers (h # hs) c = Some c2" using c1(1) c2(1) by (simp add: h header_line_def Let_def)
  moreover have "same_request c c2" using c0(3) c1(5) c2(5) by (blast intro: same_request_trans)
  ultimately show ?case using c0 c1 c2 by auto
qed simp


text \<open>The head of a response; \<open>wants\<close> is the client's wish to close the connection.\<close>

definition response_head :: "int \<Rightarrow> int \<Rightarrow> (string \<times> string) list \<Rightarrow> bool \<Rightarrow> string" where
  "response_head status len hs wants =
     ''HTTP/1.1 '' @ int_string status @ '' '' @ wby_response_status_text status @ CRLF @
     (if len \<ge> 0 then ''Content-Length: '' @ int_string len @ CRLF else ''Transfer-Encoding: chunked'' @ CRLF) @
     ''Server: wby'' @ CRLF @ concat (map header_line hs) @
     (if wants then ''Connection: close'' @ CRLF else []) @ CRLF"

definition client_closes :: "wby_connection \<Rightarrow> bool" where
  "client_closes c \<longleftrightarrow> (case wby_find_header ''Connection'' c of Some h \<Rightarrow> strcasecmp_eq ''close'' h | None \<Rightarrow> False)"

lemma int_string_length:
  assumes "\<bar>i\<bar> < 10 ^ k" "0 < k"
  shows "length (int_string i) \<le> k + 1"
proof -
  have "length (decimal (nat \<bar>i\<bar>)) \<le> k"
    using assms by (intro decimal_length) (auto simp: nat_less_iff)
  then show ?thesis by (auto simp: int_string_def abs_if split: if_splits)
qed

lemma status_text_length: "length (wby_response_status_text st) \<le> 31"
proof (cases "find (\<lambda>(n, _). n = st) wby_status_map")
  case None
  then show ?thesis by (simp add: wby_response_status_text_def)
next
  case (Some p)
  then have "p \<in> set wby_status_map" by (auto simp: find_Some_iff in_set_conv_nth)
  moreover have "\<forall>p\<in>set wby_status_map. length (snd p) \<le> 31" by code_simp
  ultimately show ?thesis using Some by (auto simp: wby_response_status_text_def split: prod.split)
qed

lemma response_begin_text:
  assumes "answering c" "CHUNKED_RESPONSE \<notin> flags c" "content_length (request c) \<le> body_bytes_read c"
    and "\<forall>h\<in>set hs. length (header_line h) < 1024" "\<bar>status\<bar> < 10 ^ 10" "\<bar>len\<bar> < 10 ^ 10"
  defines "close \<equiv> CLOSE_AFTER_RESPONSE \<in> flags c \<or> (\<exists>h\<in>set hs. is_close h)"
  shows "\<exists>c'. wby_response_begin status len hs c = Some (True, c') \<and> answering c' \<and> same_request c c' \<and>
    output_text c' = output_text c @ response_head status len hs (\<not> close \<and> client_closes c) \<and>
    flags c' = flags c \<union> (if close \<or> client_closes c then {CLOSE_AFTER_RESPONSE} else {}) \<union>
      (if len < 0 then {CHUNKED_RESPONSE} else {})"
proof -
  let ?l1 = "''HTTP/1.1 '' @ int_string status @ '' '' @ wby_response_status_text status @ CRLF"
  let ?l2 = "if len \<ge> 0 then ''Content-Length: '' @ int_string len @ CRLF else ''Transfer-Encoding: chunked'' @ CRLF"
  let ?l3 = "''Server: wby'' @ CRLF"
  have short: "length ?l1 < 1024" "length ?l2 < 1024" "length ?l3 < 1024"
    using int_string_length [OF assms(5)] int_string_length [OF assms(6)] status_text_length [of status]
    by (auto simp: CRLF_def)
  obtain c1 where c1: "emit ?l1 c = Some c1" "answering c1" "output_text c1 = output_text c @ ?l1" "flags c1 = flags c" "same_request c c1"
    using emit_answering [OF assms(1,2) short(1)] by blast
  obtain c2 where c2: "emit ?l2 c1 = Some c2" "answering c2" "output_text c2 = output_text c1 @ ?l2" "flags c2 = flags c1" "same_request c1 c2"
    using emit_answering [OF c1(2) _ short(2)] c1(4) assms(2) by auto
  obtain c3 where c3: "emit ?l3 c2 = Some c3" "answering c3" "output_text c3 = output_text c2 @ ?l3" "flags c3 = flags c2" "same_request c2 c3"
    using emit_answering [OF c2(2) _ short(3)] c1(4) c2(4) assms(2) by auto
  obtain c4 where c4: "response_headers hs c3 = Some c4" "answering c4" "output_text c4 = output_text c3 @ concat (map header_line hs)"
      "flags c4 = flags c3 \<union> (if \<exists>h\<in>set hs. is_close h then {CLOSE_AFTER_RESPONSE} else {})" "same_request c3 c4"
    using response_headers_answering [OF c3(2) _ assms(4)] c1(4) c2(4) c3(4) assms(2) by auto
  have req4: "same_request c c4" using c1(5) c2(5) c3(5) c4(5) by (blast intro: same_request_trans)
  have fl4: "flags c4 = flags c \<union> (if \<exists>h\<in>set hs. is_close h then {CLOSE_AFTER_RESPONSE} else {})" using c1(4) c2(4) c3(4) c4(4) by simp
  have close4: "CLOSE_AFTER_RESPONSE \<in> flags c4 \<longleftrightarrow> close" unfolding fl4 close_def by auto
  have chunk4: "CHUNKED_RESPONSE \<notin> flags c4" using fl4 assms(2) by auto
  define step where "step = (if CLOSE_AFTER_RESPONSE \<notin> flags c4
             then case wby_find_header ''Connection'' c4 of
               Some h \<Rightarrow>
                 if strcasecmp_eq ''close'' h
                 then emit (''Connection: close'' @ CRLF) (c4\<lparr>flags := insert CLOSE_AFTER_RESPONSE (flags c4)\<rparr>)
                 else Some c4
             | None \<Rightarrow> Some c4
             else Some c4)"
  let ?w = "\<not> close \<and> client_closes c"
  have "\<exists>c5. step = Some c5 \<and> answering c5 \<and> output_text c5 = output_text c4 @ (if ?w then ''Connection: close'' @ CRLF else []) \<and>
      flags c5 = flags c4 \<union> (if ?w then {CLOSE_AFTER_RESPONSE} else {}) \<and> same_request c4 c5"
  proof (cases ?w)
    case True
    then have "step = emit (''Connection: close'' @ CRLF) (c4\<lparr>flags := insert CLOSE_AFTER_RESPONSE (flags c4)\<rparr>)"
      using close4 same_request_header [OF req4] by (auto simp: step_def client_closes_def split: option.splits)
    then show ?thesis
      using emit_answering [of "c4\<lparr>flags := insert CLOSE_AFTER_RESPONSE (flags c4)\<rparr>" "''Connection: close'' @ CRLF"] True c4(2) chunk4
      by (auto simp: CRLF_def same_request_def)
  next
    case False
    then have "step = Some c4"
      using close4 same_request_header [OF req4] by (auto simp: step_def client_closes_def split: option.splits)
    then show ?thesis using c4(2) unfolding if_not_P [OF False] by simp
  qed
  then obtain c5 where c5: "step = Some c5" "answering c5"
      "output_text c5 = output_text c4 @ (if ?w then ''Connection: close'' @ CRLF else [])"
      "flags c5 = flags c4 \<union> (if ?w then {CLOSE_AFTER_RESPONSE} else {})" "same_request c4 c5" by blast
  obtain c6 where c6: "emit CRLF c5 = Some c6" "answering c6" "output_text c6 = output_text c5 @ CRLF" "flags c6 = flags c5" "same_request c5 c6"
    using emit_answering [OF c5(2), of CRLF] c5(4) chunk4 by (auto simp: CRLF_def split: if_splits)
  let ?c = "if len < 0 then c6\<lparr>flags := insert CHUNKED_RESPONSE (flags c6)\<rparr> else c6"
  have "wby_response_begin status len hs c = Some (True, ?c)"
    using assms(3) c1(1) c2(1) c3(1) c4(1) c5(1) c6(1) unfolding wby_response_begin_def step_def
    by (auto split: if_splits)
  moreover have "same_request c ?c" using req4 c5(5) c6(5) same_request_trans by (auto simp: same_request_def)
  moreover have "output_text ?c = output_text c @ response_head status len hs ?w"
    using c1(3) c2(3) c3(3) c4(3) c5(3) c6(3) by (simp add: response_head_def)
  moreover have "flags ?c = flags c \<union> (if close \<or> client_closes c then {CLOSE_AFTER_RESPONSE} else {}) \<union>
      (if len < 0 then {CHUNKED_RESPONSE} else {})"
    unfolding c6(4) c5(4) fl4 using close_def c6(4) c5(4) fl4 by auto
  moreover have "answering ?c" using c6(2) by simp
  ultimately show ?thesis by blast
qed

section \<open>Chunked bodies\<close>

text \<open>A client's reading of a chunked body (RFC 7230, 4.1, without extensions and trailers).\<close>

definition hex_value :: "char \<Rightarrow> nat" where
  "hex_value ch = (if isdigit ch then of_char ch - 48 else of_char ch - 87)"

definition hex_number :: "string \<Rightarrow> nat" where
  "hex_number s = foldl (\<lambda>n ch. 16 * n + hex_value ch) 0 s"

fun dechunk :: "nat \<Rightarrow> string \<Rightarrow> string option" where
  "dechunk 0 s = None"
| "dechunk (Suc fuel) s =
     (let digits = takeWhile (\<lambda>ch. ch \<noteq> CHR 0x0d) s;
          n = hex_number digits;
          rest = drop (length digits + 2) s
      in if n = 0 then (if rest = CRLF then Some [] else None)
         else if take 2 (drop n rest) = CRLF then map_option (\<lambda>b. take n rest @ b) (dechunk fuel (drop (n + 2) rest))
         else None)"

lemma hex_digit: "d < 16 \<Longrightarrow> hex_value (''0123456789abcdef'' ! d) = d \<and> ''0123456789abcdef'' ! d \<noteq> CHR 0x0d"
proof -
  have "\<forall>d\<in>set [0..<16]. hex_value (''0123456789abcdef'' ! d) = d \<and> ''0123456789abcdef'' ! d \<noteq> CHR 0x0d" by code_simp
  then show "d < 16 \<Longrightarrow> hex_value (''0123456789abcdef'' ! d) = d \<and> ''0123456789abcdef'' ! d \<noteq> CHR 0x0d" by auto
qed

lemma hex_string_value: "hex_number (hex_string n) = n \<and> (\<forall>ch\<in>set (hex_string n). ch \<noteq> CHR 0x0d)"
proof (induction n rule: hex_string.induct)
  case (1 n)
  show ?case
  proof (cases "n < 16")
    case True
    then show ?thesis using hex_digit [of n] by (subst (1 2) hex_string.simps) (simp add: hex_number_def)
  next
    case False
    then show ?thesis using 1 hex_digit [of "n mod 16"] by (subst (1 2) hex_string.simps) (auto simp: hex_number_def)
  qed
qed

lemma dechunk_chunk:
  assumes "s \<noteq> []"
  shows "dechunk (Suc fuel) (chunk s @ rest) = map_option (\<lambda>b. s @ b) (dechunk fuel rest)"
proof -
  have tw: "takeWhile (\<lambda>ch. ch \<noteq> CHR 0x0d) (chunk s @ rest) = hex_string (length s)"
    using hex_string_value [of "length s"] by (simp add: chunk_def CRLF_def takeWhile_append)
  have dr: "drop (length (hex_string (length s)) + 2) (chunk s @ rest) = s @ CRLF @ rest"
    by (simp add: chunk_def CRLF_def)
  show ?thesis using assms hex_string_value [of "length s"]
    unfolding dechunk.simps Let_def tw dr by (simp add: CRLF_def)
qed

lemma dechunk_end: "dechunk (Suc fuel) (''0'' @ CRLF @ CRLF) = Some []"
  by (simp add: CRLF_def hex_number_def hex_value_def isdigit_def)

declare dechunk.simps [simp del]

lemma dechunk_chunks:
  assumes "\<forall>s\<in>set ss. s \<noteq> []" "length ss < fuel"
  shows "dechunk fuel (concat (map chunk ss) @ ''0'' @ CRLF @ CRLF) = Some (concat ss)"
  using assms
proof (induction ss arbitrary: fuel)
  case Nil
  then obtain f where "fuel = Suc f" by (cases fuel) auto
  then show ?case using dechunk_end [of f] by simp
next
  case (Cons s ss)
  then obtain f where f: "fuel = Suc f" by (cases fuel) auto
  then show ?case using Cons.IH [of f] Cons.prems dechunk_chunk [of s f] by simp
qed

text \<open>A sequence of writes of the application.\<close>

fun write_all :: "string list \<Rightarrow> wby_connection \<Rightarrow> wby_connection option" where
  "write_all [] c = Some c"
| "write_all (s # ss) c = do { (_, c) \<leftarrow> wby_write s c; write_all ss c }"

lemma write_all_answering:
  assumes "answering c"
  shows "\<exists>c'. write_all ss c = Some c' \<and> answering c' \<and> flags c' = flags c \<and> same_request c c' \<and>
    output_text c' = output_text c @ concat (map (\<lambda>s. if CHUNKED_RESPONSE \<in> flags c then chunk s else s) ss)"
  using assms
proof (induction ss arbitrary: c)
  case (Cons s ss)
  obtain c1 where c1: "wby_write s c = Some (True, c1)" "answering c1" "flags c1 = flags c" "same_request c c1"
      "output_text c1 = output_text c @ (if CHUNKED_RESPONSE \<in> flags c then chunk s else s)"
    using write_answering [OF Cons.prems, of s] by blast
  then show ?case using Cons.IH [OF c1(2)] by (auto intro: same_request_trans)
qed simp

text \<open>The end of a response: everything is on the wire, and without a request body the connection is closed.\<close>

lemma response_end_text:
  assumes "answering c"
  shows "\<exists>c'. wby_response_end c = Some (if content_length (request c) = 0 then wby_connection_close c' else c') \<and>
    answering c' \<and> same_request c c' \<and> flags c' = flags c - {CHUNKED_RESPONSE} \<and>
    tx (sock c') = output_text c @ (if CHUNKED_RESPONSE \<in> flags c then ''0'' @ CRLF @ CRLF else [])"
proof -
  let ?t = "if CHUNKED_RESPONSE \<in> flags c then ''0'' @ CRLF @ CRLF else []"
  have "\<exists>c1. (if CHUNKED_RESPONSE \<in> flags c
         then do { (_, c) \<leftarrow> wby_connection_push (''0'' @ CRLF @ CRLF) c; Some (c\<lparr>flags := flags c - {CHUNKED_RESPONSE}\<rparr>) }
         else Some c) = Some c1 \<and> answering c1 \<and> same_request c c1 \<and> flags c1 = flags c - {CHUNKED_RESPONSE} \<and> output_text c1 = output_text c @ ?t"
  proof (cases "CHUNKED_RESPONSE \<in> flags c")
    case True
    then show ?thesis using push_answering [OF assms, of "''0'' @ CRLF @ CRLF"] by (auto simp: answering_def)
  next
    case False
    then show ?thesis using assms by simp
  qed
  then obtain c1 where c1: "(if CHUNKED_RESPONSE \<in> flags c
         then do { (_, c) \<leftarrow> wby_connection_push (''0'' @ CRLF @ CRLF) c; Some (c\<lparr>flags := flags c - {CHUNKED_RESPONSE}\<rparr>) }
         else Some c) = Some c1" "answering c1" "same_request c c1" "flags c1 = flags c - {CHUNKED_RESPONSE}" "output_text c1 = output_text c @ ?t"
    by blast
  obtain c2 where c2: "wby_connection_push [] c1 = Some (True, c2)" "answering c2" "output_text c2 = output_text c1"
      "flags c2 = flags c1" "same_request c1 c2" "pending (io_buf c2) = []"
    using push_answering [OF c1(2), of "[]"] by auto
  have "tx (sock c2) = output_text c @ ?t" using c1(5) c2(3,6) by (simp add: output_text_def)
  moreover have "request c2 = request c" using c1(3) c2(5) by (simp add: same_request_def)
  ultimately show ?thesis using c1 c2 same_request_trans [OF c1(3) c2(5)]
    unfolding wby_response_end_def by (intro exI [of _ c2]) (simp del: append_assoc)
qed

lemma begin_no_close:
  assumes "answering c" "CHUNKED_RESPONSE \<notin> flags c" "content_length (request c) \<le> body_bytes_read c" "\<not> client_closes c"
    and "\<forall>h\<in>set hs. length (header_line h) < 1024" "\<bar>status\<bar> < 10 ^ 10" "\<bar>len\<bar> < 10 ^ 10"
  shows "\<exists>c'. wby_response_begin status len hs c = Some (True, c') \<and> answering c' \<and> same_request c c' \<and>
    output_text c' = output_text c @ response_head status len hs False \<and> (CHUNKED_RESPONSE \<in> flags c' \<longleftrightarrow> len < 0)"
  using response_begin_text [OF assms(1-3,5-7)] assms(2,4) by auto


lemma sample_answering:
  "answering sample_connection" "CHUNKED_RESPONSE \<notin> flags sample_connection"
  "content_length (request sample_connection) \<le> body_bytes_read sample_connection" "output_text sample_connection = []"
  "\<not> client_closes sample_connection" "content_length (request sample_connection) = 0"
  by (simp_all add: sample_connection_def answering_def buf_ok_def reliable_def output_text_def pending_def
      client_closes_def wby_find_header_def)


section \<open>The upgrade to a web socket\<close>

lemma websocket_request_keeps:
  assumes "wby_con_is_websocket_request c"
  shows "\<not> client_closes c"
proof -
  obtain h where h: "wby_find_header ''Connection'' c = Some h" "map tolower h = map tolower ''Upgrade''"
    using assms by (auto simp: wby_con_is_websocket_request_def strcasecmp_eq_def split: option.splits if_splits)
  have "map tolower ''close'' \<noteq> map tolower ''Upgrade''" by code_simp
  then show ?thesis using h by (simp add: client_closes_def strcasecmp_eq_def)
qed

lemma length_sha1: "length (sha1 m) = 20"
  by (simp add: sha1_def be_bytes_def split: prod.split)

text \<open>The digest of the handshake.\<close>

lemma upgrade_digest:
  assumes "length (sha1_buffer sha) = 64" "length k < 2 ^ 29" "length g < 2 ^ 29"
  shows "\<exists>s1 s2 s3. wby_sha1_update (wby_sha1_init sha) k = Some s1 \<and> wby_sha1_update s1 g = Some s2 \<and>
    wby_sha1_final s2 = Some (sha1 (k @ g), s3)"
proof -
  obtain s2 where s2: "sha1_updates [k, g] (wby_sha1_init sha) = Some s2" "sha1_holds s2 (k @ g)"
      "msg_size s2 = msg_size (wby_sha1_init sha) + of_nat (8 * length (k @ g))"
    using sha1_updates_holds [OF sha1_init_holds [OF assms(1)], of "[k, g]"] assms(2,3) by auto
  have "msg_size (wby_sha1_init sha) = 0" by (simp add: msg_size_def wby_sha1_init_def)
  moreover have "8 * length (k @ g) < 2 ^ 64" using assms(2,3) by simp
  ultimately obtain s3 where "wby_sha1_final s2 = Some (sha1 (k @ g), s3)"
    using sha1_final_correct [OF s2(2)] s2(3) by auto
  then show ?thesis using s2(1) by (auto simp: bind_eq_Some_conv)
qed

text \<open>
  The web socket handshake answers with the accept value that RFC 6455 demands (the base64 text of
  the SHA-1 digest of key and GUID) and reports success; but a request without a body, which every upgrade
  request is, has content length 0, and so the end of the response has already closed the socket and cleared
  all flags: the upgraded connection is dead.
\<close>

theorem websocket_upgrade_dead:
  assumes "answering c" "CHUNKED_RESPONSE \<notin> flags c" "content_length (request c) = 0" "body_bytes_read c = 0"
    and "wby_con_is_websocket_request c" "wby_find_header ''Sec-WebSocket-Version'' c = Some ''13''"
    and "wby_find_header ''Sec-WebSocket-Key'' c = Some key" "length key < 2 ^ 29"
    and "length (sha1_buffer sha) = 64" "length output_digest = 64"
  shows "\<exists>c' accept. wby_connection_send_websocket_upgrade sha output_digest c = Some (True, c') \<and>
    base64_decode (no_breaks accept) = sha1 (map byte_of (key @ wby_websocket_guid)) \<and>
    tx (sock c') = output_text c @ response_head 101 0
      [(''Upgrade'', ''websocket''), (''Connection'', ''Upgrade''), (''Sec-WebSocket-Accept'', accept)] False \<and>
    \<not> open_sock (sock c') \<and> flags c' = {}"
proof -
  let ?d = "sha1 (map byte_of key @ map byte_of wby_websocket_guid)"
  have "length (map byte_of key) < 2 ^ 29" "length (map byte_of wby_websocket_guid) < 2 ^ 29"
    using assms(8) by (simp_all add: wby_websocket_guid_def)
  then obtain s1 s2 s3 where s: "wby_sha1_update (wby_sha1_init sha) (map byte_of key) = Some s1"
      "wby_sha1_update s1 (map byte_of wby_websocket_guid) = Some s2" "wby_sha1_final s2 = Some (?d, s3)"
    using upgrade_digest [OF assms(9)] by blast
  have size: "wby_base64_bufsize (length ?d) = 29"
    by (simp add: length_sha1 wby_base64_bufsize_def BASE64_QUADS_BEFORE_LINEBREAK_def)
  obtain out where out: "wby_base64_encode output_digest ?d = Some (0, out)" "length (cstr out) < 29"
      "base64_decode (no_breaks (cstr out)) = ?d"
    using base64_encode_fits [of ?d output_digest] size assms(10) by auto
  let ?hs = "[(''Upgrade'', ''websocket''), (''Connection'', ''Upgrade''), (''Sec-WebSocket-Accept'', cstr out)]"
  have "\<forall>h\<in>set ?hs. length (header_line h) < 1024" using out(2) by (simp add: header_line_def CRLF_def)
  then obtain c1 where c1: "wby_response_begin 101 0 ?hs c = Some (True, c1)" "answering c1" "same_request c c1"
      "output_text c1 = output_text c @ response_head 101 0 ?hs False" "CHUNKED_RESPONSE \<notin> flags c1"
    using begin_no_close [OF assms(1,2) _ websocket_request_keeps [OF assms(5)], of ?hs 101 0] assms(3,4) by auto
  obtain c2 where c2: "wby_response_end c1 = Some (wby_connection_close c2)" "tx (sock c2) = output_text c1"
    using response_end_text [OF c1(2)] c1(3,5) assms(3) by (auto simp: same_request_def)
  have "wby_connection_send_websocket_upgrade sha output_digest c = Some (True, wby_connection_close c2)"
    using assms(6,7) s out(1) c1(1) c2(1)
    by (simp add: wby_connection_send_websocket_upgrade_def WBY_WEBSOCKET_VERSION_def)
  then show ?thesis using out(3) c1(4) c2(2)
    by (intro exI [of _ "wby_connection_close c2"] exI [of _ "cstr out"])
       (simp add: wby_connection_close_def wby_socket_close_def)
qed

text \<open>A connection whose request is an upgrade with the key of RFC 6455, 1.3.\<close>

definition sample_upgrade :: wby_connection where
  "sample_upgrade =
     (let hdr = concat (map (\<lambda>s. s @ [nul]) [''Connection'', ''Upgrade'', ''Upgrade'', ''websocket'', ''Sec-WebSocket-Version'', ''13'',
            ''Sec-WebSocket-Key'', ''dGhlIHNhbXBsZSBub25jZQ=='']) in
      sample_connection\<lparr>header_buf := \<lparr>used = length hdr, max_size = length hdr, buf_data = hdr\<rparr>,
        request := (request sample_connection)\<lparr>req_headers := [(0, 11), (19, 27), (37, 59), (62, 80)]\<rparr>\<rparr>)"

lemma sample_upgrade_facts:
  "answering sample_upgrade" "CHUNKED_RESPONSE \<notin> flags sample_upgrade" "content_length (request sample_upgrade) = 0"
  "body_bytes_read sample_upgrade = 0" "wby_con_is_websocket_request sample_upgrade"
  "wby_find_header ''Sec-WebSocket-Version'' sample_upgrade = Some ''13''"
  "wby_find_header ''Sec-WebSocket-Key'' sample_upgrade = Some ''dGhlIHNhbXBsZSBub25jZQ==''"
  "output_text sample_upgrade = []"
  by code_simp+

theorem websocket_upgrade_dead_witness:
  "\<exists>c' accept. wby_connection_send_websocket_upgrade
       \<lparr>sha1_state = (0, 0, 0, 0, 0), msg_size_hi = 0, msg_size_lo = 0, buf_used = 0, sha1_buffer = replicate 64 0\<rparr>
       (replicate 64 nul) sample_upgrade = Some (True, c') \<and> \<not> open_sock (sock c') \<and> flags c' = {} \<and>
     base64_decode (no_breaks accept) = sha1 (map byte_of (''dGhlIHNhbXBsZSBub25jZQ=='' @ wby_websocket_guid))"
proof -
  let ?sha = "\<lparr>sha1_state = (0, 0, 0, 0, 0), msg_size_hi = 0, msg_size_lo = 0, buf_used = 0, sha1_buffer = replicate 64 0\<rparr>"
  have "length (sha1_buffer ?sha) = 64" "length (replicate 64 nul) = 64" "length ''dGhlIHNhbXBsZSBub25jZQ=='' < 2 ^ 29" by simp_all
  then show ?thesis using websocket_upgrade_dead [OF sample_upgrade_facts(1-7), of ?sha "replicate 64 nul"] by blast
qed

end
