(* ===== verification/Mumux_Server.thy ===== *)
theory Mumux_Server
  imports Mumux_Request
begin

text \<open>
  \<open>mumux/server.c\<close>: the state machine of a connection and the server loop. The callbacks of the
  application are functions of the configuration. What the kernel delivers (accepted sockets, the
  ready sets of \<open>select\<close>) is an argument. The slots of the connection array carry the addresses of
  their two buffers, because the array is compacted by moving slots.
\<close>

section \<open>Configuration and memory\<close>

record wby_config =
  connection_max :: nat
  request_buffer_size :: nat
  io_buffer_size :: nat
  dispatch :: "wby_connection \<Rightarrow> (int \<times> wby_connection) option"
  ws_connect :: "(wby_connection \<Rightarrow> (int \<times> wby_connection) option) option"
  ws_connected :: "wby_connection \<Rightarrow> wby_connection option"
  ws_closed :: "wby_connection \<Rightarrow> wby_connection option"
  ws_frame_cb :: "wby_connection \<Rightarrow> (int \<times> wby_connection) option"

record slot =
  conn :: wby_connection
  header_addr :: nat
  io_addr :: nat

record wby_server =
  config :: wby_config
  memory_size :: nat
  listening :: bool
  con_count :: nat
  cons :: "slot list"

text \<open>\<open>con_size\<close> and \<open>align\<close> are the size and the alignment of \<open>struct wby_connection\<close>.\<close>

definition wby_init :: "nat \<Rightarrow> nat \<Rightarrow> wby_config \<Rightarrow> wby_server \<times> nat" where
  "wby_init con_size align cfg =
     (let needed_memory = connection_max cfg * con_size + connection_max cfg * request_buffer_size cfg +
            connection_max cfg * io_buffer_size cfg + align
      in (\<lparr>config = cfg, memory_size = needed_memory, listening = False, con_count = 0, cons = []\<rparr>, needed_memory))"

definition WBY_ALIGN_PTR :: "nat \<Rightarrow> nat \<Rightarrow> nat" where
  "WBY_ALIGN_PTR x align = nat ((int x + (int align - 1)) AND NOT (int align - 1))"

fun layout :: "nat \<Rightarrow> nat \<Rightarrow> nat \<Rightarrow> nat \<Rightarrow> (nat \<times> nat) list" where
  "layout 0 buffer rsize iosize = []"
| "layout (Suc n) buffer rsize iosize = (buffer, buffer + rsize) # layout n (buffer + rsize + iosize) rsize iosize"

definition zero_frame :: wby_frame where
  "zero_frame = \<lparr>frame_flags = 0, frame_opcode = 0, header_size = 0, mask_key = [0, 0, 0, 0], payload_length = 0\<rparr>"

definition zero_connection :: "nat \<Rightarrow> nat \<Rightarrow> wby_connection" where
  "zero_connection rsize iosize =
     \<lparr>request = \<lparr>req_method = 0, req_uri = 0, req_version = 0, query_params = None, content_length = 0, req_headers = []\<rparr>,
      flags = {}, con_state = ST_REQUEST,
      sock = \<lparr>rx = [], tx = [], send_results = [], fcntl_results = [], nonblock = False, open_sock = False\<rparr>,
      header_buf = \<lparr>used = 0, max_size = 0, buf_data = replicate rsize nul\<rparr>,
      io_buf = \<lparr>used = 0, max_size = 0, buf_data = replicate iosize nul\<rparr>,
      header_body_left = 0, io_data_left = 0, continue_data_left = 0, body_bytes_read = 0, ws_frame = zero_frame,
      ws_opcode = 0, blocking_count = 0\<rparr>"

text \<open>
  \<open>wby_start\<close>: every slot is cleared and gets its buffers; then the outcomes of \<open>socket\<close>,
  \<open>wby_socket_set_blocking\<close>, \<open>bind\<close> and \<open>listen\<close>. The result holds how often the new socket was closed.
\<close>

record start_calls =
  socket_valid :: bool
  set_blocking_ok :: bool
  bind_ok :: bool
  listen_ok :: bool

definition wby_start :: "nat \<Rightarrow> nat \<Rightarrow> nat \<Rightarrow> start_calls \<Rightarrow> wby_server \<Rightarrow> int \<times> nat \<times> wby_server" where
  "wby_start con_size align memory calls srv =
     (let cfg = config srv;
          con_base = WBY_ALIGN_PTR memory align;
          buffer = con_base + connection_max cfg * con_size;
          srv = srv\<lparr>listening := False,
            cons := map (\<lambda>(h, io). \<lparr>conn = zero_connection (request_buffer_size cfg) (io_buffer_size cfg), header_addr = h, io_addr = io\<rparr>)
              (layout (connection_max cfg) buffer (request_buffer_size cfg) (io_buffer_size cfg))\<rparr>
      in if \<not> socket_valid calls then (- 1, 0, srv)
         else if \<not> set_blocking_ok calls then (- 1, 1, srv)
         else if \<not> bind_ok calls then (- 1, 1, srv)
         else if \<not> listen_ok calls then (- 1, 2, srv)
         else (0, 0, srv\<lparr>listening := True\<rparr>))"

section \<open>The state machine of a connection\<close>

definition wby_continue_header :: string where
  "wby_continue_header = ''HTTP/1.1 100 Continue'' @ CRLF @ CRLF"

text \<open>
  One pass of the loop of \<open>wby_update_connection\<close>, per state: whether the loop goes on, and the
  connection.
\<close>

definition step_request :: "wby_connection \<Rightarrow> (bool \<times> wby_connection) option" where
  "step_request c = do {
     (result, buf, n) \<leftarrow> wby_socket_recv (header_buf c) (sock c);
     let c = c\<lparr>header_buf := buf, sock := n\<rparr>;
     if result = WBY_FILL_ERROR then Some (False, kill c)
     else case wb_peek_request_size (pending buf) of
       None \<Rightarrow> Some (False, if max_size buf = used buf then kill c else c)
     | Some request_size \<Rightarrow> do {
         (ok, c) \<leftarrow> wby_connection_setup_request request_size c;
         if \<not> ok then Some (False, kill c)
         else
           let c = c\<lparr>header_body_left := int (used (header_buf c)) - int request_size\<rparr> in
           case wby_find_header ''Expect'' c of
             Some h \<Rightarrow>
               Some (True, if strcasecmp_eq h ''100-continue''
                 then c\<lparr>continue_data_left := length wby_continue_header, con_state := ST_SEND_CONTINUE\<rparr>
                 else c\<lparr>con_state := ST_SERVE\<rparr>)
           | None \<Rightarrow> Some (True, c\<lparr>con_state := ST_SERVE\<rparr>)
       }
   }"

definition step_send_continue :: "wby_connection \<Rightarrow> (bool \<times> wby_connection) option" where
  "step_send_continue c =
     (let left = continue_data_left c;
          offset = length wby_continue_header - left
      in case sock_send (take left (drop offset wby_continue_header)) (sock c) of
        (written, n) \<Rightarrow>
          if written < 0 then Some (False, kill (c\<lparr>sock := n\<rparr>))
          else
            let left = left - nat written; c = c\<lparr>sock := n, continue_data_left := left\<rparr>
            in Some (True, if left = 0 then c\<lparr>con_state := ST_SERVE\<rparr> else c))"

definition plain_text_headers :: "(string \<times> string) list" where
  "plain_text_headers = [(''Content-Type'', ''text/plain'')]"

definition short_response :: "int \<Rightarrow> (string \<times> string) list \<Rightarrow> string \<Rightarrow> wby_connection \<Rightarrow> wby_connection option" where
  "short_response status headers text c = do {
     (_, c) \<leftarrow> wby_response_begin status (- 1) headers c;
     c \<leftarrow> emit text c;
     wby_response_end c
   }"

definition serve_request :: "wby_config \<Rightarrow> wby_sha1 \<times> char list \<Rightarrow> wby_connection \<Rightarrow> wby_connection option" where
  "serve_request cfg locals c =
     (if wby_con_is_websocket_request c then do {
        (err, c) \<leftarrow> (case ws_connect cfg of None \<Rightarrow> Some (1, c) | Some f \<Rightarrow> f c);
        if err \<noteq> 0
        then short_response 400 plain_text_headers (''WebSockets not supported at '' @ header_text c (req_uri (request c)) @ CRLF) c
        else do {
          (ok, c) \<leftarrow> wby_connection_send_websocket_upgrade (fst locals) (snd locals) c;
          if \<not> ok then short_response 400 plain_text_headers (''WebSockets couldn'' @ [CHR 0x27] @ ''t not be enabled'' @ CRLF) c
          else ws_connected cfg (c\<lparr>flags := insert WEBSOCKET (flags c)\<rparr>)
        }
      }
      else do {
        (err, c) \<leftarrow> dispatch cfg c;
        if err \<noteq> 0
        then short_response 404 [(''Content-Type'', ''text/html'')]
          (''<h1>404 Not Found</h1><hr />Request: '' @ header_text c (req_uri (request c)) @ CRLF) c
        else Some c
      })"

definition step_serve :: "wby_config \<Rightarrow> wby_sha1 \<times> char list \<Rightarrow> wby_connection \<Rightarrow> (bool \<times> wby_connection) option" where
  "step_serve cfg locals c =
     (case wby_connection_set_blocking (c\<lparr>io_buf := (io_buf c)\<lparr>used := 0\<rparr>\<rparr>) of
        (ok, c) \<Rightarrow>
          if \<not> ok then Some (False, c)
          else do {
            c \<leftarrow> serve_request cfg locals c;
            let c = snd (wby_connection_set_nonblocking c);
            if ALIVE \<in> flags c then
              if CLOSE_AFTER_RESPONSE \<in> flags c then Some (False, kill c)
              else
                let c = wby_connection_reset (request_buffer_size cfg) (io_buffer_size cfg) c
                in Some (True, if WEBSOCKET \<notin> flags c then c\<lparr>con_state := ST_REQUEST\<rparr>
                     else c\<lparr>io_buf := (io_buf c)\<lparr>used := 0\<rparr>, con_state := ST_WEBSOCKET\<rparr>)
            else Some (True, c)
          })"

definition WBY_WSOP_CLOSE :: byte where "WBY_WSOP_CLOSE = 8"
definition WBY_WSOP_PING :: byte where "WBY_WSOP_PING = 9"

text \<open>The handling of a frame: \<open>False\<close> means that the connection is given up.\<close>

definition handle_frame :: "wby_config \<Rightarrow> wby_connection \<Rightarrow> (bool \<times> wby_connection) option" where
  "handle_frame cfg c =
     (if frame_opcode (ws_frame c) = WBY_WSOP_CLOSE then Some (False, kill c)
      else if frame_opcode (ws_frame c) = WBY_WSOP_PING
      then case wby_socket_send (map char_of_byte wby_websocket_pong) (sock c) of
        (ok, n) \<Rightarrow> Some (ok, if ok then c\<lparr>sock := n\<rparr> else kill (c\<lparr>sock := n\<rparr>))
      else do { (err, c) \<leftarrow> ws_frame_cb cfg c; Some (err = 0, if err = 0 then c else kill c) })"

definition step_websocket :: "wby_config \<Rightarrow> wby_connection \<Rightarrow> (bool \<times> wby_connection) option" where
  "step_websocket cfg c = do {
     (result, buf, n) \<leftarrow> wby_socket_recv (io_buf c) (sock c);
     let c = c\<lparr>io_buf := buf, sock := n\<rparr>;
     if result = WBY_FILL_ERROR then Some (False, kill c)
     else case wby_scan_websocket_frame (ws_frame c) (map byte_of (pending buf)) of
       None \<Rightarrow> Some (False, c)
     | Some frame \<Rightarrow>
         let c = c\<lparr>ws_frame := frame, body_bytes_read := 0, io_data_left := int (used buf) - int (header_size frame)\<rparr> in
         case wby_connection_set_blocking c of
           (ok, c) \<Rightarrow>
             if \<not> ok then Some (False, c)
             else do {
               (ok, c) \<leftarrow> handle_frame cfg c;
               if \<not> ok then Some (False, c)
               else do {
                 (ok, c) \<leftarrow> (if body_bytes_read c < sint (payload_length (ws_frame c))
                   then wby_con_discard_incoming_data (sint (payload_length (ws_frame c)) - body_bytes_read c) c
                   else Some (True, c));
                 if \<not> ok then Some (False, kill c)
                 else case wby_connection_set_nonblocking c of
                   (ok, c) \<Rightarrow>
                     if \<not> ok then Some (False, c)
                     else Some (True, (wby_connection_reset (request_buffer_size cfg) (io_buffer_size cfg) c)\<lparr>con_state := ST_WEBSOCKET\<rparr>)
               }
             }
   }"

definition connection_step :: "wby_config \<Rightarrow> wby_sha1 \<times> char list \<Rightarrow> wby_connection \<Rightarrow> (bool \<times> wby_connection) option" where
  "connection_step cfg locals c =
     (case con_state c of
        ST_REQUEST \<Rightarrow> step_request c
      | ST_SEND_CONTINUE \<Rightarrow> step_send_continue c
      | ST_SERVE \<Rightarrow> step_serve cfg locals c
      | ST_WEBSOCKET \<Rightarrow> step_websocket cfg c)"

partial_function (option) connection_loop :: "wby_config \<Rightarrow> wby_sha1 \<times> char list \<Rightarrow> wby_connection \<Rightarrow> wby_connection option" where
  "connection_loop cfg locals c = do {
     (go_on, c) \<leftarrow> connection_step cfg locals c;
     if go_on then connection_loop cfg locals c else Some c
   }"

definition wby_update_connection :: "wby_config \<Rightarrow> wby_sha1 \<times> char list \<Rightarrow> wby_connection \<Rightarrow> wby_connection option" where
  "wby_update_connection cfg locals c = connection_loop cfg locals (c\<lparr>flags := flags c - {FRESH_CONNECTION}\<rparr>)"


section \<open>The server loop\<close>

text \<open>
  \<open>wby_on_incoming\<close>: \<open>accepts\<close> are the results of the coming \<open>accept\<close> calls (\<open>None\<close>: an invalid socket;
  exhausted: nobody is waiting). The slot is counted before the socket is configured.
\<close>

definition wby_on_incoming :: "net option list \<Rightarrow> wby_server \<Rightarrow> (bool \<times> net option list \<times> wby_server) option" where
  "wby_on_incoming accepts srv =
     (let connection_index = con_count srv; cfg = config srv in
      if connection_index = connection_max cfg then Some (False, accepts, srv)
      else case accepts of
        [] \<Rightarrow> Some (False, [], srv)
      | None # as \<Rightarrow> Some (False, as, srv)
      | Some fd # as \<Rightarrow> do {
          slot \<leftarrow> peek (cons srv) connection_index;
          let c = (wby_connection_reset (request_buffer_size cfg) (io_buffer_size cfg) (conn slot))\<lparr>flags := {FRESH_CONNECTION}\<rparr>;
          let put = (\<lambda>c. srv\<lparr>con_count := connection_index + 1, cons := (cons srv)[connection_index := slot\<lparr>conn := c\<rparr>]\<rparr>);
          (case wby_socket_config_incoming fd of
             (ok, fd) \<Rightarrow>
               if \<not> ok then Some (False, as, put c)
               else Some (True, as, put (c\<lparr>flags := insert ALIVE (flags c), sock := fd\<rparr>)))
        })"

lemma on_incoming_progress:
  assumes "wby_on_incoming accepts srv = Some (True, accepts', srv')"
  shows "\<exists>fd. accepts = Some fd # accepts'"
proof (cases accepts)
  case (Cons a as)
  then show ?thesis
  proof (cases a)
    case (Some fd)
    obtain ok fd' where "wby_socket_config_incoming fd = (ok, fd')" by fastforce
    then show ?thesis using assms Cons Some
      by (auto simp: wby_on_incoming_def Let_def bind_eq_Some_conv split: if_splits)
  qed (use assms in \<open>auto simp: wby_on_incoming_def Let_def split: if_splits\<close>)
qed (use assms in \<open>auto simp: wby_on_incoming_def Let_def split: if_splits\<close>)

text \<open>The accept loop of \<open>wby_update\<close>; every success takes one waiting socket.\<close>

function accept_loop :: "net option list \<Rightarrow> wby_server \<Rightarrow> wby_server option" where
  "accept_loop accepts srv =
     (case wby_on_incoming accepts srv of
        None \<Rightarrow> None
      | Some (ok, accepts', srv') \<Rightarrow> if ok then accept_loop accepts' srv' else Some srv')"
  by pat_completeness auto
termination
proof (relation "measure (\<lambda>(accepts, _). length accepts)", goal_cases)
  case (2 accepts srv a ok accepts' r srv')
  then show ?case using on_incoming_progress [of accepts srv] by fastforce
qed simp

declare accept_loop.simps [simp del]

fun update_slots :: "wby_sha1 \<times> char list \<Rightarrow> (nat \<Rightarrow> bool) \<Rightarrow> wby_config \<Rightarrow> nat \<Rightarrow> slot list \<Rightarrow> slot list option" where
  "update_slots locals ready cfg i [] = Some []"
| "update_slots locals ready cfg i (s # ss) = do {
     c \<leftarrow> (if ready i \<or> FRESH_CONNECTION \<in> flags (conn s) then wby_update_connection cfg locals (conn s) else Some (conn s));
     ss \<leftarrow> update_slots locals ready cfg (i + 1) ss;
     Some (s\<lparr>conn := c\<rparr> # ss)
   }"

text \<open>
  Closing stale connections and compacting the array: \<open>memmove\<close> shifts the later slots down, so
  that the last slot in use stays behind as a copy of its predecessor.
\<close>

function compact_loop :: "wby_config \<Rightarrow> nat \<Rightarrow> nat \<Rightarrow> slot list \<Rightarrow> (nat \<times> slot list) option" where
  "compact_loop cfg i count slots =
     (if i < count then
        case peek slots i of
          None \<Rightarrow> None
        | Some s \<Rightarrow>
            if ALIVE \<notin> flags (conn s) then
              case (if WEBSOCKET \<in> flags (conn s) then ws_closed cfg (conn s) else Some (conn s)) of
                None \<Rightarrow> None
              | Some c \<Rightarrow>
                  let slots = slots[i := s\<lparr>conn := wby_connection_close c\<rparr>] in
                  if length slots < count then None
                  else compact_loop cfg i (count - 1) (take i slots @ drop (i + 1) (take count slots) @ drop (count - 1) slots)
            else compact_loop cfg (i + 1) count slots
      else Some (count, slots))"
  by pat_completeness auto
termination by (relation "measure (\<lambda>(cfg, i, count, slots). count - i)") auto

declare compact_loop.simps [simp del]

text \<open>\<open>select\<close> reports an error, whether somebody is waiting, and which connections are ready.\<close>

definition wby_update ::
  "wby_sha1 \<times> char list \<Rightarrow> bool \<Rightarrow> bool \<Rightarrow> (nat \<Rightarrow> bool) \<Rightarrow> net option list \<Rightarrow> wby_server \<Rightarrow> wby_server option" where
  "wby_update locals select_ok incoming ready accepts srv =
     (if \<not> select_ok then Some srv
      else do {
        srv \<leftarrow> (if incoming \<and> con_count srv < connection_max (config srv) then accept_loop accepts srv else Some srv);
        active \<leftarrow> update_slots locals ready (config srv) 0 (take (con_count srv) (cons srv));
        (count, slots) \<leftarrow> compact_loop (config srv) 0 (con_count srv) (active @ drop (con_count srv) (cons srv));
        Some (srv\<lparr>con_count := count, cons := slots\<rparr>)
      })"

definition wby_stop :: "wby_server \<Rightarrow> wby_server" where
  "wby_stop srv = srv\<lparr>listening := False,
     cons := map (\<lambda>s. s\<lparr>conn := (conn s)\<lparr>sock := wby_socket_close (sock (conn s))\<rparr>\<rparr>) (take (con_count srv) (cons srv)) @
     drop (con_count srv) (cons srv)\<rparr>"

section \<open>The memory of the server\<close>

lemma layout_nth:
  "i < n \<Longrightarrow> layout n buffer r io ! i = (buffer + i * (r + io), buffer + i * (r + io) + r)"
  by (induction n arbitrary: buffer i) (auto simp: nth_Cons algebra_simps split: nat.split)

lemma length_layout [simp]: "length (layout n buffer r io) = n"
  by (induction n arbitrary: buffer) auto

lemma align_ptr:
  assumes "align = 2 ^ k"
  shows "WBY_ALIGN_PTR x align = (x + (align - 1)) div align * align"
proof -
  let ?y = "x + (2 ^ k - 1) :: nat"
  have "int ?y AND NOT (mask k) = int (?y div 2 ^ k * 2 ^ k)"
  proof -
    have "int ?y AND NOT (mask k) = push_bit k (drop_bit k (int ?y))"
      by (rule bit_eqI) (auto simp: bit_simps)
    then show ?thesis by (simp add: push_bit_eq_mult drop_bit_eq_div of_nat_div)
  qed
  moreover have "int x + (int (2 ^ k) - 1) = int ?y" by (simp only: of_nat_add of_nat_diff [OF one_le_power [of "2 :: nat" k]])
  moreover have "int (2 ^ k) - 1 = mask k" by (simp add: mask_eq_exp_minus_1)
  ultimately show ?thesis unfolding WBY_ALIGN_PTR_def assms by (simp only: nat_int)
qed

lemma round_up:
  fixes x a :: nat
  assumes "0 < a"
  shows "x \<le> (x + (a - 1)) div a * a" "(x + (a - 1)) div a * a < x + a"
  using assms div_mult_mod_eq [of "x + (a - 1)" a] mod_less_divisor [OF assms, of "x + (a - 1)"] by linarith+

text \<open>
  Every byte of the server's memory has one owner: for a power of two as the alignment, the array of
  connections starts aligned inside the memory that \<open>wby_init\<close> asked for, the buffers follow behind it, no
  two of them overlap, and the last one ends within the memory.
\<close>

theorem wby_start_layout:
  assumes "align = 2 ^ k" "wby_init con_size align cfg = (srv, needed)"
    and "wby_start con_size align memory calls srv = (result, closes, srv')"
  shows "length (cons srv') = connection_max cfg \<and> align dvd WBY_ALIGN_PTR memory align \<and> memory \<le> WBY_ALIGN_PTR memory align \<and>
    (\<forall>i<connection_max cfg. WBY_ALIGN_PTR memory align + connection_max cfg * con_size \<le> header_addr (cons srv' ! i) \<and>
       header_addr (cons srv' ! i) + request_buffer_size cfg \<le> io_addr (cons srv' ! i) \<and>
       io_addr (cons srv' ! i) + io_buffer_size cfg \<le> memory + needed) \<and>
    (\<forall>i<connection_max cfg. \<forall>j<i. io_addr (cons srv' ! j) + io_buffer_size cfg \<le> header_addr (cons srv' ! i))"
proof -
  let ?n = "connection_max cfg" and ?r = "request_buffer_size cfg" and ?io = "io_buffer_size cfg"
  let ?base = "WBY_ALIGN_PTR memory align"
  let ?b = "?base + ?n * con_size"
  have srv: "config srv = cfg" "needed = ?n * con_size + ?n * ?r + ?n * ?io + align"
    using assms(2) by (auto simp: wby_init_def Let_def)
  have cons: "cons srv' = map (\<lambda>(h, io). \<lparr>conn = zero_connection ?r ?io, header_addr = h, io_addr = io\<rparr>) (layout ?n ?b ?r ?io)"
    using assms(3) srv(1) by (auto simp: wby_start_def Let_def split: if_splits)
  have at: "header_addr (cons srv' ! i) = ?b + i * (?r + ?io)" "io_addr (cons srv' ! i) = ?b + i * (?r + ?io) + ?r" if "i < ?n" for i
    using that by (simp_all add: cons layout_nth)
  have pos: "0 < align" using assms(1) by simp
  have base: "memory \<le> ?base" "?base < memory + align" "align dvd ?base"
    unfolding align_ptr [OF assms(1)] by (simp_all only: round_up [OF pos] dvd_triv_right)
  have step: "j * (?r + ?io) + ?r + ?io \<le> i * (?r + ?io)" if "j < i" for i j
  proof -
    have "Suc j * (?r + ?io) \<le> i * (?r + ?io)" using that by (intro mult_le_mono1) simp
    then show ?thesis by simp
  qed
  have "?b + i * (?r + ?io) + ?r + ?io \<le> memory + needed" if "i < ?n" for i
    using step [OF that] base(2) srv(2) by (simp add: algebra_simps)
  then have "\<forall>i<?n. ?b \<le> header_addr (cons srv' ! i) \<and> header_addr (cons srv' ! i) + ?r \<le> io_addr (cons srv' ! i) \<and>
      io_addr (cons srv' ! i) + ?io \<le> memory + needed" using at by auto
  moreover have "\<forall>i<?n. \<forall>j<i. io_addr (cons srv' ! j) + ?io \<le> header_addr (cons srv' ! i)" using at step by fastforce
  ultimately show ?thesis using base cons by simp
qed

text \<open>A configuration for examples: two connections, an application that answers nothing.\<close>

definition sample_config :: wby_config where
  "sample_config = \<lparr>connection_max = 2, request_buffer_size = 64, io_buffer_size = 16, dispatch = (\<lambda>c. Some (0, c)),
     ws_connect = None, ws_connected = Some, ws_closed = Some, ws_frame_cb = (\<lambda>c. Some (0, c))\<rparr>"

definition sample_locals :: "wby_sha1 \<times> char list" where
  "sample_locals = (\<lparr>sha1_state = (0, 0, 0, 0, 0), msg_size_hi = 0, msg_size_lo = 0, buf_used = 0, sha1_buffer = replicate 64 0\<rparr>,
     replicate 64 nul)"

theorem wby_start_layout_witness:
  "\<exists>srv'. wby_start 600 8 1001 \<lparr>socket_valid = True, set_blocking_ok = True, bind_ok = True, listen_ok = True\<rparr>
       (fst (wby_init 600 8 sample_config)) = (0, 0, srv') \<and> length (cons srv') = 2 \<and>
     io_addr (cons srv' ! 0) + 16 \<le> header_addr (cons srv' ! 1) \<and> io_addr (cons srv' ! 1) + 16 \<le> 1001 + 1368"
proof -
  let ?calls = "\<lparr>socket_valid = True, set_blocking_ok = True, bind_ok = True, listen_ok = True\<rparr>"
  obtain r c srv' where w: "wby_start 600 8 1001 ?calls (fst (wby_init 600 8 sample_config)) = (r, c, srv')"
    by (cases "wby_start 600 8 1001 ?calls (fst (wby_init 600 8 sample_config))")
  then have "r = 0" "c = 0" by (simp_all add: wby_start_def Let_def)
  moreover have "wby_init 600 8 sample_config = (fst (wby_init 600 8 sample_config), 1368)"
    by (simp add: wby_init_def sample_config_def)
  then have "length (cons srv') = 2 \<and> io_addr (cons srv' ! 0) + 16 \<le> header_addr (cons srv' ! 1) \<and> io_addr (cons srv' ! 1) + 16 \<le> 1001 + 1368"
    using wby_start_layout [of 8 3 600 sample_config _ 1368 1001 ?calls r c srv'] w by (simp add: sample_config_def)
  ultimately show ?thesis using w by blast
qed

section \<open>Compaction\<close>

abbreviation alive :: "slot \<Rightarrow> bool" where
  "alive s \<equiv> ALIVE \<in> flags (conn s)"

definition shift :: "nat \<Rightarrow> nat \<Rightarrow> slot list \<Rightarrow> slot list" where
  "shift i count slots = take i slots @ drop (i + 1) (take count slots) @ drop (count - 1) slots"

lemma length_shift [simp]: "i < count \<Longrightarrow> count \<le> length slots \<Longrightarrow> length (shift i count slots) = length slots"
  by (simp add: shift_def)

lemma shift_active:
  assumes "i < count" "count \<le> length slots"
  shows "take i (shift i count slots) = take i slots"
    and "drop i (take (count - 1) (shift i count slots)) = drop (i + 1) (take count slots)"
    and "drop (count - 1) (shift i count slots) = drop (count - 1) slots"
proof -
  let ?A = "take i slots" and ?B = "drop (i + 1) (take count slots)"
  have len: "length ?A = i" "length ?B = count - 1 - i" using assms by simp_all
  then show "take i (shift i count slots) = ?A" "drop i (take (count - 1) (shift i count slots)) = ?B"
      "drop (count - 1) (shift i count slots) = drop (count - 1) slots"
    using assms(1) by (simp_all add: shift_def)
qed

text \<open>
  The result holds the alive slots in their order; a last slot that is alive stays behind its copy.
\<close>

lemma compact_loop_spec:
  assumes "compact_loop cfg i count slots = Some (count', slots')" "count \<le> length slots" "i \<le> count"
  shows "length slots' = length slots \<and>
    take i slots' = take i slots \<and> drop count slots' = drop count slots \<and> i \<le> count' \<and> count' \<le> count \<and>
    drop i (take count' slots') = filter alive (drop i (take count slots)) \<and>
    (count' < count \<longrightarrow> alive (slots ! (count - 1)) \<longrightarrow> slots' ! count' = slots ! (count - 1))"
  using assms
proof (induction "count - i" arbitrary: i count slots)
  case 0
  then show ?case by (subst (asm) compact_loop.simps) simp
next
  case (Suc n)
  then have ic: "i < count" "count \<le> length slots" by simp_all
  let ?s = "slots ! i"
  have pk: "peek slots i = Some ?s" using ic by (simp add: peek_def)
  have split: "drop i (take count slots) = ?s # drop (i + 1) (take count slots)"
    using ic by (metis Suc_eq_plus1 Cons_nth_drop_Suc length_take min.absorb2 nth_take)
  show ?case
  proof (cases "alive ?s")
    case True
    have m: "n = count - (i + 1)" "i + 1 \<le> count" using Suc.hyps(2) ic by simp_all
    have "compact_loop cfg (i + 1) count slots = Some (count', slots')"
      using Suc.prems(1) ic pk True by (subst (asm) compact_loop.simps) simp
    note IH = Suc.hyps(1) [OF m(1) this ic(2) m(2)]
    have nth: "slots' ! i = ?s" using IH ic(1) by (metis less_add_one nth_take)
    have "drop i (take count' slots') = slots' ! i # drop (i + 1) (take count' slots')"
      using IH ic by (metis Suc_eq_plus1 Cons_nth_drop_Suc length_take min.absorb2 nth_take Suc_le_lessD order_trans)
    then have "drop i (take count' slots') = filter alive (drop i (take count slots))" using IH nth True split by simp
    moreover have "take i slots' = take i slots" using IH by (metis le_add1 min.absorb1 take_take)
    ultimately show ?thesis using IH by auto
  next
    case False
    obtain c where c: "(if WEBSOCKET \<in> flags (conn ?s) then ws_closed cfg (conn ?s) else Some (conn ?s)) = Some c"
      using Suc.prems(1) ic pk False
      by (subst (asm) compact_loop.simps) (auto split: option.splits)
    let ?u = "slots[i := ?s\<lparr>conn := wby_connection_close c\<rparr>]"
    let ?m = "shift i count ?u"
    have iu: "i < count" "count \<le> length ?u" using ic by simp_all
    note sh = shift_active [OF iu]
    have lm: "length ?m = length slots" using length_shift [OF iu] by simp
    have m: "n = count - 1 - i" "count - 1 \<le> length ?m" "i \<le> count - 1" using Suc.hyps(2) ic lm by simp_all
    have step: "compact_loop cfg i (count - 1) ?m = Some (count', slots')"
      using Suc.prems(1) ic pk False c by (subst (asm) compact_loop.simps) (simp add: Let_def shift_def)
    note IH = Suc.hyps(1) [OF m(1) step m(2,3)]
    have tu: "drop (i + 1) (take count ?u) = drop (i + 1) (take count slots)" by (simp add: drop_update_cancel take_update_swap)
    have act: "drop i (take count' slots') = filter alive (drop i (take count slots))"
      using IH sh(2) tu split False by simp
    have tk: "take i slots' = take i slots" using IH sh(1) by simp
    have dm: "drop (count - 1) slots' = drop (count - 1) ?u" using IH sh(3) by simp
    then have dr: "drop count slots' = drop count slots"
    proof -
      have "drop 1 (drop (count - 1) slots') = drop 1 (drop (count - 1) ?u)" using dm by simp
      then show ?thesis using ic(1) by simp
    qed
    have last: "slots' ! count' = slots ! (count - 1)" if l: "alive (slots ! (count - 1))"
    proof -
      have il: "i < count - 1" using l False ic(1) by (metis Suc_pred' less_Suc_eq not_less_zero gr0I)
      have u: "?u ! (count - 1) = slots ! (count - 1)" using il by simp
      show ?thesis
      proof (cases "count' = count - 1")
        case True
        have "length slots' = length slots" using IH lm by simp
        then have "slots' ! (count - 1) = drop (count - 1) slots' ! 0" using ic(1,2) by simp
        then show ?thesis using True dm u ic by simp
      next
        case short: False
        have "?m ! (count - 1 - 1) = drop i (take (count - 1) ?m) ! (count - 1 - 1 - i)" using il ic lm by (simp add: numeral_2_eq_2)
        also have "\<dots> = slots ! (count - 1)" unfolding sh(2) tu using il ic by (simp add: Suc_diff_Suc numeral_2_eq_2)
        finally show ?thesis using IH short il l by simp
      qed
    qed
    show ?thesis using IH lm tk dr act last by auto
  qed
qed

lemma compact_loop_total:
  assumes "\<forall>c. \<exists>c'. ws_closed cfg c = Some c'" "count \<le> length slots"
  shows "\<exists>r. compact_loop cfg i count slots = Some r"
  using assms(2)
proof (induction "count - i" arbitrary: i count slots rule: less_induct)
  case less
  show ?case
  proof (cases "i < count")
    case False
    then show ?thesis by (subst compact_loop.simps) simp
  next
    case ic: True
    let ?s = "slots ! i"
    have pk: "peek slots i = Some ?s" using ic less.prems by (simp add: peek_def)
    obtain c where c: "(if WEBSOCKET \<in> flags (conn ?s) then ws_closed cfg (conn ?s) else Some (conn ?s)) = Some c"
      using assms(1) by (cases "WEBSOCKET \<in> flags (conn ?s)") auto
    let ?m = "shift i count (slots[i := ?s\<lparr>conn := wby_connection_close c\<rparr>])"
    have "\<exists>r. compact_loop cfg (i + 1) count slots = Some r" using ic less.prems by (intro less.hyps) simp_all
    moreover have "\<exists>r. compact_loop cfg i (count - 1) ?m = Some r" using ic less.prems by (intro less.hyps) simp_all
    ultimately show ?thesis using ic pk c less.prems by (subst compact_loop.simps) (simp add: Let_def shift_def)
  qed
qed

text \<open>
  C17. Compacting the connection array ends (when the application's close handler returns), keeps exactly the
  connections that are alive, in their order, and counts them.
\<close>

theorem compact_keeps_alive:
  assumes "\<forall>c. \<exists>c'. ws_closed cfg c = Some c'" "count \<le> length slots"
  shows "\<exists>count' slots'. compact_loop cfg 0 count slots = Some (count', slots') \<and> length slots' = length slots \<and>
    take count' slots' = filter (\<lambda>s. ALIVE \<in> flags (conn s)) (take count slots) \<and>
    count' = length (filter (\<lambda>s. ALIVE \<in> flags (conn s)) (take count slots))"
proof -
  obtain count' slots' where r: "compact_loop cfg 0 count slots = Some (count', slots')"
    using compact_loop_total [OF assms] by fastforce
  note sp = compact_loop_spec [OF r assms(2)]
  then have t: "take count' slots' = filter alive (take count slots)" by simp
  moreover have "count' \<le> length slots'" using sp assms(2) by simp
  then have "length (take count' slots') = count'" by (rule length_take [THEN trans, OF min.absorb2])
  ultimately show ?thesis using r sp by (intro exI [of _ count'] exI [of _ slots']) simp
qed

definition sample_slot :: "nat \<Rightarrow> con_flag set \<Rightarrow> slot" where
  "sample_slot a f = \<lparr>conn = sample_connection\<lparr>flags := f\<rparr>, header_addr = a, io_addr = a + 64\<rparr>"

theorem compact_keeps_alive_witness:
  "\<exists>slots'. compact_loop sample_config 0 2 [sample_slot 0 {}, sample_slot 80 {ALIVE}] = Some (1, slots') \<and>
     take 1 slots' = [sample_slot 80 {ALIVE}]"
  using compact_keeps_alive [of sample_config 2 "[sample_slot 0 {}, sample_slot 80 {ALIVE}]"]
  by (auto simp: sample_config_def sample_slot_def)

text \<open>
  Compaction breaks the ownership of the buffers: when the last connection in use is alive and another one
  was removed, the next connection that is accepted gets the buffers of a connection that is still in use.
\<close>

theorem compaction_shares_buffers:
  assumes "compact_loop (config srv) 0 (con_count srv) (cons srv) = Some (count', slots')"
    and "0 < con_count srv" "con_count srv \<le> length (cons srv)" "count' < con_count srv" "count' < connection_max (config srv)"
    and "ALIVE \<in> flags (conn (cons srv ! (con_count srv - 1)))"
    and "wby_socket_config_incoming fd = (True, fd')"
  shows "\<exists>srv' i. wby_on_incoming (Some fd # accepts) (srv\<lparr>con_count := count', cons := slots'\<rparr>) = Some (True, accepts, srv') \<and>
    con_count srv' = count' + 1 \<and> i < count' \<and>
    header_addr (cons srv' ! i) = header_addr (cons srv' ! count') \<and> io_addr (cons srv' ! i) = io_addr (cons srv' ! count')"
proof -
  let ?n = "con_count srv" and ?L = "cons srv ! (con_count srv - 1)"
  note sp = compact_loop_spec [OF assms(1,3)]
  have c: "slots' ! count' = ?L" "count' < length slots'" using sp assms by auto
  have "?L \<in> set (take ?n (cons srv))" using assms(2,3) by (auto simp: in_set_conv_nth intro!: exI [of _ "?n - 1"])
  then have "?L \<in> set (take count' slots')" using sp assms(6) by simp
  then obtain i where i: "i < count'" "slots' ! i = ?L" by (auto simp: in_set_conv_nth)
  obtain srv' where "wby_on_incoming (Some fd # accepts) (srv\<lparr>con_count := count', cons := slots'\<rparr>) = Some (True, accepts, srv')"
      "con_count srv' = count' + 1" "\<exists>c. cons srv' = slots'[count' := ?L\<lparr>conn := c\<rparr>]"
    using assms(5,7) c by (auto simp: wby_on_incoming_def Let_def peek_def)
  then show ?thesis using i c by (intro exI [of _ srv'] exI [of _ i]) auto
qed

definition fresh_socket :: net where
  "fresh_socket = \<lparr>rx = [], tx = [], send_results = [], fcntl_results = [], nonblock = False, open_sock = True\<rparr>"

definition sample_server :: wby_server where
  "sample_server = \<lparr>config = sample_config, memory_size = 1368, listening = True, con_count = 2,
     cons = [sample_slot 0 {}, sample_slot 80 {ALIVE}]\<rparr>"

theorem compaction_shares_buffers_witness:
  "\<exists>slots' srv' i. compact_loop sample_config 0 2 (cons sample_server) = Some (1, slots') \<and>
     wby_on_incoming [Some fresh_socket] (sample_server\<lparr>con_count := 1, cons := slots'\<rparr>) = Some (True, [], srv') \<and>
     con_count srv' = 2 \<and> i < 1 \<and> header_addr (cons srv' ! i) = header_addr (cons srv' ! 1)"
proof -
  have r: "compact_loop sample_config 0 2 (cons sample_server) =
      Some (1, [sample_slot 80 {ALIVE}, sample_slot 80 {ALIVE}])"
    by (simp add: compact_loop.simps sample_server_def sample_slot_def peek_def)
  have f: "wby_socket_config_incoming fresh_socket = (True, fresh_socket\<lparr>nonblock := True\<rparr>)"
    by (simp add: wby_socket_config_incoming_def wby_socket_set_blocking_def fresh_socket_def)
  have "config sample_server = sample_config" "con_count sample_server = 2" "connection_max sample_config = 2"
      "length (cons sample_server) = 2" "ALIVE \<in> flags (conn (cons sample_server ! 1))"
    by (simp_all add: sample_server_def sample_config_def sample_slot_def)
  then show ?thesis
    using compaction_shares_buffers [of sample_server 1 "[sample_slot 80 {ALIVE}, sample_slot 80 {ALIVE}]" fresh_socket _ "[]"] r f
    by auto
qed

section \<open>The invariant of the server\<close>

lemma on_incoming_inv:
  assumes "wby_on_incoming accepts srv = Some (ok, accepts', srv')"
    and "length (cons srv) = connection_max (config srv)" "con_count srv \<le> connection_max (config srv)"
  shows "config srv' = config srv \<and> length (cons srv') = connection_max (config srv) \<and> con_count srv' \<le> connection_max (config srv)"
proof (cases accepts)
  case (Cons a as)
  show ?thesis
  proof (cases a)
    case (Some fd)
    obtain r fd' where "wby_socket_config_incoming fd = (r, fd')" by fastforce
    then show ?thesis using assms Cons Some
      by (auto simp: wby_on_incoming_def Let_def bind_eq_Some_conv split: if_splits)
  qed (use assms Cons in \<open>auto simp: wby_on_incoming_def Let_def split: if_splits\<close>)
qed (use assms in \<open>auto simp: wby_on_incoming_def Let_def split: if_splits\<close>)

lemma accept_loop_inv:
  "accept_loop accepts srv = Some srv' \<Longrightarrow> length (cons srv) = connection_max (config srv) \<Longrightarrow>
   con_count srv \<le> connection_max (config srv) \<Longrightarrow>
   config srv' = config srv \<and> length (cons srv') = connection_max (config srv) \<and> con_count srv' \<le> connection_max (config srv)"
proof (induction accepts srv rule: accept_loop.induct)
  case (1 accepts srv)
  obtain ok accepts1 srv1 where r: "wby_on_incoming accepts srv = Some (ok, accepts1, srv1)"
    using "1.prems"(1) by (subst (asm) accept_loop.simps) (auto split: option.splits)
  note inv1 = on_incoming_inv [OF r "1.prems"(2,3)]
  show ?case
  proof (cases ok)
    case True
    have "accept_loop accepts1 srv1 = Some srv'" using "1.prems"(1) r True by (subst (asm) accept_loop.simps) simp
    then show ?thesis using "1.IH" [OF r refl refl True] inv1 by simp
  next
    case False
    have "srv' = srv1" using "1.prems"(1) r False by (subst (asm) accept_loop.simps) simp
    then show ?thesis using inv1 by simp
  qed
qed

lemma update_slots_length: "update_slots locals ready cfg i ss = Some ss' \<Longrightarrow> length ss' = length ss"
  by (induction ss arbitrary: i ss') (auto simp: bind_eq_Some_conv)

text \<open>Between two turns every connection in use is alive and no more are in use than there are slots.\<close>

definition server_inv :: "wby_config \<Rightarrow> wby_server \<Rightarrow> bool" where
  "server_inv cfg srv \<longleftrightarrow> config srv = cfg \<and> length (cons srv) = connection_max cfg \<and> con_count srv \<le> connection_max cfg \<and>
     (\<forall>s\<in>set (take (con_count srv) (cons srv)). ALIVE \<in> flags (conn s))"

lemma update_inv:
  assumes "server_inv cfg srv" "wby_update locals select_ok incoming ready accepts srv = Some srv'"
  shows "server_inv cfg srv'"
proof (cases select_ok)
  case False
  then show ?thesis using assms by (simp add: wby_update_def)
next
  case True
  obtain srv1 active count slots where r:
      "(if incoming \<and> con_count srv < connection_max (config srv) then accept_loop accepts srv else Some srv) = Some srv1"
      "update_slots locals ready (config srv1) 0 (take (con_count srv1) (cons srv1)) = Some active"
      "compact_loop (config srv1) 0 (con_count srv1) (active @ drop (con_count srv1) (cons srv1)) = Some (count, slots)"
      "srv' = srv1\<lparr>con_count := count, cons := slots\<rparr>"
    using assms(2) True by (auto simp: wby_update_def bind_eq_Some_conv)
  have inv1: "config srv1 = cfg" "length (cons srv1) = connection_max cfg" "con_count srv1 \<le> connection_max cfg"
    using accept_loop_inv [of accepts srv srv1] r(1) assms(1) by (auto simp: server_inv_def split: if_splits)
  have len: "length active = con_count srv1" using update_slots_length [OF r(2)] inv1 by simp
  let ?all = "active @ drop (con_count srv1) (cons srv1)"
  have fits: "con_count srv1 \<le> length ?all" "length ?all = connection_max cfg" using len inv1 by simp_all
  note sp = compact_loop_spec [OF r(3) fits(1)]
  have "take count slots = filter alive active" using sp len by simp
  then have "\<forall>s\<in>set (take count slots). alive s" by simp
  then show ?thesis using sp fits inv1 unfolding r(4) server_inv_def by simp
qed

definition server_started :: "wby_config \<Rightarrow> wby_server \<Rightarrow> bool" where
  "server_started cfg srv \<longleftrightarrow>
     (\<exists>con_size align memory calls. wby_start con_size align memory calls (fst (wby_init con_size align cfg)) = (0, 0, srv))"

definition server_turn :: "wby_server \<Rightarrow> wby_server \<Rightarrow> bool" where
  "server_turn srv srv' \<longleftrightarrow>
     (\<exists>locals select_ok incoming ready accepts. wby_update locals select_ok incoming ready accepts srv = Some srv')"

interpretation server: inductive_invariant "server_started cfg" server_turn "server_inv cfg" for cfg
proof
  show "server_inv cfg srv" if "server_started cfg srv" for srv
    using that by (auto simp: server_started_def server_inv_def wby_init_def wby_start_def Let_def split: if_splits)
  show "server_inv cfg srv'" if "server_inv cfg srv" "server_turn srv srv'" for srv srv'
    using that update_inv by (auto simp: server_turn_def)
qed



section \<open>The state machine\<close>

text \<open>No routine that the application or the server calls while serving changes the state of the connection.\<close>

lemma pred_option_bind: "pred_option P (Option.bind m f) \<longleftrightarrow> (\<forall>x. m = Some x \<longrightarrow> pred_option P (f x))"
  by (cases m) auto

lemma pred_optionD: "m = Some r \<Longrightarrow> pred_option P m \<Longrightarrow> P r"
  by simp

lemma kill_state [simp]: "con_state (kill c) = con_state c" "blocking_count (kill c) = blocking_count c"
  by (simp_all add: kill_def)

lemma close_state [simp]: "con_state (wby_connection_close c) = con_state c"
  by (simp add: wby_connection_close_def)

lemma set_blocking_state: "wby_connection_set_blocking c = (ok, c') \<Longrightarrow> con_state c' = con_state c"
  by (auto simp: wby_connection_set_blocking_def split: if_splits prod.splits)

lemma set_nonblocking_state: "wby_connection_set_nonblocking c = (ok, c') \<Longrightarrow> con_state c' = con_state c"
  by (auto simp: wby_connection_set_nonblocking_def Let_def split: if_splits prod.splits)

lemma push_loop_state: "push_loop data c = Some r \<Longrightarrow> con_state (snd r) = con_state c"
proof (rule push_loop.raw_induct [where P = "\<lambda>data c r. con_state (snd r) = con_state c"], goal_cases)
  case (1 rec data c r)
  show ?case using 1(3)
    by (auto simp: Let_def bind_eq_Some_conv split: if_splits prod.splits dest!: 1(2))
qed

lemma push_state: "wby_connection_push data c = Some (ok, c') \<Longrightarrow> con_state c' = con_state c"
  using push_loop_state [of data c "(ok, c')"] by (auto simp: wby_connection_push_def split: if_splits prod.splits)

lemma recv_loop_state: "recv_loop len got c = Some r \<Longrightarrow> con_state (snd (snd r)) = con_state c"
proof (rule recv_loop.raw_induct [where P = "\<lambda>len got c r. con_state (snd (snd r)) = con_state c"], goal_cases)
  case (1 rec len got c r)
  show ?case
  proof (cases "len = 0")
    case False
    then obtain res n where "sock_recv len (sock c) = Some (res, n)" using 1(3) by (auto simp: bind_eq_Some_conv)
    then show ?thesis using 1(3) False by (cases res) (auto dest!: 1(2))
  qed (use 1(3) in auto)
qed

lemma read_state: "wby_read len c = Some (ok, s, c') \<Longrightarrow> con_state c' = con_state c"
  by (auto simp: wby_read_def Let_def bind_eq_Some_conv split: if_splits dest!: recv_loop_state)

lemma discard_state: "wby_con_discard_incoming_data count c = Some (ok, c') \<Longrightarrow> con_state c' = con_state c"
proof (induction count c rule: wby_con_discard_incoming_data.induct)
  case (1 count c)
  show ?case
  proof (cases "count > 0")
    case True
    let ?k = "if count > 1024 then 1024 else count"
    obtain ok1 s c1 where r: "wby_read (nat ?k) c = Some (ok1, s, c1)"
      using "1.prems" True by (subst (asm) wby_con_discard_incoming_data.simps) (auto simp: Let_def split: option.splits)
    then show ?thesis using "1.prems" True "1.IH" [OF True refl r refl refl] read_state [OF r]
      by (subst (asm) wby_con_discard_incoming_data.simps) (cases ok1, simp_all add: Let_def)
  next
    case False
    then show ?thesis using "1.prems" by (subst (asm) wby_con_discard_incoming_data.simps) simp
  qed
qed

lemma write_state: "wby_write s c = Some (ok, c') \<Longrightarrow> con_state c' = con_state c"
  by (auto simp: wby_write_def Let_def bind_eq_Some_conv split: if_splits prod.splits dest!: push_state)

lemma emit_state: "emit s c = Some c' \<Longrightarrow> con_state c' = con_state c"
  by (auto simp: emit_def wby_printf_def split: if_splits dest!: write_state)

lemma response_headers_state: "response_headers hs c = Some c' \<Longrightarrow> con_state c' = con_state c"
proof (induction hs arbitrary: c)
  case (Cons h hs)
  obtain n v where h: "h = (n, v)" by (cases h)
  let ?c = "if strcasecmp_eq n ''Connection'' \<and> strcasecmp_eq v ''close'' then c\<lparr>flags := insert CLOSE_AFTER_RESPONSE (flags c)\<rparr> else c"
  obtain c1 where "emit (n @ '': '' @ v @ CRLF) ?c = Some c1" "response_headers hs c1 = Some c'"
    using Cons.prems by (auto simp: h Let_def bind_eq_Some_conv)
  then show ?case using Cons.IH emit_state by (fastforce split: if_splits)
qed simp

lemma response_begin_state: "wby_response_begin st len hs c = Some (ok, c') \<Longrightarrow> con_state c' = con_state c"
proof (drule pred_optionD [where P = "\<lambda>r. con_state (snd r) = con_state c"])
  have close: "con_state c2 = con_state c1" if "(case wby_find_header ''Connection'' c1 of
               Some h \<Rightarrow>
                 if strcasecmp_eq ''close'' h
                 then emit t (c1\<lparr>flags := insert CLOSE_AFTER_RESPONSE (flags c1)\<rparr>)
                 else Some c1
             | None \<Rightarrow> Some c1) = Some c2" for t c1 c2
    using that emit_state by (fastforce split: if_splits option.splits)
  show "pred_option (\<lambda>r. con_state (snd r) = con_state c) (wby_response_begin st len hs c)"
    unfolding wby_response_begin_def pred_option_bind
    by (auto simp: pred_option_bind split: if_splits dest!: discard_state close emit_state response_headers_state)
qed simp

lemma response_end_state: "wby_response_end c = Some c' \<Longrightarrow> con_state c' = con_state c"
  by (auto simp: wby_response_end_def bind_eq_Some_conv split: if_splits dest!: push_state)

lemma short_response_state: "short_response st hs t c = Some c' \<Longrightarrow> con_state c' = con_state c"
  by (auto simp: short_response_def bind_eq_Some_conv dest!: response_begin_state emit_state response_end_state)

lemma upgrade_state: "wby_connection_send_websocket_upgrade sha out c = Some (ok, c') \<Longrightarrow> con_state c' = con_state c"
proof (drule pred_optionD [where P = "\<lambda>r. con_state (snd r) = con_state c"])
  show "pred_option (\<lambda>r. con_state (snd r) = con_state c) (wby_connection_send_websocket_upgrade sha out c)"
    unfolding wby_connection_send_websocket_upgrade_def Let_def
    by (simp add: pred_option_bind split: option.split)
       (auto simp: pred_option_bind dest!: response_begin_state response_end_state)
qed simp

text \<open>The application reaches a connection only through the interface, which leaves its state alone.\<close>

definition wellbehaved :: "wby_config \<Rightarrow> bool" where
  "wellbehaved cfg \<longleftrightarrow>
     (\<forall>c err c'. dispatch cfg c = Some (err, c') \<longrightarrow> con_state c' = con_state c) \<and>
     (\<forall>f c err c'. ws_connect cfg = Some f \<longrightarrow> f c = Some (err, c') \<longrightarrow> con_state c' = con_state c) \<and>
     (\<forall>c c'. ws_connected cfg c = Some c' \<longrightarrow> con_state c' = con_state c) \<and>
     (\<forall>c err c'. ws_frame_cb cfg c = Some (err, c') \<longrightarrow> con_state c' = con_state c)"

lemma serve_state:
  assumes "wellbehaved cfg" "serve_request cfg locals c = Some c'"
  shows "con_state c' = con_state c"
proof -
  have d: "\<And>c err c'. dispatch cfg c = Some (err, c') \<Longrightarrow> con_state c' = con_state c"
      "\<And>c err c'. (case ws_connect cfg of None \<Rightarrow> Some (1, c) | Some f \<Rightarrow> f c) = Some (err, c') \<Longrightarrow> con_state c' = con_state c"
      "\<And>c c'. ws_connected cfg c = Some c' \<Longrightarrow> con_state c' = con_state c"
    using assms(1) unfolding wellbehaved_def by (blast, force split: option.splits, blast)
  show ?thesis using assms(2) unfolding serve_request_def
    by (auto simp: bind_eq_Some_conv split: if_splits dest!: short_response_state upgrade_state d)
qed

lemma frame_state:
  assumes "wellbehaved cfg" "handle_frame cfg c = Some (ok, c')"
  shows "con_state c' = con_state c"
proof -
  have d: "\<And>c err c'. ws_frame_cb cfg c = Some (err, c') \<Longrightarrow> con_state c' = con_state c"
    using assms(1) unfolding wellbehaved_def by blast
  show ?thesis using assms(2) by (auto simp: handle_frame_def bind_eq_Some_conv split: if_splits prod.splits dest!: d)
qed

inductive con_transition :: "con_state \<Rightarrow> con_state \<Rightarrow> bool" where
  expect_continue: "con_transition ST_REQUEST ST_SEND_CONTINUE"
| complete_request: "con_transition ST_REQUEST ST_SERVE"
| partly_sent: "con_transition ST_SEND_CONTINUE ST_SEND_CONTINUE"
| continue_sent: "con_transition ST_SEND_CONTINUE ST_SERVE"
| next_request: "con_transition ST_SERVE ST_REQUEST"
| upgraded: "con_transition ST_SERVE ST_WEBSOCKET"
| died_serving: "con_transition ST_SERVE ST_SERVE"
| next_frame: "con_transition ST_WEBSOCKET ST_WEBSOCKET"

inductive_simps con_transition_simps [simp]: "con_transition s t"

lemma request_step_state:
  assumes "con_state c = ST_REQUEST" "step_request c = Some (go_on, c')"
  shows "if go_on then con_transition ST_REQUEST (con_state c') else con_state c' = ST_REQUEST"
proof -
  have req: "pred_option (\<lambda>r. con_state (snd r) = con_state c) (wby_connection_setup_request n c)" for n c
    unfolding wby_connection_setup_request_def Let_def by (auto simp: pred_option_bind split: list.split)
  have "pred_option (\<lambda>r. if fst r then con_transition ST_REQUEST (con_state (snd r)) else con_state (snd r) = ST_REQUEST) (step_request c)"
    unfolding step_request_def Let_def using assms(1)
    by (auto simp: pred_option_bind split: option.split dest: pred_optionD [OF _ req])
  then show ?thesis using assms(2) by (auto split: if_splits)
qed

lemma serve_step_state:
  assumes "wellbehaved cfg" "con_state c = ST_SERVE" "step_serve cfg locals c = Some (go_on, c')"
  shows "if go_on then con_transition ST_SERVE (con_state c') else con_state c' = ST_SERVE"
proof -
  obtain ok c1 where c1: "wby_connection_set_blocking (c\<lparr>io_buf := (io_buf c)\<lparr>used := 0\<rparr>\<rparr>) = (ok, c1)" by fastforce
  have s1: "con_state c1 = ST_SERVE" using set_blocking_state [OF c1] assms(2) by simp
  show ?thesis
  proof (cases ok)
    case False
    then show ?thesis using assms(3) c1 s1 by (simp add: step_serve_def)
  next
    case True
    then obtain c2 where c2: "serve_request cfg locals c1 = Some c2" using assms(3) c1 by (auto simp: step_serve_def bind_eq_Some_conv)
    obtain ok3 c3 where c3: "wby_connection_set_nonblocking c2 = (ok3, c3)" by fastforce
    have "con_state c3 = ST_SERVE" using serve_state [OF assms(1) c2] set_nonblocking_state [OF c3] s1 by simp
    then show ?thesis using assms(3) c1 c2 c3 True
      by (auto simp: step_serve_def Let_def wby_connection_reset_def split: if_splits)
  qed
qed

lemma websocket_step_state:
  assumes "wellbehaved cfg" "con_state c = ST_WEBSOCKET" "step_websocket cfg c = Some (go_on, c')"
  shows "con_state c' = ST_WEBSOCKET"
proof -
  obtain result buf n where r: "wby_socket_recv (io_buf c) (sock c) = Some (result, buf, n)"
    using assms(3) by (auto simp: step_websocket_def bind_eq_Some_conv)
  let ?c = "c\<lparr>io_buf := buf, sock := n\<rparr>"
  show ?thesis
  proof (cases "result = WBY_FILL_ERROR \<or> wby_scan_websocket_frame (ws_frame c) (map byte_of (pending buf)) = None")
    case True
    then show ?thesis using assms(2,3) r by (cases "result = WBY_FILL_ERROR") (auto simp: step_websocket_def Let_def)
  next
    case False
    then obtain frame where f: "wby_scan_websocket_frame (ws_frame c) (map byte_of (pending buf)) = Some frame" by auto
    let ?c1 = "?c\<lparr>ws_frame := frame, body_bytes_read := 0, io_data_left := int (used buf) - int (header_size frame)\<rparr>"
    obtain ok2 c2 where c2: "wby_connection_set_blocking ?c1 = (ok2, c2)" by fastforce
    have s2: "con_state c2 = ST_WEBSOCKET" using set_blocking_state [OF c2] assms(2) by simp
    show ?thesis
    proof (cases ok2)
      case True
      then obtain ok3 c3 where c3: "handle_frame cfg c2 = Some (ok3, c3)"
        using assms(3) r False f c2 by (auto simp: step_websocket_def Let_def bind_eq_Some_conv)
      have s3: "con_state c3 = ST_WEBSOCKET" using frame_state [OF assms(1) c3] s2 by simp
      show ?thesis
      proof (cases ok3)
        case ok3: True
        let ?left = "sint (payload_length (ws_frame c3)) - body_bytes_read c3"
        obtain ok4 c4 where c4: "(if body_bytes_read c3 < sint (payload_length (ws_frame c3))
            then wby_con_discard_incoming_data ?left c3 else Some (True, c3)) = Some (ok4, c4)"
          using assms(3) r False f c2 True c3 ok3 by (auto simp: step_websocket_def Let_def bind_eq_Some_conv)
        have s4: "con_state c4 = ST_WEBSOCKET" using c4 s3 discard_state by (auto split: if_splits)
        obtain ok5 c5 where c5: "wby_connection_set_nonblocking c4 = (ok5, c5)" by fastforce
        have "con_state c5 = ST_WEBSOCKET" using set_nonblocking_state [OF c5] s4 by simp
        then show ?thesis using assms(3) r False f c2 True c3 ok3 c4 c5 s4
          by (auto simp: step_websocket_def Let_def split: if_splits)
      qed (use assms(3) r False f c2 True c3 s3 in \<open>simp add: step_websocket_def Let_def\<close>)
    qed (use assms(3) r False f c2 s2 in \<open>simp add: step_websocket_def Let_def\<close>)
  qed
qed



section \<open>The answer to an unknown address\<close>

lemma short_response_text:
  assumes "answering c" "CHUNKED_RESPONSE \<notin> flags c" "content_length (request c) \<le> body_bytes_read c"
    and "\<forall>h\<in>set hs. length (header_line h) < 1024" "\<bar>status\<bar> < 10 ^ 10" "length msg < 1024" "msg \<noteq> []"
  defines "w \<equiv> CLOSE_AFTER_RESPONSE \<notin> flags c \<and> \<not> (\<exists>h\<in>set hs. is_close h) \<and> client_closes c"
  shows "\<exists>c' body. short_response status hs msg c = Some (if content_length (request c) = 0 then wby_connection_close c' else c') \<and>
    same_request c c' \<and> con_state c' = ST_SERVE \<and>
    tx (sock c') = output_text c @ response_head status (- 1) hs w @ body \<and> dechunk 2 body = Some msg"
proof -
  obtain c1 where c1: "wby_response_begin status (- 1) hs c = Some (True, c1)" "answering c1" "same_request c c1"
      "output_text c1 = output_text c @ response_head status (- 1) hs w" "CHUNKED_RESPONSE \<in> flags c1"
    using response_begin_text [OF assms(1-5), of "- 1"] unfolding w_def by auto
  obtain c2 where c2: "emit msg c1 = Some c2" "answering c2" "output_text c2 = output_text c1 @ chunk msg" "flags c2 = flags c1"
      "same_request c1 c2"
    using write_answering [OF c1(2), of msg] c1(5) assms(6) by (auto simp: emit_def wby_printf_def)
  obtain c3 where c3: "wby_response_end c2 = Some (if content_length (request c2) = 0 then wby_connection_close c3 else c3)"
      "answering c3" "same_request c2 c3" "tx (sock c3) = output_text c2 @ ''0'' @ CRLF @ CRLF"
    using response_end_text [OF c2(2)] c1(5) c2(4) by auto
  have sr: "same_request c c2" "same_request c c3" using c1(3) c2(5) c3(3) same_request_trans by blast+
  let ?body = "chunk msg @ ''0'' @ CRLF @ CRLF"
  have "short_response status hs msg c = Some (if content_length (request c) = 0 then wby_connection_close c3 else c3)"
    using c1(1) c2(1) c3(1) sr(1) by (simp add: short_response_def same_request_def)
  moreover have "tx (sock c3) = output_text c @ response_head status (- 1) hs w @ ?body"
    using c1(4) c2(3) c3(4) by (simp del: append_Cons)
  moreover have "dechunk 2 ?body = Some msg" using dechunk_chunks [of "[msg]" 2] assms(7) by simp
  ultimately show ?thesis using sr(2) c3(2) by (intro exI [of _ c3] exI [of _ ?body]) (simp add: answering_def)
qed

lemma serving_dead_ends:
  assumes "con_state c = ST_SERVE" "\<not> open_sock (sock c)" "blocking_count c = 0" "ALIVE \<notin> flags c"
  shows "\<exists>c'. connection_loop cfg locals c = Some c' \<and> ALIVE \<notin> flags c' \<and> sock c' = sock c"
proof -
  have "step_serve cfg locals c = Some (False, kill (c\<lparr>io_buf := (io_buf c)\<lparr>used := 0\<rparr>\<rparr>))"
    using assms by (simp add: step_serve_def wby_connection_set_blocking_def wby_socket_set_blocking_def kill_def)
  then show ?thesis using assms(1,4) by (subst connection_loop.simps) (simp add: connection_step_def kill_def)
qed

definition not_found_headers :: "(string \<times> string) list" where
  "not_found_headers = [(''Content-Type'', ''text/html'')]"

definition not_found_text :: "string \<Rightarrow> string" where
  "not_found_text uri = ''<h1>404 Not Found</h1><hr />Request: '' @ uri @ CRLF"

text \<open>
  C16. A complete request without a body for an address that the application does not serve is answered by
  exactly one response with status 404, whose decoded body names the address; then the loop ends and the
  connection is closed, whether the client asked for that or not.
\<close>

theorem not_found_answered:
  assumes "con_state c = ST_SERVE" "buf_ok (io_buf c)" "reliable (sock c)" "fcntl_results (sock c) = []" "blocking_count c = 0"
    and "WEBSOCKET \<notin> flags c" "CHUNKED_RESPONSE \<notin> flags c" "content_length (request c) = 0" "body_bytes_read c = 0"
    and "\<not> wby_con_is_websocket_request c" "\<And>c. dispatch cfg c = Some (err, c)" "err \<noteq> 0"
    and "uri = header_text c (req_uri (request c))" "length uri < 900"
  shows "\<exists>c' body. connection_loop cfg locals c = Some c' \<and> ALIVE \<notin> flags c' \<and> \<not> open_sock (sock c') \<and>
    tx (sock c') = tx (sock c) @ response_head 404 (- 1) not_found_headers (CLOSE_AFTER_RESPONSE \<notin> flags c \<and> client_closes c) @ body \<and>
    dechunk 2 body = Some (not_found_text uri)"
proof -
  let ?c1 = "c\<lparr>io_buf := (io_buf c)\<lparr>used := 0\<rparr>, sock := (sock c)\<lparr>nonblock := False\<rparr>, blocking_count := 1\<rparr>"
  let ?w = "CLOSE_AFTER_RESPONSE \<notin> flags c \<and> client_closes c"
  have block: "wby_connection_set_blocking (c\<lparr>io_buf := (io_buf c)\<lparr>used := 0\<rparr>\<rparr>) = (True, ?c1)"
    using assms(3-5) by (simp add: wby_connection_set_blocking_def wby_socket_set_blocking_def reliable_def)
  have a1: "answering ?c1" "output_text ?c1 = tx (sock c)"
    using assms(1-3,6) by (simp_all add: answering_def buf_ok_def reliable_def output_text_def pending_def)
  have hdr: "wby_find_header n ?c1 = wby_find_header n c" for n by (simp add: wby_find_header_def header_text_def)
  have ws: "\<not> wby_con_is_websocket_request ?c1" "client_closes ?c1 = client_closes c"
    using assms(10) unfolding wby_con_is_websocket_request_def client_closes_def hdr by assumption (rule refl)
  have uri1: "header_text ?c1 (req_uri (request ?c1)) = uri" using assms(13) by (simp add: header_text_def)
  have noclose: "\<not> (\<exists>h\<in>set not_found_headers. is_close h)" by code_simp
  have short: "\<forall>h\<in>set not_found_headers. length (header_line h) < 1024"
    by (simp add: not_found_headers_def header_line_def CRLF_def)
  have msg: "length (not_found_text uri) < 1024" "not_found_text uri \<noteq> []" using assms(14) by (simp_all add: not_found_text_def CRLF_def)
  have pre: "CHUNKED_RESPONSE \<notin> flags ?c1" "content_length (request ?c1) \<le> body_bytes_read ?c1" "\<bar>404 :: int\<bar> < 10 ^ 10"
    using assms(7-9) by simp_all
  obtain c2 body where c2: "short_response 404 not_found_headers (not_found_text uri) ?c1 = Some (wby_connection_close c2)"
      "same_request ?c1 c2" "con_state c2 = ST_SERVE"
      "tx (sock c2) = tx (sock c) @ response_head 404 (- 1) not_found_headers ?w @ body"
      "dechunk 2 body = Some (not_found_text uri)"
    using short_response_text [OF a1(1) pre(1,2) short pre(3) msg] a1(2) noclose ws(2) assms(8) by auto
  have serve: "serve_request cfg locals ?c1 = Some (wby_connection_close c2)"
    unfolding serve_request_def using ws(1) assms(11,12) c2(1) uri1 by (simp add: not_found_headers_def not_found_text_def)
  let ?c3 = "(wby_connection_close c2)\<lparr>blocking_count := 0\<rparr>"
  have "blocking_count c2 = 1" using c2(2) by (simp add: same_request_def)
  then have "snd (wby_connection_set_nonblocking (wby_connection_close c2)) = ?c3"
    by (simp add: wby_connection_set_nonblocking_def wby_connection_close_def)
  then have "step_serve cfg locals c = Some (True, ?c3)"
    unfolding step_serve_def block prod.case using serve by (simp add: wby_connection_close_def)
  then have "connection_loop cfg locals c = connection_loop cfg locals ?c3"
    using assms(1) by (subst connection_loop.simps) (simp add: connection_step_def)
  moreover obtain c' where "connection_loop cfg locals ?c3 = Some c'" "ALIVE \<notin> flags c'" "sock c' = sock ?c3"
    using serving_dead_ends [of ?c3 cfg locals] c2(3) by (auto simp: wby_connection_close_def wby_socket_close_def)
  ultimately show ?thesis using c2(4,5)
    by (intro exI [of _ c'] exI [of _ body]) (simp add: wby_connection_close_def wby_socket_close_def)
qed

definition sample_request :: wby_connection where
  "sample_request = sample_connection\<lparr>header_buf := \<lparr>used = 64, max_size = 64, buf_data = ''/none'' @ replicate 58 nul\<rparr>\<rparr>"

theorem not_found_answered_witness:
  "\<exists>c' body. connection_loop (sample_config\<lparr>dispatch := \<lambda>c. Some (1, c)\<rparr>) sample_locals sample_request = Some c' \<and> ALIVE \<notin> flags c' \<and>
     tx (sock c') = response_head 404 (- 1) not_found_headers False @ body \<and> dechunk 2 body = Some (not_found_text ''/none'')"
proof -
  let ?c = sample_request and ?cfg = "sample_config\<lparr>dispatch := \<lambda>c. Some (1, c)\<rparr>"
  have c: "con_state ?c = ST_SERVE" "buf_ok (io_buf ?c)" "reliable (sock ?c)" "fcntl_results (sock ?c) = []" "blocking_count ?c = 0"
      "WEBSOCKET \<notin> flags ?c" "CHUNKED_RESPONSE \<notin> flags ?c" "content_length (request ?c) = 0" "body_bytes_read ?c = 0"
      "\<not> wby_con_is_websocket_request ?c" "''/none'' = header_text ?c (req_uri (request ?c))" "tx (sock ?c) = []" "\<not> client_closes ?c"
    by code_simp+
  have d: "dispatch ?cfg c = Some (1, c)" for c by simp
  show ?thesis using not_found_answered [OF c(1-10) d _ c(11), of sample_locals] c(12,13) by auto
qed

text \<open>
  The formatted output of the server is cut to an array of 1024 characters, but the length of the whole
  text is sent: with a long address in the request, the 404 answer reads memory behind the array, however
  the connection and the application behave.
\<close>

theorem long_uri_overread:
  assumes "\<not> wby_con_is_websocket_request c" "dispatch cfg c = Some (err, c1)" "err \<noteq> 0"
    and "length (header_text c1 (req_uri (request c1))) > 990"
  shows "serve_request cfg locals c = None"
proof -
  have "emit (not_found_text (header_text c1 (req_uri (request c1)))) c' = None" for c'
    using assms(4) by (simp add: emit_def wby_printf_def not_found_text_def CRLF_def)
  then have "short_response 404 hs (not_found_text (header_text c1 (req_uri (request c1)))) c1 = None" for hs
    by (simp add: short_response_def bind_eq_None_conv split: prod.split)
  then show ?thesis using assms(1-3) by (simp add: serve_request_def not_found_text_def)
qed

theorem long_uri_overread_witness:
  "serve_request (sample_config\<lparr>dispatch := \<lambda>c. Some (1, c)\<rparr>) sample_locals
     (sample_connection\<lparr>header_buf := \<lparr>used = 2000, max_size = 2000, buf_data = replicate 1999 (CHR ''a'') @ [nul]\<rparr>\<rparr>) = None"
proof (rule long_uri_overread [where err = 1])
  let ?c = "sample_connection\<lparr>header_buf := \<lparr>used = 2000, max_size = 2000, buf_data = replicate 1999 (CHR ''a'') @ [nul]\<rparr>\<rparr>"
  show "\<not> wby_con_is_websocket_request ?c"
    by (simp add: wby_con_is_websocket_request_def wby_find_header_def sample_connection_def)
  have "cstr (replicate 1999 (CHR ''a'') @ [nul]) = replicate 1999 (CHR ''a'')"
    by (rule cstr_nul) (simp add: nul_free_def)
  then show "length (header_text ?c (req_uri (request ?c))) > 990"
    by (simp add: header_text_def sample_connection_def)
qed simp_all

end
