(* ===== verification/Scrape_Ini.thy ===== *)
theory Scrape_Ini
  imports Prelude
begin

text \<open>
  \<open>scrape/ini.c\<close>: the reader of INI files, with the options of \<open>ini.h\<close> (continuation lines, byte order
  mark, inline comments, errors do not stop). Lines are C strings; the places the routine finds in a
  line are suffixes of it. The handler is an arbitrary function on a state of the user.
\<close>

section \<open>Strings\<close>

definition INI_MAX_LINE :: nat where "INI_MAX_LINE = 200"
definition MAX_SECTION :: nat where "MAX_SECTION = 50"
definition MAX_NAME :: nat where "MAX_NAME = 50"
definition INI_INLINE_COMMENT_PREFIXES :: string where "INI_INLINE_COMMENT_PREFIXES = '';''"

definition rstrip :: "string \<Rightarrow> string" where
  "rstrip s = rev (dropWhile isspace (rev s))"

definition lskip :: "string \<Rightarrow> string" where
  "lskip s = dropWhile isspace s"

text \<open>The string before the place that is found, and the string from there on. \<open>None\<close> stands for a
  null pointer.\<close>

fun find_from :: "string option \<Rightarrow> bool \<Rightarrow> string \<Rightarrow> string \<times> string" where
  "find_from chars was_space [] = ([], [])"
| "find_from chars was_space (c # s) =
     (if (case chars of None \<Rightarrow> True | Some cs \<Rightarrow> c \<notin> set cs) \<and> \<not> (was_space \<and> c \<in> set INI_INLINE_COMMENT_PREFIXES)
      then (case find_from chars (isspace c) s of (a, b) \<Rightarrow> (c # a, b))
      else ([], c # s))"

definition find_chars_or_comment :: "string \<Rightarrow> string option \<Rightarrow> string \<times> string" where
  "find_chars_or_comment s chars = find_from chars False s"

definition strncpy0 :: "string \<Rightarrow> nat \<Rightarrow> string" where
  "strncpy0 src num = take (num - 1) src"

section \<open>The parser\<close>

record 'u ini =
  ini_section :: string
  ini_prev_name :: string
  ini_lineno :: nat
  ini_error :: nat
  ini_user :: 'u

type_synonym 'u ini_handler = "'u \<Rightarrow> string \<Rightarrow> string \<Rightarrow> string \<Rightarrow> bool \<times> 'u"

definition ini_fail :: "'u ini \<Rightarrow> 'u ini" where
  "ini_fail st = (if ini_error st = 0 then st\<lparr>ini_error := ini_lineno st\<rparr> else st)"

definition ini_call :: "'u ini_handler \<Rightarrow> string \<Rightarrow> string \<Rightarrow> 'u ini \<Rightarrow> 'u ini" where
  "ini_call handler name value st =
     (case handler (ini_user st) (ini_section st) name value of
        (ok, u) \<Rightarrow> let st = st\<lparr>ini_user := u\<rparr> in if ok then st else ini_fail st)"

text \<open>The first character of the line that counts, and whether it is behind the start of the line.\<close>

definition BOM :: string where "BOM = [CHR 0xEF, CHR 0xBB, CHR 0xBF]"

definition ini_start :: "nat \<Rightarrow> string \<Rightarrow> string \<times> bool" where
  "ini_start lineno line =
     (let bom = (lineno = 1 \<and> take 3 line = BOM);
          body = rstrip (if bom then drop 3 line else line);
          start = lskip body
      in (start, bom \<or> start \<noteq> body))"

definition ini_line :: "'u ini_handler \<Rightarrow> string \<Rightarrow> 'u ini \<Rightarrow> 'u ini" where
  "ini_line handler line st =
     (let st = st\<lparr>ini_lineno := ini_lineno st + 1\<rparr> in
      case ini_start (ini_lineno st) line of (start, moved) \<Rightarrow>
      if start \<noteq> [] \<and> (hd start = CHR '';'' \<or> hd start = CHR ''#'') then st
      else if ini_prev_name st \<noteq> [] \<and> start \<noteq> [] \<and> moved then ini_call handler (ini_prev_name st) start st
      else if start \<noteq> [] \<and> hd start = CHR ''['' then
        (case find_chars_or_comment (tl start) (Some '']'') of
           (a, b) \<Rightarrow>
             if b \<noteq> [] \<and> hd b = CHR '']'' then st\<lparr>ini_section := strncpy0 a MAX_SECTION, ini_prev_name := []\<rparr>
             else ini_fail st)
      else if start \<noteq> [] then
        (case find_chars_or_comment start (Some ''=:'') of
           (a, b) \<Rightarrow>
             if b \<noteq> [] \<and> (hd b = CHR ''='' \<or> hd b = CHR '':'') then
               let name = rstrip a; value = rstrip (fst (find_chars_or_comment (lskip (tl b)) None)) in
               ini_call handler name value (st\<lparr>ini_prev_name := strncpy0 name MAX_NAME\<rparr>)
             else ini_fail st)
      else st)"

function ini_loop :: "'u ini_handler \<Rightarrow> string \<Rightarrow> 'u ini \<Rightarrow> 'u ini" where
  "ini_loop handler inp st =
     (if inp = [] then st
      else case fgets INI_MAX_LINE inp of (line, inp') \<Rightarrow> ini_loop handler inp' (ini_line handler (cstr line) st))"
  by pat_completeness auto
termination
  by (relation "measure (\<lambda>(_, inp, _). length inp)") (auto simp: INI_MAX_LINE_def intro: fgets_shorter)

declare ini_loop.simps [simp del]

definition ini_parse_stream :: "'u ini_handler \<Rightarrow> string \<Rightarrow> 'u \<Rightarrow> nat \<times> 'u" where
  "ini_parse_stream handler inp user =
     (let st = ini_loop handler inp \<lparr>ini_section = [], ini_prev_name = [], ini_lineno = 0, ini_error = 0, ini_user = user\<rparr> in
      (ini_error st, ini_user st))"

text \<open>\<open>ini_parse\<close>; \<open>None\<close> when the file cannot be opened.\<close>

definition ini_parse :: "'u ini_handler \<Rightarrow> string option \<Rightarrow> 'u \<Rightarrow> int \<times> 'u" where
  "ini_parse handler content user =
     (case content of None \<Rightarrow> (- 1, user) | Some inp \<Rightarrow> (case ini_parse_stream handler inp user of (e, u) \<Rightarrow> (int e, u)))"

section \<open>Places in a line\<close>

definition trimmed :: "string \<Rightarrow> bool" where
  "trimmed s \<longleftrightarrow> (s \<noteq> [] \<longrightarrow> \<not> isspace (hd s) \<and> \<not> isspace (last s))"

text \<open>No semicolon behind a space: nothing of the string reads as a comment.\<close>

definition uncommented :: "string \<Rightarrow> bool" where
  "uncommented s \<longleftrightarrow> find_from None False s = (s, [])"

lemma rstrip_char [simp]: "rstrip (s @ [c]) = (if isspace c then rstrip s else s @ [c])"
  by (simp add: rstrip_def)

lemma rstrip_Nil [simp]: "rstrip [] = []"
  by (simp add: rstrip_def)

lemma rstrip_trimmed: "trimmed s \<Longrightarrow> rstrip s = s"
  by (cases s rule: rev_cases) (auto simp: trimmed_def)

lemma lskip_trimmed: "trimmed s \<Longrightarrow> lskip s = s"
  by (cases s) (auto simp: trimmed_def lskip_def)

lemma find_from_stop:
  "find_from (Some cs) w a = (a, []) \<Longrightarrow> c \<in> set cs \<Longrightarrow> find_from (Some cs) w (a @ c # b) = (a, c # b)"
  by (induction a arbitrary: w) (auto split: prod.splits if_splits)

lemma find_from_chars:
  "find_from None w a = (a, []) \<Longrightarrow> set a \<inter> set cs = {} \<Longrightarrow> find_from (Some cs) w a = (a, [])"
  by (induction a arbitrary: w) (auto split: prod.splits if_splits)

lemma find_from_suffix: "find_from chars w s = (a, b) \<Longrightarrow> s = a @ b"
  by (induction chars w s arbitrary: a b rule: find_from.induct) (auto split: prod.splits if_splits)

lemma find_uncommented:
  assumes "uncommented a" "set a \<inter> set cs = {}" "c \<in> set cs"
  shows "find_chars_or_comment (a @ c # b) (Some cs) = (a, c # b)"
  using find_from_stop [OF find_from_chars] assms by (simp add: uncommented_def find_chars_or_comment_def)

lemma find_absent:
  assumes "set s \<inter> set cs = {}" "find_chars_or_comment s (Some cs) = (a, b)" "b \<noteq> []"
  shows "hd b \<notin> set cs"
  using assms find_from_suffix [of "Some cs" False s a b] by (cases b) (auto simp: find_chars_or_comment_def)

section \<open>Printed files\<close>

datatype entry =
  Blank
| Comment char string
| Section string
| Pair string string
| More string
| Unclosed string
| Junk string

fun print_entry :: "entry \<Rightarrow> string" where
  "print_entry Blank = []"
| "print_entry (Comment m c) = m # c"
| "print_entry (Section s) = ''['' @ s @ '']''"
| "print_entry (Pair n v) = n @ ''='' @ v"
| "print_entry (More v) = '' '' @ v"
| "print_entry (Unclosed s) = ''['' @ s"
| "print_entry (Junk s) = s"

fun entry_wf :: "entry \<Rightarrow> bool" where
  "entry_wf Blank = True"
| "entry_wf (Comment m c) = (m \<in> {CHR '';'', CHR ''#''})"
| "entry_wf (Section s) = (CHR '']'' \<notin> set s \<and> uncommented s)"
| "entry_wf (Pair n v) =
     (n \<noteq> [] \<and> trimmed n \<and> uncommented n \<and> set n \<inter> set ''=:'' = {} \<and> hd n \<notin> set '';#['' \<and>
      trimmed v \<and> uncommented v)"
| "entry_wf (More v) = (v \<noteq> [] \<and> trimmed v \<and> hd v \<notin> set '';#'')"
| "entry_wf (Unclosed s) = (CHR '']'' \<notin> set s \<and> trimmed (''['' @ s))"
| "entry_wf (Junk s) = (s \<noteq> [] \<and> trimmed s \<and> set s \<inter> set ''=:'' = {} \<and> hd s \<notin> set '';#['')"

text \<open>One line of the file, short enough for the buffer also behind a byte order mark.\<close>

definition line_ok :: "entry \<Rightarrow> bool" where
  "line_ok e \<longleftrightarrow> entry_wf e \<and> length (print_entry e) \<le> 195 \<and> CHR 0x0A \<notin> set (print_entry e) \<and> nul_free (print_entry e)"

definition print_ini :: "entry list \<Rightarrow> string" where
  "print_ini es = concat (map (\<lambda>e. print_entry e @ [CHR 0x0A]) es)"

text \<open>Continuation lines follow a name of the same section.\<close>

fun continued :: "bool \<Rightarrow> entry list \<Rightarrow> bool" where
  "continued named [] = True"
| "continued named (Section s # es) = continued False es"
| "continued named (Pair n v # es) = continued True es"
| "continued named (More v # es) = (named \<and> continued named es)"
| "continued named (_ # es) = continued named es"

text \<open>What the entries mean: the calls of the handler in their order, and the numbers of the lines that
  failed. A section and the name of a continued value are cut to 49 characters.\<close>

fun ini_calls :: "'u ini_handler \<Rightarrow> nat \<Rightarrow> string \<Rightarrow> string \<Rightarrow> 'u \<Rightarrow> entry list \<Rightarrow> nat list \<times> 'u" where
  "ini_calls h k sec prev u [] = ([], u)"
| "ini_calls h k sec prev u (e # es) =
     (case e of
        Section s \<Rightarrow> ini_calls h (Suc k) (take 49 s) [] u es
      | Pair n v \<Rightarrow>
          (case h u sec n v of (ok, u') \<Rightarrow>
             apfst ((@) (if ok then [] else [k])) (ini_calls h (Suc k) sec (take 49 n) u' es))
      | More v \<Rightarrow>
          (case h u sec prev v of (ok, u') \<Rightarrow>
             apfst ((@) (if ok then [] else [k])) (ini_calls h (Suc k) sec prev u' es))
      | Unclosed s \<Rightarrow> apfst ((#) k) (ini_calls h (Suc k) sec prev u es)
      | Junk s \<Rightarrow> apfst ((#) k) (ini_calls h (Suc k) sec prev u es)
      | _ \<Rightarrow> ini_calls h (Suc k) sec prev u es)"

definition first_or_0 :: "nat list \<Rightarrow> nat" where
  "first_or_0 ks = (case ks of [] \<Rightarrow> 0 | k # _ \<Rightarrow> k)"

section \<open>The parser on printed files\<close>

definition entry_start :: "entry \<Rightarrow> string \<times> bool" where
  "entry_start e =
     (case e of
        More v \<Rightarrow> (v, True)
      | Comment m c \<Rightarrow> (m # rstrip c, False)
      | _ \<Rightarrow> (print_entry e, False))"

lemma trimmed_ends: "trimmed (c # s @ [d]) \<longleftrightarrow> \<not> isspace c \<and> \<not> isspace d"
  by (simp add: trimmed_def)

lemma rstrip_Cons: "\<not> isspace c \<Longrightarrow> rstrip (c # s) = c # rstrip s"
  by (simp add: rstrip_def dropWhile_append)

lemma trimmed_pair: "n \<noteq> [] \<Longrightarrow> trimmed n \<Longrightarrow> trimmed v \<Longrightarrow> trimmed (n @ CHR ''='' # v)"
  by (cases n) (auto simp: trimmed_def isspace_def)

lemma body_start:
  assumes "entry_wf e"
  shows "lskip (rstrip (print_entry e)) = fst (entry_start e)"
    and "fst (entry_start e) \<noteq> rstrip (print_entry e) \<longleftrightarrow> snd (entry_start e)"
proof -
  have sp: "isspace CHR '' ''" "\<not> isspace CHR '';''" "\<not> isspace CHR ''#''" "\<not> isspace CHR ''[''" "\<not> isspace CHR '']''"
    by (simp_all add: isspace_def)
  have tr: "trimmed s \<Longrightarrow> lskip (rstrip s) = s \<and> rstrip s = s" for s
    by (simp add: rstrip_trimmed lskip_trimmed)
  have "lskip (rstrip (print_entry e)) = fst (entry_start e) \<and>
      (lskip (rstrip (print_entry e)) \<noteq> rstrip (print_entry e) \<longleftrightarrow> snd (entry_start e))"
  proof (cases e)
    case (Comment m c)
    then show ?thesis using assms sp by (auto simp: entry_start_def rstrip_Cons lskip_def)
  next
    case (Section s)
    then show ?thesis using assms sp tr [of "''['' @ s @ '']''"] by (auto simp: entry_start_def trimmed_ends)
  next
    case (Pair n v)
    then show ?thesis using assms tr [of "n @ ''='' @ v"] trimmed_pair [of n v] by (auto simp: entry_start_def)
  next
    case (More v)
    then have "rstrip ('' '' @ v) = '' '' @ v" "lskip ('' '' @ v) = v"
      using assms sp tr [of v] by (cases v rule: rev_cases; auto simp: trimmed_def lskip_def rstrip_def)+
    then show ?thesis using More assms by (simp add: entry_start_def)
  next
    case Blank
    then show ?thesis by (simp add: entry_start_def lskip_def)
  qed (use assms in \<open>auto simp: entry_start_def rstrip_trimmed lskip_trimmed\<close>)
  then show "lskip (rstrip (print_entry e)) = fst (entry_start e)"
    and "fst (entry_start e) \<noteq> rstrip (print_entry e) \<longleftrightarrow> snd (entry_start e)"
    by auto
qed

lemma ini_start_print:
  assumes "entry_wf e" "bom \<Longrightarrow> k = 1" "\<not> bom \<Longrightarrow> k = 1 \<Longrightarrow> take 3 (print_entry e @ [CHR 0x0A]) \<noteq> BOM"
  shows "ini_start k ((if bom then BOM else []) @ print_entry e @ [CHR 0x0A]) =
    (fst (entry_start e), bom \<or> snd (entry_start e))"
proof -
  have nl: "rstrip (print_entry e @ [CHR 0x0A]) = rstrip (print_entry e)" by (simp add: isspace_def)
  have "length BOM = 3" by (simp add: BOM_def)
  then show ?thesis using assms by (auto simp: ini_start_def Let_def nl body_start(1) body_start(2) simp del: rstrip_char)
qed

text \<open>What one entry does to the state of the parser.\<close>

definition entry_step :: "'u ini_handler \<Rightarrow> entry \<Rightarrow> 'u ini \<Rightarrow> 'u ini" where
  "entry_step h e st =
     (let st = st\<lparr>ini_lineno := ini_lineno st + 1\<rparr> in
      case e of
        Section s \<Rightarrow> st\<lparr>ini_section := take 49 s, ini_prev_name := []\<rparr>
      | Pair n v \<Rightarrow> ini_call h n v (st\<lparr>ini_prev_name := take 49 n\<rparr>)
      | More v \<Rightarrow> ini_call h (ini_prev_name st) v st
      | Unclosed s \<Rightarrow> ini_fail st
      | Junk s \<Rightarrow> ini_fail st
      | _ \<Rightarrow> st)"

definition bom_ok :: "bool \<Rightarrow> 'u ini \<Rightarrow> string \<Rightarrow> bool" where
  "bom_ok bom st inp \<longleftrightarrow>
     (if bom then ini_lineno st = 0 \<and> ini_prev_name st = [] else ini_lineno st = 0 \<longrightarrow> take 3 inp \<noteq> BOM)"

lemma find_value: "uncommented v \<Longrightarrow> find_chars_or_comment v None = (v, [])"
  by (simp add: uncommented_def find_chars_or_comment_def)

lemma ini_line_print:
  assumes e: "entry_wf e" and bom: "bom_ok bom st (print_entry e @ [CHR 0x0A])"
    and more: "\<forall>v. e = More v \<longrightarrow> ini_prev_name st \<noteq> []"
  shows "ini_line h ((if bom then BOM else []) @ print_entry e @ [CHR 0x0A]) st = entry_step h e st"
proof -
  define l where "l = (if bom then BOM else []) @ print_entry e @ [CHR 0x0A]"
  have start: "ini_start (Suc (ini_lineno st)) l = (fst (entry_start e), bom \<or> snd (entry_start e))"
    unfolding l_def using e bom by (intro ini_start_print) (auto simp: bom_ok_def split: if_splits)
  have prev: "bom \<Longrightarrow> ini_prev_name st = []" using bom by (simp add: bom_ok_def)
  have "ini_line h l st = entry_step h e st"
  proof (cases e)
    case (Section s)
    then have "find_chars_or_comment (s @ '']'') (Some '']'') = (s, '']'')" using e by (intro find_uncommented) auto
    then show ?thesis using Section prev
      by (auto simp: ini_line_def start entry_start_def entry_step_def Let_def strncpy0_def MAX_SECTION_def)
  next
    case (Pair n v)
    then have "find_chars_or_comment (n @ CHR ''='' # v) (Some ''=:'') = (n, CHR ''='' # v)"
      using e by (intro find_uncommented) auto
    then show ?thesis using Pair prev e
      by (auto simp: ini_line_def start entry_start_def entry_step_def Let_def strncpy0_def MAX_NAME_def rstrip_trimmed
        lskip_trimmed find_value)
  next
    case (Unclosed s)
    obtain a b where f: "find_chars_or_comment s (Some '']'') = (a, b)" by fastforce
    moreover have "\<not> (b \<noteq> [] \<and> hd b = CHR '']'')" using find_absent [OF _ f] Unclosed e by auto
    ultimately show ?thesis using Unclosed prev
      by (auto simp: ini_line_def start entry_start_def entry_step_def Let_def)
  next
    case (Junk s)
    obtain a b where f: "find_chars_or_comment s (Some ''=:'') = (a, b)" by fastforce
    moreover have "\<not> (b \<noteq> [] \<and> (hd b = CHR ''='' \<or> hd b = CHR '':''))" using find_absent [OF _ f] Junk e by auto
    ultimately show ?thesis using Junk prev e
      by (auto simp: ini_line_def start entry_start_def entry_step_def Let_def)
  qed (use e more prev in \<open>auto simp: ini_line_def start entry_start_def entry_step_def Let_def\<close>)
  then show ?thesis by (simp add: l_def)
qed

lemma entry_step_names:
  "ini_lineno (entry_step h e st) = ini_lineno st + 1"
  "ini_prev_name (entry_step h e st) =
    (case e of Section s \<Rightarrow> [] | Pair n v \<Rightarrow> take 49 n | _ \<Rightarrow> ini_prev_name st)"
  by (auto simp: entry_step_def ini_call_def ini_fail_def Let_def split: entry.splits prod.splits)

lemma ini_loop_print:
  assumes "\<forall>e\<in>set es. line_ok e" "continued (ini_prev_name st \<noteq> []) es" "bom_ok bom st (print_ini es)" "bom \<Longrightarrow> es \<noteq> []"
  shows "ini_loop h ((if bom then BOM else []) @ print_ini es) st = fold (entry_step h) es st"
  using assms
proof (induction es arbitrary: st bom)
  case Nil
  then have "\<not> bom" by auto
  then show ?case by (simp add: print_ini_def ini_loop.simps)
next
  case (Cons e es)
  define l where "l = (if bom then BOM else []) @ print_entry e"
  have e: "line_ok e" using Cons.prems by simp
  have len: "length l < 199" "CHR 0x0A \<notin> set l" "nul_free l"
    using e by (auto simp: l_def line_ok_def BOM_def)
  have inp: "(if bom then BOM else []) @ print_ini (e # es) = l @ CHR 0x0A # print_ini es"
    by (simp add: l_def print_ini_def)
  have "take 3 (print_entry e @ [CHR 0x0A]) = BOM \<Longrightarrow> take 3 (print_ini (e # es)) = BOM"
    by (auto simp: print_ini_def BOM_def take_Cons' split: if_splits)
  then have "bom_ok bom st (print_entry e @ [CHR 0x0A])" using Cons.prems(3) by (auto simp: bom_ok_def)
  moreover have more: "\<forall>v. e = More v \<longrightarrow> ini_prev_name st \<noteq> []" using Cons.prems(2) by auto
  ultimately have line: "ini_line h (l @ [CHR 0x0A]) st = entry_step h e st"
    using ini_line_print [of e bom st h] e more by (simp add: l_def line_ok_def)
  have "continued (ini_prev_name (entry_step h e st) \<noteq> []) es"
    using Cons.prems(2) e by (cases e) (auto simp: entry_step_names line_ok_def)
  then have "ini_loop h ((if False then BOM else []) @ print_ini es) (entry_step h e st) = fold (entry_step h) es (entry_step h e st)"
    using Cons.prems(1) by (intro Cons.IH) (auto simp: bom_ok_def entry_step_names)
  then show ?case
    using len by (subst ini_loop.simps) (simp add: inp fgets_line INI_MAX_LINE_def line)
qed

lemma fold_entries:
  "ini_calls h (ini_lineno st + 1) (ini_section st) (ini_prev_name st) (ini_user st) es = (fs, u) \<Longrightarrow>
    ini_error (fold (entry_step h) es st) = (if ini_error st = 0 then first_or_0 fs else ini_error st) \<and>
    ini_user (fold (entry_step h) es st) = u"
proof (induction es arbitrary: st fs u)
  case Nil
  then show ?case by (simp add: first_or_0_def)
next
  case (Cons e es)
  let ?st = "entry_step h e st"
  obtain gs v where IH: "ini_calls h (ini_lineno ?st + 1) (ini_section ?st) (ini_prev_name ?st) (ini_user ?st) es = (gs, v)"
    by fastforce
  show ?case
    using Cons.prems Cons.IH [OF IH] IH
    by (cases e)
      (auto simp: entry_step_def ini_call_def ini_fail_def first_or_0_def Let_def split: prod.splits if_splits)
qed

text \<open>
  C24. What the reader makes of a file that is printed from entries, with or without a byte order mark: it
  calls the handler once for every pair and every continuation line, in the order of the file, and its
  result is the number of the first line that failed, or 0. A line that fails does not stop it.\<close>

theorem ini_parse_correct:
  assumes "\<forall>e\<in>set es. line_ok e" "continued False es" "es \<noteq> []" "bom \<or> take 3 (print_ini es) \<noteq> BOM"
  shows "ini_parse handler (Some ((if bom then BOM else []) @ print_ini es)) user =
    (case ini_calls handler 1 [] [] user es of (failed, user') \<Rightarrow> (int (first_or_0 failed), user'))"
proof -
  define st where "st = \<lparr>ini_section = [], ini_prev_name = [], ini_lineno = 0, ini_error = 0, ini_user = user\<rparr>"
  have "ini_loop handler ((if bom then BOM else []) @ print_ini es) st = fold (entry_step handler) es st"
    using assms by (intro ini_loop_print) (auto simp: bom_ok_def st_def)
  moreover obtain fs u where "ini_calls handler 1 [] [] user es = (fs, u)" by fastforce
  ultimately show ?thesis
    using fold_entries [of handler st es fs u] by (simp add: ini_parse_def ini_parse_stream_def Let_def st_def)
qed

definition collect :: "(string \<times> string \<times> string) list ini_handler" where
  "collect u section name value = (name \<noteq> ''bad'', u @ [(section, name, value)])"

definition sample_ini :: "entry list" where
  "sample_ini =
     [Comment CHR '';'' '' settings'', Pair ''a'' ''1'', Blank, Section ''net'', Pair ''host'' ''x y'', More ''z'', Junk ''what'',
      Pair ''bad'' []]"

theorem ini_parse_correct_witness:
  "ini_parse collect (Some (BOM @ print_ini sample_ini)) [] =
     (7, [([], ''a'', ''1''), (''net'', ''host'', ''x y''), (''net'', ''host'', ''z''), (''net'', ''bad'', [])])"
proof -
  have "\<forall>e\<in>set sample_ini. line_ok e"
    by (simp add: sample_ini_def line_ok_def trimmed_def isspace_def uncommented_def INI_INLINE_COMMENT_PREFIXES_def)
  moreover have "continued False sample_ini" "sample_ini \<noteq> []" by (simp_all add: sample_ini_def)
  ultimately show ?thesis
    using ini_parse_correct [of sample_ini True collect "[]"]
    by (simp add: sample_ini_def collect_def first_or_0_def)
qed

text \<open>
  A line that is longer than the buffer is read as several lines: what does not fit is taken for a line
  of its own, so that a value is cut and its rest is reported as an error.\<close>

theorem ini_long_line_split:
  "ini_parse collect (Some (''a='' @ replicate 250 CHR ''x'')) [] = (2, [([], ''a'', replicate 197 CHR ''x'')])"
  by code_simp

end
