(* ===== verification/Common_Hash.thy ===== *)
theory Common_Hash
  imports Prelude
begin

text \<open>
  \<open>common/crc32.h\<close> and \<open>common/sdbm_hash.h\<close>: the two hash functions on C strings. The table of the checksum is
  shown to be the one of the reflected polynomial \<open>0xEDB88320\<close>, so that the loop over bytes computes what
  shifting out one bit at a time computes.
\<close>

section \<open>Definitions\<close>

definition kCrc32Table :: "u32 list" where
  "kCrc32Table =
    [0x00000000, 0x77073096, 0xEE0E612C, 0x990951BA, 0x076DC419, 0x706AF48F, 0xE963A535, 0x9E6495A3,
     0x0EDB8832, 0x79DCB8A4, 0xE0D5E91E, 0x97D2D988, 0x09B64C2B, 0x7EB17CBD, 0xE7B82D07, 0x90BF1D91,
     0x1DB71064, 0x6AB020F2, 0xF3B97148, 0x84BE41DE, 0x1ADAD47D, 0x6DDDE4EB, 0xF4D4B551, 0x83D385C7,
     0x136C9856, 0x646BA8C0, 0xFD62F97A, 0x8A65C9EC, 0x14015C4F, 0x63066CD9, 0xFA0F3D63, 0x8D080DF5,
     0x3B6E20C8, 0x4C69105E, 0xD56041E4, 0xA2677172, 0x3C03E4D1, 0x4B04D447, 0xD20D85FD, 0xA50AB56B,
     0x35B5A8FA, 0x42B2986C, 0xDBBBC9D6, 0xACBCF940, 0x32D86CE3, 0x45DF5C75, 0xDCD60DCF, 0xABD13D59,
     0x26D930AC, 0x51DE003A, 0xC8D75180, 0xBFD06116, 0x21B4F4B5, 0x56B3C423, 0xCFBA9599, 0xB8BDA50F,
     0x2802B89E, 0x5F058808, 0xC60CD9B2, 0xB10BE924, 0x2F6F7C87, 0x58684C11, 0xC1611DAB, 0xB6662D3D,
     0x76DC4190, 0x01DB7106, 0x98D220BC, 0xEFD5102A, 0x71B18589, 0x06B6B51F, 0x9FBFE4A5, 0xE8B8D433,
     0x7807C9A2, 0x0F00F934, 0x9609A88E, 0xE10E9818, 0x7F6A0DBB, 0x086D3D2D, 0x91646C97, 0xE6635C01,
     0x6B6B51F4, 0x1C6C6162, 0x856530D8, 0xF262004E, 0x6C0695ED, 0x1B01A57B, 0x8208F4C1, 0xF50FC457,
     0x65B0D9C6, 0x12B7E950, 0x8BBEB8EA, 0xFCB9887C, 0x62DD1DDF, 0x15DA2D49, 0x8CD37CF3, 0xFBD44C65,
     0x4DB26158, 0x3AB551CE, 0xA3BC0074, 0xD4BB30E2, 0x4ADFA541, 0x3DD895D7, 0xA4D1C46D, 0xD3D6F4FB,
     0x4369E96A, 0x346ED9FC, 0xAD678846, 0xDA60B8D0, 0x44042D73, 0x33031DE5, 0xAA0A4C5F, 0xDD0D7CC9,
     0x5005713C, 0x270241AA, 0xBE0B1010, 0xC90C2086, 0x5768B525, 0x206F85B3, 0xB966D409, 0xCE61E49F,
     0x5EDEF90E, 0x29D9C998, 0xB0D09822, 0xC7D7A8B4, 0x59B33D17, 0x2EB40D81, 0xB7BD5C3B, 0xC0BA6CAD,
     0xEDB88320, 0x9ABFB3B6, 0x03B6E20C, 0x74B1D29A, 0xEAD54739, 0x9DD277AF, 0x04DB2615, 0x73DC1683,
     0xE3630B12, 0x94643B84, 0x0D6D6A3E, 0x7A6A5AA8, 0xE40ECF0B, 0x9309FF9D, 0x0A00AE27, 0x7D079EB1,
     0xF00F9344, 0x8708A3D2, 0x1E01F268, 0x6906C2FE, 0xF762575D, 0x806567CB, 0x196C3671, 0x6E6B06E7,
     0xFED41B76, 0x89D32BE0, 0x10DA7A5A, 0x67DD4ACC, 0xF9B9DF6F, 0x8EBEEFF9, 0x17B7BE43, 0x60B08ED5,
     0xD6D6A3E8, 0xA1D1937E, 0x38D8C2C4, 0x4FDFF252, 0xD1BB67F1, 0xA6BC5767, 0x3FB506DD, 0x48B2364B,
     0xD80D2BDA, 0xAF0A1B4C, 0x36034AF6, 0x41047A60, 0xDF60EFC3, 0xA867DF55, 0x316E8EEF, 0x4669BE79,
     0xCB61B38C, 0xBC66831A, 0x256FD2A0, 0x5268E236, 0xCC0C7795, 0xBB0B4703, 0x220216B9, 0x5505262F,
     0xC5BA3BBE, 0xB2BD0B28, 0x2BB45A92, 0x5CB36A04, 0xC2D7FFA7, 0xB5D0CF31, 0x2CD99E8B, 0x5BDEAE1D,
     0x9B64C2B0, 0xEC63F226, 0x756AA39C, 0x026D930A, 0x9C0906A9, 0xEB0E363F, 0x72076785, 0x05005713,
     0x95BF4A82, 0xE2B87A14, 0x7BB12BAE, 0x0CB61B38, 0x92D28E9B, 0xE5D5BE0D, 0x7CDCEFB7, 0x0BDBDF21,
     0x86D3D2D4, 0xF1D4E242, 0x68DDB3F8, 0x1FDA836E, 0x81BE16CD, 0xF6B9265B, 0x6FB077E1, 0x18B74777,
     0x88085AE6, 0xFF0F6A70, 0x66063BCA, 0x11010B5C, 0x8F659EFF, 0xF862AE69, 0x616BFFD3, 0x166CCF45,
     0xA00AE278, 0xD70DD2EE, 0x4E048354, 0x3903B3C2, 0xA7672661, 0xD06016F7, 0x4969474D, 0x3E6E77DB,
     0xAED16A4A, 0xD9D65ADC, 0x40DF0B66, 0x37D83BF0, 0xA9BCAE53, 0xDEBB9EC5, 0x47B2CF7F, 0x30B5FFE9,
     0xBDBDF21C, 0xCABAC28A, 0x53B39330, 0x24B4A3A6, 0xBAD03605, 0xCDD70693, 0x54DE5729, 0x23D967BF,
     0xB3667A2E, 0xC4614AB8, 0x5D681B02, 0x2A6F2B94, 0xB40BBE37, 0xC30C8EA1, 0x5A05DF1B, 0x2D02EF8D]"

definition crc_step :: "u32 \<Rightarrow> char \<Rightarrow> u32" where
  "crc_step crc c = drop_bit 8 crc XOR kCrc32Table ! unat ((crc XOR of_char c) AND 0xFF)"

text \<open>The loop counts down a 32-bit copy of the length; \<open>None\<close> is a read behind the string.\<close>

fun crc_loop :: "u32 \<Rightarrow> u32 \<Rightarrow> string \<Rightarrow> u32 option" where
  "crc_loop crc remaining [] = (if remaining = 0 then Some crc else None)"
| "crc_loop crc remaining (c # s) = (if remaining = 0 then Some crc else crc_loop (crc_step crc c) (remaining - 1) s)"

definition Crc32 :: "string \<Rightarrow> u64 option" where
  "Crc32 str = map_option (\<lambda>crc. ucast (NOT crc)) (crc_loop (NOT 0) (of_nat (length str)) str)"

fun sdbm_loop :: "u64 \<Rightarrow> string \<Rightarrow> u64" where
  "sdbm_loop hash [] = hash"
| "sdbm_loop hash (c # s) = sdbm_loop (of_int (schar c) + push_bit 6 hash + push_bit 16 hash - hash) s"

definition SdbmHash :: "string \<Rightarrow> u64" where
  "SdbmHash str = sdbm_loop 0 str"

section \<open>The checksum bit by bit\<close>

definition crc_bit :: "u32 \<Rightarrow> u32" where
  "crc_bit crc = (if bit crc 0 then drop_bit 1 crc XOR 0xEDB88320 else drop_bit 1 crc)"

definition crc_byte :: "u32 \<Rightarrow> char \<Rightarrow> u32" where
  "crc_byte crc c = (crc_bit ^^ 8) (crc XOR of_char c)"

lemma xor_cancel: "(a :: u32) XOR c = b XOR c \<Longrightarrow> a = b"
proof -
  assume "a XOR c = b XOR c"
  then have "(a XOR c) XOR c = (b XOR c) XOR c" by (rule arg_cong)
  then show ?thesis by (simp add: xor.assoc)
qed

lemma crc_bit_xor: "crc_bit (x XOR y) = crc_bit x XOR crc_bit y"
  by (simp add: crc_bit_def bit_xor_iff drop_bit_xor ac_simps)

lemma crc_bit_top: "bit (crc_bit x) 31 \<longleftrightarrow> bit x 0"
  using bit_imp_le_length [of x 32] by (auto simp: crc_bit_def bit_xor_iff bit_drop_bit_eq)

lemma crc_bit_inj: "crc_bit x = crc_bit y \<Longrightarrow> x = y"
proof -
  assume eq: "crc_bit x = crc_bit y"
  then have low: "bit x 0 \<longleftrightarrow> bit y 0" by (metis crc_bit_top)
  then have "drop_bit 1 x = drop_bit 1 y" using eq low xor_cancel [of "drop_bit 1 x" "0xEDB88320" "drop_bit 1 y"] by (auto simp: crc_bit_def split: if_splits)
  then have "bit x (Suc n) \<longleftrightarrow> bit y (Suc n)" for n by (metis bit_drop_bit_eq comp_apply plus_1_eq_Suc)
  then show ?thesis using low by (metis bit_eqI not0_implies_Suc)
qed

lemma crc_bit_pow_xor: "(crc_bit ^^ n) (x XOR y) = (crc_bit ^^ n) x XOR (crc_bit ^^ n) y"
  by (induction n) (simp_all add: crc_bit_xor)

lemma crc_bit_pow_inj: "(crc_bit ^^ n) x = (crc_bit ^^ n) y \<Longrightarrow> x = y"
  by (induction n arbitrary: x y) (auto dest: crc_bit_inj)

lemma crc_bit_pow_shift: "(\<And>i. i < n \<Longrightarrow> \<not> bit x i) \<Longrightarrow> (crc_bit ^^ n) x = drop_bit n x"
proof (induction n arbitrary: x)
  case (Suc n)
  have "crc_bit x = drop_bit 1 x" using Suc.prems [of 0] by (simp add: crc_bit_def)
  moreover have "(crc_bit ^^ n) (drop_bit 1 x) = drop_bit n (drop_bit 1 x)"
    using Suc.prems by (intro Suc.IH) (simp add: bit_drop_bit_eq)
  ultimately show ?case by (simp add: funpow_swap1 del: funpow.simps) (simp add: ac_simps funpow_swap1)
qed simp

text \<open>The table: entry \<open>2 * i\<close> becomes entry \<open>i\<close> when its last bit is shifted out, and entry \<open>2 * i + 1\<close> differs
  from it by the entry of 1.\<close>

fun table_pairs :: "u32 list \<Rightarrow> u32 list \<Rightarrow> bool" where
  "table_pairs (a # b # xs) (y # ys) \<longleftrightarrow> crc_bit a = y \<and> b = a XOR 0x77073096 \<and> table_pairs xs ys"
| "table_pairs xs ys \<longleftrightarrow> xs = []"

lemma table_pairs_nth:
  "table_pairs xs ys \<Longrightarrow> 2 * i < length xs \<Longrightarrow>
    crc_bit (xs ! (2 * i)) = ys ! i \<and> xs ! (2 * i + 1) = xs ! (2 * i) XOR 0x77073096"
proof (induction xs ys arbitrary: i rule: table_pairs.induct)
  case (1 a b xs y ys)
  then show ?case by (cases i) auto
qed auto

lemma crc_table_pairs: "table_pairs kCrc32Table kCrc32Table"
  by (simp add: kCrc32Table_def crc_bit_def bit_0)

lemma crc_table_length: "length kCrc32Table = 256"
  by (simp add: kCrc32Table_def)

lemma crc_bit_one: "(crc_bit ^^ 8) 1 = 0x77073096"
  by code_simp

lemma crc_bit_double: "k < 2 ^ 31 \<Longrightarrow> crc_bit (of_nat (2 * k)) = of_nat k"
  by (simp add: crc_bit_def bit_0 word_unat_eq_iff unat_drop_bit_eq unat_of_nat take_bit_nat_eq_self drop_bit_eq_div
    del: of_nat_mult drop_bit_eq_div) (simp add: drop_bit_eq_div)

lemma crc_byte_double: "k < 128 \<Longrightarrow> crc_bit ((crc_bit ^^ 8) (of_nat (2 * k))) = (crc_bit ^^ 8) (of_nat k)"
  using crc_bit_double [of k] by (simp add: funpow_swap1 del: of_nat_mult) 

lemma crc_table_nth: "i < 256 \<Longrightarrow> kCrc32Table ! i = (crc_bit ^^ 8) (of_nat i)"
proof (induction i rule: less_induct)
  case (less i)
  define k where "k = i div 2"
  have pairs: "crc_bit (kCrc32Table ! (2 * k)) = kCrc32Table ! k"
    "kCrc32Table ! (2 * k + 1) = kCrc32Table ! (2 * k) XOR 0x77073096"
    using table_pairs_nth [OF crc_table_pairs, of k] less.prems by (auto simp: crc_table_length k_def)
  have even: "kCrc32Table ! (2 * k) = (crc_bit ^^ 8) (of_nat (2 * k))"
  proof (cases "k = 0")
    case True
    then show ?thesis using crc_bit_pow_shift [of 8 0] by (simp add: kCrc32Table_def)
  next
    case False
    then have "kCrc32Table ! k = (crc_bit ^^ 8) (of_nat k)" using less by (simp add: k_def)
    then have "crc_bit (kCrc32Table ! (2 * k)) = crc_bit ((crc_bit ^^ 8) (of_nat (2 * k)))"
      using pairs(1) crc_byte_double [of k] less.prems by (simp add: k_def)
    then show ?thesis by (rule crc_bit_inj)
  qed
  show ?case
  proof (cases "even i")
    case True
    then show ?thesis using even by (simp add: k_def)
  next
    case False
    then have i: "i = 2 * k + 1" by (simp add: k_def)
    then have "(of_nat i :: u32) = of_nat (2 * k) XOR 1" by (simp add: xor_one_eq)
    then show ?thesis using pairs(2) even by (simp only: i crc_bit_pow_xor crc_bit_one)
  qed
qed

lemma mask_8: "(0xFF :: u32) = mask 8"
  by (simp add: mask_eq_exp_minus_1)

lemma of_char_high: "8 \<le> i \<Longrightarrow> \<not> bit (of_char c :: u32) i"
proof -
  assume "8 \<le> i"
  have "(of_char c :: u32) = of_nat (of_char c)" by (rule of_nat_of_char [symmetric])
  moreover have "(of_char c :: nat) < 2 ^ i"
    by (rule less_le_trans [of _ "2 ^ 8"]) (use \<open>8 \<le> i\<close> power_increasing [of 8 i "2 :: nat"] in simp_all)
  then have "\<not> bit (of_char c :: nat) i" by (simp add: bit_iff_odd)
  ultimately show ?thesis by (simp add: bit_of_nat_iff)
qed

lemma crc_step_byte: "crc_step crc c = crc_byte crc c"
proof -
  define x where "x = crc XOR (of_char c :: u32)"
  have "x = (x AND NOT (mask 8)) XOR (x AND mask 8)" by (rule bit_eqI) (auto simp: bit_simps)
  then have "(crc_bit ^^ 8) x = (crc_bit ^^ 8) (x AND NOT (mask 8)) XOR (crc_bit ^^ 8) (x AND mask 8)"
    by (metis crc_bit_pow_xor)
  moreover have "(crc_bit ^^ 8) (x AND NOT (mask 8)) = drop_bit 8 (x AND NOT (mask 8))"
    by (rule crc_bit_pow_shift) (auto simp: bit_simps)
  moreover have "drop_bit 8 (x AND NOT (mask 8)) = drop_bit 8 crc"
    by (rule bit_eqI) (auto simp: bit_simps x_def of_char_high dest: bit_imp_le_length)
  moreover have "unat (x AND mask 8) < 256" 
    using and_mask_less_size [of 8 x] by (simp add: word_less_nat_alt word_size)
  ultimately show ?thesis by (simp add: crc_step_def crc_byte_def crc_table_nth x_def mask_8)
qed

lemma crc_loop_take:
  "unat remaining \<le> length s \<Longrightarrow> crc_loop crc remaining s = Some (foldl crc_byte crc (take (unat remaining) s))"
proof (induction crc remaining s rule: crc_loop.induct)
  case (2 crc remaining c s)
  show ?case
  proof (cases "remaining = 0")
    case False
    then have n: "unat remaining = Suc (unat (remaining - 1))" by (metis unat_minus_one Suc_pred' unat_gt_0)
    then show ?thesis using 2 False by (simp add: crc_step_byte)
  qed simp
qed (simp add: unat_eq_0)

lemma Crc32_fold: "length str < 2 ^ 32 \<Longrightarrow> Crc32 str = Some (ucast (NOT (foldl crc_byte (NOT 0) str)))"
  using crc_loop_take [of "of_nat (length str)" str "NOT 0"]
  by (simp add: Crc32_def unat_of_nat take_bit_nat_eq_self)

text \<open>
  C25. The checksum is the reflected CRC-32 of the polynomial \<open>0xEDB88320\<close>, computed bit by bit, of the string;
  of one of four gigabytes or more, only of the part that is left of its length in 32 bits.\<close>

theorem Crc32_bitwise:
  "Crc32 str = Some (ucast (NOT (foldl crc_byte (NOT 0) (take (length str mod 2 ^ 32) str))))"
proof -
  have "unat (of_nat (length str) :: u32) = length str mod 2 ^ 32" by (simp add: unat_of_nat take_bit_eq_mod)
  then show ?thesis using crc_loop_take [of "of_nat (length str)" str "NOT 0"] by (simp add: Crc32_def)
qed

lemma Crc32_check: "Crc32 ''123456789'' = Some 0xCBF43926"
  by code_simp

lemma crc_byte_inj: "crc_byte x c = crc_byte y c \<Longrightarrow> x = y"
  unfolding crc_byte_def by (drule crc_bit_pow_inj) (rule xor_cancel)

lemma foldl_crc_inj: "foldl crc_byte x s = foldl crc_byte y s \<Longrightarrow> x = y"
  by (induction s arbitrary: x y) (auto dest: crc_byte_inj)

lemma crc_byte_char_inj: "crc_byte x a = crc_byte x b \<Longrightarrow> a = b"
proof -
  assume "crc_byte x a = crc_byte x b"
  then have "(of_char a :: u32) XOR x = of_char b XOR x" unfolding crc_byte_def by (metis crc_bit_pow_inj xor.commute)
  then have "(of_char a :: u32) = of_char b" by (rule xor_cancel)
  then have "unat (of_nat (of_char a) :: u32) = unat (of_nat (of_char b) :: u32)" by (simp add: of_nat_of_char)
  moreover have "unat (of_nat (of_char c) :: u32) = of_char c" for c
    using less_trans [of "of_char c :: nat" 256 "2 ^ 32"] by (simp add: unat_of_nat take_bit_nat_eq_self)
  ultimately have "(of_char a :: nat) = of_char b" by simp
  then show ?thesis by (simp add: of_char_eq_iff)
qed

lemma ucast_up_inj: "(ucast (x :: u32) :: u64) = ucast y \<Longrightarrow> x = y"
  by (simp add: bit_eq_iff bit_ucast_iff)

text \<open>
  Two strings of less than four gigabytes that differ in exactly one character have different
  checksums.\<close>

theorem Crc32_detects:
  assumes "a \<noteq> b" "length (p @ a # q) < 2 ^ 32"
  shows "Crc32 (p @ a # q) \<noteq> Crc32 (p @ b # q)"
proof
  let ?f = "\<lambda>c. foldl crc_byte (NOT 0) (p @ c # q)"
  assume "Crc32 (p @ a # q) = Crc32 (p @ b # q)"
  then have "(ucast (NOT (?f a)) :: u64) = ucast (NOT (?f b))" using assms by (simp add: Crc32_fold)
  then have "NOT (?f a) = NOT (?f b)" by (rule ucast_up_inj)
  then have "?f a = ?f b" by simp
  then have "a = b" by (auto dest!: foldl_crc_inj crc_byte_char_inj)
  then show False using assms by simp
qed

theorem Crc32_detects_witness: "Crc32 ''cat'' \<noteq> Crc32 ''cut''"
  using Crc32_detects [of "CHR ''a''" "CHR ''u''" "''c''" "''t''"] by simp

text \<open>
  The other hash is the polynomial with the factor 65599 in the signed characters, modulo \<open>2 ^ 64\<close>.\<close>

theorem SdbmHash_polynomial: "SdbmHash str = foldl (\<lambda>h c. h * 65599 + of_int (schar c)) 0 str"
proof -
  have "of_int (schar c) + push_bit 6 h + push_bit 16 h - h = h * 65599 + of_int (schar c)" for h :: u64 and c
    by (simp add: push_bit_eq_mult algebra_simps)
  then have "sdbm_loop h str = foldl (\<lambda>h c. h * 65599 + of_int (schar c)) h str" for h
    by (induction str arbitrary: h) (simp_all only: sdbm_loop.simps foldl.simps)
  then show ?thesis by (simp add: SdbmHash_def)
qed

end
