(* ===== verification/Common_HashDB.thy ===== *)
theory Common_HashDB
  imports Prelude
begin

text \<open>
  \<open>common/linklist.h\<close> and \<open>common/hdb.h\<close>: singly linked lists of keyed items behind a head cell, and the hash
  table of such lists. The items belong to the caller and live in one heap; \<open>None\<close> is an access through
  a dangling pointer, or a walk that does not end.
\<close>

section \<open>Lists\<close>

record Item =
  item_key :: string
  item_next :: "addr option"

type_synonym items = "addr \<Rightarrow> Item option"

record LinkList =
  ll_head :: addr
  ll_length :: int

text \<open>The constructor, with the address that \<open>new\<close> returns.\<close>

definition LinkList_new :: "addr \<Rightarrow> items \<Rightarrow> items \<times> LinkList" where
  "LinkList_new a h = (h(a \<mapsto> \<lparr>item_key = [], item_next = None\<rparr>), \<lparr>ll_head = a, ll_length = 0\<rparr>)"

partial_function (option) delete_walk :: "items \<Rightarrow> addr option \<Rightarrow> items option" where
  "delete_walk h q =
     (case q of
        None \<Rightarrow> Some h
      | Some p \<Rightarrow>
          (case h p of
             None \<Rightarrow> None
           | Some it \<Rightarrow> delete_walk (if item_next it \<noteq> None then h(p := None) else h) (item_next it)))"

definition LinkList_delete :: "LinkList \<Rightarrow> items \<Rightarrow> items option" where
  "LinkList_delete l h = delete_walk h (Some (ll_head l))"

partial_function (option) last_item :: "items \<Rightarrow> addr \<Rightarrow> addr option" where
  "last_item h p =
     (case h p of
        None \<Rightarrow> None
      | Some it \<Rightarrow> (case item_next it of None \<Rightarrow> Some p | Some q \<Rightarrow> last_item h q))"

definition set_item_next :: "addr \<Rightarrow> addr option \<Rightarrow> items \<Rightarrow> items option" where
  "set_item_next p v h = (case h p of None \<Rightarrow> None | Some it \<Rightarrow> Some (h(p \<mapsto> it\<lparr>item_next := v\<rparr>)))"

definition insertItem :: "addr \<Rightarrow> LinkList \<Rightarrow> items \<Rightarrow> (LinkList \<times> items) option" where
  "insertItem newItem l h =
     (case h (ll_head l) of
        None \<Rightarrow> None
      | Some it \<Rightarrow>
          if item_next it = None then
            do {h \<leftarrow> set_item_next (ll_head l) (Some newItem) h;
                Some (l\<lparr>ll_length := ll_length l + 1\<rparr>, h)}
          else
            do {p \<leftarrow> last_item h (ll_head l);
                h \<leftarrow> set_item_next p (Some newItem) h;
                h \<leftarrow> set_item_next newItem None h;
                Some (l\<lparr>ll_length := ll_length l + 1\<rparr>, h)})"

partial_function (option) remove_walk ::
  "string \<Rightarrow> LinkList \<Rightarrow> items \<Rightarrow> addr \<Rightarrow> addr option \<Rightarrow> (bool \<times> LinkList \<times> items) option" where
  "remove_walk itemKey l h p q =
     (case q of
        None \<Rightarrow> Some (False, l, h)
      | Some q' \<Rightarrow>
          (case h q' of
             None \<Rightarrow> None
           | Some it \<Rightarrow>
               if item_key it = itemKey then
                 do {h \<leftarrow> set_item_next p (item_next it) h;
                     Some (True, l\<lparr>ll_length := ll_length l - 1\<rparr>, h(q' := None))}
               else remove_walk itemKey l h q' (item_next it)))"

definition removeItem :: "string \<Rightarrow> LinkList \<Rightarrow> items \<Rightarrow> (bool \<times> LinkList \<times> items) option" where
  "removeItem itemKey l h =
     (case h (ll_head l) of
        None \<Rightarrow> None
      | Some it \<Rightarrow>
          if item_next it = None then Some (False, l, h)
          else remove_walk itemKey l h (ll_head l) (Some (ll_head l)))"

partial_function (option) get_walk :: "string \<Rightarrow> addr \<Rightarrow> items \<Rightarrow> addr option \<Rightarrow> addr option option" where
  "get_walk itemKey head h q =
     (if q = None then Some None
      else
        do {it \<leftarrow> h (the q);
            if the q \<noteq> head \<and> item_key it = itemKey then Some q
            else get_walk itemKey head h (item_next it)})"

definition getItem :: "string \<Rightarrow> LinkList \<Rightarrow> items \<Rightarrow> addr option option" where
  "getItem itemKey l h = get_walk itemKey (ll_head l) h (Some (ll_head l))"

partial_function (option) print_walk :: "addr \<Rightarrow> items \<Rightarrow> addr option \<Rightarrow> string option" where
  "print_walk head h q =
     (case q of
        None \<Rightarrow> Some []
      | Some p \<Rightarrow>
          (case h p of
             None \<Rightarrow> None
           | Some it \<Rightarrow>
               do {rest \<leftarrow> print_walk head h (item_next it);
                   Some ((if p \<noteq> head then item_key it @ (if item_next it \<noteq> None then '', '' else '' '') else []) @ rest)}))"

definition printList :: "LinkList \<Rightarrow> items \<Rightarrow> string option" where
  "printList l h =
     (if ll_length l = 0 then Some ([CHR 0x0A] @ ''{ }'' @ [CHR 0x0A])
      else do {body \<leftarrow> print_walk (ll_head l) h (Some (ll_head l));
               Some ([CHR 0x0A] @ ''{ '' @ body @ ''}'' @ [CHR 0x0A])})"

section \<open>The table\<close>

record HashDB =
  hdb_array :: "LinkList list"
  hdb_db :: string

definition hdb_magic :: string where
  "hdb_magic = [CHR 0x12, CHR 0x34, CHR 0xF1, CHR 0xC4, CHR 0x02, CHR 0xA1, CHR 0xE2, CHR 0xC0]"

text \<open>\<open>checksum\<close>: what it prints. The bytes that a short file does not fill keep what the buffer holds.\<close>

definition hdb_checksum :: "string \<Rightarrow> string \<Rightarrow> string list" where
  "hdb_checksum junk content =
     (if overwrite junk (take 8 content) \<noteq> hdb_magic then [''Checksum failed''] else [])"

text \<open>The sum of the signed characters, an \<open>int\<close>, is multiplied and reduced as a \<open>size_t\<close>. A key of sixteen
  million characters or more could overflow the sum, which is not modelled.\<close>

definition hdb_hash :: "HashDB \<Rightarrow> string \<Rightarrow> nat" where
  "hdb_hash db itemKey =
     unat ((of_int (sum_list (map schar itemKey)) * of_nat (length itemKey) :: u64) mod of_nat (length (hdb_array db)))"

fun new_lists :: "addr list \<Rightarrow> items \<Rightarrow> items \<times> LinkList list" where
  "new_lists [] h = (h, [])"
| "new_lists (a # as) h =
     (case LinkList_new a h of (h, l) \<Rightarrow> (case new_lists as h of (h, ls) \<Rightarrow> (h, l # ls)))"

definition table_length :: "int \<Rightarrow> nat" where
  "table_length tableLength = (if tableLength \<le> 0 then 13 else nat tableLength)"

text \<open>The constructor: \<open>content\<close> is the file if it exists, \<open>new i\<close> the address of the head cell of the \<open>i\<close>-th list.
  Its last result is what it prints.\<close>

definition HashDB_new ::
  "string \<Rightarrow> string option \<Rightarrow> int \<Rightarrow> (nat \<Rightarrow> addr) \<Rightarrow> items \<Rightarrow> items \<times> HashDB \<times> string list" where
  "HashDB_new junk content tableLength new h =
     (case new_lists (map new [0..<table_length tableLength]) h of
        (h, ls) \<Rightarrow>
          (case content of
             Some c \<Rightarrow> (h, \<lparr>hdb_array = ls, hdb_db = c\<rparr>, ''File already exists'' # hdb_checksum junk c)
           | None \<Rightarrow> (h, \<lparr>hdb_array = ls, hdb_db = hdb_magic\<rparr>, [''File not already exists'', ''Done''])))"

definition hdb_set :: "nat \<Rightarrow> LinkList \<Rightarrow> HashDB \<Rightarrow> HashDB" where
  "hdb_set i l db = db\<lparr>hdb_array := (hdb_array db)[i := l]\<rparr>"

definition hdb_insert :: "addr \<Rightarrow> HashDB \<Rightarrow> items \<Rightarrow> (HashDB \<times> items) option" where
  "hdb_insert newItem db h =
     do {it \<leftarrow> h newItem;
         l \<leftarrow> peek (hdb_array db) (hdb_hash db (item_key it));
         (l, h) \<leftarrow> insertItem newItem l h;
         Some (hdb_set (hdb_hash db (item_key it)) l db, h)}"

definition hdb_remove :: "string \<Rightarrow> HashDB \<Rightarrow> items \<Rightarrow> (bool \<times> HashDB \<times> items) option" where
  "hdb_remove itemKey db h =
     do {l \<leftarrow> peek (hdb_array db) (hdb_hash db itemKey);
         (r, l, h) \<leftarrow> removeItem itemKey l h;
         Some (r, hdb_set (hdb_hash db itemKey) l db, h)}"

definition getItemByKey :: "string \<Rightarrow> HashDB \<Rightarrow> items \<Rightarrow> addr option option" where
  "getItemByKey itemKey db h =
     do {l \<leftarrow> peek (hdb_array db) (hdb_hash db itemKey); getItem itemKey l h}"

lemmas [code] = delete_walk.simps last_item.simps remove_walk.simps get_walk.simps print_walk.simps

section \<open>What a list holds\<close>

fun list_at :: "items \<Rightarrow> addr option \<Rightarrow> (addr \<times> string) list \<Rightarrow> bool" where
  "list_at h p [] \<longleftrightarrow> p = None"
| "list_at h p (x # xs) \<longleftrightarrow>
     p = Some (fst x) \<and> (\<exists>it. h (fst x) = Some it \<and> item_key it = snd x \<and> list_at h (item_next it) xs)"

definition ll_rep :: "items \<Rightarrow> LinkList \<Rightarrow> (addr \<times> string) list \<Rightarrow> bool" where
  "ll_rep h l xs \<longleftrightarrow>
     list_at h (Some (ll_head l)) ((ll_head l, []) # xs) \<and> distinct (ll_head l # map fst xs) \<and> ll_length l = int (length xs)"

lemma list_at_frame:
  "list_at h p xs \<Longrightarrow> (\<And>a. a \<in> fst ` set xs \<Longrightarrow> h' a = h a) \<Longrightarrow> list_at h' p xs"
  by (induction xs arbitrary: p) auto

lemma last_item_rep:
  "list_at h (Some p) (xs @ [x]) \<Longrightarrow> last_item h p = Some (fst x)"
proof (induction xs arbitrary: p)
  case (Cons y xs)
  then obtain it where "h p = Some it" "list_at h (item_next it) (xs @ [x])" by auto
  then show ?case using Cons.IH by (cases xs) (auto simp: last_item.simps [of h p])
qed (auto simp: last_item.simps)

lemma fst_in: "(a, b) \<in> set xs \<Longrightarrow> a \<in> fst ` set xs"
  by force

lemma first_with_key:
  assumes "k \<in> snd ` set xs"
  obtains as x bs where "xs = as @ x # bs" "snd x = k" "k \<notin> snd ` set as"
proof -
  have "\<exists>x\<in>set xs. snd x = k" using assms by auto
  then show thesis using that split_list_first_prop [of xs "\<lambda>x. snd x = k"] by (metis imageE)
qed

lemma list_at_cell:
  "list_at h p xs \<Longrightarrow> x \<in> set xs \<Longrightarrow> \<exists>it. h (fst x) = Some it \<and> item_key it = snd x"
  by (induction xs arbitrary: p) auto

lemma list_at_suffix:
  "list_at h p (as @ x # bs) \<Longrightarrow> h (fst x) = Some it \<Longrightarrow> list_at h (item_next it) bs"
  by (induction as arbitrary: p) auto

text \<open>Giving the cell of \<open>x\<close> another successor.\<close>

lemma relink:
  assumes "list_at h p (xs @ x # zs)" "h (fst x) = Some c" "h' (fst x) = Some (c\<lparr>item_next := q\<rparr>)"
    "\<And>a. a \<in> fst ` set xs \<Longrightarrow> h' a = h a" "list_at h' q ys"
  shows "list_at h' p (xs @ x # ys)"
  using assms by (induction xs arbitrary: p) auto

definition cells :: "LinkList \<Rightarrow> (addr \<times> string) list \<Rightarrow> addr set" where
  "cells l xs = insert (ll_head l) (fst ` set xs)"

lemma ll_rep_frame:
  "ll_rep h l xs \<Longrightarrow> (\<And>a. a \<in> cells l xs \<Longrightarrow> h' a = h a) \<Longrightarrow> ll_rep h' l xs"
  unfolding ll_rep_def cells_def by (auto intro: list_at_frame)

lemma insertItem_rep:
  assumes rep: "ll_rep h l xs" and n: "h n = Some it" "n \<notin> cells l xs" and nx: "xs = [] \<Longrightarrow> item_next it = None"
  obtains l' h' where "insertItem n l h = Some (l', h')" "ll_rep h' l' (xs @ [(n, item_key it)])" "ll_head l' = ll_head l"
    "\<And>a. a \<notin> insert n (cells l xs) \<Longrightarrow> h' a = h a"
proof -
  let ?l = "l\<lparr>ll_length := ll_length l + 1\<rparr>"
  obtain c where c: "h (ll_head l) = Some c" "item_key c = []" "list_at h (item_next c) xs"
    using rep by (auto simp: ll_rep_def)
  have d: "distinct (ll_head l # map fst xs)" "ll_length l = int (length xs)" using rep by (auto simp: ll_rep_def)
  show thesis
  proof (cases xs rule: rev_cases)
    case Nil
    let ?h = "h(ll_head l \<mapsto> c\<lparr>item_next := Some n\<rparr>)"
    show thesis
      by (rule that [of ?l ?h]) (use c d n nx Nil in \<open>auto simp: insertItem_def set_item_next_def ll_rep_def cells_def\<close>)
  next
    case (snoc ys x)
    obtain cx where cx: "h (fst x) = Some cx" using list_at_cell [OF c(3), of x] snoc by auto
    let ?h = "h(fst x \<mapsto> cx\<lparr>item_next := Some n\<rparr>, n \<mapsto> it\<lparr>item_next := None\<rparr>)"
    have x: "fst x \<noteq> n" "fst x \<noteq> ll_head l" "n \<noteq> ll_head l" using n(2) d snoc by (auto simp: cells_def)
    have all: "list_at h (Some (ll_head l)) (((ll_head l, []) # ys) @ [x])" using rep snoc by (simp add: ll_rep_def)
    have "item_next c \<noteq> None" using c(3) snoc by (cases ys) auto
    then have run: "insertItem n l h = Some (?l, ?h)"
      using c(1) last_item_rep [OF all] cx n x by (auto simp: insertItem_def set_item_next_def)
    have "list_at ?h (Some (ll_head l)) (((ll_head l, []) # ys) @ x # [(n, item_key it)])"
      using x d snoc n(2) by (intro relink [OF all cx, of _ "Some n"]) (auto simp: cells_def dest: fst_in)
    then have "ll_rep ?h ?l (xs @ [(n, item_key it)])" using d n(2) snoc by (auto simp: ll_rep_def cells_def)
    then show thesis by (intro that [OF run]) (auto simp: snoc cells_def)
  qed
qed

lemma remove_walk_found:
  assumes "list_at h q (as @ x # bs)" "\<forall>y\<in>set as. snd y \<noteq> k" "snd x = k" "h (fst x) = Some it"
  shows "remove_walk k l h p q =
    do {h \<leftarrow> set_item_next (last (p # map fst as)) (item_next it) h; Some (True, l\<lparr>ll_length := ll_length l - 1\<rparr>, h(fst x := None))}"
  using assms by (induction as arbitrary: p q) (auto simp: remove_walk.simps)

lemma remove_walk_absent:
  assumes "list_at h q as" "\<forall>y\<in>set as. snd y \<noteq> k"
  shows "remove_walk k l h p q = Some (False, l, h)"
  using assms by (induction as arbitrary: p q) (auto simp: remove_walk.simps)

definition drop_key :: "string \<Rightarrow> (addr \<times> string) list \<Rightarrow> (addr \<times> string) list" where
  "drop_key k xs = takeWhile (\<lambda>x. snd x \<noteq> k) xs @ tl (dropWhile (\<lambda>x. snd x \<noteq> k) xs)"

lemma drop_key_absent: "k \<notin> snd ` set xs \<Longrightarrow> drop_key k xs = xs"
  unfolding drop_key_def by (induction xs) auto

lemma drop_key_first: "k \<notin> snd ` set as \<Longrightarrow> snd x = k \<Longrightarrow> drop_key k (as @ x # bs) = as @ bs"
  unfolding drop_key_def by (induction as) auto

lemma drop_key_subset: "set (drop_key k xs) \<subseteq> set xs"
proof (cases "k \<in> snd ` set xs")
  case True
  then obtain as x bs where "xs = as @ x # bs" "snd x = k" "k \<notin> snd ` set as" by (rule first_with_key)
  then show ?thesis by (auto simp: drop_key_first)
qed (simp add: drop_key_absent)

lemma filter_no_key: "k \<notin> snd ` set xs \<Longrightarrow> filter (\<lambda>x. snd x = k) xs = []"
  by (induction xs) auto

lemma drop_key_filter:
  "filter (\<lambda>x. snd x = k') (drop_key k xs) =
    (if k' = k then tl (filter (\<lambda>x. snd x = k) xs) else filter (\<lambda>x. snd x = k') xs)"
proof (cases "k \<in> snd ` set xs")
  case True
  then obtain as x bs where xs: "xs = as @ x # bs" "snd x = k" "k \<notin> snd ` set as" by (rule first_with_key)
  then have "filter (\<lambda>x. snd x = k) as = []" by (simp add: filter_no_key)
  then show ?thesis using xs by (simp add: drop_key_first)
next
  case False
  then have "filter (\<lambda>x. snd x = k) xs = []" by (rule filter_no_key)
  then show ?thesis using False by (simp add: drop_key_absent)
qed

lemma find_hd_opt: "map_option f (find P xs) = hd_opt (map f (filter P xs)) None"
  by (induction xs) auto

lemma removeItem_rep:
  assumes rep: "ll_rep h l xs" and k: "k \<noteq> []"
  obtains l' h' where "removeItem k l h = Some (k \<in> snd ` set xs, l', h')" "ll_rep h' l' (drop_key k xs)" "ll_head l' = ll_head l"
    "\<And>a. a \<notin> cells l xs \<Longrightarrow> h' a = h a"
proof (cases "k \<in> snd ` set xs")
  case False
  have "list_at h (Some (ll_head l)) ((ll_head l, []) # xs)" using rep by (simp add: ll_rep_def)
  then have "remove_walk k l h (ll_head l) (Some (ll_head l)) = Some (False, l, h)"
    using False k remove_walk_absent [of h "Some (ll_head l)" "(ll_head l, []) # xs" k] by auto
  then have "removeItem k l h = Some (k \<in> snd ` set xs, l, h)" using rep False by (auto simp: removeItem_def ll_rep_def)
  then show thesis using rep drop_key_absent [OF False] by (intro that) simp_all
next
  case True
  then obtain as x bs where xs: "xs = as @ x # bs" "snd x = k" "k \<notin> snd ` set as" by (rule first_with_key)
  let ?ps = "(ll_head l, []) # as" and ?l = "l\<lparr>ll_length := ll_length l - 1\<rparr>"
  have all: "list_at h (Some (ll_head l)) (?ps @ x # bs)" and d: "distinct (map fst (?ps @ x # bs))"
    and len: "ll_length l = int (length xs)" using rep xs by (auto simp: ll_rep_def)
  obtain it where it: "h (fst x) = Some it" using list_at_cell [OF all, of x] by auto
  obtain ps pr where ps: "?ps = ps @ [pr]" using rev_exhaust [of ?ps] by blast
  obtain c where c: "h (fst pr) = Some c" using list_at_cell [OF all [unfolded ps], of pr] by auto
  let ?h = "(h(fst pr \<mapsto> c\<lparr>item_next := item_next it\<rparr>))(fst x := None)"
  have ne: "fst pr \<noteq> fst x" "fst x \<notin> fst ` set ps" "fst pr \<notin> fst ` set ps" "fst pr \<notin> fst ` set bs" "fst x \<notin> fst ` set bs"
    using d unfolding ps by auto
  have pr: "last (ll_head l # map fst as) = fst pr"
    using arg_cong [OF ps, of "map fst"] by simp
  have "removeItem k l h = remove_walk k l h (ll_head l) (Some (ll_head l))"
    using all by (cases as) (auto simp: removeItem_def)
  also have "\<dots> = Some (True, ?l, ?h)"
    using remove_walk_found [OF all _ xs(2) it, of l "ll_head l"] xs(3) k c pr by (auto simp: set_item_next_def)
  finally have run: "removeItem k l h = Some (k \<in> snd ` set xs, ?l, ?h)" using True by simp
  have "list_at ?h (item_next it) bs"
    using ne by (intro list_at_frame [OF list_at_suffix [OF all it]]) (auto dest: fst_in)
  moreover have "list_at h (Some (ll_head l)) (ps @ pr # x # bs)" using all unfolding ps by simp
  ultimately have "list_at ?h (Some (ll_head l)) (ps @ pr # bs)"
    using ne c by (elim relink [where q = "item_next it"]) (auto dest: fst_in)
  moreover have "?ps @ bs = ps @ pr # bs" by (subst ps) simp
  ultimately have "list_at ?h (Some (ll_head l)) (?ps @ bs)" by (simp only:)
  then have "ll_rep ?h ?l (drop_key k xs)"
    using d len unfolding xs(1) drop_key_first [OF xs(3,2)] ll_rep_def by simp
  moreover have "\<And>a. a \<notin> cells l xs \<Longrightarrow> ?h a = h a"
    using arg_cong [OF ps, of "\<lambda>ys. fst ` set ys"] xs(1) by (auto simp: cells_def)
  ultimately show thesis by (intro that [OF run]) simp_all
qed

lemma get_walk_rep:
  assumes "list_at h q xs" "head \<notin> fst ` set xs"
  shows "get_walk k head h q = Some (map_option fst (find (\<lambda>x. snd x = k) xs))"
  using assms by (induction xs arbitrary: q) (auto simp: get_walk.simps)

lemma getItem_rep: "ll_rep h l xs \<Longrightarrow> getItem k l h = Some (map_option fst (find (\<lambda>x. snd x = k) xs))"
  using get_walk_rep [of h _ xs "ll_head l" k] by (auto simp: ll_rep_def getItem_def get_walk.simps [of _ _ _ "Some _"])

text \<open>What \<open>printList\<close> shows, and that the destructor leaves the last item of a list allocated.\<close>

fun shown :: "(addr \<times> string) list \<Rightarrow> string" where
  "shown [] = []"
| "shown [x] = snd x @ '' ''"
| "shown (x # xs) = snd x @ '', '' @ shown xs"

lemma print_walk_rep:
  "list_at h q xs \<Longrightarrow> head \<notin> fst ` set xs \<Longrightarrow> print_walk head h q = Some (shown xs)"
proof (induction xs arbitrary: q rule: shown.induct)
  case (3 x y ys)
  then obtain it where "q = Some (fst x)" "h (fst x) = Some it" "item_key it = snd x" "list_at h (item_next it) (y # ys)" by auto
  then show ?case using 3 by (auto simp: print_walk.simps [of _ _ "Some (fst x)"])
qed (auto simp: print_walk.simps)

lemma printList_rep:
  "ll_rep h l xs \<Longrightarrow> xs \<noteq> [] \<Longrightarrow> printList l h = Some ([CHR 0x0A] @ ''{ '' @ shown xs @ ''}'' @ [CHR 0x0A])"
  using print_walk_rep [of h _ xs "ll_head l"] by (auto simp: printList_def ll_rep_def print_walk.simps [of _ _ "Some _"])

lemma delete_walk_rep:
  "list_at h q (xs @ [x]) \<Longrightarrow> distinct (map fst (xs @ [x])) \<Longrightarrow>
    delete_walk h q = Some (\<lambda>a. if a \<in> fst ` set xs then None else h a)"
proof (induction xs arbitrary: h q)
  case (Cons y ys)
  then obtain it where it: "q = Some (fst y)" "h (fst y) = Some it" "list_at h (item_next it) (ys @ [x])" by auto
  then have "item_next it \<noteq> None" by (cases ys) auto
  moreover define g where "g = h(fst y := None)"
  have "list_at g (item_next it) (ys @ [x])"
    using Cons.prems(2) by (intro list_at_frame [OF it(3)]) (auto simp: g_def dest: fst_in)
  then have "delete_walk g (item_next it) = Some (\<lambda>a. if a \<in> fst ` set ys then None else g a)"
    using Cons.prems(2) by (intro Cons.IH) auto
  ultimately show ?case using it by (auto simp: delete_walk.simps [of _ "Some (fst y)"] g_def)
qed (auto simp: delete_walk.simps)

lemma LinkList_delete_rep:
  assumes "ll_rep h l (xs @ [x])"
  shows "\<exists>h'. LinkList_delete l h = Some h' \<and> h' (fst x) = h (fst x) \<and> (\<forall>a\<in>cells l xs. h' a = None)"
  using assms delete_walk_rep [of h "Some (ll_head l)" "(ll_head l, []) # xs" x]
  by (auto simp: ll_rep_def LinkList_delete_def cells_def)

section \<open>What the table holds\<close>

definition hdb_rep :: "items \<Rightarrow> HashDB \<Rightarrow> (addr \<times> string) list list \<Rightarrow> bool" where
  "hdb_rep h db xss \<longleftrightarrow>
     length xss = length (hdb_array db) \<and> 0 < length xss \<and> length xss < 2 ^ 31 \<and>
     (\<forall>i<length xss. ll_rep h (hdb_array db ! i) (xss ! i)) \<and>
     (\<forall>i<length xss. \<forall>j<length xss. i \<noteq> j \<longrightarrow> cells (hdb_array db ! i) (xss ! i) \<inter> cells (hdb_array db ! j) (xss ! j) = {}) \<and>
     (\<forall>i<length xss. \<forall>x\<in>set (xss ! i). hdb_hash db (snd x) = i)"

definition items_of :: "string \<Rightarrow> (addr \<times> string) list list \<Rightarrow> addr list" where
  "items_of k xss = map fst (filter (\<lambda>x. snd x = k) (concat xss))"

lemma hdb_hash_set [simp]: "hdb_hash (hdb_set i l db) = hdb_hash db"
  by (simp add: hdb_hash_def hdb_set_def fun_eq_iff)

lemma hdb_array_set [simp]: "hdb_array (hdb_set i l db) = (hdb_array db)[i := l]"
  by (simp add: hdb_set_def)

lemma hdb_repD:
  assumes "hdb_rep h db xss"
  shows "length (hdb_array db) = length xss" "0 < length xss" "length xss < 2 ^ 31"
    "i < length xss \<Longrightarrow> ll_rep h (hdb_array db ! i) (xss ! i)"
    "i < length xss \<Longrightarrow> j < length xss \<Longrightarrow> i \<noteq> j \<Longrightarrow>
      cells (hdb_array db ! i) (xss ! i) \<inter> cells (hdb_array db ! j) (xss ! j) = {}"
    "i < length xss \<Longrightarrow> x \<in> set (xss ! i) \<Longrightarrow> hdb_hash db (snd x) = i"
  using assms unfolding hdb_rep_def by (metis | blast)+

lemma hdb_hash_less: "hdb_rep h db xss \<Longrightarrow> hdb_hash db k < length xss"
  using hdb_repD(1-3) [of h db xss] mod_less_divisor [of "length xss"]
  by (simp add: hdb_hash_def unat_mod unat_of_nat take_bit_nat_eq_self)

lemma hdb_update:
  assumes rep: "hdb_rep h db xss" and i: "i < length xss" and l: "ll_rep h' l ys" "ll_head l = ll_head (hdb_array db ! i)"
    and frame: "\<And>a. a \<notin> N \<union> cells (hdb_array db ! i) (xss ! i) \<Longrightarrow> h' a = h a"
    and new: "fst ` set ys \<subseteq> N \<union> fst ` set (xss ! i)" "\<And>j. j < length xss \<Longrightarrow> N \<inter> cells (hdb_array db ! j) (xss ! j) = {}"
    and keys: "\<And>x. x \<in> set ys \<Longrightarrow> hdb_hash db (snd x) = i"
  shows "hdb_rep h' (hdb_set i l db) (xss[i := ys])"
proof -
  have len: "length (hdb_array db) = length xss" using rep by (simp add: hdb_rep_def)
  have disj: "cells (hdb_array db ! j) (xss ! j) \<inter> (N \<union> cells (hdb_array db ! i) (xss ! i)) = {}" if "j < length xss" "j \<noteq> i" for j
    using hdb_repD(5) [OF rep that(1) i that(2)] new(2) [OF that(1)] by blast
  have lists: "ll_rep h' ((hdb_array db)[i := l] ! j) (xss[i := ys] ! j)" if j: "j < length xss" for j
  proof (cases "j = i")
    case False
    have "ll_rep h (hdb_array db ! j) (xss ! j)" using rep j by (simp add: hdb_rep_def)
    then have "ll_rep h' (hdb_array db ! j) (xss ! j)" using frame disj [OF j False] by (elim ll_rep_frame) blast
    then show ?thesis using False by simp
  qed (use l i len in simp)
  have sub: "cells l ys \<subseteq> N \<union> cells (hdb_array db ! i) (xss ! i)" using l(2) new(1) by (auto simp: cells_def)
  have "cells ((hdb_array db)[i := l] ! j) (xss[i := ys] ! j) \<inter> cells ((hdb_array db)[i := l] ! k) (xss[i := ys] ! k) = {}"
    if "j < length xss" "k < length xss" "j \<noteq> k" for j k
    using that i disj [of j] disj [of k] sub len hdb_repD(5) [OF rep that]
    by (cases "j = i"; cases "k = i") (simp_all, blast+)
  moreover have "hdb_hash db (snd x) = j" if "j < length xss" "x \<in> set (xss[i := ys] ! j)" for j x
    using hdb_repD(6) [OF rep that(1)] that keys i by (cases "j = i") auto
  ultimately show ?thesis using hdb_repD(1-3) [OF rep] lists by (simp add: hdb_rep_def)
qed

lemma filter_concat_bucket:
  assumes "i < length xss" "\<And>j x. j < length xss \<Longrightarrow> x \<in> set (xss ! j) \<Longrightarrow> P x \<Longrightarrow> j = i"
  shows "filter P (concat xss) = filter P (xss ! i)"
  using assms
proof (induction xss arbitrary: i)
  case (Cons xs xss)
  show ?case
  proof (cases i)
    case 0
    have "\<not> P x" if mem: "x \<in> set (concat xss)" for x
    proof
      assume "P x"
      obtain xs' where xs': "xs' \<in> set xss" "x \<in> set xs'" using mem by auto
      then obtain j where "j < length xss" "x \<in> set (xss ! j)" by (metis in_set_conv_nth)
      then show False using Cons.prems(2) [of "Suc j" x] \<open>P x\<close> 0 by simp
    qed
    then show ?thesis using 0 by (simp add: filter_empty_conv)
  next
    case (Suc k)
    have "j = k" if "j < length xss" "y \<in> set (xss ! j)" "P y" for j y
      using Cons.prems(2) [of "Suc j" y] that Suc by simp
    then have "filter P (concat xss) = filter P (xss ! k)" using Cons.prems(1) Suc by (intro Cons.IH) simp_all
    moreover have "\<not> P x" if "x \<in> set xs" for x using Cons.prems(2) [of 0 x] that Suc by auto
    ultimately show ?thesis using Suc by (simp add: filter_empty_conv)
  qed
qed simp

lemma items_bucket:
  "hdb_rep h db xss \<Longrightarrow> items_of k xss = map fst (filter (\<lambda>x. snd x = k) (xss ! hdb_hash db k))"
  unfolding items_of_def
  by (subst filter_concat_bucket [of "hdb_hash db k"]) (auto dest: hdb_repD(6) intro: hdb_hash_less)

section \<open>The operations of the table\<close>

lemma hdb_peek: "hdb_rep h db xss \<Longrightarrow> peek (hdb_array db) (hdb_hash db k) = Some (hdb_array db ! hdb_hash db k)"
  using hdb_hash_less [of h db xss k] hdb_repD(1) [of h db xss] by (simp add: peek_def)

lemma getItemByKey_rep:
  "hdb_rep h db xss \<Longrightarrow> getItemByKey k db h = Some (hd_opt (items_of k xss) None)"
  using getItem_rep [OF hdb_repD(4), of h db xss "hdb_hash db k" k]
  by (auto simp: getItemByKey_def hdb_peek hdb_hash_less items_bucket find_hd_opt)

lemma hdb_insert_rep:
  assumes rep: "hdb_rep h db xss" and n: "h n = Some it" "\<And>j. j < length xss \<Longrightarrow> n \<notin> cells (hdb_array db ! j) (xss ! j)"
    and nx: "item_next it = None"
  obtains db' h' xss' where "hdb_insert n db h = Some (db', h')" "hdb_rep h' db' xss'"
    "\<And>k. items_of k xss' = (if k = item_key it then items_of k xss @ [n] else items_of k xss)"
proof -
  define i where "i = hdb_hash db (item_key it)"
  have i: "i < length xss" using hdb_hash_less [OF rep] by (simp add: i_def)
  obtain l' h' where l': "insertItem n (hdb_array db ! i) h = Some (l', h')" "ll_rep h' l' (xss ! i @ [(n, item_key it)])"
    "ll_head l' = ll_head (hdb_array db ! i)" "\<And>a. a \<notin> insert n (cells (hdb_array db ! i) (xss ! i)) \<Longrightarrow> h' a = h a"
    using insertItem_rep [OF hdb_repD(4) [OF rep i] n(1) n(2) [OF i] nx] by blast
  let ?xss = "xss[i := xss ! i @ [(n, item_key it)]]"
  have rep': "hdb_rep h' (hdb_set i l' db) ?xss"
    using l' n(2) hdb_repD(6) [OF rep i] by (intro hdb_update [OF rep i, of h' l' _ "{n}"]) (auto simp: i_def)
  have "hdb_insert n db h = Some (hdb_set i l' db, h')"
    using n(1) l'(1) hdb_peek [OF rep] by (simp add: hdb_insert_def i_def)
  moreover have "items_of k ?xss = (if k = item_key it then items_of k xss @ [n] else items_of k xss)" for k
    using i by (cases "hdb_hash db k = i") (auto simp: items_bucket [OF rep'] items_bucket [OF rep] i_def [symmetric])
  ultimately show thesis by (rule that [OF _ rep'])
qed

lemma hdb_remove_rep:
  assumes rep: "hdb_rep h db xss" and k: "k \<noteq> []"
  obtains db' h' xss' where "hdb_remove k db h = Some (items_of k xss \<noteq> [], db', h')" "hdb_rep h' db' xss'"
    "\<And>k'. items_of k' xss' = (if k' = k then tl (items_of k xss) else items_of k' xss)"
proof -
  define i where "i = hdb_hash db k"
  have i: "i < length xss" using hdb_hash_less [OF rep] by (simp add: i_def)
  obtain l' h' where l': "removeItem k (hdb_array db ! i) h = Some (k \<in> snd ` set (xss ! i), l', h')"
    "ll_rep h' l' (drop_key k (xss ! i))"
    "ll_head l' = ll_head (hdb_array db ! i)" "\<And>a. a \<notin> cells (hdb_array db ! i) (xss ! i) \<Longrightarrow> h' a = h a"
    using removeItem_rep [OF hdb_repD(4) [OF rep i] k] by blast
  let ?xss = "xss[i := drop_key k (xss ! i)]"
  have rep': "hdb_rep h' (hdb_set i l' db) ?xss"
    using l' drop_key_subset [of k "xss ! i"] hdb_repD(6) [OF rep i] by (intro hdb_update [OF rep i, of h' l' _ "{}"]) auto
  have "(k \<in> snd ` set (xss ! i)) = (items_of k xss \<noteq> [])"
    using items_bucket [OF rep, of k] by (auto simp: i_def filter_empty_conv)
  then have "hdb_remove k db h = Some (items_of k xss \<noteq> [], hdb_set i l' db, h')"
    using l'(1) hdb_peek [OF rep] by (simp add: hdb_remove_def i_def)
  moreover have "items_of k' ?xss = (if k' = k then tl (items_of k xss) else items_of k' xss)" for k'
    using i by (cases "hdb_hash db k' = i")
      (auto simp: items_bucket [OF rep'] items_bucket [OF rep] i_def [symmetric] drop_key_filter map_tl)
  ultimately show thesis by (intro that [OF _ rep']) 
qed

lemma new_lists_rep:
  assumes "distinct heads" "new_lists heads h0 = (h, ls)"
  shows "map ll_head ls = heads \<and> (\<forall>l\<in>set ls. ll_rep h l []) \<and> (\<forall>a. a \<notin> set heads \<longrightarrow> h a = h0 a)"
  using assms
proof (induction heads arbitrary: h0 h ls)
  case (Cons a as)
  obtain h1 ls1 where n: "new_lists as (fst (LinkList_new a h0)) = (h1, ls1)" by fastforce
  then have "map ll_head ls1 = as \<and> (\<forall>l\<in>set ls1. ll_rep h1 l []) \<and> (\<forall>b. b \<notin> set as \<longrightarrow> h1 b = fst (LinkList_new a h0) b)"
    using Cons.IH [OF _ n] Cons.prems(1) by simp
  then show ?case using Cons.prems n by (auto simp: LinkList_new_def ll_rep_def)
qed simp

lemma HashDB_new_rep:
  assumes "inj_on new {..<table_length tableLength}" "tableLength < 2 ^ 31"
    "HashDB_new junk content tableLength new h0 = (h, db, out)"
  shows "hdb_rep h db (replicate (table_length tableLength) [])"
proof -
  let ?heads = "map new [0..<table_length tableLength]"
  have d: "distinct ?heads" using assms(1) by (simp add: distinct_map atLeast0LessThan)
  have n: "0 < table_length tableLength" "table_length tableLength < 2 ^ 31" using assms(2) by (auto simp: table_length_def)
  obtain ls where ls: "new_lists ?heads h0 = (h, ls)" "hdb_array db = ls"
    using assms(3) by (auto simp: HashDB_new_def split: prod.splits option.splits)
  have rep: "map ll_head ls = ?heads" "\<forall>l\<in>set ls. ll_rep h l []" using new_lists_rep [OF d ls(1)] by auto
  then have len: "length ls = table_length tableLength" by (metis length_map map_nth length_upt diff_zero)
  have "ll_head (ls ! i) \<noteq> ll_head (ls ! j)" if "i < table_length tableLength" "j < table_length tableLength" "i \<noteq> j" for i j
    using nth_eq_iff_index_eq [OF d, of i j] arg_cong [OF rep(1), of "\<lambda>xs. xs ! i"] arg_cong [OF rep(1), of "\<lambda>xs. xs ! j"] that len
    by simp
  then show ?thesis using rep len n ls(2) by (auto simp: hdb_rep_def cells_def)
qed

text \<open>Operations on a table, and what they do to the items of every key. An item that is inserted is new, and
  its link is null.\<close>

datatype hdb_op = Insert addr string | Remove string | Get string
datatype hdb_result = Inserted | Removed bool | Found "addr option"

fun hdb_step :: "hdb_op \<Rightarrow> items \<times> HashDB \<Rightarrow> (hdb_result \<times> items \<times> HashDB) option" where
  "hdb_step (Insert n k) (h, db) =
     map_option (\<lambda>(db, h). (Inserted, h, db)) (hdb_insert n db (h(n \<mapsto> \<lparr>item_key = k, item_next = None\<rparr>)))"
| "hdb_step (Remove k) (h, db) = map_option (\<lambda>(r, db, h). (Removed r, h, db)) (hdb_remove k db h)"
| "hdb_step (Get k) (h, db) = map_option (\<lambda>r. (Found r, h, db)) (getItemByKey k db h)"

fun hdb_guard :: "hdb_op \<Rightarrow> items \<times> HashDB \<Rightarrow> bool" where
  "hdb_guard (Insert n k) (h, db) \<longleftrightarrow> h n = None"
| "hdb_guard (Remove k) _ \<longleftrightarrow> k \<noteq> []"
| "hdb_guard (Get k) _ \<longleftrightarrow> True"

fun hdb_spec :: "hdb_op \<Rightarrow> (string \<Rightarrow> addr list) \<Rightarrow> hdb_result \<times> (string \<Rightarrow> addr list)" where
  "hdb_spec (Insert n k) m = (Inserted, m(k := m k @ [n]))"
| "hdb_spec (Remove k) m = (Removed (m k \<noteq> []), m(k := tl (m k)))"
| "hdb_spec (Get k) m = (Found (hd_opt (m k) None), m)"

definition hdb_rel :: "items \<times> HashDB \<Rightarrow> (string \<Rightarrow> addr list) \<Rightarrow> bool" where
  "hdb_rel s m \<longleftrightarrow> (\<exists>xss. hdb_rep (fst s) (snd s) xss \<and> m = (\<lambda>k. items_of k xss))"

lemma hdb_cells_allocated:
  assumes "hdb_rep h db xss" "j < length xss" "a \<in> cells (hdb_array db ! j) (xss ! j)"
  shows "h a \<noteq> None"
proof -
  have "list_at h (Some (ll_head (hdb_array db ! j))) ((ll_head (hdb_array db ! j), []) # xss ! j)"
    using hdb_repD(4) [OF assms(1,2)] by (simp add: ll_rep_def)
  then show ?thesis using assms(3) list_at_cell by (fastforce simp: cells_def)
qed

lemma hdb_rep_alloc:
  assumes rep: "hdb_rep h db xss" and n: "h n = None"
  shows "hdb_rep (h(n \<mapsto> it)) db xss"
proof -
  have "ll_rep (h(n \<mapsto> it)) (hdb_array db ! i) (xss ! i)" if "i < length xss" for i
    using hdb_cells_allocated [OF rep that, of n] n by (intro ll_rep_frame [OF hdb_repD(4) [OF rep that]]) auto
  then show ?thesis using rep unfolding hdb_rep_def by auto
qed

interpretation hdb: simulation hdb_guard hdb_step hdb_spec hdb_rel
proof
  fix s m x
  assume rel: "hdb_rel s m" and guard: "hdb_guard x s"
  obtain h db where s: "s = (h, db)" by (cases s)
  obtain xss where rep: "hdb_rep h db xss" and m: "m = (\<lambda>k. items_of k xss)" using rel by (auto simp: hdb_rel_def s)
  show "\<exists>s'. hdb_step x s = Some (fst (hdb_spec x m), s') \<and> hdb_rel s' (snd (hdb_spec x m))"
  proof (cases x)
    case (Insert n k)
    let ?it = "\<lparr>item_key = k, item_next = None\<rparr>"
    have n: "h n = None" using guard Insert s by simp
    then have new: "\<And>j. j < length xss \<Longrightarrow> n \<notin> cells (hdb_array db ! j) (xss ! j)"
      using hdb_cells_allocated [OF rep, of _ n] by auto
    obtain db' h' xss' where "hdb_insert n db (h(n \<mapsto> ?it)) = Some (db', h')" "hdb_rep h' db' xss'"
      "\<And>k'. items_of k' xss' = (if k' = k then items_of k' xss @ [n] else items_of k' xss)"
      by (rule hdb_insert_rep [OF hdb_rep_alloc [OF rep n, of ?it], of n ?it]) (use new in auto)
    then show ?thesis using Insert s m by (auto simp: hdb_rel_def fun_eq_iff)
  next
    case (Remove k)
    then obtain db' h' xss' where "hdb_remove k db h = Some (items_of k xss \<noteq> [], db', h')" "hdb_rep h' db' xss'"
      "\<And>k'. items_of k' xss' = (if k' = k then tl (items_of k xss) else items_of k' xss)"
      using hdb_remove_rep [OF rep, of k] guard by auto
    then show ?thesis using Remove s m by (auto simp: hdb_rel_def fun_eq_iff)
  next
    case (Get k)
    then show ?thesis using getItemByKey_rep [OF rep, of k] s m rep by (auto simp: hdb_rel_def)
  qed
qed

text \<open>
  C23. A new table follows the specification by lists of items per key: whatever items are inserted, removed
  and looked up, every operation returns what the specification returns, as long as an inserted item is
  new with a null link and no empty key is removed.\<close>

theorem HashDB_refines:
  assumes "inj_on new {..<table_length tableLength}" "tableLength < 2 ^ 31"
    "HashDB_new junk content tableLength new h0 = (h, db, out)"
    and "run_guarded hdb_guard hdb_step ops (h, db)"
  shows "map_option fst (run_ops hdb_step ops (h, db)) = Some (fst (run_spec hdb_spec ops (\<lambda>_. [])))"
proof -
  have "hdb_rel (h, db) (\<lambda>_. [])"
    using HashDB_new_rep [OF assms(1-3)]
    by (auto simp: hdb_rel_def items_of_def fun_eq_iff filter_empty_conv intro!: exI [of _ "replicate (table_length tableLength) []"])
  then show ?thesis using hdb.run_sim [OF _ assms(4)] by fastforce
qed

definition sample_ops :: "hdb_op list" where
  "sample_ops = [Insert 10 ''a'', Insert 11 ''a'', Insert 12 ''b'', Remove ''a'', Get ''a'', Get ''c'', Remove ''c'']"

theorem HashDB_refines_witness:
  "map_option fst (run_ops hdb_step sample_ops
      (case HashDB_new [] None 2 ((+) 3) Map.empty of (h, db, out) \<Rightarrow> (h, db))) =
    Some [Inserted, Inserted, Inserted, Removed True, Found (Some 11), Found None, Removed False]"
proof -
  obtain h db out where new: "HashDB_new [] None 2 ((+) 3) Map.empty = (h, db, out)" by (rule prod_cases3)
  have "run_guarded hdb_guard hdb_step sample_ops (case HashDB_new [] None 2 ((+) 3) Map.empty of (h, db, out) \<Rightarrow> (h, db))"
    by code_simp
  then have "run_guarded hdb_guard hdb_step sample_ops (h, db)" by (simp add: new)
  then have "map_option fst (run_ops hdb_step sample_ops (h, db)) = Some (fst (run_spec hdb_spec sample_ops (\<lambda>_. [])))"
    using HashDB_refines [OF _ _ new, of sample_ops] by simp
  moreover have "fst (run_spec hdb_spec sample_ops (\<lambda>_. [])) =
    [Inserted, Inserted, Inserted, Removed True, Found (Some 11), Found None, Removed False]"
    by (simp add: sample_ops_def)
  ultimately show ?thesis by (simp add: new)
qed

text \<open>
  Removing the empty key from a table whose first list is not empty deletes the head cell of that list:
  the next access to the list goes through a dangling pointer.\<close>

theorem HashDB_remove_empty_key:
  assumes rep: "hdb_rep h db xss" and ne: "xss ! 0 \<noteq> []"
  shows "\<exists>db' h'. hdb_remove [] db h = Some (True, db', h') \<and> getItemByKey [] db' h' = None"
proof -
  let ?l = "hdb_array db ! 0"
  have hash: "hdb_hash db [] = 0" by (simp add: hdb_hash_def)
  have len: "0 < length (hdb_array db)" using hdb_repD(1,2) [OF rep] by simp
  obtain c where c: "h (ll_head ?l) = Some c" "item_key c = []" "item_next c \<noteq> None"
    using hdb_repD(4) [OF rep, of 0] hdb_repD(2) [OF rep] ne by (cases "xss ! 0") (auto simp: ll_rep_def)
  then show ?thesis using len
    by (auto simp: hdb_remove_def removeItem_def remove_walk.simps [of _ _ _ _ "Some _"] set_item_next_def hash peek_def
      getItemByKey_def getItem_def get_walk.simps [of _ _ _ "Some _"])
qed

theorem HashDB_remove_empty_key_witness:
  "\<exists>db h db' h'. hdb_remove [] db h = Some (True, db', h') \<and> getItemByKey [] db' h' = None"
proof -
  define h where "h = (Map.empty :: items)(1 \<mapsto> \<lparr>item_key = [], item_next = Some 2\<rparr>, 2 \<mapsto> \<lparr>item_key = ''a'', item_next = None\<rparr>)"
  define db where "db = \<lparr>hdb_array = [\<lparr>ll_head = 1, ll_length = 1\<rparr>], hdb_db = hdb_magic\<rparr>"
  have "hdb_rep h db [[(2, ''a'')]]"
    by (simp add: hdb_rep_def ll_rep_def h_def db_def hdb_hash_def)
  then show ?thesis using HashDB_remove_empty_key [of h db "[[(2, ''a'')]]"] by auto
qed

end
