(* ===== verification/Common_Config.thy ===== *)
theory Common_Config
  imports Prelude
begin

text \<open>
  \<open>common/config.h\<close>: the reader of configuration files that the services share. The exceptions it throws are
  values; the map of keys, which keeps equal keys in the order of their insertion, is a list of pairs.
\<close>

section \<open>Definitions\<close>

datatype config_error = KEY_NOT_EXIST | INVALID_SYNTAX nat | INVALID_CAST | FILE_NOT_FOUND

definition removeComment :: "string \<Rightarrow> string" where
  "removeComment line =
     (let line = takeWhile (\<lambda>c. c \<noteq> CHR '';'') line in takeWhile (\<lambda>c. c \<noteq> CHR ''#'') line)"

definition onlyWhitespace :: "string \<Rightarrow> bool" where
  "onlyWhitespace line \<longleftrightarrow> (\<forall>c\<in>set line. c = CHR '' '')"

abbreviation blank :: "char \<Rightarrow> bool" where
  "blank c \<equiv> c = CHR '' '' \<or> c = CHR 0x09"

text \<open>A position that is not found is the largest number, so that \<open>find + 1\<close> is 0 and the whole string is
  searched.\<close>

definition validLine :: "string \<Rightarrow> bool" where
  "validLine line =
     (let temp = dropWhile blank line in
      if temp \<noteq> [] \<and> hd temp = CHR ''='' then False
      else
        let rest = (if CHR ''='' \<in> set temp then tl (dropWhile (\<lambda>c. c \<noteq> CHR ''='') temp) else temp)
        in \<exists>c\<in>set rest. c \<noteq> CHR '' '')"

definition extractKey :: "string \<Rightarrow> string" where
  "extractKey line = takeWhile (\<lambda>c. \<not> blank c) (takeWhile (\<lambda>c. c \<noteq> CHR ''='') line)"

definition extractValue :: "string \<Rightarrow> string" where
  "extractValue line =
     (let v = dropWhile blank (tl (dropWhile (\<lambda>c. c \<noteq> CHR ''='') line)) in rev (dropWhile blank (rev v)))"

type_synonym config = "(string \<times> string) list"

definition extractContents :: "string \<Rightarrow> config \<Rightarrow> config" where
  "extractContents line contents =
     (let temp = dropWhile blank line in contents @ [(extractKey temp, extractValue temp)])"

definition parseLine :: "string \<Rightarrow> nat \<Rightarrow> config \<Rightarrow> config_error + config" where
  "parseLine line lineNo contents =
     (if CHR ''='' \<notin> set line then Inl (INVALID_SYNTAX lineNo)
      else if \<not> validLine line then Inl (INVALID_SYNTAX lineNo)
      else Inr (extractContents line contents))"

text \<open>The loop over the lines of the file, as \<open>getline\<close> delivers them.\<close>

fun extractKeys :: "nat \<Rightarrow> string list \<Rightarrow> config \<Rightarrow> config_error + config" where
  "extractKeys lineNo [] contents = Inr contents"
| "extractKeys lineNo (line # lines) contents =
     (let lineNo = lineNo + 1; temp = removeComment line in
      if line = [] \<or> onlyWhitespace temp then extractKeys lineNo lines contents
      else
        (case parseLine temp lineNo contents of
           Inl e \<Rightarrow> Inl e
         | Inr contents \<Rightarrow> extractKeys lineNo lines contents))"

text \<open>\<open>getline\<close>: the last line may lack its end.\<close>

fun getlines :: "string \<Rightarrow> string \<Rightarrow> string list" where
  "getlines acc [] = (if acc = [] then [] else [acc])"
| "getlines acc (c # s) = (if c = CHR 0x0A then acc # getlines [] s else getlines (acc @ [c]) s)"

definition ConfigFile :: "string option \<Rightarrow> config_error + config" where
  "ConfigFile content =
     (case content of None \<Rightarrow> Inl FILE_NOT_FOUND | Some inp \<Rightarrow> extractKeys 0 (getlines [] inp) [])"

definition config_exist :: "config \<Rightarrow> string \<Rightarrow> bool" where
  "config_exist contents key \<longleftrightarrow> key \<in> fst ` set contents"

text \<open>\<open>get\<close> at strings: the stream extraction reads one word. Of several values of a key the library may deliver any;
  this is the first.\<close>

definition config_get :: "config \<Rightarrow> string \<Rightarrow> string \<Rightarrow> config_error + string" where
  "config_get contents key defaultValue =
     (case map_of contents key of
        None \<Rightarrow> Inr defaultValue
      | Some v \<Rightarrow>
          (let word = takeWhile (\<lambda>c. \<not> isspace c) (dropWhile isspace v) in
           if word = [] then Inl INVALID_CAST else Inr word))"

section \<open>Reading what was written\<close>

definition key_ok :: "string \<Rightarrow> bool" where
  "key_ok k \<longleftrightarrow> k \<noteq> [] \<and> (\<forall>c\<in>set k. \<not> blank c \<and> c \<notin> {CHR ''='', CHR '';'', CHR ''#'', CHR 0x0A})"

definition value_ok :: "string \<Rightarrow> bool" where
  "value_ok v \<longleftrightarrow> v \<noteq> [] \<and> \<not> blank (hd v) \<and> \<not> blank (last v) \<and> set v \<inter> {CHR '';'', CHR ''#'', CHR 0x0A} = {}"

datatype config_line = Setting string string | Remark string | Spaces nat

fun line_text :: "config_line \<Rightarrow> string" where
  "line_text (Setting k v) = k @ '' = '' @ v"
| "line_text (Remark c) = CHR ''#'' # c"
| "line_text (Spaces n) = replicate n CHR '' ''"

fun line_wf :: "config_line \<Rightarrow> bool" where
  "line_wf (Setting k v) \<longleftrightarrow> key_ok k \<and> value_ok v"
| "line_wf (Remark c) \<longleftrightarrow> CHR 0x0A \<notin> set c"
| "line_wf (Spaces n) \<longleftrightarrow> True"

fun line_pairs :: "config_line \<Rightarrow> config" where
  "line_pairs (Setting k v) = [(k, v)]"
| "line_pairs (Remark c) = []"
| "line_pairs (Spaces n) = []"

definition config_text :: "config_line list \<Rightarrow> string" where
  "config_text ls = concat (map (\<lambda>l. line_text l @ [CHR 0x0A]) ls)"

lemma getlines_line: "CHR 0x0A \<notin> set l \<Longrightarrow> getlines acc (l @ CHR 0x0A # s) = (acc @ l) # getlines [] s"
  by (induction l arbitrary: acc) auto

lemma getlines_text: "list_all line_wf ls \<Longrightarrow> getlines [] (config_text ls) = map line_text ls"
proof (induction ls)
  case (Cons l ls)
  have "CHR 0x0A \<notin> set (line_text l)" using Cons.prems by (cases l) (auto simp: key_ok_def value_ok_def)
  then show ?case using Cons getlines_line [of "line_text l" "[]"] by (simp add: config_text_def)
qed (simp add: config_text_def)

lemma setting_facts:
  assumes "key_ok k" "value_ok v"
  shows "removeComment (k @ '' = '' @ v) = k @ '' = '' @ v" "\<not> onlyWhitespace (k @ '' = '' @ v)"
    and "parseLine (k @ '' = '' @ v) n contents = Inr (contents @ [(k, v)])"
proof -
  obtain c k' where k: "k = c # k'" using assms(1) by (cases k) (auto simp: key_ok_def)
  obtain e v' where v2: "v = e # v'" using assms(2) by (cases v) (auto simp: value_ok_def)
  have no: "\<forall>c\<in>set (k @ '' = '' @ v). c \<noteq> CHR '';''" "\<forall>c\<in>set (k @ '' = '' @ v). c \<noteq> CHR ''#''"
    using assms by (auto simp: key_ok_def value_ok_def)
  show "removeComment (k @ '' = '' @ v) = k @ '' = '' @ v"
    using no [folded takeWhile_eq_all_conv] unfolding removeComment_def Let_def by (simp only:)
  show "\<not> onlyWhitespace (k @ '' = '' @ v)" by (simp add: onlyWhitespace_def)
  have drop1: "dropWhile blank (k @ '' = '' @ v) = k @ '' = '' @ v" using assms(1) by (simp add: k key_ok_def)
  have "CHR ''='' \<notin> set (k @ '' '')" using assms(1) by (auto simp: key_ok_def)
  then have span: "takeWhile (\<lambda>c. c \<noteq> CHR ''='') ((k @ '' '') @ CHR ''='' # '' '' @ v) = k @ '' ''"
    "dropWhile (\<lambda>c. c \<noteq> CHR ''='') ((k @ '' '') @ CHR ''='' # '' '' @ v) = CHR ''='' # '' '' @ v"
    by (subst takeWhile_append2 dropWhile_append2; auto)+
  have line: "k @ '' = '' @ v = (k @ '' '') @ CHR ''='' # '' '' @ v" by simp
  have key: "extractKey (k @ '' = '' @ v) = k"
    unfolding extractKey_def line span using assms(1) by (subst takeWhile_append2) (auto simp: key_ok_def)
  have front: "dropWhile blank v = v" using assms(2) by (cases v) (auto simp: value_ok_def)
  have rear: "dropWhile blank (rev v) = rev v" using assms(2) by (cases v rule: rev_cases) (auto simp: value_ok_def)
  have val: "extractValue (k @ '' = '' @ v) = v"
    unfolding extractValue_def line span Let_def using front rear by simp
  have "validLine (k @ '' = '' @ v)"
    unfolding validLine_def drop1 Let_def line span using assms v2 by (auto simp: k key_ok_def value_ok_def)
  then show "parseLine (k @ '' = '' @ v) n contents = Inr (contents @ [(k, v)])"
    using key val drop1 by (simp add: parseLine_def extractContents_def Let_def)
qed

lemma extractKeys_text:
  "list_all line_wf ls \<Longrightarrow> extractKeys n (map line_text ls) contents = Inr (contents @ concat (map line_pairs ls))"
proof (induction ls arbitrary: n contents)
  case (Cons l ls)
  show ?case
  proof (cases l)
    case (Setting k v)
    then show ?thesis using Cons setting_facts [of k v] by (simp add: Let_def)
  next
    case (Remark c)
    then show ?thesis using Cons by (simp add: Let_def removeComment_def onlyWhitespace_def)
  next
    case (Spaces m)
    have "takeWhile P (replicate m x) = replicate m x" if "P x" for P and x :: char
      using that by (simp add: takeWhile_eq_all_conv)
    then show ?thesis using Cons Spaces by (simp add: Let_def removeComment_def onlyWhitespace_def)
  qed
qed simp

text \<open>
  A file of settings, comments and blank lines is read into exactly its settings, in their order.\<close>

theorem config_roundtrip:
  assumes "list_all line_wf ls"
  shows "ConfigFile (Some (config_text ls)) = Inr (concat (map line_pairs ls))"
  using extractKeys_text [OF assms] getlines_text [OF assms] by (simp add: ConfigFile_def)

theorem config_roundtrip_witness:
  "ConfigFile (Some (config_text [Remark '' net'', Setting ''host'' ''a b'', Spaces 2, Setting ''port'' ''80''])) =
    Inr [(''host'', ''a b''), (''port'', ''80'')]"
  using config_roundtrip [of "[Remark '' net'', Setting ''host'' ''a b'', Spaces 2, Setting ''port'' ''80'']"]
  by (simp add: key_ok_def value_ok_def)

text \<open>The value of a string setting is cut at its first space, and a line of one tab is an error.\<close>

lemma config_get_word: "config_get [(''host'', ''a b'')] ''host'' [] = Inr ''a''"
  by (simp add: config_get_def isspace_def)

lemma config_tab_line: "ConfigFile (Some [CHR 0x09, CHR 0x0A]) = Inl (INVALID_SYNTAX 1)"
  by (simp add: ConfigFile_def removeComment_def onlyWhitespace_def parseLine_def Let_def)

end
