(* ===== verification/Stdio.thy ===== *)
theory Stdio
  imports Prelude
begin

text \<open>
  The streams of the C library that \<open>cynder/filepage.cpp\<close> and \<open>chella/wal.cpp\<close> keep their structures in: a file is the function from
  places to its bytes, zero behind its end, with its size and the position. Structures are lists of bytes with fields at offsets.
\<close>

section \<open>Streams\<close>

record disk_file =
  f_bytes :: "nat \<Rightarrow> char"
  f_size :: nat
  f_pos :: nat

definition rd :: "(nat \<Rightarrow> char) \<Rightarrow> nat \<Rightarrow> nat \<Rightarrow> char list" where
  "rd f a n = map f [a..<a + n]"

definition wr :: "(nat \<Rightarrow> char) \<Rightarrow> nat \<Rightarrow> char list \<Rightarrow> nat \<Rightarrow> char" where
  "wr f a cs = (\<lambda>i. if a \<le> i \<and> i < a + length cs then cs ! (i - a) else f i)"

definition fwrite :: "char list \<Rightarrow> disk_file \<Rightarrow> disk_file" where
  "fwrite cs d = \<lparr>f_bytes = wr (f_bytes d) (f_pos d) cs, f_size = (if cs = [] then f_size d else max (f_size d) (f_pos d + length cs)), f_pos = f_pos d + length cs\<rparr>"

definition fread :: "nat \<Rightarrow> disk_file \<Rightarrow> char list \<times> disk_file" where
  "fread n d = (let k = min n (f_size d - f_pos d) in (rd (f_bytes d) (f_pos d) k, d\<lparr>f_pos := f_pos d + k\<rparr>))"

definition fseek_set :: "nat \<Rightarrow> disk_file \<Rightarrow> disk_file" where
  "fseek_set off d = d\<lparr>f_pos := off\<rparr>"

definition fseek_cur :: "int \<Rightarrow> disk_file \<Rightarrow> disk_file" where
  "fseek_cur off d = (if int (f_pos d) + off < 0 then d else d\<lparr>f_pos := nat (int (f_pos d) + off)\<rparr>)"

definition fseek_end :: "nat \<Rightarrow> disk_file \<Rightarrow> disk_file" where
  "fseek_end off d = d\<lparr>f_pos := f_size d + off\<rparr>"

definition fopen_w :: disk_file where
  "fopen_w = \<lparr>f_bytes = (\<lambda>_. nul), f_size = 0, f_pos = 0\<rparr>"

section \<open>Fields\<close>

definition put_at :: "nat \<Rightarrow> char list \<Rightarrow> char list \<Rightarrow> char list" where
  "put_at off cs xs = take off xs @ cs @ drop (off + length cs) xs"

definition u32_at :: "nat \<Rightarrow> char list \<Rightarrow> u32" where
  "u32_at off xs = of_nat (le_val (take 4 (drop off xs)))"

definition u16_at :: "nat \<Rightarrow> char list \<Rightarrow> u16" where
  "u16_at off xs = of_nat (le_val (take 2 (drop off xs)))"

section \<open>Regions of a file\<close>

lemma length_rd [simp]: "length (rd f a n) = n"
  by (simp add: rd_def)

lemma rd_wr_other: "a + n \<le> p \<or> p + length cs \<le> a \<Longrightarrow> rd (wr f p cs) a n = rd f a n"
  by (auto simp: rd_def wr_def)

lemma rd_wr_same: "n = length cs \<Longrightarrow> rd (wr f p cs) p n = cs"
  by (auto simp: rd_def wr_def intro!: nth_equalityI)

lemma fread_inside: "f_pos d + n \<le> f_size d \<Longrightarrow> fread n d = (rd (f_bytes d) (f_pos d) n, d\<lparr>f_pos := f_pos d + n\<rparr>)"
  by (simp add: fread_def Let_def)

lemma fseek_simps [simp]:
  "f_bytes (fseek_set a d) = f_bytes d" "f_size (fseek_set a d) = f_size d" "f_pos (fseek_set a d) = a"
  "f_bytes (fseek_end a d) = f_bytes d" "f_size (fseek_end a d) = f_size d" "f_pos (fseek_end a d) = f_size d + a"
  "f_bytes (fseek_cur (int n) d) = f_bytes d" "f_size (fseek_cur (int n) d) = f_size d" "f_pos (fseek_cur (int n) d) = f_pos d + n"
  by (simp_all add: fseek_set_def fseek_end_def fseek_cur_def nat_add_distrib)

lemma fwrite_simps [simp]:
  "f_bytes (fwrite cs d) = wr (f_bytes d) (f_pos d) cs" "f_pos (fwrite cs d) = f_pos d + length cs"
  "f_size (fwrite cs d) = (if cs = [] then f_size d else max (f_size d) (f_pos d + length cs))"
  by (simp_all add: fwrite_def)

end
