(* ===== verification/Cynder_Page.thy ===== *)
theory Cynder_Page
  imports Stdio
begin

text \<open>
  \<open>cynder/filepage.cpp\<close>: a page file of large items. It begins with a header of 28 bytes; blocks of index items of 48 bytes are
  chained through the four bytes behind each block; the items themselves lie between the blocks. Structures are kept as the bytes
  they occupy, so that what was never initialised is a parameter, the function \<open>junk\<close> from offsets to characters.
\<close>

section \<open>Structures\<close>

definition PAGE_MAGIC :: string where
  "PAGE_MAGIC = ''LFBX01E''"

definition PAGE_FLAG_FULL :: u32 where
  "PAGE_FLAG_FULL = 0x10"

definition INDEX_NEXT_EMPTY :: nat where
  "INDEX_NEXT_EMPTY = 0x11"

abbreviation sizeof_header :: nat where
  "sizeof_header \<equiv> 28"

abbreviation sizeof_item :: nat where
  "sizeof_item \<equiv> 48"

text \<open>\<open>pageHeader\<close>: the magic at 0, \<open>elements\<close> at 8, \<open>first_free\<close> at 12, \<open>grow_items\<close> at 16, \<open>item_size\<close> at 20 and
  \<open>flags\<close> at 24; a new one has zeros everywhere but in the magic and the padding.\<close>

definition pageHeader :: "(nat \<Rightarrow> char) \<Rightarrow> char list" where
  "pageHeader junk = put_at 8 (le_chars 2 0) (put_at 12 (le_chars 4 0 @ le_chars 4 0 @ le_chars 4 0 @ le_chars 4 0) (map junk [0..<28]))"

text \<open>\<open>pageIndexItem\<close>: the name at 0, \<open>size\<close> at 36, \<open>item\<close> at 40 and \<open>flags\<close> at 44; a new one has the last two zero.\<close>

definition pageIndexItem :: "(nat \<Rightarrow> char) \<Rightarrow> char list" where
  "pageIndexItem junk = put_at 40 (le_chars 4 0 @ [nul]) (map junk [0..<48])"

section \<open>The class\<close>

record filepage =
  m_Elements :: u16
  m_FirstFree :: u32
  m_Grow :: u32
  m_LastIndex :: u32
  m_ItemSize :: u32
  m_pFile :: "disk_file option"
  contents :: "string \<Rightarrow> (u32 \<times> u32) option"
  m_pageFull :: bool

definition isOpen :: "filepage \<Rightarrow> bool" where
  "isOpen p \<longleftrightarrow> m_pFile p \<noteq> None"

definition page_create :: "(nat \<Rightarrow> char) \<Rightarrow> u32 \<Rightarrow> u32 \<Rightarrow> filepage \<Rightarrow> filepage" where
  "page_create junk alloc sz p =
     (if isOpen p then p
      else
        let d = fopen_w;
            first_free = of_nat (sizeof_header + sizeof_item * unat alloc + 4);
            header = put_at 16 (le_chars 4 (unat alloc)) (put_at 0 (PAGE_MAGIC @ [nul]) (pageHeader junk));
            header = put_at 20 (le_chars 4 (unat sz)) header;
            header = put_at 12 (le_chars 4 (unat (first_free :: u32))) header;
            d = fwrite header d;
            d = fseek_cur (int (sizeof_item * unat alloc)) d;
            d = fwrite (le_chars 4 INDEX_NEXT_EMPTY) d;
            d = fseek_end (unat (sz * alloc)) d;
            d = fwrite [nul] d
        in p\<lparr>m_pFile := Some d, m_LastIndex := of_nat sizeof_header, m_Elements := 0, m_FirstFree := first_free, m_Grow := alloc, m_ItemSize := sz\<rparr>)"

text \<open>At the end of a block of the index the loops of \<open>open\<close> and \<open>removeItem\<close> go on in the block that the pointer behind it names.\<close>

definition next_index :: "u32 \<Rightarrow> u32 \<Rightarrow> disk_file \<Rightarrow> u32 \<times> disk_file" where
  "next_index grow index d =
     (if unat index + sizeof_item * unat grow = f_pos d mod 2 ^ 32
      then
        let (cs, d) = fread 4 d; index = of_nat (le_val (overwrite (le_chars 4 (unat index)) cs))
        in (index, fseek_set (unat index) d)
      else (index, d))"

text \<open>The loop of \<open>open\<close> over the index, with the number of items left.\<close>

fun open_loop :: "(nat \<Rightarrow> char) \<Rightarrow> u32 \<Rightarrow> nat \<Rightarrow> disk_file \<Rightarrow> filepage \<Rightarrow> disk_file \<times> filepage" where
  "open_loop junk grow 0 d p = (d, p)"
| "open_loop junk grow (Suc n) d p =
     (let (index, d) = next_index grow (m_LastIndex p) d;
          (cs, d) = fread sizeof_item d;
          item = overwrite (pageIndexItem junk) cs;
          p = p\<lparr>m_LastIndex := index\<rparr>;
          p = (if odd (of_char (item ! 44) :: nat) then p
               else p\<lparr>contents := (contents p)(take 36 item \<mapsto> (u32_at 40 item, u32_at 36 item))\<rparr>)
      in open_loop junk grow n d p)"

text \<open>The file to open, with the position at its start. A wrong magic leaves the members as they were.\<close>

definition page_open :: "(nat \<Rightarrow> char) \<Rightarrow> disk_file \<Rightarrow> filepage \<Rightarrow> filepage" where
  "page_open junk d p =
     (if isOpen p then p
      else
        let (cs, d) = fread sizeof_header d; header = overwrite (pageHeader junk) cs in
        if cstr header \<noteq> PAGE_MAGIC then p\<lparr>m_pFile := Some d\<rparr>
        else
          let p = (if u32_at 24 header AND PAGE_FLAG_FULL \<noteq> 0 then p\<lparr>m_pageFull := True\<rparr> else p);
              p = p\<lparr>m_LastIndex := of_nat sizeof_header\<rparr>;
              (d, p) = open_loop junk (u32_at 16 header) (unat (u16_at 8 header)) d p
          in p\<lparr>m_pFile := Some d, m_Elements := u16_at 8 header, m_FirstFree := u32_at 12 header, m_Grow := u32_at 16 header, m_ItemSize := u32_at 20 header\<rparr>)"

definition writeHeader :: "(nat \<Rightarrow> char) \<Rightarrow> filepage \<Rightarrow> filepage" where
  "writeHeader junk p =
     (case m_pFile p of
        None \<Rightarrow> p
      | Some d \<Rightarrow>
          let d = fseek_set 0 d;
              header = put_at 0 (PAGE_MAGIC @ [nul]) (pageHeader junk);
              header = put_at 8 (le_chars 2 (unat (m_Elements p))) header;
              header = put_at 12 (le_chars 4 (unat (m_FirstFree p)) @ le_chars 4 (unat (m_Grow p)) @ le_chars 4 (unat (m_ItemSize p))) header;
              header = (if m_pageFull p then put_at 24 (le_chars 4 (unat PAGE_FLAG_FULL)) header else header)
          in p\<lparr>m_pFile := Some (fwrite header d)\<rparr>)"

definition growPage :: "(nat \<Rightarrow> char) \<Rightarrow> filepage \<Rightarrow> filepage option" where
  "growPage junk p =
     do {
       d \<leftarrow> m_pFile p;
       let new_index = m_FirstFree p;
       let p = p\<lparr>m_FirstFree := m_FirstFree p + of_nat sizeof_item * m_Grow p\<rparr>;
       let d = fseek_set (unat (m_FirstFree p)) d;
       let d = fwrite (le_chars 4 INDEX_NEXT_EMPTY) d;
       let p = p\<lparr>m_FirstFree := m_FirstFree p + 4\<rparr>;
       let d = fseek_set (unat (m_LastIndex p) + sizeof_item * unat (m_Grow p)) d;
       let p = p\<lparr>m_LastIndex := new_index\<rparr>;
       let d = fwrite (le_chars 4 (unat new_index)) d;
       let d = fseek_cur (int (unat (m_FirstFree p + m_ItemSize p * m_Grow p))) d;
       let d = fwrite [nul] d;
       Some (writeHeader junk (p\<lparr>m_pFile := Some d\<rparr>))
     }"

definition shouldClose :: "filepage \<Rightarrow> filepage" where
  "shouldClose p =
     (if \<not> isOpen p then p
      else if m_FirstFree p + m_ItemSize p > 0xFFFFFFFF then p\<lparr>m_pageFull := True\<rparr>
      else p)"

text \<open>\<open>None\<close> is the remainder of a division by zero.\<close>

definition storeItem :: "(nat \<Rightarrow> char) \<Rightarrow> string \<Rightarrow> char list \<Rightarrow> filepage \<Rightarrow> filepage option" where
  "storeItem junk name data p =
     (if \<not> isOpen p then Some p
      else if length name > 40 then Some p
      else if m_Grow p = 0 then None
      else
        do {
          p \<leftarrow> (if unat (m_Elements p) mod unat (m_Grow p) = 0 \<and> unat (m_Elements p) > 1 then growPage junk p else Some p);
          d \<leftarrow> m_pFile p;
          let namepos = unat (m_LastIndex p) + sizeof_item * (unat (m_Elements p) mod unat (m_Grow p));
          let d = fseek_set namepos d;
          let item = put_at 0 (cstr name @ [nul]) (pageIndexItem junk);
          let item = put_at 36 (le_chars 4 (length data)) item;
          let item = put_at 40 (le_chars 4 (unat (m_FirstFree p))) item;
          let d = fwrite item d;
          let d = fseek_set (unat (m_FirstFree p)) d;
          let d = fwrite data d;
          let p = p\<lparr>m_pFile := Some d, contents := (contents p)(name \<mapsto> (m_FirstFree p, of_nat (length data)))\<rparr>;
          let p = p\<lparr>m_FirstFree := m_FirstFree p + of_nat (length data), m_Elements := m_Elements p + 1\<rparr>;
          Some (writeHeader junk (shouldClose p))
        })"

definition retrieveItem :: "string \<Rightarrow> filepage \<Rightarrow> char list option \<times> filepage" where
  "retrieveItem name p =
     (case (m_pFile p, contents p name) of
        (Some d, Some (item, sz)) \<Rightarrow>
          let (cs, d) = fread (unat sz) (fseek_set (unat item) d)
          in (Some (cs @ replicate (unat sz - length cs) nul), p\<lparr>m_pFile := Some d\<rparr>)
      | _ \<Rightarrow> (None, p))"

text \<open>The loop of \<open>removeItem\<close>, with the number of items left. Names are compared up to a NUL, wherever it is in the structure.\<close>

fun remove_loop :: "(nat \<Rightarrow> char) \<Rightarrow> u32 \<Rightarrow> string \<Rightarrow> nat \<Rightarrow> u32 \<Rightarrow> disk_file \<Rightarrow> disk_file" where
  "remove_loop junk grow name 0 indexPointer d = d"
| "remove_loop junk grow name (Suc n) indexPointer d =
     (let (indexPointer, d) = next_index grow indexPointer d;
          (cs, d) = fread sizeof_item d;
          item = overwrite (pageIndexItem junk) cs;
          d = (if cstr item = cstr name
               then fwrite (item[44 := char_of (of_char (item ! 44) OR (1 :: nat))]) (fseek_cur (- int sizeof_item) d)
               else d)
      in remove_loop junk grow name n indexPointer d)"

definition removeItem :: "(nat \<Rightarrow> char) \<Rightarrow> string \<Rightarrow> filepage \<Rightarrow> filepage" where
  "removeItem junk name p =
     (case (m_pFile p, contents p name) of
        (Some d, Some _) \<Rightarrow>
          p\<lparr>m_pFile := Some (remove_loop junk (m_Grow p) name (unat (m_Elements p)) (of_nat sizeof_header) (fseek_set sizeof_header d))\<rparr>
      | _ \<Rightarrow> p)"

definition page_size :: "filepage \<Rightarrow> nat" where
  "page_size p = unat (m_Elements p)"

abbreviation ITEM_SIZE :: u32 where
  "ITEM_SIZE \<equiv> 8 * 1024 * 1024"

abbreviation DEFAULT_PAGE_ALLOC :: u32 where
  "DEFAULT_PAGE_ALLOC \<equiv> 16"

text \<open>The constructor, given what is on disk under the name; the destructor leaves the file.\<close>

definition Filepage :: "(nat \<Rightarrow> char) \<Rightarrow> disk_file option \<Rightarrow> filepage \<Rightarrow> filepage" where
  "Filepage junk on_disk raw =
     (let p = raw\<lparr>m_pFile := None, contents := Map.empty, m_pageFull := False\<rparr> in
      case on_disk of None \<Rightarrow> page_create junk DEFAULT_PAGE_ALLOC ITEM_SIZE p | Some d \<Rightarrow> page_open junk (d\<lparr>f_pos := 0\<rparr>) p)"

definition Filepage_close :: "(nat \<Rightarrow> char) \<Rightarrow> filepage \<Rightarrow> disk_file option" where
  "Filepage_close junk p = m_pFile (writeHeader junk p)"

section \<open>The bytes of the structures\<close>

lemma pageHeader_bytes:
  "pageHeader junk = map junk [0..<8] @ le_chars 2 0 @ map junk [10..<12] @ le_chars 4 0 @ le_chars 4 0 @ le_chars 4 0 @ le_chars 4 0"
  by (simp add: pageHeader_def put_at_def take_map drop_map del: upt_rec_numeral)

lemma pageIndexItem_bytes: "pageIndexItem junk = map junk [0..<40] @ le_chars 4 0 @ nul # map junk [45..<48]"
  by (simp add: pageIndexItem_def put_at_def take_map drop_map del: upt_rec_numeral)

definition header_bytes :: "(nat \<Rightarrow> char) \<Rightarrow> nat \<Rightarrow> nat \<Rightarrow> nat \<Rightarrow> nat \<Rightarrow> char list" where
  "header_bytes junk elements first_free grow item_size =
     PAGE_MAGIC @ nul # le_chars 2 elements @ [junk 10, junk 11] @ le_chars 4 first_free @ le_chars 4 grow @ le_chars 4 item_size @ le_chars 4 0"

definition item_bytes :: "(nat \<Rightarrow> char) \<Rightarrow> string \<Rightarrow> nat \<Rightarrow> nat \<Rightarrow> char list" where
  "item_bytes junk name len item = name @ le_chars 4 len @ le_chars 4 item @ [nul, junk 45, junk 46, junk 47]"

lemma length_header_bytes [simp]: "length (header_bytes junk e f g i) = 28"
  by (simp add: header_bytes_def PAGE_MAGIC_def)

lemma length_item_bytes [simp]: "length name = 36 \<Longrightarrow> length (item_bytes junk name l i) = 48"
  by (simp add: item_bytes_def)

lemma bytes_nonempty [simp]: "header_bytes junk e f g i \<noteq> []" "le_chars 4 v \<noteq> []"
  using length_header_bytes [of junk e f g i] length_le_chars [of 4 v] by (metis list.size(3) zero_neq_numeral)+

lemma stored_item_bytes:
  assumes "length name = 36"
  shows "put_at 40 (le_chars 4 i) (put_at 36 (le_chars 4 l) (put_at 0 (name @ [nul]) (pageIndexItem junk))) = item_bytes junk name l i"
  using assms by (simp add: pageIndexItem_bytes put_at_def item_bytes_def take_map drop_map)

lemma created_header_bytes:
  "put_at 12 (le_chars 4 f) (put_at 20 (le_chars 4 i) (put_at 16 (le_chars 4 g) (put_at 0 (PAGE_MAGIC @ [nul]) (pageHeader junk)))) = header_bytes junk 0 f g i"
  by (simp add: pageHeader_bytes put_at_def header_bytes_def PAGE_MAGIC_def take_map drop_map)

lemma written_header_bytes:
  "put_at 12 (le_chars 4 f @ le_chars 4 g @ le_chars 4 i) (put_at 8 (le_chars 2 e) (put_at 0 (PAGE_MAGIC @ [nul]) (pageHeader junk))) = header_bytes junk e f g i"
  by (simp add: pageHeader_bytes put_at_def header_bytes_def PAGE_MAGIC_def take_map drop_map)

lemma header_fields:
  assumes "e < 2 ^ 16" "f < 2 ^ 32" "g < 2 ^ 32" "i < 2 ^ 32"
  shows "cstr (header_bytes junk e f g i) = PAGE_MAGIC" "unat (u16_at 8 (header_bytes junk e f g i)) = e"
    "unat (u32_at 12 (header_bytes junk e f g i)) = f" "unat (u32_at 16 (header_bytes junk e f g i)) = g"
    "unat (u32_at 20 (header_bytes junk e f g i)) = i" "u32_at 24 (header_bytes junk e f g i) = 0"
proof -
  have "nul_free PAGE_MAGIC" by (simp add: PAGE_MAGIC_def)
  then show "cstr (header_bytes junk e f g i) = PAGE_MAGIC" by (simp add: header_bytes_def)
qed (use assms in \<open>simp_all add: header_bytes_def PAGE_MAGIC_def u16_at_def u32_at_def le_val_chars unat_of_nat take_bit_nat_eq_self\<close>)

lemma item_fields:
  assumes "length name = 36" "l < 2 ^ 32" "i < 2 ^ 32"
  shows "take 36 (item_bytes junk name l i) = name" "u32_at 36 (item_bytes junk name l i) = of_nat l"
    "u32_at 40 (item_bytes junk name l i) = of_nat i" "item_bytes junk name l i ! 44 = nul"
  using assms by (simp_all add: item_bytes_def u32_at_def le_val_chars nth_append)

section \<open>The layout\<close>

type_synonym page_items = "(string \<times> char list) list"

text \<open>The bytes of the first \<open>k\<close> items; a block of the index with its pointer; where block \<open>j\<close>, the entry of item \<open>k\<close> and item
  \<open>k\<close> are; and the first free byte with \<open>b\<close> blocks.\<close>

definition item_bytes_before :: "page_items \<Rightarrow> nat \<Rightarrow> nat" where
  "item_bytes_before items k = sum_list (map (length \<circ> snd) (take k items))"

definition block_len :: "nat \<Rightarrow> nat" where
  "block_len G = 48 * G + 4"

definition block_at :: "nat \<Rightarrow> page_items \<Rightarrow> nat \<Rightarrow> nat" where
  "block_at G items j = 28 + block_len G * j + item_bytes_before items (j * G)"

definition entry_at :: "nat \<Rightarrow> page_items \<Rightarrow> nat \<Rightarrow> nat" where
  "entry_at G items k = block_at G items (k div G) + 48 * (k mod G)"

definition item_at :: "nat \<Rightarrow> page_items \<Rightarrow> nat \<Rightarrow> nat" where
  "item_at G items k = 28 + block_len G * (k div G + 1) + item_bytes_before items k"

definition page_free :: "nat \<Rightarrow> nat \<Rightarrow> page_items \<Rightarrow> nat" where
  "page_free G b items = 28 + block_len G * b + item_bytes_before items (length items)"

lemma bytes_before_mono: "i \<le> j \<Longrightarrow> item_bytes_before items i \<le> item_bytes_before items j"
proof -
  assume "i \<le> j"
  then have "take j items = take i items @ take (j - i) (drop i items)" by (metis le_add_diff_inverse take_add)
  then show ?thesis by (simp add: item_bytes_before_def)
qed

lemma bytes_before_Suc: "k < length items \<Longrightarrow> item_bytes_before items (Suc k) = item_bytes_before items k + length (snd (items ! k))"
  by (simp add: item_bytes_before_def take_Suc_conv_app_nth)

lemma bytes_before_snoc: "k \<le> length items \<Longrightarrow> item_bytes_before (items @ xs) k = item_bytes_before items k"
  by (simp add: item_bytes_before_def)

lemma entry_in_block: "0 < G \<Longrightarrow> block_at G items (k div G) \<le> entry_at G items k \<and> entry_at G items k + 48 \<le> block_at G items (k div G) + 48 * G"
  using mod_less_divisor [of G k] by (auto simp: entry_at_def simp del: mod_less_divisor)

lemma block_before_block: "i < j \<Longrightarrow> block_at G items i + block_len G \<le> block_at G items j"
proof -
  assume "i < j"
  then have "block_len G * (i + 1) \<le> block_len G * j" by (intro mult_le_mono2) simp
  moreover have "item_bytes_before items (i * G) \<le> item_bytes_before items (j * G)" using \<open>i < j\<close> by (intro bytes_before_mono mult_le_mono1) simp
  ultimately show ?thesis by (simp add: block_at_def)
qed

lemma item_before_block:
  assumes "k < length items" "0 < G" "k div G < j"
  shows "item_at G items k + length (snd (items ! k)) \<le> block_at G items j"
proof -
  have "block_len G * (k div G + 1) \<le> block_len G * j" using assms(3) by (intro mult_le_mono2) simp
  moreover have "Suc k \<le> j * G" using assms(2,3) div_less_iff_less_mult [of G k j] by simp
  then have "item_bytes_before items (Suc k) \<le> item_bytes_before items (j * G)" by (rule bytes_before_mono)
  ultimately show ?thesis using bytes_before_Suc [OF assms(1)] by (simp add: item_at_def block_at_def)
qed

lemma block_before_item: "j \<le> k div G \<Longrightarrow> block_at G items j + block_len G \<le> item_at G items k"
proof -
  assume j: "j \<le> k div G"
  then have "j * G \<le> k" by (metis div_times_less_eq_dividend le_trans mult_le_mono1)
  then have "item_bytes_before items (j * G) \<le> item_bytes_before items k" by (rule bytes_before_mono)
  moreover have "block_len G * (j + 1) \<le> block_len G * (k div G + 1)" using j by (intro mult_le_mono2) simp
  ultimately show ?thesis unfolding item_at_def block_at_def distrib_left mult_1_right by linarith
qed

lemma entry_before_entry:
  assumes "k < n" "0 < G"
  shows "entry_at G items k + 48 \<le> entry_at G items n"
proof (cases "k div G = n div G")
  case True
  then have "k mod G < n mod G" using assms(1) by (metis add_less_cancel_left div_mult_mod_eq)
  then show ?thesis using True by (simp add: entry_at_def)
next
  case False
  then have "k div G < n div G" using assms div_le_mono [of k n G] by simp
  then show ?thesis
    using block_before_block [of "k div G" "n div G" G items] entry_in_block [OF assms(2), of items k] entry_in_block [OF assms(2), of items n]
    by (simp add: block_len_def)
qed

lemma item_before_item:
  assumes "k < n" "n \<le> length items"
  shows "item_at G items k + length (snd (items ! k)) \<le> item_at G items n"
proof -
  have "item_bytes_before items (Suc k) \<le> item_bytes_before items n" using assms(1) by (intro bytes_before_mono) simp
  moreover have "block_len G * (k div G + 1) \<le> block_len G * (n div G + 1)" using assms(1) by (intro mult_le_mono2) (simp add: div_le_mono)
  ultimately show ?thesis using bytes_before_Suc [of k items] assms unfolding item_at_def distrib_left mult_1_right by linarith
qed

lemma blocks_below_free:
  assumes "j < b" "(b - 1) * G \<le> length items"
  shows "block_at G items j + block_len G \<le> page_free G b items"
proof -
  have "block_len G * (j + 1) \<le> block_len G * b" using assms(1) by (intro mult_le_mono2) simp
  moreover have "j * G \<le> (b - 1) * G" using assms(1) by (intro mult_le_mono1) simp
  then have "item_bytes_before items (j * G) \<le> item_bytes_before items (length items)" using assms(2) by (intro bytes_before_mono) (rule order_trans)
  ultimately show ?thesis by (simp add: block_at_def page_free_def)
qed

lemma items_below_free:
  assumes "k < length items" "k div G < b"
  shows "item_at G items k + length (snd (items ! k)) \<le> page_free G b items"
proof -
  have "block_len G * (k div G + 1) \<le> block_len G * b" using assms(2) by (intro mult_le_mono2) simp
  moreover have "item_bytes_before items (Suc k) \<le> item_bytes_before items (length items)" using assms(1) by (intro bytes_before_mono) simp
  ultimately show ?thesis using bytes_before_Suc [OF assms(1)] by (simp add: item_at_def page_free_def)
qed

lemma layout_snoc:
  "j * G \<le> length items \<Longrightarrow> block_at G (items @ xs) j = block_at G items j"
  "k \<le> length items \<Longrightarrow> item_at G (items @ xs) k = item_at G items k"
  by (simp_all add: block_at_def item_at_def bytes_before_snoc)

lemma entry_snoc: "k \<le> length items \<Longrightarrow> entry_at G (items @ xs) k = entry_at G items k"
  using layout_snoc(1) [of "k div G" G items xs] div_times_less_eq_dividend [of k G] by (simp add: entry_at_def)

lemma free_snoc: "page_free G b (items @ [x]) = page_free G b items + length (snd x)"
  by (simp add: page_free_def item_bytes_before_def)

section \<open>What a page holds\<close>

definition entry_ok :: "nat \<Rightarrow> page_items \<Rightarrow> (nat \<Rightarrow> char) \<Rightarrow> nat \<Rightarrow> bool" where
  "entry_ok G items f k \<longleftrightarrow>
     (\<exists>junk. rd f (entry_at G items k) 48 = item_bytes junk (fst (items ! k)) (length (snd (items ! k))) (item_at G items k))"

text \<open>The bytes of a page with \<open>b\<close> blocks of \<open>G\<close> entries.\<close>

definition disk_rep :: "nat \<Rightarrow> nat \<Rightarrow> page_items \<Rightarrow> (nat \<Rightarrow> char) \<Rightarrow> bool" where
  "disk_rep G b items f \<longleftrightarrow>
     (\<forall>k<length items. entry_ok G items f k \<and> rd f (item_at G items k) (length (snd (items ! k))) = snd (items ! k)) \<and>
     (\<forall>j. j + 1 < b \<longrightarrow> rd f (block_at G items j + 48 * G) 4 = le_chars 4 (block_at G items (j + 1)))"

definition header_rep :: "nat \<Rightarrow> nat \<Rightarrow> nat \<Rightarrow> page_items \<Rightarrow> (nat \<Rightarrow> char) \<Rightarrow> bool" where
  "header_rep G isz b items f \<longleftrightarrow> (\<exists>junk. rd f 0 28 = header_bytes junk (length items) (page_free G b items) G isz)"

definition page_contents :: "nat \<Rightarrow> page_items \<Rightarrow> string \<Rightarrow> (u32 \<times> u32) option" where
  "page_contents G items =
     fold (\<lambda>k m. m(fst (items ! k) \<mapsto> (of_nat (item_at G items k), of_nat (length (snd (items ! k)))))) [0..<length items] Map.empty"

definition page_rep :: "nat \<Rightarrow> nat \<Rightarrow> nat \<Rightarrow> page_items \<Rightarrow> filepage \<Rightarrow> bool" where
  "page_rep G isz b items p \<longleftrightarrow>
     2 \<le> G \<and> (b - 1) * G \<le> length items \<and> length items \<le> b * G \<and> 0 < b \<and>
     (\<forall>x\<in>set items. length (fst x) = 36) \<and>
     unat (m_Elements p) = length items \<and> unat (m_FirstFree p) = page_free G b items \<and> unat (m_Grow p) = G \<and>
     unat (m_LastIndex p) = block_at G items (b - 1) \<and> unat (m_ItemSize p) = isz \<and> \<not> m_pageFull p \<and>
     contents p = page_contents G items \<and>
     (\<exists>d. m_pFile p = Some d \<and> page_free G b items \<le> f_size d \<and> header_rep G isz b items (f_bytes d) \<and> disk_rep G b items (f_bytes d))"

lemma disk_rep_wr:
  assumes "disk_rep G b items f"
    and "\<And>k. k < length items \<Longrightarrow> entry_at G items k + 48 \<le> a \<or> a + length cs \<le> entry_at G items k"
    and "\<And>k. k < length items \<Longrightarrow> item_at G items k + length (snd (items ! k)) \<le> a \<or> a + length cs \<le> item_at G items k"
    and "\<And>j. j + 1 < b \<Longrightarrow> block_at G items j + block_len G \<le> a \<or> a + length cs \<le> block_at G items j + 48 * G"
  shows "disk_rep G b items (wr f a cs)"
  using assms by (simp add: disk_rep_def entry_ok_def rd_wr_other block_len_def add.assoc)

lemma layout_above: "28 \<le> block_at G items j" "28 \<le> entry_at G items k" "28 \<le> item_at G items k"
  by (simp_all add: block_at_def entry_at_def item_at_def)

lemma disk_rep_header: "disk_rep G b items f \<Longrightarrow> length cs \<le> 28 \<Longrightarrow> disk_rep G b items (wr f 0 cs)"
  using layout_above by (intro disk_rep_wr) (simp_all, (meson le_trans trans_le_add1)+)

lemma div_below: "k < n \<Longrightarrow> n \<le> b * G \<Longrightarrow> 0 < G \<Longrightarrow> k div G < (b :: nat)"
  by (simp add: div_less_iff_less_mult)

lemma disk_rep_above:
  assumes "disk_rep G b items f" "page_free G b items \<le> a" "(b - 1) * G \<le> length items" "length items \<le> b * G" "0 < G"
  shows "disk_rep G b items (wr f a cs)"
proof (rule disk_rep_wr [OF assms(1)])
  fix k assume k: "k < length items"
  then have "k div G < b" using assms(4,5) by (rule div_below)
  then show "entry_at G items k + 48 \<le> a \<or> a + length cs \<le> entry_at G items k"
    using entry_in_block [OF assms(5), of items k] blocks_below_free [OF _ assms(3), of "k div G"] assms(2) by (simp add: block_len_def)
  show "item_at G items k + length (snd (items ! k)) \<le> a \<or> a + length cs \<le> item_at G items k"
    using items_below_free [OF k \<open>k div G < b\<close>] assms(2) by simp
next
  fix j assume "j + 1 < b"
  then show "block_at G items j + block_len G \<le> a \<or> a + length cs \<le> block_at G items j + 48 * G"
    using blocks_below_free [OF _ assms(3), of j] assms(2) by simp
qed

section \<open>Operations\<close>

lemma unat_plus_nat: "unat (a :: u32) + n < 2 ^ 32 \<Longrightarrow> unat (a + of_nat n) = unat a + n"
  by (simp add: unat_word_ariths unat_of_nat take_bit_eq_mod mod_simps)

lemma unat_eqD: "unat (w :: u32) = n \<Longrightarrow> w = of_nat n"
  by auto

lemma shouldClose_never: "shouldClose p = p"
proof -
  have "\<not> 0xFFFFFFFF < (x :: u32)" for x using unsigned_less [of x, where 'a = nat] by (simp add: word_less_nat_alt)
  then show ?thesis by (simp add: shouldClose_def)
qed

lemma writeHeader_simps:
  assumes "m_pFile p = Some d" "\<not> m_pageFull p"
  shows "writeHeader junk p =
    p\<lparr>m_pFile := Some (fwrite (header_bytes junk (unat (m_Elements p)) (unat (m_FirstFree p)) (unat (m_Grow p)) (unat (m_ItemSize p))) (fseek_set 0 d))\<rparr>"
  using assms by (simp add: writeHeader_def Let_def written_header_bytes)

text \<open>Everything but the header on disk.\<close>

definition page_rep0 :: "nat \<Rightarrow> nat \<Rightarrow> nat \<Rightarrow> page_items \<Rightarrow> filepage \<Rightarrow> bool" where
  "page_rep0 G isz b items p \<longleftrightarrow>
     2 \<le> G \<and> (b - 1) * G \<le> length items \<and> length items \<le> b * G \<and> 0 < b \<and>
     (\<forall>x\<in>set items. length (fst x) = 36) \<and>
     unat (m_Elements p) = length items \<and> unat (m_FirstFree p) = page_free G b items \<and> unat (m_Grow p) = G \<and>
     unat (m_LastIndex p) = block_at G items (b - 1) \<and> unat (m_ItemSize p) = isz \<and> \<not> m_pageFull p \<and>
     contents p = page_contents G items \<and>
     (\<exists>d. m_pFile p = Some d \<and> page_free G b items \<le> f_size d \<and> disk_rep G b items (f_bytes d))"

lemma page_rep_iff: "page_rep G isz b items p \<longleftrightarrow> page_rep0 G isz b items p \<and> (\<exists>d. m_pFile p = Some d \<and> header_rep G isz b items (f_bytes d))"
  by (auto simp: page_rep_def page_rep0_def)

lemma writeHeader_rep:
  assumes "page_rep0 G isz b items p"
  shows "page_rep G isz b items (writeHeader junk p)"
proof -
  obtain d where d: "m_pFile p = Some d" "page_free G b items \<le> f_size d" "disk_rep G b items (f_bytes d)" "\<not> m_pageFull p"
    using assms by (auto simp: page_rep0_def)
  show ?thesis unfolding writeHeader_simps [OF d(1,4)] using assms d
    by (auto simp: page_rep_def page_rep0_def header_rep_def rd_wr_same disk_rep_header)
qed

lemma page_create_rep:
  assumes "\<not> isOpen p" "contents p = Map.empty" "\<not> m_pageFull p" "2 \<le> unat alloc" "32 + 48 * unat alloc < 2 ^ 32"
  shows "page_rep (unat alloc) (unat sz) 1 [] (page_create junk alloc sz p)"
proof -
  define m where "m = 48 * unat alloc"
  define F where "F = 28 + m + 4"
  have f: "unat (of_nat F :: u32) = F" using assms(5) by (simp add: unat_of_nat take_bit_nat_eq_self F_def m_def del: of_nat_add of_nat_mult)
  define d where "d = fwrite [nul] (fseek_end (unat (sz * alloc)) (fwrite (le_chars 4 INDEX_NEXT_EMPTY)
    (fseek_cur (int m) (fwrite (header_bytes junk 0 F (unat alloc) (unat sz)) fopen_w))))"
  have p: "page_create junk alloc sz p =
    p\<lparr>m_pFile := Some d, m_LastIndex := of_nat 28, m_Elements := 0, m_FirstFree := of_nat F, m_Grow := alloc, m_ItemSize := sz\<rparr>"
    using assms(1) f unfolding page_create_def Let_def created_header_bytes m_def [symmetric] F_def [symmetric] d_def by simp
  have F': "page_free (unat alloc) 1 [] = F" by (simp add: page_free_def block_len_def item_bytes_before_def F_def m_def)
  have "rd (f_bytes d) 0 28 = header_bytes junk 0 F (unat alloc) (unat sz)" "F \<le> f_size d"
    unfolding d_def by (simp_all add: rd_wr_other rd_wr_same fopen_w_def F_def)
  then show ?thesis unfolding p using assms f F'
    by (auto simp: page_rep_def block_at_def item_bytes_before_def page_contents_def disk_rep_def header_rep_def)
qed

lemma growPage_rep:
  assumes rep: "page_rep G isz b items p" and full: "length items = b * G" and fits: "page_free G (b + 1) items + isz * G < 2 ^ 32"
  shows "\<exists>p'. growPage junk p = Some p' \<and> page_rep G isz (b + 1) items p'"
proof -
  obtain d where d: "m_pFile p = Some d" "page_free G b items \<le> f_size d" "disk_rep G b items (f_bytes d)"
    and p: "2 \<le> G" "(b - 1) * G \<le> length items" "length items \<le> b * G" "0 < b" "\<forall>x\<in>set items. length (fst x) = 36"
    "unat (m_Elements p) = length items" "unat (m_FirstFree p) = page_free G b items" "unat (m_Grow p) = G"
    "unat (m_LastIndex p) = block_at G items (b - 1)" "unat (m_ItemSize p) = isz" "\<not> m_pageFull p" "contents p = page_contents G items"
    using rep by (auto simp: page_rep_def)
  let ?F = "page_free G b items" and ?a = "block_at G items (b - 1) + 48 * G"
  have F: "page_free G (b + 1) items = ?F + 48 * G + 4" by (simp add: page_free_def block_len_def)
  have new: "block_at G items b = ?F" by (simp add: block_at_def page_free_def full)
  have grow: "m_Grow p = of_nat G" using p(8) by auto
  have ff: "unat (m_FirstFree p + 48 * m_Grow p) = ?F + 48 * G"
    using unat_plus_nat [of "m_FirstFree p" "48 * unat (m_Grow p)"] fits F p(7,8) by (simp add: grow)
  have ff4: "unat (m_FirstFree p + 48 * m_Grow p + 4) = ?F + 48 * G + 4"
    using unat_plus_nat [of "m_FirstFree p + 48 * m_Grow p" 4] fits F ff by simp
  define f1 where "f1 = wr (f_bytes d) (?F + 48 * G) (le_chars 4 INDEX_NEXT_EMPTY)"
  define f2 where "f2 = wr f1 ?a (le_chars 4 ?F)"
  have "disk_rep G b items f1" unfolding f1_def using d(3) p(1-3) by (intro disk_rep_above) auto
  then have r2: "disk_rep G b items f2" unfolding f2_def
  proof (rule disk_rep_wr)
    fix k assume k: "k < length items"
    then have "k div G < b" using p(1,3) by (intro div_below) auto
    then consider "k div G < b - 1" | "k div G = b - 1" by linarith
    then show "entry_at G items k + 48 \<le> ?a \<or> ?a + length (le_chars 4 ?F) \<le> entry_at G items k"
      using entry_in_block [of G items k] block_before_block [of "k div G" "b - 1" G items] p(1) by cases (auto simp: block_len_def)
    from \<open>k div G < b\<close> consider "k div G < b - 1" | "k div G = b - 1" by linarith
    then show "item_at G items k + length (snd (items ! k)) \<le> ?a \<or> ?a + length (le_chars 4 ?F) \<le> item_at G items k"
      using item_before_block [OF k, of G "b - 1"] block_before_item [of "b - 1" k G items] p(1) by cases (auto simp: block_len_def)
  next
    fix j assume "j + 1 < b"
    then show "block_at G items j + block_len G \<le> ?a \<or> ?a + length (le_chars 4 ?F) \<le> block_at G items j + 48 * G"
      using block_before_block [of j "b - 1" G items] by linarith
  qed
  have "rd f2 ?a 4 = le_chars 4 (block_at G items b)" unfolding f2_def new by (simp add: rd_wr_same)
  then have "disk_rep G (b + 1) items f2" using r2 p(4) unfolding disk_rep_def by (auto simp: less_Suc_eq)
  then have r3: "disk_rep G (b + 1) items (wr f2 (?a + 4 + n) [nul])" if "?F + 48 * G + 4 \<le> n" for n
    using that p(1,3) full F by (intro disk_rep_above) auto
  define n where "n = unat (m_FirstFree p + 48 * m_Grow p + 4 + m_ItemSize p * m_Grow p)"
  define d' where "d' = fwrite [nul] (fseek_cur (int n) (fwrite (le_chars 4 ?F) (fseek_set ?a (fwrite (le_chars 4 INDEX_NEXT_EMPTY) (fseek_set (?F + 48 * G) d)))))"
  let ?q = "p\<lparr>m_FirstFree := m_FirstFree p + 48 * m_Grow p + 4, m_LastIndex := m_FirstFree p, m_pFile := Some d'\<rparr>"
  have g: "growPage junk p = Some (writeHeader junk ?q)"
    using d(1) p(7-9) ff unfolding growPage_def Let_def d'_def n_def by simp
  have "f_bytes d' = wr f2 (?a + 4 + n) [nul]" "?F + 48 * G + 4 \<le> f_size d'" unfolding d'_def f2_def f1_def by simp_all
  moreover have "?F + 48 * G + 4 \<le> n"
  proof -
    have "m_ItemSize p * m_Grow p = of_nat (isz * G)" using p(8,10) by auto
    then show ?thesis using unat_plus_nat [of "m_FirstFree p + 48 * m_Grow p + 4" "isz * G"] fits F ff4 by (simp add: n_def)
  qed
  ultimately have "page_rep0 G isz (b + 1) items ?q"
    using p full F ff4 new r3 by (simp add: page_rep0_def)
  then show ?thesis using writeHeader_rep g by blast
qed

lemma page_contents_snoc:
  "page_contents G (items @ [x]) = (page_contents G items)(fst x \<mapsto> (of_nat (item_at G items (length items)), of_nat (length (snd x))))"
proof -
  have "fold (\<lambda>k m. m(fst ((items @ [x]) ! k) \<mapsto> (of_nat (item_at G (items @ [x]) k), of_nat (length (snd ((items @ [x]) ! k)))))) [0..<length items] Map.empty =
    page_contents G items"
    unfolding page_contents_def by (rule fold_cong) (auto simp: nth_append layout_snoc)
  then show ?thesis by (simp add: page_contents_def layout_snoc)
qed

lemma disk_rep_snoc:
  assumes "disk_rep G b items f" "(b - 1) * G \<le> length items"
    and "rd f (entry_at G items (length items)) 48 = item_bytes junk (fst x) (length (snd x)) (item_at G items (length items))"
    and "rd f (item_at G items (length items)) (length (snd x)) = snd x"
  shows "disk_rep G b (items @ [x]) f"
proof -
  have "block_at G (items @ [x]) j = block_at G items j" if "j < b" for j
  proof -
    have "j * G \<le> (b - 1) * G" using that by (intro mult_le_mono1) simp
    then show ?thesis using assms(2) by (intro layout_snoc(1)) (rule order_trans)
  qed
  then show ?thesis using assms
    unfolding disk_rep_def entry_ok_def by (auto simp: less_Suc_eq nth_append layout_snoc entry_snoc)
qed

text \<open>A page after the writes of \<open>storeItem\<close>: the entry at \<open>e\<close> and the item at the first free byte.\<close>

definition with_item :: "(nat \<Rightarrow> char) \<Rightarrow> nat \<Rightarrow> string \<Rightarrow> char list \<Rightarrow> disk_file \<Rightarrow> filepage \<Rightarrow> filepage" where
  "with_item junk e name data d p =
     p\<lparr>m_pFile := Some (fwrite data (fseek_set (unat (m_FirstFree p)) (fwrite (item_bytes junk name (length data) (unat (m_FirstFree p))) (fseek_set e d)))),
       contents := (contents p)(name \<mapsto> (m_FirstFree p, of_nat (length data))),
       m_FirstFree := m_FirstFree p + of_nat (length data), m_Elements := m_Elements p + 1\<rparr>"

lemma store_in_block:
  assumes rep: "page_rep G isz b items p" and room: "length items < b * G" and name: "length name = 36" "nul_free name"
    and fits: "page_free G b items + length data < 2 ^ 32" "length items + 1 < 2 ^ 16"
  shows "\<exists>d. m_pFile p = Some d \<and> page_rep0 G isz b (items @ [(name, data)]) (with_item junk (entry_at G items (length items)) name data d p)"
proof -
  define entry where "entry = item_bytes junk name (length data) (page_free G b items)"
  obtain d where d: "m_pFile p = Some d" "page_free G b items \<le> f_size d" "disk_rep G b items (f_bytes d)"
    and p: "2 \<le> G" "(b - 1) * G \<le> length items" "length items \<le> b * G" "0 < b" "\<forall>x\<in>set items. length (fst x) = 36"
    "unat (m_Elements p) = length items" "unat (m_FirstFree p) = page_free G b items" "unat (m_Grow p) = G"
    "unat (m_LastIndex p) = block_at G items (b - 1)" "unat (m_ItemSize p) = isz" "\<not> m_pageFull p" "contents p = page_contents G items"
    using rep by (auto simp: page_rep_def)
  let ?n = "length items" and ?F = "page_free G b items"
  have G: "0 < G" using p(1) by simp
  have nb: "?n div G = b - 1"
    using p(2,4) room G by (intro div_nat_eqI) (auto simp: mult.commute [of _ G])
  have F: "item_at G items ?n = ?F" using p(4) by (simp add: item_at_def page_free_def nb)
  let ?e = "entry_at G items ?n"
  have e: "block_at G items (b - 1) \<le> ?e" "?e + 48 \<le> ?F"
    using entry_in_block [OF G, of items ?n] blocks_below_free [of "b - 1" b G items] p(2,4) unfolding nb by (auto simp: block_len_def)
  have len: "length entry = 48" using name(1) by (simp add: entry_def)
  have "disk_rep G b items (wr (f_bytes d) ?e entry)"
  proof (rule disk_rep_wr [OF d(3)])
    fix k assume k: "k < ?n"
    then show "entry_at G items k + 48 \<le> ?e \<or> ?e + length entry \<le> entry_at G items k" using entry_before_entry [OF k G] by simp
    have "k div G < b" using k p(3) G by (rule div_below)
    then consider "k div G < b - 1" | "k div G = b - 1" by linarith
    then show "item_at G items k + length (snd (items ! k)) \<le> ?e \<or> ?e + length entry \<le> item_at G items k"
    proof cases
      case 1
      then show ?thesis using item_before_block [OF k G 1] e(1) by simp
    next
      case 2
      then show ?thesis using block_before_item [of "b - 1" k G items] entry_in_block [OF G, of items ?n] len by (simp add: nb block_len_def)
    qed
  next
    fix j assume "j + 1 < b"
    then show "block_at G items j + block_len G \<le> ?e \<or> ?e + length entry \<le> block_at G items j + 48 * G"
      using block_before_block [of j "b - 1" G items] e(1) by linarith
  qed
  from disk_rep_above [OF this order_refl p(2,3) G] have "disk_rep G b items (wr (wr (f_bytes d) ?e entry) ?F data)" .
  moreover have "rd (wr (wr (f_bytes d) ?e entry) ?F data) ?e 48 = entry" using e(2) len by (simp add: rd_wr_other rd_wr_same)
  ultimately have "disk_rep G b (items @ [(name, data)]) (wr (wr (f_bytes d) ?e entry) ?F data)"
    using p(2) by (intro disk_rep_snoc [where junk = junk]) (simp_all add: F entry_def rd_wr_same)
  moreover have "unat (m_Elements p + 1) = ?n + 1" using fits(2) p(6) by (simp add: unat_word_ariths)
  moreover have "unat (m_FirstFree p + of_nat (length data)) = ?F + length data" using fits(1) p(7) by (simp add: unat_plus_nat)
  moreover have "m_FirstFree p = of_nat (item_at G items ?n)" unfolding F p(7) [symmetric] by simp
  moreover have "block_at G (items @ [(name, data)]) (b - 1) = block_at G items (b - 1)" using p(2) by (intro layout_snoc)
  ultimately show ?thesis using d(1,2) p room name(1)
    by (auto simp: page_rep0_def with_item_def free_snoc page_contents_snoc entry_def)
qed

definition blocks_for :: "nat \<Rightarrow> nat \<Rightarrow> nat" where
  "blocks_for G n = (if n = 0 then 1 else (n - 1) div G + 1)"

lemma storeItem_rep:
  assumes rep: "page_rep G isz (blocks_for G (length items)) items p" and name: "length name = 36" "nul_free name"
    and fits: "page_free G (blocks_for G (length items + 1)) items + length data + isz * G < 2 ^ 32" "length items + 1 < 2 ^ 16"
  shows "\<exists>p'. storeItem junk name data p = Some p' \<and> page_rep G isz (blocks_for G (length items + 1)) (items @ [(name, data)]) p'"
proof -
  let ?n = "length items"
  have G: "2 \<le> G" "unat (m_Grow p) = G" and E: "unat (m_Elements p) = ?n" and opn: "isOpen p" and lo: "(blocks_for G ?n - 1) * G \<le> ?n" "?n \<le> blocks_for G ?n * G"
    using rep by (auto simp: page_rep_def isOpen_def)
  have next_block: "blocks_for G (?n + 1) = ?n div G + 1" by (simp add: blocks_for_def)
  have grow: "(?n mod G = 0 \<and> ?n > 1) \<longleftrightarrow> ?n = blocks_for G ?n * G"
  proof
    assume a: "?n mod G = 0 \<and> ?n > 1"
    then obtain q where q: "?n = q * G" "0 < q" by (metis mod_0_imp_dvd dvd_div_mult_self mult_zero_left gr0I not_less_zero)
    then have "(?n - 1) div G = q - 1"
      using G(1) by (intro div_nat_eqI) (auto simp: algebra_simps diff_mult_distrib)
    then show "?n = blocks_for G ?n * G" using q by (simp add: blocks_for_def)
  next
    assume a: "?n = blocks_for G ?n * G"
    have "0 < blocks_for G ?n" by (simp add: blocks_for_def)
    then have "G \<le> ?n" using a by (metis le_add1 mult_Suc Suc_pred)
    then show "?n mod G = 0 \<and> ?n > 1" using a G(1) by (metis mod_mult_self2_is_0 Suc_1 Suc_le_lessD le_trans)
  qed
  define p1 where "p1 = (if ?n mod G = 0 \<and> ?n > 1 then growPage junk p else Some p)"
  have "\<exists>q. p1 = Some q \<and> page_rep G isz (blocks_for G (?n + 1)) items q \<and> ?n < blocks_for G (?n + 1) * G"
  proof (cases "?n mod G = 0 \<and> ?n > 1")
    case True
    then have full: "?n = blocks_for G ?n * G" using grow by simp
    then have b: "blocks_for G (?n + 1) = blocks_for G ?n + 1" unfolding next_block using G(1) by (metis nonzero_mult_div_cancel_right not_numeral_le_zero)
    have "page_free G (blocks_for G ?n + 1) items + isz * G < 2 ^ 32" using fits(1) unfolding b by linarith
    then obtain q where "growPage junk p = Some q" "page_rep G isz (blocks_for G ?n + 1) items q"
      using growPage_rep [OF rep full] by blast
    moreover have "?n < (blocks_for G ?n + 1) * G" using full G(1) by simp
    ultimately show ?thesis using True unfolding p1_def b by auto
  next
    case False
    then have lt: "?n < blocks_for G ?n * G" using grow lo(2) by linarith
    then have "?n div G = blocks_for G ?n - 1"
      using lo(1) G(1) by (intro div_nat_eqI) (auto simp: mult.commute [of _ G] blocks_for_def)
    then have "blocks_for G (?n + 1) = blocks_for G ?n" by (simp add: next_block blocks_for_def)
    then show ?thesis using False rep lt unfolding p1_def by auto
  qed
  then obtain q where q: "p1 = Some q" "page_rep G isz (blocks_for G (?n + 1)) items q" "?n < blocks_for G (?n + 1) * G" by blast
  let ?b = "blocks_for G (?n + 1)"
  have "page_free G ?b items + length data < 2 ^ 32" using fits(1) by simp
  from store_in_block [OF q(2,3) name this fits(2), of junk] obtain d where d: "m_pFile q = Some d"
    and r: "page_rep0 G isz ?b (items @ [(name, data)]) (with_item junk (entry_at G items ?n) name data d q)" by blast
  have q': "unat (m_FirstFree q) = page_free G ?b items" "unat (m_LastIndex q) = block_at G items (?b - 1)" "unat (m_Elements q) = ?n" "unat (m_Grow q) = G"
    using q(2) by (auto simp: page_rep_def)
  have e: "unat (m_LastIndex q) + 48 * (unat (m_Elements q) mod unat (m_Grow q)) = entry_at G items ?n"
    unfolding q' next_block by (simp add: entry_at_def)
  have "m_Grow p \<noteq> 0" using G by auto
  then have "storeItem junk name data p = Some (writeHeader junk (with_item junk (entry_at G items ?n) name data d q))"
    using opn name q(1) [unfolded p1_def] d E G(2)
    unfolding storeItem_def by (simp add: Let_def stored_item_bytes e shouldClose_never with_item_def)
  then show ?thesis using writeHeader_rep [OF r] by blast
qed

lemma page_contents_lookup:
  "case page_contents G items name of
     None \<Rightarrow> map_of (rev items) name = None
   | Some (a, l) \<Rightarrow> \<exists>k<length items. map_of (rev items) name = Some (snd (items ! k)) \<and> a = of_nat (item_at G items k) \<and> l = of_nat (length (snd (items ! k)))"
proof (induction items rule: rev_induct)
  case Nil
  show ?case by (simp add: page_contents_def)
next
  case (snoc x items)
  show ?case
  proof (cases "fst x = name")
    case True
    then show ?thesis by (auto simp: page_contents_snoc layout_snoc nth_append intro!: exI [of _ "length items"])
  next
    case False
    then have "page_contents G (items @ [x]) name = page_contents G items name" "map_of (rev (items @ [x])) name = map_of (rev items) name"
      by (auto simp: page_contents_snoc)
    then show ?thesis using snoc by (auto simp: nth_append layout_snoc less_Suc_eq split: option.splits)
  qed
qed

lemma retrieveItem_rep:
  assumes rep: "page_rep G isz b items p" and fits: "page_free G b items < 2 ^ 32"
  shows "fst (retrieveItem name p) = map_of (rev items) name" "page_rep G isz b items (snd (retrieveItem name p))"
proof -
  obtain d where d: "m_pFile p = Some d" "page_free G b items \<le> f_size d" "disk_rep G b items (f_bytes d)" "header_rep G isz b items (f_bytes d)"
    and c: "contents p = page_contents G items" "2 \<le> G" "length items \<le> b * G"
    using rep by (auto simp: page_rep_def)
  have "fst (retrieveItem name p) = map_of (rev items) name \<and> (snd (retrieveItem name p) = p \<or> (\<exists>n. snd (retrieveItem name p) = p\<lparr>m_pFile := Some (d\<lparr>f_pos := n\<rparr>)\<rparr>))"
  proof (cases "page_contents G items name")
    case None
    then show ?thesis using page_contents_lookup [where G = G and items = items and name = name] d(1) c(1) by (simp add: retrieveItem_def)
  next
    case (Some al)
    then obtain a l k where k: "page_contents G items name = Some (a, l)" "k < length items" "map_of (rev items) name = Some (snd (items ! k))"
      "a = of_nat (item_at G items k)" "l = of_nat (length (snd (items ! k)))"
      using page_contents_lookup [where G = G and items = items and name = name] by (cases al) auto
    have "k div G < b" using div_below [OF k(2) c(3)] c(2) by simp
    then have e: "item_at G items k + length (snd (items ! k)) \<le> page_free G b items" by (rule items_below_free [OF k(2)])
    then have u: "unat a = item_at G items k" "unat l = length (snd (items ! k))" using fits k(4,5) by (simp_all add: unat_of_nat take_bit_nat_eq_self)
    have "rd (f_bytes d) (item_at G items k) (length (snd (items ! k))) = snd (items ! k)" using d(3) k(2) by (simp add: disk_rep_def)
    then show ?thesis using d(1,2) e k(1,3) c(1) by (simp add: retrieveItem_def u fread_inside) (auto simp: fseek_set_def)
  qed
  then show "fst (retrieveItem name p) = map_of (rev items) name" "page_rep G isz b items (snd (retrieveItem name p))"
    using rep d by (auto simp: page_rep_def)
qed

section \<open>Reading a page back\<close>

text \<open>Where \<open>open\<close> stands after \<open>k\<close> entries, and the block it is in.\<close>

definition open_pos :: "nat \<Rightarrow> page_items \<Rightarrow> nat \<Rightarrow> nat" where
  "open_pos G items k = (if k = 0 then 28 else entry_at G items (k - 1) + 48)"

definition open_block :: "nat \<Rightarrow> page_items \<Rightarrow> nat \<Rightarrow> nat" where
  "open_block G items k = block_at G items ((k - 1) div G)"

lemma walk_step:
  assumes "disk_rep G b items (f_bytes d)" "page_free G b items \<le> f_size d" "page_free G b items < 2 ^ 32"
    and "2 \<le> G" "(b - 1) * G \<le> length items" "length items \<le> b * G"
    and "k < length items" "f_pos d = open_pos G items k" "unat index = open_block G items k" "unat grow = G"
  shows "next_index grow index d = (of_nat (block_at G items (k div G)), d\<lparr>f_pos := entry_at G items k\<rparr>)"
    and "\<exists>junk'. fread 48 (d\<lparr>f_pos := entry_at G items k\<rparr>) =
      (item_bytes junk' (fst (items ! k)) (length (snd (items ! k))) (item_at G items k), d\<lparr>f_pos := open_pos G items (Suc k)\<rparr>)"
    and "item_at G items k + length (snd (items ! k)) < 2 ^ 32"
proof -
  let ?f = "f_bytes d" and ?F = "page_free G b items"
  have G: "0 < G" using assms(4) by simp
  have kb: "k div G < b" using div_below [OF assms(7,6) G] .
  have below: "block_at G items j + block_len G \<le> ?F" if "j < b" for j using blocks_below_free [OF that assms(5)] .
  have ent: "entry_at G items k + 48 \<le> ?F" using entry_in_block [OF G, of items k] below [OF kb] by (simp add: block_len_def)
  show "item_at G items k + length (snd (items ! k)) < 2 ^ 32" using items_below_free [OF assms(7) kb] assms(3) by simp
  obtain junk' where "rd ?f (entry_at G items k) 48 = item_bytes junk' (fst (items ! k)) (length (snd (items ! k))) (item_at G items k)"
    using assms(1,7) by (auto simp: disk_rep_def entry_ok_def)
  then show "\<exists>junk'. fread 48 (d\<lparr>f_pos := entry_at G items k\<rparr>) =
      (item_bytes junk' (fst (items ! k)) (length (snd (items ! k))) (item_at G items k), d\<lparr>f_pos := open_pos G items (Suc k)\<rparr>)"
    using ent assms(2) fread_inside [of "d\<lparr>f_pos := entry_at G items k\<rparr>" 48] by (auto simp: open_pos_def)
  show "next_index grow index d = (of_nat (block_at G items (k div G)), d\<lparr>f_pos := entry_at G items k\<rparr>)"
  proof (cases "k = 0 \<or> k mod G \<noteq> 0")
    case True
    have blk: "(k - 1) div G = k div G" "k \<noteq> 0 \<Longrightarrow> Suc ((k - 1) mod G) = k mod G"
      using True G by (cases k; auto simp: div_Suc mod_Suc)+
    have pos: "f_pos d = entry_at G items k"
    proof (cases "k = 0")
      case True
      then show ?thesis using assms(8) by (simp add: open_pos_def entry_at_def block_at_def item_bytes_before_def)
    next
      case False
      then show ?thesis using assms(8) blk by (simp add: open_pos_def entry_at_def flip: add_mult_distrib2)
    qed
    have "unat index + 48 * unat grow \<noteq> f_pos d mod 2 ^ 32"
      using entry_in_block [OF G, of items k] pos ent assms(3,9,10) blk by (simp add: open_block_def)
    moreover have "index = of_nat (block_at G items (k div G))" using assms(9) blk unfolding open_block_def by (intro unat_eqD) simp
    ultimately show ?thesis using pos by (simp add: next_index_def)
  next
    case False
    then obtain q where q: "k = Suc q * G" by (metis mod_0_imp_dvd dvd_div_mult_self mult_zero_left not0_implies_Suc)
    have kd: "k div G = Suc q" "(k - 1) div G = q"
      using q G by (simp, intro div_nat_eqI) (auto simp: algebra_simps)
    have km: "(k - 1) mod G = G - 1" using kd(2) q G minus_div_mult_eq_mod [of "k - 1" G] by (simp add: algebra_simps)
    have pos: "f_pos d = block_at G items q + 48 * G"
      using assms(8) False kd(2) km G by (simp add: open_pos_def entry_at_def algebra_simps)
    have "Suc q < b" using kb kd(1) by simp
    then have ptr: "rd ?f (block_at G items q + 48 * G) 4 = le_chars 4 (block_at G items (Suc q))" using assms(1) by (simp add: disk_rep_def)
    have in1: "block_at G items q + 48 * G + 4 \<le> ?F" and in2: "block_at G items (Suc q) < 2 ^ 32"
      using below [of q] below [of "Suc q"] \<open>Suc q < b\<close> assms(3) by (simp_all add: block_len_def)
    have "entry_at G items k = block_at G items (Suc q)" using kd(1) q by (simp add: entry_at_def)
    then show ?thesis using pos assms(2,3,9,10) in1 in2 ptr kd
      by (simp add: next_index_def open_block_def fread_inside overwrite_def le_val_chars unat_of_nat take_bit_nat_eq_self fseek_set_def)
  qed
qed

lemma open_block_small:
  assumes "k \<le> length items" "page_free G b items < 2 ^ 32" "2 \<le> G" "(b - 1) * G \<le> length items" "length items \<le> b * G"
  shows "open_block G items k < 2 ^ 32"
proof (cases "length items")
  case 0
  then show ?thesis using assms(1,2) by (simp add: open_block_def block_at_def item_bytes_before_def)
next
  case (Suc n)
  then have "(k - 1) div G < b" using assms(1,3,5) by (intro div_below [of _ "length items"]) auto
  then show ?thesis using blocks_below_free [OF _ assms(4), of "(k - 1) div G"] assms(2) by (simp add: open_block_def)
qed

lemma open_step:
  assumes "disk_rep G b items (f_bytes d)" "page_free G b items \<le> f_size d" "page_free G b items < 2 ^ 32"
    and "2 \<le> G" "(b - 1) * G \<le> length items" "length items \<le> b * G"
    and "k < length items" "f_pos d = open_pos G items k" "unat (m_LastIndex p) = open_block G items k" "unat grow = G"
    and "\<forall>x\<in>set items. length (fst x) = 36"
  shows "open_loop junk grow (Suc m) d p = open_loop junk grow m (d\<lparr>f_pos := open_pos G items (Suc k)\<rparr>)
    (p\<lparr>m_LastIndex := of_nat (open_block G items (Suc k)),
      contents := (contents p)(fst (items ! k) \<mapsto> (of_nat (item_at G items k), of_nat (length (snd (items ! k)))))\<rparr>)"
proof -
  note w = walk_step [OF assms(1-10)]
  have n36: "length (fst (items ! k)) = 36" using assms(7,11) by simp
  obtain junk' where "fread 48 (d\<lparr>f_pos := entry_at G items k\<rparr>) =
      (item_bytes junk' (fst (items ! k)) (length (snd (items ! k))) (item_at G items k), d\<lparr>f_pos := open_pos G items (Suc k)\<rparr>)"
    using w(2) by blast
  then show ?thesis
    using item_fields [OF n36, of "length (snd (items ! k))" "item_at G items k" junk'] n36 w(3)
    by (simp add: w(1) Let_def overwrite_def pageIndexItem_bytes open_block_def)
qed

lemma open_loop_rep:
  assumes "disk_rep G b items (f_bytes d)" "page_free G b items \<le> f_size d" "page_free G b items < 2 ^ 32"
    and "2 \<le> G" "(b - 1) * G \<le> length items" "length items \<le> b * G" "\<forall>x\<in>set items. length (fst x) = 36"
    and "f_pos d = 28" "unat (m_LastIndex p) = 28" "contents p = Map.empty" "unat grow = G"
  shows "\<exists>d'. open_loop junk grow (length items) d p =
    (d', p\<lparr>m_LastIndex := of_nat (block_at G items ((length items - 1) div G)), contents := page_contents G items\<rparr>) \<and>
    f_bytes d' = f_bytes d \<and> f_size d' = f_size d"
proof -
  define upd where "upd = (\<lambda>k m. m(fst (items ! k) \<mapsto> (of_nat (item_at G items k) :: u32, of_nat (length (snd (items ! k))) :: u32)))"
  have "\<exists>d'. open_loop junk grow m d p = (d', p\<lparr>m_LastIndex := of_nat (open_block G items (length items)), contents := fold upd [k..<length items] (contents p)\<rparr>) \<and>
      f_bytes d' = f_bytes d \<and> f_size d' = f_size d"
    if "m = length items - k" "k \<le> length items" "disk_rep G b items (f_bytes d)" "page_free G b items \<le> f_size d"
      "f_pos d = open_pos G items k" "unat (m_LastIndex p) = open_block G items k" for m k d p
    using that
  proof (induction m arbitrary: k d p)
    case 0
    then show ?case using unat_eqD [of "m_LastIndex p"] by auto
  next
    case (Suc m)
    then have k: "k < length items" by simp
    define d' p' where "d' = d\<lparr>f_pos := open_pos G items (Suc k)\<rparr>"
      and "p' = p\<lparr>m_LastIndex := of_nat (open_block G items (Suc k)), contents := upd k (contents p)\<rparr>"
    then have s: "open_loop junk grow (Suc m) d p = open_loop junk grow m d' p'"
      "f_bytes d' = f_bytes d" "f_size d' = f_size d" "f_pos d' = open_pos G items (Suc k)"
      "p' = p\<lparr>m_LastIndex := of_nat (open_block G items (Suc k)), contents := upd k (contents p)\<rparr>"
      using open_step [OF Suc.prems(3,4) assms(3-6) k Suc.prems(5,6) assms(11,7), of junk m] unfolding upd_def by simp_all
    have "unat (m_LastIndex p') = open_block G items (Suc k)"
      using open_block_small [OF _ assms(3-6), of "Suc k"] k s(5) by (simp add: unat_of_nat take_bit_nat_eq_self)
    moreover have "m = length items - Suc k" "disk_rep G b items (f_bytes d')" "page_free G b items \<le> f_size d'" using Suc.prems s(2,3) by simp_all
    ultimately obtain d'' where "open_loop junk grow m d' p' =
        (d'', p'\<lparr>m_LastIndex := of_nat (open_block G items (length items)), contents := fold upd [Suc k..<length items] (contents p')\<rparr>)"
      "f_bytes d'' = f_bytes d" "f_size d'' = f_size d"
      using Suc.IH [of "Suc k" d' p'] k s(2-4) by auto
    then show ?case using s(1,5) k by (auto simp: upt_conv_Cons simp del: open_loop.simps)
  qed
  from this [of "length items" 0 d p] show ?thesis using assms
    by (simp add: open_pos_def open_block_def block_at_def item_bytes_before_def page_contents_def upd_def)
qed

lemma page_open_rep:
  assumes "disk_rep G b items (f_bytes d)" "header_rep G isz b items (f_bytes d)" "page_free G b items \<le> f_size d"
    and "page_free G b items < 2 ^ 32" "length items < 2 ^ 16" "isz < 2 ^ 32"
    and "2 \<le> G" "b = blocks_for G (length items)" "\<forall>x\<in>set items. length (fst x) = 36"
    and "f_pos d = 0" "\<not> isOpen p" "contents p = Map.empty" "\<not> m_pageFull p"
  shows "page_rep G isz b items (page_open junk d p)"
proof -
  have b: "0 < b" "(b - 1) * G \<le> length items" "length items \<le> b * G" "b - 1 = (length items - 1) div G"
  proof -
    show "0 < b" "b - 1 = (length items - 1) div G" by (auto simp: assms(8) blocks_for_def)
    show "(b - 1) * G \<le> length items" using le_trans [OF div_times_less_eq_dividend diff_le_self] by (auto simp: assms(8) blocks_for_def)
    have "length items - 1 < ((length items - 1) div G + 1) * G" using assms(7) dividend_less_div_times [of G "length items - 1"] by simp
    then show "length items \<le> b * G" by (auto simp: assms(8) blocks_for_def)
  qed
  obtain junk' where h: "rd (f_bytes d) 0 28 = header_bytes junk' (length items) (page_free G b items) G isz"
    using assms(2) by (auto simp: header_rep_def)
  have F: "28 \<le> page_free G b items" "G < 2 ^ 32"
  proof -
    have "block_len G \<le> block_len G * b" using b(1) by simp
    then show "28 \<le> page_free G b items" "G < 2 ^ 32" using assms(4) block_len_def [of G] unfolding page_free_def by linarith+
  qed
  have fr: "fread 28 d = (header_bytes junk' (length items) (page_free G b items) G isz, d\<lparr>f_pos := 28\<rparr>)"
    using fread_inside [of d 28] assms(3,10) F(1) h by simp
  note fields = header_fields [OF assms(5,4) F(2) assms(6), of junk']
  let ?h = "header_bytes junk' (length items) (page_free G b items) G isz"
  obtain d' where l: "open_loop junk (u32_at 16 ?h) (length items) (d\<lparr>f_pos := 28\<rparr>) (p\<lparr>m_LastIndex := 28\<rparr>) =
    (d', p\<lparr>m_LastIndex := of_nat (block_at G items (b - 1)), contents := page_contents G items\<rparr>)" "f_bytes d' = f_bytes d" "f_size d' = f_size d"
    using open_loop_rep [of G b items "d\<lparr>f_pos := 28\<rparr>" "p\<lparr>m_LastIndex := 28\<rparr>" "u32_at 16 ?h" junk] assms b fields(4) by auto
  have last: "block_at G items (b - 1) < 2 ^ 32" using blocks_below_free [of "b - 1" b G items] b assms(4) by simp
  have "page_open junk d p = p\<lparr>m_LastIndex := of_nat (block_at G items (b - 1)), contents := page_contents G items, m_pFile := Some d',
    m_Elements := u16_at 8 ?h, m_FirstFree := u32_at 12 ?h, m_Grow := u32_at 16 ?h, m_ItemSize := u32_at 20 ?h\<rparr>"
    using assms(11) fields l(1) by (simp add: page_open_def fr overwrite_def pageHeader_bytes Let_def)
  then show ?thesis using assms b fields l(2,3) last
    by (simp add: page_rep_def header_rep_def unat_of_nat take_bit_nat_eq_self)
qed

section \<open>Pages are maps that survive\<close>

text \<open>What can be done with a page: store, retrieve, and close and open it again; each with the memory it happens to find.\<close>

datatype page_op =
  Store "nat \<Rightarrow> char" string "char list"
| Retrieve string
| Reopen "nat \<Rightarrow> char" "nat \<Rightarrow> char" filepage

fun page_step :: "page_op \<Rightarrow> filepage \<Rightarrow> (char list option \<times> filepage) option" where
  "page_step (Store junk name data) p = map_option (Pair None) (storeItem junk name data p)"
| "page_step (Retrieve name) p = Some (retrieveItem name p)"
| "page_step (Reopen junk junk' raw) p = map_option (\<lambda>d. (None, Filepage junk' (Some d) raw)) (Filepage_close junk p)"

fun page_spec :: "page_op \<Rightarrow> page_items \<Rightarrow> char list option \<times> page_items" where
  "page_spec (Store junk name data) items = (None, items @ [(name, data)])"
| "page_spec (Retrieve name) items = (map_of (rev items) name, items)"
| "page_spec (Reopen junk junk' raw) items = (None, items)"

text \<open>Names are those of identifiers, of 36 characters; and the page, with the space that growing allocates, stays below four
  gigabytes.\<close>

fun page_guard :: "page_op \<Rightarrow> filepage \<Rightarrow> bool" where
  "page_guard (Store junk name data) p \<longleftrightarrow>
     length name = 36 \<and> nul_free name \<and> unat (m_Elements p) + 1 < 2 ^ 16 \<and>
     unat (m_FirstFree p) + block_len (unat (m_Grow p)) + length data + unat (m_ItemSize p) * unat (m_Grow p) < 2 ^ 32"
| "page_guard _ p \<longleftrightarrow> True"

definition page_holds :: "filepage \<Rightarrow> page_items \<Rightarrow> bool" where
  "page_holds p items \<longleftrightarrow> (\<exists>G isz. page_rep G isz (blocks_for G (length items)) items p)"

lemma page_rep_bounds:
  assumes "page_rep G isz b items p"
  shows "page_free G b items < 2 ^ 32" "isz < 2 ^ 32" "length items < 2 ^ 16"
proof -
  have "unat (m_FirstFree p) = page_free G b items" "unat (m_ItemSize p) = isz" "unat (m_Elements p) = length items"
    using assms by (auto simp: page_rep_def)
  then show "page_free G b items < 2 ^ 32" "isz < 2 ^ 32" "length items < 2 ^ 16"
    using unsigned_less [of "m_FirstFree p", where 'a = nat] unsigned_less [of "m_ItemSize p", where 'a = nat] unsigned_less [of "m_Elements p", where 'a = nat]
    by simp_all
qed

lemma Filepage_reopen:
  assumes rep: "page_rep G isz (blocks_for G (length items)) items p"
  shows "\<exists>d. Filepage_close junk p = Some d \<and> page_rep G isz (blocks_for G (length items)) items (Filepage junk' (Some d) raw)"
proof -
  have "page_rep G isz (blocks_for G (length items)) items (writeHeader junk p)"
    using writeHeader_rep rep page_rep_iff by blast
  then obtain d where d: "m_pFile (writeHeader junk p) = Some d" "page_free G (blocks_for G (length items)) items \<le> f_size d"
    "header_rep G isz (blocks_for G (length items)) items (f_bytes d)" "disk_rep G (blocks_for G (length items)) items (f_bytes d)"
    and "2 \<le> G" "\<forall>x\<in>set items. length (fst x) = 36"
    by (auto simp: page_rep_def)
  then show ?thesis using page_rep_bounds [OF rep]
    by (simp add: Filepage_close_def Filepage_def Let_def) (rule page_open_rep; simp add: isOpen_def)
qed

interpretation page: simulation page_guard page_step page_spec page_holds
proof
  fix p items x
  assume h: "page_holds p items" and g: "page_guard x p"
  then obtain G isz where rep: "page_rep G isz (blocks_for G (length items)) items p" by (auto simp: page_holds_def)
  show "\<exists>p'. page_step x p = Some (fst (page_spec x items), p') \<and> page_holds p' (snd (page_spec x items))"
  proof (cases x)
    case (Store junk name data)
    have m: "unat (m_Elements p) = length items" "unat (m_FirstFree p) = page_free G (blocks_for G (length items)) items"
      "unat (m_Grow p) = G" "unat (m_ItemSize p) = isz" using rep by (auto simp: page_rep_def)
    have "blocks_for G (length items + 1) \<le> blocks_for G (length items) + 1" by (cases items) (auto simp: blocks_for_def div_Suc)
    then have "block_len G * blocks_for G (length items + 1) \<le> block_len G * (blocks_for G (length items) + 1)" by (rule mult_le_mono2)
    then have "page_free G (blocks_for G (length items + 1)) items \<le> page_free G (blocks_for G (length items)) items + block_len G"
      by (simp only: page_free_def distrib_left mult_1_right)
    then obtain p' where "storeItem junk name data p = Some p'" "page_rep G isz (blocks_for G (length items + 1)) (items @ [(name, data)]) p'"
      using storeItem_rep [OF rep, of name data junk] g unfolding Store page_guard.simps m by auto
    then show ?thesis unfolding Store page_holds_def by auto
  next
    case (Retrieve name)
    then show ?thesis using retrieveItem_rep [OF rep page_rep_bounds(1) [OF rep], of name]
      by (cases "retrieveItem name p") (auto simp: page_holds_def)
  next
    case (Reopen junk junk' raw)
    then show ?thesis using Filepage_reopen [OF rep, of junk junk' raw] by (auto simp: page_holds_def)
  qed
qed

lemma Filepage_new: "page_holds (Filepage junk None raw) []"
proof -
  have "page_rep (unat DEFAULT_PAGE_ALLOC) (unat ITEM_SIZE) 1 [] (Filepage junk None raw)"
    unfolding Filepage_def Let_def option.case by (rule page_create_rep) (simp_all add: isOpen_def)
  then show ?thesis by (auto simp: page_holds_def blocks_for_def)
qed

text \<open>
  C37. A page is a map from names to items that survives closing and opening. Whatever is stored, in however many blocks of the index,
  and whenever the page is closed and opened again: an item retrieved is the last one stored under its name, and a name that was
  never stored is not found. This holds while names have 36 characters and the page stays below four gigabytes.\<close>

theorem page_refines:
  assumes "run_guarded page_guard page_step ops (Filepage junk None raw)"
  shows "\<exists>p. run_ops page_step ops (Filepage junk None raw) = Some (fst (run_spec page_spec ops []), p)"
  using page.run_sim [OF Filepage_new assms] by blast

definition fresh_page :: filepage where
  "fresh_page = \<lparr>m_Elements = 7, m_FirstFree = 7, m_Grow = 7, m_LastIndex = 7, m_ItemSize = 7, m_pFile = None, contents = Map.empty, m_pageFull = False\<rparr>"

theorem page_refines_witness:
  "\<exists>p. run_ops page_step
      [Store (\<lambda>_. CHR ''x'') (replicate 36 CHR ''q'') ''item'', Reopen (\<lambda>_. CHR ''y'') (\<lambda>_. nul) fresh_page,
       Retrieve (replicate 36 CHR ''q''), Retrieve ''other'']
      (Filepage (\<lambda>_. CHR ''z'') None fresh_page) =
    Some ([None, None, Some ''item'', None], p)"
proof -
  let ?ops = "[Store (\<lambda>_. CHR ''x'') (replicate 36 CHR ''q'') ''item'', Reopen (\<lambda>_. CHR ''y'') (\<lambda>_. nul) fresh_page,
       Retrieve (replicate 36 CHR ''q''), Retrieve ''other'']"
  let ?p = "Filepage (\<lambda>_. CHR ''z'') None fresh_page"
  have "unat (m_FirstFree ?p) = 800" "m_Elements ?p = 0" "unat (m_Grow ?p) = 16" "unat (m_ItemSize ?p) = 8388608"
    by (simp_all add: Filepage_def Let_def page_create_def isOpen_def)
  then have "run_guarded page_guard page_step ?ops ?p"
    by (auto simp: block_len_def nul_free_def split: option.split)
  moreover have "''other'' \<noteq> replicate 36 CHR ''q''" by (auto dest: arg_cong [of _ _ length])
  ultimately show ?thesis using page_refines [of ?ops] by (simp del: run_ops.simps)
qed

section \<open>Removal\<close>

lemma cstr_append: "nul_free s \<Longrightarrow> cstr (s @ t) = s @ cstr t"
  by (induction s) (auto simp: cstr_def)

lemma cstr_item:
  assumes "length name = 36" "nul_free name" "l mod 256 \<noteq> 0"
  shows "36 < length (cstr (item_bytes junk name l i))"
proof -
  have "Suc 3 = 4" by simp
  then have l: "le_chars 4 l = char_of (l mod 256) # le_chars 3 (l div 256)" using le_chars.simps(2) [of 3 l] by (simp only:)
  have "of_char (char_of (l mod 256) :: char) \<noteq> (of_char nul :: nat)" using assms(3) by (simp add: of_char_of)
  then have "char_of (l mod 256) \<noteq> nul" by metis
  then show ?thesis using assms(1,2) by (simp add: item_bytes_def cstr_append l) (simp add: cstr_def)
qed

lemma take_cstr_item: "nul_free name \<Longrightarrow> take (length name) (cstr (item_bytes junk name l i)) = name"
  by (simp add: item_bytes_def cstr_append)

text \<open>The name in the entry has no end of its own: the comparison goes on into the size. An item whose size is not a multiple of 256
  cannot be removed, and a removed one stays in the list of contents until the page is opened again.\<close>

lemma removeItem_no_effect:
  assumes rep: "page_rep G isz (blocks_for G (length items)) items p" and name: "length name = 36" "nul_free name"
    and items: "\<forall>x\<in>set items. nul_free (fst x)" "\<forall>x\<in>set items. fst x = name \<longrightarrow> length (snd x) mod 256 \<noteq> 0"
  shows "page_rep G isz (blocks_for G (length items)) items (removeItem junk name p)"
proof -
  let ?b = "blocks_for G (length items)"
  obtain d where d: "m_pFile p = Some d" "page_free G ?b items \<le> f_size d" "disk_rep G ?b items (f_bytes d)"
    and p: "2 \<le> G" "(?b - 1) * G \<le> length items" "length items \<le> ?b * G" "\<forall>x\<in>set items. length (fst x) = 36"
    "unat (m_Grow p) = G" "unat (m_Elements p) = length items"
    using rep by (auto simp: page_rep_def)
  have bound: "page_free G ?b items < 2 ^ 32" using page_rep_bounds [OF rep] by simp
  have loop: "\<exists>n. remove_loop junk (m_Grow p) name m index d = d\<lparr>f_pos := n\<rparr>"
    if "m = length items - k" "k \<le> length items" "disk_rep G ?b items (f_bytes d)" "page_free G ?b items \<le> f_size d"
      "f_pos d = open_pos G items k" "unat index = open_block G items k" for m k d index
    using that
  proof (induction m arbitrary: k d index)
    case 0
    then show ?case by (metis disk_file.surjective disk_file.update_convs(3) remove_loop.simps(1))
  next
    case (Suc m)
    then have k: "k < length items" by simp
    note w = walk_step [OF Suc.prems(3,4) bound p(1-3) k Suc.prems(5,6) p(5)]
    obtain junk' where r: "fread 48 (d\<lparr>f_pos := entry_at G items k\<rparr>) =
      (item_bytes junk' (fst (items ! k)) (length (snd (items ! k))) (item_at G items k), d\<lparr>f_pos := open_pos G items (Suc k)\<rparr>)"
      using w(2) by blast
    let ?item = "item_bytes junk' (fst (items ! k)) (length (snd (items ! k))) (item_at G items k)"
    have x: "items ! k \<in> set items" using k by simp
    have n36: "length (fst (items ! k)) = 36" using p(4) x by simp
    have ne: "cstr ?item \<noteq> cstr name"
    proof (cases "fst (items ! k) = name")
      case True
      then have "36 < length (cstr ?item)" using items x by (intro cstr_item [OF n36]) auto
      then show ?thesis using name by auto
    next
      case False
      then show ?thesis using take_cstr_item [of "fst (items ! k)" junk'] items(1) x n36 name by (metis cstr_id take_all order_refl)
    qed
    have "open_block G items (Suc k) < 2 ^ 32" using open_block_small [OF _ bound p(1-3), of "Suc k"] k by simp
    then have u: "unat (of_nat (block_at G items (k div G)) :: u32) = open_block G items (Suc k)"
      by (simp add: open_block_def unat_of_nat take_bit_nat_eq_self)
    have "remove_loop junk (m_Grow p) name (Suc m) index d =
      remove_loop junk (m_Grow p) name m (of_nat (block_at G items (k div G))) (d\<lparr>f_pos := open_pos G items (Suc k)\<rparr>)"
      using ne n36 r by (simp add: w(1) Let_def overwrite_def pageIndexItem_bytes)
    moreover have "m = length items - Suc k" "Suc k \<le> length items" using Suc.prems(1) k by simp_all
    ultimately show ?case using Suc.IH [of "Suc k" "d\<lparr>f_pos := open_pos G items (Suc k)\<rparr>" "of_nat (block_at G items (k div G))"] Suc.prems u
      by (auto simp del: remove_loop.simps)
  qed
  have "unat (of_nat 28 :: u32) = open_block G items 0" by (simp add: open_block_def block_at_def item_bytes_before_def)
  then obtain n where "remove_loop junk (m_Grow p) name (length items) 28 (fseek_set 28 d) = (fseek_set 28 d)\<lparr>f_pos := n\<rparr>"
    using loop [of "length items" 0 "fseek_set 28 d" 28] d by (auto simp: open_pos_def)
  then have "removeItem junk name p = p \<or> removeItem junk name p = p\<lparr>m_pFile := Some (d\<lparr>f_pos := n\<rparr>)\<rparr>"
    using d(1) p(6) by (auto simp: removeItem_def fseek_set_def split: option.split)
  then show ?thesis using rep d by (auto simp: page_rep_def)
qed

lemma removeItem_stays: "fst (retrieveItem name (removeItem junk other p)) = None \<longleftrightarrow> fst (retrieveItem name p) = None"
  by (auto simp: removeItem_def retrieveItem_def Let_def split: option.splits prod.splits)

end
