(* ===== verification/Cynder_Ring.thy ===== *)
theory Cynder_Ring
  imports Common_Hash Common_Config
begin

text \<open>
  \<open>cynder/consistent_hash.h\<close>: the ring of hash values that spreads records over the storage nodes, and the start of
  \<open>cynder.cpp\<close> that fills it from the configuration. The class is a template: the hash function, and how nodes and keys
  are turned into text, are arguments. A \<open>std::map\<close> is the list of its entries in the order of their keys.
\<close>

section \<open>Ordered maps\<close>

fun map_assign :: "'k::linorder \<Rightarrow> 'v \<Rightarrow> ('k \<times> 'v) list \<Rightarrow> ('k \<times> 'v) list" where
  "map_assign k v [] = [(k, v)]"
| "map_assign k v ((a, w) # m) =
     (if k < a then (k, v) # (a, w) # m else if k = a then (k, v) # m else (a, w) # map_assign k v m)"

fun map_erase :: "'k::linorder \<Rightarrow> ('k \<times> 'v) list \<Rightarrow> ('k \<times> 'v) list" where
  "map_erase k [] = []"
| "map_erase k ((a, w) # m) = (if k = a then m else (a, w) # map_erase k m)"

text \<open>An iterator is the rest of the entries; the empty one is \<open>end()\<close>.\<close>

fun lower_bound :: "'k::linorder \<Rightarrow> ('k \<times> 'v) list \<Rightarrow> ('k \<times> 'v) list" where
  "lower_bound k [] = []"
| "lower_bound k ((a, w) # m) = (if k \<le> a then (a, w) # m else lower_bound k m)"

section \<open>The ring\<close>

record 'node hash_ring =
  m_ring :: "(u64 \<times> 'node) list"
  m_spread :: u32

datatype ring_error = EmptyRingException

definition HashRing :: "u32 \<Rightarrow> 'node hash_ring" where
  "HashRing spread = \<lparr>m_ring = [], m_spread = spread\<rparr>"

definition setSpread :: "u32 \<Rightarrow> 'node hash_ring \<Rightarrow> 'node hash_ring" where
  "setSpread spread s = s\<lparr>m_spread := spread\<rparr>"

text \<open>The hash function gets a C string: the text up to its first NUL. The value returned is that of the last round; with no
  rounds it is not initialised.\<close>

definition addNode :: "(string \<Rightarrow> u64) \<Rightarrow> ('node \<Rightarrow> string) \<Rightarrow> 'node \<Rightarrow> 'node hash_ring \<Rightarrow> u64 option \<times> 'node hash_ring" where
  "addNode m_hash Stringify node s =
     (let nodestr = Stringify node in
      fold (\<lambda>r (_, s). let hash = m_hash (cstr (nodestr @ decimal r)) in (Some hash, s\<lparr>m_ring := map_assign hash node (m_ring s)\<rparr>))
        [0..<unat (m_spread s)] (None, s))"

definition removeNode :: "(string \<Rightarrow> u64) \<Rightarrow> ('node \<Rightarrow> string) \<Rightarrow> 'node \<Rightarrow> 'node hash_ring \<Rightarrow> 'node hash_ring" where
  "removeNode m_hash Stringify node s =
     (let nodestr = Stringify node in
      fold (\<lambda>r s. let hash = m_hash (cstr (nodestr @ decimal r)) in s\<lparr>m_ring := map_erase hash (m_ring s)\<rparr>)
        [0..<unat (m_spread s)] s)"

definition getNode :: "(string \<Rightarrow> u64) \<Rightarrow> ('key \<Rightarrow> string) \<Rightarrow> 'key \<Rightarrow> 'node hash_ring \<Rightarrow> ring_error + 'node" where
  "getNode m_hash Stringify key s =
     (case m_ring s of
        [] \<Rightarrow> Inl EmptyRingException
      | entry # _ \<Rightarrow>
          let hash = m_hash (cstr (Stringify key)) in
          (case lower_bound hash (m_ring s) of
             [] \<Rightarrow> Inr (snd entry)
           | it # _ \<Rightarrow> Inr (snd it)))"

section \<open>The nodes of a service\<close>

definition SHARDING_SPREAD :: u32 where
  "SHARDING_SPREAD = 10"

definition config_find :: "config \<Rightarrow> string \<Rightarrow> config" where
  "config_find contents key = filter (\<lambda>(k, _). k = key) contents"

text \<open>The ring uses the checksum of \<open>common/crc32.h\<close>, which always delivers; names stand for themselves.\<close>

definition crc_of :: "string \<Rightarrow> u64" where
  "crc_of str = (case Crc32 str of Some h \<Rightarrow> h | None \<Rightarrow> 0)"

datatype cynder_exit = Exit int | Throw config_error

text \<open>\<open>main\<close> up to the start of the service: the file given with \<open>--hbs\<close>, if any, and its contents, if it exists.\<close>

definition cynder_main_ring :: "string option option \<Rightarrow> string hash_ring \<Rightarrow> cynder_exit + string hash_ring" where
  "cynder_main_ring hbs nodeRing =
     (case hbs of
        None \<Rightarrow> Inl (Exit 1)
      | Some None \<Rightarrow> Inl (Exit 1)
      | Some (Some content) \<Rightarrow>
          (case ConfigFile (Some content) of
             Inl e \<Rightarrow> Inl (Throw e)
           | Inr config \<Rightarrow>
               if \<not> config_exist config ''cynder-master'' then Inl (Exit 1)
               else if \<not> config_exist config ''cynder-worker'' then Inl (Exit 1)
               else Inr (fold (\<lambda>(_, v) ring. snd (addNode crc_of id v ring)) (config_find config ''cynder-worker'') nodeRing)))"

section \<open>Ordered maps as an interface\<close>

locale ordered_map =
  fixes ok :: "'m \<Rightarrow> bool" and look :: "'m \<Rightarrow> 'k::linorder \<Rightarrow> 'v option"
    and assign :: "'k \<Rightarrow> 'v \<Rightarrow> 'm \<Rightarrow> 'm" and erase :: "'k \<Rightarrow> 'm \<Rightarrow> 'm" and entries_from :: "'k \<Rightarrow> 'm \<Rightarrow> ('k \<times> 'v) list"
    and entries :: "'m \<Rightarrow> ('k \<times> 'v) list"
  assumes ok_assign: "ok m \<Longrightarrow> ok (assign k v m)" and look_assign: "ok m \<Longrightarrow> look (assign k v m) = (look m)(k \<mapsto> v)"
    and ok_erase: "ok m \<Longrightarrow> ok (erase k m)" and look_erase: "ok m \<Longrightarrow> look (erase k m) = (look m)(k := None)"
    and from_end: "ok m \<Longrightarrow> entries_from k m = [] \<Longrightarrow> a \<in> dom (look m) \<Longrightarrow> a < k"
    and from_first: "ok m \<Longrightarrow> entries_from k m = (a, v) # es \<Longrightarrow> look m a = Some v \<and> k \<le> a \<and> (\<forall>b\<in>dom (look m). k \<le> b \<longrightarrow> a \<le> b)"
    and none: "ok m \<Longrightarrow> entries m = [] \<Longrightarrow> look m = Map.empty"
    and first: "ok m \<Longrightarrow> entries m = (a, v) # es \<Longrightarrow> look m a = Some v \<and> (\<forall>b\<in>dom (look m). a \<le> b)"
begin

lemma assign_all: "ok m \<Longrightarrow> ok (fold (\<lambda>r. assign (p r) v) rs m) \<and>
    look (fold (\<lambda>r. assign (p r) v) rs m) = (\<lambda>q. if q \<in> p ` set rs then Some v else look m q)"
  by (induction rs arbitrary: m) (auto simp: ok_assign look_assign)

lemma erase_all: "ok m \<Longrightarrow> ok (fold (\<lambda>r. erase (p r)) rs m) \<and>
    look (fold (\<lambda>r. erase (p r)) rs m) = (\<lambda>q. if q \<in> p ` set rs then None else look m q)"
  by (induction rs arbitrary: m) (auto simp: ok_erase look_erase)

end

text \<open>On a ring of machine words distances wrap: the entry at or behind a place, or the first one of all, is the nearest one
  going up.\<close>

definition nearest :: "(u64 \<Rightarrow> 'v option) \<Rightarrow> u64 \<Rightarrow> 'v \<Rightarrow> bool" where
  "nearest m h v \<longleftrightarrow> (\<exists>p. m p = Some v \<and> (\<forall>q\<in>dom m. p - h \<le> q - h))"

lemma ahead: "h \<le> p \<Longrightarrow> p \<le> q \<Longrightarrow> p - h \<le> q - (h :: u64)"
  by (simp add: word_le_minus_mono_left)

lemma around: "q < h \<Longrightarrow> h \<le> p \<Longrightarrow> p - h \<le> q - (h :: u64)"
  using unsigned_less [of p, where 'a = nat] by (simp add: word_le_nat_alt word_less_nat_alt unat_sub_if')

lemma below: "p \<le> q \<Longrightarrow> q < h \<Longrightarrow> p - h \<le> q - (h :: u64)"
  by (simp add: word_le_nat_alt word_less_nat_alt unat_sub_if')

lemma nearest_unique: "nearest m h v \<Longrightarrow> nearest m h w \<Longrightarrow> v = w"
  unfolding nearest_def by (metis add_diff_cancel diff_add_cancel domI option.inject order_antisym)

locale ring_map = ordered_map ok look assign erase entries_from entries
  for ok :: "'m \<Rightarrow> bool" and look :: "'m \<Rightarrow> u64 \<Rightarrow> 'v option" and assign erase entries_from entries
begin

lemma from_nearest:
  assumes "ok m" "entries_from h m = e # es"
  shows "nearest (look m) h (snd e)"
proof -
  obtain p v where e: "e = (p, v)" by (cases e)
  have f: "look m p = Some v" "h \<le> p" "\<And>b. b \<in> dom (look m) \<Longrightarrow> h \<le> b \<Longrightarrow> p \<le> b"
    using from_first [OF assms [unfolded e]] by auto
  then have "p - h \<le> q - h" if "q \<in> dom (look m)" for q
    using that ahead [of h p q] around [of q h p] by (cases "h \<le> q") auto
  then show ?thesis using f(1) by (auto simp: nearest_def e)
qed

lemma first_nearest:
  assumes "ok m" "entries_from h m = []" "entries m = e # es"
  shows "nearest (look m) h (snd e)"
proof -
  obtain p v where e: "e = (p, v)" by (cases e)
  have f: "look m p = Some v" "\<And>b. b \<in> dom (look m) \<Longrightarrow> p \<le> b"
    using first [OF assms(1) assms(3) [unfolded e]] by auto
  then have "p - h \<le> q - h" if "q \<in> dom (look m)" for q
    using that below [of p q h] from_end [OF assms(1,2)] by auto
  then show ?thesis using f(1) by (auto simp: nearest_def e)
qed

end

section \<open>The lists are ordered maps\<close>

abbreviation ascending :: "('k::linorder \<times> 'v) list \<Rightarrow> bool" where
  "ascending m \<equiv> sorted_wrt (<) (map fst m)"

lemma map_assign_keys: "set (map fst (map_assign k v m)) = insert k (set (map fst m))"
  by (induction k v m rule: map_assign.induct) auto

lemma map_erase_keys: "set (map fst (map_erase k m)) \<subseteq> set (map fst m)"
  by (induction k m rule: map_erase.induct) auto

lemma ascending_assign: "ascending m \<Longrightarrow> ascending (map_assign k v m)"
  by (induction k v m rule: map_assign.induct) (auto simp: map_assign_keys simp del: set_map)

lemma map_of_assign: "ascending m \<Longrightarrow> map_of (map_assign k v m) = (map_of m)(k \<mapsto> v)"
  by (induction k v m rule: map_assign.induct) auto

lemma ascending_erase: "ascending m \<Longrightarrow> ascending (map_erase k m)"
  using map_erase_keys by (induction k m rule: map_erase.induct) (fastforce simp del: set_map)+

lemma map_of_notin: "(\<forall>b\<in>set m. a < fst b) \<Longrightarrow> map_of m a = None" for a :: "'k::linorder"
  by (induction m) auto

lemma map_of_erase: "ascending m \<Longrightarrow> map_of (map_erase k m) = (map_of m)(k := None)"
  by (induction k m rule: map_erase.induct) (auto simp: map_of_notin fun_eq_iff)

lemma lower_bound_end: "lower_bound k m = [] \<Longrightarrow> a \<in> dom (map_of m) \<Longrightarrow> a < k"
  by (induction k m rule: lower_bound.induct) (auto split: if_splits)

lemma ascending_above: "\<forall>x\<in>set m. a < fst x \<Longrightarrow> map_of m b = Some w \<Longrightarrow> a < b" for a :: "'k::linorder"
  by (auto dest!: map_of_SomeD)

lemma ascending_first: "ascending ((a, v) # m) \<Longrightarrow> b \<in> dom (map_of ((a, v) # m)) \<Longrightarrow> a \<le> b"
  using ascending_above [of m a b] by (auto split: if_splits)

lemma lower_bound_first:
  "ascending m \<Longrightarrow> lower_bound k m = (a, v) # es \<Longrightarrow> map_of m a = Some v \<and> k \<le> a \<and> (\<forall>b\<in>dom (map_of m). k \<le> b \<longrightarrow> a \<le> b)"
proof (induction k m rule: lower_bound.induct)
  case (2 k c w m)
  show ?case
  proof (cases "k \<le> c")
    case True
    moreover have "\<forall>b\<in>dom (map_of ((c, w) # m)). c \<le> b" using ascending_first [OF 2(2)] by blast
    ultimately show ?thesis using 2(3) by (auto split: if_splits)
  next
    case False
    then have ih: "map_of m a = Some v" "k \<le> a" "\<And>b. b \<in> dom (map_of m) \<Longrightarrow> k \<le> b \<Longrightarrow> a \<le> b" using 2 by auto
    then have "c < a" using False by simp
    then show ?thesis using ih(1,2) ih(3) [OF domI] False by (auto split: if_splits)
  qed
qed simp

interpretation std: ordered_map "ascending" map_of map_assign map_erase lower_bound "\<lambda>m. m"
proof unfold_locales
  show "map_of m a = Some v \<and> (\<forall>b\<in>dom (map_of m). a \<le> b)" if "ascending m" "m = (a, v) # es"
    for m :: "('k::linorder \<times> 'v) list" and a v es
    using that ascending_first [of a v es] by simp
qed (auto simp: ascending_assign map_of_assign ascending_erase map_of_erase dest: lower_bound_end lower_bound_first)

interpretation ring: ring_map "ascending" map_of map_assign map_erase lower_bound "\<lambda>m. m"
  by unfold_locales

section \<open>The ring as a map\<close>

definition ring_points :: "(string \<Rightarrow> u64) \<Rightarrow> ('node \<Rightarrow> string) \<Rightarrow> u32 \<Rightarrow> 'node \<Rightarrow> u64 set" where
  "ring_points m_hash Stringify spread node = (\<lambda>r. m_hash (cstr (Stringify node @ decimal r))) ` {..<unat spread}"

lemma addNode_ring:
  "snd (addNode m_hash Stringify node s) =
    s\<lparr>m_ring := fold (\<lambda>r. map_assign (m_hash (cstr (Stringify node @ decimal r))) node) [0..<unat (m_spread s)] (m_ring s)\<rparr>"
proof -
  have "snd (fold (\<lambda>r (_, s). let hash = p r in (Some hash, s\<lparr>m_ring := map_assign hash node (m_ring s)\<rparr>)) rs (h, s)) =
    s\<lparr>m_ring := fold (\<lambda>r. map_assign (p r) node) rs (m_ring s)\<rparr>" for p rs h and s :: "'a hash_ring"
    by (induction rs arbitrary: h s) (simp_all add: Let_def)
  then show ?thesis by (simp add: addNode_def Let_def)
qed

lemma removeNode_ring:
  "removeNode m_hash Stringify node s =
    s\<lparr>m_ring := fold (\<lambda>r. map_erase (m_hash (cstr (Stringify node @ decimal r)))) [0..<unat (m_spread s)] (m_ring s)\<rparr>"
proof -
  have "fold (\<lambda>r s. let hash = p r in s\<lparr>m_ring := map_erase hash (m_ring s)\<rparr>) rs s = s\<lparr>m_ring := fold (\<lambda>r. map_erase (p r)) rs (m_ring s)\<rparr>"
    for p rs and s :: "'a hash_ring"
    by (induction rs arbitrary: s) (simp_all add: Let_def)
  then show ?thesis by (simp add: removeNode_def Let_def)
qed

datatype 'node ring_op = Add 'node | Remove 'node | Spread u32

fun ring_step :: "(string \<Rightarrow> u64) \<Rightarrow> ('node \<Rightarrow> string) \<Rightarrow> 'node ring_op \<Rightarrow> 'node hash_ring \<Rightarrow> 'node hash_ring" where
  "ring_step m_hash Stringify (Add node) s = snd (addNode m_hash Stringify node s)"
| "ring_step m_hash Stringify (Remove node) s = removeNode m_hash Stringify node s"
| "ring_step m_hash Stringify (Spread spread) s = setSpread spread s"

text \<open>The specification: a map from places to nodes, and the spread.\<close>

fun ring_spec :: "(string \<Rightarrow> u64) \<Rightarrow> ('node \<Rightarrow> string) \<Rightarrow> 'node ring_op \<Rightarrow> (u64 \<Rightarrow> 'node option) \<times> u32 \<Rightarrow> (u64 \<Rightarrow> 'node option) \<times> u32" where
  "ring_spec m_hash Stringify (Add node) (m, spread) = (\<lambda>q. if q \<in> ring_points m_hash Stringify spread node then Some node else m q, spread)"
| "ring_spec m_hash Stringify (Remove node) (m, spread) = (\<lambda>q. if q \<in> ring_points m_hash Stringify spread node then None else m q, spread)"
| "ring_spec m_hash Stringify (Spread n) (m, spread) = (m, n)"

definition ring_is :: "'node hash_ring \<Rightarrow> (u64 \<Rightarrow> 'node option) \<times> u32 \<Rightarrow> bool" where
  "ring_is s a \<longleftrightarrow> ascending (m_ring s) \<and> (map_of (m_ring s), m_spread s) = a"

lemma ring_step_spec: "ring_is s a \<Longrightarrow> ring_is (ring_step m_hash Stringify x s) (ring_spec m_hash Stringify x a)"
proof (cases x)
  case (Add node)
  assume "ring_is s a"
  then show ?thesis unfolding Add
    using std.assign_all [of "m_ring s" "\<lambda>r. m_hash (cstr (Stringify node @ decimal r))" node "[0..<unat (m_spread s)]"]
    by (auto simp: ring_is_def addNode_ring ring_points_def atLeast0LessThan)
next
  case (Remove node)
  assume "ring_is s a"
  then show ?thesis unfolding Remove
    using std.erase_all [of "m_ring s" "\<lambda>r. m_hash (cstr (Stringify node @ decimal r))" "[0..<unat (m_spread s)]"]
    by (auto simp: ring_is_def removeNode_ring ring_points_def atLeast0LessThan)
qed (auto simp: ring_is_def setSpread_def)

text \<open>A ring after a sequence of operations, and the places these describe.\<close>

definition ring_run :: "(string \<Rightarrow> u64) \<Rightarrow> ('node \<Rightarrow> string) \<Rightarrow> u32 \<Rightarrow> 'node ring_op list \<Rightarrow> 'node hash_ring" where
  "ring_run m_hash Stringify spread ops = fold (ring_step m_hash Stringify) ops (HashRing spread)"

definition ring_places :: "(string \<Rightarrow> u64) \<Rightarrow> ('node \<Rightarrow> string) \<Rightarrow> u32 \<Rightarrow> 'node ring_op list \<Rightarrow> (u64 \<Rightarrow> 'node option) \<times> u32" where
  "ring_places m_hash Stringify spread ops = fold (ring_spec m_hash Stringify) ops (Map.empty, spread)"

lemma ring_run_spec: "ring_is (ring_run m_hash Stringify spread ops) (ring_places m_hash Stringify spread ops)"
proof -
  have "ring_is s a \<Longrightarrow> ring_is (fold (ring_step m_hash Stringify) ops s) (fold (ring_spec m_hash Stringify) ops a)" for s a
    by (induction ops arbitrary: s a) (simp_all add: ring_step_spec)
  then show ?thesis by (simp add: ring_is_def HashRing_def ring_run_def ring_places_def)
qed

section \<open>Lookups\<close>

lemma getNode_nearest:
  assumes "ring_is s (m, spread)"
  shows "getNode m_hash Stringify key s = Inl EmptyRingException \<longleftrightarrow> m = Map.empty"
    "getNode m_hash Stringify key s = Inr n \<longleftrightarrow> nearest m (m_hash (cstr (Stringify key))) n"
proof -
  let ?h = "m_hash (cstr (Stringify key))"
  have s: "ascending (m_ring s)" "map_of (m_ring s) = m" using assms by (auto simp: ring_is_def)
  have cases: "m = Map.empty \<and> getNode m_hash Stringify key s = Inl EmptyRingException \<or>
    m \<noteq> Map.empty \<and> (\<exists>v. getNode m_hash Stringify key s = Inr v \<and> nearest m ?h v)"
  proof (cases "m_ring s")
    case Nil
    then show ?thesis using s by (auto simp: getNode_def)
  next
    case (Cons e es)
    show ?thesis
    proof (cases "lower_bound ?h (m_ring s)")
      case Nil
      then show ?thesis using ring.first_nearest [OF s(1) Nil Cons] s(2) Cons by (auto simp: getNode_def)
    next
      case [simp]: (Cons it its)
      then show ?thesis using ring.from_nearest [OF s(1) Cons] s(2) \<open>m_ring s = e # es\<close> by (auto simp: getNode_def)
    qed
  qed
  then show "getNode m_hash Stringify key s = Inl EmptyRingException \<longleftrightarrow> m = Map.empty" by auto
  show "getNode m_hash Stringify key s = Inr n \<longleftrightarrow> nearest m ?h n"
    using cases by (auto simp: nearest_def [of Map.empty] dest: nearest_unique)
qed

text \<open>
  C35. Whatever nodes were added and removed, and however the spread was changed in between, the ring is the map these operations
  describe, and a lookup delivers the node at the first place at or behind the hash of the key, going around at the end; it
  throws just when there are no places.\<close>

theorem ring_lookup:
  "(getNode m_hash keystr key (ring_run m_hash Stringify spread ops) = Inl EmptyRingException \<longleftrightarrow>
      fst (ring_places m_hash Stringify spread ops) = Map.empty) \<and>
   (getNode m_hash keystr key (ring_run m_hash Stringify spread ops) = Inr node \<longleftrightarrow>
      nearest (fst (ring_places m_hash Stringify spread ops)) (m_hash (cstr (keystr key))) node)"
  using getNode_nearest [of "ring_run m_hash Stringify spread ops" "fst (ring_places m_hash Stringify spread ops)"
      "snd (ring_places m_hash Stringify spread ops)" m_hash keystr key] ring_run_spec [of m_hash Stringify spread ops]
  by simp

section \<open>Few keys move\<close>

lemma nearest_add:
  assumes "nearest (\<lambda>q. if q \<in> P then Some n else m q) h v" "v \<noteq> n"
  shows "nearest m h v"
  using assms unfolding nearest_def by (fastforce split: if_splits)

lemma nearest_drop:
  assumes "nearest m h v" "v \<noteq> n" "\<And>q. q \<in> P \<Longrightarrow> m q = None \<or> m q = Some n"
  shows "nearest (\<lambda>q. if q \<in> P then None else m q) h v"
proof -
  obtain p where p: "m p = Some v" "\<forall>q\<in>dom m. p - h \<le> q - h" using assms(1) by (auto simp: nearest_def)
  then have "p \<notin> P" using assms(2,3) by force
  then show ?thesis using p unfolding nearest_def by (intro exI [of _ p]) (auto split: if_splits)
qed

lemma getNode_Inr:
  assumes "ring_is s a"
  shows "(\<exists>n. getNode m_hash Stringify key s = Inr n) \<longleftrightarrow> fst a \<noteq> Map.empty"
  using getNode_nearest(1) [of s "fst a" "snd a" m_hash Stringify key] assms
  by (cases "getNode m_hash Stringify key s") (auto intro: ring_error.exhaust)

lemma addNode_moves:
  assumes "ring_is s a"
  shows "getNode m_hash keystr key (snd (addNode m_hash Stringify node s)) \<in> {getNode m_hash keystr key s, Inr node}"
proof (cases "getNode m_hash keystr key (snd (addNode m_hash Stringify node s))")
  case (Inl e)
  obtain m spread where a: "a = (m, spread)" by (cases a)
  have "(\<lambda>q. if q \<in> ring_points m_hash Stringify spread node then Some node else m q) = Map.empty"
    using ring_step_spec [OF assms, of m_hash Stringify "Add node"] Inl unfolding a
    by (cases e) (auto simp: getNode_nearest(1))
  then have "m = Map.empty" by (auto simp: fun_eq_iff split: if_splits)
  then show ?thesis using getNode_nearest(1) [of s m spread m_hash keystr key] assms Inl by (cases e) (simp add: a)
next
  case (Inr v)
  obtain m spread where a: "a = (m, spread)" by (cases a)
  have "nearest (\<lambda>q. if q \<in> ring_points m_hash Stringify spread node then Some node else m q) (m_hash (cstr (keystr key))) v"
    using ring_step_spec [OF assms, of m_hash Stringify "Add node"] Inr unfolding a by (auto simp: getNode_nearest(2))
  then have "v = node \<or> getNode m_hash keystr key s = Inr v"
    using nearest_add getNode_nearest(2) [of s m spread] assms unfolding a by metis
  then show ?thesis using Inr by auto
qed

lemma removeNode_moves:
  assumes "ring_is s (m, spread)"
    and "\<And>q. q \<in> ring_points m_hash Stringify spread node \<Longrightarrow> m q = None \<or> m q = Some node"
    and "getNode m_hash keystr key s = Inr v" "v \<noteq> node"
  shows "getNode m_hash keystr key (removeNode m_hash Stringify node s) = Inr v"
  using ring_step_spec [OF assms(1), of m_hash Stringify "Remove node"] nearest_drop [OF _ assms(4,2)] assms(3)
  by (simp add: getNode_nearest(2) [OF assms(1)] getNode_nearest(2))

lemma removeNode_gone:
  assumes "ring_is s (m, spread)" "\<And>q. m q = Some node \<Longrightarrow> q \<in> ring_points m_hash Stringify spread node"
  shows "getNode m_hash keystr key (removeNode m_hash Stringify node s) \<noteq> Inr node"
  using ring_step_spec [OF assms(1), of m_hash Stringify "Remove node"] assms(2)
  by (auto simp: getNode_nearest(2) nearest_def split: if_splits)

text \<open>
  C34. Consistent hashing. Adding a node leaves every key where it is or moves it to the new node, even when places collide. A
  removal, if the places of the node are its own, leaves every key of another node where it is, and if the node has no other places
  it serves no key any more.\<close>

theorem ring_consistent:
  fixes s :: "'node hash_ring" and keystr :: "'key \<Rightarrow> string"
  assumes "s = ring_run m_hash Stringify spread ops" "(m, n) = ring_places m_hash Stringify spread ops"
    and "\<And>q. m q = Some node \<longleftrightarrow> q \<in> ring_points m_hash Stringify n node"
  shows "getNode m_hash keystr key (snd (addNode m_hash Stringify other s)) \<in> {getNode m_hash keystr key s, Inr other} \<and>
    (getNode m_hash keystr key s \<noteq> Inr node \<longrightarrow>
       getNode m_hash keystr key (removeNode m_hash Stringify node s) = getNode m_hash keystr key s) \<and>
    getNode m_hash keystr key (removeNode m_hash Stringify node s) \<noteq> Inr node"
proof -
  have r: "ring_is s (m, n)" using ring_run_spec [of m_hash Stringify spread ops] assms(1,2) by simp
  have "getNode m_hash keystr key (removeNode m_hash Stringify node s) = getNode m_hash keystr key s"
    if "getNode m_hash keystr key s \<noteq> Inr node"
  proof (cases "getNode m_hash keystr key s")
    case (Inl e)
    then have "m = Map.empty" using getNode_nearest(1) [OF r, of m_hash keystr key] by (cases e) simp
    then show ?thesis
      using ring_step_spec [OF r, of m_hash Stringify "Remove node"] Inl getNode_nearest(1)
      by (cases e) (simp add: getNode_nearest(1))
  next
    case (Inr v)
    then show ?thesis using removeNode_moves [OF r _ Inr, of Stringify node] assms(3) that by auto
  qed
  then show ?thesis
    using addNode_moves [OF r, of m_hash keystr key Stringify other] removeNode_gone [OF r, of node m_hash Stringify keystr key] assms(3)
    by blast
qed

theorem ring_consistent_witness:
  "let s = ring_run crc_of id 2 [Add ''a'', Add ''b''] in
    getNode crc_of id ''x'' (snd (addNode crc_of id ''c'' s)) \<in> {getNode crc_of id ''x'' s, Inr ''c''} \<and>
    (getNode crc_of id ''x'' s \<noteq> Inr ''a'' \<longrightarrow> getNode crc_of id ''x'' (removeNode crc_of id ''a'' s) = getNode crc_of id ''x'' s) \<and>
    getNode crc_of id ''x'' (removeNode crc_of id ''a'' s) \<noteq> Inr ''a''"
proof -
  have points: "ring_points crc_of id 2 n = {crc_of (cstr (n @ ''0'')), crc_of (cstr (n @ ''1''))}" for n
  proof -
    have "decimal 0 = ''0''" "decimal (Suc 0) = ''1''" by code_simp+
    moreover have "{..<unat (2 :: u32)} = {0, Suc 0}" by auto
    ultimately show ?thesis by (simp add: ring_points_def)
  qed
  have "crc_of (cstr ''a0'') \<noteq> crc_of (cstr ''b0'')" "crc_of (cstr ''a0'') \<noteq> crc_of (cstr ''b1'')"
    "crc_of (cstr ''a1'') \<noteq> crc_of (cstr ''b0'')" "crc_of (cstr ''a1'') \<noteq> crc_of (cstr ''b1'')"
    by code_simp+
  then show ?thesis
    using ring_consistent [of _ crc_of id 2 "[Add ''a'', Add ''b'']" _ _ "''a''" id "''x''" "''c''", OF refl prod.collapse]
    by (auto simp: ring_places_def points)
qed

text \<open>Places that collide: removing one node takes the place of the other. A spread that changes in between leaves places of a
  removed node behind. With no spread at all the value returned by \<open>addNode\<close> is not initialised.\<close>

lemma ring_remove_shared: "getNode (\<lambda>_. 7) id key (ring_run (\<lambda>_. 7) id 1 [Add ''a'', Add ''b'', Remove ''a'']) = Inl EmptyRingException"
  by code_simp

lemma ring_remove_respread: "getNode SdbmHash id key (ring_run SdbmHash id 2 [Add ''a'', Spread 1, Remove ''a'']) = Inr ''a''"
proof -
  have "m_ring (ring_run SdbmHash id 2 [Add ''a'', Spread 1, Remove ''a'']) = [(SdbmHash ''a1'', ''a'')]" by code_simp
  then show ?thesis by (simp add: getNode_def Let_def)
qed

lemma addNode_uninitialised: "fst (addNode m_hash Stringify node (HashRing 0)) = None"
  by (simp add: addNode_def HashRing_def)

section \<open>The workers of a configuration\<close>

lemma Crc32_some: "Crc32 str = Some (crc_of str)"
proof -
  have "unat (of_nat (length str) :: u32) \<le> length str" by (simp add: unat_of_nat take_bit_eq_mod)
  then show ?thesis using crc_loop_take [of "of_nat (length str)" str "NOT 0"] by (simp add: crc_of_def Crc32_def)
qed

lemma ring_workers:
  assumes "ws \<noteq> []" "spread \<noteq> 0"
  shows "\<exists>v\<in>set ws. getNode m_hash keystr key (ring_run m_hash Stringify spread (map Add ws)) = Inr v"
proof -
  have "fold (ring_spec m_hash Stringify) (map Add vs) (m, spread) = (m', spread') \<Longrightarrow>
    spread' = spread \<and> ran m' \<subseteq> ran m \<union> set vs \<and> (vs \<noteq> [] \<or> m \<noteq> Map.empty \<longrightarrow> m' \<noteq> Map.empty)" for vs m m' spread'
  proof (induction vs arbitrary: m)
    case (Cons v vs)
    let ?m = "\<lambda>q. if q \<in> ring_points m_hash Stringify spread v then Some v else m q"
    have "m_hash (cstr (Stringify v @ decimal 0)) \<in> ring_points m_hash Stringify spread v"
      using assms(2) by (auto simp: ring_points_def unat_gt_0)
    then have "?m \<noteq> Map.empty" by (auto simp: fun_eq_iff)
    moreover have "ran ?m \<subseteq> insert v (ran m)" by (auto simp: ran_def split: if_splits)
    ultimately show ?case using Cons.IH [of ?m] Cons.prems by auto
  qed auto
  then obtain m where m: "ring_places m_hash Stringify spread (map Add ws) = (m, spread)" "ran m \<subseteq> set ws" "m \<noteq> Map.empty"
    using assms(1) by (cases "ring_places m_hash Stringify spread (map Add ws)") (fastforce simp: ring_places_def)
  then have r: "ring_is (ring_run m_hash Stringify spread (map Add ws)) (m, spread)"
    using ring_run_spec [of m_hash Stringify spread "map Add ws"] by simp
  obtain v where v: "getNode m_hash keystr key (ring_run m_hash Stringify spread (map Add ws)) = Inr v"
    using getNode_Inr [OF r, of m_hash keystr key] m(3) by auto
  then have "nearest m (m_hash (cstr (keystr key))) v" by (simp add: getNode_nearest(2) [OF r])
  then have "v \<in> set ws" using m(2) by (auto simp: nearest_def ran_def)
  then show ?thesis using v by blast
qed

text \<open>
  C36. A storage service that starts with a configuration of settings and comments has a worker for every record, and it is one of
  those the configuration lists.\<close>

theorem cynder_worker_for_key:
  assumes "list_all line_wf ls" "cynder_main_ring (Some (Some (config_text ls))) (HashRing SHARDING_SPREAD) = Inr nodeRing"
  shows "\<exists>host. getNode crc_of keystr key nodeRing = Inr host \<and> Setting ''cynder-worker'' host \<in> set ls"
proof -
  let ?config = "concat (map line_pairs ls)"
  have config: "ConfigFile (Some (config_text ls)) = Inr ?config"
    using extractKeys_text [OF assms(1)] getlines_text [OF assms(1)] by (simp add: ConfigFile_def)
  define ws where "ws = map snd (config_find ?config ''cynder-worker'')"
  have "config_exist ?config ''cynder-worker''" and "nodeRing = fold (\<lambda>(_, v) ring. snd (addNode crc_of id v ring)) (config_find ?config ''cynder-worker'') (HashRing SHARDING_SPREAD)"
    using assms(2) by (auto simp: cynder_main_ring_def config split: if_splits)
  moreover from this(1) have "ws \<noteq> []" by (force simp: ws_def config_exist_def config_find_def filter_empty_conv)
  moreover have "fold (\<lambda>(_, v) ring. snd (addNode crc_of id v ring)) kvs s = fold (ring_step crc_of id) (map Add (map snd kvs)) s" for kvs :: config and s
    by (induction kvs arbitrary: s) auto
  ultimately have ring: "nodeRing = ring_run crc_of id SHARDING_SPREAD (map Add ws)" by (simp add: ring_run_def ws_def)
  have "(k, v) \<in> set (line_pairs l) \<Longrightarrow> l = Setting k v" for k v l by (cases l) auto
  then have "v \<in> set ws \<Longrightarrow> Setting ''cynder-worker'' v \<in> set ls" for v
    by (fastforce simp: ws_def config_find_def)
  then show ?thesis using ring_workers [OF \<open>ws \<noteq> []\<close>, of SHARDING_SPREAD crc_of keystr key id] by (auto simp: ring SHARDING_SPREAD_def)
qed

theorem cynder_worker_for_key_witness:
  "\<exists>host. getNode crc_of id ''key''
      (ring_run crc_of id SHARDING_SPREAD [Add ''n1:5522'', Add ''n2:5522'']) = Inr host \<and>
    Setting ''cynder-worker'' host \<in> set [Setting ''cynder-master'' ''m'', Setting ''cynder-worker'' ''n1:5522'', Setting ''cynder-worker'' ''n2:5522'']"
proof -
  let ?ls = "[Setting ''cynder-master'' ''m'', Setting ''cynder-worker'' ''n1:5522'', Setting ''cynder-worker'' ''n2:5522'']"
  have wf: "list_all line_wf ?ls" by (simp add: key_ok_def value_ok_def)
  have "ConfigFile (Some (config_text ?ls)) = Inr (concat (map line_pairs ?ls))"
    using extractKeys_text [OF wf] getlines_text [OF wf] by (simp add: ConfigFile_def)
  then have "cynder_main_ring (Some (Some (config_text ?ls))) (HashRing SHARDING_SPREAD) =
    Inr (ring_run crc_of id SHARDING_SPREAD [Add ''n1:5522'', Add ''n2:5522''])"
    by (simp add: cynder_main_ring_def config_exist_def config_find_def ring_run_def)
  then show ?thesis by (rule cynder_worker_for_key [OF wf])
qed

end
