(* ===== verification/Cynder_Store.thy ===== *)
theory Cynder_Store
  imports Cynder_Page Cynder_Ring
begin

text \<open>
  \<open>cynder\<close>: the storage node. \<open>filebase.h\<close> keeps large items in pages, \<open>data_index.cpp\<close> decides where a content goes,
  \<open>record_index.h\<close>, \<open>key_index.cpp\<close> and \<open>text_index.cpp\<close> are the other indexes, and \<open>initSlave\<close> of \<open>cynder.cpp\<close> answers the
  queries. The data base library and the serialisation of messages are parameters. An operation that may throw returns its
  exception or its value together with the state it leaves; \<open>None\<close> is the end of the process: a null pointer, or an exception that
  nothing catches.
\<close>

section \<open>Pages\<close>

record filebase =
  fb_counter :: u32
  filepages :: "(u32 \<times> filepage) list"

definition setw4 :: "string \<Rightarrow> string" where
  "setw4 s = replicate (4 - length s) CHR ''0'' @ s"

definition dbname :: "string \<Rightarrow> filebase \<Rightarrow> string \<times> filebase" where
  "dbname dir fb =
     (dir @ ''/'' @ ''lfb'' @ setw4 (decimal (unat (fb_counter fb))) @ ''dxdb'', fb\<lparr>fb_counter := fb_counter fb + 1\<rparr>)"

text \<open>\<open>atoi\<close> of the digits at the start.\<close>

definition digits_value :: "string \<Rightarrow> nat" where
  "digits_value s = foldl (\<lambda>n c. 10 * n + (of_char c - 48)) 0 (takeWhile (\<lambda>c. 48 \<le> (of_char c :: nat) \<and> of_char c \<le> (57 :: nat)) s)"

definition pagecounter :: "string \<Rightarrow> u32" where
  "pagecounter path =
     (let name = rev (takeWhile (\<lambda>c. c \<noteq> slash) (rev path)) in of_nat (digits_value (take 4 (drop 3 name))))"

text \<open>What is on disk when a page is acquired, and the memory it is made of.\<close>

type_synonym page_env = "(string \<Rightarrow> disk_file option) \<times> (nat \<Rightarrow> char) \<times> filepage"

definition acquirePage :: "page_env \<Rightarrow> string \<Rightarrow> filebase \<Rightarrow> u32 \<times> filebase" where
  "acquirePage = (\<lambda>(disk, junk, raw) file fb.
     (let pageNum = pagecounter file in
      (pageNum, fb\<lparr>filepages := map_assign pageNum (Filepage junk (disk file) raw) (filepages fb)\<rparr>)))"

definition applicablePage :: "page_env \<Rightarrow> string \<Rightarrow> filebase \<Rightarrow> u32 \<times> filebase" where
  "applicablePage env dir fb =
     (case find (\<lambda>(_, p). \<not> m_pageFull p) (filepages fb) of
        Some (n, _) \<Rightarrow> (n, fb)
      | None \<Rightarrow> let (file, fb) = dbname dir fb in acquirePage env file fb)"

text \<open>The constructor: one page, and more up to the given number.\<close>

fun acquire_pages :: "page_env \<Rightarrow> string \<Rightarrow> nat \<Rightarrow> filebase \<Rightarrow> filebase" where
  "acquire_pages env dir 0 fb = fb"
| "acquire_pages env dir (Suc n) fb = (let (file, fb) = dbname dir fb in acquire_pages env dir n (snd (acquirePage env file fb)))"

definition Filebase :: "page_env \<Rightarrow> u32 \<Rightarrow> string \<Rightarrow> filebase" where
  "Filebase env cnt dir =
     (let (file, fb) = dbname dir \<lparr>fb_counter = 0, filepages = []\<rparr> in
      acquire_pages env dir (unat cnt - 1) (snd (acquirePage env file fb)))"

definition fb_put :: "page_env \<Rightarrow> string \<Rightarrow> string \<Rightarrow> string \<Rightarrow> filebase \<Rightarrow> (u32 \<times> filebase) option" where
  "fb_put env dir name data fb =
     (let (pageNum, fb) = applicablePage env dir fb in
      do {
        p \<leftarrow> map_of (filepages fb) pageNum;
        p \<leftarrow> storeItem (fst (snd env)) name data p;
        Some (pageNum, fb\<lparr>filepages := map_assign pageNum p (filepages fb)\<rparr>)
      })"

text \<open>A number without a page gives a null pointer.\<close>

definition fb_get :: "u32 \<Rightarrow> string \<Rightarrow> filebase \<Rightarrow> (string option \<times> filebase) option" where
  "fb_get pageNum name fb =
     do {
       p \<leftarrow> map_of (filepages fb) pageNum;
       let (data, p) = retrieveItem name p;
       Some (data, fb\<lparr>filepages := map_assign pageNum p (filepages fb)\<rparr>)
     }"

definition fb_remove :: "(nat \<Rightarrow> char) \<Rightarrow> u32 \<Rightarrow> string \<Rightarrow> filebase \<Rightarrow> filebase option" where
  "fb_remove junk pageNum name fb =
     do {
       p \<leftarrow> map_of (filepages fb) pageNum;
       Some (fb\<lparr>filepages := map_assign pageNum (removeItem junk name p) (filepages fb)\<rparr>)
     }"

section \<open>The data base\<close>

datatype ups_error = UPS_KEY_NOT_FOUND | UPS_DUPLICATE_KEY | UPS_CURSOR_IS_NIL | UPS_OTHER int

datatype ups_flag = UPS_NONE | UPS_OVERWRITE | UPS_DUPLICATE

text \<open>The operations of the library that the sources call.\<close>

record ('db, 'cur) upscaledb =
  ups_insert :: "ups_flag \<Rightarrow> string \<Rightarrow> string \<Rightarrow> 'db \<Rightarrow> ups_error + 'db"
  ups_find :: "string \<Rightarrow> 'db \<Rightarrow> ups_error + string"
  ups_erase :: "string \<Rightarrow> 'db \<Rightarrow> ups_error + 'db"
  cur_find :: "string \<Rightarrow> 'db \<Rightarrow> ups_error + 'cur"
  cur_record :: "'cur \<Rightarrow> string"
  cur_duplicates :: "'cur \<Rightarrow> nat"
  cur_next :: "'cur \<Rightarrow> ups_error + 'cur"

section \<open>Operations that throw\<close>

type_synonym ('s, 'a) act = "'s \<Rightarrow> ((ups_error + 'a) \<times> 's) option"

definition act_return :: "'a \<Rightarrow> ('s, 'a) act" where
  "act_return x = (\<lambda>s. Some (Inr x, s))"

definition act_throw :: "ups_error \<Rightarrow> ('s, 'a) act" where
  "act_throw e = (\<lambda>s. Some (Inl e, s))"

definition act_bind :: "('s, 'a) act \<Rightarrow> ('a \<Rightarrow> ('s, 'b) act) \<Rightarrow> ('s, 'b) act" where
  "act_bind a f = (\<lambda>s. case a s of None \<Rightarrow> None | Some (Inl e, s) \<Rightarrow> Some (Inl e, s) | Some (Inr x, s) \<Rightarrow> f x s)"

definition act_then :: "('s, 'a) act \<Rightarrow> ('s, 'b) act \<Rightarrow> ('s, 'b) act" where
  "act_then a b = act_bind a (\<lambda>_. b)"

definition act_catch :: "('s, 'a) act \<Rightarrow> (ups_error \<Rightarrow> ('s, 'a) act) \<Rightarrow> ('s, 'a) act" where
  "act_catch a h = (\<lambda>s. case a s of Some (Inl e, s) \<Rightarrow> h e s | r \<Rightarrow> r)"

fun act_each :: "('x \<Rightarrow> ('s, unit) act) \<Rightarrow> 'x list \<Rightarrow> ('s, unit) act" where
  "act_each f [] = act_return ()"
| "act_each f (x # xs) = act_then (f x) (act_each f xs)"

section \<open>The engine and its indexes\<close>

definition engine_put :: "('db, 'cur) upscaledb \<Rightarrow> string \<Rightarrow> string \<Rightarrow> bool \<Rightarrow> bool \<Rightarrow> ('db, unit) act" where
  "engine_put u key val override duplicate = (\<lambda>db.
     (case ups_insert u (if override then UPS_OVERWRITE else if duplicate then UPS_DUPLICATE else UPS_NONE) key val db of
        Inl e \<Rightarrow> Some (Inl e, db)
      | Inr db \<Rightarrow> Some (Inr (), db)))"

definition engine_get :: "('db, 'cur) upscaledb \<Rightarrow> string \<Rightarrow> ('db, string) act" where
  "engine_get u key = (\<lambda>db. Some (ups_find u key db, db))"

definition engine_remove :: "('db, 'cur) upscaledb \<Rightarrow> string \<Rightarrow> ('db, unit) act" where
  "engine_remove u key = (\<lambda>db. (case ups_erase u key db of Inl e \<Rightarrow> Some (Inl e, db) | Inr db \<Rightarrow> Some (Inr (), db)))"

text \<open>The loop of \<open>getMulti\<close>, with the number of rounds left.\<close>

fun multi_loop :: "('db, 'cur) upscaledb \<Rightarrow> nat \<Rightarrow> 'cur \<Rightarrow> string list \<Rightarrow> (ups_error option) \<times> string list" where
  "multi_loop u 0 cur out = (None, out)"
| "multi_loop u (Suc n) cur out =
     (let quid = take 36 (cur_record u cur) in
      if quid \<in> set out then multi_loop u n cur out
      else
        (case cur_next u cur of
           Inl e \<Rightarrow> (Some e, out @ [quid])
         | Inr cur \<Rightarrow> multi_loop u n cur (out @ [quid])))"

text \<open>Another error than a missing key leaves the cursor without a place, and its next use throws.\<close>

definition getMulti :: "('db, 'cur) upscaledb \<Rightarrow> string \<Rightarrow> string list \<Rightarrow> 'db \<Rightarrow> (ups_error option) \<times> string list" where
  "getMulti u key out db =
     (case cur_find u key db of
        Inl e \<Rightarrow> if e = UPS_KEY_NOT_FOUND then (None, out) else (Some UPS_CURSOR_IS_NIL, out)
      | Inr cur \<Rightarrow> multi_loop u (cur_duplicates u cur) cur out)"

definition UNPACKED_LENGTH :: nat where
  "UNPACKED_LENGTH = 36"

definition crop :: "string \<Rightarrow> string" where
  "crop cquid =
     (if length cquid = UNPACKED_LENGTH + 2 \<and> cquid ! 0 = CHR ''{'' \<and> cquid ! (UNPACKED_LENGTH + 1) = CHR ''}''
      then take UNPACKED_LENGTH (drop 1 cquid) else [])"

text \<open>What the indexes do with an identifier first; the empty one is refused.\<close>

definition index_quid :: "string \<Rightarrow> string" where
  "index_quid quid = (if length quid \<noteq> UNPACKED_LENGTH then crop quid else quid)"

definition record_put :: "('db, 'cur) upscaledb \<Rightarrow> string \<Rightarrow> string \<Rightarrow> bool \<Rightarrow> ('db, unit) act" where
  "record_put u quid val override =
     (let quid = index_quid quid in if quid = [] then act_return () else engine_put u quid val override False)"

definition commonIndexKeywords :: "string list" where
  "commonIndexKeywords =
    [''name'', ''author'', ''owner'', ''user'', ''username'', ''date'', ''datetime'', ''timestamp'', ''locale'', ''age'', ''type'',
     ''classification'', ''category'', ''group'', ''set'', ''rating'', ''result'', ''status'', ''location'', ''language'', ''place'',
     ''target'', ''url'', ''address'', ''path'', ''description'', ''remark'', ''subject'', ''comment'', ''note'', ''tag'', ''color'',
     ''file'', ''width'', ''height'', ''time'', ''shape'', ''size'', ''texture'', ''source'', ''title'', ''domain'', ''standard'',
     ''setting'', ''protocol'']"

definition matchKeyword :: "string \<Rightarrow> bool" where
  "matchKeyword keyword \<longleftrightarrow> keyword \<in> set commonIndexKeywords"

definition key_put :: "('db, 'cur) upscaledb \<Rightarrow> string \<Rightarrow> string \<Rightarrow> string \<Rightarrow> ('db, unit) act" where
  "key_put u quid key val =
     (let quid = index_quid quid in
      if quid = [] then act_return ()
      else
        let key = map tolower key in
        if \<not> matchKeyword key then act_return () else engine_put u key (quid @ val) False True)"

definition text_put :: "('db, 'cur) upscaledb \<Rightarrow> string \<Rightarrow> string \<Rightarrow> string \<Rightarrow> ('db, unit) act" where
  "text_put u quid key val =
     (let quid = index_quid quid in
      if quid = [] then act_return ()
      else
        let val = map tolower val in
        if \<not> matchKeyword val then act_return () else engine_put u key (quid @ val) False True)"

text \<open>The catalogue of the numbers of data base files.\<close>

definition putVersionCount :: "('db, 'cur) upscaledb \<Rightarrow> string \<Rightarrow> u32 \<Rightarrow> ('db, unit) act" where
  "putVersionCount u prefix i = engine_put u (prefix @ ''_count'') (decimal (unat i)) True False"

definition getVersionCount :: "('db, 'cur) upscaledb \<Rightarrow> string \<Rightarrow> 'db \<Rightarrow> u32" where
  "getVersionCount u prefix db =
     (case ups_find u (prefix @ ''_count'') db of
        Inl e \<Rightarrow> if e = UPS_KEY_NOT_FOUND then 0 else of_nat (digits_value ''0'')
      | Inr version \<Rightarrow> of_nat (digits_value version))"

section \<open>Contents\<close>

definition DATA_MAGIC :: char where
  "DATA_MAGIC = char_of (72 :: nat)"

definition DATA_FLAG_ADI :: char where
  "DATA_FLAG_ADI = char_of (1 :: nat)"

definition DATA_FLAG_LFB :: char where
  "DATA_FLAG_LFB = char_of (2 :: nat)"

definition LFB_MINIMUM_SIZE :: nat where
  "LFB_MINIMUM_SIZE = 1024 * 1024 * 8"

text \<open>\<open>StorageType\<close>: the page at 0, the pointer at 4, magic and flags at 8 and 9, with padding at 2 and 10.\<close>

definition StorageType :: "(nat \<Rightarrow> char) \<Rightarrow> u16 \<Rightarrow> char \<Rightarrow> char list" where
  "StorageType junk page flags =
     le_chars 2 (unat page) @ [junk 2, junk 3] @ le_chars 4 0 @ [DATA_MAGIC, flags, junk 10, junk 11]"

text \<open>The state is the data base and the pages; the size a string may have at most is that of the library.\<close>

definition data_put :: "('db, 'cur) upscaledb \<Rightarrow> page_env \<Rightarrow> nat \<Rightarrow> (nat \<Rightarrow> char) \<Rightarrow> string \<Rightarrow> string \<Rightarrow> bool \<Rightarrow> ('db \<times> filebase, unit) act" where
  "data_put u env max_size junk quid val override = (\<lambda>(db, lfb).
     (let quid = index_quid quid in
      if quid = [] then Some (Inr (), (db, lfb))
      else
        do {
          (page, flags, val, lfb) \<leftarrow>
            (if LFB_MINIMUM_SIZE < length val \<and> length val < max_size
             then map_option (\<lambda>(n, lfb). (ucast n, DATA_FLAG_LFB, [], lfb)) (fb_put env ''data'' quid val lfb)
             else Some (0, DATA_FLAG_ADI, val, lfb));
          (r, db) \<leftarrow> engine_put u quid (val @ StorageType junk page flags) override False db;
          Some (r, (db, lfb))
        }))"

definition data_get :: "('db, 'cur) upscaledb \<Rightarrow> string \<Rightarrow> ('db \<times> filebase, string) act" where
  "data_get u quid = (\<lambda>(db, lfb).
     (let quid = index_quid quid in
      if quid = [] then Some (Inr [], (db, lfb))
      else
        (case ups_find u quid db of
           Inl e \<Rightarrow> Some (Inl e, (db, lfb))
         | Inr data \<Rightarrow>
             if length data < 12 then None
             else
               let data_end = length data - 12; type = drop data_end data in
               if type ! 8 \<noteq> DATA_MAGIC then Some (Inr [], (db, lfb))
               else if type ! 9 = DATA_FLAG_LFB
               then
                 do {
                   (val, lfb) \<leftarrow> fb_get (ucast (u16_at 0 type)) quid lfb;
                   val \<leftarrow> val;
                   Some (Inr val, (db, lfb))
                 }
               else Some (Inr (take data_end data), (db, lfb)))))"

section \<open>The worker\<close>

datatype action = SELECT | INSERT | UPDATE | DELETE | SEARCH

datatype queryresult = SUCCESS | NOTFOUND | DUPLICATE | UNKNOWN

datatype meta_entry = MetaEntry (meta_key: string) (meta_value: string) (meta_meta: "meta_entry list")

datatype storage_query =
  StorageQuery (q_name: string) (q_id: int) (q_quid: string) (q_content: "string option") (q_action: action) (q_result: queryresult)
    (q_meta: "meta_entry list") (q_next: "storage_query list")

fun set_content :: "string option \<Rightarrow> storage_query \<Rightarrow> storage_query" where
  "set_content c (StorageQuery n i q _ a r m x) = StorageQuery n i q c a r m x"

fun set_queryresult :: "queryresult \<Rightarrow> storage_query \<Rightarrow> storage_query" where
  "set_queryresult r (StorageQuery n i q c a _ m x) = StorageQuery n i q c a r m x"

fun add_next :: "storage_query \<Rightarrow> storage_query \<Rightarrow> storage_query" where
  "add_next y (StorageQuery n i q c a r m x) = StorageQuery n i q c a r m (x @ [y])"

text \<open>A field that is not set reads as the empty string.\<close>

definition content :: "storage_query \<Rightarrow> string" where
  "content q = (case q_content q of None \<Rightarrow> [] | Some c \<Rightarrow> c)"

record 'db worker =
  w_ari :: 'db
  w_adi :: 'db
  w_uki :: 'db
  w_fti :: 'db
  w_lfb :: filebase

text \<open>The state of a request: the query, which the handler changes as it goes, and the worker.\<close>

type_synonym 'db request = "storage_query \<times> 'db worker"

definition the_query :: "('db request, storage_query) act" where
  "the_query = (\<lambda>(q, w). Some (Inr q, (q, w)))"

definition set_query :: "storage_query \<Rightarrow> ('db request, unit) act" where
  "set_query q = (\<lambda>(_, w). Some (Inr (), (q, w)))"

definition on_ari :: "('db, 'a) act \<Rightarrow> ('db request, 'a) act" where
  "on_ari a = (\<lambda>(q, w). map_option (\<lambda>(r, db). (r, (q, w\<lparr>w_ari := db\<rparr>))) (a (w_ari w)))"

definition on_uki :: "('db, 'a) act \<Rightarrow> ('db request, 'a) act" where
  "on_uki a = (\<lambda>(q, w). map_option (\<lambda>(r, db). (r, (q, w\<lparr>w_uki := db\<rparr>))) (a (w_uki w)))"

definition on_fti :: "('db, 'a) act \<Rightarrow> ('db request, 'a) act" where
  "on_fti a = (\<lambda>(q, w). map_option (\<lambda>(r, db). (r, (q, w\<lparr>w_fti := db\<rparr>))) (a (w_fti w)))"

definition on_adi :: "('db \<times> filebase, 'a) act \<Rightarrow> ('db request, 'a) act" where
  "on_adi a = (\<lambda>(q, w). map_option (\<lambda>(r, (db, lfb)). (r, (q, w\<lparr>w_adi := db, w_lfb := lfb\<rparr>))) (a (w_adi w, w_lfb w)))"

definition on_adi_db :: "('db, 'a) act \<Rightarrow> ('db request, 'a) act" where
  "on_adi_db a = (\<lambda>(q, w). map_option (\<lambda>(r, db). (r, (q, w\<lparr>w_adi := db\<rparr>))) (a (w_adi w)))"

text \<open>The entries of a query without entries of their own go to both additional indexes.\<close>

fun traverseMeta :: "('db, 'cur) upscaledb \<Rightarrow> string \<Rightarrow> meta_entry \<Rightarrow> ('db request, unit) act" where
  "traverseMeta u quid (MetaEntry key val meta) =
     (if meta \<noteq> [] then act_each id (map (traverseMeta u quid) meta)
      else act_then (on_uki (key_put u quid key val)) (on_fti (text_put u quid val key)))"

text \<open>What a worker is built on: the data base, the memory pages are made of, the largest size of a string, the memory of
  trailers, and the serialisation of queries.\<close>

record ('db, 'cur) store_env =
  env_db :: "('db, 'cur) upscaledb"
  env_page :: page_env
  env_max_size :: nat
  env_junk :: "nat \<Rightarrow> char"
  env_serialize :: "storage_query \<Rightarrow> string"
  env_parse :: "string \<Rightarrow> storage_query"

definition do_select :: "('db, 'cur) store_env \<Rightarrow> ('db request, unit) act" where
  "do_select E =
     act_bind the_query (\<lambda>q.
     act_bind (on_ari (engine_get (env_db E) (q_quid q))) (\<lambda>serialized.
     let q = env_parse E serialized in
     act_then (set_query q)
     (act_bind (on_adi (data_get (env_db E) (q_quid q))) (\<lambda>c. set_query (set_content (Some c) q)))))"

definition do_insert :: "('db, 'cur) store_env \<Rightarrow> bool \<Rightarrow> ('db request, unit) act" where
  "do_insert E override =
     act_bind the_query (\<lambda>q.
     act_then (on_adi (data_put (env_db E) (env_page E) (env_max_size E) (env_junk E) (q_quid q) (content q) override))
     (let q = set_content None q in
      act_then (set_query q)
      (act_then (on_ari (record_put (env_db E) (q_quid q) (env_serialize E q) override))
       (act_each (traverseMeta (env_db E) (q_quid q)) (q_meta q)))))"

definition do_delete :: "('db, 'cur) store_env \<Rightarrow> ('db request, unit) act" where
  "do_delete E =
     act_bind the_query (\<lambda>q.
     act_then (on_adi_db (engine_remove (env_db E) (q_quid q))) (on_ari (engine_remove (env_db E) (q_quid q))))"

text \<open>One hit of a search: its record, and then its content; whatever is thrown in between is caught, and what was added stays.\<close>

definition search_hit :: "('db, 'cur) store_env \<Rightarrow> string \<Rightarrow> ('db request, unit) act" where
  "search_hit E quid =
     act_catch
       (act_bind (on_ari (engine_get (env_db E) quid)) (\<lambda>serialized.
        act_bind the_query (\<lambda>q.
        let next = env_parse E serialized in
        act_then (set_query (add_next next q))
        (act_bind (on_adi (data_get (env_db E) quid)) (\<lambda>c. set_query (add_next (set_content (Some c) next) q))))))
       (\<lambda>_. act_return ())"

definition do_search :: "('db, 'cur) store_env \<Rightarrow> ('db request, unit) act" where
  "do_search E = (\<lambda>(q, w).
     (case getMulti (env_db E) (content q) [] (w_uki w) of
        (Some e, _) \<Rightarrow> Some (Inl e, (q, w))
      | (None, keyList) \<Rightarrow>
          (case getMulti (env_db E) (content q) keyList (w_fti w) of
             (Some e, _) \<Rightarrow> Some (Inl e, (q, w))
           | (None, keyList) \<Rightarrow> act_each (search_hit E) keyList (q, w))))"

definition worker_query :: "('db, 'cur) store_env \<Rightarrow> storage_query \<Rightarrow> 'db worker \<Rightarrow> (storage_query \<times> 'db worker) option" where
  "worker_query E query w =
     (let query = set_queryresult SUCCESS query;
          handler =
            (case q_action query of
               SELECT \<Rightarrow> do_select E
             | INSERT \<Rightarrow> do_insert E False
             | UPDATE \<Rightarrow> do_insert E True
             | DELETE \<Rightarrow> do_delete E
             | SEARCH \<Rightarrow> do_search E)
      in
      do {
        (r, (query, w)) \<leftarrow> handler (query, w);
        Some
          (case r of
             Inr _ \<Rightarrow> query
           | Inl UPS_KEY_NOT_FOUND \<Rightarrow> set_queryresult NOTFOUND query
           | Inl UPS_DUPLICATE_KEY \<Rightarrow> set_queryresult DUPLICATE query
           | Inl _ \<Rightarrow> query, w)
      })"

text \<open>The copy of the entries of a scraped message into a query by the master: the entries below an entry are all copied into one
  new entry.\<close>

fun copyMeta :: "meta_entry \<Rightarrow> meta_entry \<Rightarrow> meta_entry" where
  "copyMeta (MetaEntry key val meta) destkey =
     (if meta \<noteq> []
      then MetaEntry key (meta_value destkey) (meta_meta destkey @ [fold copyMeta meta (MetaEntry [] [] [])])
      else MetaEntry key val (meta_meta destkey))"

definition master_meta :: "meta_entry list \<Rightarrow> meta_entry list" where
  "master_meta meta = map (\<lambda>m. copyMeta m (MetaEntry [] [] [])) meta"

section \<open>What the data base promises\<close>

text \<open>Without duplicates it is a map: an insertion refuses a key that exists unless it may overwrite it, and a key that is not
  there is neither found nor erased. Where duplicates are allowed an insertion of one succeeds.\<close>

definition ups_map :: "('db, 'cur) upscaledb \<Rightarrow> ('db \<Rightarrow> string \<Rightarrow> string option) \<Rightarrow> bool" where
  "ups_map u look \<longleftrightarrow>
     (\<forall>k db. ups_find u k db = (case look db k of None \<Rightarrow> Inl UPS_KEY_NOT_FOUND | Some v \<Rightarrow> Inr v)) \<and>
     (\<forall>k v db. look db k \<noteq> None \<longrightarrow> ups_insert u UPS_NONE k v db = Inl UPS_DUPLICATE_KEY) \<and>
     (\<forall>k v db. look db k = None \<longrightarrow> (\<exists>db'. ups_insert u UPS_NONE k v db = Inr db' \<and> look db' = (look db)(k \<mapsto> v))) \<and>
     (\<forall>k v db. \<exists>db'. ups_insert u UPS_OVERWRITE k v db = Inr db' \<and> look db' = (look db)(k \<mapsto> v)) \<and>
     (\<forall>k v db. \<exists>db'. ups_insert u UPS_DUPLICATE k v db = Inr db') \<and>
     (\<forall>k db. look db k = None \<longrightarrow> ups_erase u k db = Inl UPS_KEY_NOT_FOUND) \<and>
     (\<forall>k db. look db k \<noteq> None \<longrightarrow> (\<exists>db'. ups_erase u k db = Inr db' \<and> look db' = (look db)(k := None)))"

lemma ups_mapD:
  assumes "ups_map u look"
  shows "ups_find u k db = (case look db k of None \<Rightarrow> Inl UPS_KEY_NOT_FOUND | Some v \<Rightarrow> Inr v)"
    and "look db k \<noteq> None \<Longrightarrow> ups_insert u UPS_NONE k v db = Inl UPS_DUPLICATE_KEY"
    and "look db k = None \<Longrightarrow> \<exists>db'. ups_insert u UPS_NONE k v db = Inr db' \<and> look db' = (look db)(k \<mapsto> v)"
    and "\<exists>db'. ups_insert u UPS_OVERWRITE k v db = Inr db' \<and> look db' = (look db)(k \<mapsto> v)"
    and "\<exists>db'. ups_insert u UPS_DUPLICATE k v db = Inr db'"
    and "look db k = None \<Longrightarrow> ups_erase u k db = Inl UPS_KEY_NOT_FOUND"
    and "look db k \<noteq> None \<Longrightarrow> \<exists>db'. ups_erase u k db = Inr db' \<and> look db' = (look db)(k := None)"
  using assms unfolding ups_map_def by blast+

section \<open>Pages hold items\<close>

definition fb_holds :: "filebase \<Rightarrow> (u32 \<Rightarrow> page_items option) \<Rightarrow> bool" where
  "fb_holds fb I \<longleftrightarrow>
     ascending (filepages fb) \<and> filepages fb \<noteq> [] \<and> dom I = dom (map_of (filepages fb)) \<and>
     (\<forall>n p. map_of (filepages fb) n = Some p \<longrightarrow> unat n < 2 ^ 16 \<and> (\<exists>items. I n = Some items \<and> page_holds p items))"

definition first_page :: "filebase \<Rightarrow> filepage" where
  "first_page fb = snd (hd (filepages fb))"

lemma page_holds_not_full: "page_holds p items \<Longrightarrow> \<not> m_pageFull p"
  by (auto simp: page_holds_def page_rep_def)

lemma fb_holds_update:
  assumes "fb_holds fb I" "map_of (filepages fb) n = Some p" "page_holds p' items"
  shows "fb_holds (fb\<lparr>filepages := map_assign n p' (filepages fb)\<rparr>) (I(n \<mapsto> items))"
proof -
  have a: "ascending (filepages fb)" using assms(1) by (simp add: fb_holds_def)
  have "map_assign n p' (filepages fb) \<noteq> []" by (cases "filepages fb") (auto split: if_splits)
  then show ?thesis using assms ascending_assign [OF a] unfolding fb_holds_def
    by (auto simp: map_of_assign [OF a])
qed

lemma fb_put_holds:
  assumes "fb_holds fb I" "page_guard (Store (fst (snd env)) name data) (first_page fb)"
  shows "\<exists>n fb' items. fb_put env dir name data fb = Some (n, fb') \<and> unat n < 2 ^ 16 \<and> I n = Some items \<and> fb_holds fb' (I(n \<mapsto> items @ [(name, data)]))"
proof -
  obtain n p rest where f: "filepages fb = (n, p) # rest" using assms(1) by (cases "filepages fb") (auto simp: fb_holds_def)
  then obtain items where i: "I n = Some items" "page_holds p items" "unat n < 2 ^ 16"
    using assms(1) unfolding fb_holds_def by (metis list.set_intros(1) map_of_Cons_code(2))
  have "page_guard (Store (fst (snd env)) name data) p" using assms(2) by (simp add: first_page_def f)
  then obtain p' where p': "storeItem (fst (snd env)) name data p = Some p'" "page_holds p' (items @ [(name, data)])"
    using page.step_sim [OF i(2)] by fastforce
  have "fb_put env dir name data fb = Some (n, fb\<lparr>filepages := map_assign n p' (filepages fb)\<rparr>)"
    using page_holds_not_full [OF i(2)] p'(1) by (simp add: fb_put_def applicablePage_def f)
  then show ?thesis using fb_holds_update [OF assms(1) _ p'(2), of n p] i f by auto
qed

lemma fb_get_holds:
  assumes "fb_holds fb I" "I n = Some items"
  shows "\<exists>fb'. fb_get n name fb = Some (map_of (rev items) name, fb') \<and> fb_holds fb' I"
proof -
  obtain p where p: "map_of (filepages fb) n = Some p" "page_holds p items"
  proof -
    have "n \<in> dom (map_of (filepages fb))" using assms by (auto simp: fb_holds_def)
    then obtain p where "map_of (filepages fb) n = Some p" by blast
    moreover from this have "page_holds p items" using assms by (fastforce simp: fb_holds_def)
    ultimately show ?thesis using that by blast
  qed
  have "\<exists>p'. retrieveItem name p = (map_of (rev items) name, p') \<and> page_holds p' items"
    using page.step_sim [OF p(2), of "Retrieve name"] by simp
  then obtain p' where p': "retrieveItem name p = (map_of (rev items) name, p')" "page_holds p' items" by blast
  have "I(n \<mapsto> items) = I" using assms(2) by auto
  then show ?thesis using fb_holds_update [OF assms(1) p(1) p'(2)] p(1) p'(1) by (simp add: fb_get_def)
qed

section \<open>Contents come back\<close>

lemma trailer_facts [simp]:
  "length (StorageType junk page flags) = 12" "StorageType junk page flags ! 8 = DATA_MAGIC" "StorageType junk page flags ! 9 = flags"
  "u16_at 0 (StorageType junk page flags) = page"
  using unsigned_less [of page, where 'a = nat]
  by (simp_all add: StorageType_def nth_append u16_at_def le_val_chars)

lemma flags_differ [simp]: "DATA_FLAG_ADI \<noteq> DATA_FLAG_LFB"
  by (simp add: DATA_FLAG_ADI_def DATA_FLAG_LFB_def)

lemma index_quid_36 [simp]: "length quid = 36 \<Longrightarrow> index_quid quid = quid"
  by (simp add: index_quid_def UNPACKED_LENGTH_def)

text \<open>A record of the data index stands for a content: its own text, or the last item of that name on its page.\<close>

definition stands_for :: "string \<Rightarrow> (u32 \<Rightarrow> page_items option) \<Rightarrow> string \<Rightarrow> string \<Rightarrow> bool" where
  "stands_for data I quid c \<longleftrightarrow>
     (\<exists>junk page. data = c @ StorageType junk page DATA_FLAG_ADI) \<or>
     (\<exists>junk page items. data = StorageType junk page DATA_FLAG_LFB \<and> I (ucast page) = Some items \<and> map_of (rev items) quid = Some c)"

lemma data_get_holds:
  assumes "ups_map u look" "fb_holds lfb I" "length quid = 36" "look db quid = Some data" "stands_for data I quid c"
  shows "\<exists>lfb'. data_get u quid (db, lfb) = Some (Inr c, (db, lfb')) \<and> fb_holds lfb' I"
proof -
  have q: "quid \<noteq> []" using assms(3) by auto
  have find: "ups_find u quid db = Inr data" using ups_mapD(1) [OF assms(1), of quid db] assms(4) by simp
  from assms(5) consider (adi) junk page where "data = c @ StorageType junk page DATA_FLAG_ADI"
    | (lfb) junk page items where "data = StorageType junk page DATA_FLAG_LFB" "I (ucast page) = Some items" "map_of (rev items) quid = Some c"
    by (auto simp: stands_for_def)
  then show ?thesis
  proof cases
    case adi
    then show ?thesis using find q assms(2,3) by (simp add: data_get_def)
  next
    case lfb
    then show ?thesis using find q assms(3) fb_get_holds [OF assms(2) lfb(2), of quid] by (auto simp: data_get_def)
  qed
qed

lemma ucast_page: "unat (n :: u32) < 2 ^ 16 \<Longrightarrow> ucast (ucast n :: u16) = n"
  by (simp add: word_unat_eq_iff unsigned_ucast_eq unsigned_take_bit_eq take_bit_nat_eq_self)

text \<open>The pages after a put: a large content is a new item on one of them.\<close>

lemma data_put_holds:
  fixes look :: "'db \<Rightarrow> string \<Rightarrow> string option"
  assumes "ups_map u look" "fb_holds lfb I" "length quid = 36"
    and "LFB_MINIMUM_SIZE < length val \<Longrightarrow> page_guard (Store (fst (snd env)) quid val) (first_page lfb)"
    and "override \<or> look db quid = None"
  shows "\<exists>db' lfb' I' data. data_put u env max_size junk quid val override (db, lfb) = Some (Inr (), (db', lfb')) \<and> fb_holds lfb' I' \<and>
    look db' = (look db)(quid \<mapsto> data) \<and> stands_for data I' quid val \<and>
    (\<forall>d q c. q \<noteq> quid \<longrightarrow> stands_for d I q c \<longrightarrow> stands_for d I' q c)"
proof -
  have q: "quid \<noteq> []" using assms(3) by auto
  have put: "\<exists>db'. engine_put u quid v override False db = Some (Inr (), db') \<and> look db' = (look db)(quid \<mapsto> v)" for v
    using ups_mapD(3) [OF assms(1), of db quid v] ups_mapD(4) [OF assms(1), of quid v db] assms(5)
    by (cases override) (auto simp: engine_put_def)
  show ?thesis
  proof (cases "LFB_MINIMUM_SIZE < length val \<and> length val < max_size")
    case False
    obtain db' where "engine_put u quid (val @ StorageType junk 0 DATA_FLAG_ADI) override False db = Some (Inr (), db')"
      "look db' = (look db)(quid \<mapsto> val @ StorageType junk 0 DATA_FLAG_ADI)" using put by blast
    moreover have "stands_for (val @ StorageType junk 0 DATA_FLAG_ADI) I quid val" by (auto simp: stands_for_def)
    ultimately show ?thesis using False q assms(2,3) by (auto simp: data_put_def)
  next
    case True
    obtain n fb' items where f: "fb_put env ''data'' quid val lfb = Some (n, fb')" "unat n < 2 ^ 16" "I n = Some items"
      "fb_holds fb' (I(n \<mapsto> items @ [(quid, val)]))"
      using fb_put_holds [OF assms(2) assms(4)] True by blast
    let ?t = "StorageType junk (ucast n) DATA_FLAG_LFB"
    obtain db' where "engine_put u quid ?t override False db = Some (Inr (), db')" "look db' = (look db)(quid \<mapsto> ?t)" using put by blast
    moreover from this(1) have "data_put u env max_size junk quid val override (db, lfb) = Some (Inr (), (db', fb'))"
      using True q f(1) assms(3) by (simp add: data_put_def)
    moreover have "stands_for ?t (I(n \<mapsto> items @ [(quid, val)])) quid val"
      using ucast_page [OF f(2)] by (auto simp: stands_for_def)
    moreover have "stands_for d I q c \<Longrightarrow> q \<noteq> quid \<Longrightarrow> stands_for d (I(n \<mapsto> items @ [(quid, val)])) q c" for d q c
      using f(3) unfolding stands_for_def by (auto 0 4)
    ultimately show ?thesis using f(4) by blast
  qed
qed

section \<open>The worker is a store\<close>

lemma act_simps [simp]:
  "act_return x s = Some (Inr x, s)"
  "a s = Some (Inr x, t) \<Longrightarrow> act_bind a f s = f x t" "a s = Some (Inl e, t) \<Longrightarrow> act_bind a f s = Some (Inl e, t)"
  "a s = Some (Inr x, t) \<Longrightarrow> act_then a b s = b t" "a s = Some (Inl e, t) \<Longrightarrow> act_then a b s = Some (Inl e, t)"
  by (simp_all add: act_return_def act_bind_def act_then_def)

lemma query_simps [simp]:
  "q_quid (set_content c q) = q_quid q" "q_quid (set_queryresult r q) = q_quid q" "q_action (set_queryresult r q) = q_action q"
  "q_meta (set_content c q) = q_meta q" "q_content (set_queryresult r q) = q_content q" "content (set_queryresult r q) = content q"
  "set_queryresult r (set_queryresult r' q) = set_queryresult r q"
  by (cases q; simp add: content_def)+

lemma engine_duplicate: "ups_map u look \<Longrightarrow> \<exists>db'. engine_put u key val False True db = Some (Inr (), db')"
  using ups_mapD(5) [of u look key val db] by (auto simp: engine_put_def)

lemma key_put_total: "ups_map u look \<Longrightarrow> \<exists>db'. key_put u quid key val db = Some (Inr (), db')"
  using engine_duplicate by (auto simp: key_put_def Let_def)

lemma text_put_total: "ups_map u look \<Longrightarrow> \<exists>db'. text_put u quid key val db = Some (Inr (), db')"
  using engine_duplicate by (auto simp: text_put_def Let_def)

text \<open>The additional indexes leave the record and the content alone.\<close>

definition same_main :: "'db worker \<Rightarrow> 'db worker \<Rightarrow> bool" where
  "same_main w w' \<longleftrightarrow> w_ari w' = w_ari w \<and> w_adi w' = w_adi w \<and> w_lfb w' = w_lfb w"

lemma each_total:
  assumes "\<And>x w. x \<in> set xs \<Longrightarrow> \<exists>w'. f x (q, w) = Some (Inr (), (q, w')) \<and> same_main w w'"
  shows "\<exists>w'. act_each f xs (q, w) = Some (Inr (), (q, w')) \<and> same_main w w'"
  using assms
proof (induction xs arbitrary: w)
  case (Cons x xs)
  obtain w1 where w1: "f x (q, w) = Some (Inr (), (q, w1))" "same_main w w1" using Cons.prems by force
  obtain w2 where "act_each f xs (q, w1) = Some (Inr (), (q, w2))" "same_main w1 w2" using Cons.IH [of w1] Cons.prems by auto
  then show ?case using w1 by (auto simp: same_main_def)
qed (simp add: same_main_def)

lemma traverseMeta_total:
  assumes "ups_map u look"
  shows "\<exists>w'. traverseMeta u quid m (q, w) = Some (Inr (), (q, w')) \<and> same_main w w'"
proof (induction m arbitrary: w)
  case (MetaEntry key val meta)
  show ?case
  proof (cases "meta = []")
    case True
    obtain db1 where "key_put u quid key val (w_uki w) = Some (Inr (), db1)" using key_put_total [OF assms] by blast
    then have 1: "on_uki (key_put u quid key val) (q, w) = Some (Inr (), (q, w\<lparr>w_uki := db1\<rparr>))" by (simp add: on_uki_def)
    obtain db2 where "text_put u quid val key (w_fti w) = Some (Inr (), db2)" using text_put_total [OF assms] by blast
    then have 2: "on_fti (text_put u quid val key) (q, w\<lparr>w_uki := db1\<rparr>) = Some (Inr (), (q, w\<lparr>w_uki := db1, w_fti := db2\<rparr>))" by (simp add: on_fti_def)
    show ?thesis using True by (simp add: 1 2 same_main_def)
  next
    case False
    have "\<exists>w'. act_each id (map (traverseMeta u quid) meta) (q, w) = Some (Inr (), (q, w')) \<and> same_main w w'"
      using MetaEntry by (intro each_total) auto
    then show ?thesis using False by simp
  qed
qed

text \<open>The specification: a map from identifiers to records, without their content, and contents.\<close>

type_synonym store = "string \<Rightarrow> (storage_query \<times> string) option"

abbreviation stored :: "storage_query \<Rightarrow> storage_query" where
  "stored q \<equiv> set_content None (set_queryresult SUCCESS q)"

definition store_spec :: "storage_query \<Rightarrow> store \<Rightarrow> storage_query \<times> store" where
  "store_spec q a =
     (let k = q_quid q; found = set_queryresult SUCCESS q; missing = set_queryresult NOTFOUND q in
      case q_action q of
        SELECT \<Rightarrow> (case a k of None \<Rightarrow> (missing, a) | Some (rec, c) \<Rightarrow> (set_content (Some c) rec, a))
      | INSERT \<Rightarrow> if a k = None then (stored q, a(k \<mapsto> (stored q, content q))) else (set_queryresult DUPLICATE q, a)
      | UPDATE \<Rightarrow> (stored q, a(k \<mapsto> (stored q, content q)))
      | DELETE \<Rightarrow> if a k = None then (missing, a) else (found, a(k := None))
      | SEARCH \<Rightarrow> (found, a))"

text \<open>Identifiers without braces; a large content needs a page with room, and must not be inserted where there is one already.\<close>

definition store_guard :: "('db, 'cur) store_env \<Rightarrow> ('db \<Rightarrow> string \<Rightarrow> string option) \<Rightarrow> storage_query \<Rightarrow> 'db worker \<Rightarrow> bool" where
  "store_guard E look q w \<longleftrightarrow>
     length (q_quid q) = 36 \<and> q_action q \<noteq> SEARCH \<and>
     (q_action q \<in> {INSERT, UPDATE} \<longrightarrow> LFB_MINIMUM_SIZE < length (content q) \<longrightarrow>
        page_guard (Store (fst (snd (env_page E))) (q_quid q) (content q)) (first_page (w_lfb w)) \<and>
        (q_action q = INSERT \<longrightarrow> look (w_adi w) (q_quid q) = None))"

definition store_law :: "('db, 'cur) store_env \<Rightarrow> storage_query \<Rightarrow> bool" where
  "store_law E q \<longleftrightarrow> (q_action q \<in> {INSERT, UPDATE} \<longrightarrow> env_parse E (env_serialize E (stored q)) = stored q)"

definition store_holds :: "('db, 'cur) store_env \<Rightarrow> ('db \<Rightarrow> string \<Rightarrow> string option) \<Rightarrow> 'db worker \<Rightarrow> (u32 \<Rightarrow> page_items option) \<Rightarrow> store \<Rightarrow> bool" where
  "store_holds E look w I a \<longleftrightarrow>
     fb_holds (w_lfb w) I \<and>
     (\<forall>quid. length quid = 36 \<longrightarrow>
        (case a quid of
           None \<Rightarrow> look (w_ari w) quid = None \<and> look (w_adi w) quid = None
         | Some (rec, c) \<Rightarrow>
             q_quid rec = quid \<and> env_parse E (env_serialize E rec) = rec \<and> look (w_ari w) quid = Some (env_serialize E rec) \<and>
             (\<exists>data. look (w_adi w) quid = Some data \<and> stands_for data I quid c)))"

lemma store_holdsD:
  assumes "store_holds E look w I a" "length quid = 36"
  shows "a quid = None \<Longrightarrow> look (w_ari w) quid = None \<and> look (w_adi w) quid = None"
    and "a quid = Some (rec, c) \<Longrightarrow> q_quid rec = quid \<and> env_parse E (env_serialize E rec) = rec \<and> look (w_ari w) quid = Some (env_serialize E rec) \<and>
             (\<exists>data. look (w_adi w) quid = Some data \<and> stands_for data I quid c)"
  using assms unfolding store_holds_def by force+

lemma store_holds_same:
  assumes "store_holds E look w I a" "w_ari w' = w_ari w" "w_adi w' = w_adi w" "fb_holds (w_lfb w') I"
  shows "store_holds E look w' I a"
  using assms(1,4) unfolding store_holds_def assms(2,3) by blast

lemma store_holds_upd:
  assumes "store_holds E look w I a" "fb_holds (w_lfb w') I'" "length k = 36"
    and "look (w_ari w') = (look (w_ari w))(k \<mapsto> env_serialize E rec)" "look (w_adi w') = (look (w_adi w))(k \<mapsto> data)"
    and "q_quid rec = k" "env_parse E (env_serialize E rec) = rec" "stands_for data I' k c"
    and "\<And>d q c. q \<noteq> k \<Longrightarrow> stands_for d I q c \<Longrightarrow> stands_for d I' q c"
  shows "store_holds E look w' I' (a(k \<mapsto> (rec, c)))"
  unfolding store_holds_def
proof (intro conjI allI impI assms(2))
  fix quid :: string
  assume l: "length quid = 36"
  show "case (a(k \<mapsto> (rec, c))) quid of
      None \<Rightarrow> look (w_ari w') quid = None \<and> look (w_adi w') quid = None
    | Some (rec, c) \<Rightarrow> q_quid rec = quid \<and> env_parse E (env_serialize E rec) = rec \<and> look (w_ari w') quid = Some (env_serialize E rec) \<and>
        (\<exists>data. look (w_adi w') quid = Some data \<and> stands_for data I' quid c)"
  proof (cases "quid = k")
    case True
    then show ?thesis using assms(4-8) by simp
  next
    case False
    then show ?thesis using store_holdsD [OF assms(1) l] assms(4,5,9) by (cases "a quid") auto
  qed
qed

lemma store_holds_del:
  assumes "store_holds E look w I a" "w_lfb w' = w_lfb w"
    and "look (w_ari w') = (look (w_ari w))(k := None)" "look (w_adi w') = (look (w_adi w))(k := None)"
  shows "store_holds E look w' I (a(k := None))"
  unfolding store_holds_def
proof (intro conjI allI impI)
  show "fb_holds (w_lfb w') I" using assms(1,2) by (simp add: store_holds_def)
  fix quid :: string
  assume l: "length quid = 36"
  show "case (a(k := None)) quid of
      None \<Rightarrow> look (w_ari w') quid = None \<and> look (w_adi w') quid = None
    | Some (rec, c) \<Rightarrow> q_quid rec = quid \<and> env_parse E (env_serialize E rec) = rec \<and> look (w_ari w') quid = Some (env_serialize E rec) \<and>
        (\<exists>data. look (w_adi w') quid = Some data \<and> stands_for data I quid c)"
    using store_holdsD [OF assms(1) l] assms(3,4) by (cases "quid = k"; cases "a quid") auto
qed

lemma select_step:
  assumes u: "ups_map (env_db E) look" and h: "store_holds E look w I a" and l: "length (q_quid q) = 36"
  shows "a (q_quid q) = None \<Longrightarrow> do_select E (q, w) = Some (Inl UPS_KEY_NOT_FOUND, (q, w))"
    and "a (q_quid q) = Some (rec, c) \<Longrightarrow>
      \<exists>w'. do_select E (q, w) = Some (Inr (), (set_content (Some c) rec, w')) \<and> store_holds E look w' I a"
proof -
  have the: "the_query (q, w) = Some (Inr q, (q, w))" for q and w :: "'a worker" by (simp add: the_query_def)
  have set: "set_query q' (q, w) = Some (Inr (), (q', w))" for q q' and w :: "'a worker" by (simp add: set_query_def)
  { assume "a (q_quid q) = None"
    then have "ups_find (env_db E) (q_quid q) (w_ari w) = Inl UPS_KEY_NOT_FOUND"
      using store_holdsD(1) [OF h l] ups_mapD(1) [OF u, of "q_quid q" "w_ari w"] by simp
    then have "on_ari (engine_get (env_db E) (q_quid q)) (q, w) = Some (Inl UPS_KEY_NOT_FOUND, (q, w))"
      by (simp add: on_ari_def engine_get_def)
    then show "do_select E (q, w) = Some (Inl UPS_KEY_NOT_FOUND, (q, w))" by (simp add: do_select_def the) }
  { assume "a (q_quid q) = Some (rec, c)"
    then obtain data where r: "q_quid rec = q_quid q" "env_parse E (env_serialize E rec) = rec" "look (w_ari w) (q_quid q) = Some (env_serialize E rec)"
      "look (w_adi w) (q_quid q) = Some data" "stands_for data I (q_quid q) c"
      using store_holdsD(2) [OF h l] by blast
    have "ups_find (env_db E) (q_quid q) (w_ari w) = Inr (env_serialize E rec)" using ups_mapD(1) [OF u, of "q_quid q" "w_ari w"] r(3) by simp
    then have 1: "on_ari (engine_get (env_db E) (q_quid q)) (q, w) = Some (Inr (env_serialize E rec), (q, w))"
      by (simp add: on_ari_def engine_get_def)
    have f: "fb_holds (w_lfb w) I" using h by (simp add: store_holds_def)
    obtain lfb' where g: "data_get (env_db E) (q_quid q) (w_adi w, w_lfb w) = Some (Inr c, (w_adi w, lfb'))" "fb_holds lfb' I"
      using data_get_holds [OF u f l r(4,5)] by blast
    then have 2: "on_adi (data_get (env_db E) (q_quid q)) (rec, w) = Some (Inr c, (rec, w\<lparr>w_lfb := lfb'\<rparr>))" by (simp add: on_adi_def)
    have "store_holds E look (w\<lparr>w_lfb := lfb'\<rparr>) I a" using g(2) by (intro store_holds_same [OF h]) simp_all
    then show "\<exists>w'. do_select E (q, w) = Some (Inr (), (set_content (Some c) rec, w')) \<and> store_holds E look w' I a"
      using 1 2 r(1,2) by (simp add: do_select_def the set Let_def) }
qed

lemma insert_step:
  assumes u: "ups_map (env_db E) look" and h: "store_holds E look w I a" and l: "length (q_quid q) = 36"
    and large: "LFB_MINIMUM_SIZE < length (content q) \<Longrightarrow> page_guard (Store (fst (snd (env_page E))) (q_quid q) (content q)) (first_page (w_lfb w))"
    and new: "override \<or> a (q_quid q) = None" and law: "env_parse E (env_serialize E (set_content None q)) = set_content None q"
  shows "\<exists>w' I'. do_insert E override (q, w) = Some (Inr (), (set_content None q, w')) \<and>
    store_holds E look w' I' (a(q_quid q \<mapsto> (set_content None q, content q)))"
proof -
  have f: "fb_holds (w_lfb w) I" using h by (simp add: store_holds_def)
  have none: "override \<or> look (w_adi w) (q_quid q) = None" "override \<or> look (w_ari w) (q_quid q) = None"
    using new store_holdsD(1) [OF h l] by auto
  let ?rec = "set_content None q"
  obtain db' lfb' I' data where d: "data_put (env_db E) (env_page E) (env_max_size E) (env_junk E) (q_quid q) (content q) override (w_adi w, w_lfb w) =
      Some (Inr (), (db', lfb'))" "fb_holds lfb' I'" "look db' = (look (w_adi w))(q_quid q \<mapsto> data)" "stands_for data I' (q_quid q) (content q)"
    "\<forall>d q' c. q' \<noteq> q_quid q \<longrightarrow> stands_for d I q' c \<longrightarrow> stands_for d I' q' c"
    using data_put_holds [OF u f l large none(1)] by blast
  let ?w1 = "w\<lparr>w_adi := db', w_lfb := lfb'\<rparr>"
  have 1: "on_adi (data_put (env_db E) (env_page E) (env_max_size E) (env_junk E) (q_quid q) (content q) override) (q, w) = Some (Inr (), (q, ?w1))"
    using d(1) by (simp add: on_adi_def)
  have "q_quid q \<noteq> []" using l by auto
  then obtain ari where r: "record_put (env_db E) (q_quid q) (env_serialize E ?rec) override (w_ari w) = Some (Inr (), ari)"
    "look ari = (look (w_ari w))(q_quid q \<mapsto> env_serialize E ?rec)"
    using ups_mapD(3) [OF u, of "w_ari w" "q_quid q" "env_serialize E ?rec"] ups_mapD(4) [OF u, of "q_quid q" "env_serialize E ?rec" "w_ari w"] none(2) l
    by (cases override) (auto simp: record_put_def engine_put_def)
  let ?w2 = "?w1\<lparr>w_ari := ari\<rparr>"
  have 2: "on_ari (record_put (env_db E) (q_quid q) (env_serialize E ?rec) override) (?rec, ?w1) = Some (Inr (), (?rec, ?w2))"
    using r(1) by (simp add: on_ari_def)
  obtain w3 where w3: "act_each (traverseMeta (env_db E) (q_quid q)) (q_meta q) (?rec, ?w2) = Some (Inr (), (?rec, w3))" "same_main ?w2 w3"
    using each_total [where f = "traverseMeta (env_db E) (q_quid q)"] traverseMeta_total [OF u] by blast
  have "store_holds E look w3 I' (a(q_quid q \<mapsto> (?rec, content q)))"
    using w3(2) d(2-5) r(2) l law by (intro store_holds_upd [OF h]) (auto simp: same_main_def)
  then show ?thesis using 1 2 w3(1) by (auto simp: do_insert_def the_query_def set_query_def Let_def)
qed

lemma insert_refused:
  assumes u: "ups_map (env_db E) look" and h: "store_holds E look w I a" and l: "length (q_quid q) = 36"
    and "\<not> LFB_MINIMUM_SIZE < length (content q)" "a (q_quid q) \<noteq> None"
  shows "do_insert E False (q, w) = Some (Inl UPS_DUPLICATE_KEY, (q, w))"
proof -
  have "look (w_adi w) (q_quid q) \<noteq> None" using store_holdsD(2) [OF h l] assms(5) by (cases "a (q_quid q)") auto
  then have "engine_put (env_db E) (q_quid q) v False False (w_adi w) = Some (Inl UPS_DUPLICATE_KEY, w_adi w)" for v
    using ups_mapD(2) [OF u, of "w_adi w" "q_quid q" v] by (simp add: engine_put_def)
  moreover have "q_quid q \<noteq> []" using l by auto
  ultimately have "on_adi (data_put (env_db E) (env_page E) (env_max_size E) (env_junk E) (q_quid q) (content q) False) (q, w) = Some (Inl UPS_DUPLICATE_KEY, (q, w))"
    using assms(4) l by (simp add: on_adi_def data_put_def)
  then show ?thesis by (simp add: do_insert_def the_query_def)
qed

lemma delete_step:
  assumes u: "ups_map (env_db E) look" and h: "store_holds E look w I a" and l: "length (q_quid q) = 36"
  shows "a (q_quid q) = None \<Longrightarrow> do_delete E (q, w) = Some (Inl UPS_KEY_NOT_FOUND, (q, w))"
    and "a (q_quid q) \<noteq> None \<Longrightarrow> \<exists>w'. do_delete E (q, w) = Some (Inr (), (q, w')) \<and> store_holds E look w' I (a(q_quid q := None))"
proof -
  { assume "a (q_quid q) = None"
    then have "engine_remove (env_db E) (q_quid q) (w_adi w) = Some (Inl UPS_KEY_NOT_FOUND, w_adi w)"
      using store_holdsD(1) [OF h l] ups_mapD(6) [OF u, of "w_adi w" "q_quid q"] by (simp add: engine_remove_def)
    then have "on_adi_db (engine_remove (env_db E) (q_quid q)) (q, w) = Some (Inl UPS_KEY_NOT_FOUND, (q, w))" by (simp add: on_adi_db_def)
    then show "do_delete E (q, w) = Some (Inl UPS_KEY_NOT_FOUND, (q, w))" by (simp add: do_delete_def the_query_def) }
  { assume "a (q_quid q) \<noteq> None"
    then have "look (w_ari w) (q_quid q) \<noteq> None" "look (w_adi w) (q_quid q) \<noteq> None" using store_holdsD(2) [OF h l] by (cases "a (q_quid q)"; force)+
    then obtain adi ari where e: "ups_erase (env_db E) (q_quid q) (w_adi w) = Inr adi" "look adi = (look (w_adi w))(q_quid q := None)"
      "ups_erase (env_db E) (q_quid q) (w_ari w) = Inr ari" "look ari = (look (w_ari w))(q_quid q := None)"
      using ups_mapD(7) [OF u] by metis
    let ?w1 = "w\<lparr>w_adi := adi\<rparr>" and ?w2 = "w\<lparr>w_adi := adi, w_ari := ari\<rparr>"
    have "on_adi_db (engine_remove (env_db E) (q_quid q)) (q, w) = Some (Inr (), (q, ?w1))"
      "on_ari (engine_remove (env_db E) (q_quid q)) (q, ?w1) = Some (Inr (), (q, ?w2))"
      using e by (simp_all add: on_adi_db_def on_ari_def engine_remove_def)
    moreover have "store_holds E look ?w2 I (a(q_quid q := None))" using e by (intro store_holds_del [OF h]) simp_all
    ultimately show "\<exists>w'. do_delete E (q, w) = Some (Inr (), (q, w')) \<and> store_holds E look w' I (a(q_quid q := None))"
      by (auto simp: do_delete_def the_query_def) }
qed

lemma store_step:
  assumes u: "ups_map (env_db E) look" and h: "store_holds E look w I a" and g: "store_guard E look q w" and law: "store_law E q"
  shows "\<exists>w' I'. worker_query E q w = Some (fst (store_spec q a), w') \<and> store_holds E look w' I' (snd (store_spec q a))"
proof -
  let ?q = "set_queryresult SUCCESS q"
  have l: "length (q_quid ?q) = 36" using g by (simp add: store_guard_def)
  show ?thesis
  proof (cases "q_action q")
    case SELECT
    show ?thesis
    proof (cases "a (q_quid q)")
      case None
      then show ?thesis using select_step(1) [OF u h l] h SELECT by (auto simp: worker_query_def store_spec_def Let_def)
    next
      case (Some rc)
      then obtain rec c where rc: "a (q_quid q) = Some (rec, c)" by (cases rc) auto
      then obtain w' where "do_select E (?q, w) = Some (Inr (), (set_content (Some c) rec, w'))" "store_holds E look w' I a"
        using select_step(2) [OF u h l] by auto
      then have "worker_query E q w = Some (fst (store_spec q a), w')" "store_holds E look w' I (snd (store_spec q a))"
        using SELECT rc by (auto simp: worker_query_def store_spec_def Let_def)
      then show ?thesis by blast
    qed
  next
    case INSERT
    show ?thesis
    proof (cases "a (q_quid q) = None")
      case True
      then obtain w' I' where "do_insert E False (?q, w) = Some (Inr (), (stored q, w'))" "store_holds E look w' I' (a(q_quid q \<mapsto> (stored q, content q)))"
        using insert_step [OF u h l, of False] g law INSERT by (auto simp: store_guard_def store_law_def)
      then show ?thesis using INSERT True by (auto simp: worker_query_def store_spec_def Let_def)
    next
      case False
      then have "look (w_adi w) (q_quid q) \<noteq> None" using store_holdsD(2) [OF h l] by (cases "a (q_quid q)") auto
      then have "\<not> LFB_MINIMUM_SIZE < length (content q)" using g INSERT by (auto simp: store_guard_def)
      then have "do_insert E False (?q, w) = Some (Inl UPS_DUPLICATE_KEY, (?q, w))" using insert_refused [OF u h l] False by simp
      then show ?thesis using INSERT False h by (auto simp: worker_query_def store_spec_def Let_def)
    qed
  next
    case UPDATE
    then obtain w' I' where "do_insert E True (?q, w) = Some (Inr (), (stored q, w'))" "store_holds E look w' I' (a(q_quid q \<mapsto> (stored q, content q)))"
      using insert_step [OF u h l, of True] g law by (auto simp: store_guard_def store_law_def)
    then show ?thesis using UPDATE by (auto simp: worker_query_def store_spec_def Let_def)
  next
    case DELETE
    then show ?thesis
      using delete_step [OF u h l] h by (cases "a (q_quid q) = None") (auto simp: worker_query_def store_spec_def Let_def)
  next
    case SEARCH
    then show ?thesis using g by (simp add: store_guard_def)
  qed
qed

lemma run_guarded_conj: "run_guarded guard step xs s \<Longrightarrow> \<forall>x\<in>set xs. P x \<Longrightarrow> run_guarded (\<lambda>x s. guard x s \<and> P x) step xs s"
  by (induction guard step xs s rule: run_guarded.induct) (auto split: option.splits)

lemma run_guarded_all: "\<forall>x\<in>set xs. \<forall>s. guard x s \<Longrightarrow> run_guarded guard step xs s"
  by (induction guard step xs s rule: run_guarded.induct) (auto split: option.splits)

section \<open>A fresh node\<close>

lemma Filebase_fresh:
  assumes "fst env = Map.empty"
  shows "fb_holds (Filebase env 0 ''data'') [0 \<mapsto> []]"
proof -
  have "setw4 (decimal 0) = ''0000''" by code_simp
  then have "dbname ''data'' \<lparr>fb_counter = 0, filepages = []\<rparr> = (''data/lfb0000dxdb'', \<lparr>fb_counter = 1, filepages = []\<rparr>)"
    by (simp add: dbname_def)
  moreover have "pagecounter ''data/lfb0000dxdb'' = 0" by code_simp
  ultimately have "filepages (Filebase env 0 ''data'') = [(0, Filepage (fst (snd env)) None (snd (snd env)))]"
    using assms by (simp add: Filebase_def acquirePage_def split_def)
  then show ?thesis using Filepage_new by (auto simp: fb_holds_def)
qed


definition demo_db :: "(string \<Rightarrow> string option, unit) upscaledb" where
  "demo_db =
     \<lparr>ups_insert = \<lambda>flag k v db. if flag = UPS_NONE \<and> db k \<noteq> None then Inl UPS_DUPLICATE_KEY else Inr (db(k \<mapsto> v)),
      ups_find = \<lambda>k db. case db k of None \<Rightarrow> Inl UPS_KEY_NOT_FOUND | Some v \<Rightarrow> Inr v,
      ups_erase = \<lambda>k db. if db k = None then Inl UPS_KEY_NOT_FOUND else Inr (db(k := None)),
      cur_find = \<lambda>_ _. Inl UPS_KEY_NOT_FOUND, cur_record = \<lambda>_. [], cur_duplicates = \<lambda>_. 0, cur_next = \<lambda>_. Inl UPS_KEY_NOT_FOUND\<rparr>"

text \<open>Messages that have only a name and an identifier.\<close>

definition demo_env :: "(string \<Rightarrow> string option, unit) store_env" where
  "demo_env =
     \<lparr>env_db = demo_db, env_page = (Map.empty, \<lambda>_. CHR ''j'', fresh_page), env_max_size = 2 ^ 62, env_junk = \<lambda>_. CHR ''k'',
      env_serialize = \<lambda>q. q_quid q @ q_name q, env_parse = \<lambda>s. StorageQuery (drop 36 s) 1 (take 36 s) None INSERT SUCCESS [] []\<rparr>"


section \<open>Where the node fails\<close>

text \<open>Records are stored under the identifier without its braces, but looked up and deleted under the one that was given: with braces
  it is never found.\<close>

lemma braces_not_found:
  assumes "ups_map (env_db E) look" "\<forall>k. length k \<noteq> 36 \<longrightarrow> look (w_ari w) k = None \<and> look (w_adi w) k = None"
    and "length (q_quid q) \<noteq> 36" "q_action q \<in> {SELECT, DELETE}"
  shows "worker_query E q w = Some (set_queryresult NOTFOUND q, w)"
proof -
  have "ups_find (env_db E) (q_quid q) (w_ari w) = Inl UPS_KEY_NOT_FOUND" "ups_erase (env_db E) (q_quid q) (w_adi w) = Inl UPS_KEY_NOT_FOUND"
    using ups_mapD(1,6) [OF assms(1), where k = "q_quid q"] assms(2,3) by simp_all
  then show ?thesis using assms(4)
    by (auto simp: worker_query_def do_select_def do_delete_def the_query_def on_ari_def on_adi_db_def engine_get_def engine_remove_def
      act_bind_def act_then_def)
qed

text \<open>An insertion that is refused has already stored its content if that is large: where the record that exists has a large content
  too, it is replaced.\<close>

lemma refused_insert_replaces:
  assumes u: "ups_map (env_db E) look" and f: "fb_holds (w_lfb w) I" "dom I = {n}"
    and q: "q_action q = INSERT" "length (q_quid q) = 36"
    and old: "look (w_adi w) (q_quid q) = Some (StorageType junk (ucast n) DATA_FLAG_LFB)"
    and large: "LFB_MINIMUM_SIZE < length (content q)" "length (content q) < env_max_size E"
      "page_guard (Store (fst (snd (env_page E))) (q_quid q) (content q)) (first_page (w_lfb w))"
  shows "\<exists>w' lfb. worker_query E q w = Some (set_queryresult DUPLICATE q, w') \<and>
    data_get (env_db E) (q_quid q) (w_adi w', w_lfb w') = Some (Inr (content q), (w_adi w', lfb))"
proof -
  obtain m fb' items where p: "fb_put (env_page E) ''data'' (q_quid q) (content q) (w_lfb w) = Some (m, fb')" "unat m < 2 ^ 16"
    "I m = Some items" "fb_holds fb' (I(m \<mapsto> items @ [(q_quid q, content q)]))"
    using fb_put_holds [OF f(1) large(3)] by blast
  have "m = n" using p(3) f(2) by auto
  have dup: "engine_put (env_db E) (q_quid q) v False False (w_adi w) = Some (Inl UPS_DUPLICATE_KEY, w_adi w)" for v
    using ups_mapD(2) [OF u, of "w_adi w" "q_quid q" v] old by (simp add: engine_put_def)
  have "q_quid q \<noteq> []" using q(2) by auto
  then have "worker_query E q w = Some (set_queryresult DUPLICATE q, w\<lparr>w_lfb := fb'\<rparr>)"
    using q large(1,2) p(1) dup by (simp add: worker_query_def do_insert_def the_query_def on_adi_def data_put_def act_bind_def act_then_def)
  moreover have "stands_for (StorageType junk (ucast n) DATA_FLAG_LFB) (I(m \<mapsto> items @ [(q_quid q, content q)])) (q_quid q) (content q)"
    using ucast_page [OF p(2)] \<open>m = n\<close> by (auto simp: stands_for_def)
  ultimately show ?thesis using data_get_holds [OF u p(4) q(2) old] by force
qed

text \<open>A search that meets an identifier it has already stays on that record until its rounds are used up; and behind the last record
  of all it throws, so that what it found is reported as missing.\<close>

lemma search_stalls: "take 36 (cur_record u cur) \<in> set out \<Longrightarrow> multi_loop u n cur out = (None, out)"
  by (induction n) (simp_all add: Let_def)

lemma search_last_record:
  assumes "q_action q = SEARCH" "cur_find (env_db E) (content q) (w_uki w) = Inr cur" "cur_duplicates (env_db E) cur = 1"
    and "cur_next (env_db E) cur = Inl UPS_KEY_NOT_FOUND"
  shows "worker_query E q w = Some (set_queryresult NOTFOUND q, w)"
  using assms by (simp add: worker_query_def do_search_def getMulti_def Let_def)

text \<open>Entries without entries of their own below one entry: only the last arrives.\<close>

lemma copyMeta_last:
  assumes "leaves \<noteq> []" "\<forall>m\<in>set leaves. meta_meta m = []"
  shows "master_meta [MetaEntry key val leaves] = [MetaEntry key [] [last leaves]]"
proof -
  have "fold copyMeta ms d = last ms" if "ms \<noteq> []" "\<forall>m\<in>set ms. meta_meta m = []" "meta_meta d = []" for ms d
    using that
  proof (induction ms arbitrary: d)
    case (Cons m ms)
    then have "copyMeta m d = m" by (cases m) simp
    then show ?case using Cons by (cases ms) auto
  qed simp
  then show ?thesis using assms by (simp add: master_meta_def)
qed

section \<open>Names of pages\<close>

lemma digits_value_append:
  assumes "\<forall>c\<in>set s. 48 \<le> (of_char c :: nat) \<and> of_char c \<le> (57 :: nat)" "d < 10"
  shows "digits_value (s @ [char_of (48 + d)]) = 10 * digits_value s + d"
  using assms by (auto simp: digits_value_def takeWhile_append2 of_char_of takeWhile_eq_all_conv [THEN iffD2])

lemma decimal_digits: "c \<in> set (decimal n) \<Longrightarrow> 48 \<le> (of_char c :: nat) \<and> of_char c \<le> (57 :: nat)"
proof (induction n rule: decimal.induct)
  case (1 n)
  have "n mod 10 < 10" by simp
  then have "(48 + n mod 10) mod 256 = 48 + n mod 10" by simp
  then show ?case using 1 decimal.simps [of n] \<open>n mod 10 < 10\<close> by (auto simp: of_char_of split: if_splits)
qed

lemma digits_value_decimal: "digits_value (replicate k CHR ''0'' @ decimal n) = n"
proof (induction n rule: decimal.induct)
  case (1 n)
  have d: "\<forall>c\<in>set (replicate k CHR ''0'' @ decimal m). 48 \<le> (of_char c :: nat) \<and> of_char c \<le> (57 :: nat)" for m
    using decimal_digits by auto
  have z: "digits_value (replicate k CHR ''0'') = 0"
    by (induction k) (simp_all add: digits_value_def)
  show ?case
  proof (cases "n < 10")
    case True
    then show ?thesis using digits_value_append [of "replicate k CHR ''0''" n] z by (simp add: decimal.simps [of n])
  next
    case False
    then show ?thesis using digits_value_append [OF d, of "n mod 10" "n div 10"] 1 by (simp add: decimal.simps [of n])
  qed
qed

text \<open>The number of a page can be read back from its name up to 9999; from 10000 on only its first four digits are.\<close>

lemma pagecounter_dbname:
  assumes "unat (fb_counter fb) < 10000"
  shows "pagecounter (fst (dbname dir fb)) = fb_counter fb"
proof -
  let ?n = "unat (fb_counter fb)"
  have len: "length (decimal ?n) \<le> 4" using decimal_length [of ?n 4] assms by simp
  have no: "slash \<notin> set (decimal ?n)" using decimal_digits [of slash ?n] by auto
  let ?name = "''lfb'' @ setw4 (decimal ?n) @ ''dxdb''"
  have "slash \<notin> set ?name" using no by (auto simp: setw4_def)
  then have "takeWhile (\<lambda>c. c \<noteq> slash) (rev ?name @ slash # rev dir) = rev ?name"
    by (subst takeWhile_append2) auto
  then have "rev (takeWhile (\<lambda>c. c \<noteq> slash) (rev (fst (dbname dir fb)))) = ?name" by (simp add: dbname_def)
  moreover have "take 4 (drop 3 ?name) = setw4 (decimal ?n)" using len by (simp add: setw4_def)
  ultimately show ?thesis using digits_value_decimal [of "4 - length (decimal ?n)" ?n] by (simp add: pagecounter_def Let_def setw4_def)
qed

lemma pagecounter_cut: "pagecounter ''data/lfb10000dxdb'' = 1000"
  by code_simp

lemma version_count_roundtrip:
  assumes "ups_map u look" "putVersionCount u prefix i db = Some (Inr (), db')"
  shows "getVersionCount u prefix db' = i"
  using ups_mapD(1) [OF assms(1), of "prefix @ ''_count''" db'] ups_mapD(4) [OF assms(1), of "prefix @ ''_count''" "decimal (unat i)" db] assms(2)
    digits_value_decimal [of 0 "unat i"]
  by (auto simp: putVersionCount_def engine_put_def getVersionCount_def)

end
