(* ===== verification/Chella_Sha1.thy ===== *)
theory Chella_Sha1
  imports Mumux_Sha Compat_Snprintf
begin

text \<open>
  \<open>chella/sha1.cpp\<close>: the digest that names packages. The class keeps its words in \<open>unsigned long\<close>, which has 64 bits here,
  a ring of sixteen words as the message schedule, and a string as its buffer. It is compared with the definition of SHA-1 in
  \<open>Mumux_Sha\<close>: the low halves of the words are the words of the definition.
\<close>

section \<open>Rounds\<close>

definition SHA1_ROL :: "u64 \<Rightarrow> nat \<Rightarrow> u64" where
  "SHA1_ROL v bits = push_bit bits v OR drop_bit (32 - bits) (v AND 0xffffffff)"

definition SHA1_BLK :: "u64 list \<Rightarrow> nat \<Rightarrow> u64 list" where
  "SHA1_BLK block i =
     block[i mod 16 := SHA1_ROL (block ! ((i + 13) mod 16) XOR block ! ((i + 8) mod 16) XOR block ! ((i + 2) mod 16) XOR block ! (i mod 16)) 1]"

type_synonym sha1_ulongs = "u64 \<times> u64 \<times> u64 \<times> u64 \<times> u64"

text \<open>One operation on its arguments \<open>v\<close> to \<open>z\<close>; the next one gets them rotated by a place.\<close>

definition SHA1_R :: "(u64 \<Rightarrow> u64 \<Rightarrow> u64 \<Rightarrow> u64) \<Rightarrow> u64 \<Rightarrow> u64 \<Rightarrow> sha1_ulongs \<Rightarrow> sha1_ulongs" where
  "SHA1_R f k m = (\<lambda>(v, w, x, y, z). (z + f w x y + m + k + SHA1_ROL v 5, v, SHA1_ROL w 30, x, y))"

definition sha1_op :: "nat \<Rightarrow> u64 list \<times> sha1_ulongs \<Rightarrow> u64 list \<times> sha1_ulongs" where
  "sha1_op i = (\<lambda>(block, vars).
     let block = (if i < 16 then block else SHA1_BLK block i); m = block ! (i mod 16) in
     (block,
      if i < 20 then SHA1_R (\<lambda>w x y. (w AND (x XOR y)) XOR y) 0x5a827999 m vars
      else if i < 40 then SHA1_R (\<lambda>w x y. w XOR x XOR y) 0x6ed9eba1 m vars
      else if i < 60 then SHA1_R (\<lambda>w x y. ((w OR x) AND y) OR (w AND x)) 0x8f1bbcdc m vars
      else SHA1_R (\<lambda>w x y. w XOR x XOR y) 0xca62c1d6 m vars))"

record sha1_object =
  sha1_digest :: sha1_ulongs
  sha1_buf :: "byte list"
  sha1_transforms :: u64

definition sha1_transform :: "u64 list \<Rightarrow> sha1_object \<Rightarrow> sha1_object" where
  "sha1_transform block s =
     (case (fold sha1_op [0..<80] (block, sha1_digest s), sha1_digest s) of
        ((_, a, b, c, d, e), (s0, s1, s2, s3, s4)) \<Rightarrow>
          s\<lparr>sha1_digest := (s0 + a, s1 + b, s2 + c, s3 + d, s4 + e), sha1_transforms := sha1_transforms s + 1\<rparr>)"

text \<open>The shift by 24 is done in \<open>int\<close>, so that the word is extended with the sign.\<close>

definition buffer_to_block :: "byte list \<Rightarrow> u64 list" where
  "buffer_to_block buffer =
     map (\<lambda>i. scast (ucast (buffer ! (4 * i + 3)) OR push_bit 8 (ucast (buffer ! (4 * i + 2))) OR
       push_bit 16 (ucast (buffer ! (4 * i + 1))) OR push_bit 24 (ucast (buffer ! (4 * i + 0))) :: u32)) [0..<16]"

section \<open>The class\<close>

definition sha1_reset :: "sha1_object \<Rightarrow> sha1_object" where
  "sha1_reset s = s\<lparr>sha1_digest := (0x67452301, 0xefcdab89, 0x98badcfe, 0x10325476, 0xc3d2e1f0), sha1_transforms := 0, sha1_buf := []\<rparr>"

text \<open>A stream is its remaining bytes, and whether it is still good; reading past the end makes it bad.\<close>

definition sha1_read :: "byte list \<Rightarrow> nat \<Rightarrow> byte list \<times> byte list \<times> bool" where
  "sha1_read is mx = (take mx is, drop mx is, mx \<le> length is)"

function sha1_update_loop :: "byte list \<Rightarrow> bool \<Rightarrow> sha1_object \<Rightarrow> sha1_object" where
  "sha1_update_loop is good s =
     (if \<not> good then s
      else
        let s = sha1_transform (buffer_to_block (sha1_buf s)) s; (buffer, is', good) = sha1_read is 64
        in sha1_update_loop is' good (s\<lparr>sha1_buf := buffer\<rparr>))"
  by pat_completeness auto
termination
  by (relation "measure (\<lambda>(is, good, _). if good then Suc (length is) else 0)") (auto simp: sha1_read_def)

declare sha1_update_loop.simps [simp del]

definition sha1_update :: "byte list \<Rightarrow> sha1_object \<Rightarrow> sha1_object" where
  "sha1_update is s =
     (let (rest, is, good) = sha1_read is (64 - length (sha1_buf s)) in sha1_update_loop is good (s\<lparr>sha1_buf := sha1_buf s @ rest\<rparr>))"

definition hex8 :: "u64 \<Rightarrow> string" where
  "hex8 w = (let t = radix False 16 (unat w) in replicate (8 - length t) CHR ''0'' @ t)"

definition sha1_final :: "sha1_object \<Rightarrow> string \<times> sha1_object" where
  "sha1_final s =
     (let total_bits = (sha1_transforms s * 64 + of_nat (length (sha1_buf s))) * 8;
          buffer = sha1_buf s @ [0x80];
          orig_size = length buffer;
          buffer = buffer @ replicate (64 - length buffer) 0;
          block = buffer_to_block buffer;
          (block, s) = (if orig_size > 56 then (replicate 14 0 @ drop 14 block, sha1_transform block s) else (block, s));
          block = block[15 := total_bits];
          block = block[14 := drop_bit 32 total_bits];
          s = sha1_transform block s;
          (a, b, c, d, e) = sha1_digest s
      in (concat (map (\<lambda>w. hex8 (w AND 0xffffffff)) [a, b, c, d, e]), sha1_reset s))"

definition chella_sha1 :: "sha1_object \<Rightarrow> byte list \<Rightarrow> string" where
  "chella_sha1 fresh m = fst (sha1_final (sha1_update m (sha1_reset fresh)))"

text \<open>A file that cannot be opened is a stream that is bad from the start: nothing is read.\<close>

definition from_file :: "sha1_object \<Rightarrow> byte list option \<Rightarrow> string" where
  "from_file fresh file =
     (case file of
        Some m \<Rightarrow> chella_sha1 fresh m
      | None \<Rightarrow> fst (sha1_final (sha1_update_loop [] False (sha1_reset fresh))))"

section \<open>Low halves\<close>

abbreviation low :: "u64 \<Rightarrow> u32" where
  "low \<equiv> ucast"

lemma low_plus [simp]: "low (a + b) = low a + low b"
proof -
  have "take_bit 32 (x + y) = take_bit 32 (take_bit 64 x + take_bit 64 y)" for x y :: int
  proof -
    have "take_bit 32 (take_bit 64 x + take_bit 64 y) = take_bit 32 (take_bit 32 (take_bit 64 x) + take_bit 32 (take_bit 64 y))"
      by (simp only: take_bit_add)
    then show ?thesis by (simp add: take_bit_add)
  qed
  then show ?thesis by transfer simp
qed

lemma low_bit_ops [simp]: "low (a AND b) = low a AND low b" "low (a OR b) = low a OR low b" "low (a XOR b) = low a XOR low b"
  by (rule bit_word_eqI; auto simp: bit_simps)+

lemma low_mask: "w AND 0xffffffff = (take_bit 32 w :: u64)"
proof -
  have "(0xffffffff :: u64) = mask 32" by (simp add: mask_eq_exp_minus_1)
  then show ?thesis by (simp only: take_bit_eq_mask)
qed

lemma low_ROL: "bits \<le> 32 \<Longrightarrow> low (SHA1_ROL v bits) = wby_sha1_rol (low v) bits"
  unfolding SHA1_ROL_def low_mask wby_sha1_rol_def by (rule bit_word_eqI) (auto simp: bit_simps)

lemma low_of_nat [simp]: "low (of_nat n) = of_nat n"
  by (simp add: word_unat_eq_iff unat_of_nat unsigned_ucast_eq take_bit_eq_mod mod_mod_cancel)

fun lows :: "sha1_ulongs \<Rightarrow> sha1_vars" where
  "lows (a, b, c, d, e) = (low a, low b, low c, low d, low e)"

section \<open>The rounds are those of the definition\<close>

definition sched_ok :: "byte list \<Rightarrow> nat \<Rightarrow> u64 list \<Rightarrow> bool" where
  "sched_ok bytes n block = (length block = 16 \<and> (\<forall>j. max n 16 - 16 \<le> j \<and> j < max n 16 \<longrightarrow> low (block ! (j mod 16)) = sha1_W bytes j))"

lemma SHA1_BLK_sched:
  assumes "sched_ok bytes n block" "16 \<le> n"
  shows "sched_ok bytes (Suc n) (SHA1_BLK block n)"
proof -
  have w: "low (block ! (j mod 16)) = sha1_W bytes j" if "n - 16 \<le> j" "j < n" for j
    using assms that by (auto simp: sched_ok_def max_def)
  have i: "(n + 13) mod 16 = (n - 3) mod 16" "(n + 8) mod 16 = (n - 8) mod 16" "(n + 2) mod 16 = (n - 14) mod 16" "n mod 16 = (n - 16) mod 16"
  proof -
    have "n + 13 = 16 + (n - 3)" "n + 8 = 16 + (n - 8)" "n + 2 = 16 + (n - 14)" "n = 16 + (n - 16)" using assms(2) by simp_all
    then show "(n + 13) mod 16 = (n - 3) mod 16" "(n + 8) mod 16 = (n - 8) mod 16" "(n + 2) mod 16 = (n - 14) mod 16" "n mod 16 = (n - 16) mod 16"
      by (metis mod_add_self1)+
  qed
  have "low (SHA1_BLK block n ! (n mod 16)) = sha1_W bytes n"
    using assms w [of "n - 3"] w [of "n - 8"] w [of "n - 14"] w [of "n - 16"]
    unfolding SHA1_BLK_def i(1-3) by (subst sha1_W.simps) (simp add: sched_ok_def low_ROL i(4))
  moreover have "low (SHA1_BLK block n ! (j mod 16)) = sha1_W bytes j" if "n - 15 \<le> j" "j < n" for j
  proof -
    have "j mod 16 \<noteq> n mod 16"
    proof
      assume "j mod 16 = n mod 16"
      then have "16 dvd n - j" using that mod_eq_dvd_iff_nat [of j n 16] by simp
      then show False using that by (auto dest: dvd_imp_le)
    qed
    then show ?thesis using w [of j] that by (simp add: SHA1_BLK_def)
  qed
  ultimately show ?thesis using assms
    by (auto simp: sched_ok_def max_def SHA1_BLK_def less_Suc_eq)
qed

lemma sha1_choice2: "(b AND (c XOR d)) XOR d = (b AND c) OR (NOT b AND (d :: u32))"
  by (rule bit_word_eqI) (auto simp: bit_simps)

lemma sha1_majority2: "((b OR c) AND d) OR (b AND c) = (b AND c) OR (b AND d) OR (c AND (d :: u32))"
  by (rule bit_word_eqI) (auto simp: bit_simps)

lemma low_R:
  "lows (SHA1_R f k m (v, w, x, y, z)) =
    (wby_sha1_rol (low v) 5 + low (f w x y) + low z + low k + low m, low v, wby_sha1_rol (low w) 30, low x, low y)"
  by (simp add: SHA1_R_def low_ROL add_ac)

lemma sha1_op_round:
  assumes "sched_ok bytes n block" "n < 80"
  shows "\<exists>block' vars'. sha1_op n (block, vars) = (block', vars') \<and> sched_ok bytes (Suc n) block' \<and> lows vars' = sha1_round bytes n (lows vars)"
proof -
  obtain v w x y z where vars: "vars = (v, w, x, y, z)" by (cases vars)
  define b where "b = (if n < 16 then block else SHA1_BLK block n)"
  have b: "sched_ok bytes (Suc n) b"
  proof (cases "n < 16")
    case True
    then show ?thesis using assms(1) by (auto simp: b_def sched_ok_def max_def)
  next
    case False
    then show ?thesis using SHA1_BLK_sched [OF assms(1)] by (simp add: b_def)
  qed
  then have "low (b ! (n mod 16)) = sha1_W bytes n" by (auto simp: sched_ok_def max_def split: if_splits)
  then have m: "low (b ! (n mod 16)) = sha1_W bytes n" .
  consider "n < 20" | "\<not> n < 20" "n < 40" | "\<not> n < 20" "\<not> n < 40" "n < 60" | "\<not> n < 20" "\<not> n < 40" "\<not> n < 60" by linarith
  then have "lows (snd (sha1_op n (block, vars))) = sha1_round bytes n (lows vars)"
    unfolding sha1_op_def Let_def vars split_conv b_def [symmetric] snd_conv
    by cases (simp_all only: if_True if_False low_R m sha1_round_def sha1_f_def sha1_K_def lows.simps split_conv low_bit_ops sha1_choice2 sha1_majority2 unsigned_numeral, simp_all)
  then show ?thesis using b by (cases "sha1_op n (block, vars)") (auto simp: sha1_op_def Let_def b_def [symmetric])
qed

lemma sha1_ops_rounds:
  assumes "sched_ok bytes 0 block" "n \<le> 80"
  shows "\<exists>block' vars'. fold sha1_op [0..<n] (block, vars) = (block', vars') \<and> sched_ok bytes n block' \<and>
    lows vars' = fold (sha1_round bytes) [0..<n] (lows vars)"
  using assms(2)
proof (induction n)
  case (Suc n)
  then obtain b v where "fold sha1_op [0..<n] (block, vars) = (b, v)" "sched_ok bytes n b" "lows v = fold (sha1_round bytes) [0..<n] (lows vars)"
    by auto
  then show ?case using sha1_op_round [of bytes n b v] Suc.prems by auto
qed (use assms(1) in simp)

lemma transform_compress:
  assumes "sched_ok bytes 0 block"
  shows "lows (sha1_digest (sha1_transform block s)) = sha1_compress (lows (sha1_digest s)) bytes"
    "sha1_transforms (sha1_transform block s) = sha1_transforms s + 1" "sha1_buf (sha1_transform block s) = sha1_buf s"
proof -
  obtain s0 s1 s2 s3 s4 where d: "sha1_digest s = (s0, s1, s2, s3, s4)" by (cases "sha1_digest s")
  obtain b' a b c d' e where f: "fold sha1_op [0..<80] (block, sha1_digest s) = (b', a, b, c, d', e)"
    "lows (a, b, c, d', e) = fold (sha1_round bytes) [0..<80] (lows (sha1_digest s))"
    using sha1_ops_rounds [OF assms, of 80 "sha1_digest s"] by (metis lows.cases order_refl)
  have t: "sha1_transform block s = s\<lparr>sha1_digest := (s0 + a, s1 + b, s2 + c, s3 + d', s4 + e), sha1_transforms := sha1_transforms s + 1\<rparr>"
    using f(1) by (simp add: sha1_transform_def d del: upt_rec_numeral)
  show "lows (sha1_digest (sha1_transform block s)) = sha1_compress (lows (sha1_digest s)) bytes"
    unfolding t using f(2) [symmetric] by (simp add: sha1_compress_def d del: upt_rec_numeral)
  show "sha1_transforms (sha1_transform block s) = sha1_transforms s + 1" "sha1_buf (sha1_transform block s) = sha1_buf s"
    by (simp_all add: t)
qed

section \<open>Streaming\<close>

lemma low_scast: "low (scast (w :: u32)) = w"
  by (rule bit_word_eqI) (auto simp: bit_simps)

lemma buffer_to_block_ok: "length bytes = 64 \<Longrightarrow> sched_ok bytes 0 (buffer_to_block bytes)"
  by (auto simp: sched_ok_def buffer_to_block_def low_scast sha1_W.simps sha1_word_def or.assoc or.commute or.left_commute mult.commute [of _ 4])

text \<open>The object holds the digest of \<open>m\<close> so far, and counts its bytes.\<close>

definition sha1_has :: "sha1_object \<Rightarrow> byte list \<Rightarrow> bool" where
  "sha1_has s m = (sha1_blocks sha1_IV m = (lows (sha1_digest s), sha1_buf s) \<and> sha1_transforms s * 64 + of_nat (length (sha1_buf s)) = of_nat (length m))"

lemma sha1_update_loop_blocks:
  assumes "length (sha1_buf s) = 64"
  shows "\<exists>s'. sha1_update_loop is True s = s' \<and> sha1_blocks (lows (sha1_digest s)) (sha1_buf s @ is) = (lows (sha1_digest s'), sha1_buf s') \<and>
    sha1_transforms s' * 64 + of_nat (length (sha1_buf s')) = sha1_transforms s * 64 + of_nat (length (sha1_buf s @ is))"
  using assms
proof (induction "length is" arbitrary: "is" s rule: less_induct)
  case less
  let ?t = "sha1_transform (buffer_to_block (sha1_buf s)) s"
  note t = transform_compress [OF buffer_to_block_ok [OF less.prems], of s]
  let ?u = "?t\<lparr>sha1_buf := take 64 is\<rparr>"
  have b: "sha1_blocks (lows (sha1_digest s)) (sha1_buf s @ is) = sha1_blocks (lows (sha1_digest ?t)) is"
    using sha1_blocks_full [OF less.prems] t(1) by simp
  have step: "sha1_update_loop is True s = sha1_update_loop (drop 64 is) (64 \<le> length is) ?u"
    by (subst sha1_update_loop.simps) (simp add: sha1_read_def Let_def)
  show ?case
  proof (cases "64 \<le> length is")
    case False
    then have "sha1_update_loop is True s = ?u" unfolding step by (subst sha1_update_loop.simps) simp
    then show ?thesis using False b t(2) less.prems by (simp add: algebra_simps)
  next
    case True
    then have "length (drop 64 is) < length is" "length (sha1_buf ?u) = 64" by simp_all
    from less.hyps [OF this] obtain s' where s': "sha1_update_loop (drop 64 is) True ?u = s'"
      "sha1_blocks (lows (sha1_digest ?t)) is = (lows (sha1_digest s'), sha1_buf s')"
      "sha1_transforms s' * 64 + of_nat (length (sha1_buf s')) = (sha1_transforms s + 1) * 64 + of_nat (length is)"
      using t(2) by auto
    have "sha1_update_loop is True s = s'" using s'(1) True by (simp add: step)
    then show ?thesis using b s'(2,3) less.prems by (simp add: algebra_simps)
  qed
qed

lemma sha1_update_has:
  assumes "sha1_has s m"
  shows "sha1_has (sha1_update is s) (m @ is)"
proof -
  have len: "length (sha1_buf s) < 64"
    using sha1_blocks_rest [of sha1_IV m] assms by (simp add: sha1_has_def)
  let ?n = "64 - length (sha1_buf s)"
  show ?thesis
  proof (cases "?n \<le> length is")
    case False
    then have "sha1_update is s = s\<lparr>sha1_buf := sha1_buf s @ is\<rparr>"
      by (simp add: sha1_update_def sha1_read_def sha1_update_loop.simps)
    then show ?thesis using assms False by (simp add: sha1_has_def sha1_blocks_append [of _ m] flip: add.assoc)
  next
    case True
    let ?s = "s\<lparr>sha1_buf := sha1_buf s @ take ?n is\<rparr>"
    have "length (sha1_buf ?s) = 64" using True len by simp
    from sha1_update_loop_blocks [OF this, of "drop ?n is"]
    obtain s' where s': "sha1_update_loop (drop ?n is) True ?s = s'"
      "sha1_blocks (lows (sha1_digest s)) (sha1_buf s @ is) = (lows (sha1_digest s'), sha1_buf s')"
      "sha1_transforms s' * 64 + of_nat (length (sha1_buf s')) = sha1_transforms s * 64 + of_nat (length (sha1_buf s @ is))"
      using True by auto
    have "sha1_update is s = s'" using True s'(1) by (simp add: sha1_update_def sha1_read_def)
    then show ?thesis using assms s'(2,3) by (simp add: sha1_has_def sha1_blocks_append [of _ m] flip: add.assoc)
  qed
qed

section \<open>The result\<close>

definition hex_bytes :: "byte list \<Rightarrow> string" where
  "hex_bytes bs = concat (map (\<lambda>b. [digit False (unat b div 16), digit False (unat b mod 16)]) bs)"

fun nibbles :: "nat \<Rightarrow> nat \<Rightarrow> string" where
  "nibbles 0 n = []"
| "nibbles (Suc k) n = nibbles k (n div 16) @ [digit False (n mod 16)]"

lemma nibbles_zero: "nibbles k 0 = replicate k CHR ''0''"
  by (induction k) (simp_all add: digit_def replicate_append_same)

lemma radix_nibbles: "0 < k \<Longrightarrow> n < 16 ^ k \<Longrightarrow> length (radix False 16 n) \<le> k \<and> replicate (k - length (radix False 16 n)) CHR ''0'' @ radix False 16 n = nibbles k n"
proof (induction k arbitrary: n)
  case (Suc k)
  show ?case
  proof (cases "n < 16")
    case True
    then show ?thesis by (simp add: radix.simps [of _ _ n] nibbles_zero)
  next
    case False
    then have "k \<noteq> 0" using Suc.prems(2) by (cases k) auto
    moreover have "n div 16 < 16 ^ k" using Suc.prems(2) by (simp add: less_mult_imp_div_less mult.commute)
    ultimately show ?thesis using Suc.IH [of "n div 16"] False by (simp add: radix.simps [of _ _ n])
  qed
qed simp

lemma hex8_bytes: "hex8 (w AND 0xffffffff) = hex_bytes (be_bytes (low w))"
proof -
  define n where "n = unat (low w)"
  have n: "n < 2 ^ 32" unfolding n_def using unsigned_less [of "low w", where 'a = nat] by simp
  have "unat (w AND 0xffffffff) = n" unfolding low_mask n_def by (simp add: unsigned_take_bit_eq unsigned_ucast_eq)
  then have h: "hex8 (w AND 0xffffffff) = nibbles 8 n" using radix_nibbles [of 8 n] n by (simp add: hex8_def Let_def)
  have byte: "unat (ucast (drop_bit k (low w)) :: byte) = n div 2 ^ k mod 256" for k
  proof -
    have "unat (drop_bit k (low w)) = drop_bit k n" unfolding n_def unsigned_drop_bit_eq using n by (simp add: take_bit_nat_eq_self flip: n_def)
    then show ?thesis by (simp only: unsigned_ucast_eq take_bit_eq_mod drop_bit_eq_div) simp
  qed
  have m: "x mod 256 div 16 = x div 16 mod 16" "x mod 256 mod 16 = x mod 16" for x :: nat
    using mod_mult2_eq [of x 16 16] by simp_all
  have d: "x div k div 16 = x div (k * 16)" for x k :: nat by (simp add: div_mult2_eq)
  have "nibbles 8 n = map (\<lambda>k. digit False (n div k mod 16)) [268435456, 16777216, 1048576, 65536, 4096, 256, 16, 1]"
  proof -
    have e: "(8 :: nat) = Suc (Suc (Suc (Suc (Suc (Suc (Suc (Suc 0)))))))" by simp
    show ?thesis unfolding e by (simp add: d)
  qed
  then show ?thesis unfolding h hex_bytes_def be_bytes_def by (simp add: byte byte [of 0, simplified] m d)
qed

lemma be_join:
  fixes h :: u32
  shows "push_bit 24 (ucast (ucast (drop_bit 24 h) :: byte)) OR push_bit 16 (ucast (ucast (drop_bit 16 h) :: byte)) OR
    push_bit 8 (ucast (ucast (drop_bit 8 h) :: byte)) OR ucast (ucast h :: byte) = h" (is "?x = h")
proof (rule bit_word_eqI)
  fix n
  show "bit ?x n = bit h n" if "n < LENGTH(32)"
    using that by (cases "n < 8"; cases "n < 16"; cases "n < 24") (auto simp: bit_simps)
qed

lemma sha1_word_be: "sha1_word (xs @ be_bytes h @ ys) (length xs div 4) = h" if "4 dvd length xs"
proof -
  have "length xs div 4 * 4 = length xs" using that by simp
  then show ?thesis using be_join [of h] by (simp add: sha1_word_def nth_append be_bytes_def)
qed

text \<open>The last block: 56 bytes and the count of bits.\<close>

lemma last_block_ok:
  assumes "length xs = 56" "n < 2 ^ 64"
  shows "sched_ok (xs @ be_bytes (of_nat (n div 2 ^ 32)) @ be_bytes (of_nat n)) 0
    ((buffer_to_block (xs @ ys))[15 := of_nat n, 14 := drop_bit 32 (of_nat n)])"
proof -
  let ?b = "xs @ be_bytes (of_nat (n div 2 ^ 32)) @ be_bytes (of_nat n)"
  have hi: "low (drop_bit 32 (of_nat n)) = of_nat (n div 2 ^ 32)"
  proof -
    have "(of_nat (n div 2 ^ 32) :: u64) = drop_bit 32 (of_nat n)"
    proof -
      have "unat (of_nat n :: u64) = n" "unat (of_nat (n div 2 ^ 32) :: u64) = n div 2 ^ 32" using assms(2) by (simp_all add: unat_of_nat)
      moreover from this have "unat (drop_bit 32 (of_nat n :: u64)) = n div 2 ^ 32"
        unfolding unsigned_drop_bit_eq using assms(2) by (simp add: take_bit_nat_eq_self drop_bit_eq_div)
      ultimately show ?thesis unfolding word_unat_eq_iff by simp
    qed
    then show ?thesis by (metis low_of_nat)
  qed
  have w: "sha1_word ?b 14 = of_nat (n div 2 ^ 32)" "sha1_word ?b 15 = of_nat n"
    using sha1_word_be [of xs] sha1_word_be [of "xs @ be_bytes (of_nat (n div 2 ^ 32))" "of_nat n" "[]"] assms(1)
    by (simp_all add: be_bytes_def)
  have "sha1_word ?b j = sha1_word (xs @ ys) j" if "j < 14" for j
    using that assms(1) by (simp add: sha1_word_def nth_append)
  then show ?thesis using hi w
    by (auto simp: sched_ok_def sha1_W.simps nth_list_update buffer_to_block_def low_scast sha1_word_def
      or.assoc or.commute or.left_commute mult.commute [of _ 4])
qed

lemma sha1_final_has:
  assumes "sha1_has s m" "8 * length m < 2 ^ 64"
  shows "fst (sha1_final s) = hex_bytes (Mumux_Sha.sha1 m)"
proof -
  define st r where "st = lows (sha1_digest s)" and "r = sha1_buf s"
  then have s: "lows (sha1_digest s) = st" "sha1_buf s = r" by simp_all
  have blocks: "sha1_blocks sha1_IV m = (st, r)" and "sha1_transforms s * 64 + of_nat (length r) = of_nat (length m)"
    using assms(1) by (simp_all add: sha1_has_def s)
  then have bits: "(sha1_transforms s * 64 + of_nat (length r)) * 8 = of_nat (8 * length m)" by (simp only: of_nat_mult of_nat_numeral mult.commute)
  have r: "length r < 64" "length m mod 64 = length r" using sha1_blocks_rest [of sha1_IV m] blocks by simp_all
  let ?c = "be_bytes (of_nat (8 * length m div 2 ^ 32)) @ be_bytes (of_nat (8 * length m))"
  let ?z = "(119 - length r) mod 64"
  have c: "length ?c = 8" by (simp add: be_bytes_def)
  have padded: "sha1_blocks sha1_IV (sha1_padded m) = sha1_blocks st (r @ [0x80] @ replicate ?z 0 @ ?c)"
    unfolding sha1_padded_def sha1_blocks_append [of _ m] blocks r(2) by simp
  have out: "fst (sha1_final s) = hex_bytes (Mumux_Sha.sha1 m)"
    if t: "lows (sha1_digest t) = fst (sha1_blocks sha1_IV (sha1_padded m))"
      "fst (sha1_final s) = (case sha1_digest t of (a, b, c, d, e) \<Rightarrow> concat (map (\<lambda>w. hex8 (w AND 0xffffffff)) [a, b, c, d, e]))" for t
  proof -
    obtain a b c d e where "sha1_digest t = (a, b, c, d, e)" by (cases "sha1_digest t")
    then show ?thesis using t(1) [symmetric] t(2) by (simp add: Mumux_Sha.sha1_def sha1_IV_def hex8_bytes hex_bytes_def)
  qed
  show ?thesis
  proof (cases "length r < 56")
    case True
    let ?x = "r @ [0x80] @ replicate (55 - length r) 0"
    have z: "?z = 55 - length r" using True by (simp add: mod_if)
    have pad: "r @ [0x80] @ replicate (64 - Suc (length r)) 0 = ?x @ replicate 8 0"
      using True by (simp add: replicate_add [symmetric])
    let ?t = "sha1_transform ((buffer_to_block (?x @ replicate 8 0))[15 := of_nat (8 * length m), 14 := drop_bit 32 (of_nat (8 * length m))]) s"
    have "lows (sha1_digest ?t) = sha1_compress st (?x @ ?c)"
      using transform_compress(1) [OF last_block_ok [of ?x "8 * length m" "replicate 8 0"], of s] assms(2) True s(1) by simp
    moreover have "fst (sha1_blocks sha1_IV (sha1_padded m)) = sha1_compress st (?x @ ?c)"
      using sha1_blocks_full [of "?x @ ?c" st "[]"] c True by (simp add: padded z)
    moreover have "fst (sha1_final s) = (case sha1_digest ?t of (a, b, c, d, e) \<Rightarrow> concat (map (\<lambda>w. hex8 (w AND 0xffffffff)) [a, b, c, d, e]))"
      using True bits pad by (simp add: sha1_final_def s(2) Let_def split: prod.split)
    ultimately show ?thesis by (intro out [of ?t]) simp_all
  next
    case False
    let ?x = "r @ [0x80] @ replicate (63 - length r) 0"
    have z: "replicate ?z 0 = replicate (63 - length r) 0 @ replicate 56 (0 :: byte)"
      using False r(1) by (simp add: replicate_add [symmetric] mod_if)
    let ?s = "sha1_transform (buffer_to_block ?x) s"
    let ?b = "replicate 14 0 @ drop 14 (buffer_to_block ?x)"
    let ?t = "sha1_transform (?b[15 := of_nat (8 * length m), 14 := drop_bit 32 (of_nat (8 * length m))]) ?s"
    have x: "length ?x = 64" using False r(1) by simp
    have "?b[15 := w, 14 := v] = (buffer_to_block (replicate 56 0 @ replicate 8 0))[15 := w, 14 := v]" for v w
      by (rule nth_equalityI) (auto simp: buffer_to_block_def nth_append nth_list_update less_Suc_eq numeral_eq_Suc)
    then have "lows (sha1_digest ?t) = sha1_compress (sha1_compress st ?x) (replicate 56 0 @ ?c)"
      using transform_compress(1) [OF last_block_ok [of "replicate 56 0" "8 * length m" "replicate 8 0"], of ?s]
        transform_compress(1) [OF buffer_to_block_ok [OF x], of s] assms(2) s(1) by simp
    moreover have "fst (sha1_blocks sha1_IV (sha1_padded m)) = sha1_compress (sha1_compress st ?x) (replicate 56 0 @ ?c)"
      using sha1_blocks_full [OF x, of st "replicate 56 0 @ ?c"] sha1_blocks_full [of "replicate 56 0 @ ?c" "sha1_compress st ?x" "[]"] c
      by (simp add: padded z)
    moreover have "fst (sha1_final s) = (case sha1_digest ?t of (a, b, c, d, e) \<Rightarrow> concat (map (\<lambda>w. hex8 (w AND 0xffffffff)) [a, b, c, d, e]))"
      using False bits by (simp add: sha1_final_def s(2) Let_def split: prod.split)
    ultimately show ?thesis by (intro out [of ?t]) simp_all
  qed
qed

text \<open>So a missing file has the digest of an empty one.\<close>

lemma from_file_missing: "from_file fresh None = hex_bytes (Mumux_Sha.sha1 [])"
proof -
  have "sha1_has (sha1_reset fresh) []" by (simp add: sha1_has_def sha1_reset_def sha1_IV_def)
  then show ?thesis using sha1_final_has by (simp add: from_file_def sha1_update_loop.simps)
qed

text \<open>C33. The class computes SHA-1: for a message below \<open>2^61\<close> bytes that is fed in any pieces, \<open>final\<close> returns the hexadecimal
  digits of the digest that FIPS 180 defines, although the words have garbage in their upper halves, and the object can be
  used again.\<close>

theorem sha1_class_correct:
  assumes "length (concat ds) < 2 ^ 61"
  shows "fst (sha1_final (fold sha1_update ds (sha1_reset s))) = hex_bytes (Mumux_Sha.sha1 (concat ds)) \<and>
    snd (sha1_final (fold sha1_update ds (sha1_reset s))) = sha1_reset s"
proof -
  have "sha1_has (fold sha1_update ds t) (m @ concat ds)" if "sha1_has t m" for t m
    using that
  proof (induction ds arbitrary: t m)
    case (Cons d ds)
    then show ?case using Cons.IH [OF sha1_update_has [OF Cons.prems], of d] by simp
  qed simp
  moreover have "sha1_has (sha1_reset s) []" by (simp add: sha1_has_def sha1_reset_def sha1_IV_def)
  ultimately have "sha1_has (fold sha1_update ds (sha1_reset s)) (concat ds)" by fastforce
  moreover have "sha1_reset t = sha1_reset s" for t by (simp add: sha1_reset_def)
  ultimately show ?thesis using sha1_final_has assms by (simp add: sha1_final_def Let_def split: prod.split)
qed

theorem sha1_class_correct_witness:
  "chella_sha1 \<lparr>sha1_digest = (0, 0, 0, 0, 0), sha1_buf = [1], sha1_transforms = 7\<rparr> [0x61, 0x62, 0x63] =
    hex_bytes (Mumux_Sha.sha1 [0x61, 0x62, 0x63])"
  using sha1_class_correct [of "[[0x61, 0x62, 0x63]]" "\<lparr>sha1_digest = (0, 0, 0, 0, 0), sha1_buf = [1], sha1_transforms = 7\<rparr>"]
  by (simp add: chella_sha1_def)

end
