(* ===== verification/Chella_Wal.thy ===== *)
theory Chella_Wal
  imports Stdio
begin

text \<open>
  \<open>chella/wal.cpp\<close>: the log that a worker keeps of the job it runs, and the recovery of jobs from the logs that are left. The log
  is one structure of 152 bytes and the name of the job, written anew at every checkpoint.
\<close>

section \<open>Jobs\<close>

record job_parameter =
  jobid :: u32
  jobpartition :: u32
  jobpartition_count :: u32
  jobname :: string
  jobquid :: string
  jobparent :: string
  jobdata :: string
  jobstate :: u32

definition SPAWN :: u32 where "SPAWN = 0"
definition PARTITION :: u32 where "PARTITION = 1"
definition FUNNEL :: u32 where "FUNNEL = 2"

definition NIL :: u32 where "NIL = 0"
definition INIT :: u32 where "INIT = 1"
definition LOAD :: u32 where "LOAD = 2"
definition INJECT :: u32 where "INJECT = 3"
definition SETUP_ONCE :: u32 where "SETUP_ONCE = 4"
definition SETUP :: u32 where "SETUP = 5"
definition RUN :: u32 where "RUN = 6"
definition TEARDOWN :: u32 where "TEARDOWN = 7"
definition TEARDOWN_ONCE :: u32 where "TEARDOWN_ONCE = 8"
definition PULLCHAIN :: u32 where "PULLCHAIN = 9"

section \<open>The log\<close>

definition LOG_MAGIC :: string where
  "LOG_MAGIC = ''WALU41Q''"

definition WALDIR :: string where
  "WALDIR = ''var/wald''"

definition PKGDIR :: string where
  "PKGDIR = ''var/package''"

record wal =
  wal_file :: disk_file
  wal_module :: string
  wal_job :: job_parameter
  wal_checkpoint :: u32

definition walname :: "u32 \<Rightarrow> string \<Rightarrow> string" where
  "walname wid quid =
     WALDIR @ ''/'' @ quid @ (let t = decimal (unat wid) in replicate (6 - length t) CHR ''0'' @ t) @ ''.wlog''"

text \<open>\<open>strncpy\<close> into a field of zeros.\<close>

definition strncpy_field :: "string \<Rightarrow> nat \<Rightarrow> char list" where
  "strncpy_field s n = take n (cstr s @ replicate n nul)"

text \<open>The structure: magic at 0, module at 8, identifiers at 48 and 84, the two counters at 120, and seven numbers from 124 on. It
  is cleared before its fields are set, also its counter of failures, which a new one has at 1.\<close>

definition wal_header :: "bool \<Rightarrow> u32 \<Rightarrow> wal \<Rightarrow> char list" where
  "wal_header isDone now w =
     (let j = wal_job w in
      LOG_MAGIC @ [nul] @ strncpy_field (wal_module w) 40 @ strncpy_field (jobquid j) 36 @ strncpy_field (jobparent j) 36 @
      [nul, if isDone then char_of (1 :: nat) else nul] @ [nul, nul] @
      le_chars 4 (unat (jobid j)) @ le_chars 4 (unat (jobpartition j)) @ le_chars 4 (unat (jobpartition_count j)) @
      le_chars 4 (unat (jobstate j)) @ le_chars 4 (length (jobname j)) @ le_chars 4 (unat now) @ le_chars 4 (unat (wal_checkpoint w)))"

definition commit :: "bool \<Rightarrow> u32 \<Rightarrow> wal \<Rightarrow> wal" where
  "commit isDone now w = w\<lparr>wal_file := fwrite (jobname (wal_job w)) (fwrite (wal_header isDone now w) (fseek_set 0 (wal_file w)))\<rparr>"

definition setCheckpoint :: "u32 \<Rightarrow> u32 \<Rightarrow> wal \<Rightarrow> wal" where
  "setCheckpoint c now w = commit False now (w\<lparr>wal_checkpoint := c\<rparr>)"

definition markDone :: "u32 \<Rightarrow> wal \<Rightarrow> wal" where
  "markDone now w = commit True now w"

text \<open>The constructor, told whether the file could be made; \<open>None\<close> is an assertion that fails or a stream that is not there.\<close>

definition Wal :: "bool \<Rightarrow> u32 \<Rightarrow> string \<Rightarrow> job_parameter \<Rightarrow> wal option" where
  "Wal fopen_ok now name param =
     (if length name \<noteq> 40 \<or> length (jobquid param) \<noteq> 36 \<or> \<not> fopen_ok then None
      else Some (commit False now \<lparr>wal_file = fopen_w, wal_module = name, wal_job = param, wal_checkpoint = NIL\<rparr>))"

section \<open>Recovery\<close>

definition checkpoint_score :: "u32 \<Rightarrow> int" where
  "checkpoint_score c =
     (if c = NIL then 30 else if c = INIT then 20 else if c = LOAD then 10 else if c = INJECT then 20
      else if c = SETUP_ONCE then 15 else if c = SETUP then 10 else if c = RUN then 5 else if c = TEARDOWN then 20
      else if c = TEARDOWN_ONCE then 25 else if c = PULLCHAIN then 30 else 0)"

definition jobstate_score :: "u32 \<Rightarrow> int" where
  "jobstate_score s = (if s = SPAWN then 15 else if s = PARTITION then 20 else if s = FUNNEL then 10 else 0)"

definition recovery_likeliness :: "nat \<Rightarrow> bool \<Rightarrow> u32 \<Rightarrow> u32 \<Rightarrow> int" where
  "recovery_likeliness failcount module_exists c s =
     (let l = 50; l = l - int failcount * -10; l = (if module_exists then l else l - 75); l = l + checkpoint_score c
      in l + jobstate_score s)"

datatype rollback_result = Cannot_read | Magic_error | Marked_done | Gave_up | Recovered string job_parameter

text \<open>The file, if it can be opened, what packages there are, and the memory the name of the job is read into. \<open>None\<close> is an
  allocation of a negative size.\<close>

definition rollback :: "(nat \<Rightarrow> char) \<Rightarrow> (string \<Rightarrow> bool) \<Rightarrow> disk_file option \<Rightarrow> rollback_result option" where
  "rollback junk file_exist file =
     (case file of
        None \<Rightarrow> Some Cannot_read
      | Some d \<Rightarrow>
          let (cs, d) = fread 152 (fseek_set 0 d); header = overwrite (replicate 152 nul) cs in
          if cstr header \<noteq> LOG_MAGIC then Some Magic_error
          else if header ! 121 \<noteq> nul then Some Marked_done
          else
            let module = take 40 (drop 8 header);
                score = recovery_likeliness (of_char (header ! 120)) (file_exist (cstr (PKGDIR @ ''/'' @ module))) (u32_at 148 header) (u32_at 136 header);
                jobname_size = sint (u32_at 140 header)
            in
            if jobname_size < 0 then None
            else
              let (cs, d) = fread (nat jobname_size) d; namebuf = overwrite (map junk [0..<nat jobname_size]) cs in
              if score < 40 then Some Gave_up
              else
                Some (Recovered module
                  \<lparr>jobid = u32_at 124 header, jobpartition = u32_at 128 header, jobpartition_count = u32_at 132 header,
                   jobname = cstr namebuf, jobquid = take 36 (drop 48 header), jobparent = take 36 (drop 84 header), jobdata = [],
                   jobstate = u32_at 136 header\<rparr>))"

section \<open>What was logged\<close>

definition job_ok :: "string \<Rightarrow> job_parameter \<Rightarrow> bool" where
  "job_ok name j \<longleftrightarrow>
     length name = 40 \<and> nul_free name \<and> length (jobquid j) = 36 \<and> nul_free (jobquid j) \<and> length (jobparent j) = 36 \<and> nul_free (jobparent j) \<and>
     nul_free (jobname j) \<and> length (jobname j) < 2 ^ 31 \<and> jobstate j \<in> {SPAWN, PARTITION, FUNNEL}"

lemma strncpy_field_full: "length s = n \<Longrightarrow> nul_free s \<Longrightarrow> strncpy_field s n = s"
  by (simp add: strncpy_field_def)

lemma wal_header_fields:
  fixes isDone :: bool and now :: u32
  assumes "job_ok (wal_module w) (wal_job w)"
  defines "h \<equiv> wal_header isDone now w"
  shows "length h = 152" "cstr h = LOG_MAGIC" "h ! 120 = nul" "h ! 121 = (if isDone then char_of (1 :: nat) else nul)"
    "take 40 (drop 8 h) = wal_module w" "take 36 (drop 48 h) = jobquid (wal_job w)" "take 36 (drop 84 h) = jobparent (wal_job w)"
    "u32_at 124 h = jobid (wal_job w)" "u32_at 128 h = jobpartition (wal_job w)" "u32_at 132 h = jobpartition_count (wal_job w)"
    "u32_at 136 h = jobstate (wal_job w)" "u32_at 140 h = of_nat (length (jobname (wal_job w)))" "u32_at 148 h = wal_checkpoint w"
proof -
  have f: "strncpy_field (wal_module w) 40 = wal_module w" "strncpy_field (jobquid (wal_job w)) 36 = jobquid (wal_job w)"
    "strncpy_field (jobparent (wal_job w)) 36 = jobparent (wal_job w)" and l: "length (wal_module w) = 40" "length (jobquid (wal_job w)) = 36"
    "length (jobparent (wal_job w)) = 36" "length (jobname (wal_job w)) < 2 ^ 31"
    using assms(1) by (auto simp: job_ok_def strncpy_field_full)
  have v: "le_val (le_chars 4 (unat x)) = unat x" for x :: u32
    using unsigned_less [of x, where 'a = nat] by (simp add: le_val_chars)
  have "nul_free LOG_MAGIC" by (simp add: LOG_MAGIC_def)
  then show "cstr h = LOG_MAGIC" by (simp add: h_def wal_header_def Let_def)
  show "length h = 152" "h ! 120 = nul" "h ! 121 = (if isDone then char_of (1 :: nat) else nul)"
    "take 40 (drop 8 h) = wal_module w" "take 36 (drop 48 h) = jobquid (wal_job w)" "take 36 (drop 84 h) = jobparent (wal_job w)"
    "u32_at 124 h = jobid (wal_job w)" "u32_at 128 h = jobpartition (wal_job w)" "u32_at 132 h = jobpartition_count (wal_job w)"
    "u32_at 136 h = jobstate (wal_job w)" "u32_at 148 h = wal_checkpoint w"
    using l unfolding h_def wal_header_def Let_def f u32_at_def by (simp_all add: LOG_MAGIC_def v nth_append)
  show "u32_at 140 h = of_nat (length (jobname (wal_job w)))"
    using l unfolding h_def wal_header_def Let_def f u32_at_def by (simp add: LOG_MAGIC_def le_val_chars)
qed

text \<open>The file of a log: the structure of its last commit, and the name.\<close>

definition wal_written :: "bool \<Rightarrow> wal \<Rightarrow> bool" where
  "wal_written isDone w \<longleftrightarrow>
     (\<exists>now. rd (f_bytes (wal_file w)) 0 152 = wal_header isDone now w) \<and>
     rd (f_bytes (wal_file w)) 152 (length (jobname (wal_job w))) = jobname (wal_job w) \<and>
     152 + length (jobname (wal_job w)) \<le> f_size (wal_file w)"

lemma commit_written:
  assumes "job_ok (wal_module w) (wal_job w)"
  shows "wal_written isDone (commit isDone now w)"
proof -
  have h: "wal_header isDone now (w\<lparr>wal_file := d\<rparr>) = wal_header isDone now w" for d by (simp add: wal_header_def)
  have "length (wal_header isDone now w) = 152" by (rule wal_header_fields [OF assms])
  then show ?thesis by (auto simp: wal_written_def commit_def h rd_wr_other rd_wr_same intro!: exI [of _ now])
qed

lemma score_threshold:
  assumes "c \<le> PULLCHAIN" "s \<in> {SPAWN, PARTITION, FUNNEL}"
  shows "recovery_likeliness 0 module_exists c s < 40 \<longleftrightarrow> \<not> module_exists"
proof -
  have "unat c \<le> 9" using assms(1) by (simp add: PULLCHAIN_def word_le_nat_alt)
  then have "c \<in> of_nat ` {..9}" by (intro image_eqI [of _ _ "unat c"]) auto
  then have "c \<in> {NIL, INIT, LOAD, INJECT, SETUP_ONCE, SETUP, RUN, TEARDOWN, TEARDOWN_ONCE, PULLCHAIN}"
    by (auto simp: NIL_def INIT_def LOAD_def INJECT_def SETUP_ONCE_def SETUP_def RUN_def TEARDOWN_def TEARDOWN_ONCE_def PULLCHAIN_def atMost_nat_numeral atMost_Suc numeral_eq_Suc)
  then have "5 \<le> checkpoint_score c \<and> checkpoint_score c \<le> 30" by (auto simp: checkpoint_score_def)
  moreover have "10 \<le> jobstate_score s \<and> jobstate_score s \<le> 20" using assms(2) by (auto simp: jobstate_score_def)
  ultimately show ?thesis by (auto simp: recovery_likeliness_def)
qed

lemma rollback_written:
  assumes ok: "job_ok (wal_module w) (wal_job w)" and wr: "wal_written isDone w" and c: "wal_checkpoint w \<le> PULLCHAIN"
  shows "rollback junk file_exist (Some (wal_file w)) =
    Some (if isDone then Marked_done
      else if file_exist (PKGDIR @ ''/'' @ wal_module w) then Recovered (wal_module w) ((wal_job w)\<lparr>jobdata := []\<rparr>)
      else Gave_up)"
proof -
  let ?d = "wal_file w" and ?n = "length (jobname (wal_job w))"
  obtain now where h: "rd (f_bytes ?d) 0 152 = wal_header isDone now w" and n: "rd (f_bytes ?d) 152 ?n = jobname (wal_job w)" "152 + ?n \<le> f_size ?d"
    using wr by (auto simp: wal_written_def)
  note fields = wal_header_fields [OF ok, of isDone now]
  have j: "?n < 2 ^ 31" "nul_free (jobname (wal_job w))" "jobstate (wal_job w) \<in> {SPAWN, PARTITION, FUNNEL}" "nul_free (wal_module w)"
    using ok by (auto simp: job_ok_def)
  have "unat (of_nat ?n :: u32) = ?n" using j(1) by (simp add: unat_of_nat take_bit_nat_eq_self)
  then have size: "sint (of_nat ?n :: u32) = int ?n" using sint_small [of "of_nat ?n"] j(1) by simp
  have pkg: "cstr (PKGDIR @ ''/'' @ wal_module w) = PKGDIR @ ''/'' @ wal_module w" using j(4) by (simp add: PKGDIR_def)
  have r1: "fread 152 (fseek_set 0 ?d) = (wal_header isDone now w, ?d\<lparr>f_pos := 152\<rparr>)"
    using fread_inside [of "fseek_set 0 ?d" 152] n(2) h by (simp add: fseek_set_def)
  have r2: "fread ?n (?d\<lparr>f_pos := 152\<rparr>) = (jobname (wal_job w), ?d\<lparr>f_pos := 152 + ?n\<rparr>)"
    using fread_inside [of "?d\<lparr>f_pos := 152\<rparr>" ?n] n by simp
  have eta: "\<lparr>jobid = jobid j, jobpartition = jobpartition j, jobpartition_count = jobpartition_count j, jobname = jobname j, jobquid = jobquid j,
      jobparent = jobparent j, jobdata = [], jobstate = jobstate j\<rparr> = j\<lparr>jobdata := []\<rparr>" for j by (cases j) simp
  have "char_of (1 :: nat) \<noteq> nul" by code_simp
  then show ?thesis using j(2) fields score_threshold [OF c j(3)] size
    by (simp add: rollback_def r1 r2 Let_def overwrite_def pkg [simplified] eta)
qed



text \<open>A counter of failures would raise the score, not lower it; and a parent of another length than 36 does not come back.\<close>

lemma failcount_raises: "m < n \<Longrightarrow> recovery_likeliness m e c s < recovery_likeliness n e c s"
  by (simp add: recovery_likeliness_def Let_def)

lemma parent_padded: "strncpy_field [] 36 = replicate 36 nul"
  by (simp add: strncpy_field_def cstr_def)

end
