(* ===== verification/Extract_Ruler.thy ===== *)
theory Extract_Ruler
  imports Prelude
begin

text \<open>
  \<open>extract/ruler.cpp\<close> and the part of \<open>extract/extractor.cpp\<close> that uses it: which rule of the configuration decides what happens to a
  piece of scraped data. The rules come from a generated parser, and what kind of data it is from a library; both are parameters.
\<close>

section \<open>Rules\<close>

datatype node_type = MIME | CATEGORY | EXTENSION | TYPE_RULE | UNKNOWN

text \<open>The tokens of the parser: the four actions, and any other number.\<close>

datatype rule_action = LOG | STORE | DISCARD | QUEUE | OTHER_TOKEN

type_synonym action_node = "rule_action list"

record rule_node =
  nodeType :: node_type
  nodeName :: string
  actionList :: "action_node option"

text \<open>A rule without a name leaves that pointer as it was; one with a name loses its quotes. \<open>None\<close> is the exception of a name
  that is empty, or a single quote.\<close>

definition RuleNode_unnamed :: "node_type \<Rightarrow> string \<Rightarrow> action_node option \<Rightarrow> rule_node" where
  "RuleNode_unnamed type junk acts = \<lparr>nodeType = type, nodeName = junk, actionList = acts\<rparr>"

definition RuleNode :: "node_type \<Rightarrow> string \<Rightarrow> action_node option \<Rightarrow> rule_node option" where
  "RuleNode type name acts =
     (case name of
        [] \<Rightarrow> None
      | c # rest \<Rightarrow>
          if c = CHR 0x27 \<or> c = CHR 0x22
          then (if rest = [] then None else Some \<lparr>nodeType = type, nodeName = butlast rest, actionList = acts\<rparr>)
          else Some \<lparr>nodeType = type, nodeName = name, actionList = acts\<rparr>)"

record ruler =
  m_Ruleset :: "rule_node list option"
  m_ActionList :: "action_node option"
  payload :: bool

definition Ruler :: "rule_node list option \<Rightarrow> ruler" where
  "Ruler ruleset = \<lparr>m_Ruleset = ruleset, m_ActionList = None, payload = False\<rparr>"

definition verifyRules :: "rule_node list option \<Rightarrow> bool" where
  "verifyRules ruleset =
     (case ruleset of
        None \<Rightarrow> False
      | Some rs \<Rightarrow>
          (case find (\<lambda>rule. nodeType rule = UNKNOWN) rs of None \<Rightarrow> False | Some _ \<Rightarrow> length rs \<noteq> 0))"

definition ruler_match :: "node_type \<Rightarrow> string \<Rightarrow> ruler \<Rightarrow> bool \<times> ruler" where
  "ruler_match type name r =
     (case m_Ruleset r of
        None \<Rightarrow> (False, r)
      | Some rs \<Rightarrow>
          (case find (\<lambda>rule. nodeType rule = type) rs of
             None \<Rightarrow> (False, r)
           | Some rule \<Rightarrow>
               if nodeType rule \<noteq> UNKNOWN \<and> nodeName rule \<noteq> name then (False, r)
               else (True, r\<lparr>m_ActionList := actionList rule\<rparr>)))"

definition hasActionList :: "ruler \<Rightarrow> bool" where
  "hasActionList r \<longleftrightarrow> m_ActionList r \<noteq> None"

text \<open>The actions that run, in their order; \<open>None\<close> is a null pointer: no list of actions, or a token that is no action.\<close>

definition runRuleActions :: "ruler \<Rightarrow> (action_node \<times> ruler) option" where
  "runRuleActions r =
     (if \<not> payload r then Some ([], r)
      else
        let r = (if m_ActionList r = None then snd (ruler_match UNKNOWN [] r) else r) in
        (case m_ActionList r of
           None \<Rightarrow> None
         | Some acts \<Rightarrow> if OTHER_TOKEN \<in> set acts then None else Some (acts, r)))"

section \<open>Data\<close>

definition category :: "string \<Rightarrow> string" where
  "category mimetype = takeWhile (\<lambda>c. c \<noteq> slash) mimetype"

datatype data_type = PLAIN | FILE | BINARY | STREAM

fun type_name :: "data_type \<Rightarrow> string" where
  "type_name PLAIN = ''plain''"
| "type_name FILE = ''file''"
| "type_name BINARY = ''binary''"
| "type_name STREAM = ''stream''"

text \<open>\<open>parseData\<close>, given the type the library found, if any, the extension and the type of the data.\<close>

definition parseData :: "rule_node list option \<Rightarrow> string option \<Rightarrow> string \<Rightarrow> data_type \<Rightarrow> (action_node \<times> ruler) option" where
  "parseData commonRuleset mime extension type =
     (let r = Ruler commonRuleset;
          r = (case mime of
                 None \<Rightarrow> r
               | Some mt \<Rightarrow> (let (ok, r) = ruler_match MIME mt r in if ok then r else snd (ruler_match CATEGORY (category mt) r)));
          r = (if \<not> hasActionList r \<and> extension \<noteq> [] then snd (ruler_match EXTENSION extension r) else r);
          r = (if \<not> hasActionList r then snd (ruler_match TYPE_RULE (type_name type) r) else r);
          r = r\<lparr>payload := True\<rparr>
      in runRuleActions r)"

section \<open>The rule that decides\<close>

text \<open>What is known about the data, the most accurate first.\<close>

definition features :: "string option \<Rightarrow> string \<Rightarrow> data_type \<Rightarrow> (node_type \<times> string) list" where
  "features mime extension type =
     (case mime of None \<Rightarrow> [] | Some mt \<Rightarrow> [(MIME, mt), (CATEGORY, category mt)]) @
     (if extension = [] then [] else [(EXTENSION, extension)]) @ [(TYPE_RULE, type_name type)]"

text \<open>Of the rules for one kind of feature only the first one counts.\<close>

definition first_of :: "rule_node list \<Rightarrow> node_type \<Rightarrow> rule_node option" where
  "first_of rs type = find (\<lambda>rule. nodeType rule = type) rs"

definition applies :: "rule_node list \<Rightarrow> node_type \<times> string \<Rightarrow> bool" where
  "applies rs f = (case first_of rs (fst f) of None \<Rightarrow> False | Some rule \<Rightarrow> nodeName rule = snd f)"

definition deciding_rule :: "rule_node list \<Rightarrow> (node_type \<times> string) list \<Rightarrow> rule_node option" where
  "deciding_rule rs fs = (case find (applies rs) fs of None \<Rightarrow> first_of rs UNKNOWN | Some f \<Rightarrow> first_of rs (fst f))"

definition rules_ok :: "rule_node list \<Rightarrow> bool" where
  "rules_ok rs \<longleftrightarrow> list_all (\<lambda>rule. case actionList rule of None \<Rightarrow> False | Some acts \<Rightarrow> OTHER_TOKEN \<notin> set acts) rs"

lemma rule_actions:
  assumes "rules_ok rs" "first_of rs type = Some rule"
  shows "\<exists>acts. actionList rule = Some acts \<and> OTHER_TOKEN \<notin> set acts"
proof -
  have "rule \<in> set rs" using assms(2) by (auto simp: first_of_def find_Some_iff)
  then show ?thesis using assms(1) by (auto simp: rules_ok_def list_all_iff split: option.splits)
qed

lemma match_named:
  assumes "type \<noteq> UNKNOWN" "m_Ruleset r = Some rs"
  shows "ruler_match type name r =
    (if applies rs (type, name) then (True, r\<lparr>m_ActionList := actionList (the (first_of rs type))\<rparr>) else (False, r))"
proof (cases "first_of rs type")
  case None
  then show ?thesis using assms(2) by (simp add: ruler_match_def applies_def first_of_def)
next
  case (Some rule)
  then have "nodeType rule = type" by (auto simp: first_of_def find_Some_iff)
  then show ?thesis using assms Some by (simp add: ruler_match_def applies_def first_of_def)
qed

lemma run_rule:
  assumes "rules_ok rs" "first_of rs type = Some rule" "payload r" "m_ActionList r = actionList rule"
  shows "runRuleActions r = Some (the (actionList rule), r)"
  using rule_actions [OF assms(1,2)] assms(3,4) by (auto simp: runRuleActions_def)

lemma run_unknown:
  assumes "rules_ok rs" "first_of rs UNKNOWN = Some rule" "payload r" "m_ActionList r = None" "m_Ruleset r = Some rs"
  shows "\<exists>r'. runRuleActions r = Some (the (actionList rule), r')"
proof -
  have "nodeType rule = UNKNOWN" using assms(2) by (auto simp: first_of_def find_Some_iff)
  then have "ruler_match UNKNOWN [] r = (True, r\<lparr>m_ActionList := actionList rule\<rparr>)"
    using assms(2,5) by (simp add: ruler_match_def first_of_def)
  then show ?thesis using rule_actions [OF assms(1,2)] assms(3,4) by (auto simp: runRuleActions_def)
qed

lemma applies_first: "applies rs (type, name) \<Longrightarrow> \<exists>rule. first_of rs type = Some rule"
  by (auto simp: applies_def split: option.splits)



text \<open>A second rule of the same kind is never reached.\<close>

lemma second_rule_ignored:
  assumes "m_Ruleset r = Some [\<lparr>nodeType = MIME, nodeName = ''text/html'', actionList = a\<rparr>, \<lparr>nodeType = MIME, nodeName = ''image/png'', actionList = b\<rparr>]"
  shows "ruler_match MIME ''image/png'' r = (False, r)"
  using assms by (simp add: ruler_match_def)

end
