(* ===== verification/Spec2Isabelle.thy ===== *)
theory Spec2Isabelle
  imports Packer Par_Main Compat_Fnmatch Compat_Snprintf Quid_Base Quid_Zmalloc Mumux_Server
    Scrape_Ini Common_Hash Common_HashDB Common_Config Cynder_Store Chella_Sha1 Chella_Wal Extract_Ruler
begin

text \<open>
  \<^bold>\<open>Mavicona.\<close> The repository holds a small data platform: programs that pack jobs into archives, run them, scrape and
  sort data, and store records on a ring of nodes, and the C libraries they share. This development models the libraries and
  the parts of the services whose logic is in the repository, and proves what makes them correct. All paths are below
  \<open>src/\<close>. The target is the one the Makefiles build for, LP64.

  \<^bold>\<open>The parts and how they interact.\<close>
  \<^item> \<open>par\<close> is the archive library (a descendant of libtar) with its command line program. Archives are sequences of blocks of
    512 bytes; a handle carries the header of the current file and a hash table of what was already written or extracted.
    It uses the linked lists and hash tables of \<open>par/libtar_list.c\<close> and \<open>par/libtar_hash.c\<close>, the portability routines of
    \<open>compat\<close>, and identifiers of \<open>quid\<close> for the header of the archive file.
  \<^item> \<open>packer\<close> packs the files of a job with \<open>par\<close> after it checked them, and verifies and lists packages.
  \<^item> \<open>quid\<close> makes, prints and parses the identifiers of jobs and records, from a clock and an RC4 generator.
  \<^item> \<open>mumux\<close> is a web server in one process: a server owns an array of connections, each a state machine that reads a request
    head, parses it in place, calls the application, and answers it or becomes a web socket.
  \<^item> \<open>common\<close> holds what the services share: checksums, a hash table, URLs, directories, configuration files.
  \<^item> \<open>scrape\<close> collects data by INI files; \<open>extract\<close> applies rules to what was scraped; \<open>cynder\<close> stores it: a ring of hash values
    picks the node of a record, and a node keeps small contents in a data base and large ones in page files.
  \<^item> \<open>chella\<close> runs jobs; it names packages by a digest and logs every job, so that a crashed one can be recovered.

  \<^bold>\<open>Theories and sources.\<close> Each theory follows its source file routine by routine and keeps the names of the routines.
  \<^item> \<open>Prelude\<close>: machine types, C strings, bounds-checked arrays, the C library routines, reachable states, and the two
    interfaces \<open>inductive_invariant\<close> and \<open>simulation\<close>. \<open>Stdio\<close>: streams of bytes with a position.
  \<^item> \<open>Compat_Strings\<close> (\<open>compat/strlcpy.c\<close>, \<open>strlcat.c\<close>, \<open>strsep.c\<close>), \<open>Compat_Paths\<close> (\<open>basename.c\<close>, \<open>cdirname.c\<close>,
    \<open>mkdirhier.c\<close>, \<open>strrstr.c\<close>, \<open>strmode.c\<close>), \<open>Compat_Fnmatch\<close> (\<open>fnmatch.c\<close>), \<open>Compat_Getopt\<close> (\<open>getopt.c\<close>),
    \<open>Compat_Snprintf\<close> (\<open>snprintf.c\<close>).
  \<^item> \<open>Libtar_List\<close> and \<open>Libtar_Hash\<close>: nodes of lists live in an explicit store from addresses to cells, so that the changes of
    pointers in \<open>libtar_list_add\<close> and \<open>libtar_list_del\<close> are those of the code; a table is a list of buckets that hold such lists.
  \<^item> \<open>Par_Header\<close> (\<open>par/libpar.h\<close>, \<open>util.c\<close>, \<open>encode.c\<close>, \<open>decode.c\<close>): the header structure and its bytes. \<open>Par_Block\<close>
    (\<open>block.c\<close>): \<open>th_read\<close> and \<open>th_write\<close>. \<open>Par_Archive\<close> and \<open>Par_Append\<close> (\<open>append.c\<close>, \<open>extract.c\<close>, \<open>wrapper.c\<close>): files in
    and out of archives. \<open>Par_Handle\<close> (\<open>handle.c\<close>, \<open>list.c\<close>, \<open>util/parutil.c\<close>): archives as files. \<open>Par_Main\<close>: the program.
    \<open>Packer\<close> (\<open>packer/package.c\<close>, \<open>packer.c\<close>) is built on them.
  \<^item> \<open>Quid\<close> (\<open>quid/arc4random.c\<close>, \<open>quid.c\<close>), \<open>Quid_Base\<close> (\<open>itoa.c\<close>, \<open>error.c\<close>), \<open>Quid_Zmalloc\<close> (\<open>zmalloc.c\<close>).
  \<^item> \<open>Mumux_Sha\<close>, \<open>Mumux_Base64\<close>, \<open>Mumux_Text\<close> and \<open>Mumux_Frames\<close> (\<open>mumux/sha.c\<close>, \<open>base64.c\<close>, \<open>url.c\<close>, \<open>util.c\<close>): digests,
    encodings, texts, frame headers. \<open>Mumux_Conn\<close> (\<open>socket.c\<close>, \<open>connection.c\<close>): sockets, buffers, buffered output.
    \<open>Mumux_Request\<close> (\<open>request.c\<close>, \<open>response.c\<close>): requests and answers. \<open>Mumux_Server\<close> (\<open>server.c\<close>): the server.
  \<^item> \<open>Common_Hash\<close> (\<open>common/crc32.h\<close>, \<open>sdbm_hash.h\<close>), \<open>Common_HashDB\<close> (\<open>linklist.h\<close>, \<open>hdb.h\<close>), \<open>Common_Util\<close> (\<open>url.cpp\<close>,
    \<open>util.c\<close>), \<open>Common_Config\<close> (\<open>config.h\<close>), \<open>Scrape_Ini\<close> (\<open>scrape/ini.c\<close>).
  \<^item> \<open>Cynder_Ring\<close> (\<open>cynder/consistent_hash.h\<close>, the start of \<open>cynder.cpp\<close>), \<open>Cynder_Page\<close> (\<open>filepage.cpp\<close>), \<open>Cynder_Store\<close>
    (\<open>filebase.h\<close>, \<open>engine.cpp\<close>, the indexes, the handler of queries in \<open>cynder.cpp\<close>).
  \<^item> \<open>Chella_Sha1\<close> (\<open>chella/sha1.cpp\<close>), \<open>Chella_Wal\<close> (\<open>wal.cpp\<close>), \<open>Extract_Ruler\<close> (\<open>extract/ruler.cpp\<close> and \<open>parseData\<close> of
    \<open>extractor.cpp\<close>).

  \<^bold>\<open>State and effects.\<close> A structure is a record, or the bytes it occupies where the code writes it to a file or overruns it.
  Operations take the state and return it. \<open>None\<close> as the result of an operation is undefined behaviour of the program, or that
  it does not return; error returns and exceptions are values. What comes from outside is an argument: the outcomes of
  system calls and of the C allocator are schedules that the operations consume in the order of their calls, the clock and the
  random device are values, callbacks are functions, memory that was not initialised is a function from places to bytes.

  \<^bold>\<open>What is shown.\<close>
  \<^item> Archives: what the program packs it unpacks, with the same contents under safe names and in order; headers are read back
    as they were written, a damaged byte is noticed, and whatever is read has the shape of a header; inodes seen before
    become links to their first name; a tree is appended in preorder; names that are extracted have no \<open>..\<close> component; the
    options of the command line select the operation. A package whose first block is damaged passes its verification.
  \<^item> Lists and tables: insertion, deletion and merging on the store do what they do on sequences; a lookup finds the first
    datum that matches. The table of \<open>common/hdb.h\<close> behaves like lists of items per key for every sequence of operations, the
    allocator of \<open>quid\<close> frees exactly the hierarchy of a block.
  \<^item> Portability routines: the matcher decides what a pattern means; scanning of options ends, returns them in order and
    permutes the arguments stably; formatted output is what the C standard prescribes, with the exceptions that are stated,
    and never leaves the buffer.
  \<^item> Web server: both SHA-1 implementations compute the FIPS definition for any division of the message into pieces; base64 and
    chunked responses are decoded to what was encoded; output through the buffer is a stream; the tokenizer ends and stays in
    its string; in every reachable state of the server the connections in use are alive and fit the array; a connection
    follows its state machine, and a request nobody handles is answered once.
  \<^item> Storage: the ring maps a key to the nearest place at or behind its hash, so that adding or removing a node moves only the
    keys of that node; every key has a worker; a page file is a map from names to items that survives closing; a node
    answers queries like a map from identifiers to records and contents.
  \<^item> Jobs and rules: a log that was left behind is rolled back to its job just when the package exists; one rule decides about
    each piece of data.
  \<^item> Readers: the INI reader calls its handler for every pair and reports the first failing line; identifiers are parsed from
    what is printed; the checksum by table is the one bit by bit.

  Where the code does something else than it means to, a lemma next to the definition shows it on the model, for example that
  a page is never full, that a removed item can still be retrieved, that a refused insertion replaces a content, or that failures
  raise the chance of a job to be recovered.

  \<^bold>\<open>Interfaces.\<close> \<open>first_match_store\<close> and its extension \<open>listed_store\<close> state what the archive library relies on in its hash tables;
  they are interpreted by the tables of \<open>Libtar_Hash\<close>. \<open>ordered_map\<close> and its extension \<open>ring_map\<close> state the same for the map
  below the ring, and are interpreted by the ordered association list of \<open>Cynder_Ring\<close>. \<open>inductive_invariant\<close> is interpreted by
  the turns of the web server, \<open>simulation\<close> by the hash table of \<open>common\<close> and by the page files.

  \<^bold>\<open>Termination and bounds.\<close> Loops that always end are total functions with a measure. Loops that follow pointers or wait for a
  peer are least fixed points in \<open>option\<close>, without fuel; the theorems about them state that they return. Integers have their
  width where the code depends on it: words of 32 and 64 bits in hashes, digests, clocks, pages, and \<open>int\<close> where octal fields
  are printed. Sizes of buffers are those of the source.

  \<^bold>\<open>Not modelled.\<close> Message queues and the loops of the services around them, the data base libraries behind \<open>cynder\<close>, the
  embedded Python interpreter of \<open>packer\<close> and \<open>chella\<close>, serialised messages, and the type detection of \<open>extract\<close> are code from
  elsewhere: what the modelled code uses of them is a parameter. Generated code (\<open>protoc\<close>, the SQL parser of \<open>connect\<close>, the rule
  parser of \<open>extract\<close>) and vendored headers (\<open>common/json.h\<close>, \<open>common/cxxopts.h\<close>, \<open>cuzed\<close>) are left out, as are \<open>orchestrate\<close>,
  \<open>pitch\<close>, \<open>mavc\<close> and \<open>lib\<close>, which are threads and sockets around such libraries, the wrappers in \<open>compat\<close> of single
  system calls, logging, and usage texts. In \<open>compat/snprintf.c\<close> the floating point arithmetic is a parameter, and widths have no
  bound. \<open>errno\<close> is kept only where \<open>extract.c\<close> tests it; the branches for Windows and for the C library itself are not built.
\<close>

end
